(* ===== verification/Prelude.thy ===== *)
theory Prelude
  imports Main "HOL-Library.Word"
begin

text \<open>
  Shared vocabulary of the MetaDedup development: the machine types of the C++ sources, checked
  reads from a memory region, slices of byte strings, little-endian integers, and the named
  collections used by the component theories.
\<close>

unbundle bit_operations_syntax

section \<open>Machine types\<close>

type_synonym byte = "8 word"
type_synonym bytes = "8 word list"
type_synonym uint32 = "32 word"

named_theorems wf_simps \<open>well-formedness predicates of the components, unfolded\<close>
named_theorems layout_simps \<open>sizes of the packed and padded structs\<close>
named_theorems status_simps \<open>outcomes of the fallible operations\<close>

section \<open>Checked reads\<close>

text \<open>
  A read through a C++ pointer with an index. Outside the region the C++ program has undefined
  behaviour; the model returns None there.
\<close>

definition bufAt :: "'a list \<Rightarrow> int \<Rightarrow> 'a option" where
  "bufAt xs i = (if 0 \<le> i \<and> i < int (length xs) then Some (xs ! nat i) else None)"

lemma bufAt_in [simp]:
  assumes "i < length xs"
  shows "bufAt xs (int i) = Some (xs ! i)"
  using assms by (simp add: bufAt_def)

lemma bufAt_neg: "i < 0 \<Longrightarrow> bufAt xs i = None"
  by (simp add: bufAt_def)

lemma bufAt_Some_iff: "bufAt xs i = Some x \<longleftrightarrow> 0 \<le> i \<and> i < int (length xs) \<and> x = xs ! nat i"
  by (auto simp: bufAt_def)

section \<open>Slices\<close>

text \<open>The \<open>len\<close> elements of \<open>xs\<close> from offset \<open>off\<close> on, as \<open>memcpy\<close> copies them.\<close>

definition slice :: "nat \<Rightarrow> nat \<Rightarrow> 'a list \<Rightarrow> 'a list" where
  "slice off len xs = take len (drop off xs)"

lemma length_slice [simp]: "length (slice off len xs) = min len (length xs - off)"
  by (simp add: slice_def)

lemma slice_nth [simp]: "i < len \<Longrightarrow> off + i < length xs \<Longrightarrow> slice off len xs ! i = xs ! (off + i)"
  by (simp add: slice_def)

lemma slice_zero [simp]: "slice off 0 xs = []"
  by (simp add: slice_def)

lemma slice_all [simp]: "slice 0 (length xs) xs = xs"
  by (simp add: slice_def)

lemma slice_append_left: "off + len \<le> length xs \<Longrightarrow> slice off len (xs @ ys) = slice off len xs"
  by (simp add: slice_def)

lemma slice_append_right: "length xs \<le> off \<Longrightarrow> slice off len (xs @ ys) = slice (off - length xs) len ys"
  by (simp add: slice_def)

lemma slice_at_end [simp]: "slice (length xs) (length ys) (xs @ ys) = ys"
  by (simp add: slice_def)

lemma slice_at_end_more [simp]: "slice (length xs) (length ys) (xs @ ys @ zs) = ys"
  by (simp add: slice_def)

lemma slice_concat: "slice off a xs @ slice (off + a) b xs = slice off (a + b) xs"
  by (simp add: slice_def take_add add.commute [of off a])

section \<open>Index ranges\<close>

lemma upt_shift: "[d + a..<d + b] = map ((+) d) [a..<b]"
  by (induction b) auto

lemma find_upt_Cons:
  "a < b \<Longrightarrow> find P [a..<b] = (if P a then Some a else find P [Suc a..<b])"
  by (simp add: upt_conv_Cons)

lemma find_upt_range:
  assumes "find P [a..<b] = Some e"
  shows "a \<le> e \<and> e < b \<and> P e \<and> (\<forall>j. a \<le> j \<and> j < e \<longrightarrow> \<not> P j)"
proof -
  from assms obtain i where i: "i < length [a..<b]" "P ([a..<b] ! i)" "e = [a..<b] ! i"
    and before: "\<forall>j<i. \<not> P ([a..<b] ! j)"
    by (auto simp: find_Some_iff)
  have e: "e = a + i" "i < b - a" using i by auto
  have "\<not> P j" if "a \<le> j" "j < e" for j
    using before [rule_format, of "j - a"] that e by auto
  then show ?thesis using i e by auto
qed

section \<open>Equal-sized blocks\<close>

lemma length_concat_rows: "(\<And>i. i < n \<Longrightarrow> length (f i) = w) \<Longrightarrow> length (concat (map f [0..<n])) = w * n"
  by (induction n) auto

lemma slice_concat_rows:
  assumes "\<And>i. i < n \<Longrightarrow> length (f i) = w" "i < n"
  shows "slice (w * i) w (concat (map f [0..<n])) = f i"
  using assms
proof (induction n)
  case 0
  then show ?case by simp
next
  case (Suc n)
  have len: "length (concat (map f [0..<n])) = w * n"
    using Suc.prems by (intro length_concat_rows) simp
  show ?case
  proof (cases "i = n")
    case True
    then show ?thesis using len Suc.prems by (simp add: slice_def)
  next
    case False
    then have "w * i + w \<le> w * n" using Suc.prems by (metis Suc_leI less_SucE mult_Suc_right mult_le_mono2 add.commute)
    then show ?thesis using Suc False len by (simp add: slice_append_left)
  qed
qed

lemma concat_slices: "length xs = w * n \<Longrightarrow> concat (map (\<lambda>i. slice (w * i) w xs) [0..<n]) = xs"
proof -
  have "concat (map (\<lambda>i. slice (w * i) w xs) [0..<n]) = take (w * n) xs" for n
    by (induction n) (simp_all add: slice_def add.commute flip: take_add)
  then show "length xs = w * n \<Longrightarrow> concat (map (\<lambda>i. slice (w * i) w xs) [0..<n]) = xs" by simp
qed

lemma concat_rows_nth:
  assumes "i < n" "j < k"
  shows "concat (map (\<lambda>i. map (f i) [0..<k]) [0..<n]) ! (k * i + j) = f i j"
proof -
  have "slice (k * i) k (concat (map (\<lambda>i. map (f i) [0..<k]) [0..<n])) = map (f i) [0..<k]"
    using assms by (intro slice_concat_rows) auto
  then have "slice (k * i) k (concat (map (\<lambda>i. map (f i) [0..<k]) [0..<n])) ! j = f i j"
    using assms by simp
  moreover have "length (concat (map (\<lambda>i. map (f i) [0..<k]) [0..<n])) = k * n"
    by (rule length_concat_rows) simp
  ultimately show ?thesis using assms by (simp add: slice_def)
qed

section \<open>Fallible computations\<close>

text \<open>A computation that returns early with an error, as the C++ code does with \<open>return 0\<close>.\<close>

fun bindR :: "'e + 'a \<Rightarrow> ('a \<Rightarrow> 'e + 'b) \<Rightarrow> 'e + 'b" where
  "bindR (Inl e) f = Inl e"
| "bindR (Inr x) f = f x"

lemma bindR_Inr_iff [status_simps]: "bindR r f = Inr y \<longleftrightarrow> (\<exists>x. r = Inr x \<and> f x = Inr y)"
  by (cases r) auto

lemma bindR_assoc: "bindR (bindR r f) g = bindR r (\<lambda>x. bindR (f x) g)"
  by (cases r) auto

text \<open>A guard: the error when the condition of the source's \<open>if\<close> holds.\<close>

definition failIf :: "bool \<Rightarrow> 'e \<Rightarrow> 'e + unit" where
  "failIf b e = (if b then Inl e else Inr ())"

lemma failIf_Inr_iff [status_simps]: "failIf b e = Inr u \<longleftrightarrow> \<not> b"
  by (simp add: failIf_def)

lemma failIf_False [simp]: "\<not> b \<Longrightarrow> failIf b e = Inr ()"
  by (simp add: failIf_def)

lemma failIf_True [simp]: "b \<Longrightarrow> failIf b e = Inl e"
  by (simp add: failIf_def)

text \<open>The results of a loop that stops at the first failing element.\<close>

primrec mapR :: "('a \<Rightarrow> 'e + 'b) \<Rightarrow> 'a list \<Rightarrow> 'e + 'b list" where
  "mapR f [] = Inr []"
| "mapR f (x # xs) = bindR (f x) (\<lambda>y. bindR (mapR f xs) (\<lambda>ys. Inr (y # ys)))"

lemma mapR_total: "(\<And>x. x \<in> set xs \<Longrightarrow> f x = Inr (g x)) \<Longrightarrow> mapR f xs = Inr (map g xs)"
  by (induction xs) auto

lemma mapR_Inr_iff: "mapR f xs = Inr ys \<longleftrightarrow> list_all2 (\<lambda>x y. f x = Inr y) xs ys"
  by (induction xs arbitrary: ys) (auto simp: status_simps list_all2_Cons1)

section \<open>Exclusive or\<close>

definition xorBytes :: "bytes \<Rightarrow> bytes \<Rightarrow> bytes" where
  "xorBytes xs ys = map2 (XOR) xs ys"

lemma length_xorBytes [simp]: "length (xorBytes xs ys) = min (length xs) (length ys)"
  by (simp add: xorBytes_def)

lemma xorBytes_nth [simp]:
  "i < length xs \<Longrightarrow> i < length ys \<Longrightarrow> xorBytes xs ys ! i = xs ! i XOR ys ! i"
  by (simp add: xorBytes_def)

lemma xorBytes_cancel: "length xs = length ys \<Longrightarrow> xorBytes (xorBytes xs ys) ys = xs"
  by (rule nth_equalityI) (auto simp: xor.assoc)

lemma xorBytes_commute: "xorBytes xs ys = xorBytes ys xs"
  by (auto intro!: nth_equalityI simp: xor.commute)

lemma xorBytes_cancel_left: "length xs = length ys \<Longrightarrow> xorBytes xs (xorBytes xs ys) = ys"
  by (metis xorBytes_cancel xorBytes_commute)

end
