(* ===== verification/Chunker.thy ===== *)
theory Chunker
  imports Prelude
begin

text \<open>
  The content-defined chunker of the client (client/chunking/chunker.cc): the constructor with its
  lookup tables, fixed-size and variable-size chunking. The variable-size routine moves a window
  over the buffer with a rolling hash in 32-bit arithmetic; it is shown to implement a reference
  definition that recomputes the fingerprint of every window from scratch.
\<close>

section \<open>The object\<close>

record chunker =
  chunkerType :: bool
  avgChunkSize :: int
  minChunkSize :: int
  maxChunkSize :: int
  slidingWinSize :: int
  polyBase :: uint32
  polyMOD :: uint32
  powerLUT :: "uint32 list"
  removeLUT :: "uint32 list"
  anchorMask :: uint32
  anchorValue :: uint32

definition FIX_SIZE_TYPE :: bool where "FIX_SIZE_TYPE = False"
definition VAR_SIZE_TYPE :: bool where "VAR_SIZE_TYPE = True"

datatype chunker_error =
    MinNotSmaller     \<comment> \<open>exit(1): minChunkSize is not smaller than avgChunkSize\<close>
  | MaxNotLarger      \<comment> \<open>exit(1): maxChunkSize is not larger than avgChunkSize\<close>
  | BadWindow         \<comment> \<open>powerLUT is written at index 0 and read at slidingWinSize - 1\<close>
  | MaskDiverges      \<comment> \<open>the mask loop never meets 1\<close>

text \<open>powerLUT[i] is filled left to right from powerLUT[i-1].\<close>

primrec mkPowerLUT :: "uint32 \<Rightarrow> uint32 \<Rightarrow> nat \<Rightarrow> uint32 list" where
  "mkPowerLUT base md 0 = [1]"
| "mkPowerLUT base md (Suc i) =
     (let lut = mkPowerLUT base md i in lut @ [(last lut * base) AND (md - 1)])"

definition mkRemoveEntry :: "uint32 \<Rightarrow> uint32 \<Rightarrow> nat \<Rightarrow> uint32" where
  "mkRemoveEntry md p i =
     (let r = (of_nat i * p) AND (md - 1) in if r \<noteq> 0 then md - r else r)"

text \<open>
  The search for the number of mask bits. A shift by 32 or more is undefined for a 32-bit int, so
  the search stops there without a result.
\<close>

function maskBits :: "int \<Rightarrow> nat \<Rightarrow> nat option" where
  "maskBits avg bits =
     (if 32 \<le> bits then None
      else if avg div 2 ^ bits = 1 then Some bits
      else maskBits avg (bits + 1))"
  by pat_completeness auto
termination by (relation "measure (\<lambda>(_, bits). 32 - bits)") auto

declare maskBits.simps [simp del]

text \<open>polyMOD = 1 << 23, so that polyMOD - 1 keeps the last 23 bits.\<close>

definition polyModulus :: uint32 where
  "polyModulus = push_bit 23 1"

definition mkChunker :: "bool \<Rightarrow> int \<Rightarrow> int \<Rightarrow> int \<Rightarrow> int \<Rightarrow> chunker_error + chunker" where
  "mkChunker type avg mn mx win =
     (if type = FIX_SIZE_TYPE then
        Inr \<lparr> chunkerType = type, avgChunkSize = avg, minChunkSize = 0, maxChunkSize = 0,
              slidingWinSize = 0, polyBase = 0, polyMOD = 0, powerLUT = [], removeLUT = [],
              anchorMask = 0, anchorValue = 0 \<rparr>
      else if mn \<ge> avg then Inl MinNotSmaller
      else if mx \<le> avg then Inl MaxNotLarger
      else if win < 1 then Inl BadWindow
      else
        let base = 257; md = polyModulus;
            pl = mkPowerLUT base md (nat win - 1);
            rl = map (mkRemoveEntry md (pl ! (nat win - 1))) [0..<256]
        in case maskBits avg 1 of
             None \<Rightarrow> Inl MaskDiverges
           | Some bits \<Rightarrow>
               Inr \<lparr> chunkerType = type, avgChunkSize = avg, minChunkSize = mn, maxChunkSize = mx,
                     slidingWinSize = win, polyBase = base, polyMOD = md, powerLUT = pl,
                     removeLUT = rl, anchorMask = push_bit bits 1 - 1, anchorValue = 0 \<rparr>)"

text \<open>The default arguments of the constructor.\<close>

definition defaultChunker :: "chunker_error + chunker" where
  "defaultChunker = mkChunker VAR_SIZE_TYPE (8 * 1024) (2 * 1024) (16 * 1024) 48"

section \<open>Chunking\<close>

text \<open>
  A buffer is the memory behind the pointer; bufferSize says how much of it is filled. The end
  indices are returned as the list the caller finds in chunkEndIndexList, its length being
  numOfChunks. None stands for a read outside the buffer or for a loop that does not end. The
  indices stay below bufferSize plus the maximal chunk size, so that the int variables of the code
  do not overflow for the buffers of 128 MB that the client uses.
\<close>

definition addTail :: "int \<Rightarrow> int list \<Rightarrow> int list" where
  "addTail bufferSize ends =
     (if ends = [] \<or> last ends \<noteq> bufferSize - 1 then ends @ [bufferSize - 1] else ends)"

partial_function (option) fixLoop :: "int \<Rightarrow> int \<Rightarrow> int \<Rightarrow> int list \<Rightarrow> int list option" where
  "fixLoop avg bufferSize chunkEndIndex ends =
     (if chunkEndIndex < bufferSize
      then fixLoop avg bufferSize (chunkEndIndex + avg) (ends @ [chunkEndIndex])
      else Some ends)"

declare fixLoop.simps [code]

definition fixSizeChunking :: "chunker \<Rightarrow> bytes \<Rightarrow> int \<Rightarrow> int list option" where
  "fixSizeChunking c buffer bufferSize =
     map_option (addTail bufferSize)
       (fixLoop (avgChunkSize c) bufferSize (-1 + avgChunkSize c) [])"

text \<open>The fingerprint of the first window of a chunk: one step of the loop per byte.\<close>

primrec firstWindow :: "chunker \<Rightarrow> bytes \<Rightarrow> int \<Rightarrow> nat list \<Rightarrow> uint32 \<Rightarrow> uint32 option" where
  "firstWindow c buffer e [] winFp = Some (winFp AND (polyMOD c - 1))"
| "firstWindow c buffer e (i # is) winFp =
     (case bufAt buffer (e - int i) of
        None \<Rightarrow> None
      | Some b \<Rightarrow> firstWindow c buffer e is
                   (winFp + ((ucast b * powerLUT c ! i) AND (polyMOD c - 1))))"

function rollWindow :: "chunker \<Rightarrow> bytes \<Rightarrow> int \<Rightarrow> int \<Rightarrow> uint32 \<Rightarrow> int option" where
  "rollWindow c buffer limit e winFp =
     (if winFp AND anchorMask c \<noteq> anchorValue c \<and> e < limit then
        (case (bufAt buffer (e + 1 - slidingWinSize c), bufAt buffer (e + 1)) of
           (Some out, Some inn) \<Rightarrow>
             rollWindow c buffer limit (e + 1)
               (((winFp + removeLUT c ! unat out) * polyBase c + ucast inn) AND (polyMOD c - 1))
         | _ \<Rightarrow> None)
      else Some e)"
  by pat_completeness auto
termination by (relation "measure (\<lambda>(_, _, limit, e, _). nat (limit - e))") auto

declare rollWindow.simps [simp del]

partial_function (option) varLoop ::
  "chunker \<Rightarrow> bytes \<Rightarrow> int \<Rightarrow> int \<Rightarrow> int \<Rightarrow> int list \<Rightarrow> int list option" where
  "varLoop c buffer bufferSize chunkEndIndex chunkEndIndexLimit ends =
     (if chunkEndIndex < bufferSize then
        (let limit = (if chunkEndIndexLimit \<ge> bufferSize then bufferSize - 1 else chunkEndIndexLimit)
         in case firstWindow c buffer chunkEndIndex [0..<nat (slidingWinSize c)] 0 of
              None \<Rightarrow> None
            | Some winFp \<Rightarrow>
                (case rollWindow c buffer limit chunkEndIndex winFp of
                   None \<Rightarrow> None
                 | Some e \<Rightarrow> varLoop c buffer bufferSize (e + minChunkSize c) (e + maxChunkSize c)
                              (ends @ [e])))
      else Some ends)"

declare varLoop.simps [code]

definition varSizeChunking :: "chunker \<Rightarrow> bytes \<Rightarrow> int \<Rightarrow> int list option" where
  "varSizeChunking c buffer bufferSize =
     map_option (addTail bufferSize)
       (varLoop c buffer bufferSize (-1 + minChunkSize c) (-1 + maxChunkSize c) [])"

definition chunking :: "chunker \<Rightarrow> bytes \<Rightarrow> int \<Rightarrow> int list option" where
  "chunking c buffer bufferSize =
     (if chunkerType c = FIX_SIZE_TYPE then fixSizeChunking c buffer bufferSize
      else varSizeChunking c buffer bufferSize)"

section \<open>Reference definition\<close>

text \<open>The fingerprint of the \<open>w\<close> bytes ending at index \<open>e\<close>, recomputed from scratch.\<close>

definition windowFp :: "nat \<Rightarrow> bytes \<Rightarrow> nat \<Rightarrow> int" where
  "windowFp w buffer e = (\<Sum>i<w. uint (buffer ! (e - i)) * 257 ^ i) mod 2 ^ 23"

definition isAnchor :: "nat \<Rightarrow> nat \<Rightarrow> bytes \<Rightarrow> nat \<Rightarrow> bool" where
  "isAnchor w bits buffer e = (2 ^ bits dvd windowFp w buffer e)"

text \<open>The end of the chunk that starts at \<open>s\<close>, for a buffer filled up to \<open>n\<close>.\<close>

definition cutPoint :: "nat \<Rightarrow> nat \<Rightarrow> nat \<Rightarrow> nat \<Rightarrow> bytes \<Rightarrow> nat \<Rightarrow> nat \<Rightarrow> nat" where
  "cutPoint w bits mn mx buffer n s =
     (if n < s + mn then n - 1
      else case find (isAnchor w bits buffer) [s + mn - 1..<min (s + mx) n] of
             Some e \<Rightarrow> e
           | None \<Rightarrow> min (s + mx) n - 1)"

function cutEnds :: "nat \<Rightarrow> nat \<Rightarrow> nat \<Rightarrow> nat \<Rightarrow> bytes \<Rightarrow> nat \<Rightarrow> nat \<Rightarrow> nat list" where
  "cutEnds w bits mn mx buffer n s =
     (if s < n \<and> 0 < mn \<and> mn \<le> mx then
        let e = cutPoint w bits mn mx buffer n s in e # cutEnds w bits mn mx buffer n (Suc e)
      else [])"
  by pat_completeness auto

lemma cutPoint_bounds:
  assumes "s < n" "0 < mn" "mn \<le> mx"
  shows "s \<le> cutPoint w bits mn mx buffer n s" "cutPoint w bits mn mx buffer n s < n"
    "cutPoint w bits mn mx buffer n s < s + mx"
    "cutPoint w bits mn mx buffer n s \<noteq> n - 1 \<Longrightarrow> s + mn \<le> Suc (cutPoint w bits mn mx buffer n s)"
  using assms by (auto simp: cutPoint_def split: option.splits dest!: find_upt_range)

termination cutEnds
proof (relation "measure (\<lambda>(_, _, _, _, _, n, s). n - s)", goal_cases)
  case 1
  show ?case by simp
next
  case (2 w bits mn mx buffer n s e)
  then show ?case using cutPoint_bounds(1,2) [of s n mn mx w bits buffer] by auto
qed

declare cutEnds.simps [simp del]

section \<open>The tables\<close>

text \<open>Masking with polyMOD - 1 is reduction modulo 2^23, which commutes with 32-bit wrap-around.\<close>

definition red :: "uint32 \<Rightarrow> int" where
  "red x = uint x mod 2 ^ 23"

lemma uint_mask23: "uint (x AND (polyModulus - 1)) = red x"
proof -
  have "x AND (polyModulus - 1) = take_bit 23 x"
    by (simp add: take_bit_eq_mask mask_eq_exp_minus_1 polyModulus_def)
  then show ?thesis by (simp only: red_def unsigned_take_bit_eq) (simp add: take_bit_eq_mod)
qed

lemma red_add: "red (x + y) = (red x + red y) mod 2 ^ 23"
  by (simp add: red_def uint_word_ariths mod_mod_cancel mod_add_eq)

lemma red_mult: "red (x * y) = (red x * red y) mod 2 ^ 23"
  by (simp add: red_def uint_word_ariths mod_mod_cancel mod_mult_eq)

lemma red_mask: "red (x AND (polyModulus - 1)) = red x"
  by (simp add: red_def uint_mask23)

lemma red_ucast [simp]: "red (ucast (b :: byte)) = uint b"
proof -
  have "uint b < 2 ^ 8" using uint_lt2p [of b] by simp
  then show ?thesis
    by (simp add: red_def unsigned_ucast_eq take_bit_eq_mod)
qed

lemma red_of_nat: "red (of_nat i) = int i mod 2 ^ 23"
  by (simp add: red_def uint_word_of_int_eq unsigned_of_nat take_bit_eq_mod mod_mod_cancel zmod_int)

lemma red_257 [simp]: "red 257 = 257"
  by (simp add: red_def)

lemma length_mkPowerLUT [simp]: "length (mkPowerLUT b m n) = Suc n"
  by (induction n) (auto simp: Let_def)

lemma mkPowerLUT_ne [simp]: "mkPowerLUT b m n \<noteq> []"
  by (metis length_mkPowerLUT list.size(3) nat.distinct(1))

lemma mkPowerLUT_nth:
  "i \<le> n \<Longrightarrow> uint (mkPowerLUT 257 (polyModulus) n ! i) = 257 ^ i mod 2 ^ 23"
proof (induction n arbitrary: i)
  case 0
  then show ?case by simp
next
  case (Suc n)
  let ?lut = "mkPowerLUT 257 (polyModulus) n"
  show ?case
  proof (cases "i = Suc n")
    case True
    have "last ?lut = ?lut ! n" by (simp add: last_conv_nth)
    then have "red (last ?lut) = 257 ^ n mod 2 ^ 23"
      using Suc.IH [of n] by (simp add: red_def)
    then have "uint ((last ?lut * 257) AND (polyModulus - 1)) = 257 ^ Suc n mod 2 ^ 23"
      by (simp add: uint_mask23 red_mult mod_mult_right_eq mult.commute)
    then show ?thesis using True by (simp add: Let_def nth_append)
  next
    case False
    then show ?thesis using Suc by (simp add: Let_def nth_append)
  qed
qed

lemma mkRemoveEntry_red:
  assumes "uint p = P mod 2 ^ 23" "i < 256"
  shows "red (mkRemoveEntry (polyModulus) p i) = (- (int i * P)) mod 2 ^ 23"
proof -
  define r where "r = (of_nat i * p) AND (polyModulus - 1)"
  have r: "uint r = (int i * P) mod 2 ^ 23"
    using assms by (simp add: r_def uint_mask23 red_mult red_of_nat)
      (simp add: red_def mod_mult_eq mod_mult_right_eq)
  have lt: "uint r < 2 ^ 23" by (simp add: r)
  show ?thesis
  proof (cases "r = 0")
    case True
    then have "(int i * P) mod 2 ^ 23 = 0" using r by simp
    then show ?thesis using True
      by (simp add: mkRemoveEntry_def Let_def flip: r_def) (simp add: red_def mod_eq_0_iff_dvd)
  next
    case False
    have "uint (polyModulus - r) = 2 ^ 23 - uint r"
      using lt by (simp add: uint_sub_if' polyModulus_def)
    then have "red (polyModulus - r) = (2 ^ 23 - (int i * P) mod 2 ^ 23) mod 2 ^ 23"
      by (simp add: red_def r)
    also have "\<dots> = (- (int i * P)) mod 2 ^ 23"
      by (metis minus_mod_self1 mod_minus_eq uminus_add_conv_diff minus_mod_self2 mod_add_self2 add.commute diff_conv_add_uminus)
    finally show ?thesis using False
      by (simp add: mkRemoveEntry_def Let_def flip: r_def)
  qed
qed

section \<open>The variable-size routine meets the reference\<close>

text \<open>What the constructor guarantees of a variable-size chunker with usable parameters.\<close>

definition wf_chunker :: "nat \<Rightarrow> nat \<Rightarrow> nat \<Rightarrow> nat \<Rightarrow> chunker \<Rightarrow> bool" where
  "wf_chunker w bits mn mx c \<longleftrightarrow>
     chunkerType c = VAR_SIZE_TYPE \<and>
     minChunkSize c = int mn \<and> maxChunkSize c = int mx \<and> slidingWinSize c = int w \<and>
     0 < w \<and> w \<le> mn \<and> mn \<le> mx \<and> bits < 32 \<and>
     polyBase c = 257 \<and> polyMOD c = polyModulus \<and>
     powerLUT c = mkPowerLUT 257 polyModulus (w - 1) \<and>
     removeLUT c = map (mkRemoveEntry polyModulus (powerLUT c ! (w - 1))) [0..<256] \<and>
     anchorMask c = push_bit bits 1 - 1 \<and> anchorValue c = 0"

lemma maskBits_bound: "maskBits avg b = Some bits \<Longrightarrow> bits < 32"
  by (induction avg b rule: maskBits.induct) (subst (asm) (2) maskBits.simps, auto split: if_splits)

lemma mkChunker_wf:
  assumes "mkChunker VAR_SIZE_TYPE avg mn mx win = Inr c" "0 < win" "win \<le> mn"
  obtains bits where "maskBits avg 1 = Some bits" "wf_chunker (nat win) bits (nat mn) (nat mx) c"
proof -
  from assms obtain bits where bits: "maskBits avg 1 = Some bits"
    by (auto simp: mkChunker_def Let_def VAR_SIZE_TYPE_def FIX_SIZE_TYPE_def
        split: if_splits option.splits)
  have "wf_chunker (nat win) bits (nat mn) (nat mx) c"
    using assms bits maskBits_bound [OF bits]
    by (auto simp: mkChunker_def Let_def wf_chunker_def VAR_SIZE_TYPE_def FIX_SIZE_TYPE_def
        split: if_splits)
  then show thesis using bits that by blast
qed

lemma removeLUT_red:
  assumes "wf_chunker w bits mn mx c"
  shows "red (removeLUT c ! unat (b :: byte)) = (- (uint b * 257 ^ (w - 1))) mod 2 ^ 23"
proof -
  have lt: "unat b < 256" using unsigned_less [of b, where ?'a = nat] by simp
  have "red (mkRemoveEntry polyModulus (powerLUT c ! (w - 1)) (unat b)) =
      (- (int (unat b) * 257 ^ (w - 1))) mod 2 ^ 23"
    by (rule mkRemoveEntry_red [OF _ lt]) (use assms in \<open>simp add: wf_chunker_def mkPowerLUT_nth\<close>)
  then show ?thesis using assms lt by (simp add: wf_chunker_def)
qed

lemma firstWindow_sum:
  assumes wf: "wf_chunker w bits mn mx c" and len: "e < length buffer" and "k \<le> w" "w \<le> Suc e"
  shows "\<exists>v. firstWindow c buffer (int e) [k..<w] acc = Some v \<and>
    uint v = (red acc + (\<Sum>i=k..<w. uint (buffer ! (e - i)) * 257 ^ i)) mod 2 ^ 23"
  using \<open>k \<le> w\<close>
proof (induction "w - k" arbitrary: k acc)
  case 0
  then show ?case using wf by (simp add: wf_chunker_def uint_mask23) (simp add: red_def)
next
  case (Suc d)
  then have k: "k < w" and d: "d = w - Suc k" by simp_all
  then have upt: "[k..<w] = k # [Suc k..<w]" by (simp add: upt_conv_Cons)
  have rd: "bufAt buffer (int e - int k) = Some (buffer ! (e - k))"
    using k assms bufAt_in [of "e - k" buffer] by (simp add: of_nat_diff)
  let ?t = "(ucast (buffer ! (e - k)) * powerLUT c ! k) AND (polyMOD c - 1)"
  have "red (powerLUT c ! k) = 257 ^ k mod 2 ^ 23"
    using wf k by (simp add: red_def wf_chunker_def mkPowerLUT_nth)
  moreover have "polyMOD c = polyModulus" using wf by (simp add: wf_chunker_def)
  ultimately have t: "red ?t = (uint (buffer ! (e - k)) * 257 ^ k) mod 2 ^ 23"
    by (simp only: red_mask red_mult red_ucast mod_mult_right_eq)
  obtain v where v: "firstWindow c buffer (int e) [Suc k..<w] (acc + ?t) = Some v"
    "uint v = (red (acc + ?t) + (\<Sum>i=Suc k..<w. uint (buffer ! (e - i)) * 257 ^ i)) mod 2 ^ 23"
    using Suc.hyps(1) [of "Suc k" "acc + ?t", OF d Suc_leI [OF k]] by blast
  have "uint v = (red acc + (\<Sum>i=k..<w. uint (buffer ! (e - i)) * 257 ^ i)) mod 2 ^ 23"
    by (simp only: v(2) red_add t mod_simps sum.atLeast_Suc_lessThan [OF k] add.assoc)
  then show ?case unfolding upt using v(1) by (simp add: rd)
qed

lemma firstWindow_fp:
  assumes "wf_chunker w bits mn mx c" "e < length buffer" "w \<le> Suc e"
  obtains v where "firstWindow c buffer (int e) [0..<w] 0 = Some v" "uint v = windowFp w buffer e"
proof -
  have "red 0 = 0" by (simp add: red_def)
  then show ?thesis
    using firstWindow_sum [OF assms(1,2) _ assms(3), of 0 0] that
    by (auto simp: windowFp_def atLeast0LessThan)
qed

text \<open>Sliding by one byte, on the integers.\<close>

lemma windowFp_roll:
  assumes "0 < w" "w \<le> Suc e"
  shows "windowFp w buffer (Suc e) =
    ((windowFp w buffer e - uint (buffer ! (Suc e - w)) * 257 ^ (w - 1)) * 257
      + uint (buffer ! Suc e)) mod 2 ^ 23"
proof -
  obtain k where w: "w = Suc k" using \<open>0 < w\<close> by (cases w) auto
  define f where "f e i = uint (buffer ! (e - i)) * 257 ^ i" for e i
  have "(\<Sum>i<w. f (Suc e) i) = uint (buffer ! Suc e) + (\<Sum>i<k. f (Suc e) (Suc i))"
    by (simp add: w sum.lessThan_Suc_shift f_def del: sum.lessThan_Suc)
  also have "(\<Sum>i<k. f (Suc e) (Suc i)) = (\<Sum>i<k. f e i) * 257"
    by (simp add: f_def sum_distrib_right mult.assoc mult.commute [of 257])
  also have "(\<Sum>i<k. f e i) = (\<Sum>i<w. f e i) - uint (buffer ! (Suc e - w)) * 257 ^ (w - 1)"
    by (simp add: w f_def)
  finally have sum: "(\<Sum>i<w. f (Suc e) i) =
      ((\<Sum>i<w. f e i) - uint (buffer ! (Suc e - w)) * 257 ^ (w - 1)) * 257 + uint (buffer ! Suc e)"
    by simp
  show ?thesis
    unfolding windowFp_def f_def [symmetric] sum
    by (intro mod_add_cong mod_mult_cong mod_diff_cong) simp_all
qed

lemma roll_step:
  assumes wf: "wf_chunker w bits mn mx c" and fp: "uint v = windowFp w buffer e" and "w \<le> Suc e"
  shows "uint (((v + removeLUT c ! unat (buffer ! (Suc e - w))) * polyBase c
      + ucast (buffer ! Suc e)) AND (polyMOD c - 1)) = windowFp w buffer (Suc e)"
proof -
  have "red v = uint v" by (simp add: red_def fp windowFp_def)
  then have "uint (((v + removeLUT c ! unat (buffer ! (Suc e - w))) * 257
      + ucast (buffer ! Suc e)) AND (polyModulus - 1)) =
      ((uint v - uint (buffer ! (Suc e - w)) * 257 ^ (w - 1)) * 257 + uint (buffer ! Suc e)) mod 2 ^ 23"
    by (simp add: uint_mask23 red_add red_mult removeLUT_red [OF wf] mod_simps)
  also have "\<dots> = windowFp w buffer (Suc e)"
    using wf assms by (simp add: windowFp_roll wf_chunker_def)
  finally show ?thesis using wf by (simp add: wf_chunker_def)
qed

lemma anchor_test:
  assumes wf: "wf_chunker w bits mn mx c" and fp: "uint v = windowFp w buffer e"
  shows "v AND anchorMask c = anchorValue c \<longleftrightarrow> isAnchor w bits buffer e"
proof -
  have "v AND anchorMask c = take_bit bits v"
    using wf by (simp add: wf_chunker_def take_bit_eq_mask mask_eq_exp_minus_1 push_bit_eq_mult)
  moreover have "take_bit bits v = 0 \<longleftrightarrow> uint (take_bit bits v) = 0"
    by (simp only: unsigned_eq_0_iff)
  moreover have "uint (take_bit bits v) = uint v mod 2 ^ bits"
    by (simp only: unsigned_take_bit_eq) (simp add: take_bit_eq_mod)
  ultimately show ?thesis
    using wf fp by (simp add: wf_chunker_def isAnchor_def dvd_eq_mod_eq_0)
qed

lemma rollWindow_find:
  assumes wf: "wf_chunker w bits mn mx c" and "limit < length buffer"
  shows "uint v = windowFp w buffer e \<Longrightarrow> w \<le> Suc e \<Longrightarrow> e \<le> limit \<Longrightarrow>
    rollWindow c buffer (int limit) (int e) v =
      Some (int (case find (isAnchor w bits buffer) [e..<Suc limit] of Some j \<Rightarrow> j | None \<Rightarrow> limit))"
proof (induction "limit - e" arbitrary: e v)
  case 0
  then have "e = limit" by simp
  then show ?case
    by (subst rollWindow.simps) (simp add: find_upt_Cons)
next
  case (Suc d)
  then have lt: "e < limit" and d: "d = limit - Suc e" by simp_all
  show ?case
  proof (cases "isAnchor w bits buffer e")
    case True
    then show ?thesis
      using Suc.prems anchor_test [OF wf, of v buffer e] lt
      by (subst rollWindow.simps) (simp add: find_upt_Cons del: upt_Suc)
  next
    case False
    have out: "bufAt buffer (int e + 1 - slidingWinSize c) = Some (buffer ! (Suc e - w))"
      using bufAt_in [of "Suc e - w" buffer] Suc.prems lt assms
      by (simp add: wf_chunker_def of_nat_diff add.commute [of 1])
    have inn: "bufAt buffer (int e + 1) = Some (buffer ! Suc e)"
      using bufAt_in [of "Suc e" buffer] lt assms by (simp add: add.commute)
    let ?v = "((v + removeLUT c ! unat (buffer ! (Suc e - w))) * polyBase c
      + ucast (buffer ! Suc e)) AND (polyMOD c - 1)"
    have "rollWindow c buffer (int limit) (int e) v = rollWindow c buffer (int limit) (int e + 1) ?v"
      using False Suc.prems anchor_test [OF wf, of v buffer e] lt
      by (subst rollWindow.simps) (simp add: out inn)
    also have "\<dots> = rollWindow c buffer (int limit) (int (Suc e)) ?v"
      by (simp add: add.commute)
    also have "\<dots> = Some (int (case find (isAnchor w bits buffer) [Suc e..<Suc limit] of
        Some j \<Rightarrow> j | None \<Rightarrow> limit))"
      using Suc.hyps(1) [OF d roll_step [OF wf Suc.prems(1,2)]] Suc.prems lt by simp
    finally show ?thesis
      using False lt find_upt_Cons [of e "Suc limit" "isAnchor w bits buffer"] by simp
  qed
qed

text \<open>One turn of the outer loop produces the cut point of the chunk that starts at \<open>s\<close>.\<close>

lemma varLoop_step:
  assumes wf: "wf_chunker w bits mn mx c" and n: "n \<le> length buffer" and s: "s + mn \<le> n"
  shows "varLoop c buffer (int n) (int s + int mn - 1) (int s + int mx - 1) ends =
    varLoop c buffer (int n) (int (Suc (cutPoint w bits mn mx buffer n s)) + int mn - 1)
      (int (Suc (cutPoint w bits mn mx buffer n s)) + int mx - 1)
      (ends @ [int (cutPoint w bits mn mx buffer n s)])"
proof -
  define e where "e = s + mn - 1"
  define limit where "limit = min (s + mx) n - 1"
  have pos: "0 < w" "w \<le> mn" "mn \<le> mx" "0 < mn" and win: "nat (slidingWinSize c) = w"
    and sizes: "minChunkSize c = int mn" "maxChunkSize c = int mx"
    using wf by (auto simp: wf_chunker_def)
  have e: "int s + int mn - 1 = int e" "e < length buffer" "w \<le> Suc e" "e \<le> limit" "e < n"
    "limit < length buffer" "Suc limit = min (s + mx) n"
    using pos s n by (auto simp: e_def limit_def)
  define L where "L = int s + int mx - 1"
  have lim: "(if int n \<le> L then int n - 1 else L) = int limit"
    using pos s by (auto simp: limit_def L_def)
  obtain v where v: "firstWindow c buffer (int e) [0..<w] 0 = Some v" "uint v = windowFp w buffer e"
    using firstWindow_fp [OF wf e(2,3)] .
  have cut: "cutPoint w bits mn mx buffer n s =
      (case find (isAnchor w bits buffer) [e..<Suc limit] of Some j \<Rightarrow> j | None \<Rightarrow> limit)"
    unfolding e(7) using s by (auto simp: cutPoint_def e_def limit_def split: option.splits)
  have roll: "rollWindow c buffer (int limit) (int e) v = Some (int (cutPoint w bits mn mx buffer n s))"
    unfolding cut by (rule rollWindow_find [OF wf e(6) v(2) e(3,4)])
  have "varLoop c buffer (int n) (int e) L ends = varLoop c buffer (int n)
      (int (cutPoint w bits mn mx buffer n s) + int mn) (int (cutPoint w bits mn mx buffer n s) + int mx)
      (ends @ [int (cutPoint w bits mn mx buffer n s)])"
    using e(5) by (subst varLoop.simps) (simp only: lim win v(1) roll sizes Let_def option.case, simp)
  then show ?thesis unfolding e(1) by (simp add: L_def add.commute)
qed

lemma varLoop_cutEnds:
  assumes wf: "wf_chunker w bits mn mx c" and n: "n \<le> length buffer"
  shows "s \<le> n \<Longrightarrow> 0 < n \<Longrightarrow> (if ends = [] then s = 0 else last ends = int s - 1) \<Longrightarrow>
    map_option (addTail (int n)) (varLoop c buffer (int n) (int s + int mn - 1) (int s + int mx - 1) ends)
      = Some (ends @ map int (cutEnds w bits mn mx buffer n s))"
proof (induction "n - s" arbitrary: s ends rule: less_induct)
  case less
  have pos: "0 < mn" "mn \<le> mx" using wf by (auto simp: wf_chunker_def)
  show ?case
  proof (cases "s + mn \<le> n")
    case True
    let ?e = "cutPoint w bits mn mx buffer n s"
    have "s < n" using True pos by simp
    note b = cutPoint_bounds [OF this pos, of w bits buffer]
    show ?thesis
      unfolding varLoop_step [OF wf n True]
      using less.hyps [of "Suc ?e" "ends @ [int ?e]"] b \<open>s < n\<close> pos less.prems
      by (subst cutEnds.simps) (simp add: Let_def)
  next
    case False
    then have stop: "varLoop c buffer (int n) (int s + int mn - 1) (int s + int mx - 1) ends = Some ends"
      by (subst varLoop.simps) auto
    show ?thesis
    proof (cases "s = n")
      case True
      then show ?thesis using less.prems stop
        by (subst cutEnds.simps) (auto simp: addTail_def split: if_splits)
    next
      case sn: False
      then have "cutPoint w bits mn mx buffer n s = n - 1" "s < n"
        using False less.prems by (auto simp: cutPoint_def)
      then have "cutEnds w bits mn mx buffer n s = [n - 1]"
        using pos less.prems by (subst cutEnds.simps, subst cutEnds.simps) (simp add: Let_def)
      then show ?thesis using stop less.prems sn
        by (auto simp: addTail_def of_nat_diff split: if_splits)
    qed
  qed
qed

lemma varSizeChunking_cutEnds:
  assumes "wf_chunker w bits mn mx c" "0 < n" "n \<le> length buffer"
  shows "varSizeChunking c buffer (int n) = Some (map int (cutEnds w bits mn mx buffer n 0))"
  using varLoop_cutEnds [OF assms(1,3), of 0 "[]"] assms
  by (simp add: varSizeChunking_def wf_chunker_def)


section \<open>The contract of a chunker\<close>

text \<open>
  End indices that cut \<open>[s, n)\<close> into consecutive non-empty chunks, and the contents of those
  chunks, as the upload loop of client/main.cc walks over them.
\<close>

fun cutsRange :: "nat \<Rightarrow> nat \<Rightarrow> nat list \<Rightarrow> bool" where
  "cutsRange s n [] \<longleftrightarrow> s = n"
| "cutsRange s n (e # es) \<longleftrightarrow> s \<le> e \<and> e < n \<and> cutsRange (Suc e) n es"

fun chunkContents :: "'a list \<Rightarrow> nat \<Rightarrow> nat list \<Rightarrow> 'a list list" where
  "chunkContents buffer s [] = []"
| "chunkContents buffer s (e # es) = slice s (Suc e - s) buffer # chunkContents buffer (Suc e) es"

lemma cutsRange_le: "cutsRange s n ends \<Longrightarrow> s \<le> n"
  by (induction s n ends rule: cutsRange.induct) auto

lemma concat_chunkContents:
  "cutsRange s n ends \<Longrightarrow> concat (chunkContents buffer s ends) = slice s (n - s) buffer"
proof (induction s n ends rule: cutsRange.induct)
  case (1 s n)
  then show ?case by simp
next
  case (2 s n e es)
  then have "concat (chunkContents buffer s (e # es)) =
      slice s (Suc e - s) buffer @ slice (s + (Suc e - s)) (n - Suc e) buffer" by simp
  also have "\<dots> = slice s (Suc e - s + (n - Suc e)) buffer" by (rule slice_concat)
  finally show ?case using 2 by simp
qed

locale chunking_contract =
  fixes usable :: "chunker \<Rightarrow> bool"
    and run :: "chunker \<Rightarrow> bytes \<Rightarrow> int \<Rightarrow> int list option"
  assumes cuts: "usable c \<Longrightarrow> 0 < n \<Longrightarrow> n \<le> length buffer \<Longrightarrow>
    \<exists>ends. run c buffer (int n) = Some (map int ends) \<and> cutsRange 0 n ends"
begin

lemma reassembles:
  assumes "usable c" "0 < n" "n \<le> length buffer"
  shows "\<exists>ends. run c buffer (int n) = Some (map int ends) \<and> cutsRange 0 n ends \<and>
    concat (chunkContents buffer 0 ends) = take n buffer"
proof -
  obtain ends where "run c buffer (int n) = Some (map int ends)" "cutsRange 0 n ends"
    using cuts [OF assms] by blast
  then show ?thesis using concat_chunkContents [of 0 n ends buffer] by (auto simp: slice_def)
qed

end

lemma cutEnds_cutsRange:
  assumes "0 < mn" "mn \<le> mx"
  shows "s \<le> n \<Longrightarrow> cutsRange s n (cutEnds w bits mn mx buffer n s)"
proof (induction "n - s" arbitrary: s rule: less_induct)
  case less
  show ?case
  proof (cases "s < n")
    case True
    note b = cutPoint_bounds [OF True assms, of w bits buffer]
    show ?thesis
      using True b assms less.hyps [of "Suc (cutPoint w bits mn mx buffer n s)"]
      by (subst cutEnds.simps) (simp add: Let_def)
  next
    case False
    then show ?thesis using less.prems by (subst cutEnds.simps) simp
  qed
qed

interpretation var: chunking_contract "\<lambda>c. \<exists>w bits mn mx. wf_chunker w bits mn mx c" varSizeChunking
proof (unfold_locales, elim exE)
  fix c :: chunker and n w bits mn mx :: nat and buffer :: bytes
  assume wf: "wf_chunker w bits mn mx c" and n: "0 < n" "n \<le> length buffer"
  then have "0 < mn" "mn \<le> mx" by (auto simp: wf_chunker_def)
  then have "cutsRange 0 n (cutEnds w bits mn mx buffer n 0)" by (simp add: cutEnds_cutsRange)
  then show "\<exists>ends. varSizeChunking c buffer (int n) = Some (map int ends) \<and> cutsRange 0 n ends"
    using varSizeChunking_cutEnds [OF wf n] by blast
qed

text \<open>The fixed-size routine: full chunks and then a shorter one.\<close>

function fixEnds :: "nat \<Rightarrow> nat \<Rightarrow> nat \<Rightarrow> nat list" where
  "fixEnds avg n s =
     (if s < n \<and> 0 < avg then (min (s + avg) n - 1) # fixEnds avg n (min (s + avg) n) else [])"
  by pat_completeness auto
termination by (relation "measure (\<lambda>(_, n, s). n - s)") auto

declare fixEnds.simps [simp del]

lemma fixEnds_cutsRange: "0 < avg \<Longrightarrow> s \<le> n \<Longrightarrow> cutsRange s n (fixEnds avg n s)"
  by (induction avg n s rule: fixEnds.induct) (subst fixEnds.simps, auto)

lemma fixLoop_fixEnds:
  assumes "0 < avg" "0 < n"
  shows "s \<le> n \<Longrightarrow> (if ends = [] then s = 0 else last ends = int s - 1) \<Longrightarrow>
    map_option (addTail (int n)) (fixLoop (int avg) (int n) (int s + int avg - 1) ends)
      = Some (ends @ map int (fixEnds avg n s))"
proof (induction "n - s" arbitrary: s ends rule: less_induct)
  case less
  show ?case
  proof (cases "s + avg \<le> n")
    case True
    let ?ends = "ends @ [int s + int avg - 1]"
    have "fixLoop (int avg) (int n) (int s + int avg - 1) ends =
        fixLoop (int avg) (int n) (int (s + avg) + int avg - 1) ?ends"
      using True by (subst fixLoop.simps) (simp add: algebra_simps)
    moreover have "fixEnds avg n s = (s + avg - 1) # fixEnds avg n (s + avg)"
      using True assms by (subst fixEnds.simps) simp
    ultimately show ?thesis
      using less.hyps [of "s + avg" ?ends] True assms by (simp add: of_nat_diff)
  next
    case False
    then have "fixLoop (int avg) (int n) (int s + int avg - 1) ends = Some ends"
      by (subst fixLoop.simps) simp
    moreover have "fixEnds avg n s = (if s = n then [] else [n - 1])"
      using False assms less.prems by (subst fixEnds.simps, subst fixEnds.simps) auto
    ultimately show ?thesis
      using less.prems assms by (auto simp: addTail_def of_nat_diff split: if_splits)
  qed
qed

lemma fixSizeChunking_fixEnds:
  assumes "0 < avgChunkSize c" "0 < n"
  shows "fixSizeChunking c buffer (int n) = Some (map int (fixEnds (nat (avgChunkSize c)) n 0))"
  using fixLoop_fixEnds [of "nat (avgChunkSize c)" n 0 "[]"] assms
  by (simp add: fixSizeChunking_def)

interpretation fixed: chunking_contract "\<lambda>c. 0 < avgChunkSize c" fixSizeChunking
proof
  fix c :: chunker and n :: nat and buffer :: bytes
  assume "0 < avgChunkSize c" "0 < n" "n \<le> length buffer"
  then show "\<exists>ends. fixSizeChunking c buffer (int n) = Some (map int ends) \<and> cutsRange 0 n ends"
    using fixSizeChunking_fixEnds fixEnds_cutsRange [of "nat (avgChunkSize c)" 0 n] by fastforce
qed

section \<open>Chunk sizes and locality\<close>

lemma chunkContents_ne: "chunkContents buffer s ends = [] \<longleftrightarrow> ends = []"
  by (cases ends) auto

lemma chunkContents_sizes:
  assumes "0 < mn" "mn \<le> mx" "n \<le> length buffer"
  shows "s \<le> n \<Longrightarrow>
    (\<forall>ch \<in> set (chunkContents buffer s (cutEnds w bits mn mx buffer n s)).
        0 < length ch \<and> length ch \<le> mx) \<and>
    (\<forall>ch \<in> set (butlast (chunkContents buffer s (cutEnds w bits mn mx buffer n s))). mn \<le> length ch)"
proof (induction "n - s" arbitrary: s rule: less_induct)
  case less
  show ?case
  proof (cases "s < n")
    case True
    define e where "e = cutPoint w bits mn mx buffer n s"
    note b = cutPoint_bounds [OF True assms(1,2), of w bits buffer, folded e_def]
    have cons: "cutEnds w bits mn mx buffer n s = e # cutEnds w bits mn mx buffer n (Suc e)"
      using True assms by (subst cutEnds.simps) (simp add: Let_def e_def)
    have ih: "(\<forall>ch \<in> set (chunkContents buffer (Suc e) (cutEnds w bits mn mx buffer n (Suc e))).
        0 < length ch \<and> length ch \<le> mx) \<and>
      (\<forall>ch \<in> set (butlast (chunkContents buffer (Suc e) (cutEnds w bits mn mx buffer n (Suc e)))).
        mn \<le> length ch)"
      using less.hyps [of "Suc e"] b True by simp
    have last: "cutEnds w bits mn mx buffer n (Suc e) = []" if "e = n - 1"
      using that True by (subst cutEnds.simps) simp
    have len: "length (slice s (Suc e - s) buffer) = Suc e - s" using b assms by simp
    then have "slice s (Suc e - s) buffer \<noteq> []" using b(1) by (metis Suc_diff_le length_0_conv nat.distinct(1))
    then show ?thesis
      using ih b last len assms unfolding cons by (cases "e = n - 1") (auto simp: chunkContents_ne)
  next
    case False
    then show ?thesis by (subst (1 2) cutEnds.simps) simp
  qed
qed

lemma windowFp_drop: "w \<le> Suc e \<Longrightarrow> d + e < length buffer \<Longrightarrow>
    windowFp w (drop d buffer) e = windowFp w buffer (d + e)"
  unfolding windowFp_def by (intro arg_cong2 [where f = "(mod)"] sum.cong) (auto simp: Nat.add_diff_assoc)

lemma cutPoint_drop:
  assumes "0 < mn" "mn \<le> mx" "w \<le> mn" "d + n \<le> length buffer" "t < n"
  shows "d + cutPoint w bits mn mx (drop d buffer) n t = cutPoint w bits mn mx buffer (d + n) (d + t)"
proof (cases "n < t + mn")
  case True
  then show ?thesis using assms by (simp add: cutPoint_def)
next
  case False
  let ?P = "isAnchor w bits (drop d buffer)" and ?Q = "isAnchor w bits buffer"
  have shift: "[d + t + mn - 1..<min (d + t + mx) (d + n)] =
      map ((+) d) [t + mn - 1..<min (t + mx) n]"
    using assms upt_shift [of d "t + mn - 1" "min (t + mx) n"] by (auto simp: min_def add.assoc)
  have anchors: "map_option ((+) d) (find ?P xs) = find ?Q (map ((+) d) xs)"
    if "\<forall>j \<in> set xs. t + mn - 1 \<le> j \<and> j < n" for xs
    using that
  proof (induction xs)
    case (Cons j xs)
    then have "w \<le> Suc j" "d + j < length buffer" using assms by auto
    then have "?P j = ?Q (d + j)" by (simp add: isAnchor_def windowFp_drop)
    then show ?case using Cons by simp
  qed simp
  have found: "find ?Q [d + t + mn - 1..<min (d + t + mx) (d + n)] =
      map_option ((+) d) (find ?P [t + mn - 1..<min (t + mx) n])"
    unfolding shift by (rule anchors [symmetric]) auto
  show ?thesis
    unfolding cutPoint_def found using False assms
    by (cases "find ?P [t + mn - 1..<min (t + mx) n]") auto
qed

lemma cutEnds_drop:
  assumes "0 < mn" "mn \<le> mx" "w \<le> mn" "d + n \<le> length buffer"
  shows "t \<le> n \<Longrightarrow> cutEnds w bits mn mx buffer (d + n) (d + t) =
    map ((+) d) (cutEnds w bits mn mx (drop d buffer) n t)"
proof (induction "n - t" arbitrary: t rule: less_induct)
  case less
  show ?case
  proof (cases "t < n")
    case True
    define e where "e = cutPoint w bits mn mx (drop d buffer) n t"
    have cut: "cutPoint w bits mn mx buffer (d + n) (d + t) = d + e"
      using cutPoint_drop [OF assms True] by (simp add: e_def)
    have b: "t \<le> e" "e < n"
      using cutPoint_bounds [OF True assms(1,2)] by (auto simp: e_def)
    have "cutEnds w bits mn mx buffer (d + n) (d + t) =
        (d + e) # cutEnds w bits mn mx buffer (d + n) (d + Suc e)"
      using True assms by (subst cutEnds.simps) (simp add: Let_def cut)
    moreover have "cutEnds w bits mn mx (drop d buffer) n t =
        e # cutEnds w bits mn mx (drop d buffer) n (Suc e)"
      using True assms by (subst cutEnds.simps) (simp add: Let_def e_def)
    ultimately show ?thesis using less.hyps [of "Suc e"] b by simp
  next
    case False
    then show ?thesis using less.prems by (subst (1 2) cutEnds.simps) simp
  qed
qed

lemma cutEnds_suffix:
  "cutEnds w bits mn mx buffer n s = pre @ e # post \<Longrightarrow> post = cutEnds w bits mn mx buffer n (Suc e)"
proof (induction pre arbitrary: s)
  case Nil
  then show ?case by (subst (asm) cutEnds.simps) (auto simp: Let_def split: if_splits)
next
  case (Cons a pre)
  then show ?case by (subst (asm) cutEnds.simps) (auto simp: Let_def split: if_splits)
qed

lemma cutsRange_count:
  assumes "0 < mn" "mn \<le> mx"
  shows "s \<le> n \<Longrightarrow> length (cutEnds w bits mn mx buffer n s) * mn \<le> (n - s) + (mn - 1)"
proof (induction "n - s" arbitrary: s rule: less_induct)
  case less
  show ?case
  proof (cases "s < n")
    case True
    define e where "e = cutPoint w bits mn mx buffer n s"
    note b = cutPoint_bounds [OF True assms, of w bits buffer, folded e_def]
    have cons: "cutEnds w bits mn mx buffer n s = e # cutEnds w bits mn mx buffer n (Suc e)"
      using True assms by (subst cutEnds.simps) (simp add: Let_def e_def)
    have last: "cutEnds w bits mn mx buffer n (Suc e) = []" if "e = n - 1"
      using that True by (subst cutEnds.simps) simp
    have "length (cutEnds w bits mn mx buffer n (Suc e)) * mn \<le> (n - Suc e) + (mn - 1)"
      using less.hyps [of "Suc e"] b True by simp
    then show ?thesis
      using b last True assms unfolding cons by (cases "e = n - 1") auto
  next
    case False
    then show ?thesis by (subst cutEnds.simps) simp
  qed
qed

lemma chunking_var: "wf_chunker w bits mn mx c \<Longrightarrow> chunking c = varSizeChunking c"
  by (auto simp: fun_eq_iff chunking_def wf_chunker_def VAR_SIZE_TYPE_def FIX_SIZE_TYPE_def)

text \<open>What one call of a variable-size chunker returns.\<close>

lemma var_chunks:
  assumes "mkChunker VAR_SIZE_TYPE avg mn mx win = Inr c" "0 < win" "win \<le> mn"
    and "0 < n" "n \<le> length buffer"
  shows "\<exists>ends. chunking c buffer (int n) = Some (map int ends) \<and> cutsRange 0 n ends \<and>
    concat (chunkContents buffer 0 ends) = take n buffer \<and>
    (\<forall>ch \<in> set (chunkContents buffer 0 ends). 0 < length ch \<and> length ch \<le> nat mx) \<and>
    (\<forall>ch \<in> set (butlast (chunkContents buffer 0 ends)). nat mn \<le> length ch) \<and>
    length ends \<le> (n + nat mn - 1) div nat mn"
proof -
  obtain bits where wf: "wf_chunker (nat win) bits (nat mn) (nat mx) c"
    using mkChunker_wf [OF assms(1-3)] .
  then have mn: "0 < nat mn" "nat mn \<le> nat mx" by (auto simp: wf_chunker_def)
  let ?ends = "cutEnds (nat win) bits (nat mn) (nat mx) buffer n 0"
  have "length ?ends * nat mn \<le> n + nat mn - 1"
    using cutsRange_count [OF mn, of 0 n "nat win" bits buffer] mn by simp
  then have "length ?ends \<le> (n + nat mn - 1) div nat mn"
    using mn by (simp add: less_eq_div_iff_mult_less_eq)
  moreover have "concat (chunkContents buffer 0 ?ends) = take n buffer"
    using concat_chunkContents [OF cutEnds_cutsRange [OF mn, of 0 n]] by (simp add: slice_def)
  moreover have "cutsRange 0 n ?ends" by (rule cutEnds_cutsRange [OF mn]) simp
  ultimately show ?thesis
    using varSizeChunking_cutEnds [OF wf assms(4,5)] chunkContents_sizes [OF mn assms(5), of 0]
    by (intro exI [of _ ?ends]) (simp add: chunking_var [OF wf])
qed

section \<open>Properties\<close>

text \<open>
  C6. A variable-size chunker that the constructor accepted, with a window no larger than the
  minimum chunk size, never reads outside the buffer, returns, and cuts exactly where the reference
  definition does: the first position at or after the minimum size whose freshly computed window
  fingerprint is divisible by the anchor modulus, or the maximum size, or the end of the buffer.
  The rolling hash in wrapping 32-bit arithmetic is thus equivalent to recomputing each window.
\<close>

theorem chunking_meets_reference:
  assumes "mkChunker VAR_SIZE_TYPE avg mn mx win = Inr c" "0 < win" "win \<le> mn"
    and "0 < n" "n \<le> length buffer"
  shows "\<exists>bits. maskBits avg 1 = Some bits \<and>
    chunking c buffer (int n) = Some (map int (cutEnds (nat win) bits (nat mn) (nat mx) buffer n 0))"
proof -
  obtain bits where bits: "maskBits avg 1 = Some bits"
    and wf: "wf_chunker (nat win) bits (nat mn) (nat mx) c"
    using mkChunker_wf [OF assms(1-3)] .
  then show ?thesis
    using varSizeChunking_cutEnds [OF wf assms(4,5)] by (simp add: chunking_var [OF wf])
qed

text \<open>
  C16. The chunks a variable-size chunker produces concatenate to the filled part of the buffer, are
  non-empty, are at most maxChunkSize long, all but the last are at least minChunkSize long, and
  there are at most (n + minChunkSize - 1) / minChunkSize of them.
\<close>

theorem chunking_partitions:
  assumes "mkChunker VAR_SIZE_TYPE avg mn mx win = Inr c" "0 < win" "win \<le> mn"
    and "0 < n" "n \<le> length buffer"
  shows "\<exists>ends. chunking c buffer (int n) = Some (map int ends) \<and>
    concat (chunkContents buffer 0 ends) = take n buffer \<and>
    (\<forall>ch \<in> set (chunkContents buffer 0 ends). 0 < length ch \<and> length ch \<le> nat mx) \<and>
    (\<forall>ch \<in> set (butlast (chunkContents buffer 0 ends)). nat mn \<le> length ch) \<and>
    length ends \<le> (n + nat mn - 1) div nat mn"
  using var_chunks [OF assms] by blast

text \<open>
  C17. Chunk boundaries are content-defined: what follows a boundary is cut the same way whatever
  precedes it. If a boundary falls at index e, chunking the rest of the buffer on its own gives the
  remaining boundaries, shifted.
\<close>

theorem chunking_resynchronises:
  assumes "mkChunker VAR_SIZE_TYPE avg mn mx win = Inr c" "0 < win" "win \<le> mn"
    and "n \<le> length buffer" "Suc e < n"
    and "chunking c buffer (int n) = Some (pre @ int e # post)"
  shows "chunking c (drop (Suc e) buffer) (int (n - Suc e)) = Some (map (\<lambda>x. x - int (Suc e)) post)"
proof -
  obtain bits where wf: "wf_chunker (nat win) bits (nat mn) (nat mx) c"
    using mkChunker_wf [OF assms(1-3)] .
  then have mn: "0 < nat mn" "nat mn \<le> nat mx" "nat win \<le> nat mn" by (auto simp: wf_chunker_def)
  let ?cuts = "\<lambda>buffer n s. cutEnds (nat win) bits (nat mn) (nat mx) buffer n s"
  have "map int (?cuts buffer n 0) = pre @ int e # post"
    using assms varSizeChunking_cutEnds [OF wf _ assms(4)] by (simp add: chunking_var [OF wf])
  then obtain pre' post' where "?cuts buffer n 0 = pre' @ e # post'" and post: "post = map int post'"
    by (auto simp: map_eq_append_conv)
  then have "post' = ?cuts buffer n (Suc e)" by (auto dest: cutEnds_suffix)
  also have "\<dots> = map ((+) (Suc e)) (?cuts (drop (Suc e) buffer) (n - Suc e) 0)"
    using cutEnds_drop [OF mn, of "Suc e" "n - Suc e" buffer 0] assms by simp
  finally have "map (\<lambda>x. x - int (Suc e)) post = map int (?cuts (drop (Suc e) buffer) (n - Suc e) 0)"
    by (simp add: post comp_def)
  then show ?thesis
    using varSizeChunking_cutEnds [OF wf, of "n - Suc e" "drop (Suc e) buffer"] assms
    by (simp add: chunking_var [OF wf])
qed

text \<open>A small chunker (average 4, minimum 2, maximum 8, window 2) and a buffer for the witnesses.\<close>

definition tinyChunker :: chunker where
  "tinyChunker = (case mkChunker VAR_SIZE_TYPE 4 2 8 2 of Inr c \<Rightarrow> c | Inl _ \<Rightarrow> undefined)"

definition tinyBuffer :: bytes where
  "tinyBuffer = [1, 2, 3, 1, 9, 3, 4, 4, 8, 7]"

lemma tiny_mask: "maskBits 4 (Suc 0) = Some 2"
  by code_simp

lemma tiny_constructed: "mkChunker VAR_SIZE_TYPE 4 2 8 2 = Inr tinyChunker"
  by (simp add: tinyChunker_def mkChunker_def VAR_SIZE_TYPE_def FIX_SIZE_TYPE_def Let_def tiny_mask)

theorem chunking_meets_reference_witness:
  "\<exists>bits. maskBits 4 1 = Some bits \<and>
    chunking tinyChunker tinyBuffer 10 = Some (map int (cutEnds 2 bits 2 8 tinyBuffer 10 0))"
  using chunking_meets_reference [OF tiny_constructed, of 10 tinyBuffer] by (simp add: tinyBuffer_def)

lemma tiny_cuts: "chunking tinyChunker tinyBuffer 10 = Some [3, 5, 7, 9]"
  by code_simp

theorem chunking_partitions_witness:
  "\<exists>ends. chunking tinyChunker tinyBuffer 10 = Some (map int ends) \<and>
    concat (chunkContents tinyBuffer 0 ends) = tinyBuffer \<and> length ends \<le> 5"
  using chunking_partitions [OF tiny_constructed, of 10 tinyBuffer] by (auto simp: tinyBuffer_def)

theorem chunking_resynchronises_witness:
  "chunking tinyChunker [4, 4, 8, 7] 4 = Some [1, 3]"
  using chunking_resynchronises [OF tiny_constructed, of 10 tinyBuffer 5 "[3]" "[7, 9]"] tiny_cuts
  by (simp add: tinyBuffer_def)

end
