(* ===== verification/GF256.thy ===== *)
theory GF256
  imports Prelude
begin

text \<open>
  The Galois-field library used by the codec (gf_complete) is not part of the sources. It enters the
  model as a record of the three entry points the codec calls. The locale \<open>gf_laws\<close> states the laws
  the codec relies on, and it is interpreted by GF(256) with the polynomial 0x11d, which is what
  \<open>gf_init_easy\<close> selects for 8-bit words.
\<close>

record gf =
  gf_multiply :: "byte \<Rightarrow> byte \<Rightarrow> byte"        \<comment> \<open>multiply.w32(gf, a, b)\<close>
  gf_divide :: "byte \<Rightarrow> byte \<Rightarrow> byte"          \<comment> \<open>divide.w32(gf, a, b)\<close>
  gf_multiply_region :: "bytes \<Rightarrow> bytes \<Rightarrow> byte \<Rightarrow> bool \<Rightarrow> bytes"
    \<comment> \<open>multiply_region.w32(gf, src, dest, val, bytes, add): the new contents of dest\<close>

locale gf_laws =
  fixes gf :: gf
  assumes mul_commute: "gf_multiply gf a b = gf_multiply gf b a"
    and mul_assoc: "gf_multiply gf (gf_multiply gf a b) c = gf_multiply gf a (gf_multiply gf b c)"
    and mul_one: "gf_multiply gf 1 a = a"
    and mul_xor: "gf_multiply gf (a XOR b) c = gf_multiply gf a c XOR gf_multiply gf b c"
    and div_mul: "b \<noteq> 0 \<Longrightarrow> gf_multiply gf (gf_divide gf a b) b = a"
    and region_set: "length src = length dst \<Longrightarrow>
      gf_multiply_region gf src dst v False = map (gf_multiply gf v) src"
    and region_add: "length src = length dst \<Longrightarrow>
      gf_multiply_region gf src dst v True = xorBytes dst (map (gf_multiply gf v) src)"
begin

lemma mul_zero [simp]: "gf_multiply gf 0 a = 0" "gf_multiply gf a 0 = 0"
proof -
  have "gf_multiply gf (0 XOR 0) a = gf_multiply gf 0 a XOR gf_multiply gf 0 a" by (rule mul_xor)
  then show "gf_multiply gf 0 a = 0" by simp
  then show "gf_multiply gf a 0 = 0" by (simp add: mul_commute)
qed

lemma mul_one_right [simp]: "gf_multiply gf a 1 = a"
  using mul_one [of a] by (simp add: mul_commute)

lemma mul_xor_right: "gf_multiply gf a (b XOR c) = gf_multiply gf a b XOR gf_multiply gf a c"
  using mul_xor [of b c a] by (simp add: mul_commute)

lemma mul_left_commute: "gf_multiply gf a (gf_multiply gf b c) = gf_multiply gf b (gf_multiply gf a c)"
  by (metis mul_assoc mul_commute)

lemma mul_eq_0_iff [simp]: "gf_multiply gf a b = 0 \<longleftrightarrow> a = 0 \<or> b = 0"
proof
  assume ab: "gf_multiply gf a b = 0"
  show "a = 0 \<or> b = 0"
  proof (rule disjCI)
    assume "b \<noteq> 0"
    then have "a = gf_multiply gf (gf_divide gf 1 b) (gf_multiply gf a b)"
      by (metis div_mul mul_left_commute mul_one_right)
    then show "a = 0" using ab by simp
  qed
qed auto

lemma inv_mul: "a \<noteq> 0 \<Longrightarrow> gf_multiply gf (gf_divide gf 1 a) a = 1"
  by (rule div_mul)

lemma inv_ne_0 [simp]: "a \<noteq> 0 \<Longrightarrow> gf_divide gf 1 a \<noteq> 0"
  using inv_mul [of a] by auto

lemma region_xor: "length src = length dst \<Longrightarrow> gf_multiply_region gf src dst 1 True = xorBytes dst src"
  by (simp add: region_add mul_one map_idI)

end

section \<open>GF(256) with the polynomial 0x11d\<close>

definition xtime :: "byte \<Rightarrow> byte" where
  "xtime a = push_bit 1 a XOR (if bit a 7 then 0x1d else 0)"

primrec gmulN :: "nat \<Rightarrow> byte \<Rightarrow> byte \<Rightarrow> byte" where
  "gmulN 0 a b = 0"
| "gmulN (Suc n) a b = (if bit b 0 then a else 0) XOR gmulN n (xtime a) (drop_bit 1 b)"

definition gmul :: "byte \<Rightarrow> byte \<Rightarrow> byte" where
  "gmul a b = gmulN 8 a b"

definition ginvTable :: "byte list" where
  "ginvTable =
    [0, 1, 142, 244, 71, 167, 122, 186, 173, 157, 221, 152, 61, 170, 93, 150, 216, 114, 192, 88, 224, 62, 76, 102,
     144, 222, 85, 128, 160, 131, 75, 42, 108, 237, 57, 81, 96, 86, 44, 138, 112, 208, 31, 74, 38, 139, 51, 110,
     72, 137, 111, 46, 164, 195, 64, 94, 80, 34, 207, 169, 171, 12, 21, 225, 54, 95, 248, 213, 146, 78, 166, 4,
     48, 136, 43, 30, 22, 103, 69, 147, 56, 35, 104, 140, 129, 26, 37, 97, 19, 193, 203, 99, 151, 14, 55, 65,
     36, 87, 202, 91, 185, 196, 23, 77, 82, 141, 239, 179, 32, 236, 47, 50, 40, 209, 17, 217, 233, 251, 218, 121,
     219, 119, 6, 187, 132, 205, 254, 252, 27, 84, 161, 29, 124, 204, 228, 176, 73, 49, 39, 45, 83, 105, 2, 245,
     24, 223, 68, 79, 155, 188, 15, 92, 11, 220, 189, 148, 172, 9, 199, 162, 28, 130, 159, 198, 52, 194, 70, 5,
     206, 59, 13, 60, 156, 8, 190, 183, 135, 229, 238, 107, 235, 242, 191, 175, 197, 100, 7, 123, 149, 154, 174, 182,
     18, 89, 165, 53, 101, 184, 163, 158, 210, 247, 98, 90, 133, 125, 168, 58, 41, 113, 200, 246, 249, 67, 215, 214,
     16, 115, 118, 120, 153, 10, 25, 145, 20, 63, 230, 240, 134, 177, 226, 241, 250, 116, 243, 180, 109, 33, 178, 106,
     227, 231, 181, 234, 3, 143, 211, 201, 66, 212, 232, 117, 127, 255, 126, 253]"

definition gdiv :: "byte \<Rightarrow> byte \<Rightarrow> byte" where
  "gdiv a b = gmul a (ginvTable ! unat b)"

definition gregion :: "bytes \<Rightarrow> bytes \<Rightarrow> byte \<Rightarrow> bool \<Rightarrow> bytes" where
  "gregion src dst v add =
     (if add then xorBytes dst (map (gmul v) src) else map (gmul v) src)"

definition gf256 :: gf where
  "gf256 = \<lparr> gf_multiply = gmul, gf_divide = gdiv, gf_multiply_region = gregion \<rparr>"

lemma xtime_xor: "xtime (a XOR b) = xtime a XOR xtime b"
  by (rule bit_eqI) (auto simp: xtime_def bit_xor_iff bit_push_bit_iff)

lemma xtime_0 [simp]: "xtime 0 = 0"
  by (simp add: xtime_def)

lemma gmulN_0 [simp]: "gmulN n 0 b = 0"
  by (induction n arbitrary: b) auto

lemma gmulN_xor: "gmulN n (x XOR y) b = gmulN n x b XOR gmulN n y b"
  by (induction n arbitrary: x y b) (auto simp: xtime_xor ac_simps)

lemma gmulN_xtime: "gmulN n (xtime x) b = xtime (gmulN n x b)"
  by (induction n arbitrary: x b) (auto simp: xtime_xor)

lemma gmulN_gmulN: "gmulN m (gmulN n x b) a = gmulN n (gmulN m x a) b"
proof (induction m arbitrary: x a)
  case 0
  then show ?case by simp
next
  case (Suc m)
  then show ?case
    by (simp add: gmulN_xor) (metis Suc gmulN_xtime)
qed

text \<open>Statements about a single byte are checked on all 256 values.\<close>

lemma all_bytes: "list_all P (map of_nat [0..<256]) \<Longrightarrow> P (b :: byte)"
proof -
  assume *: "list_all P (map of_nat [0..<256])"
  have "unat b < 256" using unsigned_less [of b, where ?'a = nat] by simp
  then have "P (of_nat (unat b))" using * unfolding list_all_iff by (metis atLeastLessThan_iff imageI le0 list.set_map set_upt)
  then show "P b" by simp
qed

lemma gmul_one: "gmul 1 b = b"
  by (rule all_bytes [of "\<lambda>b. gmul 1 b = b"]) code_simp

lemma gmul_ginv: "b \<noteq> 0 \<Longrightarrow> gmul (ginvTable ! unat b) b = 1"
proof -
  have "b = 0 \<or> gmul (ginvTable ! unat b) b = 1"
    by (rule all_bytes [of "\<lambda>b. b = 0 \<or> gmul (ginvTable ! unat b) b = 1"]) code_simp
  then show "b \<noteq> 0 \<Longrightarrow> gmul (ginvTable ! unat b) b = 1" by simp
qed

lemma gmul_commute: "gmul a b = gmul b a"
proof -
  have "gmul a b = gmul (gmul 1 a) b" by (simp add: gmul_one)
  also have "\<dots> = gmul (gmul 1 b) a" unfolding gmul_def by (rule gmulN_gmulN)
  finally show ?thesis by (simp add: gmul_one)
qed

lemma gmul_assoc: "gmul (gmul a b) c = gmul a (gmul b c)"
proof -
  have "gmul a (gmul b c) = gmul (gmul b c) a" by (rule gmul_commute)
  also have "\<dots> = gmul (gmul b a) c" unfolding gmul_def by (rule gmulN_gmulN)
  also have "\<dots> = gmul (gmul a b) c" by (simp add: gmul_commute [of b a])
  finally show ?thesis by simp
qed

interpretation gf256: gf_laws gf256
proof (unfold_locales, goal_cases)
  case (1 a b)
  then show ?case by (simp add: gf256_def gmul_commute)
next
  case (2 a b c)
  then show ?case by (simp add: gf256_def gmul_assoc)
next
  case (3 a)
  then show ?case by (simp add: gf256_def gmul_one)
next
  case (4 a b c)
  then show ?case by (simp add: gf256_def gmul_def gmulN_xor)
next
  case (5 b a)
  then show ?case by (simp add: gf256_def gdiv_def gmul_assoc gmul_ginv gmul_commute [of a 1] gmul_one)
next
  case (6 src dst v)
  then show ?case by (simp add: gf256_def gregion_def)
next
  case (7 src dst v)
  then show ?case by (simp add: gf256_def gregion_def)
qed

lemma gf256_laws: "gf_laws gf256"
  by (rule gf256.gf_laws_axioms)

end
