(* ===== verification/GFLinear.thy ===== *)
theory GFLinear
  imports GF256
begin

text \<open>
  Linear algebra over the codec's Galois field, as far as the codec needs it: sums, and the fact
  that a Cauchy system (and so any k rows of the codec's distribution matrices) has only the zero
  solution.
\<close>

section \<open>Sums\<close>

primrec gsum :: "('i \<Rightarrow> byte) \<Rightarrow> 'i list \<Rightarrow> byte" where
  "gsum f [] = 0"
| "gsum f (x # xs) = f x XOR gsum f xs"

lemma gsum_append [simp]: "gsum f (xs @ ys) = gsum f xs XOR gsum f ys"
  by (induction xs) (auto simp: xor.assoc)

lemma gsum_cong: "(\<And>x. x \<in> set xs \<Longrightarrow> f x = g x) \<Longrightarrow> gsum f xs = gsum g xs"
  by (induction xs) auto

lemma gsum_zero [simp]: "gsum (\<lambda>x. 0) xs = 0"
  by (induction xs) auto

lemma gsum_eq_0: "(\<And>x. x \<in> set xs \<Longrightarrow> f x = 0) \<Longrightarrow> gsum f xs = 0"
  by (induction xs) auto

lemma gsum_xor: "gsum (\<lambda>x. f x XOR g x) xs = gsum f xs XOR gsum g xs"
  by (induction xs) (auto simp: ac_simps)

lemma gsum_swap: "gsum (\<lambda>x. gsum (f x) ys) xs = gsum (\<lambda>y. gsum (\<lambda>x. f x y) xs) ys"
  by (induction xs) (auto simp: gsum_xor)

lemma gsum_delta:
  "distinct xs \<Longrightarrow> gsum (\<lambda>x. if x = a then f x else 0) xs = (if a \<in> set xs then f a else 0)"
  by (induction xs) (auto intro: gsum_eq_0)

lemma gsum_partition: "gsum f xs = gsum f (filter P xs) XOR gsum f (filter (\<lambda>x. \<not> P x) xs)"
  by (induction xs) (auto simp: ac_simps)

lemma xor_eq_0_iff: "a XOR b = 0 \<longleftrightarrow> a = (b :: byte)"
  by (simp add: bit_eq_iff bit_xor_iff)

context gf_laws begin

lemma gsum_mul: "gf_multiply gf c (gsum f xs) = gsum (\<lambda>x. gf_multiply gf c (f x)) xs"
  by (induction xs) (auto simp: mul_xor_right)

lemma gsum_mul_right: "gf_multiply gf (gsum f xs) c = gsum (\<lambda>x. gf_multiply gf (f x) c) xs"
  by (induction xs) (auto simp: mul_xor)

text \<open>Dividing by a sum of two field elements, the identities behind the elimination step.\<close>

lemma inv_factor:
  assumes "x XOR y \<noteq> 0"
  shows "gf_multiply gf (x XOR z) (gf_divide gf 1 (x XOR y)) =
    1 XOR gf_multiply gf (z XOR y) (gf_divide gf 1 (x XOR y))"
proof -
  let ?i = "gf_divide gf 1 (x XOR y)"
  have "x XOR z = (x XOR y) XOR (z XOR y)" by (rule bit_eqI) (auto simp: bit_xor_iff)
  then have "gf_multiply gf (x XOR z) ?i = gf_multiply gf (x XOR y) ?i XOR gf_multiply gf (z XOR y) ?i"
    by (simp only: mul_xor [of "x XOR y"])
  also have "gf_multiply gf (x XOR y) ?i = 1"
    using inv_mul [OF assms] by (simp only: mul_commute)
  finally show ?thesis .
qed

lemma inv_difference:
  assumes "x XOR y \<noteq> 0" "x0 XOR y \<noteq> 0"
  shows "gf_divide gf 1 (x XOR y) XOR gf_divide gf 1 (x0 XOR y) =
    gf_multiply gf (x XOR x0) (gf_multiply gf (gf_divide gf 1 (x0 XOR y)) (gf_divide gf 1 (x XOR y)))"
proof -
  let ?a = "gf_divide gf 1 (x XOR y)" and ?b = "gf_divide gf 1 (x0 XOR y)"
  have "x XOR x0 = (x XOR y) XOR (x0 XOR y)" by (rule bit_eqI) (auto simp: bit_xor_iff)
  then have "gf_multiply gf (x XOR x0) (gf_multiply gf ?b ?a) =
      gf_multiply gf (x XOR y) (gf_multiply gf ?b ?a) XOR gf_multiply gf (x0 XOR y) (gf_multiply gf ?b ?a)"
    by (simp only: mul_xor [of "x XOR y"])
  also have "gf_multiply gf (x XOR y) (gf_multiply gf ?b ?a) = ?b"
    using inv_mul [OF assms(1)] by (metis mul_commute mul_left_commute mul_one_right)
  also have "gf_multiply gf (x0 XOR y) (gf_multiply gf ?b ?a) = ?a"
    using inv_mul [OF assms(2)] by (metis mul_assoc mul_commute mul_one)
  finally show ?thesis by (simp add: xor.commute)
qed

text \<open>
  A square Cauchy system has only the zero solution. The proof eliminates one unknown and one
  equation at a time; what remains is again a Cauchy system.
\<close>

lemma cauchy_kernel:
  assumes "length ys = length xs" "distinct xs" "distinct ys"
    and "\<forall>x \<in> set xs. \<forall>y \<in> set ys. x XOR y \<noteq> 0"
    and "\<forall>x \<in> set xs. gsum (\<lambda>y. gf_multiply gf (d y) (gf_divide gf 1 (x XOR y))) ys = 0"
  shows "\<forall>y \<in> set ys. d y = 0"
  using assms
proof (induction ys arbitrary: xs d)
  case Nil
  then show ?case by simp
next
  case (Cons y0 ys)
  from Cons.prems(1) obtain x0 xs' where xs: "xs = x0 # xs'" by (cases xs) auto
  let ?c = "\<lambda>x y. gf_divide gf 1 (x XOR y)"
  let ?d = "\<lambda>y. gf_multiply gf (gf_multiply gf (d y) (y0 XOR y)) (?c x0 y)"
  define tot where "tot = gsum d (y0 # ys)"
  have ne: "x XOR y \<noteq> 0" if "x \<in> set xs" "y \<in> set (y0 # ys)" for x y
    using Cons.prems(4) that by blast
  have row: "gsum (\<lambda>y. gf_multiply gf (gf_multiply gf (d y) (y0 XOR y)) (?c x y)) ys = tot"
    if x: "x \<in> set xs" for x
  proof -
    let ?t = "\<lambda>y. gf_multiply gf (gf_multiply gf (d y) (y0 XOR y)) (?c x y)"
    have step: "gf_multiply gf (x XOR y0) (gf_multiply gf (d y) (?c x y)) = d y XOR ?t y"
      if "y \<in> set (y0 # ys)" for y
      by (simp only: mul_left_commute [of "x XOR y0"] inv_factor [OF ne [OF x that], of y0]
          mul_xor_right [of "d y" 1] mul_one_right mul_assoc)
    have "0 = gf_multiply gf (x XOR y0) (gsum (\<lambda>y. gf_multiply gf (d y) (?c x y)) (y0 # ys))"
      using Cons.prems(5) x by (metis mul_zero(2))
    also have "\<dots> = gsum (\<lambda>y. d y XOR ?t y) (y0 # ys)"
      unfolding gsum_mul by (rule gsum_cong) (rule step)
    also have "\<dots> = tot XOR gsum ?t ys"
      by (simp add: gsum_xor tot_def ac_simps)
    finally have "tot XOR gsum ?t ys = 0" by (rule sym)
    then show ?thesis unfolding xor_eq_0_iff by (rule sym)
  qed
  have "gsum (\<lambda>y. gf_multiply gf (?d y) (?c x y)) ys = 0" if x: "x \<in> set xs'" for x
  proof -
    have xx: "x \<in> set xs" "x0 \<in> set xs" and diff: "x XOR x0 \<noteq> 0"
      using x xs Cons.prems(2) by (auto simp: xor_eq_0_iff)
    define e where "e y = gf_multiply gf (d y) (y0 XOR y)" for y
    have "gf_multiply gf (x XOR x0) (gsum (\<lambda>y. gf_multiply gf (gf_multiply gf (e y) (?c x0 y)) (?c x y)) ys) =
        gsum (\<lambda>y. gf_multiply gf (e y) (?c x y XOR ?c x0 y)) ys"
      unfolding gsum_mul
    proof (rule gsum_cong)
      fix y assume "y \<in> set ys"
      then have "x XOR y \<noteq> 0" "x0 XOR y \<noteq> 0" using ne xx by auto
      from inv_difference [OF this] show
        "gf_multiply gf (x XOR x0) (gf_multiply gf (gf_multiply gf (e y) (?c x0 y)) (?c x y)) =
         gf_multiply gf (e y) (?c x y XOR ?c x0 y)"
        by (simp only: mul_assoc mul_left_commute [of "e y" "x XOR x0"])
    qed
    also have "\<dots> = 0"
      using row [OF xx(1), folded e_def] row [OF xx(2), folded e_def]
      by (simp only: mul_xor_right gsum_xor xor_self_eq)
    finally have "gf_multiply gf (x XOR x0) (gsum (\<lambda>y. gf_multiply gf (?d y) (?c x y)) ys) = 0"
      by (simp only: e_def)
    then show ?thesis using diff by simp
  qed
  then have "\<forall>y \<in> set ys. ?d y = 0"
    using Cons.prems(1-4) by (intro Cons.IH [of xs' ?d] ballI) (simp_all add: xs)
  moreover have "y0 XOR y \<noteq> 0" "?c x0 y \<noteq> 0" if "y \<in> set ys" for y
    using that Cons.prems(3) ne [of x0 y] xs by (auto simp: xor_eq_0_iff)
  ultimately have tail: "\<forall>y \<in> set ys. d y = 0" by auto
  then have "gsum (\<lambda>y. gf_multiply gf (d y) (?c x0 y)) ys = 0" by (intro gsum_eq_0) simp
  then have "gf_multiply gf (d y0) (?c x0 y0) = 0"
    using Cons.prems(5) xs by simp
  then have "d y0 = 0" using ne [of x0 y0] xs by simp
  then show ?case using tail by simp
qed

end

end
