(* ===== verification/MatrixInv.thy ===== *)
theory MatrixInv
  imports GFLinear
begin

text \<open>
  \<open>CDCodec::squareMatrixInverting\<close> (client/coding/CDCodec.cc): Gauss-Jordan elimination on flat
  row-major arrays. The routine returns an inverse exactly when the matrix maps only the zero vector
  to zero.
\<close>

section \<open>The routine\<close>

text \<open>
  The loops over one row. The source updates squareMatrix and inverseMatrix in the same iteration;
  the two arrays are disjoint, so each loop is given for one array and applied to both.
\<close>

definition rowLoop :: "nat \<Rightarrow> nat \<Rightarrow> nat \<Rightarrow> (byte \<Rightarrow> byte \<Rightarrow> byte) \<Rightarrow> byte list \<Rightarrow> byte list" where
  "rowLoop k r r1 g a = fold (\<lambda>l a. a[r + l := g (a ! (r + l)) (a ! (r1 + l))]) [0..<k] a"

definition swapRows :: "nat \<Rightarrow> nat \<Rightarrow> nat \<Rightarrow> byte list \<Rightarrow> byte list" where
  "swapRows k r1 r2 a =
     fold (\<lambda>h a. a[r1 + h := a ! (r2 + h), r2 + h := a ! (r1 + h)]) [0..<k] a"

definition scaleRow :: "gf \<Rightarrow> nat \<Rightarrow> nat \<Rightarrow> byte \<Rightarrow> byte list \<Rightarrow> byte list" where
  "scaleRow gf k r multFactor = rowLoop k r r (\<lambda>x _. gf_multiply gf x multFactor)"

definition addRow :: "nat \<Rightarrow> nat \<Rightarrow> nat \<Rightarrow> byte list \<Rightarrow> byte list" where
  "addRow k r2 r1 = rowLoop k r2 r1 (\<lambda>x y. x XOR y)"

definition addMulRow :: "gf \<Rightarrow> nat \<Rightarrow> nat \<Rightarrow> nat \<Rightarrow> byte \<Rightarrow> byte list \<Rightarrow> byte list" where
  "addMulRow gf k r2 r1 multFactor = rowLoop k r2 r1 (\<lambda>x y. x XOR gf_multiply gf y multFactor)"

type_synonym matrices = "byte list \<times> byte list"   \<comment> \<open>squareMatrix, inverseMatrix\<close>

definition identityMatrix :: "nat \<Rightarrow> byte list" where
  "identityMatrix k = map (\<lambda>i. if i div k = i mod k then 1 else 0) [0..<k * k]"

definition pivot :: "nat \<Rightarrow> nat \<Rightarrow> matrices \<Rightarrow> matrices option" where
  "pivot k i = (\<lambda>(s, v).
     if s ! (k * i + i) = 0 then
       (case find (\<lambda>j. s ! (k * j + i) \<noteq> 0) [i + 1..<k] of
          None \<Rightarrow> None
        | Some j \<Rightarrow> Some (swapRows k (k * i) (k * j) s, swapRows k (k * i) (k * j) v))
     else Some (s, v))"

definition normalise :: "gf \<Rightarrow> nat \<Rightarrow> nat \<Rightarrow> matrices \<Rightarrow> matrices" where
  "normalise gf k i = (\<lambda>(s, v).
     let tmp = s ! (k * i + i) in
     if tmp \<noteq> 1 then
       let multFactor = gf_divide gf 1 tmp
       in (scaleRow gf k (k * i) multFactor s, scaleRow gf k (k * i) multFactor v)
     else (s, v))"

definition eliminate :: "gf \<Rightarrow> nat \<Rightarrow> nat \<Rightarrow> nat \<Rightarrow> matrices \<Rightarrow> matrices" where
  "eliminate gf k i j = (\<lambda>(s, v).
     let h = k * j + i in
     if s ! h \<noteq> 0 then
       if s ! h = 1 then (addRow k (k * j) (k * i) s, addRow k (k * j) (k * i) v)
       else let multFactor = s ! h
            in (addMulRow gf k (k * j) (k * i) multFactor s, addMulRow gf k (k * j) (k * i) multFactor v)
     else (s, v))"

primrec forward :: "gf \<Rightarrow> nat \<Rightarrow> nat list \<Rightarrow> matrices \<Rightarrow> matrices option" where
  "forward gf k [] sv = Some sv"
| "forward gf k (i # is) sv =
     (case pivot k i sv of
        None \<Rightarrow> None
      | Some sv' \<Rightarrow> forward gf k is (fold (eliminate gf k i) [i + 1..<k] (normalise gf k i sv')))"

definition backEliminate :: "gf \<Rightarrow> nat \<Rightarrow> nat \<Rightarrow> nat \<Rightarrow> matrices \<Rightarrow> matrices" where
  "backEliminate gf k i j = (\<lambda>(s, v).
     let h = k * j + i in
     if s ! h \<noteq> 0 then
       (s[h := 0],
        if s ! h = 1 then addRow k (k * j) (k * i) v
        else addMulRow gf k (k * j) (k * i) (s ! h) v)
     else (s, v))"

definition backward :: "gf \<Rightarrow> nat \<Rightarrow> matrices \<Rightarrow> matrices" where
  "backward gf k sv = fold (\<lambda>i. fold (backEliminate gf k i) [0..<i]) (rev [0..<k]) sv"

definition squareMatrixInverting :: "gf \<Rightarrow> nat \<Rightarrow> byte list \<Rightarrow> matrices option" where
  "squareMatrixInverting gf k squareMatrix =
     map_option (backward gf k) (forward gf k [0..<k] (squareMatrix, identityMatrix k))"

section \<open>The loops over a row\<close>

lemma length_rowLoop [simp]: "length (rowLoop k r r1 g a) = length a"
proof -
  have "length (fold (\<lambda>l a. a[r + l := g (a ! (r + l)) (a ! (r1 + l))]) xs a) = length a" for xs
    by (induction xs arbitrary: a) auto
  then show ?thesis by (simp add: rowLoop_def)
qed

lemma length_swapRows [simp]: "length (swapRows k r1 r2 a) = length a"
proof -
  have "length (fold (\<lambda>h a. a[r1 + h := a ! (r2 + h), r2 + h := a ! (r1 + h)]) xs a) = length a" for xs
    by (induction xs arbitrary: a) auto
  then show ?thesis by (simp add: swapRows_def)
qed

lemma rowLoop_nth:
  assumes "r + k \<le> length a" "r1 + k \<le> length a" "r1 = r \<or> r1 + k \<le> r \<or> r + k \<le> r1"
  shows "x < length a \<Longrightarrow> rowLoop k r r1 g a ! x =
    (if r \<le> x \<and> x < r + k then g (a ! x) (a ! (r1 + (x - r))) else a ! x)"
  using assms unfolding rowLoop_def
proof (induction k arbitrary: x)
  case 0
  then show ?case by auto
next
  case (Suc k)
  let ?b = "fold (\<lambda>l a. a[r + l := g (a ! (r + l)) (a ! (r1 + l))]) [0..<k] a"
  have len: "length ?b = length a" using length_rowLoop [of k r r1 g a] by (simp add: rowLoop_def)
  have ih: "?b ! y = (if r \<le> y \<and> y < r + k then g (a ! y) (a ! (r1 + (y - r))) else a ! y)"
    if "y < length a" for y
    using Suc.IH [of y] Suc.prems that by auto
  have b1: "?b ! (r + k) = a ! (r + k)" using ih [of "r + k"] Suc.prems by simp
  have b2: "?b ! (r1 + k) = a ! (r1 + k)" using ih [of "r1 + k"] Suc.prems by auto
  show ?case
    using Suc.prems ih [of x] len by (auto simp: nth_list_update b1 b2 less_Suc_eq)
qed

lemma swapRows_nth:
  assumes "r1 + k \<le> r2" "r2 + k \<le> length a"
  shows "x < length a \<Longrightarrow> swapRows k r1 r2 a ! x =
    (if r1 \<le> x \<and> x < r1 + k then a ! (r2 + (x - r1))
     else if r2 \<le> x \<and> x < r2 + k then a ! (r1 + (x - r2)) else a ! x)"
  using assms unfolding swapRows_def
proof (induction k arbitrary: x)
  case 0
  then show ?case by auto
next
  case (Suc k)
  let ?b = "fold (\<lambda>h a. a[r1 + h := a ! (r2 + h), r2 + h := a ! (r1 + h)]) [0..<k] a"
  have len: "length ?b = length a" using length_swapRows [of k r1 r2 a] by (simp add: swapRows_def)
  have ih: "?b ! y = (if r1 \<le> y \<and> y < r1 + k then a ! (r2 + (y - r1))
     else if r2 \<le> y \<and> y < r2 + k then a ! (r1 + (y - r2)) else a ! y)" if "y < length a" for y
    using Suc.IH [of y] Suc.prems that by auto
  have b: "?b ! (r1 + k) = a ! (r1 + k)" "?b ! (r2 + k) = a ! (r2 + k)"
    using ih [of "r1 + k"] ih [of "r2 + k"] Suc.prems by auto
  show ?case
    using Suc.prems ih [of x] len by (auto simp: nth_list_update b less_Suc_eq)
qed

section \<open>The matrix view\<close>

abbreviation entry :: "nat \<Rightarrow> byte list \<Rightarrow> nat \<Rightarrow> nat \<Rightarrow> byte" where
  "entry k a i j \<equiv> a ! (k * i + j)"

lemma row_fits: "i < k \<Longrightarrow> k * i + k \<le> k * (k :: nat)"
  by (metis Suc_leI mult_Suc_right add.commute mult_le_mono2)

lemma entry_fits: "i < k \<Longrightarrow> j < k \<Longrightarrow> k * i + j < k * (k :: nat)"
  using row_fits [of i k] by linarith

lemma row_iff: "j < k \<Longrightarrow> (k * r \<le> k * i + j \<and> k * i + j < k * r + k) \<longleftrightarrow> i = (r :: nat)"
proof
  assume j: "j < k" and h: "k * r \<le> k * i + j \<and> k * i + j < k * r + k"
  have "(k * i + j) div k = i" "(k * r) div k = r" using j by auto
  moreover have "(k * i + j) div k = r"
    using h j by (intro div_nat_eqI) (auto simp: mult.commute)
  ultimately show "i = r" by simp
qed auto

lemma rows_disjoint: "i < (j :: nat) \<Longrightarrow> k * i + k \<le> k * j"
  by (metis Suc_leI mult_Suc_right add.commute mult_le_mono2)

lemma entry_rowLoop:
  assumes "length a = k * k" "i < k" "j < k" "r < k" "r1 < k"
  shows "entry k (rowLoop k (k * r) (k * r1) g a) i j =
    (if i = r then g (entry k a r j) (entry k a r1 j) else entry k a i j)"
proof -
  have "k * r1 = k * r \<or> k * r1 + k \<le> k * r \<or> k * r + k \<le> k * r1"
    using rows_disjoint [of r1 r k] rows_disjoint [of r r1 k] by (metis linorder_neqE_nat)
  then show ?thesis
    using assms rowLoop_nth [of "k * r" k a "k * r1" "k * i + j" g] row_iff [of j k r i]
    by (auto simp: entry_fits row_fits)
qed

lemma entry_swapRows:
  assumes "length a = k * k" "i < k" "j < k" "r1 < r2" "r2 < k"
  shows "entry k (swapRows k (k * r1) (k * r2) a) i j =
    (if i = r1 then entry k a r2 j else if i = r2 then entry k a r1 j else entry k a i j)"
  using assms swapRows_nth [of "k * r1" k "k * r2" a "k * i + j"]
    row_iff [of j k r1 i] row_iff [of j k r2 i]
  by (auto simp: entry_fits row_fits rows_disjoint)


lemma length_scaleRow [simp]: "length (scaleRow gf k r f a) = length a"
  by (simp add: scaleRow_def)

lemma length_addRow [simp]: "length (addRow k r2 r1 a) = length a"
  by (simp add: addRow_def)

lemma length_addMulRow [simp]: "length (addMulRow gf k r2 r1 f a) = length a"
  by (simp add: addMulRow_def)

lemma length_identityMatrix [simp]: "length (identityMatrix k) = k * k"
  by (simp add: identityMatrix_def)

lemma entry_identityMatrix: "i < k \<Longrightarrow> j < k \<Longrightarrow> entry k (identityMatrix k) i j = (if i = j then 1 else 0)"
  by (simp add: identityMatrix_def entry_fits)

section \<open>Row operations\<close>

text \<open>The product of a matrix (given by its entries) with a vector, and its kernel.\<close>

definition matVec :: "gf \<Rightarrow> nat \<Rightarrow> (nat \<Rightarrow> nat \<Rightarrow> byte) \<Rightarrow> (nat \<Rightarrow> byte) \<Rightarrow> nat \<Rightarrow> byte" where
  "matVec gf k A x i = gsum (\<lambda>j. gf_multiply gf (A i j) (x j)) [0..<k]"

definition inKernel :: "gf \<Rightarrow> nat \<Rightarrow> (nat \<Rightarrow> nat \<Rightarrow> byte) \<Rightarrow> (nat \<Rightarrow> byte) \<Rightarrow> bool" where
  "inKernel gf k A x \<longleftrightarrow> (\<forall>i<k. matVec gf k A x i = 0)"

text \<open>
  The elimination invariant: inverseMatrix times the original matrix is squareMatrix, and both
  have the same kernel.
\<close>

definition rowsOf :: "gf \<Rightarrow> nat \<Rightarrow> (nat \<Rightarrow> nat \<Rightarrow> byte) \<Rightarrow> byte list \<Rightarrow> byte list \<Rightarrow> bool" where
  "rowsOf gf k A s v \<longleftrightarrow> length s = k * k \<and> length v = k * k \<and>
     (\<forall>i<k. \<forall>j<k. gsum (\<lambda>l. gf_multiply gf (entry k v i l) (A l j)) [0..<k] = entry k s i j)"

definition sameKernel :: "gf \<Rightarrow> nat \<Rightarrow> (nat \<Rightarrow> nat \<Rightarrow> byte) \<Rightarrow> byte list \<Rightarrow> bool" where
  "sameKernel gf k A s \<longleftrightarrow> (\<forall>x. inKernel gf k (entry k s) x \<longleftrightarrow> inKernel gf k A x)"

definition elimInv :: "gf \<Rightarrow> nat \<Rightarrow> (nat \<Rightarrow> nat \<Rightarrow> byte) \<Rightarrow> matrices \<Rightarrow> bool" where
  "elimInv gf k A sv \<longleftrightarrow> rowsOf gf k A (fst sv) (snd sv) \<and> sameKernel gf k A (fst sv)"

lemma upt_sum_cong: "(\<And>j. j < k \<Longrightarrow> f j = g j) \<Longrightarrow> gsum f [0..<k] = gsum g [0..<k]"
  by (rule gsum_cong) simp

lemma matVec_cong: "(\<And>j. j < k \<Longrightarrow> A i j = B i' j) \<Longrightarrow> matVec gf k A x i = matVec gf k B x i'"
  unfolding matVec_def by (rule upt_sum_cong) simp

context gf_laws begin

lemma rowsOf_swap:
  assumes "rowsOf gf k A s v" "r1 < r2" "r2 < k"
  shows "rowsOf gf k A (swapRows k (k * r1) (k * r2) s) (swapRows k (k * r1) (k * r2) v)"
proof -
  have e: "entry k (swapRows k (k * r1) (k * r2) a) i j =
      entry k a (if i = r1 then r2 else if i = r2 then r1 else i) j"
    if "length a = k * k" "i < k" "j < k" for a i j
    using entry_swapRows [OF that assms(2,3)] by simp
  show ?thesis
    unfolding rowsOf_def
  proof (intro conjI allI impI)
    fix i j assume ij: "i < k" "j < k"
    let ?i = "if i = r1 then r2 else if i = r2 then r1 else i"
    have "?i < k" using ij assms by auto
    then show "gsum (\<lambda>l. gf_multiply gf (entry k (swapRows k (k * r1) (k * r2) v) i l) (A l j)) [0..<k] =
        entry k (swapRows k (k * r1) (k * r2) s) i j"
      using assms(1) ij unfolding rowsOf_def
      by (subst e) (auto simp: e cong: upt_sum_cong)
  qed (use assms in \<open>auto simp: rowsOf_def\<close>)
qed

lemma kernel_swap:
  assumes "length s = k * k" "r1 < r2" "r2 < k"
  shows "inKernel gf k (entry k (swapRows k (k * r1) (k * r2) s)) x \<longleftrightarrow> inKernel gf k (entry k s) x"
proof -
  have m: "matVec gf k (entry k (swapRows k (k * r1) (k * r2) s)) x i =
      matVec gf k (entry k s) x (if i = r1 then r2 else if i = r2 then r1 else i)" if "i < k" for i
    using that assms by (intro matVec_cong) (simp add: entry_swapRows)
  show ?thesis
    unfolding inKernel_def using m assms by (smt (verit) less_trans)
qed

lemma rowsOf_scale:
  assumes "rowsOf gf k A s v" "r < k"
  shows "rowsOf gf k A (scaleRow gf k (k * r) f s) (scaleRow gf k (k * r) f v)"
  unfolding rowsOf_def
proof (intro conjI allI impI)
  fix i j assume ij: "i < k" "j < k"
  have len: "length s = k * k" "length v = k * k"
    and old: "gsum (\<lambda>l. gf_multiply gf (entry k v i l) (A l j)) [0..<k] = entry k s i j"
    using assms ij by (auto simp: rowsOf_def)
  have "gsum (\<lambda>l. gf_multiply gf (entry k (scaleRow gf k (k * r) f v) i l) (A l j)) [0..<k] =
      gsum (\<lambda>l. if i = r then gf_multiply gf (gf_multiply gf (entry k v i l) (A l j)) f
        else gf_multiply gf (entry k v i l) (A l j)) [0..<k]"
    using ij assms len
    by (intro upt_sum_cong) (auto simp: scaleRow_def entry_rowLoop mul_assoc mul_commute [of f])
  also have "\<dots> = entry k (scaleRow gf k (k * r) f s) i j"
    using ij assms len old
    by (cases "i = r") (simp_all add: scaleRow_def entry_rowLoop flip: gsum_mul_right)
  finally show "gsum (\<lambda>l. gf_multiply gf (entry k (scaleRow gf k (k * r) f v) i l) (A l j)) [0..<k] =
      entry k (scaleRow gf k (k * r) f s) i j" .
qed (use assms in \<open>auto simp: rowsOf_def\<close>)

lemma kernel_scale:
  assumes "length s = k * k" "r < k" "f \<noteq> 0"
  shows "inKernel gf k (entry k (scaleRow gf k (k * r) f s)) x \<longleftrightarrow> inKernel gf k (entry k s) x"
proof -
  have m: "matVec gf k (entry k (scaleRow gf k (k * r) f s)) x i =
      (if i = r then gf_multiply gf f (matVec gf k (entry k s) x i) else matVec gf k (entry k s) x i)"
    if "i < k" for i
  proof -
    have "matVec gf k (entry k (scaleRow gf k (k * r) f s)) x i =
      gsum (\<lambda>j. if i = r then gf_multiply gf f (gf_multiply gf (entry k s i j) (x j))
        else gf_multiply gf (entry k s i j) (x j)) [0..<k]"
      unfolding matVec_def using that assms
      by (intro upt_sum_cong) (auto simp: scaleRow_def entry_rowLoop mul_assoc mul_commute mul_left_commute)
    then show ?thesis by (auto simp: matVec_def gsum_mul)
  qed
  show ?thesis using m assms(3) by (auto simp: inKernel_def)
qed

lemma addRow_addMulRow: "addRow k r2 r1 = addMulRow gf k r2 r1 1"
  by (simp add: addRow_def addMulRow_def)

lemma rowsOf_addMul:
  assumes "rowsOf gf k A s v" "r1 < k" "r2 < k" "r1 \<noteq> r2"
  shows "rowsOf gf k A (addMulRow gf k (k * r2) (k * r1) f s) (addMulRow gf k (k * r2) (k * r1) f v)"
  unfolding rowsOf_def
proof (intro conjI allI impI)
  fix i j assume ij: "i < k" "j < k"
  have len: "length s = k * k" "length v = k * k"
    and old: "gsum (\<lambda>l. gf_multiply gf (entry k v i l) (A l j)) [0..<k] = entry k s i j" if "i < k" for i
    using assms ij that by (auto simp: rowsOf_def)
  have "gsum (\<lambda>l. gf_multiply gf (entry k (addMulRow gf k (k * r2) (k * r1) f v) i l) (A l j)) [0..<k] =
      gsum (\<lambda>l. if i = r2 then gf_multiply gf (entry k v r2 l) (A l j) XOR
          gf_multiply gf (gf_multiply gf (entry k v r1 l) (A l j)) f
        else gf_multiply gf (entry k v i l) (A l j)) [0..<k]"
    using ij assms len [OF ij(1)]
    by (intro upt_sum_cong) (auto simp: addMulRow_def entry_rowLoop mul_xor mul_assoc mul_commute [of f])
  also have "\<dots> = entry k (addMulRow gf k (k * r2) (k * r1) f s) i j"
    using ij assms len [OF ij(1)] old [of r1] old [of r2] old [of i]
    by (cases "i = r2") (simp_all add: addMulRow_def entry_rowLoop gsum_xor flip: gsum_mul_right)
  finally show "gsum (\<lambda>l. gf_multiply gf (entry k (addMulRow gf k (k * r2) (k * r1) f v) i l) (A l j)) [0..<k] =
      entry k (addMulRow gf k (k * r2) (k * r1) f s) i j" .
qed (use assms in \<open>auto simp: rowsOf_def\<close>)

lemma kernel_addMul:
  assumes "length s = k * k" "r1 < k" "r2 < k" "r1 \<noteq> r2"
  shows "inKernel gf k (entry k (addMulRow gf k (k * r2) (k * r1) f s)) x \<longleftrightarrow> inKernel gf k (entry k s) x"
proof -
  let ?m = "matVec gf k (entry k s) x"
  have m: "matVec gf k (entry k (addMulRow gf k (k * r2) (k * r1) f s)) x i =
      (if i = r2 then ?m r2 XOR gf_multiply gf f (?m r1) else ?m i)" if "i < k" for i
  proof -
    have "matVec gf k (entry k (addMulRow gf k (k * r2) (k * r1) f s)) x i =
      gsum (\<lambda>j. if i = r2 then gf_multiply gf (entry k s r2 j) (x j) XOR
          gf_multiply gf f (gf_multiply gf (entry k s r1 j) (x j))
        else gf_multiply gf (entry k s i j) (x j)) [0..<k]"
      unfolding matVec_def using that assms
      by (intro upt_sum_cong)
        (auto simp: addMulRow_def entry_rowLoop mul_xor mul_xor_right mul_assoc mul_commute mul_left_commute)
    then show ?thesis by (auto simp: matVec_def gsum_mul gsum_xor)
  qed
  show ?thesis
  proof
    assume h: "inKernel gf k (entry k (addMulRow gf k (k * r2) (k * r1) f s)) x"
    then have others: "?m i = 0" if "i < k" "i \<noteq> r2" for i using m [of i] that by (auto simp: inKernel_def)
    then have "?m r2 = 0" using h m [of r2] assms by (auto simp: inKernel_def)
    then show "inKernel gf k (entry k s) x" using others by (auto simp: inKernel_def)
  next
    assume "inKernel gf k (entry k s) x"
    then show "inKernel gf k (entry k (addMulRow gf k (k * r2) (k * r1) f s)) x"
      using m assms by (auto simp: inKernel_def)
  qed
qed


end

section \<open>Forward elimination\<close>

text \<open>Column \<open>j\<close> is finished: a one on the diagonal and zeroes below.\<close>

definition finished :: "nat \<Rightarrow> byte list \<Rightarrow> nat \<Rightarrow> bool" where
  "finished k s j \<longleftrightarrow> entry k s j j = 1 \<and> (\<forall>i<k. j < i \<longrightarrow> entry k s i j = 0)"

context gf_laws begin

lemma elimInv_start: "length s = k * k \<Longrightarrow> elimInv gf k (entry k s) (s, identityMatrix k)"
proof -
  assume len: "length s = k * k"
  have "gsum (\<lambda>l. gf_multiply gf (entry k (identityMatrix k) i l) (entry k s l j)) [0..<k] = entry k s i j"
    if "i < k" for i j
  proof -
    have "gsum (\<lambda>l. gf_multiply gf (entry k (identityMatrix k) i l) (entry k s l j)) [0..<k] =
        gsum (\<lambda>l. if l = i then entry k s l j else 0) [0..<k]"
      using that by (intro upt_sum_cong) (auto simp: entry_identityMatrix mul_one)
    then show ?thesis using that by (simp add: gsum_delta)
  qed
  then show ?thesis using len by (simp add: elimInv_def rowsOf_def sameKernel_def)
qed

lemma pivot_Some:
  assumes inv: "elimInv gf k A sv" and i: "i < k" and p: "pivot k i sv = Some sv'"
    and fin: "\<forall>j<i. finished k (fst sv) j"
  shows "elimInv gf k A sv'" "entry k (fst sv') i i \<noteq> 0" "\<forall>j<i. finished k (fst sv') j"
proof -
  obtain s v where sv: "sv = (s, v)" by force
  have len: "length s = k * k" using inv by (simp add: sv elimInv_def rowsOf_def)
  have "elimInv gf k A sv' \<and> entry k (fst sv') i i \<noteq> 0 \<and> (\<forall>j<i. finished k (fst sv') j)"
  proof (cases "entry k s i i = 0")
    case True
    then obtain j where j: "find (\<lambda>j. entry k s j i \<noteq> 0) [i + 1..<k] = Some j"
      and sv': "sv' = (swapRows k (k * i) (k * j) s, swapRows k (k * i) (k * j) v)"
      using p by (auto simp: pivot_def sv split: option.splits)
    have ij: "i < j" "j < k" "entry k s j i \<noteq> 0" using find_upt_range [OF j] by auto
    have "finished k (swapRows k (k * i) (k * j) s) c" if c: "c < i" for c
      using fin c ij i len by (auto simp: finished_def sv entry_swapRows)
    then show ?thesis
      using ij i inv len rowsOf_swap [of k A s v i j] kernel_swap [of s k i j]
      by (auto simp: sv' sv elimInv_def sameKernel_def entry_swapRows)
  next
    case False
    then show ?thesis using p inv fin by (auto simp: pivot_def sv)
  qed
  then show "elimInv gf k A sv'" "entry k (fst sv') i i \<noteq> 0" "\<forall>j<i. finished k (fst sv') j" by auto
qed

lemma normalise_inv:
  assumes inv: "elimInv gf k A sv" and i: "i < k" and ne: "entry k (fst sv) i i \<noteq> 0"
    and fin: "\<forall>j<i. finished k (fst sv) j"
  shows "elimInv gf k A (normalise gf k i sv)" "entry k (fst (normalise gf k i sv)) i i = 1"
    "\<forall>j<i. finished k (fst (normalise gf k i sv)) j"
proof -
  obtain s v where sv: "sv = (s, v)" by force
  have len: "length s = k * k" using inv by (simp add: sv elimInv_def rowsOf_def)
  let ?f = "gf_divide gf 1 (entry k s i i)"
  have f: "?f \<noteq> 0" "gf_multiply gf (entry k s i i) ?f = 1"
    using ne inv_mul [of "entry k s i i"] by (auto simp: sv mul_commute)
  have fin': "finished k (scaleRow gf k (k * i) ?f s) c" if c: "c < i" for c
    using fin c i len by (auto simp: finished_def sv scaleRow_def entry_rowLoop)
  have e: "entry k (scaleRow gf k (k * i) ?f s) i i = 1"
    using f i len by (simp add: scaleRow_def entry_rowLoop)
  have inv': "elimInv gf k A (scaleRow gf k (k * i) ?f s, scaleRow gf k (k * i) ?f v)"
    using inv i len f rowsOf_scale [of k A s v i ?f] kernel_scale [of s k i ?f]
    by (auto simp: sv elimInv_def sameKernel_def)
  show "elimInv gf k A (normalise gf k i sv)" "entry k (fst (normalise gf k i sv)) i i = 1"
    "\<forall>j<i. finished k (fst (normalise gf k i sv)) j"
    using inv inv' e fin' fin by (auto simp: normalise_def sv Let_def)
qed

lemma eliminate_eq:
  "eliminate gf k i j (s, v) =
    (if entry k s j i = 0 then (s, v)
     else (addMulRow gf k (k * j) (k * i) (entry k s j i) s, addMulRow gf k (k * j) (k * i) (entry k s j i) v))"
  by (simp add: eliminate_def Let_def addRow_addMulRow)

lemma eliminate_inv:
  assumes inv: "elimInv gf k A sv" and ij: "i < j" "j < k" and one: "entry k (fst sv) i i = 1"
    and fin: "\<forall>c<i. finished k (fst sv) c"
  shows "elimInv gf k A (eliminate gf k i j sv)" "entry k (fst (eliminate gf k i j sv)) i i = 1"
    "\<forall>c<i. finished k (fst (eliminate gf k i j sv)) c"
    "entry k (fst (eliminate gf k i j sv)) j i = 0"
    "\<forall>r<k. r \<noteq> j \<longrightarrow> entry k (fst (eliminate gf k i j sv)) r i = entry k (fst sv) r i"
proof -
  obtain s v where sv: "sv = (s, v)" by force
  have len: "length s = k * k" using inv by (simp add: sv elimInv_def rowsOf_def)
  let ?f = "entry k s j i" and ?s = "addMulRow gf k (k * j) (k * i) (entry k s j i) s"
  have e: "entry k ?s r c = (if r = j then entry k s j c XOR gf_multiply gf (entry k s i c) ?f
      else entry k s r c)" if "r < k" "c < k" for r c
    using that ij len by (simp add: addMulRow_def entry_rowLoop)
  have fin': "finished k ?s c" if c: "c < i" for c
    using fin c ij by (auto simp: finished_def sv e)
  have "elimInv gf k A (?s, addMulRow gf k (k * j) (k * i) ?f v)"
    using inv ij len rowsOf_addMul [of k A s v i j ?f] kernel_addMul [of s k i j ?f]
    by (auto simp: sv elimInv_def sameKernel_def)
  then show "elimInv gf k A (eliminate gf k i j sv)" "entry k (fst (eliminate gf k i j sv)) i i = 1"
    "\<forall>c<i. finished k (fst (eliminate gf k i j sv)) c"
    "entry k (fst (eliminate gf k i j sv)) j i = 0"
    "\<forall>r<k. r \<noteq> j \<longrightarrow> entry k (fst (eliminate gf k i j sv)) r i = entry k (fst sv) r i"
    using inv one fin fin' ij by (auto simp: sv eliminate_eq e mul_one)
qed

lemma eliminate_all:
  assumes "elimInv gf k A sv" "entry k (fst sv) i i = 1" "\<forall>c<i. finished k (fst sv) c"
  shows "m \<le> k \<Longrightarrow> i < m \<Longrightarrow> elimInv gf k A (fold (eliminate gf k i) [i + 1..<m] sv) \<and>
    entry k (fst (fold (eliminate gf k i) [i + 1..<m] sv)) i i = 1 \<and>
    (\<forall>c<i. finished k (fst (fold (eliminate gf k i) [i + 1..<m] sv)) c) \<and>
    (\<forall>r. i < r \<and> r < m \<longrightarrow> entry k (fst (fold (eliminate gf k i) [i + 1..<m] sv)) r i = 0)"
proof (induction m)
  case 0
  then show ?case by simp
next
  case (Suc m)
  show ?case
  proof (cases "i = m")
    case True
    then show ?thesis using assms by auto
  next
    case False
    then have im: "i < m" "m < k" using Suc.prems by auto
    let ?sv = "fold (eliminate gf k i) [i + 1..<m] sv"
    have ih: "elimInv gf k A ?sv" "entry k (fst ?sv) i i = 1" "\<forall>c<i. finished k (fst ?sv) c"
      "\<forall>r. i < r \<and> r < m \<longrightarrow> entry k (fst ?sv) r i = 0"
      using Suc.IH im by auto
    note e = eliminate_inv [OF ih(1) im ih(2,3)]
    have "fold (eliminate gf k i) [i + 1..<Suc m] sv = eliminate gf k i m ?sv" using im by simp
    then show ?thesis using e ih(4) im by (auto simp: less_Suc_eq)
  qed
qed

lemma forward_Some:
  assumes "forward gf k [i..<k] sv = Some sv'" "i \<le> k" "elimInv gf k A sv"
    "\<forall>j<i. finished k (fst sv) j"
  shows "elimInv gf k A sv' \<and> (\<forall>j<k. finished k (fst sv') j)"
  using assms
proof (induction "k - i" arbitrary: i sv)
  case 0
  then show ?case by simp
next
  case (Suc d)
  then have ik: "i < k" by simp
  then obtain sv1 where p: "pivot k i sv = Some sv1"
    and f: "forward gf k [Suc i..<k] (fold (eliminate gf k i) [i + 1..<k] (normalise gf k i sv1)) = Some sv'"
    using Suc.prems(1) by (auto simp: upt_conv_Cons split: option.splits)
  note pv = pivot_Some [OF Suc.prems(3) ik p Suc.prems(4)]
  note nv = normalise_inv [OF pv(1) ik pv(2,3)]
  let ?sv = "fold (eliminate gf k i) [i + 1..<k] (normalise gf k i sv1)"
  have e: "elimInv gf k A ?sv" "\<forall>j<Suc i. finished k (fst ?sv) j"
    using eliminate_all [OF nv, of k] ik by (auto simp: finished_def less_Suc_eq)
  show ?case using Suc.hyps(1) [of "Suc i" ?sv] Suc.hyps(2) f e ik by simp
qed

text \<open>
  When no pivot is left in column \<open>c\<close>, back substitution over the finished columns gives a
  non-zero vector of the kernel.
\<close>

lemma back_substitution:
  assumes fin: "\<forall>j<c. finished k s j" and c: "c < k"
  shows "t \<le> c \<Longrightarrow> \<exists>x. x c = 1 \<and> (\<forall>j. c < j \<longrightarrow> x j = 0) \<and>
    (\<forall>i. t \<le> i \<and> i < c \<longrightarrow> matVec gf k (entry k s) x i = 0)"
proof (induction "c - t" arbitrary: t)
  case 0
  then show ?case by (intro exI [of _ "\<lambda>j. if j = c then 1 else 0"]) auto
next
  case (Suc d)
  then have tc: "t < c" "d = c - Suc t" by auto
  obtain x where x: "x c = 1" "\<forall>j. c < j \<longrightarrow> x j = 0"
    "\<forall>i. Suc t \<le> i \<and> i < c \<longrightarrow> matVec gf k (entry k s) x i = 0"
    using Suc.hyps(1) [OF tc(2)] tc by auto
  have zero: "entry k s i t = 0" if "t < i" "i < k" for i
    using fin tc that by (auto simp: finished_def)
  have one: "entry k s t t = 1" using fin tc by (auto simp: finished_def)
  let ?rest = "gsum (\<lambda>j. if j = t then 0 else gf_multiply gf (entry k s t j) (x j)) [0..<k]"
  let ?x = "x(t := ?rest)"
  have later: "matVec gf k (entry k s) ?x i = matVec gf k (entry k s) x i" if "t < i" "i < k" for i
    unfolding matVec_def using zero [OF that] by (intro upt_sum_cong) auto
  have "matVec gf k (entry k s) ?x t =
      gsum (\<lambda>j. (if j = t then 0 else gf_multiply gf (entry k s t j) (x j)) XOR
        (if j = t then ?rest else 0)) [0..<k]"
    unfolding matVec_def using one by (intro upt_sum_cong) (auto simp: mul_one)
  also have "\<dots> = 0" using tc c by (subst gsum_xor) (simp add: gsum_delta)
  finally have row: "matVec gf k (entry k s) ?x t = 0" .
  have "matVec gf k (entry k s) ?x i = 0" if "t \<le> i" "i < c" for i
    using row later [of i] x(3) that c by (cases "i = t") auto
  then show ?case using x(1,2) tc by (intro exI [of _ ?x]) auto
qed

lemma pivot_None:
  assumes inv: "elimInv gf k A sv" and c: "c < k" and p: "pivot k c sv = None"
    and fin: "\<forall>j<c. finished k (fst sv) j"
  shows "\<exists>x. x c = 1 \<and> inKernel gf k A x"
proof -
  obtain s v where sv: "sv = (s, v)" by force
  have none: "entry k s i c = 0" if "c \<le> i" "i < k" for i
    using p that by (auto simp: pivot_def sv find_None_iff le_less split: if_splits option.splits)
  obtain x where x: "x c = 1" "\<forall>j. c < j \<longrightarrow> x j = 0"
    "\<forall>i. i < c \<longrightarrow> matVec gf k (entry k s) x i = 0"
    using back_substitution [of c k s 0] fin c by (auto simp: sv)
  have "matVec gf k (entry k s) x i = 0" if "c \<le> i" "i < k" for i
    unfolding matVec_def
  proof (rule gsum_eq_0)
    fix j assume "j \<in> set [0..<k]"
    then show "gf_multiply gf (entry k s i j) (x j) = 0"
      using x(2) none [OF that] fin that by (cases j c rule: linorder_cases) (auto simp: sv finished_def)
  qed
  then have "inKernel gf k (entry k s) x" using x(3) by (auto simp: inKernel_def) (metis not_le)
  then show ?thesis using x(1) inv by (auto simp: sv elimInv_def sameKernel_def)
qed

lemma forward_None:
  assumes "forward gf k [i..<k] sv = None" "i \<le> k" "elimInv gf k A sv"
    "\<forall>j<i. finished k (fst sv) j"
  shows "\<exists>x c. c < k \<and> x c \<noteq> 0 \<and> inKernel gf k A x"
  using assms
proof (induction "k - i" arbitrary: i sv)
  case 0
  then show ?case by simp
next
  case (Suc d)
  then have ik: "i < k" by simp
  show ?case
  proof (cases "pivot k i sv")
    case None
    then show ?thesis
      using pivot_None [OF Suc.prems(3) ik None Suc.prems(4)] ik by (metis zero_neq_one)
  next
    case (Some sv1)
    note pv = pivot_Some [OF Suc.prems(3) ik Some Suc.prems(4)]
    note nv = normalise_inv [OF pv(1) ik pv(2,3)]
    let ?sv = "fold (eliminate gf k i) [i + 1..<k] (normalise gf k i sv1)"
    have e: "elimInv gf k A ?sv" "\<forall>j<Suc i. finished k (fst ?sv) j"
      using eliminate_all [OF nv, of k] ik by (auto simp: finished_def less_Suc_eq)
    have "forward gf k [Suc i..<k] ?sv = None"
      using Suc.prems(1) Some ik by (simp add: upt_conv_Cons)
    then show ?thesis using Suc.hyps(1) [of "Suc i" ?sv] Suc.hyps(2) e ik by simp
  qed
qed

end

section \<open>Back elimination\<close>

text \<open>
  Column \<open>j\<close> is cleared: a one on the diagonal and zeroes elsewhere. The routine clears columns
  from the last one down; row \<open>i\<close> is then the unit row when column \<open>i\<close> is processed.
\<close>

definition triangular :: "nat \<Rightarrow> nat \<Rightarrow> byte list \<Rightarrow> bool" where
  "triangular k c s \<longleftrightarrow> (\<forall>j<k. finished k s j) \<and> (\<forall>j<k. c \<le> j \<longrightarrow> (\<forall>i<j. entry k s i j = 0))"

lemma entry_eq_iff: "c < k \<Longrightarrow> c' < k \<Longrightarrow> k * r + c = k * r' + c' \<longleftrightarrow> r = r' \<and> c = (c' :: nat)"
  by (metis mult.commute mult_div_mod_eq div_mult_self4 div_less add.right_neutral mod_mult_self4 mod_less
      div_mult_self1 less_nat_zero_code nat_less_le not_less0)

context gf_laws begin

lemma triangular_row:
  assumes "triangular k (Suc i) s" "i < k" "j < k"
  shows "entry k s i j = (if i = j then 1 else 0)"
  using assms by (cases i j rule: linorder_cases) (auto simp: triangular_def finished_def)

lemma backEliminate_eq:
  "backEliminate gf k i j (s, v) =
    (if entry k s j i = 0 then (s, v)
     else (s[k * j + i := 0], addMulRow gf k (k * j) (k * i) (entry k s j i) v))"
  by (simp add: backEliminate_def Let_def addRow_addMulRow)

lemma backEliminate_inv:
  assumes rows: "rowsOf gf k A s v" and tri: "triangular k (Suc i) s" and ij: "j < i" "i < k"
    and be: "backEliminate gf k i j (s, v) = (s', v')"
  shows "rowsOf gf k A s' v' \<and> triangular k (Suc i) s' \<and> entry k s' j i = 0 \<and>
    (\<forall>r<k. r \<noteq> j \<longrightarrow> entry k s' r i = entry k s r i)"
proof (cases "entry k s j i = 0")
  case True
  then show ?thesis using be rows tri by (auto simp: backEliminate_eq)
next
  case False
  have len: "length s = k * k" using rows by (simp add: rowsOf_def)
  let ?f = "entry k s j i"
  have s': "s' = s[k * j + i := 0]" and v': "v' = addMulRow gf k (k * j) (k * i) ?f v"
    using be False by (auto simp: backEliminate_eq)
  have e: "entry k s' r c = (if r = j \<and> c = i then 0 else entry k s r c)" if "r < k" "c < k" for r c
    using that ij len entry_fits [of r k c] entry_eq_iff [of i k c j r]
    by (auto simp: s' nth_list_update)
  have "rowsOf gf k A (addMulRow gf k (k * j) (k * i) ?f s) v'"
    unfolding v' using rows ij by (intro rowsOf_addMul) auto
  moreover have "entry k (addMulRow gf k (k * j) (k * i) ?f s) r c = entry k s' r c"
    if "r < k" "c < k" for r c
    using that ij len tri
    by (auto simp: e addMulRow_def entry_rowLoop triangular_row [OF tri ij(2)] mul_one)
  ultimately have "rowsOf gf k A s' v'" using len by (auto simp: rowsOf_def s')
  moreover have "triangular k (Suc i) s'"
    using tri ij by (auto simp: triangular_def finished_def e)
  ultimately show ?thesis using e ij by auto
qed

lemma backEliminate_col:
  assumes "rowsOf gf k A (fst sv) (snd sv)" "triangular k (Suc i) (fst sv)" "i < k"
  shows "m \<le> i \<Longrightarrow> rowsOf gf k A (fst (fold (backEliminate gf k i) [0..<m] sv))
      (snd (fold (backEliminate gf k i) [0..<m] sv)) \<and>
    triangular k (Suc i) (fst (fold (backEliminate gf k i) [0..<m] sv)) \<and>
    (\<forall>r<m. entry k (fst (fold (backEliminate gf k i) [0..<m] sv)) r i = 0)"
proof (induction m)
  case 0
  then show ?case using assms by simp
next
  case (Suc m)
  let ?sv = "fold (backEliminate gf k i) [0..<m] sv"
  obtain s v where sv: "?sv = (s, v)" by force
  obtain s' v' where be: "backEliminate gf k i m (s, v) = (s', v')" by force
  have "rowsOf gf k A s v" "triangular k (Suc i) s" "\<forall>r<m. entry k s r i = 0"
    using Suc by (auto simp: sv)
  then show ?case
    using backEliminate_inv [of k A s v i m s' v'] be Suc.prems assms
    by (auto simp: sv less_Suc_eq)
qed

lemma backward_inv:
  assumes "rowsOf gf k A (fst sv) (snd sv)" "\<forall>j<k. finished k (fst sv) j"
  shows "rowsOf gf k A (fst (backward gf k sv)) (snd (backward gf k sv)) \<and>
    triangular k 0 (fst (backward gf k sv))"
proof -
  have "c \<le> k \<Longrightarrow> rowsOf gf k A (fst sv) (snd sv) \<Longrightarrow> triangular k c (fst sv) \<Longrightarrow>
    rowsOf gf k A (fst (fold (\<lambda>i. fold (backEliminate gf k i) [0..<i]) (rev [0..<c]) sv))
      (snd (fold (\<lambda>i. fold (backEliminate gf k i) [0..<i]) (rev [0..<c]) sv)) \<and>
    triangular k 0 (fst (fold (\<lambda>i. fold (backEliminate gf k i) [0..<i]) (rev [0..<c]) sv))" for c sv
  proof (induction c arbitrary: sv)
    case 0
    then show ?case by simp
  next
    case (Suc c)
    let ?sv = "fold (backEliminate gf k c) [0..<c] sv"
    have b: "rowsOf gf k A (fst ?sv) (snd ?sv)" "triangular k (Suc c) (fst ?sv)"
      "\<forall>r<c. entry k (fst ?sv) r c = 0"
      using backEliminate_col [of k A sv c c] Suc.prems by auto
    then have "triangular k c (fst ?sv)" by (auto simp: triangular_def le_Suc_eq le_eq_less_or_eq)
    then show ?case using Suc.IH [of ?sv] Suc.prems b by simp
  qed
  from this [of k sv] show ?thesis
    using assms by (auto simp: backward_def triangular_def)
qed

section \<open>The inverse\<close>

lemma inverting_left_inverse:
  assumes "length s = k * k" "squareMatrixInverting gf k s = Some (s', v)" "i < k" "j < k"
  shows "length v = k * k"
    "gsum (\<lambda>l. gf_multiply gf (entry k v i l) (entry k s l j)) [0..<k] = (if i = j then 1 else 0)"
proof -
  obtain sv where f: "forward gf k [0..<k] (s, identityMatrix k) = Some sv"
    and b: "backward gf k sv = (s', v)"
    using assms(2) by (auto simp: squareMatrixInverting_def)
  have "elimInv gf k (entry k s) sv" "\<forall>j<k. finished k (fst sv) j"
    using forward_Some [OF f _ elimInv_start [OF assms(1)]] by auto
  then have rows: "rowsOf gf k (entry k s) s' v" and tri: "triangular k 0 s'"
    using backward_inv [of k "entry k s" sv] b by (auto simp: elimInv_def)
  show "length v = k * k" using rows by (simp add: rowsOf_def)
  have "triangular k (Suc i) s'" using tri by (auto simp: triangular_def)
  then show "gsum (\<lambda>l. gf_multiply gf (entry k v i l) (entry k s l j)) [0..<k] = (if i = j then 1 else 0)"
    using rows triangular_row [of k i s' j] assms(3,4) by (simp add: rowsOf_def)
qed

lemma inverting_recovers:
  assumes "length s = k * k" "squareMatrixInverting gf k s = Some (s', v)" "i < k"
  shows "matVec gf k (entry k v) (matVec gf k (entry k s) x) i = x i"
proof -
  have "matVec gf k (entry k v) (matVec gf k (entry k s) x) i =
      gsum (\<lambda>l. gsum (\<lambda>j. gf_multiply gf (gf_multiply gf (entry k v i l) (entry k s l j)) (x j)) [0..<k]) [0..<k]"
    unfolding matVec_def gsum_mul by (simp add: mul_assoc)
  also have "\<dots> = gsum (\<lambda>j. gf_multiply gf
      (gsum (\<lambda>l. gf_multiply gf (entry k v i l) (entry k s l j)) [0..<k]) (x j)) [0..<k]"
    by (subst gsum_swap) (simp add: gsum_mul_right)
  also have "\<dots> = gsum (\<lambda>j. if j = i then x j else 0) [0..<k]"
    using inverting_left_inverse(2) [OF assms] by (intro upt_sum_cong) (auto simp: mul_one)
  finally show ?thesis using assms(3) by (simp add: gsum_delta)
qed

lemma inverting_None:
  assumes "length s = k * k" "squareMatrixInverting gf k s = None"
  shows "\<exists>x c. c < k \<and> x c \<noteq> 0 \<and> inKernel gf k (entry k s) x"
  using forward_None [of k 0 "(s, identityMatrix k)" "entry k s"] elimInv_start [OF assms(1)] assms(2)
  by (auto simp: squareMatrixInverting_def)

lemma inverting_iff:
  assumes "length s = k * k"
  shows "(\<exists>s' v. squareMatrixInverting gf k s = Some (s', v)) \<longleftrightarrow>
    (\<forall>x. inKernel gf k (entry k s) x \<longrightarrow> (\<forall>c<k. x c = 0))"
proof
  assume "\<exists>s' v. squareMatrixInverting gf k s = Some (s', v)"
  then obtain s' v where sv: "squareMatrixInverting gf k s = Some (s', v)" by blast
  show "\<forall>x. inKernel gf k (entry k s) x \<longrightarrow> (\<forall>c<k. x c = 0)"
  proof (intro allI impI)
    fix x c assume x: "inKernel gf k (entry k s) x" and c: "c < k"
    have "x c = matVec gf k (entry k v) (matVec gf k (entry k s) x) c"
      by (rule inverting_recovers [OF assms sv c, symmetric])
    also have "\<dots> = 0"
      unfolding matVec_def [of gf k "entry k v"] using x by (intro gsum_eq_0) (auto simp: inKernel_def)
    finally show "x c = 0" .
  qed
next
  assume "\<forall>x. inKernel gf k (entry k s) x \<longrightarrow> (\<forall>c<k. x c = 0)"
  then show "\<exists>s' v. squareMatrixInverting gf k s = Some (s', v)"
    using inverting_None [OF assms] by (cases "squareMatrixInverting gf k s") auto
qed

end

section \<open>Properties\<close>

text \<open>
  C15. Matrix inversion is correct on every input. For every k and every k * k matrix over the field,
  the routine either returns a matrix whose product with the input is the identity, or reports a
  noninvertible matrix, and then some non-zero vector is indeed mapped to zero.
\<close>

theorem squareMatrixInverting_correct:
  assumes "gf_laws gf" "length s = k * k"
  shows "case squareMatrixInverting gf k s of
      Some (s', v) \<Rightarrow> \<forall>i<k. \<forall>j<k. length v = k * k \<and>
        gsum (\<lambda>l. gf_multiply gf (entry k v i l) (entry k s l j)) [0..<k] = (if i = j then 1 else 0)
    | None \<Rightarrow> \<exists>x c. c < k \<and> x c \<noteq> 0 \<and> inKernel gf k (entry k s) x"
  using gf_laws.inverting_left_inverse [OF assms] gf_laws.inverting_None [OF assms]
  by (auto split: option.split)

theorem squareMatrixInverting_correct_witness:
  "case squareMatrixInverting gf256 2 [0, 1, 3, 2] of
      Some (s', v) \<Rightarrow> \<forall>i<2. \<forall>j<2. length v = 2 * 2 \<and>
        gsum (\<lambda>l. gf_multiply gf256 (entry 2 v i l) (entry 2 [0, 1, 3, 2] l j)) [0..<2] = (if i = j then 1 else 0)
    | None \<Rightarrow> \<exists>x c. c < 2 \<and> x c \<noteq> 0 \<and> inKernel gf256 2 (entry 2 [0, 1, 3, 2]) x"
  by (rule squareMatrixInverting_correct [OF gf256_laws, of "[0, 1, 3, 2]" 2]) simp

end
