(* ===== verification/Crypto.thy ===== *)
theory Crypto
  imports Prelude
begin

text \<open>
  \<open>CryptoPrimitive\<close> (client/utils/CryptoPrimitive.cc and its copy server/utils/CryptoPrimitive.cc).
  The OpenSSL digests and ciphers are parameters of the model, collected in the record \<open>openssl\<close>;
  what the program relies on of them is the predicate \<open>evp_ok\<close>. The locale \<open>crypto_contract\<close> is
  what the codec, the encoder and the server use of a CryptoPrimitive object.
\<close>

section \<open>OpenSSL as a parameter\<close>

datatype digest_alg = EVP_sha256 | EVP_md5 | EVP_sha1
datatype cipher_alg = EVP_aes_256_cbc | EVP_aes_128_cbc

record openssl =
  evp_digest :: "digest_alg \<Rightarrow> bytes \<Rightarrow> bytes"
  evp_encrypt :: "cipher_alg \<Rightarrow> bytes \<Rightarrow> bytes \<Rightarrow> bytes \<Rightarrow> bytes"   \<comment> \<open>key, IV, plaintext; no padding\<close>
  evp_decrypt :: "cipher_alg \<Rightarrow> bytes \<Rightarrow> bytes \<Rightarrow> bytes \<Rightarrow> bytes"   \<comment> \<open>key, IV, ciphertext; no padding\<close>

fun digest_len :: "digest_alg \<Rightarrow> nat" where
  "digest_len EVP_sha256 = 32"
| "digest_len EVP_md5 = 16"
| "digest_len EVP_sha1 = 20"

fun cipher_key_len :: "cipher_alg \<Rightarrow> nat" where
  "cipher_key_len EVP_aes_256_cbc = 32"
| "cipher_key_len EVP_aes_128_cbc = 16"

text \<open>
  Documented behaviour of the library: digests have their fixed length; CBC without padding keeps
  the length of data that is a multiple of the 16-byte block, and decryption inverts encryption.
\<close>

definition evp_ok :: "openssl \<Rightarrow> bool" where
  "evp_ok ssl \<longleftrightarrow>
     (\<forall>alg d. length (evp_digest ssl alg d) = digest_len alg) \<and>
     (\<forall>alg key iv d. length key = cipher_key_len alg \<longrightarrow> length iv = 16 \<longrightarrow> 16 dvd length d \<longrightarrow>
        length (evp_encrypt ssl alg key iv d) = length d \<and>
        evp_decrypt ssl alg key iv (evp_encrypt ssl alg key iv d) = d)"

section \<open>The object\<close>

record cryptoPrimitive =
  cryptoType :: int
  md :: digest_alg
  hashSize :: int
  cipher :: "cipher_alg option"
  keySize :: int
  blockSize :: int
  iv :: bytes

definition HIGH_SEC_PAIR_TYPE :: int where "HIGH_SEC_PAIR_TYPE = 0"
definition LOW_SEC_PAIR_TYPE :: int where "LOW_SEC_PAIR_TYPE = 1"
definition SHA256_TYPE :: int where "SHA256_TYPE = 2"
definition SHA1_TYPE :: int where "SHA1_TYPE = 3"

lemmas crypto_types = HIGH_SEC_PAIR_TYPE_def LOW_SEC_PAIR_TYPE_def SHA256_TYPE_def SHA1_TYPE_def

datatype crypto_error =
    NoLockSetup        \<comment> \<open>exit(1): opensslLockSetup() was not called\<close>
  | UnknownType        \<comment> \<open>no branch of the constructor: every member stays uninitialised\<close>
  | BadDigestSize
  | NotBlockMultiple
  | NoCipher           \<comment> \<open>hash-only types: cipher and IV are uninitialised\<close>
  | BadCipherSize

definition mkCrypto :: "bool \<Rightarrow> int \<Rightarrow> crypto_error + cryptoPrimitive" where
  "mkCrypto locksSetUp type =
     (if \<not> locksSetUp then Inl NoLockSetup
      else if type = HIGH_SEC_PAIR_TYPE then
        Inr \<lparr> cryptoType = type, md = EVP_sha256, hashSize = 32, cipher = Some EVP_aes_256_cbc,
              keySize = 32, blockSize = 16, iv = replicate 16 0 \<rparr>
      else if type = LOW_SEC_PAIR_TYPE then
        Inr \<lparr> cryptoType = type, md = EVP_md5, hashSize = 16, cipher = Some EVP_aes_128_cbc,
              keySize = 16, blockSize = 16, iv = replicate 16 0 \<rparr>
      else if type = SHA256_TYPE then
        Inr \<lparr> cryptoType = type, md = EVP_sha256, hashSize = 32, cipher = None,
              keySize = -1, blockSize = -1, iv = [] \<rparr>
      else if type = SHA1_TYPE then
        Inr \<lparr> cryptoType = type, md = EVP_sha1, hashSize = 20, cipher = None,
              keySize = -1, blockSize = -1, iv = [] \<rparr>
      else Inl UnknownType)"

definition getHashSize :: "cryptoPrimitive \<Rightarrow> int" where "getHashSize c = hashSize c"
definition getKeySize :: "cryptoPrimitive \<Rightarrow> int" where "getKeySize c = keySize c"
definition getBlockSize :: "cryptoPrimitive \<Rightarrow> int" where "getBlockSize c = blockSize c"

definition generateHash :: "openssl \<Rightarrow> cryptoPrimitive \<Rightarrow> bytes \<Rightarrow> crypto_error + bytes" where
  "generateHash ssl c dataBuffer =
     (let hash = evp_digest ssl (md c) dataBuffer in
      if int (length hash) \<noteq> hashSize c then Inl BadDigestSize else Inr hash)"

definition encryptWithKey :: "openssl \<Rightarrow> cryptoPrimitive \<Rightarrow> bytes \<Rightarrow> bytes \<Rightarrow> crypto_error + bytes" where
  "encryptWithKey ssl c dataBuffer key =
     (if int (length dataBuffer) mod blockSize c \<noteq> 0 then Inl NotBlockMultiple
      else case cipher c of
        None \<Rightarrow> Inl NoCipher
      | Some alg \<Rightarrow>
          (let ciphertext = evp_encrypt ssl alg key (iv c) dataBuffer in
           if length ciphertext \<noteq> length dataBuffer then Inl BadCipherSize else Inr ciphertext))"

definition decryptWithKey :: "openssl \<Rightarrow> cryptoPrimitive \<Rightarrow> bytes \<Rightarrow> bytes \<Rightarrow> crypto_error + bytes" where
  "decryptWithKey ssl c ciphertext key =
     (if int (length ciphertext) mod blockSize c \<noteq> 0 then Inl NotBlockMultiple
      else case cipher c of
        None \<Rightarrow> Inl NoCipher
      | Some alg \<Rightarrow>
          (let dataBuffer = evp_decrypt ssl alg key (iv c) ciphertext in
           if length dataBuffer \<noteq> length ciphertext then Inl BadCipherSize else Inr dataBuffer))"

section \<open>The contract\<close>

text \<open>
  A provider of hashing and encryption: hashing never fails and gives hsize bytes; encryption of
  whole blocks under a key of the right size succeeds, keeps the size and is undone by decryption.
\<close>

locale crypto_contract =
  fixes valid :: "'ssl \<Rightarrow> 'c \<Rightarrow> bool"
    and paired :: "'c \<Rightarrow> bool"
    and hsize :: "'c \<Rightarrow> nat"
    and ksize :: "'c \<Rightarrow> nat"
    and hash :: "'ssl \<Rightarrow> 'c \<Rightarrow> bytes \<Rightarrow> 'e + bytes"
    and enc :: "'ssl \<Rightarrow> 'c \<Rightarrow> bytes \<Rightarrow> bytes \<Rightarrow> 'e + bytes"
    and dec :: "'ssl \<Rightarrow> 'c \<Rightarrow> bytes \<Rightarrow> bytes \<Rightarrow> 'e + bytes"
  assumes hash_total: "valid ssl c \<Longrightarrow> \<exists>h. hash ssl c d = Inr h \<and> length h = hsize c"
    and enc_total: "valid ssl c \<Longrightarrow> paired c \<Longrightarrow> length key = ksize c \<Longrightarrow> 16 dvd length d \<Longrightarrow>
      \<exists>ct. enc ssl c d key = Inr ct \<and> length ct = length d \<and> dec ssl c ct key = Inr d"
begin

lemma hashE:
  assumes "valid ssl c"
  obtains h where "hash ssl c d = Inr h" "length h = hsize c"
  using hash_total [OF assms] by blast

lemma encE:
  assumes "valid ssl c" "paired c" "length key = ksize c" "16 dvd length d"
  obtains ct where "enc ssl c d key = Inr ct" "length ct = length d" "dec ssl c ct key = Inr d"
  using enc_total [OF assms] by blast

lemma hash_no_fail: "valid ssl c \<Longrightarrow> hash ssl c d \<noteq> Inl e"
  using hash_total [of ssl c d] by auto

end

definition crypto_valid :: "openssl \<Rightarrow> cryptoPrimitive \<Rightarrow> bool" where
  "crypto_valid ssl c \<longleftrightarrow> evp_ok ssl \<and> (\<exists>type. mkCrypto True type = Inr c)"

definition crypto_paired :: "cryptoPrimitive \<Rightarrow> bool" where
  "crypto_paired c \<longleftrightarrow> cipher c \<noteq> None"

lemma mkCrypto_cases:
  assumes "mkCrypto b type = Inr c"
  obtains (pair) alg where "cipher c = Some alg" "keySize c = int (cipher_key_len alg)"
      "hashSize c = keySize c" "blockSize c = 16" "iv c = replicate 16 0"
      "hashSize c = int (digest_len (md c))"
    | (hash) "cipher c = None" "hashSize c = int (digest_len (md c))"
  using assms by (auto simp: mkCrypto_def split: if_splits)

lemma whole_blocks: "int n mod 16 = 0 \<longleftrightarrow> 16 dvd n"
  by presburger

interpretation crypto: crypto_contract crypto_valid crypto_paired "\<lambda>c. nat (hashSize c)"
  "\<lambda>c. nat (keySize c)" generateHash encryptWithKey decryptWithKey
proof (unfold_locales, goal_cases)
  case (1 ssl c d)
  then obtain type where "evp_ok ssl" and mk: "mkCrypto True type = Inr c"
    by (auto simp: crypto_valid_def)
  then have "length (evp_digest ssl (md c) d) = digest_len (md c)" by (simp add: evp_ok_def)
  with mk show ?case by (cases rule: mkCrypto_cases) (simp_all add: generateHash_def Let_def)
next
  case (2 ssl c key d)
  then obtain type where ok: "evp_ok ssl" and mk: "mkCrypto True type = Inr c"
    by (auto simp: crypto_valid_def)
  from mk 2 show ?case
  proof (cases rule: mkCrypto_cases)
    case (pair alg)
    have *: "length key = cipher_key_len alg" "length (iv c) = 16" "16 dvd length d"
      "int (length d) mod 16 = 0"
      using 2 pair by (simp_all add: whole_blocks)
    then have "length (evp_encrypt ssl alg key (iv c) d) = length d"
      "evp_decrypt ssl alg key (iv c) (evp_encrypt ssl alg key (iv c) d) = d"
      using ok by (simp_all add: evp_ok_def)
    then show ?thesis using * pair by (simp add: encryptWithKey_def decryptWithKey_def Let_def)
  qed (simp add: crypto_paired_def)
qed

section \<open>A concrete library\<close>

text \<open>A concrete library for the witnesses: fixed-length digests and a keyed byte-wise cipher.\<close>

definition toyDigest :: "digest_alg \<Rightarrow> bytes \<Rightarrow> bytes" where
  "toyDigest alg d = take (digest_len alg) (d @ replicate (digest_len alg) (of_nat (length d)))"

definition toyCipher :: "cipher_alg \<Rightarrow> bytes \<Rightarrow> bytes \<Rightarrow> bytes \<Rightarrow> bytes" where
  "toyCipher alg key ivec d = map (\<lambda>b. b XOR hd (key @ [0])) d"

definition toySSL :: openssl where
  "toySSL = \<lparr> evp_digest = toyDigest, evp_encrypt = toyCipher, evp_decrypt = toyCipher \<rparr>"

lemma toySSL_ok: "evp_ok toySSL"
  by (auto simp: evp_ok_def toySSL_def toyDigest_def toyCipher_def xor.assoc map_idI)

definition highCrypto :: cryptoPrimitive where
  "highCrypto = \<lparr> cryptoType = 0, md = EVP_sha256, hashSize = 32, cipher = Some EVP_aes_256_cbc,
     keySize = 32, blockSize = 16, iv = replicate 16 0 \<rparr>"

lemma highCrypto_made: "mkCrypto True HIGH_SEC_PAIR_TYPE = Inr highCrypto"
  by (simp add: mkCrypto_def crypto_types highCrypto_def)

end
