(* ===== verification/CDCodec.thy ===== *)
theory CDCodec
  imports MatrixInv Crypto
begin

text \<open>
  \<open>CDCodec\<close> (client/coding/CDCodec.cc): convergent dispersal of a secret into n shares, any k of
  which give the secret back, with the four schemes of the source (CRSSS, AONT-RS, old CAONT-RS and
  CAONT-RS). The Galois-field library and OpenSSL are parameters (\<open>gf\<close>, \<open>openssl\<close>).
\<close>

section \<open>The object\<close>

record cdcodec =
  CDType :: int
  codecN :: nat
  codecM :: nat
  codecK :: nat
  codecR :: nat
  bytesPerSecretWord :: nat
  secretWordsPerGroup :: nat
  bytesPerGroup :: nat
  alignedSecretBufferSize :: nat
  erasureCodingDataSize :: nat
  alignedSizeConstant :: bytes
  distributionMatrix :: "byte list"
  cryptoObj :: cryptoPrimitive
  gfObj :: gf

definition CRSSS_TYPE :: int where "CRSSS_TYPE = 0"
definition AONT_RS_TYPE :: int where "AONT_RS_TYPE = 1"
definition OLD_CAONT_RS_TYPE :: int where "OLD_CAONT_RS_TYPE = 2"
definition CAONT_RS_TYPE :: int where "CAONT_RS_TYPE = 3"
definition MAX_SECRET_SIZE :: nat where "MAX_SECRET_SIZE = 64 * 1024"

lemmas codec_types = CRSSS_TYPE_def AONT_RS_TYPE_def OLD_CAONT_RS_TYPE_def CAONT_RS_TYPE_def

datatype codec_error =
    NoCrypto | BadN | BadM | BadK | BadR | HashKeyMismatch     \<comment> \<open>exit(1) in the constructor\<close>
  | GFRange                 \<comment> \<open>a field element above 255 is passed to the 8-bit field\<close>
  | AlignedBufferTooSmall | ErasureBufferTooSmall
  | HashFailed | EncryptFailed
  | BadShareSize | SecretTooLarge | Noninvertible | IntegrityFailed
  | OutOfBounds             \<comment> \<open>an access outside a buffer, undefined in C++\<close>
  | UnknownCDType           \<comment> \<open>no scheme: success stays 0\<close>

text \<open>Entries of the distribution matrices: 1 / (i XOR y) in the field.\<close>

definition cauchyEntry :: "gf \<Rightarrow> nat \<Rightarrow> nat \<Rightarrow> byte" where
  "cauchyEntry gf i y = gf_divide gf 1 (of_nat (i XOR y))"

definition crsssMatrix :: "gf \<Rightarrow> nat \<Rightarrow> nat \<Rightarrow> byte list" where
  "crsssMatrix gf n k = concat (map (\<lambda>i. map (\<lambda>j. cauchyEntry gf i (n + j)) [0..<k]) [0..<n])"

definition rsMatrix :: "gf \<Rightarrow> nat \<Rightarrow> nat \<Rightarrow> byte list" where
  "rsMatrix gf m k =
     concat (map (\<lambda>i. map (\<lambda>j. if i = j then 1 else 0) [0..<k]) [0..<k]) @
     concat (map (\<lambda>i. map (\<lambda>j. cauchyEntry gf i (m + j)) [0..<k]) [0..<m])"

text \<open>
  The constructor. A configuration whose matrix would need a field element above 255 is outside the 8-bit field of gf_complete, and an
  unknown type leaves the object without any matrix; both are errors of their own here, although the code has no test for them.
\<close>

definition gfOverflows :: "nat \<Rightarrow> nat \<Rightarrow> nat \<Rightarrow> bool" where
  "gfOverflows rows base k = list_ex (\<lambda>i. list_ex (\<lambda>j. 256 \<le> i XOR (base + j)) [0..<k]) [0..<rows]"

definition mkCDCodec :: "gf \<Rightarrow> int \<Rightarrow> int \<Rightarrow> int \<Rightarrow> int \<Rightarrow> cryptoPrimitive option \<Rightarrow> codec_error + cdcodec" where
  "mkCDCodec gf type n m r cryptoOpt =
     (case cryptoOpt of
        None \<Rightarrow> Inl NoCrypto
      | Some crypto \<Rightarrow>
        if type \<notin> {CRSSS_TYPE, AONT_RS_TYPE, OLD_CAONT_RS_TYPE, CAONT_RS_TYPE} then Inl UnknownCDType
        else if n \<le> 0 then Inl BadN
        else if m \<le> 0 \<or> m \<ge> n then Inl BadM
        else if n - m \<le> 1 then Inl BadK
        else if type = CRSSS_TYPE then
          (if r \<le> 0 \<or> r \<ge> n - m then Inl BadR
           else
             let k = nat (n - m); w = nat (getHashSize crypto); spg = k - nat r;
                 aligned = MAX_SECRET_SIZE + w * spg
             in if gfOverflows (nat n) (nat n) k then Inl GFRange
                else Inr \<lparr> CDType = type, codecN = nat n, codecM = nat m, codecK = k, codecR = nat r,
                     bytesPerSecretWord = w, secretWordsPerGroup = spg, bytesPerGroup = w * spg,
                     alignedSecretBufferSize = aligned,
                     erasureCodingDataSize = (w * (aligned div (w * spg))) * k,
                     alignedSizeConstant = [], distributionMatrix = crsssMatrix gf (nat n) k,
                     cryptoObj = crypto, gfObj = gf \<rparr>)
        else
          (if r \<noteq> n - m - 1 then Inl BadR
           else if getHashSize crypto \<noteq> getKeySize crypto then Inl HashKeyMismatch
           else
             let k = nat (n - m); w = nat (getHashSize crypto);
                 aligned = MAX_SECRET_SIZE + w * k
             in if gfOverflows (nat m) (nat m) k then Inl GFRange
                else Inr \<lparr> CDType = type, codecN = nat n, codecM = nat m, codecK = k, codecR = nat r,
                     bytesPerSecretWord = w, secretWordsPerGroup = 0, bytesPerGroup = 0,
                     alignedSecretBufferSize = aligned,
                     erasureCodingDataSize = (w * ((aligned div w + 1) div k)) * k,
                     alignedSizeConstant =
                       (if type = CAONT_RS_TYPE then map of_nat [0..<aligned] else []),
                     distributionMatrix = rsMatrix gf (nat m) k,
                     cryptoObj = crypto, gfObj = gf \<rparr>))"

section \<open>Shared steps\<close>

definition hashOr :: "openssl \<Rightarrow> cdcodec \<Rightarrow> bytes \<Rightarrow> codec_error + bytes" where
  "hashOr ssl c d = (case generateHash ssl (cryptoObj c) d of Inl _ \<Rightarrow> Inl HashFailed | Inr h \<Rightarrow> Inr h)"

definition encryptOr :: "openssl \<Rightarrow> cdcodec \<Rightarrow> bytes \<Rightarrow> bytes \<Rightarrow> codec_error + bytes" where
  "encryptOr ssl c d key =
     (case encryptWithKey ssl (cryptoObj c) d key of Inl _ \<Rightarrow> Inl EncryptFailed | Inr ct \<Rightarrow> Inr ct)"

text \<open>Block \<open>j\<close> of a buffer of equally sized blocks.\<close>

definition blockAt :: "nat \<Rightarrow> bytes \<Rightarrow> nat \<Rightarrow> bytes" where
  "blockAt sz buf j = slice (sz * j) sz buf"

text \<open>
  One output block: the chain of multiply_region calls over j, the first of which overwrites the
  destination while the others add to it.
\<close>

definition mixRow :: "gf \<Rightarrow> nat \<Rightarrow> (nat \<Rightarrow> byte) \<Rightarrow> (nat \<Rightarrow> bytes) \<Rightarrow> bytes \<Rightarrow> bytes" where
  "mixRow gf k coef src dst =
     fold (\<lambda>j dst. gf_multiply_region gf (src j) dst (coef j) (j \<noteq> 0)) [0..<k] dst"

definition padSecret :: "bytes \<Rightarrow> nat \<Rightarrow> bytes" where
  "padSecret secret alignedSize = secret @ replicate (alignedSize - length secret) 0"

text \<open>The size of the aligned secret in the three schemes based on a systematic RS code.\<close>

definition rsAlignedSize :: "cdcodec \<Rightarrow> nat \<Rightarrow> nat" where
  "rsAlignedSize c secretSize =
     (let w = bytesPerSecretWord c; k = codecK c in
      if (secretSize + w) mod (w * k) = 0 then secretSize
      else (w * k) * ((secretSize + w) div (w * k) + 1) - w)"

text \<open>
  Step 2 of the RS schemes: the package is copied as the first k shares, the last m shares are
  computed. \<open>shareBuffer\<close> is the caller's buffer with whatever it held before.
\<close>

definition rsShares :: "cdcodec \<Rightarrow> bytes \<Rightarrow> nat \<Rightarrow> bytes \<Rightarrow> codec_error + (bytes \<times> nat)" where
  "rsShares c pkg shareSize shareBuffer =
     (let k = codecK c; m = codecM c in
      if erasureCodingDataSize c < length pkg \<or> length shareBuffer < shareSize * codecN c
      then Inl OutOfBounds
      else Inr (pkg @ concat (map (\<lambda>i. mixRow (gfObj c) k
                  (\<lambda>j. distributionMatrix c ! (k * (k + i) + j)) (blockAt shareSize pkg)
                  (blockAt shareSize shareBuffer (k + i))) [0..<m]), shareSize))"

text \<open>
  The common front end of the decoders: the rows of the distribution matrix that belong to the
  given shares are inverted and applied to the shares. The first multiply_region call of each row
  overwrites what erasureCodingData held, which the model takes to be zeroes.
\<close>

definition squareMatrix :: "cdcodec \<Rightarrow> nat list \<Rightarrow> byte list" where
  "squareMatrix c ids =
     concat (map (\<lambda>i. map (\<lambda>j. distributionMatrix c ! (codecK c * (ids ! i) + j)) [0..<codecK c]) [0..<codecK c])"

definition invertAndMix :: "cdcodec \<Rightarrow> bytes \<Rightarrow> nat list \<Rightarrow> nat \<Rightarrow> codec_error + bytes" where
  "invertAndMix c shareBuffer ids shareSize =
     (let k = codecK c in
      if length ids < k \<or> list_ex (\<lambda>i. codecN c \<le> ids ! i) [0..<k] \<or> length shareBuffer < shareSize * k
      then Inl OutOfBounds
      else case squareMatrixInverting (gfObj c) k (squareMatrix c ids) of
             None \<Rightarrow> Inl Noninvertible
           | Some (_, inverseMatrix) \<Rightarrow>
               Inr (concat (map (\<lambda>i. mixRow (gfObj c) k (\<lambda>j. inverseMatrix ! (k * i + j))
                      (blockAt shareSize shareBuffer) (replicate shareSize 0)) [0..<k])))"

section \<open>CRSSS\<close>

text \<open>
  A group of k - r secret words is followed by r hashes of the group, each under a different seed
  byte; the k words go to k different data blocks.
\<close>

definition groupHashes :: "openssl \<Rightarrow> cdcodec \<Rightarrow> bytes \<Rightarrow> codec_error + bytes list" where
  "groupHashes ssl c grp = mapR (\<lambda>j. hashOr ssl c (grp @ [of_nat j])) [0..<codecR c]"

definition groupWords :: "cdcodec \<Rightarrow> bytes \<Rightarrow> bytes list" where
  "groupWords c grp = map (blockAt (bytesPerSecretWord c) grp) [0..<secretWordsPerGroup c]"

primrec crsssGroups :: "openssl \<Rightarrow> cdcodec \<Rightarrow> bytes \<Rightarrow> nat list \<Rightarrow> bytes list \<Rightarrow> codec_error + bytes list" where
  "crsssGroups ssl c aligned [] blocks = Inr blocks"
| "crsssGroups ssl c aligned (i # is) blocks =
     (let grp = blockAt (bytesPerGroup c) aligned i in
      bindR (groupHashes ssl c grp)
        (\<lambda>hs. crsssGroups ssl c aligned is (map2 (@) blocks (groupWords c grp @ hs))))"

definition crsssAlignedSize :: "cdcodec \<Rightarrow> nat \<Rightarrow> nat" where
  "crsssAlignedSize c secretSize =
     (if secretSize mod bytesPerGroup c = 0 then secretSize
      else bytesPerGroup c * (secretSize div bytesPerGroup c + 1))"

definition crsssEncoding :: "openssl \<Rightarrow> cdcodec \<Rightarrow> bytes \<Rightarrow> bytes \<Rightarrow> codec_error + (bytes \<times> nat)" where
  "crsssEncoding ssl c secret shareBuffer =
     (let k = codecK c;
          alignedSize = crsssAlignedSize c (length secret);
          numOfGroups = alignedSize div bytesPerGroup c;
          shareSize = bytesPerSecretWord c * numOfGroups
      in bindR (failIf (alignedSecretBufferSize c < alignedSize) AlignedBufferTooSmall) (\<lambda>_.
         bindR (failIf (erasureCodingDataSize c < shareSize * k) ErasureBufferTooSmall) (\<lambda>_.
         bindR (crsssGroups ssl c (padSecret secret alignedSize) [0..<numOfGroups] (replicate k [])) (\<lambda>blocks.
         bindR (failIf (length shareBuffer < shareSize * codecN c) OutOfBounds) (\<lambda>_.
           Inr (concat (map (\<lambda>i. mixRow (gfObj c) k (\<lambda>j. distributionMatrix c ! (k * i + j))
                  ((!) blocks) (blockAt shareSize shareBuffer i)) [0..<codecN c]), shareSize))))))"

text \<open>Decoding restores group after group and compares each stored hash with a fresh one.\<close>

definition checkHash :: "openssl \<Rightarrow> cdcodec \<Rightarrow> bytes \<Rightarrow> nat \<Rightarrow> bytes \<Rightarrow> codec_error + unit" where
  "checkHash ssl c grp j stored =
     bindR (hashOr ssl c (grp @ [of_nat j])) (\<lambda>h. failIf (stored \<noteq> h) IntegrityFailed)"

definition crsssRestoreGroup :: "openssl \<Rightarrow> cdcodec \<Rightarrow> bytes \<Rightarrow> nat \<Rightarrow> nat \<Rightarrow> codec_error + bytes" where
  "crsssRestoreGroup ssl c blocks shareSize i =
     (let w = bytesPerSecretWord c;
          word = (\<lambda>j. blockAt w (blockAt shareSize blocks j) i);
          grp = concat (map word [0..<secretWordsPerGroup c])
      in bindR (mapR (\<lambda>j. checkHash ssl c grp j (word (secretWordsPerGroup c + j))) [0..<codecR c])
           (\<lambda>_. Inr grp))"

definition crsssDecoding ::
  "openssl \<Rightarrow> cdcodec \<Rightarrow> bytes \<Rightarrow> nat list \<Rightarrow> nat \<Rightarrow> nat \<Rightarrow> codec_error + bytes" where
  "crsssDecoding ssl c shareBuffer ids shareSize secretSize =
     (let k = codecK c; w = bytesPerSecretWord c;
          numOfGroups = shareSize div w; alignedSize = bytesPerGroup c * numOfGroups
      in bindR (failIf (shareSize mod w \<noteq> 0) BadShareSize) (\<lambda>_.
         bindR (failIf (erasureCodingDataSize c < shareSize * k) ErasureBufferTooSmall) (\<lambda>_.
         bindR (failIf (alignedSecretBufferSize c < alignedSize) AlignedBufferTooSmall) (\<lambda>_.
         bindR (failIf (secretSize > alignedSize) SecretTooLarge) (\<lambda>_.
         bindR (invertAndMix c shareBuffer ids shareSize) (\<lambda>blocks.
         bindR (mapR (crsssRestoreGroup ssl c blocks shareSize) [0..<numOfGroups]) (\<lambda>groups.
           Inr (take secretSize (concat groups)))))))))"

section \<open>AONT-RS and old CAONT-RS\<close>

definition wordForIndex :: "nat \<Rightarrow> nat \<Rightarrow> bytes" where
  "wordForIndex w i =
     [of_nat i, of_nat (drop_bit 8 i), of_nat (drop_bit 16 i), of_nat (drop_bit 24 i)] @ replicate (w - 4) 0"

text \<open>
  The loop over the words: the index is encrypted, and the result is XORed with the word. The same
  loop turns secret words into AONT words and back.
\<close>

primrec aontWords :: "openssl \<Rightarrow> cdcodec \<Rightarrow> bytes \<Rightarrow> bytes \<Rightarrow> nat list \<Rightarrow> bytes \<Rightarrow> codec_error + bytes" where
  "aontWords ssl c key src [] out = Inr out"
| "aontWords ssl c key src (i # is) out =
     (let w = bytesPerSecretWord c in
      bindR (encryptOr ssl c (wordForIndex w i) key) (\<lambda>ct.
        aontWords ssl c key src is
          (out @ gf_multiply_region (gfObj c) (blockAt w src i) ct 1 True)))"

text \<open>Steps 1 and 2 of the two encoders for a given key.\<close>

definition aontEncodeWith ::
  "openssl \<Rightarrow> cdcodec \<Rightarrow> bytes \<Rightarrow> bytes \<Rightarrow> bytes \<Rightarrow> codec_error + (bytes \<times> nat)" where
  "aontEncodeWith ssl c key aligned shareBuffer =
     (let w = bytesPerSecretWord c; k = codecK c;
          numOfSecretWords = length aligned div w;
          shareSize = w * ((numOfSecretWords + 1) div k)
      in bindR (aontWords ssl c key aligned [0..<numOfSecretWords] []) (\<lambda>body.
         bindR (hashOr ssl c body) (\<lambda>h.
           rsShares c (body @ gf_multiply_region (gfObj c) key h 1 True) shareSize shareBuffer)))"

text \<open>AONT-RS draws its key byte by byte from lrand48, which is the parameter \<open>rnd\<close>.\<close>

definition aontRSEncoding ::
  "openssl \<Rightarrow> (nat \<Rightarrow> byte) \<Rightarrow> cdcodec \<Rightarrow> bytes \<Rightarrow> bytes \<Rightarrow> codec_error + (bytes \<times> nat)" where
  "aontRSEncoding ssl rnd c secret shareBuffer =
     (let alignedSize = rsAlignedSize c (length secret) in
      bindR (failIf (alignedSecretBufferSize c < alignedSize) AlignedBufferTooSmall) (\<lambda>_.
        aontEncodeWith ssl c (map rnd [0..<bytesPerSecretWord c]) (padSecret secret alignedSize) shareBuffer))"

definition caontRSOldEncoding ::
  "openssl \<Rightarrow> cdcodec \<Rightarrow> bytes \<Rightarrow> bytes \<Rightarrow> codec_error + (bytes \<times> nat)" where
  "caontRSOldEncoding ssl c secret shareBuffer =
     (let alignedSize = rsAlignedSize c (length secret); aligned = padSecret secret alignedSize in
      bindR (failIf (alignedSecretBufferSize c < alignedSize) AlignedBufferTooSmall) (\<lambda>_.
      bindR (hashOr ssl c aligned) (\<lambda>key.
        aontEncodeWith ssl c key aligned shareBuffer)))"

text \<open>The size checks that the three RS decoders share.\<close>

definition rsDecodeChecks :: "cdcodec \<Rightarrow> nat \<Rightarrow> nat \<Rightarrow> codec_error + unit" where
  "rsDecodeChecks c shareSize secretSize =
     (let k = codecK c; w = bytesPerSecretWord c; alignedSize = int (shareSize * k) - int w in
      bindR (failIf (shareSize mod w \<noteq> 0) BadShareSize) (\<lambda>_.
      bindR (failIf (erasureCodingDataSize c < shareSize * k) ErasureBufferTooSmall) (\<lambda>_.
      bindR (failIf (int (alignedSecretBufferSize c) < alignedSize) AlignedBufferTooSmall) (\<lambda>_.
        failIf (int secretSize > alignedSize) SecretTooLarge))))"

text \<open>The key is the hash of the package body XORed with its tail.\<close>

definition recoverKey :: "openssl \<Rightarrow> cdcodec \<Rightarrow> bytes \<Rightarrow> nat \<Rightarrow> codec_error + bytes" where
  "recoverKey ssl c pkg alignedSize =
     bindR (hashOr ssl c (take alignedSize pkg)) (\<lambda>h.
       Inr (gf_multiply_region (gfObj c) (slice alignedSize (bytesPerSecretWord c) pkg) h 1 True))"

definition aontRSDecoding ::
  "openssl \<Rightarrow> cdcodec \<Rightarrow> bytes \<Rightarrow> nat list \<Rightarrow> nat \<Rightarrow> nat \<Rightarrow> codec_error + bytes" where
  "aontRSDecoding ssl c shareBuffer ids shareSize secretSize =
     (let w = bytesPerSecretWord c; alignedSize = shareSize * codecK c - w in
      bindR (rsDecodeChecks c shareSize secretSize) (\<lambda>_.
      bindR (invertAndMix c shareBuffer ids shareSize) (\<lambda>pkg.
      bindR (recoverKey ssl c pkg alignedSize) (\<lambda>key.
      bindR (aontWords ssl c key pkg [0..<alignedSize div w] []) (\<lambda>aligned.
        Inr (take secretSize aligned))))))"

definition caontRSOldDecoding ::
  "openssl \<Rightarrow> cdcodec \<Rightarrow> bytes \<Rightarrow> nat list \<Rightarrow> nat \<Rightarrow> nat \<Rightarrow> codec_error + bytes" where
  "caontRSOldDecoding ssl c shareBuffer ids shareSize secretSize =
     (let w = bytesPerSecretWord c; alignedSize = shareSize * codecK c - w in
      bindR (rsDecodeChecks c shareSize secretSize) (\<lambda>_.
      bindR (invertAndMix c shareBuffer ids shareSize) (\<lambda>pkg.
      bindR (recoverKey ssl c pkg alignedSize) (\<lambda>key.
      bindR (aontWords ssl c key pkg [0..<alignedSize div w] []) (\<lambda>aligned.
      bindR (hashOr ssl c aligned) (\<lambda>h.
      bindR (failIf (take w h \<noteq> take w key) IntegrityFailed) (\<lambda>_.
        Inr (take secretSize aligned))))))))"

section \<open>CAONT-RS\<close>

text \<open>The package: the aligned secret masked by the encryption of a constant, then the masked key.\<close>

definition caontPackage :: "openssl \<Rightarrow> cdcodec \<Rightarrow> bytes \<Rightarrow> codec_error + bytes" where
  "caontPackage ssl c aligned =
     bindR (hashOr ssl c aligned) (\<lambda>key.
     bindR (encryptOr ssl c (take (length aligned) (alignedSizeConstant c)) key) (\<lambda>ct.
     (let body = gf_multiply_region (gfObj c) aligned ct 1 True in
      bindR (hashOr ssl c body) (\<lambda>h.
        Inr (body @ gf_multiply_region (gfObj c) key h 1 True)))))"

definition caontRSEncoding ::
  "openssl \<Rightarrow> cdcodec \<Rightarrow> bytes \<Rightarrow> bytes \<Rightarrow> codec_error + (bytes \<times> nat)" where
  "caontRSEncoding ssl c secret shareBuffer =
     (let w = bytesPerSecretWord c; k = codecK c;
          alignedSize = rsAlignedSize c (length secret);
          shareSize = w * ((alignedSize div w + 1) div k)
      in bindR (failIf (alignedSecretBufferSize c < alignedSize) AlignedBufferTooSmall) (\<lambda>_.
         bindR (caontPackage ssl c (padSecret secret alignedSize)) (\<lambda>pkg.
           rsShares c pkg shareSize shareBuffer)))"

definition caontRSDecoding ::
  "openssl \<Rightarrow> cdcodec \<Rightarrow> bytes \<Rightarrow> nat list \<Rightarrow> nat \<Rightarrow> nat \<Rightarrow> codec_error + bytes" where
  "caontRSDecoding ssl c shareBuffer ids shareSize secretSize =
     (let w = bytesPerSecretWord c; alignedSize = shareSize * codecK c - w in
      bindR (rsDecodeChecks c shareSize secretSize) (\<lambda>_.
      bindR (invertAndMix c shareBuffer ids shareSize) (\<lambda>pkg.
      bindR (recoverKey ssl c pkg alignedSize) (\<lambda>key.
      bindR (encryptOr ssl c (take alignedSize (alignedSizeConstant c)) key) (\<lambda>ct.
      (let aligned = gf_multiply_region (gfObj c) (take alignedSize pkg) ct 1 True in
       bindR (hashOr ssl c aligned) (\<lambda>h.
       bindR (failIf (take w h \<noteq> take w key) IntegrityFailed) (\<lambda>_.
         Inr (take secretSize aligned)))))))))"

section \<open>Dispatch\<close>

definition encoding ::
  "openssl \<Rightarrow> (nat \<Rightarrow> byte) \<Rightarrow> cdcodec \<Rightarrow> bytes \<Rightarrow> bytes \<Rightarrow> codec_error + (bytes \<times> nat)" where
  "encoding ssl rnd c secret shareBuffer =
     (if CDType c = CRSSS_TYPE then crsssEncoding ssl c secret shareBuffer
      else if CDType c = AONT_RS_TYPE then aontRSEncoding ssl rnd c secret shareBuffer
      else if CDType c = OLD_CAONT_RS_TYPE then caontRSOldEncoding ssl c secret shareBuffer
      else if CDType c = CAONT_RS_TYPE then caontRSEncoding ssl c secret shareBuffer
      else Inl UnknownCDType)"

definition decoding ::
  "openssl \<Rightarrow> cdcodec \<Rightarrow> bytes \<Rightarrow> nat list \<Rightarrow> nat \<Rightarrow> nat \<Rightarrow> codec_error + bytes" where
  "decoding ssl c shareBuffer ids shareSize secretSize =
     (if CDType c = CRSSS_TYPE then crsssDecoding ssl c shareBuffer ids shareSize secretSize
      else if CDType c = AONT_RS_TYPE then aontRSDecoding ssl c shareBuffer ids shareSize secretSize
      else if CDType c = OLD_CAONT_RS_TYPE then caontRSOldDecoding ssl c shareBuffer ids shareSize secretSize
      else if CDType c = CAONT_RS_TYPE then caontRSDecoding ssl c shareBuffer ids shareSize secretSize
      else Inl UnknownCDType)"

end
