(* ===== verification/CDCodecCorrect.thy ===== *)
theory CDCodecCorrect
  imports CDCodec
begin

text \<open>
  Correctness of the codec: every k of the n shares determine the data blocks (both distribution
  matrices have only invertible k-row submatrices), so each of the four schemes gives the secret
  back from any k shares, and the internal buffers are large enough.
\<close>

section \<open>Mixing blocks\<close>

lemma length_blockAt: "sz * j + sz \<le> length buf \<Longrightarrow> length (blockAt sz buf j) = sz"
  by (simp add: blockAt_def)

lemma blockAt_concat: "(\<And>i. i < n \<Longrightarrow> length (f i) = sz) \<Longrightarrow> i < n \<Longrightarrow> blockAt sz (concat (map f [0..<n])) i = f i"
  by (simp add: blockAt_def slice_concat_rows)

lemma concat_blockAt: "length xs = sz * n \<Longrightarrow> concat (map (blockAt sz xs) [0..<n]) = xs"
  using concat_slices [of xs sz n] by (simp add: blockAt_def [abs_def])

lemma block_fits: "j < k \<Longrightarrow> sz * j + sz \<le> sz * (k :: nat)"
  by (metis Suc_leI mult_Suc_right add.commute mult_le_mono2)

text \<open>The block that a row of coefficients makes of the data blocks.\<close>

definition combine :: "gf \<Rightarrow> nat \<Rightarrow> nat \<Rightarrow> (nat \<Rightarrow> byte) \<Rightarrow> (nat \<Rightarrow> bytes) \<Rightarrow> bytes" where
  "combine gf sz k coef src = map (\<lambda>p. gsum (\<lambda>j. gf_multiply gf (coef j) (src j ! p)) [0..<k]) [0..<sz]"

lemma length_combine [simp]: "length (combine gf sz k coef src) = sz"
  by (simp add: combine_def)

context gf_laws begin

lemma mixRow_combine:
  assumes "\<And>j. j < k \<Longrightarrow> length (src j) = sz" "length dst = sz" "0 < k"
  shows "mixRow gf k coef src dst = combine gf sz k coef src"
proof -
  have "Suc n \<le> k \<Longrightarrow> fold (\<lambda>j dst. gf_multiply_region gf (src j) dst (coef j) (j \<noteq> 0)) [0..<Suc n] dst =
      combine gf sz (Suc n) coef src" for n
  proof (induction n)
    case 0
    then show ?case
      using assms by (auto simp: region_set combine_def intro!: nth_equalityI)
  next
    case (Suc n)
    let ?d = "fold (\<lambda>j dst. gf_multiply_region gf (src j) dst (coef j) (j \<noteq> 0)) [0..<Suc n] dst"
    have d: "?d = combine gf sz (Suc n) coef src" using Suc by simp
    have "fold (\<lambda>j dst. gf_multiply_region gf (src j) dst (coef j) (j \<noteq> 0)) [0..<Suc (Suc n)] dst =
        gf_multiply_region gf (src (Suc n)) ?d (coef (Suc n)) True"
      by simp
    also have "\<dots> = combine gf sz (Suc (Suc n)) coef src"
      unfolding d using assms(1) [of "Suc n"] Suc.prems
      by (auto simp: region_add combine_def xor.assoc intro!: nth_equalityI)
    finally show ?case .
  qed
  from this [of "k - 1"] show ?thesis using assms(3) by (simp add: mixRow_def)
qed

lemma combine_unit:
  assumes "i < k" "length (src i) = sz"
  shows "combine gf sz k (\<lambda>j. if i = j then 1 else 0) src = src i"
proof -
  have "gsum (\<lambda>j. gf_multiply gf (if i = j then 1 else 0) (src j ! p)) [0..<k] = src i ! p" for p
  proof -
    have "gsum (\<lambda>j. gf_multiply gf (if i = j then 1 else 0) (src j ! p)) [0..<k] =
        gsum (\<lambda>j. if j = i then src j ! p else 0) [0..<k]"
      by (intro gsum_cong) (auto simp: mul_one)
    then show ?thesis using assms by (simp add: gsum_delta)
  qed
  then show ?thesis using assms by (auto simp: combine_def intro!: nth_equalityI)
qed

text \<open>Inverting the rows that produced the shares gives the data blocks back.\<close>

lemma invert_combine:
  assumes len: "length s = k * k" and sv: "squareMatrixInverting gf k s = Some (s', v)"
    and blocks: "\<And>j. j < k \<Longrightarrow> length (src j) = sz" and i: "i < k"
  shows "combine gf sz k (\<lambda>j. v ! (k * i + j)) (\<lambda>j. combine gf sz k (\<lambda>l. s ! (k * j + l)) src) = src i"
proof (rule nth_equalityI)
  fix p assume "p < length (combine gf sz k (\<lambda>j. v ! (k * i + j)) (\<lambda>j. combine gf sz k (\<lambda>l. s ! (k * j + l)) src))"
  then have p: "p < sz" by simp
  let ?x = "\<lambda>l. src l ! p"
  have "combine gf sz k (\<lambda>j. v ! (k * i + j)) (\<lambda>j. combine gf sz k (\<lambda>l. s ! (k * j + l)) src) ! p =
      matVec gf k (entry k v) (matVec gf k (entry k s) ?x) i"
    using p by (simp add: combine_def matVec_def)
  also have "\<dots> = src i ! p" by (rule inverting_recovers [OF len sv i])
  finally show "combine gf sz k (\<lambda>j. v ! (k * i + j)) (\<lambda>j. combine gf sz k (\<lambda>l. s ! (k * j + l)) src) ! p = src i ! p" .
qed (use blocks i in simp)

end

section \<open>The distribution matrices\<close>

definition anyRowsInvertible :: "gf \<Rightarrow> nat \<Rightarrow> nat \<Rightarrow> (nat \<Rightarrow> nat \<Rightarrow> byte) \<Rightarrow> bool" where
  "anyRowsInvertible gf n k D \<longleftrightarrow>
     (\<forall>ids x. length ids = k \<longrightarrow> distinct ids \<longrightarrow> (\<forall>i \<in> set ids. i < n) \<longrightarrow>
        (\<forall>i \<in> set ids. gsum (\<lambda>j. gf_multiply gf (D i j) (x j)) [0..<k] = 0) \<longrightarrow> (\<forall>j<k. x j = 0))"

lemma gsum_map [simp]: "gsum f (map g xs) = gsum (\<lambda>x. f (g x)) xs"
  by (induction xs) auto

lemma byte_of_nat_inj: "a < 256 \<Longrightarrow> b < 256 \<Longrightarrow> (of_nat a :: byte) = of_nat b \<longleftrightarrow> a = b"
  by (simp add: word_of_nat_eq_iff take_bit_nat_eq_self)

lemma unat_of_nat_byte: "a < 256 \<Longrightarrow> unat (of_nat a :: byte) = a"
  by (simp add: unsigned_of_nat take_bit_nat_eq_self)

lemma of_nat_byte_xor: "(of_nat (a XOR b) :: byte) = of_nat a XOR of_nat b"
  by (simp add: of_nat_xor_eq)

context gf_laws begin

text \<open>Rows of Cauchy type: \<open>1 / (x XOR (base + j))\<close> with all abscissae below \<open>base\<close>.\<close>

lemma cauchy_rows:
  assumes "distinct ps" "distinct js" "length js = length ps" "\<forall>p \<in> set ps. p < base"
    and "\<forall>j \<in> set js. base + j < 256"
    and "\<forall>p \<in> set ps. gsum (\<lambda>j. gf_multiply gf (cauchyEntry gf p (base + j)) (x j)) js = 0"
  shows "\<forall>j \<in> set js. x j = 0"
proof -
  let ?xs = "map of_nat ps :: byte list" and ?ys = "map (\<lambda>j. of_nat (base + j)) js :: byte list"
  let ?d = "\<lambda>y :: byte. x (unat y - base)"
  show ?thesis
  proof (cases "js = []")
    case False
    then have small: "p < 256" if "p \<in> set ps" for p
      using assms(4,5) that by (metis (no_types, opaque_lifting) add_lessD1 last_in_set less_trans)
    have d: "?d (of_nat (base + j)) = x j" if "j \<in> set js" for j
      using that assms(5) unat_of_nat_byte [of "base + j"] by (simp del: of_nat_add)
    have "distinct ?xs" using assms(1) small by (auto simp: distinct_map inj_on_def byte_of_nat_inj)
    moreover have "distinct ?ys"
      using assms(2,5) by (auto simp: distinct_map inj_on_def byte_of_nat_inj simp del: of_nat_add)
    moreover have "\<forall>a \<in> set ?xs. \<forall>b \<in> set ?ys. a XOR b \<noteq> 0"
      using assms(4,5) small by (auto simp: xor_eq_0_iff byte_of_nat_inj simp del: of_nat_add)
    moreover have "\<forall>a \<in> set ?xs. gsum (\<lambda>y. gf_multiply gf (?d y) (gf_divide gf 1 (a XOR y))) ?ys = 0"
    proof
      fix a assume "a \<in> set ?xs"
      then obtain p where p: "p \<in> set ps" "a = of_nat p" by auto
      have "gsum (\<lambda>y. gf_multiply gf (?d y) (gf_divide gf 1 (a XOR y))) ?ys =
          gsum (\<lambda>j. gf_multiply gf (cauchyEntry gf p (base + j)) (x j)) js"
        unfolding gsum_map
        by (rule gsum_cong) (simp only: d p cauchyEntry_def of_nat_byte_xor mul_commute)
      then show "gsum (\<lambda>y. gf_multiply gf (?d y) (gf_divide gf 1 (a XOR y))) ?ys = 0"
        using assms(6) p by simp
    qed
    ultimately have "\<forall>y \<in> set ?ys. ?d y = 0"
      using assms(3) by (intro cauchy_kernel [of ?ys ?xs ?d]) auto
    then show ?thesis using d by force
  qed simp
qed

lemma crsss_rows: "n + k \<le> 256 \<Longrightarrow> anyRowsInvertible gf n k (\<lambda>i j. cauchyEntry gf i (n + j))"
  unfolding anyRowsInvertible_def
proof (intro allI impI)
  fix ids :: "nat list" and x :: "nat \<Rightarrow> byte" and j
  assume a: "n + k \<le> 256" "length ids = k" "distinct ids" "\<forall>i \<in> set ids. i < n"
    "\<forall>i \<in> set ids. gsum (\<lambda>j. gf_multiply gf (cauchyEntry gf i (n + j)) (x j)) [0..<k] = 0" "j < k"
  have "\<forall>j \<in> set [0..<k]. x j = 0"
    using a by (intro cauchy_rows [of ids "[0..<k]" n x]) auto
  then show "x j = 0" using a by simp
qed

lemma rs_rows:
  assumes "m + k \<le> 256"
  shows "anyRowsInvertible gf (m + k) k
    (\<lambda>i j. if i < k then (if i = j then 1 else 0) else cauchyEntry gf (i - k) (m + j))"
  unfolding anyRowsInvertible_def
proof (intro allI impI)
  let ?D = "\<lambda>i j. if i < k then (if i = j then 1 else 0) else cauchyEntry gf (i - k) (m + j)"
  fix ids :: "nat list" and x :: "nat \<Rightarrow> byte" and j
  assume ids: "length ids = k" "distinct ids" "\<forall>i \<in> set ids. i < m + k"
    and rows: "\<forall>i \<in> set ids. gsum (\<lambda>j. gf_multiply gf (?D i j) (x j)) [0..<k] = 0" and j: "j < k"
  have known: "x i = 0" if "i \<in> set ids" "i < k" for i
  proof -
    have "gsum (\<lambda>j. gf_multiply gf (?D i j) (x j)) [0..<k] = gsum (\<lambda>j. if j = i then x j else 0) [0..<k]"
      using that by (intro gsum_cong) (auto simp: mul_one)
    then show ?thesis using rows [rule_format, OF that(1)] that by (simp add: gsum_delta)
  qed
  let ?ps = "map (\<lambda>i. i - k) (filter (\<lambda>i. \<not> i < k) ids)"
  let ?js = "filter (\<lambda>j. j \<notin> set ids) [0..<k]"
  have "length ?js = length ?ps"
  proof -
    have "length (filter (\<lambda>j. j \<in> set ids) [0..<k]) = card ({0..<k} \<inter> set ids)"
      by (metis distinct_card distinct_filter distinct_upt set_filter set_upt Collect_mem_eq Collect_conj_eq)
    also have "\<dots> = length (filter (\<lambda>i. i < k) ids)"
    proof -
      have "set (filter (\<lambda>i. i < k) ids) = {0..<k} \<inter> set ids" by auto
      then show ?thesis using ids(2) by (metis distinct_card distinct_filter)
    qed
    finally show ?thesis
      using sum_length_filter_compl [of "\<lambda>j. j \<in> set ids" "[0..<k]"]
        sum_length_filter_compl [of "\<lambda>i. i < k" ids] ids(1) by simp
  qed
  moreover have "distinct ?ps" using ids(2) by (auto simp: distinct_map inj_on_def)
  moreover have "\<forall>p \<in> set ?ps. p < m" using ids(3) by auto
  moreover have "gsum (\<lambda>j. gf_multiply gf (cauchyEntry gf p (m + j)) (x j)) ?js = 0" if "p \<in> set ?ps" for p
  proof -
    obtain i where i: "i \<in> set ids" "\<not> i < k" "p = i - k" using \<open>p \<in> set ?ps\<close> by auto
    let ?t = "\<lambda>j. gf_multiply gf (cauchyEntry gf p (m + j)) (x j)"
    have "gsum ?t [0..<k] = 0" using rows [rule_format, OF i(1)] i(2,3) by simp
    moreover have "gsum ?t (filter (\<lambda>j. j \<in> set ids) [0..<k]) = 0"
      by (rule gsum_eq_0) (auto simp: known)
    ultimately show ?thesis using gsum_partition [of ?t "[0..<k]" "\<lambda>j. j \<in> set ids"] by simp
  qed
  ultimately have "\<forall>j \<in> set ?js. x j = 0"
    using assms by (intro cauchy_rows [of ?ps ?js m x]) auto
  then show "x j = 0" using known j by auto
qed

end


lemma length_crsssMatrix: "length (crsssMatrix gf n k) = k * n"
  unfolding crsssMatrix_def by (rule length_concat_rows) simp

lemma crsssMatrix_nth: "i < n \<Longrightarrow> j < k \<Longrightarrow> crsssMatrix gf n k ! (k * i + j) = cauchyEntry gf i (n + j)"
  unfolding crsssMatrix_def by (rule concat_rows_nth)

lemma rsMatrix_nth:
  assumes "i < m + k" "j < k"
  shows "rsMatrix gf m k ! (k * i + j) =
    (if i < k then (if i = j then 1 else 0) else cauchyEntry gf (i - k) (m + j))"
proof -
  let ?A = "concat (map (\<lambda>i. map (\<lambda>j. if i = j then 1 else 0) [0..<k]) [0..<k]) :: byte list"
  let ?B = "concat (map (\<lambda>i. map (\<lambda>j. cauchyEntry gf i (m + j)) [0..<k]) [0..<m])"
  have len: "length ?A = k * k" by (rule length_concat_rows) simp
  show ?thesis
  proof (cases "i < k")
    case True
    then show ?thesis
      using assms len concat_rows_nth [of i k j k "\<lambda>i j. if i = j then 1 else (0 :: byte)"]
      by (simp add: rsMatrix_def nth_append entry_fits)
  next
    case False
    then have "k * i + j - k * k = k * (i - k) + j" "k * k \<le> k * i + j"
      by (auto simp: diff_mult_distrib2 trans_le_add1)
    then show ?thesis
      using assms False len concat_rows_nth [of "i - k" m j k "\<lambda>i j. cauchyEntry gf i (m + j)"]
      by (simp add: rsMatrix_def nth_append)
  qed
qed

section \<open>Decoding the blocks\<close>

text \<open>The buffer a decoder is given: the shares with the listed IDs, one after the other.\<close>

definition selectShares :: "nat \<Rightarrow> bytes \<Rightarrow> nat list \<Rightarrow> bytes" where
  "selectShares sz shares ids = concat (map (blockAt sz shares) ids)"

definition encodesBlocks :: "cdcodec \<Rightarrow> nat \<Rightarrow> (nat \<Rightarrow> bytes) \<Rightarrow> bytes \<Rightarrow> bool" where
  "encodesBlocks c sz blocks shares \<longleftrightarrow>
     length shares = sz * codecN c \<and> (\<forall>j < codecK c. length (blocks j) = sz) \<and>
     (\<forall>i < codecN c. blockAt sz shares i =
        combine (gfObj c) sz (codecK c) (\<lambda>j. distributionMatrix c ! (codecK c * i + j)) blocks)"

definition good_ids :: "cdcodec \<Rightarrow> nat list \<Rightarrow> bool" where
  "good_ids c ids \<longleftrightarrow> length ids = codecK c \<and> distinct ids \<and> (\<forall>i \<in> set ids. i < codecN c)"

definition good_matrix :: "cdcodec \<Rightarrow> bool" where
  "good_matrix c \<longleftrightarrow> gf_laws (gfObj c) \<and> 0 < codecK c \<and>
     anyRowsInvertible (gfObj c) (codecN c) (codecK c) (\<lambda>i j. distributionMatrix c ! (codecK c * i + j))"

lemma squareMatrix_nth: "i < codecK c \<Longrightarrow> j < codecK c \<Longrightarrow>
    squareMatrix c ids ! (codecK c * i + j) = distributionMatrix c ! (codecK c * (ids ! i) + j)"
  unfolding squareMatrix_def by (rule concat_rows_nth)

lemma length_squareMatrix: "length (squareMatrix c ids) = codecK c * codecK c"
  unfolding squareMatrix_def by (rule length_concat_rows) simp

lemma squareMatrix_invertible:
  assumes "good_matrix c" "good_ids c ids"
  obtains s' v where "squareMatrixInverting (gfObj c) (codecK c) (squareMatrix c ids) = Some (s', v)"
proof -
  let ?k = "codecK c"
  have gf: "gf_laws (gfObj c)" using assms(1) by (simp add: good_matrix_def)
  have "\<forall>j < ?k. x j = 0" if ker: "inKernel (gfObj c) ?k (entry ?k (squareMatrix c ids)) x" for x
  proof -
    have "gsum (\<lambda>j. gf_multiply (gfObj c) (distributionMatrix c ! (?k * i + j)) (x j)) [0..<?k] = 0"
      if i: "i \<in> set ids" for i
    proof -
      obtain p where p: "p < length ids" "ids ! p = i" using i by (auto simp: in_set_conv_nth)
      have k: "length ids = ?k" using assms(2) by (simp add: good_ids_def)
      have "matVec (gfObj c) ?k (entry ?k (squareMatrix c ids)) x p = 0"
        using ker p k by (simp add: inKernel_def)
      moreover have "matVec (gfObj c) ?k (entry ?k (squareMatrix c ids)) x p =
          gsum (\<lambda>j. gf_multiply (gfObj c) (distributionMatrix c ! (?k * i + j)) (x j)) [0..<?k]"
        unfolding matVec_def using p k by (intro gsum_cong) (simp add: squareMatrix_nth)
      ultimately show ?thesis by simp
    qed
    then show ?thesis using assms by (auto simp: good_matrix_def good_ids_def anyRowsInvertible_def)
  qed
  then show thesis using gf_laws.inverting_iff [OF gf length_squareMatrix, of c ids] that by blast
qed


lemma invertAndMix_shares:
  assumes good: "good_matrix c" and ids: "good_ids c ids" and enc: "encodesBlocks c sz blocks shares"
  shows "invertAndMix c (selectShares sz shares ids) ids sz = Inr (concat (map blocks [0..<codecK c]))"
proof -
  let ?k = "codecK c" and ?gf = "gfObj c" and ?s = "squareMatrix c ids"
  have gf: "gf_laws ?gf" and k: "0 < ?k" using good by (auto simp: good_matrix_def)
  have idl: "length ids = ?k" "\<And>i. i < ?k \<Longrightarrow> ids ! i < codecN c"
    using ids by (auto simp: good_ids_def)
  let ?sh = "\<lambda>i. combine ?gf sz ?k (\<lambda>l. ?s ! (?k * i + l)) blocks"
  have sh: "blockAt sz shares (ids ! i) = ?sh i" if "i < ?k" for i
    using enc idl(2) [OF that] that unfolding encodesBlocks_def combine_def
    by (auto simp: squareMatrix_nth intro!: gsum_cong)
  have "map (blockAt sz shares) ids = map ?sh [0..<?k]"
    using sh idl(1) by (auto intro!: nth_equalityI)
  then have sb: "selectShares sz shares ids = concat (map ?sh [0..<?k])" by (simp add: selectShares_def)
  have len: "length (selectShares sz shares ids) = sz * ?k"
    unfolding sb by (rule length_concat_rows) simp
  have blk: "blockAt sz (selectShares sz shares ids) j = ?sh j" if "j < ?k" for j
    unfolding sb using that by (intro blockAt_concat) simp_all
  obtain s' v where inv: "squareMatrixInverting ?gf ?k ?s = Some (s', v)"
    using squareMatrix_invertible [OF good ids] .
  have "mixRow ?gf ?k (\<lambda>j. v ! (?k * i + j)) (blockAt sz (selectShares sz shares ids)) (replicate sz 0) = blocks i"
    if "i < ?k" for i
  proof -
    have "mixRow ?gf ?k (\<lambda>j. v ! (?k * i + j)) (blockAt sz (selectShares sz shares ids)) (replicate sz 0) =
        combine ?gf sz ?k (\<lambda>j. v ! (?k * i + j)) (blockAt sz (selectShares sz shares ids))"
      using gf_laws.mixRow_combine [OF gf _ _ k] blk by simp
    also have "\<dots> = combine ?gf sz ?k (\<lambda>j. v ! (?k * i + j)) ?sh"
      unfolding combine_def using blk by (auto intro!: gsum_cong simp: combine_def)
    also have "\<dots> = blocks i"
      using gf_laws.invert_combine [OF gf length_squareMatrix inv _ that, of blocks sz] enc
      by (auto simp: encodesBlocks_def)
    finally show ?thesis .
  qed
  then have "concat (map (\<lambda>i. mixRow ?gf ?k (\<lambda>j. v ! (?k * i + j)) (blockAt sz (selectShares sz shares ids))
      (replicate sz 0)) [0..<?k]) = concat (map blocks [0..<?k])"
    by (intro arg_cong [where f = concat]) simp
  moreover have "\<not> list_ex (\<lambda>i. codecN c \<le> ids ! i) [0..<?k]"
    using idl by (auto simp: list_ex_iff not_le)
  ultimately show ?thesis
    using inv len idl(1) by (simp add: invertAndMix_def Let_def)
qed

text \<open>Step 2 of the RS schemes produces such shares from a package of k blocks.\<close>

lemma rsShares_encodes:
  assumes gf: "gf_laws (gfObj c)" and k: "0 < codecK c" and n: "codecN c = codecM c + codecK c"
    and D: "distributionMatrix c = rsMatrix (gfObj c) (codecM c) (codecK c)"
    and pkg: "length pkg = sz * codecK c"
    and fits: "length pkg \<le> erasureCodingDataSize c" "sz * codecN c \<le> length shareBuffer"
  obtains shares where "rsShares c pkg sz shareBuffer = Inr (shares, sz)"
    "encodesBlocks c sz (blockAt sz pkg) shares"
proof -
  let ?k = "codecK c" and ?m = "codecM c" and ?gf = "gfObj c"
  let ?D = "\<lambda>i j. distributionMatrix c ! (?k * i + j)"
  let ?row = "\<lambda>i. combine ?gf sz ?k (?D i) (blockAt sz pkg)"
  have blk: "length (blockAt sz pkg j) = sz" if "j < ?k" for j
    using that pkg by (intro length_blockAt) (simp add: block_fits)
  have mix: "mixRow ?gf ?k (?D (?k + i)) (blockAt sz pkg) (blockAt sz shareBuffer (?k + i)) = ?row (?k + i)"
    if "i < ?m" for i
  proof -
    have "sz * (?k + i) + sz \<le> length shareBuffer"
      using fits(2) block_fits [of "?k + i" "codecN c" sz] that n by simp
    then have "length (blockAt sz shareBuffer (?k + i)) = sz" by (rule length_blockAt)
    then show ?thesis using gf_laws.mixRow_combine [OF gf _ _ k] blk by simp
  qed
  let ?shares = "pkg @ concat (map (\<lambda>i. ?row (?k + i)) [0..<?m])"
  have rows: "?row i = blockAt sz pkg i" if "i < ?k" for i
  proof -
    have "?row i = combine ?gf sz ?k (\<lambda>j. if i = j then 1 else 0) (blockAt sz pkg)"
      unfolding combine_def using that by (auto simp: D rsMatrix_nth intro!: gsum_cong)
    then show ?thesis using gf_laws.combine_unit [OF gf that] blk that by simp
  qed
  have "?shares = concat (map ?row [0..<codecN c])"
  proof -
    have "[0..<codecN c] = [0..<?k] @ map ((+) ?k) [0..<?m]"
      using n upt_shift [of ?k 0 ?m] by (simp add: upt_add_eq_append [of 0 ?k ?m] add.commute)
    moreover have "concat (map ?row [0..<?k]) = concat (map (blockAt sz pkg) [0..<?k])"
      using rows by (intro arg_cong [where f = concat]) simp
    ultimately show ?thesis using concat_blockAt [OF pkg] by (simp add: comp_def)
  qed
  then have "encodesBlocks c sz (blockAt sz pkg) ?shares"
    using blk length_concat_rows [of "codecN c" ?row sz] blockAt_concat [of "codecN c" ?row sz]
    by (simp add: encodesBlocks_def)
  moreover have "rsShares c pkg sz shareBuffer = Inr (?shares, sz)"
    using fits mix by (simp add: rsShares_def Let_def) (intro arg_cong [where f = concat], simp)
  ultimately show thesis by (rule that [rotated])
qed


section \<open>Codecs of the RS schemes\<close>

definition rs_codec :: "openssl \<Rightarrow> cdcodec \<Rightarrow> bool" where
  "rs_codec ssl c \<longleftrightarrow>
     gf_laws (gfObj c) \<and> crypto_valid ssl (cryptoObj c) \<and> crypto_paired (cryptoObj c) \<and>
     nat (hashSize (cryptoObj c)) = bytesPerSecretWord c \<and> nat (keySize (cryptoObj c)) = bytesPerSecretWord c \<and>
     16 dvd bytesPerSecretWord c \<and> 0 < bytesPerSecretWord c \<and> 1 < codecK c \<and>
     codecN c = codecM c + codecK c \<and> codecN c \<le> 256 \<and>
     alignedSecretBufferSize c = MAX_SECRET_SIZE + bytesPerSecretWord c * codecK c \<and>
     erasureCodingDataSize c =
       (bytesPerSecretWord c * ((alignedSecretBufferSize c div bytesPerSecretWord c + 1) div codecK c)) * codecK c \<and>
     distributionMatrix c = rsMatrix (gfObj c) (codecM c) (codecK c) \<and>
     (CDType c = CAONT_RS_TYPE \<longrightarrow> length (alignedSizeConstant c) = alignedSecretBufferSize c)"

lemma gfOverflows_bound: "\<not> gfOverflows rows base k \<Longrightarrow> 0 < rows \<Longrightarrow> 0 < k \<Longrightarrow> base + k \<le> 256"
proof -
  assume a: "\<not> gfOverflows rows base k" "0 < rows" "0 < k"
  then have "0 XOR (base + (k - 1)) < 256"
    unfolding gfOverflows_def list_ex_iff set_upt by (metis atLeastLessThan_iff diff_less le0 not_le zero_less_one)
  then show ?thesis using a(3) by simp
qed

lemma paired_of_sizes:
  assumes "crypto_valid ssl crypto" "getHashSize crypto = getKeySize crypto"
  shows "crypto_paired crypto" "16 dvd nat (hashSize crypto)" "0 < nat (hashSize crypto)"
proof -
  obtain type where mk: "mkCrypto True type = Inr crypto" using assms(1) by (auto simp: crypto_valid_def)
  then show "crypto_paired crypto" "16 dvd nat (hashSize crypto)" "0 < nat (hashSize crypto)"
    using assms(2)
    by (auto simp: mkCrypto_def crypto_paired_def getHashSize_def getKeySize_def split: if_splits)
qed

lemma mkCDCodec_rs:
  assumes mk: "mkCDCodec gf type n m r (Some crypto) = Inr c" and gf: "gf_laws gf"
    and crypto: "crypto_valid ssl crypto" and type: "type \<noteq> CRSSS_TYPE"
  shows "rs_codec ssl c" "CDType c = type"
proof -
  have g: "n > 0" "m > 0" "m < n" "n - m > 1" "getHashSize crypto = getKeySize crypto"
    "\<not> gfOverflows (nat m) (nat m) (nat (n - m))" "r = n - m - 1"
    "type \<in> {CRSSS_TYPE, AONT_RS_TYPE, OLD_CAONT_RS_TYPE, CAONT_RS_TYPE}"
    using mk type by (auto simp: mkCDCodec_def Let_def split: if_splits)
  have n: "nat m + nat (n - m) \<le> 256" "nat n = nat m + nat (n - m)"
    using gfOverflows_bound [OF g(6)] g by auto
  define w where "w = nat (getHashSize crypto)"
  define k where "k = nat (n - m)"
  have "mkCDCodec gf type n m r (Some crypto) =
    Inr \<lparr> CDType = type, codecN = nat n, codecM = nat m, codecK = k, codecR = nat r,
      bytesPerSecretWord = w, secretWordsPerGroup = 0, bytesPerGroup = 0,
      alignedSecretBufferSize = MAX_SECRET_SIZE + w * k,
      erasureCodingDataSize = (w * (((MAX_SECRET_SIZE + w * k) div w + 1) div k)) * k,
      alignedSizeConstant = (if type = CAONT_RS_TYPE then map of_nat [0..<MAX_SECRET_SIZE + w * k] else []),
      distributionMatrix = rsMatrix gf (nat m) k, cryptoObj = crypto, gfObj = gf \<rparr>"
    using type g unfolding mkCDCodec_def Let_def w_def k_def by simp
  then have "c = \<lparr> CDType = type, codecN = nat n, codecM = nat m, codecK = k, codecR = nat r,
      bytesPerSecretWord = w, secretWordsPerGroup = 0, bytesPerGroup = 0,
      alignedSecretBufferSize = MAX_SECRET_SIZE + w * k,
      erasureCodingDataSize = (w * (((MAX_SECRET_SIZE + w * k) div w + 1) div k)) * k,
      alignedSizeConstant = (if type = CAONT_RS_TYPE then map of_nat [0..<MAX_SECRET_SIZE + w * k] else []),
      distributionMatrix = rsMatrix gf (nat m) k, cryptoObj = crypto, gfObj = gf \<rparr>"
    using mk by simp
  then have c: "CDType c = type" "codecN c = nat n" "codecM c = nat m" "codecK c = k"
    "bytesPerSecretWord c = w" "alignedSecretBufferSize c = MAX_SECRET_SIZE + w * k"
    "erasureCodingDataSize c = (w * (((MAX_SECRET_SIZE + w * k) div w + 1) div k)) * k"
    "distributionMatrix c = rsMatrix gf (nat m) k" "cryptoObj c = crypto" "gfObj c = gf"
    "type = CAONT_RS_TYPE \<Longrightarrow> length (alignedSizeConstant c) = MAX_SECRET_SIZE + w * k"
    by simp_all
  show "CDType c = type" by (rule c(1))
  show "rs_codec ssl c"
    unfolding rs_codec_def c using gf crypto g n paired_of_sizes [OF crypto g(5)] c(11)
    by (simp add: w_def k_def getHashSize_def getKeySize_def)
qed

lemma rs_good_matrix:
  assumes "rs_codec ssl c"
  shows "good_matrix c"
proof -
  have gf: "gf_laws (gfObj c)" and mk: "codecM c + codecK c \<le> 256" "codecN c = codecM c + codecK c"
    and D: "distributionMatrix c = rsMatrix (gfObj c) (codecM c) (codecK c)" and k: "0 < codecK c"
    using assms by (auto simp: rs_codec_def)
  have "anyRowsInvertible (gfObj c) (codecN c) (codecK c) (\<lambda>i j. distributionMatrix c ! (codecK c * i + j))"
    unfolding anyRowsInvertible_def
  proof (intro allI impI)
    fix ids x j
    assume a: "length ids = codecK c" "distinct ids" "\<forall>i \<in> set ids. i < codecN c"
      "\<forall>i \<in> set ids. gsum (\<lambda>j. gf_multiply (gfObj c) (distributionMatrix c ! (codecK c * i + j)) (x j)) [0..<codecK c] = 0"
      "j < codecK c"
    have "gsum (\<lambda>j. gf_multiply (gfObj c) (if i < codecK c then (if i = j then 1 else 0)
        else cauchyEntry (gfObj c) (i - codecK c) (codecM c + j)) (x j)) [0..<codecK c] =
      gsum (\<lambda>j. gf_multiply (gfObj c) (distributionMatrix c ! (codecK c * i + j)) (x j)) [0..<codecK c]"
      if "i \<in> set ids" for i
      using a(3) that mk by (intro gsum_cong) (auto simp: D rsMatrix_nth)
    then show "x j = 0"
      using a mk(2)
      by (intro gf_laws.rs_rows [OF gf mk(1), unfolded anyRowsInvertible_def, rule_format, of ids x j]) auto
  qed
  then show ?thesis using gf k by (simp add: good_matrix_def)
qed

lemma rsAlignedSize_shape:
  assumes "rs_codec ssl c"
  obtains t where "0 < t" "rsAlignedSize c L + bytesPerSecretWord c = bytesPerSecretWord c * codecK c * t"
    "L \<le> rsAlignedSize c L" "rsAlignedSize c L < L + bytesPerSecretWord c * codecK c"
proof -
  let ?w = "bytesPerSecretWord c" and ?k = "codecK c"
  let ?q = "(L + ?w) div (?w * ?k)"
  have pos: "0 < ?w" "1 < ?k" "0 < ?w * ?k" using assms by (auto simp: rs_codec_def)
  have dm: "?w * ?k * ?q + (L + ?w) mod (?w * ?k) = L + ?w" by simp
  have lt: "(L + ?w) mod (?w * ?k) < ?w * ?k" using pos by simp
  have w: "?w \<le> ?w * ?k * (?q + 1)" using pos by (simp add: trans_le_add1)
  show thesis
  proof (cases "(L + ?w) mod (?w * ?k) = 0")
    case True
    then have "rsAlignedSize c L = L" by (simp add: rsAlignedSize_def Let_def)
    moreover have "0 < ?q" using True dm pos by (metis add_is_0 gr0I less_numeral_extra(3) mult_0_right)
    ultimately show thesis using that [of ?q] True dm pos by simp
  next
    case False
    then have "rsAlignedSize c L = ?w * ?k * (?q + 1) - ?w" by (simp add: rsAlignedSize_def Let_def)
    then show thesis using that [of "?q + 1"] dm lt w False by (simp add: algebra_simps)
  qed
qed

text \<open>What the encoders and decoders derive from the aligned size.\<close>

lemma rs_sizes:
  assumes c: "rs_codec ssl c" and A: "A + bytesPerSecretWord c = bytesPerSecretWord c * codecK c * t" and t: "0 < t"
  shows "bytesPerSecretWord c * ((A div bytesPerSecretWord c + 1) div codecK c) = bytesPerSecretWord c * t"
    "16 dvd A" "A = bytesPerSecretWord c * t * codecK c - bytesPerSecretWord c"
    "A = bytesPerSecretWord c * (A div bytesPerSecretWord c)"
    "A \<le> alignedSecretBufferSize c \<Longrightarrow> A + bytesPerSecretWord c \<le> erasureCodingDataSize c"
proof -
  let ?w = "bytesPerSecretWord c" and ?k = "codecK c"
  have pos: "0 < ?w" "1 < ?k" "16 dvd ?w" using c by (auto simp: rs_codec_def)
  have kt: "0 < ?k * t" using pos t by simp
  have A': "A = ?w * (?k * t - 1)" using A by (simp add: algebra_simps diff_mult_distrib2)
  then have q: "A div ?w = ?k * t - 1" using pos by simp
  show "?w * ((A div ?w + 1) div ?k) = ?w * t" using q kt pos by simp
  show "16 dvd A" using A' pos by simp
  show "A = ?w * t * ?k - ?w" using A by (simp add: algebra_simps)
  show "A = ?w * (A div ?w)" using A' q by simp
  show "A + ?w \<le> erasureCodingDataSize c" if "A \<le> alignedSecretBufferSize c"
  proof -
    have "?k * t \<le> alignedSecretBufferSize c div ?w + 1"
      using div_le_mono [OF that, of ?w] q by simp
    then have "t \<le> (alignedSecretBufferSize c div ?w + 1) div ?k"
      using pos by (simp add: less_eq_div_iff_mult_less_eq mult.commute)
    then have "?w * t * ?k \<le> erasureCodingDataSize c" using c by (simp add: rs_codec_def)
    then show ?thesis using A by (simp add: algebra_simps)
  qed
qed

lemma rsDecodeChecks_ok:
  assumes c: "rs_codec ssl c" and A: "A + bytesPerSecretWord c = bytesPerSecretWord c * codecK c * t" "0 < t"
    and le: "A \<le> alignedSecretBufferSize c" "L \<le> A"
  shows "rsDecodeChecks c (bytesPerSecretWord c * t) L = Inr ()"
proof -
  have eq: "bytesPerSecretWord c * t * codecK c = A + bytesPerSecretWord c" using A by (simp add: algebra_simps)
  show ?thesis
    using rs_sizes(5) [OF c A le(1)] le unfolding rsDecodeChecks_def Let_def eq by simp
qed


section \<open>Hashing and masking\<close>

lemma hashOr_total:
  assumes "rs_codec ssl c"
  obtains h where "hashOr ssl c d = Inr h" "length h = bytesPerSecretWord c"
proof -
  have "crypto_valid ssl (cryptoObj c)" using assms by (simp add: rs_codec_def)
  then obtain h where "generateHash ssl (cryptoObj c) d = Inr h" "length h = nat (hashSize (cryptoObj c))"
    by (rule crypto.hashE)
  then show thesis using that assms by (simp add: hashOr_def rs_codec_def)
qed

lemma encryptOr_total:
  assumes "rs_codec ssl c" "length key = bytesPerSecretWord c" "16 dvd length d"
  obtains ct where "encryptOr ssl c d key = Inr ct" "length ct = length d"
proof -
  have "crypto_valid ssl (cryptoObj c)" "crypto_paired (cryptoObj c)" "length key = nat (keySize (cryptoObj c))"
    using assms by (simp_all add: rs_codec_def)
  then obtain ct where "encryptWithKey ssl (cryptoObj c) d key = Inr ct" "length ct = length d"
    using crypto.encE [OF _ _ _ assms(3)] by blast
  then show thesis using that by (simp add: encryptOr_def)
qed

lemma rs_region_xor:
  "rs_codec ssl c \<Longrightarrow> length src = length dst \<Longrightarrow> gf_multiply_region (gfObj c) src dst 1 True = xorBytes dst src"
  by (simp add: rs_codec_def gf_laws.region_xor)

lemma recoverKey_tail:
  assumes c: "rs_codec ssl c" and h: "hashOr ssl c body = Inr h"
    and len: "length h = bytesPerSecretWord c" "length key = bytesPerSecretWord c"
  shows "recoverKey ssl c (body @ xorBytes h key) (length body) = Inr key"
proof -
  have "slice (length body) (bytesPerSecretWord c) (body @ xorBytes h key) = xorBytes h key"
    using len by (simp add: slice_def)
  then show ?thesis
    using h len by (simp add: recoverKey_def rs_region_xor [OF c] xorBytes_cancel_left)
qed

lemma aontWords_masks:
  assumes c: "rs_codec ssl c" and src: "bytesPerSecretWord c * N \<le> length src"
    and masks: "\<And>i. i < N \<Longrightarrow> encryptOr ssl c (wordForIndex (bytesPerSecretWord c) i) key = Inr (msk i)"
    and lens: "\<And>i. i < N \<Longrightarrow> length (msk i) = bytesPerSecretWord c" and s: "s \<le> N"
  shows "aontWords ssl c key src [s..<N] out =
    Inr (out @ concat (map (\<lambda>i. xorBytes (msk i) (blockAt (bytesPerSecretWord c) src i)) [s..<N]))"
  using s
proof (induction "N - s" arbitrary: s out)
  case 0
  then show ?case by simp
next
  case (Suc d)
  then have sN: "s < N" and d: "d = N - Suc s" by auto
  have "length (blockAt (bytesPerSecretWord c) src s) = bytesPerSecretWord c"
    using src block_fits [OF sN, of "bytesPerSecretWord c"] by (intro length_blockAt) simp
  then have "gf_multiply_region (gfObj c) (blockAt (bytesPerSecretWord c) src s) (msk s) 1 True =
      xorBytes (msk s) (blockAt (bytesPerSecretWord c) src s)"
    using lens [OF sN] by (simp add: rs_region_xor [OF c])
  then show ?case
    using Suc.hyps(1) [OF d] sN masks [OF sN] by (simp add: upt_conv_Cons Let_def)
qed

lemma length_wordForIndex: "4 \<le> w \<Longrightarrow> length (wordForIndex w i) = w"
  by (simp add: wordForIndex_def)

lemma masks_exist:
  assumes c: "rs_codec ssl c" and key: "length key = bytesPerSecretWord c"
  obtains msk where "\<And>i. encryptOr ssl c (wordForIndex (bytesPerSecretWord c) i) key = Inr (msk i)"
    "\<And>i. length (msk i) = bytesPerSecretWord c"
proof -
  have w: "16 dvd bytesPerSecretWord c" "4 \<le> bytesPerSecretWord c"
    using c by (auto simp: rs_codec_def dvd_def)
  have "\<exists>m. encryptOr ssl c (wordForIndex (bytesPerSecretWord c) i) key = Inr m \<and> length m = bytesPerSecretWord c" for i
    using encryptOr_total [OF c key, of "wordForIndex (bytesPerSecretWord c) i"] w
    by (metis length_wordForIndex)
  then show thesis using that by metis
qed

text \<open>Masking the words twice with the same key gives the words back.\<close>

lemma aontWords_involution:
  assumes c: "rs_codec ssl c" and key: "length key = bytesPerSecretWord c"
    and src: "length src = bytesPerSecretWord c * N"
  obtains body where "aontWords ssl c key src [0..<N] [] = Inr body" "length body = length src"
    "\<And>tl. length tl = bytesPerSecretWord c \<Longrightarrow> aontWords ssl c key (body @ tl) [0..<N] [] = Inr src"
proof -
  let ?w = "bytesPerSecretWord c"
  obtain msk where m: "\<And>i. encryptOr ssl c (wordForIndex ?w i) key = Inr (msk i)" "\<And>i. length (msk i) = ?w"
    using masks_exist [OF c key] by blast
  let ?body = "concat (map (\<lambda>i. xorBytes (msk i) (blockAt ?w src i)) [0..<N])"
  have blk: "length (blockAt ?w src i) = ?w" if "i < N" for i
    using src that by (intro length_blockAt) (simp add: block_fits)
  have len: "length ?body = ?w * N" using blk m by (intro length_concat_rows) simp
  have one: "aontWords ssl c key src [0..<N] [] = Inr ?body"
    using aontWords_masks [OF c _ m(1,2), of N src 0 "[]"] src by simp
  have two: "aontWords ssl c key (?body @ tl) [0..<N] [] = Inr src" if "length tl = ?w" for tl
  proof -
    have bodyblk: "blockAt ?w (?body @ tl) i = xorBytes (msk i) (blockAt ?w src i)" if "i < N" for i
    proof -
      have "blockAt ?w (?body @ tl) i = blockAt ?w ?body i"
        using len block_fits [OF that, of ?w] by (simp add: blockAt_def slice_append_left)
      also have "\<dots> = xorBytes (msk i) (blockAt ?w src i)"
        using that blk m by (intro blockAt_concat) simp_all
      finally show ?thesis .
    qed
    have "aontWords ssl c key (?body @ tl) [0..<N] [] =
        Inr (concat (map (\<lambda>i. xorBytes (msk i) (blockAt ?w (?body @ tl) i)) [0..<N]))"
      using aontWords_masks [OF c _ m(1,2), of N "?body @ tl" 0 "[]"] len by simp
    also have "concat (map (\<lambda>i. xorBytes (msk i) (blockAt ?w (?body @ tl) i)) [0..<N]) =
        concat (map (blockAt ?w src) [0..<N])"
      using bodyblk blk m by (intro arg_cong [where f = concat]) (simp add: xorBytes_cancel_left)
    also have "\<dots> = src" by (rule concat_blockAt [OF src])
    finally show ?thesis .
  qed
  show thesis using that [OF one _ two] len src by simp
qed


section \<open>Round trips of the RS schemes\<close>

definition rsShareSize :: "cdcodec \<Rightarrow> nat \<Rightarrow> nat" where
  "rsShareSize c L = bytesPerSecretWord c * ((rsAlignedSize c L div bytesPerSecretWord c + 1) div codecK c)"

lemma padSecret_props:
  assumes "length secret \<le> A"
  shows "length (padSecret secret A) = A" "take (length secret) (padSecret secret A) = secret"
  using assms by (simp_all add: padSecret_def)

text \<open>A package goes through the shares unchanged.\<close>

lemma rs_package_roundtrip:
  assumes c: "rs_codec ssl c" and A: "A + bytesPerSecretWord c = bytesPerSecretWord c * codecK c * t" "0 < t"
    and le: "A \<le> alignedSecretBufferSize c" and pkg: "length pkg = A + bytesPerSecretWord c"
    and cap: "bytesPerSecretWord c * t * codecN c \<le> length shareBuffer"
  obtains shares where "rsShares c pkg (bytesPerSecretWord c * t) shareBuffer = Inr (shares, bytesPerSecretWord c * t)"
    "encodesBlocks c (bytesPerSecretWord c * t) (blockAt (bytesPerSecretWord c * t) pkg) shares"
    "\<And>ids. good_ids c ids \<Longrightarrow>
      invertAndMix c (selectShares (bytesPerSecretWord c * t) shares ids) ids (bytesPerSecretWord c * t) = Inr pkg"
proof -
  let ?sz = "bytesPerSecretWord c * t"
  have len: "length pkg = ?sz * codecK c" using pkg A by (simp add: algebra_simps)
  have "length pkg \<le> erasureCodingDataSize c" using rs_sizes(5) [OF c A le] pkg by simp
  moreover have "gf_laws (gfObj c)" "0 < codecK c" "codecN c = codecM c + codecK c"
    "distributionMatrix c = rsMatrix (gfObj c) (codecM c) (codecK c)"
    using c by (auto simp: rs_codec_def)
  ultimately obtain shares where sh: "rsShares c pkg ?sz shareBuffer = Inr (shares, ?sz)"
    "encodesBlocks c ?sz (blockAt ?sz pkg) shares"
    using rsShares_encodes [OF _ _ _ _ len _ cap] by metis
  have "invertAndMix c (selectShares ?sz shares ids) ids ?sz = Inr pkg" if "good_ids c ids" for ids
    using invertAndMix_shares [OF rs_good_matrix [OF c] that sh(2)] concat_blockAt [OF len] by simp
  then show thesis using that sh by blast
qed

lemma caont_package:
  assumes c: "rs_codec ssl c" "CDType c = CAONT_RS_TYPE"
    and al: "16 dvd length aligned" "length aligned \<le> alignedSecretBufferSize c"
  obtains key ct h where "hashOr ssl c aligned = Inr key" "length key = bytesPerSecretWord c"
    "encryptOr ssl c (take (length aligned) (alignedSizeConstant c)) key = Inr ct" "length ct = length aligned"
    "hashOr ssl c (xorBytes ct aligned) = Inr h" "length h = bytesPerSecretWord c"
    "caontPackage ssl c aligned = Inr (xorBytes ct aligned @ xorBytes h key)"
proof -
  obtain key where key: "hashOr ssl c aligned = Inr key" "length key = bytesPerSecretWord c"
    using hashOr_total [OF c(1)] .
  have len: "length (take (length aligned) (alignedSizeConstant c)) = length aligned"
    using c al by (simp add: rs_codec_def)
  obtain ct where ct: "encryptOr ssl c (take (length aligned) (alignedSizeConstant c)) key = Inr ct"
    "length ct = length aligned"
    using encryptOr_total [OF c(1) key(2), of "take (length aligned) (alignedSizeConstant c)"] len al by metis
  obtain h where h: "hashOr ssl c (xorBytes ct aligned) = Inr h" "length h = bytesPerSecretWord c"
    using hashOr_total [OF c(1)] .
  have "caontPackage ssl c aligned = Inr (xorBytes ct aligned @ xorBytes h key)"
    using key ct h by (simp add: caontPackage_def rs_region_xor [OF c(1)])
  then show thesis using that key ct h by blast
qed

lemma caont_roundtrip:
  assumes c: "rs_codec ssl c" "CDType c = CAONT_RS_TYPE" and L: "length secret \<le> MAX_SECRET_SIZE"
    and cap: "rsShareSize c (length secret) * codecN c \<le> length shareBuffer"
  obtains shares where "caontRSEncoding ssl c secret shareBuffer = Inr (shares, rsShareSize c (length secret))"
    "\<forall>ids. good_ids c ids \<longrightarrow> caontRSDecoding ssl c (selectShares (rsShareSize c (length secret)) shares ids) ids
       (rsShareSize c (length secret)) (length secret) = Inr secret"
    "length shares = rsShareSize c (length secret) * codecN c" "0 < rsShareSize c (length secret)"
proof -
  let ?w = "bytesPerSecretWord c"
  define A where "A = rsAlignedSize c (length secret)"
  obtain t where t: "0 < t" "A + ?w = ?w * codecK c * t" and le: "length secret \<le> A" "A < length secret + ?w * codecK c"
    using rsAlignedSize_shape [OF c(1)] unfolding A_def by metis
  have fit: "A \<le> alignedSecretBufferSize c" using le L c(1) by (simp add: rs_codec_def)
  note sz = rs_sizes [OF c(1) t(2,1)]
  have ss: "rsShareSize c (length secret) = ?w * t" using sz(1) by (simp add: rsShareSize_def A_def)
  let ?al = "padSecret secret A"
  have al: "length ?al = A" using padSecret_props(1) [OF le(1)] .
  obtain key ct h where k: "hashOr ssl c ?al = Inr key" "length key = ?w"
    "encryptOr ssl c (take (length ?al) (alignedSizeConstant c)) key = Inr ct" "length ct = length ?al"
    "hashOr ssl c (xorBytes ct ?al) = Inr h" "length h = ?w"
    "caontPackage ssl c ?al = Inr (xorBytes ct ?al @ xorBytes h key)"
    using caont_package [OF c, of ?al] al sz(2) fit by metis
  let ?body = "xorBytes ct ?al" and ?pkg = "xorBytes ct ?al @ xorBytes h key"
  have lens: "length ?body = A" "length ?pkg = A + ?w" using k al by simp_all
  have cap': "?w * t * codecN c \<le> length shareBuffer" using cap ss by simp
  obtain shares where sh: "rsShares c ?pkg (?w * t) shareBuffer = Inr (shares, ?w * t)" "encodesBlocks c (?w * t) (blockAt (?w * t) ?pkg) shares"
    "\<And>ids. good_ids c ids \<Longrightarrow> invertAndMix c (selectShares (?w * t) shares ids) ids (?w * t) = Inr ?pkg"
    using rs_package_roundtrip [OF c(1) t(2,1) fit lens(2) cap'] by metis
  have enc: "caontRSEncoding ssl c secret shareBuffer = Inr (shares, ?w * t)"
    unfolding caontRSEncoding_def Let_def A_def [symmetric] sz(1) using fit k(7) sh(1) by simp
  have dec: "caontRSDecoding ssl c (selectShares (?w * t) shares ids) ids (?w * t) (length secret) = Inr secret"
    if "good_ids c ids" for ids
  proof -
    have rk: "recoverKey ssl c ?pkg A = Inr key"
      using recoverKey_tail [OF c(1) k(5,6,2)] lens by simp
    have tk: "take A ?pkg = ?body" using lens(1) by simp
    have un: "gf_multiply_region (gfObj c) ?body ct 1 True = ?al"
      using rs_region_xor [OF c(1), of ?body ct] k(4) by (simp add: xorBytes_cancel_left)
    show ?thesis
      unfolding caontRSDecoding_def Let_def sz(3) [symmetric]
      using rsDecodeChecks_ok [OF c(1) t(2,1) fit le(1)] sh(3) [OF that] rk un k(1,3) al
        padSecret_props(2) [OF le(1)] tk by (simp del: take_append)
  qed
  have "0 < ?w" using c(1) by (simp add: rs_codec_def)
  then show thesis using that [of shares] enc dec ss sh(2) t(1) by (simp add: encodesBlocks_def)
qed


text \<open>AONT-RS and old CAONT-RS, for any key of the right size.\<close>

lemma aont_roundtrip:
  assumes c: "rs_codec ssl c" and L: "length secret \<le> MAX_SECRET_SIZE" and key: "length key = bytesPerSecretWord c"
    and cap: "rsShareSize c (length secret) * codecN c \<le> length shareBuffer"
  obtains shares pkg where
    "aontEncodeWith ssl c key (padSecret secret (rsAlignedSize c (length secret))) shareBuffer =
      Inr (shares, rsShareSize c (length secret))"
    "\<forall>ids. good_ids c ids \<longrightarrow>
      invertAndMix c (selectShares (rsShareSize c (length secret)) shares ids) ids (rsShareSize c (length secret)) = Inr pkg"
    "recoverKey ssl c pkg (rsAlignedSize c (length secret)) = Inr key"
    "aontWords ssl c key pkg [0..<rsAlignedSize c (length secret) div bytesPerSecretWord c] [] =
      Inr (padSecret secret (rsAlignedSize c (length secret)))"
proof -
  let ?w = "bytesPerSecretWord c"
  define A where "A = rsAlignedSize c (length secret)"
  obtain t where t: "0 < t" "A + ?w = ?w * codecK c * t" and le: "length secret \<le> A" "A < length secret + ?w * codecK c"
    using rsAlignedSize_shape [OF c(1)] unfolding A_def by metis
  have fit: "A \<le> alignedSecretBufferSize c" using le L c(1) by (simp add: rs_codec_def)
  note sz = rs_sizes [OF c(1) t(2,1)]
  have ss: "rsShareSize c (length secret) = ?w * t" using sz(1) by (simp add: rsShareSize_def A_def)
  let ?al = "padSecret secret A"
  have al: "length ?al = A" using padSecret_props(1) [OF le(1)] .
  have al': "length ?al = ?w * (A div ?w)" using al sz(4) by simp
  obtain body where b: "aontWords ssl c key ?al [0..<A div ?w] [] = Inr body" "length body = A"
    "\<And>tl. length tl = ?w \<Longrightarrow> aontWords ssl c key (body @ tl) [0..<A div ?w] [] = Inr ?al"
    using aontWords_involution [OF c key al'] al by metis
  obtain h where h: "hashOr ssl c body = Inr h" "length h = ?w" using hashOr_total [OF c] .
  let ?pkg = "body @ xorBytes h key"
  have cap': "?w * t * codecN c \<le> length shareBuffer" using cap ss by simp
  have "length ?pkg = A + ?w" using b h key by simp
  then obtain shares where sh: "rsShares c ?pkg (?w * t) shareBuffer = Inr (shares, ?w * t)"
    "\<And>ids. good_ids c ids \<Longrightarrow> invertAndMix c (selectShares (?w * t) shares ids) ids (?w * t) = Inr ?pkg"
    using rs_package_roundtrip [OF c(1) t(2,1) fit _ cap'] by metis
  have "aontEncodeWith ssl c key ?al shareBuffer = Inr (shares, ?w * t)"
    unfolding aontEncodeWith_def Let_def al sz(1) using b(1) h sh(1) key
    by (simp add: rs_region_xor [OF c])
  moreover have "recoverKey ssl c ?pkg A = Inr key" using recoverKey_tail [OF c h(1,2) key] b(2) by simp
  moreover have "aontWords ssl c key ?pkg [0..<A div ?w] [] = Inr ?al" using b(3) h key by simp
  ultimately show thesis using that [of shares ?pkg] sh(2) ss by (simp flip: A_def)
qed

lemma rs_decode_sizes:
  assumes c: "rs_codec ssl c" and L: "L \<le> MAX_SECRET_SIZE"
  shows "rsDecodeChecks c (rsShareSize c L) L = Inr ()"
    "rsShareSize c L * codecK c - bytesPerSecretWord c = rsAlignedSize c L"
    "rsAlignedSize c L \<le> alignedSecretBufferSize c" "L \<le> rsAlignedSize c L"
proof -
  let ?w = "bytesPerSecretWord c"
  obtain t where t: "0 < t" "rsAlignedSize c L + ?w = ?w * codecK c * t"
    and le: "L \<le> rsAlignedSize c L" "rsAlignedSize c L < L + ?w * codecK c"
    using rsAlignedSize_shape [OF c] by metis
  have fit: "rsAlignedSize c L \<le> alignedSecretBufferSize c" using le L c by (simp add: rs_codec_def)
  note sz = rs_sizes [OF c t(2,1)]
  have ss: "rsShareSize c L = ?w * t" using sz(1) by (simp add: rsShareSize_def)
  show "rsDecodeChecks c (rsShareSize c L) L = Inr ()"
    unfolding ss by (rule rsDecodeChecks_ok [OF c t(2,1) fit le(1)])
  show "rsShareSize c L * codecK c - ?w = rsAlignedSize c L" unfolding ss using sz(3) by simp
  show "rsAlignedSize c L \<le> alignedSecretBufferSize c" "L \<le> rsAlignedSize c L" using fit le by auto
qed

lemma aontRS_roundtrip:
  assumes c: "rs_codec ssl c" and L: "length secret \<le> MAX_SECRET_SIZE"
    and cap: "rsShareSize c (length secret) * codecN c \<le> length shareBuffer"
  obtains shares where "aontRSEncoding ssl rnd c secret shareBuffer = Inr (shares, rsShareSize c (length secret))"
    "\<forall>ids. good_ids c ids \<longrightarrow> aontRSDecoding ssl c (selectShares (rsShareSize c (length secret)) shares ids) ids
       (rsShareSize c (length secret)) (length secret) = Inr secret"
proof -
  let ?key = "map rnd [0..<bytesPerSecretWord c]"
  note sz = rs_decode_sizes [OF c L]
  obtain shares pkg where sp:
    "aontEncodeWith ssl c ?key (padSecret secret (rsAlignedSize c (length secret))) shareBuffer =
      Inr (shares, rsShareSize c (length secret))"
    "\<forall>ids. good_ids c ids \<longrightarrow>
      invertAndMix c (selectShares (rsShareSize c (length secret)) shares ids) ids (rsShareSize c (length secret)) = Inr pkg"
    "recoverKey ssl c pkg (rsAlignedSize c (length secret)) = Inr ?key"
    "aontWords ssl c ?key pkg [0..<rsAlignedSize c (length secret) div bytesPerSecretWord c] [] =
      Inr (padSecret secret (rsAlignedSize c (length secret)))"
    using aont_roundtrip [OF c L _ cap, of ?key] by auto
  show thesis
    using that [of shares] sp sz padSecret_props(2) [OF sz(4)]
    by (simp add: aontRSEncoding_def aontRSDecoding_def Let_def)
qed

lemma caontRSOld_roundtrip:
  assumes c: "rs_codec ssl c" and L: "length secret \<le> MAX_SECRET_SIZE"
    and cap: "rsShareSize c (length secret) * codecN c \<le> length shareBuffer"
  obtains shares where "caontRSOldEncoding ssl c secret shareBuffer = Inr (shares, rsShareSize c (length secret))"
    "\<forall>ids. good_ids c ids \<longrightarrow> caontRSOldDecoding ssl c (selectShares (rsShareSize c (length secret)) shares ids) ids
       (rsShareSize c (length secret)) (length secret) = Inr secret"
proof -
  note sz = rs_decode_sizes [OF c L]
  let ?al = "padSecret secret (rsAlignedSize c (length secret))"
  obtain key where key: "hashOr ssl c ?al = Inr key" "length key = bytesPerSecretWord c"
    using hashOr_total [OF c] .
  obtain shares pkg where sp:
    "aontEncodeWith ssl c key ?al shareBuffer = Inr (shares, rsShareSize c (length secret))"
    "\<forall>ids. good_ids c ids \<longrightarrow>
      invertAndMix c (selectShares (rsShareSize c (length secret)) shares ids) ids (rsShareSize c (length secret)) = Inr pkg"
    "recoverKey ssl c pkg (rsAlignedSize c (length secret)) = Inr key"
    "aontWords ssl c key pkg [0..<rsAlignedSize c (length secret) div bytesPerSecretWord c] [] = Inr ?al"
    using aont_roundtrip [OF c L key(2) cap] .
  show thesis
    using that [of shares] sp sz key padSecret_props(2) [OF sz(4)]
    by (simp add: caontRSOldEncoding_def caontRSOldDecoding_def Let_def)
qed


section \<open>Round trip of CRSSS\<close>

definition crsss_codec :: "openssl \<Rightarrow> cdcodec \<Rightarrow> bool" where
  "crsss_codec ssl c \<longleftrightarrow>
     gf_laws (gfObj c) \<and> crypto_valid ssl (cryptoObj c) \<and> nat (hashSize (cryptoObj c)) = bytesPerSecretWord c \<and>
     0 < bytesPerSecretWord c \<and> 0 < secretWordsPerGroup c \<and> codecK c = secretWordsPerGroup c + codecR c \<and>
     bytesPerGroup c = bytesPerSecretWord c * secretWordsPerGroup c \<and> codecN c + codecK c \<le> 256 \<and>
     alignedSecretBufferSize c = MAX_SECRET_SIZE + bytesPerGroup c \<and>
     erasureCodingDataSize c =
       (bytesPerSecretWord c * (alignedSecretBufferSize c div bytesPerGroup c)) * codecK c \<and>
     distributionMatrix c = crsssMatrix (gfObj c) (codecN c) (codecK c)"

lemma mkCDCodec_crsss:
  assumes mk: "mkCDCodec gf CRSSS_TYPE n m r (Some crypto) = Inr c" and gf: "gf_laws gf"
    and crypto: "crypto_valid ssl crypto"
  shows "crsss_codec ssl c" "CDType c = CRSSS_TYPE"
proof -
  have g: "n > 0" "m > 0" "m < n" "n - m > 1" "r > 0" "r < n - m" "\<not> gfOverflows (nat n) (nat n) (nat (n - m))"
    using mk by (auto simp: mkCDCodec_def Let_def split: if_splits)
  have n: "nat n + nat (n - m) \<le> 256" using gfOverflows_bound [OF g(7)] g by auto
  obtain type where "mkCrypto True type = Inr crypto" using crypto by (auto simp: crypto_valid_def)
  then have h: "0 < nat (hashSize crypto)" by (auto simp: mkCrypto_def split: if_splits)
  define w where "w = nat (getHashSize crypto)"
  define k where "k = nat (n - m)"
  have "mkCDCodec gf CRSSS_TYPE n m r (Some crypto) =
    Inr \<lparr> CDType = CRSSS_TYPE, codecN = nat n, codecM = nat m, codecK = k, codecR = nat r,
      bytesPerSecretWord = w, secretWordsPerGroup = k - nat r, bytesPerGroup = w * (k - nat r),
      alignedSecretBufferSize = MAX_SECRET_SIZE + w * (k - nat r),
      erasureCodingDataSize = (w * ((MAX_SECRET_SIZE + w * (k - nat r)) div (w * (k - nat r)))) * k,
      alignedSizeConstant = [], distributionMatrix = crsssMatrix gf (nat n) k, cryptoObj = crypto, gfObj = gf \<rparr>"
    using g unfolding mkCDCodec_def Let_def w_def k_def by simp
  then have c: "c = \<lparr> CDType = CRSSS_TYPE, codecN = nat n, codecM = nat m, codecK = k, codecR = nat r,
      bytesPerSecretWord = w, secretWordsPerGroup = k - nat r, bytesPerGroup = w * (k - nat r),
      alignedSecretBufferSize = MAX_SECRET_SIZE + w * (k - nat r),
      erasureCodingDataSize = (w * ((MAX_SECRET_SIZE + w * (k - nat r)) div (w * (k - nat r)))) * k,
      alignedSizeConstant = [], distributionMatrix = crsssMatrix gf (nat n) k, cryptoObj = crypto, gfObj = gf \<rparr>"
    using mk by simp
  show "CDType c = CRSSS_TYPE" by (simp add: c)
  show "crsss_codec ssl c"
    unfolding crsss_codec_def using gf crypto g n h by (simp add: c w_def k_def getHashSize_def)
qed

lemma crsss_good_matrix:
  assumes "crsss_codec ssl c"
  shows "good_matrix c"
proof -
  have gf: "gf_laws (gfObj c)" and nk: "codecN c + codecK c \<le> 256"
    and D: "distributionMatrix c = crsssMatrix (gfObj c) (codecN c) (codecK c)" and k: "0 < codecK c"
    using assms by (auto simp: crsss_codec_def)
  have "anyRowsInvertible (gfObj c) (codecN c) (codecK c) (\<lambda>i j. distributionMatrix c ! (codecK c * i + j))"
    unfolding anyRowsInvertible_def
  proof (intro allI impI)
    fix ids x j
    assume a: "length ids = codecK c" "distinct ids" "\<forall>i \<in> set ids. i < codecN c"
      "\<forall>i \<in> set ids. gsum (\<lambda>j. gf_multiply (gfObj c) (distributionMatrix c ! (codecK c * i + j)) (x j)) [0..<codecK c] = 0"
      "j < codecK c"
    have "gsum (\<lambda>j. gf_multiply (gfObj c) (cauchyEntry (gfObj c) i (codecN c + j)) (x j)) [0..<codecK c] =
      gsum (\<lambda>j. gf_multiply (gfObj c) (distributionMatrix c ! (codecK c * i + j)) (x j)) [0..<codecK c]"
      if "i \<in> set ids" for i
      using a(3) that by (intro gsum_cong) (auto simp: D crsssMatrix_nth)
    then show "x j = 0"
      using a by (intro gf_laws.crsss_rows [OF gf nk, unfolded anyRowsInvertible_def, rule_format, of ids x j]) auto
  qed
  then show ?thesis using gf k by (simp add: good_matrix_def)
qed

lemma crsss_hash:
  assumes "crsss_codec ssl c"
  obtains h where "hashOr ssl c d = Inr h" "length h = bytesPerSecretWord c"
proof -
  have "crypto_valid ssl (cryptoObj c)" using assms by (simp add: crsss_codec_def)
  then obtain h where "generateHash ssl (cryptoObj c) d = Inr h" "length h = nat (hashSize (cryptoObj c))"
    by (rule crypto.hashE)
  then show thesis using that assms by (simp add: hashOr_def crsss_codec_def)
qed

definition theHash :: "openssl \<Rightarrow> cdcodec \<Rightarrow> bytes \<Rightarrow> bytes" where
  "theHash ssl c d = (case hashOr ssl c d of Inr h \<Rightarrow> h | Inl _ \<Rightarrow> [])"

lemma theHash:
  assumes "crsss_codec ssl c"
  shows "hashOr ssl c d = Inr (theHash ssl c d)" "length (theHash ssl c d) = bytesPerSecretWord c"
  using crsss_hash [OF assms, of d] by (metis theHash_def sum.simps(6))+

text \<open>The k words that a group contributes.\<close>

definition groupAll :: "openssl \<Rightarrow> cdcodec \<Rightarrow> bytes \<Rightarrow> bytes list" where
  "groupAll ssl c grp = groupWords c grp @ map (\<lambda>j. theHash ssl c (grp @ [of_nat j])) [0..<codecR c]"

lemma groupAll_props:
  assumes c: "crsss_codec ssl c" and grp: "length grp = bytesPerGroup c"
  shows "length (groupAll ssl c grp) = codecK c"
    "j < codecK c \<Longrightarrow> length (groupAll ssl c grp ! j) = bytesPerSecretWord c"
    "concat (map ((!) (groupAll ssl c grp)) [0..<secretWordsPerGroup c]) = grp"
    "j < codecR c \<Longrightarrow> groupAll ssl c grp ! (secretWordsPerGroup c + j) = theHash ssl c (grp @ [of_nat j])"
proof -
  have k: "codecK c = secretWordsPerGroup c + codecR c"
    and g: "bytesPerGroup c = bytesPerSecretWord c * secretWordsPerGroup c"
    using c by (auto simp: crsss_codec_def)
  show "length (groupAll ssl c grp) = codecK c" by (simp add: groupAll_def groupWords_def k)
  have blk: "length (blockAt (bytesPerSecretWord c) grp j) = bytesPerSecretWord c" if "j < secretWordsPerGroup c" for j
    using grp g that by (intro length_blockAt) (simp add: block_fits)
  show "length (groupAll ssl c grp ! j) = bytesPerSecretWord c" if "j < codecK c"
    using that blk theHash [OF c] by (auto simp: groupAll_def groupWords_def nth_append k)
  have "map ((!) (groupAll ssl c grp)) [0..<secretWordsPerGroup c] =
      map (blockAt (bytesPerSecretWord c) grp) [0..<secretWordsPerGroup c]"
    by (simp add: groupAll_def groupWords_def nth_append)
  then show "concat (map ((!) (groupAll ssl c grp)) [0..<secretWordsPerGroup c]) = grp"
    using concat_blockAt [of grp "bytesPerSecretWord c" "secretWordsPerGroup c"] grp g by metis
  show "groupAll ssl c grp ! (secretWordsPerGroup c + j) = theHash ssl c (grp @ [of_nat j])" if "j < codecR c"
    using that by (simp add: groupAll_def groupWords_def nth_append)
qed

lemma crsssGroups_blocks:
  assumes c: "crsss_codec ssl c" and al: "length aligned = bytesPerGroup c * G"
  shows "s \<le> G \<Longrightarrow> length blocks = codecK c \<Longrightarrow>
    crsssGroups ssl c aligned [s..<G] blocks = Inr (map (\<lambda>j. blocks ! j @
      concat (map (\<lambda>i. groupAll ssl c (blockAt (bytesPerGroup c) aligned i) ! j) [s..<G])) [0..<codecK c])"
proof (induction "G - s" arbitrary: s blocks)
  case 0
  then show ?case by (auto intro!: nth_equalityI)
next
  case (Suc d)
  then have sG: "s < G" and d: "d = G - Suc s" by auto
  let ?grp = "blockAt (bytesPerGroup c) aligned s"
  have grp: "length ?grp = bytesPerGroup c" using al sG by (intro length_blockAt) (simp add: block_fits)
  have "groupHashes ssl c ?grp = Inr (map (\<lambda>j. theHash ssl c (?grp @ [of_nat j])) [0..<codecR c])"
    unfolding groupHashes_def by (rule mapR_total) (simp add: theHash [OF c])
  then have "crsssGroups ssl c aligned [s..<G] blocks =
      crsssGroups ssl c aligned [Suc s..<G] (map2 (@) blocks (groupAll ssl c ?grp))"
    using sG by (simp add: upt_conv_Cons groupAll_def Let_def)
  also have "\<dots> = Inr (map (\<lambda>j. map2 (@) blocks (groupAll ssl c ?grp) ! j @
      concat (map (\<lambda>i. groupAll ssl c (blockAt (bytesPerGroup c) aligned i) ! j) [Suc s..<G])) [0..<codecK c])"
    using Suc.hyps(1) [OF d] sG Suc.prems groupAll_props(1) [OF c grp] by simp
  also have "\<dots> = Inr (map (\<lambda>j. blocks ! j @
      concat (map (\<lambda>i. groupAll ssl c (blockAt (bytesPerGroup c) aligned i) ! j) [s..<G])) [0..<codecK c])"
    using sG Suc.prems groupAll_props(1) [OF c grp] by (simp add: upt_conv_Cons)
  finally show ?case .
qed

lemma crsssAlignedSize_shape:
  assumes "crsss_codec ssl c"
  shows "crsssAlignedSize c L = bytesPerGroup c * (crsssAlignedSize c L div bytesPerGroup c)"
    "L \<le> crsssAlignedSize c L" "crsssAlignedSize c L < L + bytesPerGroup c"
proof -
  have pos: "0 < bytesPerGroup c" using assms by (auto simp: crsss_codec_def)
  have dm: "bytesPerGroup c * (L div bytesPerGroup c) + L mod bytesPerGroup c = L" by simp
  have lt: "L mod bytesPerGroup c < bytesPerGroup c" using pos by simp
  show "crsssAlignedSize c L = bytesPerGroup c * (crsssAlignedSize c L div bytesPerGroup c)"
    using dm pos by (auto simp: crsssAlignedSize_def simp del: mult_div_mod_eq)
  have "L \<le> crsssAlignedSize c L \<and> crsssAlignedSize c L < L + bytesPerGroup c"
  proof (cases "L mod bytesPerGroup c = 0")
    case True
    then show ?thesis using pos by (simp add: crsssAlignedSize_def)
  next
    case False
    then have "crsssAlignedSize c L = bytesPerGroup c * (L div bytesPerGroup c) + bytesPerGroup c"
      by (simp add: crsssAlignedSize_def)
    then show ?thesis using dm lt False by linarith
  qed
  then show "L \<le> crsssAlignedSize c L" "crsssAlignedSize c L < L + bytesPerGroup c" by auto
qed


definition crsssShareSize :: "cdcodec \<Rightarrow> nat \<Rightarrow> nat" where
  "crsssShareSize c L = bytesPerSecretWord c * (crsssAlignedSize c L div bytesPerGroup c)"

lemma mixAll_encodes:
  assumes good: "good_matrix c" and lens: "\<forall>j < codecK c. length (blocks j) = sz"
    and cap: "sz * codecN c \<le> length shareBuffer"
  shows "encodesBlocks c sz blocks (concat (map (\<lambda>i. mixRow (gfObj c) (codecK c)
    (\<lambda>j. distributionMatrix c ! (codecK c * i + j)) blocks (blockAt sz shareBuffer i)) [0..<codecN c]))"
proof -
  let ?row = "\<lambda>i. combine (gfObj c) sz (codecK c) (\<lambda>j. distributionMatrix c ! (codecK c * i + j)) blocks"
  have gf: "gf_laws (gfObj c)" and k: "0 < codecK c" using good by (auto simp: good_matrix_def)
  have mix: "mixRow (gfObj c) (codecK c) (\<lambda>j. distributionMatrix c ! (codecK c * i + j)) blocks
      (blockAt sz shareBuffer i) = ?row i" if "i < codecN c" for i
  proof -
    have "length (blockAt sz shareBuffer i) = sz"
      using cap block_fits [OF that, of sz] by (intro length_blockAt) simp
    then show ?thesis using gf_laws.mixRow_combine [OF gf _ _ k] lens by simp
  qed
  have "concat (map (\<lambda>i. mixRow (gfObj c) (codecK c)
      (\<lambda>j. distributionMatrix c ! (codecK c * i + j)) blocks (blockAt sz shareBuffer i)) [0..<codecN c]) =
      concat (map ?row [0..<codecN c])"
    using mix by (intro arg_cong [where f = concat]) simp
  then show ?thesis
    using lens length_concat_rows [of "codecN c" ?row sz] blockAt_concat [of "codecN c" ?row sz]
    by (simp add: encodesBlocks_def)
qed

lemma crsss_roundtrip:
  assumes c: "crsss_codec ssl c" and L: "length secret \<le> MAX_SECRET_SIZE"
    and cap: "crsssShareSize c (length secret) * codecN c \<le> length shareBuffer"
  obtains shares where "crsssEncoding ssl c secret shareBuffer = Inr (shares, crsssShareSize c (length secret))"
    "\<forall>ids. good_ids c ids \<longrightarrow> crsssDecoding ssl c (selectShares (crsssShareSize c (length secret)) shares ids) ids
       (crsssShareSize c (length secret)) (length secret) = Inr secret"
proof -
  let ?w = "bytesPerSecretWord c" and ?bg = "bytesPerGroup c" and ?k = "codecK c"
  define A where "A = crsssAlignedSize c (length secret)"
  define G where "G = A div ?bg"
  have A: "A = ?bg * G" "length secret \<le> A" "A < length secret + ?bg"
    using crsssAlignedSize_shape [OF c, of "length secret"] by (simp_all add: A_def G_def)
  have pos: "0 < ?w" "0 < ?bg" using c by (auto simp: crsss_codec_def)
  have sz: "crsssShareSize c (length secret) = ?w * G" by (simp add: crsssShareSize_def A_def G_def)
  have fitA: "A \<le> alignedSecretBufferSize c" using A L c by (simp add: crsss_codec_def)
  have "G \<le> alignedSecretBufferSize c div ?bg" using fitA by (simp add: G_def div_le_mono)
  then have fitE: "?w * G * ?k \<le> erasureCodingDataSize c" using c by (simp add: crsss_codec_def)
  let ?al = "padSecret secret A"
  have al: "length ?al = ?bg * G" using padSecret_props(1) [OF A(2)] A(1) by simp
  let ?grp = "\<lambda>i. blockAt ?bg ?al i" and ?W = "\<lambda>i. groupAll ssl c (blockAt ?bg ?al i)"
  have grp: "length (?grp i) = ?bg" if "i < G" for i
    using al that by (intro length_blockAt) (simp add: block_fits)
  note W = groupAll_props [OF c grp]
  let ?blk = "\<lambda>j. concat (map (\<lambda>i. ?W i ! j) [0..<G])"
  have blk: "\<forall>j < ?k. length (?blk j) = ?w * G" using W(2) by (auto intro!: length_concat_rows)
  have groups: "crsssGroups ssl c ?al [0..<G] (replicate ?k []) = Inr (map ?blk [0..<?k])"
    using crsssGroups_blocks [OF c al, of 0 "replicate ?k []"] by simp
  have cap': "?w * G * codecN c \<le> length shareBuffer" using cap sz by simp
  define shares where "shares = concat (map (\<lambda>i. mixRow (gfObj c) ?k
    (\<lambda>j. distributionMatrix c ! (?k * i + j)) ((!) (map ?blk [0..<?k])) (blockAt (?w * G) shareBuffer i)) [0..<codecN c])"
  have enc: "encodesBlocks c (?w * G) ((!) (map ?blk [0..<?k])) shares"
    unfolding shares_def using blk by (intro mixAll_encodes [OF crsss_good_matrix [OF c] _ cap']) simp
  have e: "crsssEncoding ssl c secret shareBuffer = Inr (shares, ?w * G)"
    using fitA fitE groups cap' by (simp add: crsssEncoding_def Let_def shares_def flip: A_def G_def)
  have restore: "crsssRestoreGroup ssl c (concat (map ?blk [0..<?k])) (?w * G) i = Inr (?grp i)" if i: "i < G" for i
  proof -
    have word: "blockAt ?w (blockAt (?w * G) (concat (map ?blk [0..<?k])) j) i = ?W i ! j" if "j < ?k" for j
    proof -
      have "blockAt (?w * G) (concat (map ?blk [0..<?k])) j = ?blk j"
        using blk that by (intro blockAt_concat) auto
      moreover have "blockAt ?w (?blk j) i = ?W i ! j"
        using W(2) i that by (intro blockAt_concat) auto
      ultimately show ?thesis by simp
    qed
    have k: "?k = secretWordsPerGroup c + codecR c" using c by (simp add: crsss_codec_def)
    have g: "concat (map (\<lambda>j. blockAt ?w (blockAt (?w * G) (concat (map ?blk [0..<?k])) j) i)
        [0..<secretWordsPerGroup c]) = ?grp i"
    proof -
      have "concat (map (\<lambda>j. blockAt ?w (blockAt (?w * G) (concat (map ?blk [0..<?k])) j) i)
          [0..<secretWordsPerGroup c]) = concat (map ((!) (?W i)) [0..<secretWordsPerGroup c])"
        using word k by (intro arg_cong [where f = concat]) simp
      then show ?thesis using W(3) [OF i] by simp
    qed
    have hw: "blockAt ?w (blockAt (?w * G) (concat (map ?blk [0..<?k])) (secretWordsPerGroup c + j)) i =
        theHash ssl c (?grp i @ [of_nat j])" if "j < codecR c" for j
      using word [of "secretWordsPerGroup c + j"] W(4) [OF i that] that k by simp
    have "mapR (\<lambda>j. checkHash ssl c (?grp i) j (blockAt ?w (blockAt (?w * G) (concat (map ?blk [0..<?k]))
        (secretWordsPerGroup c + j)) i)) [0..<codecR c] = Inr (map (\<lambda>_. ()) [0..<codecR c])"
      by (rule mapR_total) (simp add: checkHash_def theHash [OF c] hw)
    then show ?thesis by (simp add: crsssRestoreGroup_def Let_def g)
  qed
  have "mapR (crsssRestoreGroup ssl c (concat (map ?blk [0..<?k])) (?w * G)) [0..<G] = Inr (map ?grp [0..<G])"
    by (rule mapR_total) (simp add: restore)
  moreover have "concat (map ?grp [0..<G]) = ?al" by (rule concat_blockAt [OF al])
  moreover have "invertAndMix c (selectShares (?w * G) shares ids) ids (?w * G) = Inr (concat (map ?blk [0..<?k]))"
    if "good_ids c ids" for ids
  proof -
    have "map ((!) (map ?blk [0..<?k])) [0..<?k] = map ?blk [0..<?k]" by simp
    then show ?thesis using invertAndMix_shares [OF crsss_good_matrix [OF c] that enc] by metis
  qed
  moreover have "?w * G div ?w = G" using pos by simp
  ultimately have "crsssDecoding ssl c (selectShares (?w * G) shares ids) ids (?w * G) (length secret) = Inr secret"
    if "good_ids c ids" for ids
    unfolding crsssDecoding_def Let_def
    using that fitE fitA A(2) padSecret_props(2) [OF A(2)] by (simp only: A(1) [symmetric]) simp
  then show thesis using that [of shares] e sz by simp
qed


section \<open>Soundness of CAONT-RS decoding\<close>

text \<open>A left inverse over a finite field is a right inverse.\<close>

context gf_laws begin

lemma inverting_right:
  assumes len: "length s = k * k" and sv: "squareMatrixInverting gf k s = Some (s', v)" and i: "i < k"
  shows "matVec gf k (entry k s) (matVec gf k (entry k v) y) i = y i"
proof -
  let ?S = "{x :: byte list. length x = k}"
  let ?f = "\<lambda>x. map (matVec gf k (entry k s) ((!) x)) [0..<k]"
  have cong: "matVec gf k A a l = matVec gf k A b l" if "\<And>j. j < k \<Longrightarrow> a j = b j" for A a b l
    unfolding matVec_def using that by (intro gsum_cong) simp
  have retract: "matVec gf k (entry k v) ((!) (?f x)) l = x ! l" if "l < k" for x l
    using inverting_recovers [OF len sv that, of "(!) x"] cong [of "(!) (?f x)" "matVec gf k (entry k s) ((!) x)"]
    by simp
  have "inj_on ?f ?S"
  proof (rule inj_onI)
    fix x z assume xz: "x \<in> ?S" "z \<in> ?S" "?f x = ?f z"
    have "x ! l = z ! l" if "l < k" for l using retract [OF that, of x] retract [OF that, of z] xz(3) by metis
    then show "x = z" using xz by (auto intro: nth_equalityI)
  qed
  moreover have "finite ?S" using finite_lists_length_eq [of "UNIV :: byte set" k] by simp
  ultimately have "?f ` ?S = ?S" by (intro endo_inj_surj) auto
  then obtain x where x: "map y [0..<k] = ?f x" by (metis (mono_tags, lifting) imageE length_map length_upt diff_zero mem_Collect_eq)
  then have y: "y l = ?f x ! l" if "l < k" for l using that by (metis add.left_neutral diff_zero length_upt nth_map nth_upt)
  have "matVec gf k (entry k s) (matVec gf k (entry k v) y) i = matVec gf k (entry k s) ((!) x) i"
  proof (rule cong)
    fix l assume l: "l < k"
    have "matVec gf k (entry k v) y l = matVec gf k (entry k v) ((!) (?f x)) l" by (rule cong) (rule y)
    then show "matVec gf k (entry k v) y l = x ! l" using retract [OF l] by simp
  qed
  also have "\<dots> = y i" using y [OF i] i by simp
  finally show ?thesis .
qed

end

lemma invertAndMix_inverse:
  assumes good: "good_matrix c" and ids: "good_ids c ids" and len: "length sb = sz * codecK c"
    and inv: "invertAndMix c sb ids sz = Inr pkg"
  shows "length pkg = sz * codecK c"
    "encodesBlocks c sz (blockAt sz pkg) shares \<Longrightarrow> selectShares sz shares ids = sb"
proof -
  let ?k = "codecK c" and ?gf = "gfObj c" and ?s = "squareMatrix c ids"
  have gf: "gf_laws ?gf" and k: "0 < ?k" using good by (auto simp: good_matrix_def)
  obtain s' v where sv: "squareMatrixInverting ?gf ?k ?s = Some (s', v)"
    using squareMatrix_invertible [OF good ids] .
  let ?row = "\<lambda>i. combine ?gf sz ?k (\<lambda>j. v ! (?k * i + j)) (blockAt sz sb)"
  have blk: "length (blockAt sz sb j) = sz" if "j < ?k" for j
    using len that by (intro length_blockAt) (simp add: block_fits)
  have "mixRow ?gf ?k (\<lambda>j. v ! (?k * i + j)) (blockAt sz sb) (replicate sz 0) = ?row i" for i
    using gf_laws.mixRow_combine [OF gf _ _ k] blk by simp
  then have pkg: "pkg = concat (map ?row [0..<?k])"
    using inv sv by (simp add: invertAndMix_def Let_def split: if_splits)
  show "length pkg = sz * ?k" unfolding pkg by (rule length_concat_rows) simp
  have pblk: "blockAt sz pkg i = ?row i" if "i < ?k" for i
    unfolding pkg using that by (intro blockAt_concat) simp_all
  assume enc: "encodesBlocks c sz (blockAt sz pkg) shares"
  have idl: "length ids = ?k" "\<And>i. i < ?k \<Longrightarrow> ids ! i < codecN c"
    using ids by (auto simp: good_ids_def)
  have "blockAt sz shares (ids ! i) = blockAt sz sb i" if i: "i < ?k" for i
  proof (rule nth_equalityI)
    have sh: "blockAt sz shares (ids ! i) =
        combine ?gf sz ?k (\<lambda>j. distributionMatrix c ! (?k * (ids ! i) + j)) (blockAt sz pkg)"
      using enc idl(2) [OF i] by (simp add: encodesBlocks_def)
    then show "length (blockAt sz shares (ids ! i)) = length (blockAt sz sb i)" using blk [OF i] by simp
    fix p assume "p < length (blockAt sz shares (ids ! i))"
    then have p: "p < sz" using sh by simp
    have "blockAt sz shares (ids ! i) ! p =
        gsum (\<lambda>j. gf_multiply ?gf (?s ! (?k * i + j)) (?row j ! p)) [0..<?k]"
      using p i by (simp add: sh combine_def [of _ _ _ "\<lambda>j. distributionMatrix c ! (?k * (ids ! i) + j)"])
        (intro gsum_cong, simp add: squareMatrix_nth pblk)
    also have "\<dots> = matVec ?gf ?k (entry ?k ?s) (matVec ?gf ?k (entry ?k v) (\<lambda>j. blockAt sz sb j ! p)) i"
      using p by (simp add: matVec_def combine_def)
    also have "\<dots> = blockAt sz sb i ! p"
      by (rule gf_laws.inverting_right [OF gf length_squareMatrix sv i])
    finally show "blockAt sz shares (ids ! i) ! p = blockAt sz sb i ! p" .
  qed
  then have "map (blockAt sz shares) ids = map (blockAt sz sb) [0..<?k]"
    using idl(1) by (auto intro!: nth_equalityI)
  then show "selectShares sz shares ids = sb"
    using concat_blockAt [OF len] by (simp add: selectShares_def)
qed

lemma caont_decode_sound:
  assumes c: "rs_codec ssl c" "CDType c = CAONT_RS_TYPE" and ids: "good_ids c ids"
    and len: "length sb = sz * codecK c" and L: "L = sz * codecK c - bytesPerSecretWord c"
    and dec: "caontRSDecoding ssl c sb ids sz S = Inr secret" and cap: "sz * codecN c \<le> length shareBuffer"
  shows "\<exists>aligned shares. length aligned = L \<and> secret = take S aligned \<and> S \<le> L \<and>
    caontRSEncoding ssl c aligned shareBuffer = Inr (shares, sz) \<and> selectShares sz shares ids = sb"
proof -
  let ?w = "bytesPerSecretWord c" and ?k = "codecK c"
  obtain pkg key ct h where chk: "rsDecodeChecks c sz S = Inr ()" and inv: "invertAndMix c sb ids sz = Inr pkg"
    and key: "recoverKey ssl c pkg L = Inr key"
    and ct: "encryptOr ssl c (take L (alignedSizeConstant c)) key = Inr ct"
    and h: "hashOr ssl c (gf_multiply_region (gfObj c) (take L pkg) ct 1 True) = Inr h" "take ?w h = take ?w key"
    and res: "secret = take S (gf_multiply_region (gfObj c) (take L pkg) ct 1 True)"
    using dec by (auto simp: caontRSDecoding_def Let_def status_simps L)
  have S: "int S \<le> int (sz * ?k) - int ?w" using chk by (auto simp: rsDecodeChecks_def Let_def status_simps)
  have "int ?w \<le> int (sz * ?k)" using S by linarith
  then have wle: "?w \<le> sz * ?k" by (simp only: of_nat_le_iff)
  have iL: "int (sz * ?k) - int ?w = int L" using L wle by (simp only: of_nat_diff)
  have g: "sz mod ?w = 0" "sz * ?k \<le> erasureCodingDataSize c" "L \<le> alignedSecretBufferSize c" "?w \<le> sz * ?k"
    using chk [unfolded rsDecodeChecks_def Let_def iL] wle by (auto simp: status_simps)
  have pos: "0 < ?w" "0 < ?k" using c by (auto simp: rs_codec_def)
  obtain t where t: "sz = ?w * t" using g(1) by (auto simp: mod_eq_0_iff_dvd dvd_def)
  then have t0: "0 < t" using g(4) pos by (cases t) auto
  have A: "L + ?w = ?w * ?k * t" using L g(4) t by (simp add: algebra_simps)
  note rs = rs_sizes [OF c(1) A t0]
  have plen: "length pkg = L + ?w" using invertAndMix_inverse(1) [OF rs_good_matrix [OF c(1)] ids len inv] A t
    by (simp add: algebra_simps)
  obtain hb where hb: "hashOr ssl c (take L pkg) = Inr hb" "length hb = ?w" using hashOr_total [OF c(1)] .
  have tail: "length (slice L ?w pkg) = ?w" using plen by simp
  then have key': "key = xorBytes hb (slice L ?w pkg)" "length key = ?w"
    using key hb rs_region_xor [OF c(1), of "slice L ?w pkg" hb] by (auto simp: recoverKey_def)
  have const: "length (take L (alignedSizeConstant c)) = L" using c g(3) by (simp add: rs_codec_def)
  have lct: "length ct = L"
    using encryptOr_total [OF c(1) key'(2), of "take L (alignedSizeConstant c)"] const rs(2) ct by (metis sum.inject(2))
  let ?al = "xorBytes ct (take L pkg)"
  have reg: "gf_multiply_region (gfObj c) (take L pkg) ct 1 True = ?al"
    using rs_region_xor [OF c(1), of "take L pkg" ct] lct plen by simp
  have lal: "length ?al = L" using lct plen by simp
  have sec: "secret = take S ?al" "S \<le> L" using res S iL by (simp_all add: reg)
  have "length h = ?w" using hashOr_total [OF c(1), of ?al] h(1) by (metis reg sum.inject(2))
  then have hk: "hashOr ssl c ?al = Inr key" using h key'(2) by (simp add: reg)
  have pk: "caontPackage ssl c ?al = Inr pkg"
  proof -
    have "gf_multiply_region (gfObj c) ?al ct 1 True = take L pkg"
      using rs_region_xor [OF c(1), of ?al ct] lct plen by (simp add: xorBytes_cancel_left)
    moreover have "gf_multiply_region (gfObj c) key hb 1 True = slice L ?w pkg"
      using rs_region_xor [OF c(1), of key hb] key' hb(2) tail by (simp add: xorBytes_cancel_left)
    moreover have "take L pkg @ slice L ?w pkg = pkg" using plen by (simp add: slice_def)
    ultimately show ?thesis using hk ct hb(1) lal by (simp add: caontPackage_def Let_def)
  qed
  have aligned: "rsAlignedSize c L = L"
    using A by (simp add: rsAlignedSize_def Let_def)
  obtain shares where sh: "rsShares c pkg (?w * t) shareBuffer = Inr (shares, ?w * t)"
    "encodesBlocks c (?w * t) (blockAt (?w * t) pkg) shares"
    using rs_package_roundtrip [OF c(1) A t0 g(3) plen] cap t by metis
  have "caontRSEncoding ssl c ?al shareBuffer = Inr (shares, sz)"
    unfolding caontRSEncoding_def Let_def lal aligned rs(1)
    using g(3) pk sh(1) t lal by (simp add: padSecret_def)
  then show ?thesis
    using invertAndMix_inverse(2) [OF rs_good_matrix [OF c(1)] ids len inv] sh(2) t sec lal by blast
qed


section \<open>Encoding does not depend on the caller's buffer\<close>

lemma encodesBlocks_unique:
  assumes "encodesBlocks c sz blocks s1" "encodesBlocks c sz blocks s2"
  shows "s1 = s2"
proof -
  have "map (blockAt sz s1) [0..<codecN c] = map (blockAt sz s2) [0..<codecN c]"
    using assms by (simp add: encodesBlocks_def)
  then show ?thesis using concat_blockAt assms by (metis encodesBlocks_def)
qed

lemma rsShares_buffer:
  assumes c: "rs_codec ssl c" and A: "A + bytesPerSecretWord c = bytesPerSecretWord c * codecK c * t" "0 < t"
    and le: "A \<le> alignedSecretBufferSize c" and pkg: "length pkg = A + bytesPerSecretWord c"
    and cap: "bytesPerSecretWord c * t * codecN c \<le> length b1" "bytesPerSecretWord c * t * codecN c \<le> length b2"
  shows "rsShares c pkg (bytesPerSecretWord c * t) b1 = rsShares c pkg (bytesPerSecretWord c * t) b2"
  using rs_package_roundtrip [OF c A le pkg cap(1)] rs_package_roundtrip [OF c A le pkg cap(2)]
  by (metis encodesBlocks_unique)

lemma caont_buffer:
  assumes c: "rs_codec ssl c" "CDType c = CAONT_RS_TYPE" and L: "length secret \<le> MAX_SECRET_SIZE"
    and cap: "rsShareSize c (length secret) * codecN c \<le> length b1"
      "rsShareSize c (length secret) * codecN c \<le> length b2"
  shows "caontRSEncoding ssl c secret b1 = caontRSEncoding ssl c secret b2"
proof -
  let ?w = "bytesPerSecretWord c"
  define A where "A = rsAlignedSize c (length secret)"
  obtain t where t: "0 < t" "A + ?w = ?w * codecK c * t" and le: "length secret \<le> A" "A < length secret + ?w * codecK c"
    using rsAlignedSize_shape [OF c(1)] unfolding A_def by metis
  have fit: "A \<le> alignedSecretBufferSize c" using le L c(1) by (simp add: rs_codec_def)
  note sz = rs_sizes [OF c(1) t(2,1)]
  have ss: "rsShareSize c (length secret) = ?w * t" using sz(1) by (simp add: rsShareSize_def A_def)
  have al: "length (padSecret secret A) = A" using padSecret_props(1) [OF le(1)] .
  obtain key ct h where k: "length key = ?w" "length ct = A" "length h = ?w"
    "caontPackage ssl c (padSecret secret A) = Inr (xorBytes ct (padSecret secret A) @ xorBytes h key)"
    using caont_package [OF c, of "padSecret secret A"] al sz(2) fit by metis
  have "length (xorBytes ct (padSecret secret A) @ xorBytes h key) = A + ?w" using k al by simp
  from rsShares_buffer [OF c(1) t(2,1) fit this, of b1 b2] cap ss show ?thesis
    unfolding caontRSEncoding_def Let_def A_def [symmetric] sz(1) using k(4) fit by simp
qed

lemma aontEncodeWith_buffer:
  assumes c: "rs_codec ssl c" and L: "length secret \<le> MAX_SECRET_SIZE" and key: "length key = bytesPerSecretWord c"
    and cap: "rsShareSize c (length secret) * codecN c \<le> length b1"
      "rsShareSize c (length secret) * codecN c \<le> length b2"
  shows "aontEncodeWith ssl c key (padSecret secret (rsAlignedSize c (length secret))) b1 =
    aontEncodeWith ssl c key (padSecret secret (rsAlignedSize c (length secret))) b2"
proof -
  let ?w = "bytesPerSecretWord c"
  define A where "A = rsAlignedSize c (length secret)"
  obtain t where t: "0 < t" "A + ?w = ?w * codecK c * t" and le: "length secret \<le> A" "A < length secret + ?w * codecK c"
    using rsAlignedSize_shape [OF c(1)] unfolding A_def by metis
  have fit: "A \<le> alignedSecretBufferSize c" using le L c(1) by (simp add: rs_codec_def)
  note sz = rs_sizes [OF c(1) t(2,1)]
  have ss: "rsShareSize c (length secret) = ?w * t" using sz(1) by (simp add: rsShareSize_def A_def)
  have al: "length (padSecret secret A) = A" using padSecret_props(1) [OF le(1)] .
  then have al': "length (padSecret secret A) = ?w * (A div ?w)" using sz(4) by simp
  obtain body where b: "aontWords ssl c key (padSecret secret A) [0..<A div ?w] [] = Inr body" "length body = A"
    using aontWords_involution [OF c key al'] al by metis
  obtain h where h: "hashOr ssl c body = Inr h" "length h = ?w" using hashOr_total [OF c] .
  have "length (body @ gf_multiply_region (gfObj c) key h 1 True) = A + ?w"
    using b h key rs_region_xor [OF c, of key h] by simp
  from rsShares_buffer [OF c(1) t(2,1) fit this, of b1 b2] cap ss show ?thesis
    unfolding aontEncodeWith_def Let_def A_def [symmetric] al sz(1) using b h by simp
qed

lemma caontOld_buffer:
  assumes c: "rs_codec ssl c" and L: "length secret \<le> MAX_SECRET_SIZE"
    and cap: "rsShareSize c (length secret) * codecN c \<le> length b1"
      "rsShareSize c (length secret) * codecN c \<le> length b2"
  shows "caontRSOldEncoding ssl c secret b1 = caontRSOldEncoding ssl c secret b2"
proof -
  obtain key where "hashOr ssl c (padSecret secret (rsAlignedSize c (length secret))) = Inr key"
    "length key = bytesPerSecretWord c"
    using hashOr_total [OF c] .
  then show ?thesis
    using aontEncodeWith_buffer [OF c L _ cap, of key] rs_decode_sizes(3) [OF c L]
    by (simp add: caontRSOldEncoding_def Let_def)
qed

lemma crsss_buffer:
  assumes c: "crsss_codec ssl c" and cap: "crsssShareSize c (length secret) * codecN c \<le> length b1"
      "crsssShareSize c (length secret) * codecN c \<le> length b2"
  shows "crsssEncoding ssl c secret b1 = crsssEncoding ssl c secret b2"
proof -
  let ?w = "bytesPerSecretWord c" and ?bg = "bytesPerGroup c" and ?k = "codecK c"
  define A where "A = crsssAlignedSize c (length secret)"
  define G where "G = A div ?bg"
  have A: "A = ?bg * G" "length secret \<le> A"
    using crsssAlignedSize_shape [OF c, of "length secret"] by (simp_all add: A_def G_def)
  have sz: "crsssShareSize c (length secret) = ?w * G" by (simp add: crsssShareSize_def A_def G_def)
  have al: "length (padSecret secret A) = ?bg * G" using padSecret_props(1) [OF A(2)] A(1) by simp
  let ?blk = "\<lambda>j. concat (map (\<lambda>i. groupAll ssl c (blockAt ?bg (padSecret secret A) i) ! j) [0..<G])"
  have "length (blockAt ?bg (padSecret secret A) i) = ?bg" if "i < G" for i
    using al that by (intro length_blockAt) (simp add: block_fits)
  then have blk: "\<forall>j < ?k. length (map ?blk [0..<?k] ! j) = ?w * G"
    using groupAll_props(2) [OF c] by (auto intro!: length_concat_rows)
  have groups: "crsssGroups ssl c (padSecret secret A) [0..<G] (replicate ?k []) = Inr (map ?blk [0..<?k])"
    using crsssGroups_blocks [OF c al, of 0 "replicate ?k []"] by simp
  note m = mixAll_encodes [OF crsss_good_matrix [OF c] blk]
  have "encodesBlocks c (?w * G) ((!) (map ?blk [0..<?k])) (concat (map (\<lambda>i. mixRow (gfObj c) ?k
      (\<lambda>j. distributionMatrix c ! (?k * i + j)) ((!) (map ?blk [0..<?k])) (blockAt (?w * G) b i)) [0..<codecN c]))"
    if "b \<in> {b1, b2}" for b
    using that cap sz by (intro m) auto
  then have "concat (map (\<lambda>i. mixRow (gfObj c) ?k (\<lambda>j. distributionMatrix c ! (?k * i + j))
      ((!) (map ?blk [0..<?k])) (blockAt (?w * G) b1 i)) [0..<codecN c]) =
    concat (map (\<lambda>i. mixRow (gfObj c) ?k (\<lambda>j. distributionMatrix c ! (?k * i + j))
      ((!) (map ?blk [0..<?k])) (blockAt (?w * G) b2 i)) [0..<codecN c])"
    by (intro encodesBlocks_unique) auto
  moreover have "\<not> length b1 < ?w * G * codecN c" "\<not> length b2 < ?w * G * codecN c" using cap sz by auto
  ultimately show ?thesis
    unfolding crsssEncoding_def Let_def A_def [symmetric] G_def [symmetric] groups by simp
qed


section \<open>Properties\<close>

definition shareSizeOf :: "cdcodec \<Rightarrow> nat \<Rightarrow> nat" where
  "shareSizeOf c L = (if CDType c = CRSSS_TYPE then crsssShareSize c L else rsShareSize c L)"

lemma mkCDCodec_type:
  "mkCDCodec gf type n m r co = Inr c \<Longrightarrow> type \<in> {CRSSS_TYPE, AONT_RS_TYPE, OLD_CAONT_RS_TYPE, CAONT_RS_TYPE}"
  by (auto simp: mkCDCodec_def split: if_splits option.splits)

text \<open>
  C1. Reliability of convergent dispersal. For each of the four schemes, every accepted choice of n,
  m and r and every secret of at most 64 KB: encoding succeeds, and decoding any k = n - m distinct
  shares, in any order, returns exactly the secret.
\<close>

theorem codec_roundtrip:
  assumes "gf_laws gf" "evp_ok ssl" "mkCrypto True ctype = Inr crypto"
    and mk: "mkCDCodec gf type n m r (Some crypto) = Inr c"
    and L: "length secret \<le> MAX_SECRET_SIZE"
    and cap: "shareSizeOf c (length secret) * codecN c \<le> length shareBuffer"
  shows "\<exists>shares. encoding ssl rnd c secret shareBuffer = Inr (shares, shareSizeOf c (length secret)) \<and>
    (\<forall>ids. length ids = codecK c \<and> distinct ids \<and> (\<forall>i \<in> set ids. i < codecN c) \<longrightarrow>
      decoding ssl c (selectShares (shareSizeOf c (length secret)) shares ids) ids
        (shareSizeOf c (length secret)) (length secret) = Inr secret)"
proof -
  have v: "crypto_valid ssl crypto" using assms by (auto simp: crypto_valid_def)
  show ?thesis
  proof (cases "type = CRSSS_TYPE")
    case True
    then have c: "crsss_codec ssl c" "CDType c = CRSSS_TYPE" using mkCDCodec_crsss assms v by auto
    obtain shares where "crsssEncoding ssl c secret shareBuffer = Inr (shares, crsssShareSize c (length secret))"
      "\<forall>ids. good_ids c ids \<longrightarrow> crsssDecoding ssl c (selectShares (crsssShareSize c (length secret)) shares ids) ids
         (crsssShareSize c (length secret)) (length secret) = Inr secret"
      using crsss_roundtrip [OF c(1) L, of shareBuffer] cap c(2) by (auto simp: shareSizeOf_def)
    then show ?thesis using c(2) by (auto simp: encoding_def decoding_def shareSizeOf_def good_ids_def)
  next
    case False
    then have c: "rs_codec ssl c" "CDType c = type" using mkCDCodec_rs [OF mk _ v] assms by auto
    then have cap': "rsShareSize c (length secret) * codecN c \<le> length shareBuffer"
      and sz: "shareSizeOf c (length secret) = rsShareSize c (length secret)"
      using cap False by (auto simp: shareSizeOf_def)
    consider "type = AONT_RS_TYPE" | "type = OLD_CAONT_RS_TYPE" | "type = CAONT_RS_TYPE"
      using mkCDCodec_type [OF mk] False by auto
    then show ?thesis
    proof cases
      case 1
      show ?thesis unfolding sz
        by (rule aontRS_roundtrip [OF c(1) L cap', of rnd])
          (use 1 c(2) in \<open>auto simp: encoding_def decoding_def codec_types good_ids_def\<close>)
    next
      case 2
      show ?thesis unfolding sz
        by (rule caontRSOld_roundtrip [OF c(1) L cap'])
          (use 2 c(2) in \<open>auto simp: encoding_def decoding_def codec_types good_ids_def\<close>)
    next
      case 3
      then have t: "CDType c = CAONT_RS_TYPE" using c(2) by simp
      show ?thesis unfolding sz
        by (rule caont_roundtrip [OF c(1) t L cap'])
          (use t in \<open>auto simp: encoding_def decoding_def codec_types good_ids_def\<close>)
    qed
  qed
qed

text \<open>
  C18. Convergence, the premise of deduplication. With every scheme but AONT-RS the shares are a
  function of the secret alone: they depend neither on the random source nor on what the caller's
  share buffer held before.
\<close>

theorem encoding_convergent:
  assumes "gf_laws gf" "evp_ok ssl" "mkCrypto True ctype = Inr crypto"
    and mk: "mkCDCodec gf type n m r (Some crypto) = Inr c" and type: "type \<noteq> AONT_RS_TYPE"
    and L: "length secret \<le> MAX_SECRET_SIZE"
    and cap: "shareSizeOf c (length secret) * codecN c \<le> length b1"
      "shareSizeOf c (length secret) * codecN c \<le> length b2"
  shows "encoding ssl rnd c secret b1 = encoding ssl rnd' c secret b2"
proof -
  have v: "crypto_valid ssl crypto" using assms by (auto simp: crypto_valid_def)
  show ?thesis
  proof (cases "type = CRSSS_TYPE")
    case True
    then have c: "crsss_codec ssl c" "CDType c = CRSSS_TYPE" using mkCDCodec_crsss assms v by auto
    then show ?thesis
      using crsss_buffer [OF c(1), of secret b1 b2] cap by (simp add: encoding_def shareSizeOf_def)
  next
    case False
    then have c: "rs_codec ssl c" "CDType c = type" using mkCDCodec_rs [OF mk _ v] assms by auto
    then have cap': "rsShareSize c (length secret) * codecN c \<le> length b1"
      "rsShareSize c (length secret) * codecN c \<le> length b2"
      using cap False by (auto simp: shareSizeOf_def)
    have "type = OLD_CAONT_RS_TYPE \<or> type = CAONT_RS_TYPE"
      using mkCDCodec_type [OF mk] False type by auto
    then show ?thesis
      using caont_buffer [OF c(1) _ L cap'] caontOld_buffer [OF c(1) L cap'] c(2)
      by (auto simp: encoding_def codec_types)
  qed
qed

text \<open>
  C4. Integrity of CAONT-RS. Whenever decoding k share buffers succeeds, for whatever size of the secret, these buffers
  are genuine shares: there is an aligned secret, of k shares less one word, that encodes to them byte for byte, and the returned
  secret is its beginning of the given size. For the full size the returned secret is itself the encoded one. What
  follows the given size is not tested to be the zeros with which the encoder pads.
\<close>

theorem caont_decoding_sound:
  assumes "gf_laws gf" "evp_ok ssl" "mkCrypto True ctype = Inr crypto"
    and mk: "mkCDCodec gf CAONT_RS_TYPE n m r (Some crypto) = Inr c"
    and ids: "length ids = codecK c" "distinct ids" "\<forall>i \<in> set ids. i < codecN c"
    and len: "length sb = sz * codecK c"
    and dec: "decoding ssl c sb ids sz secretSize = Inr secret"
    and cap: "sz * codecN c \<le> length shareBuffer"
  shows "\<exists>aligned shares. length aligned = sz * codecK c - bytesPerSecretWord c \<and> secretSize \<le> length aligned \<and> secret = take secretSize aligned \<and>
    encoding ssl rnd c aligned shareBuffer = Inr (shares, sz) \<and> selectShares sz shares ids = sb"
proof -
  have v: "crypto_valid ssl crypto" using assms by (auto simp: crypto_valid_def)
  have c: "rs_codec ssl c" "CDType c = CAONT_RS_TYPE"
    using mkCDCodec_rs [OF mk assms(1) v] by (simp_all add: codec_types)
  have good: "good_ids c ids" using ids by (simp add: good_ids_def)
  show ?thesis
    using caont_decode_sound [OF c good len refl _ cap, of secretSize secret] dec c(2)
    by (auto simp: encoding_def decoding_def codec_types)
qed


text \<open>The codec of the client's configuration (n = 4, m = 1, r = 2), for the witnesses.\<close>

definition confCodec :: cdcodec where
  "confCodec = (case mkCDCodec gf256 CAONT_RS_TYPE 4 1 2 (Some highCrypto) of Inr c \<Rightarrow> c | Inl _ \<Rightarrow> undefined)"

lemma gfOverflows_conf: "\<not> gfOverflows (Suc 0) (Suc 0) 3"
  by code_simp

lemma confCodec_made: "mkCDCodec gf256 CAONT_RS_TYPE 4 1 2 (Some highCrypto) = Inr confCodec"
  by (simp add: confCodec_def mkCDCodec_def codec_types highCrypto_def getHashSize_def getKeySize_def Let_def
      gfOverflows_conf)

lemma confCodec_sel: "CDType confCodec = CAONT_RS_TYPE" "codecN confCodec = 4" "codecK confCodec = 3"
  "bytesPerSecretWord confCodec = 32"
  by (simp_all add: confCodec_def mkCDCodec_def codec_types highCrypto_def getHashSize_def getKeySize_def Let_def
      gfOverflows_conf)

lemma confCodec_share: "shareSizeOf confCodec 64 = 32"
  by (simp add: shareSizeOf_def rsShareSize_def rsAlignedSize_def confCodec_sel codec_types Let_def)

theorem codec_roundtrip_witness:
  "\<exists>shares. encoding toySSL (\<lambda>_. 0) confCodec (replicate 64 7) (replicate 128 0) = Inr (shares, 32) \<and>
     decoding toySSL confCodec (selectShares 32 shares [3, 0, 2]) [3, 0, 2] 32 64 = Inr (replicate 64 7)"
proof -
  have "length (replicate 64 7 :: bytes) \<le> MAX_SECRET_SIZE" by (simp add: MAX_SECRET_SIZE_def)
  from codec_roundtrip [OF gf256_laws toySSL_ok highCrypto_made confCodec_made this, of "replicate 128 0" "\<lambda>_. 0"]
  obtain shares where "encoding toySSL (\<lambda>_. 0) confCodec (replicate 64 7) (replicate 128 0) = Inr (shares, 32)"
    and all: "\<forall>ids. length ids = 3 \<and> distinct ids \<and> (\<forall>i \<in> set ids. i < 4) \<longrightarrow>
      decoding toySSL confCodec (selectShares 32 shares ids) ids 32 64 = Inr (replicate 64 7)"
    by (auto simp: confCodec_sel confCodec_share)
  then show ?thesis using all [rule_format, of "[3, 0, 2]"] by auto
qed

theorem encoding_convergent_witness:
  "encoding toySSL (\<lambda>_. 0) confCodec (replicate 64 7) (replicate 128 0) =
   encoding toySSL (\<lambda>i. of_nat i) confCodec (replicate 64 7) (replicate 128 9)"
  by (rule encoding_convergent [OF gf256_laws toySSL_ok highCrypto_made confCodec_made])
    (simp_all add: codec_types MAX_SECRET_SIZE_def confCodec_sel confCodec_share)

theorem caont_decoding_sound_witness:
  "\<exists>sb secret aligned shares. decoding toySSL confCodec sb [3, 0, 2] 32 60 = Inr secret \<and> secret = take 60 aligned \<and> length aligned = 64 \<and>
     encoding toySSL (\<lambda>_. 0) confCodec aligned (replicate 128 0) = Inr (shares, 32) \<and> selectShares 32 shares [3, 0, 2] = sb"
proof -
  let ?secret = "replicate 60 (7 :: byte)"
  have c: "rs_codec toySSL confCodec" "CDType confCodec = CAONT_RS_TYPE"
    using mkCDCodec_rs [OF confCodec_made gf256_laws, of toySSL] toySSL_ok highCrypto_made
    by (auto simp: crypto_valid_def codec_types)
  have sz: "rsShareSize confCodec (length ?secret) = 32"
    by (simp add: rsShareSize_def rsAlignedSize_def confCodec_sel Let_def)
  obtain shares where sh: "caontRSEncoding toySSL confCodec ?secret (replicate 128 0) = Inr (shares, 32)"
    "\<forall>ids. good_ids confCodec ids \<longrightarrow>
      caontRSDecoding toySSL confCodec (selectShares 32 shares ids) ids 32 (length ?secret) = Inr ?secret"
    using caont_roundtrip [OF c, of ?secret "replicate 128 0"] sz
    by (auto simp: MAX_SECRET_SIZE_def confCodec_sel)
  let ?sb = "selectShares 32 shares [3, 0, 2]"
  have dec: "decoding toySSL confCodec ?sb [3, 0, 2] 32 60 = Inr ?secret"
    using sh(2) by (simp add: decoding_def confCodec_sel codec_types good_ids_def)
  then have len: "length ?sb = 32 * codecK confCodec"
    by (auto simp: decoding_def caontRSDecoding_def invertAndMix_def Let_def status_simps confCodec_sel codec_types
        selectShares_def blockAt_def split: if_splits)
  obtain aligned shares' where "length aligned = 64" "?secret = take 60 aligned"
    "encoding toySSL (\<lambda>_. 0) confCodec aligned (replicate 128 0) = Inr (shares', 32)" "selectShares 32 shares' [3, 0, 2] = ?sb"
    using caont_decoding_sound [OF gf256_laws toySSL_ok highCrypto_made confCodec_made _ _ _ len dec, of "replicate 128 0" "\<lambda>_. 0"]
    by (auto simp: confCodec_sel)
  then show ?thesis using dec by blast
qed

end
