(* ===== verification/RingQueue.thy ===== *)
theory RingQueue
  imports Prelude
begin

text \<open>
  The ring buffer that connects the client's threads (client/utils/BasicRingBuffer.hh). The
  critical sections of Insert and Extract refine a bounded FIFO queue (locale \<open>bounded_fifo\<close>), and
  a step relation models one producer and one consumer, with the condition variables and their
  wake-ups.
\<close>

section \<open>The buffer\<close>

text \<open>A slot holds the recorded length and the raw memory of a T object.\<close>

record ringBuffer =
  slots :: "(nat \<times> bytes) list"
  readIndex :: nat
  writeIndex :: nat
  count :: int
  capacity :: nat
  running :: bool
  blockOnEmpty :: bool

definition mkRing :: "int \<Rightarrow> bool \<Rightarrow> bytes \<Rightarrow> ringBuffer" where
  "mkRing sz block fresh =
     (let n = nat (if sz < 2 then 2 else sz) in
      \<lparr> slots = replicate n (0, fresh), readIndex = 0, writeIndex = 0, count = 0, capacity = n,
        running = True, blockOnEmpty = block \<rparr>)"

definition nextVal :: "ringBuffer \<Rightarrow> nat \<Rightarrow> nat" where
  "nextVal r x = (if x + 1 \<ge> capacity r then 0 else x + 1)"

text \<open>The part of Insert after the wait, and the part of Extract after the wait.\<close>

definition insertSlot :: "bytes \<Rightarrow> nat \<Rightarrow> ringBuffer \<Rightarrow> ringBuffer" where
  "insertSlot data len r =
     (let old = snd (slots r ! writeIndex r) in
      r \<lparr> slots := (slots r)[writeIndex r := (len, take len data @ drop len old)],
          writeIndex := nextVal r (writeIndex r), count := count r + 1 \<rparr>)"

definition extractSlot :: "bytes \<Rightarrow> ringBuffer \<Rightarrow> bytes \<times> ringBuffer" where
  "extractSlot dest r =
     (let (len, mem) = slots r ! readIndex r in
      (take len mem @ drop len dest,
       r \<lparr> readIndex := nextVal r (readIndex r), count := count r - 1 \<rparr>))"

definition stopWhenEmptied :: "ringBuffer \<Rightarrow> ringBuffer" where
  "stopWhenEmptied r = r \<lparr> running := False \<rparr>"

section \<open>The queue contract\<close>

locale bounded_fifo =
  fixes inv :: "'s \<Rightarrow> bool"
    and room :: "'s \<Rightarrow> nat"
    and fits :: "'s \<Rightarrow> 'e \<Rightarrow> bool"
    and content :: "'s \<Rightarrow> 'e list"
    and enq :: "'e \<Rightarrow> 's \<Rightarrow> 's"
    and deq :: "'s \<Rightarrow> 'e \<times> 's"
  assumes enq_law: "inv s \<Longrightarrow> fits s e \<Longrightarrow> length (content s) < room s \<Longrightarrow>
      inv (enq e s) \<and> content (enq e s) = content s @ [e] \<and> room (enq e s) = room s \<and> fits (enq e s) = fits s"
    and deq_law: "inv s \<Longrightarrow> content s = e # q \<Longrightarrow>
      fst (deq s) = e \<and> inv (snd (deq s)) \<and> content (snd (deq s)) = q \<and> room (snd (deq s)) = room s \<and>
      fits (snd (deq s)) = fits s"
begin

lemma enqs_content:
  assumes "inv s" "\<forall>e \<in> set es. fits s e" "length (content s) + length es \<le> room s"
  shows "inv (fold enq es s) \<and> content (fold enq es s) = content s @ es"
  using assms
proof (induction es arbitrary: s)
  case (Cons e es)
  then have "inv (enq e s) \<and> content (enq e s) = content s @ [e] \<and> room (enq e s) = room s \<and> fits (enq e s) = fits s"
    by (intro enq_law) auto
  then show ?case using Cons.IH [of "enq e s"] Cons.prems by simp
qed simp

end

section \<open>The ring refines the queue\<close>

definition ring_inv :: "ringBuffer \<Rightarrow> bool" where
  "ring_inv r \<longleftrightarrow> 2 \<le> capacity r \<and> length (slots r) = capacity r \<and> readIndex r < capacity r \<and>
     0 \<le> count r \<and> count r \<le> int (capacity r) \<and>
     writeIndex r = (readIndex r + nat (count r)) mod capacity r \<and>
     (\<exists>sz. \<forall>x \<in> set (slots r). fst x \<le> sz \<and> length (snd x) = sz)"

definition slotSize :: "ringBuffer \<Rightarrow> nat" where
  "slotSize r = length (snd (hd (slots r)))"

definition elem :: "nat \<times> bytes \<Rightarrow> bytes" where
  "elem slot = take (fst slot) (snd slot)"

definition ring_content :: "ringBuffer \<Rightarrow> bytes list" where
  "ring_content r = map (\<lambda>i. elem (slots r ! ((readIndex r + i) mod capacity r))) [0..<nat (count r)]"

definition ring_enq :: "bytes \<Rightarrow> ringBuffer \<Rightarrow> ringBuffer" where
  "ring_enq e r = insertSlot e (length e) r"

definition ring_deq :: "ringBuffer \<Rightarrow> bytes \<times> ringBuffer" where
  "ring_deq r = extractSlot [] r"

lemma nextVal_mod: "x < capacity r \<Longrightarrow> nextVal r x = (x + 1) mod capacity r"
  by (cases "Suc x = capacity r") (auto simp: nextVal_def)

lemma length_ring_content [simp]: "length (ring_content r) = nat (count r)"
  by (simp add: ring_content_def)

lemma slot_sizes:
  assumes "ring_inv r" "x < capacity r"
  shows "fst (slots r ! x) \<le> slotSize r" "length (snd (slots r ! x)) = slotSize r"
proof -
  obtain sz where sz: "\<forall>x \<in> set (slots r). fst x \<le> sz \<and> length (snd x) = sz"
    using assms(1) by (auto simp: ring_inv_def)
  have "slots r \<noteq> []" using assms by (auto simp: ring_inv_def)
  then have "slots r ! x \<in> set (slots r)" "hd (slots r) \<in> set (slots r)"
    using assms by (auto simp: ring_inv_def)
  then show "fst (slots r ! x) \<le> slotSize r" "length (snd (slots r ! x)) = slotSize r"
    using sz by (auto simp: slotSize_def split: prod.splits)
qed

lemma slot_ne:
  assumes "r < n" "i < k" "k < n"
  shows "(r + i) mod n \<noteq> (r + k) mod (n :: nat)"
proof
  assume eq: "(r + i) mod n = (r + k) mod n"
  then have "n dvd (r + k) - (r + i)" using assms by (intro mod_eq_dvd_iff_nat [THEN iffD1]) auto
  then have "n dvd k - i" by simp
  then show False using assms by (auto dest: dvd_imp_le)
qed

interpretation ringq: bounded_fifo ring_inv capacity "\<lambda>r e. length e \<le> slotSize r" ring_content ring_enq ring_deq
proof (unfold_locales, goal_cases)
  case (1 s e)
  let ?n = "capacity s" and ?k = "nat (count s)"
  have inv: "2 \<le> ?n" "length (slots s) = ?n" "readIndex s < ?n" "0 \<le> count s"
    "writeIndex s = (readIndex s + ?k) mod ?n" using 1 by (auto simp: ring_inv_def)
  have k: "?k < ?n" using 1 by simp
  have w: "writeIndex s < ?n" using inv by simp
  let ?old = "snd (slots s ! writeIndex s)"
  let ?new = "(length e, take (length e) e @ drop (length e) ?old)"
  let ?r = "ring_enq e s"
  have slot: "length (snd ?new) = slotSize s" using slot_sizes(2) [OF 1(1) w] 1(2) by simp
  have r: "slots ?r = (slots s)[writeIndex s := ?new]" "readIndex ?r = readIndex s" "capacity ?r = ?n"
    "count ?r = count s + 1" "writeIndex ?r = (writeIndex s + 1) mod ?n"
    using nextVal_mod [OF w] by (simp_all add: ring_enq_def insertSlot_def Let_def)
  have cnt: "nat (count ?r) = Suc ?k" using inv r by simp
  have size: "\<forall>x \<in> set (slots ?r). fst x \<le> slotSize s \<and> length (snd x) = slotSize s"
  proof -
    have "fst x \<le> slotSize s \<and> length (snd x) = slotSize s" if "x \<in> set (slots s)" for x
      using that slot_sizes [OF 1(1)] inv(2) by (metis in_set_conv_nth)
    then show ?thesis
      using slot 1(2) set_update_subset_insert [of "slots s" "writeIndex s" ?new] unfolding r(1) by fastforce
  qed
  have "writeIndex ?r = (readIndex ?r + nat (count ?r)) mod capacity ?r"
    using r cnt inv(5) by (simp add: mod_Suc_eq)
  then have "ring_inv ?r" using inv r k size by (auto simp: ring_inv_def)
  moreover have "slotSize ?r = slotSize s"
  proof -
    have "hd (slots ?r) \<in> set (slots ?r)" using r inv by (intro hd_in_set) auto
    then show ?thesis using size by (auto simp: slotSize_def split: prod.splits)
  qed
  moreover have "ring_content ?r = ring_content s @ [e]"
  proof -
    have "slots ?r ! ((readIndex s + i) mod ?n) = slots s ! ((readIndex s + i) mod ?n)" if "i < ?k" for i
      using slot_ne [OF inv(3) that k] inv(5) by (simp add: r)
    moreover have "slots ?r ! ((readIndex s + ?k) mod ?n) = ?new"
      using inv w by (simp add: r)
    ultimately show ?thesis
      by (simp add: ring_content_def r(2,3) cnt elem_def)
  qed
  ultimately show ?case using r by simp
next
  case (2 s e q)
  let ?n = "capacity s" and ?r = "snd (ring_deq s)"
  have inv: "2 \<le> ?n" "readIndex s < ?n" "0 \<le> count s" "length (slots s) = ?n"
    "writeIndex s = (readIndex s + nat (count s)) mod ?n" using 2 by (auto simp: ring_inv_def)
  have pos: "nat (count s) = Suc (length q)" using 2(2) length_ring_content [of s] by simp
  obtain len mem where sl: "slots s ! readIndex s = (len, mem)" by force
  have r: "slots ?r = slots s" "readIndex ?r = (readIndex s + 1) mod ?n" "capacity ?r = ?n"
    "count ?r = count s - 1" "writeIndex ?r = writeIndex s"
    using nextVal_mod [OF inv(2)] by (simp_all add: ring_deq_def extractSlot_def sl)
  have cnt: "nat (count ?r) = length q" using pos r by simp
  have shift: "((readIndex s + 1) mod ?n + i) mod ?n = (readIndex s + Suc i) mod ?n" for i
    by (simp add: mod_add_left_eq)
  have c: "ring_content s = elem (slots s ! (readIndex s mod ?n)) #
      map (\<lambda>i. elem (slots s ! ((readIndex s + Suc i) mod ?n))) [0..<length q]"
    unfolding ring_content_def pos by (simp add: map_Suc_upt [symmetric] upt_conv_Cons del: upt_Suc)
  then have "e = elem (slots s ! readIndex s)" "ring_content ?r = q"
    using 2(2) inv(2) r cnt shift by (auto simp: ring_content_def)
  moreover have "fst (ring_deq s) = elem (slots s ! readIndex s)"
    by (simp add: ring_deq_def extractSlot_def sl elem_def)
  moreover have "ring_inv ?r"
  proof -
    have "writeIndex ?r = (readIndex ?r + nat (count ?r)) mod capacity ?r"
      using r cnt inv(5) pos shift [of "length q"] by simp
    moreover have "\<exists>sz. \<forall>x \<in> set (slots ?r). fst x \<le> sz \<and> length (snd x) = sz"
      using 2(1) r by (simp add: ring_inv_def)
    ultimately show ?thesis using 2(1) inv r pos by (simp add: ring_inv_def)
  qed
  ultimately show ?case using r by (simp add: slotSize_def)
qed


section \<open>Producer and consumer\<close>

text \<open>
  A thread is outside the buffer, blocked in pthread_cond_wait, or woken up. A woken thread holds
  the mutex again and goes on without testing the count once more: the source guards both waits
  with \<open>if\<close>, not with \<open>while\<close>. The lists \<open>sent\<close> and \<open>received\<close> record the history.
\<close>

datatype producer = PRun | PWait bytes | PWoken bytes
datatype consumer = CRun | CWait | CWoken

record ringSys =
  rbuf :: ringBuffer
  pstate :: producer
  cstate :: consumer
  sent :: "bytes list"
  received :: "bytes list"

fun signalFull :: "producer \<Rightarrow> producer" where
  "signalFull (PWait e) = PWoken e"
| "signalFull p = p"

fun signalEmpty :: "consumer \<Rightarrow> consumer" where
  "signalEmpty CWait = CWoken"
| "signalEmpty c = c"

definition doInsert :: "bytes \<Rightarrow> ringSys \<Rightarrow> ringSys" where
  "doInsert e s = s \<lparr> rbuf := ring_enq e (rbuf s), pstate := PRun, cstate := signalEmpty (cstate s),
     sent := sent s @ [e] \<rparr>"

definition doExtract :: "ringSys \<Rightarrow> ringSys" where
  "doExtract s = s \<lparr> rbuf := snd (ring_deq (rbuf s)), cstate := CRun, pstate := signalFull (pstate s),
     received := received s @ [fst (ring_deq (rbuf s))] \<rparr>"

text \<open>
  One step per critical section. With \<open>spurious\<close> a blocked thread may also return from
  pthread_cond_wait without a signal, as POSIX allows.
\<close>

inductive ring_step :: "bool \<Rightarrow> ringSys \<Rightarrow> ringSys \<Rightarrow> bool" for spurious :: bool where
  insert_now: "pstate s = PRun \<Longrightarrow> count (rbuf s) \<noteq> int (capacity (rbuf s)) \<Longrightarrow> length e \<le> slotSize (rbuf s) \<Longrightarrow>
    ring_step spurious s (doInsert e s)"
| insert_wait: "pstate s = PRun \<Longrightarrow> count (rbuf s) = int (capacity (rbuf s)) \<Longrightarrow> length e \<le> slotSize (rbuf s) \<Longrightarrow>
    ring_step spurious s (s \<lparr> pstate := PWait e \<rparr>)"
| insert_resume: "pstate s = PWoken e \<Longrightarrow> ring_step spurious s (doInsert e s)"
| extract_now: "cstate s = CRun \<Longrightarrow> count (rbuf s) \<noteq> 0 \<Longrightarrow> ring_step spurious s (doExtract s)"
| extract_wait: "cstate s = CRun \<Longrightarrow> count (rbuf s) = 0 \<Longrightarrow> blockOnEmpty (rbuf s) \<Longrightarrow>
    ring_step spurious s (s \<lparr> cstate := CWait \<rparr>)"
| extract_none: "cstate s = CRun \<Longrightarrow> count (rbuf s) = 0 \<Longrightarrow> \<not> blockOnEmpty (rbuf s) \<Longrightarrow>
    ring_step spurious s (s \<lparr> pstate := signalFull (pstate s) \<rparr>)"
| extract_resume: "cstate s = CWoken \<Longrightarrow> ring_step spurious s (doExtract s)"
| wake_producer: "spurious \<Longrightarrow> pstate s = PWait e \<Longrightarrow> ring_step spurious s (s \<lparr> pstate := PWoken e \<rparr>)"
| wake_consumer: "spurious \<Longrightarrow> cstate s = CWait \<Longrightarrow> ring_step spurious s (s \<lparr> cstate := CWoken \<rparr>)"

inductive_cases ring_stepE: "ring_step spurious s s'"

definition ringStart :: "int \<Rightarrow> bool \<Rightarrow> bytes \<Rightarrow> ringSys" where
  "ringStart sz block fresh =
     \<lparr> rbuf = mkRing sz block fresh, pstate = PRun, cstate = CRun, sent = [], received = [] \<rparr>"

definition ringReach :: "bool \<Rightarrow> int \<Rightarrow> bool \<Rightarrow> bytes \<Rightarrow> ringSys \<Rightarrow> bool" where
  "ringReach spurious sz block fresh s \<longleftrightarrow> (ring_step spurious)\<^sup>*\<^sup>* (ringStart sz block fresh) s"

text \<open>
  The invariant: the buffer holds exactly what was sent and not yet received; a woken producer
  finds room, a woken consumer finds an element, and a blocked thread fits its reason.
\<close>

definition sys_inv :: "ringSys \<Rightarrow> bool" where
  "sys_inv s \<longleftrightarrow> ring_inv (rbuf s) \<and> sent s = received s @ ring_content (rbuf s) \<and>
     (case pstate s of
        PRun \<Rightarrow> True
      | PWait e \<Rightarrow> length e \<le> slotSize (rbuf s) \<and> count (rbuf s) = int (capacity (rbuf s))
      | PWoken e \<Rightarrow> length e \<le> slotSize (rbuf s) \<and> count (rbuf s) < int (capacity (rbuf s))) \<and>
     (case cstate s of
        CRun \<Rightarrow> True
      | CWait \<Rightarrow> count (rbuf s) = 0
      | CWoken \<Rightarrow> 0 < count (rbuf s))"

lemma ring_deq_slots: "slots (snd (ring_deq r)) = slots r"
  by (simp add: ring_deq_def extractSlot_def split: prod.split)

lemma sys_inv_insert:
  assumes inv: "sys_inv s" and fits: "length e \<le> slotSize (rbuf s)" and room: "count (rbuf s) < int (capacity (rbuf s))"
  shows "sys_inv (doInsert e s)"
proof -
  have r: "ring_inv (rbuf s)" using inv by (simp add: sys_inv_def)
  then have "length (ring_content (rbuf s)) < capacity (rbuf s)" using room by (auto simp: ring_inv_def)
  from ringq.enq_law [OF r fits this]
  have e: "ring_inv (ring_enq e (rbuf s))" "ring_content (ring_enq e (rbuf s)) = ring_content (rbuf s) @ [e]" by auto
  have cnt: "count (ring_enq e (rbuf s)) = count (rbuf s) + 1"
    by (simp add: ring_enq_def insertSlot_def Let_def)
  have "0 \<le> count (rbuf s)" using r by (simp add: ring_inv_def)
  then show ?thesis using inv e cnt
    by (cases "cstate s") (auto simp: sys_inv_def doInsert_def)
qed

lemma sys_inv_extract:
  assumes inv: "sys_inv s" and ne: "0 < count (rbuf s)"
  shows "sys_inv (doExtract s)"
proof -
  have r: "ring_inv (rbuf s)" using inv by (simp add: sys_inv_def)
  have "ring_content (rbuf s) \<noteq> []" using ne by (metis length_ring_content list.size(3) zero_less_nat_eq less_numeral_extra(3))
  then obtain e q where c: "ring_content (rbuf s) = e # q" by (cases "ring_content (rbuf s)") auto
  from ringq.deq_law [OF r c]
  have d: "fst (ring_deq (rbuf s)) = e" "ring_inv (snd (ring_deq (rbuf s)))" "ring_content (snd (ring_deq (rbuf s))) = q"
    "capacity (snd (ring_deq (rbuf s))) = capacity (rbuf s)"
    "slotSize (snd (ring_deq (rbuf s))) = slotSize (rbuf s)"
    by (auto simp: slotSize_def ring_deq_slots)
  have cnt: "count (snd (ring_deq (rbuf s))) = count (rbuf s) - 1"
    by (simp add: ring_deq_def extractSlot_def split: prod.split)
  have "count (rbuf s) \<le> int (capacity (rbuf s))" using r by (simp add: ring_inv_def)
  then show ?thesis using inv d c cnt
    by (cases "pstate s") (auto simp: sys_inv_def doExtract_def)
qed

lemma sys_inv_step: "ring_step False s s' \<Longrightarrow> sys_inv s \<Longrightarrow> sys_inv s'"
proof (erule ring_stepE, goal_cases)
  case (1 e)
  then have "count (rbuf s) < int (capacity (rbuf s))" by (auto simp: sys_inv_def ring_inv_def)
  then show ?case using 1 sys_inv_insert by blast
next
  case (2 e)
  then show ?case by (cases "cstate s") (auto simp: sys_inv_def)
next
  case (3 e)
  then have "length e \<le> slotSize (rbuf s)" "count (rbuf s) < int (capacity (rbuf s))"
    by (auto simp: sys_inv_def)
  then show ?case using 3 sys_inv_insert by blast
next
  case 4
  then have "0 < count (rbuf s)" by (auto simp: sys_inv_def ring_inv_def)
  then show ?case using 4 sys_inv_extract by blast
next
  case 5
  then show ?case by (cases "pstate s") (auto simp: sys_inv_def)
next
  case 6
  then show ?case by (cases "pstate s") (auto simp: sys_inv_def ring_inv_def)
next
  case 7
  then have "0 < count (rbuf s)" by (auto simp: sys_inv_def)
  then show ?case using 7 sys_inv_extract by blast
qed simp_all

lemma sys_inv_start: "sys_inv (ringStart sz block fresh)"
  by (auto simp: sys_inv_def ringStart_def mkRing_def ring_inv_def ring_content_def Let_def)

lemma sys_inv_reach: "ringReach False sz block fresh s \<Longrightarrow> sys_inv s"
  unfolding ringReach_def
proof (induction rule: rtranclp_induct)
  case base
  then show ?case by (rule sys_inv_start)
next
  case (step y z)
  then show ?case using sys_inv_step by blast
qed

section \<open>Properties\<close>

text \<open>
  C12. With one producer and one consumer and no spurious wake-up, the buffer is a FIFO channel in
  every reachable state: what was received is a prefix of what was sent, in order and unmodified,
  the rest is in the buffer, and the count never leaves the range from 0 to the capacity.
\<close>

theorem ring_is_fifo:
  assumes "ringReach False sz block fresh s"
  shows "sent s = received s @ ring_content (rbuf s) \<and> 0 \<le> count (rbuf s) \<and>
    count (rbuf s) \<le> int (capacity (rbuf s))"
  using sys_inv_reach [OF assms] by (auto simp: sys_inv_def ring_inv_def)

text \<open>
  C13. A blocked thread is never stranded without spurious wake-ups: producer and consumer are not
  both asleep, so some critical section can always run.
\<close>

theorem ring_no_deadlock:
  assumes "ringReach False sz block fresh s"
  shows "\<exists>s'. ring_step False s s'"
proof -
  have inv: "sys_inv s" by (rule sys_inv_reach [OF assms])
  show ?thesis
  proof (cases "cstate s")
    case CRun
    then show ?thesis
      by (cases "count (rbuf s) = 0"; cases "blockOnEmpty (rbuf s)")
        (blast intro: ring_step.intros)+
  next
    case CWoken
    then show ?thesis by (blast intro: ring_step.intros)
  next
    case CWait
    then have zero: "count (rbuf s) = 0" "0 < capacity (rbuf s)" using inv by (auto simp: sys_inv_def ring_inv_def)
    show ?thesis
    proof (cases "pstate s")
      case PRun
      have "length ([] :: bytes) \<le> slotSize (rbuf s)" by simp
      then show ?thesis using insert_now [OF PRun, of "[]" False] zero by auto
    next
      case (PWait e)
      then show ?thesis using inv zero by (auto simp: sys_inv_def)
    next
      case (PWoken e)
      then show ?thesis by (blast intro: ring_step.intros)
    qed
  qed
qed

text \<open>
  C25. The waits are not protected against spurious wake-ups, which POSIX permits: with them, a
  buffer of capacity 2 can reach a state that counts three elements and has overwritten one that
  was never received.
\<close>

theorem spurious_wakeup_overflows:
  "\<exists>s. ringReach True 2 True [0] s \<and> count (rbuf s) = 3 \<and> capacity (rbuf s) = 2 \<and>
     received s = [] \<and> sent s = [[1], [2], [3]] \<and> [1] \<notin> set (map elem (slots (rbuf s)))"
proof -
  let ?s0 = "ringStart 2 True [0]"
  let ?s1 = "doInsert [1] ?s0" let ?s2 = "doInsert [2] ?s1"
  let ?s3 = "?s2 \<lparr> pstate := PWait [3] \<rparr>" let ?s4 = "?s3 \<lparr> pstate := PWoken [3] \<rparr>"
  let ?s5 = "doInsert [3] ?s4"
  note defs = ringStart_def mkRing_def doInsert_def ring_enq_def insertSlot_def Let_def slotSize_def nextVal_def
    eval_nat_numeral
  have "ring_step True ?s0 ?s1" by (rule insert_now) (simp_all add: defs)
  moreover have "ring_step True ?s1 ?s2" by (rule insert_now) (simp_all add: defs)
  moreover have "ring_step True ?s2 ?s3" by (rule insert_wait) (simp_all add: defs)
  moreover have "ring_step True ?s3 ?s4" by (rule wake_producer) simp_all
  moreover have "ring_step True ?s4 ?s5" by (rule insert_resume) simp
  ultimately have "ringReach True 2 True [0] ?s5"
    unfolding ringReach_def by (meson rtranclp.rtrancl_into_rtrancl rtranclp.rtrancl_refl)
  moreover have "count (rbuf ?s5) = 3 \<and> capacity (rbuf ?s5) = 2 \<and> received ?s5 = [] \<and>
      sent ?s5 = [[1], [2], [3]] \<and> [1] \<notin> set (map elem (slots (rbuf ?s5)))"
    by (simp add: defs elem_def)
  ultimately show ?thesis by blast
qed

definition ringDemo :: ringSys where
  "ringDemo = doExtract (doInsert [5, 6] (ringStart 4 True [0, 0]))"

lemma ringDemo_reach: "ringReach False 4 True [0, 0] ringDemo"
proof -
  have "ring_step False (ringStart 4 True [0, 0]) (doInsert [5, 6] (ringStart 4 True [0, 0]))"
    by (rule insert_now) (simp_all add: ringStart_def mkRing_def slotSize_def Let_def eval_nat_numeral)
  moreover have "ring_step False (doInsert [5, 6] (ringStart 4 True [0, 0])) ringDemo"
    unfolding ringDemo_def
    by (rule extract_now) (simp_all add: ringStart_def mkRing_def doInsert_def ring_enq_def insertSlot_def Let_def)
  ultimately show ?thesis unfolding ringReach_def by (meson rtranclp.rtrancl_into_rtrancl rtranclp.rtrancl_refl)
qed

theorem ring_is_fifo_witness:
  "sent ringDemo = received ringDemo @ ring_content (rbuf ringDemo) \<and> 0 \<le> count (rbuf ringDemo)"
  using ring_is_fifo [OF ringDemo_reach] by blast

theorem ring_no_deadlock_witness: "\<exists>s'. ring_step False ringDemo s'"
  by (rule ring_no_deadlock [OF ringDemo_reach])

end
