(* ===== verification/Structs.thy ===== *)
theory Structs
  imports Prelude
begin

text \<open>
  server/dedup/dataStruct.hh: the structs that the client and the server exchange and that the
  server keeps in the key-value database and in recipe files, with their LP64 layout. A struct is a
  record; \<open>put...\<close> is its image in memory and \<open>get...\<close> what a pointer cast reads from such an image.
  Integers are little-endian; padding bytes, which the program never reads, are written as 0. The
  locale \<open>struct_layout\<close> is what the code relies on when it casts pointers into byte buffers.
\<close>

section \<open>Integers in memory\<close>

primrec le :: "nat \<Rightarrow> int \<Rightarrow> bytes" where
  "le 0 v = []"
| "le (Suc n) v = word_of_int v # le n (v div 256)"

primrec unle :: "bytes \<Rightarrow> int" where
  "unle [] = 0"
| "unle (b # bs) = uint b + 256 * unle bs"

text \<open>The value of a signed integer of as many bytes as are given (two's complement).\<close>

definition sle :: "bytes \<Rightarrow> int" where
  "sle bs = (let u = unle bs; w = 256 ^ length bs in if 2 * u < w then u else u - w)"

definition int32 :: "int \<Rightarrow> bool" where
  "int32 v \<longleftrightarrow> - 2147483648 \<le> v \<and> v < 2147483648"

definition int64 :: "int \<Rightarrow> bool" where
  "int64 v \<longleftrightarrow> - 9223372036854775808 \<le> v \<and> v < 9223372036854775808"

lemma length_le [simp, layout_simps]: "length (le n v) = n"
  by (induction n arbitrary: v) auto

lemma unle_le: "unle (le n v) = v mod 256 ^ n"
proof (induction n arbitrary: v)
  case (Suc n)
  have "v mod (256 * 256 ^ n) = 256 * (v div 256 mod 256 ^ n) + v mod 256"
    by (rule zmod_zmult2_eq) simp
  then show ?case using Suc by (simp add: uint_word_of_int)
qed simp

lemma sle_le_signed:
  assumes "- (256 ^ n) \<le> 2 * v" "2 * v < 256 ^ n"
  shows "sle (le n v) = v"
proof (cases "0 \<le> v")
  case True
  then have "v mod 256 ^ n = v" using assms by (intro mod_pos_pos_trivial) auto
  then show ?thesis using assms by (simp add: sle_def unle_le)
next
  case False
  have pos: "(0::int) < 256 ^ n" by simp
  have "v mod 256 ^ n = (v + 256 ^ n) mod 256 ^ n" by simp
  also have "\<dots> = v + 256 ^ n"
    using False assms pos by (intro mod_pos_pos_trivial) linarith+
  finally show ?thesis using assms by (simp add: sle_def unle_le)
qed

lemma sle_le4 [simp]: "int32 v \<Longrightarrow> sle (le 4 v) = v"
  by (rule sle_le_signed) (simp_all add: int32_def)

lemma sle_le8 [simp]: "int64 v \<Longrightarrow> sle (le 8 v) = v"
  by (rule sle_le_signed) (simp_all add: int64_def)

text \<open>What a variable of type int keeps of a value: the residue in two's complement.\<close>

definition wrap32 :: "int \<Rightarrow> int" where
  "wrap32 x = sle (le 4 x)"

lemma wrap32_id [simp]: "int32 x \<Longrightarrow> wrap32 x = x"
  by (simp add: wrap32_def)

lemma wrap32_int32: "int32 (wrap32 x)"
proof -
  define m where "m = x mod 4294967296"
  have "0 \<le> m" "m < 4294967296" by (simp_all add: m_def)
  then show ?thesis by (simp add: wrap32_def sle_def unle_le int32_def Let_def flip: m_def)
qed

lemma wrap32_add: "wrap32 (wrap32 x + y) = wrap32 (x + y)"
proof -
  have "wrap32 x mod 4294967296 = x mod 4294967296" by (simp add: wrap32_def sle_def unle_le Let_def)
  then have "(wrap32 x + y) mod 4294967296 = (x + y) mod 4294967296" by (rule mod_add_cong) simp
  then show ?thesis by (simp add: wrap32_def [of "wrap32 x + y"] wrap32_def [of "x + y"] sle_def unle_le)
qed

section \<open>Fixed-size character fields\<close>

text \<open>\<open>strcpy\<close> into a char array of n bytes, and the C string that starts there.\<close>

definition cfield :: "nat \<Rightarrow> bytes \<Rightarrow> bytes" where
  "cfield n s = take n (s @ replicate n 0)"

definition cstring :: "bytes \<Rightarrow> bytes" where
  "cstring bs = takeWhile (\<lambda>b. b \<noteq> 0) bs"

lemma length_cfield [simp, layout_simps]: "length (cfield n s) = n"
  by (simp add: cfield_def)

lemma cstring_cfield: "0 \<notin> set s \<Longrightarrow> length s < n \<Longrightarrow> cstring (cfield n s) = s"
proof -
  assume s: "0 \<notin> set s" "length s < n"
  then have "cfield n s = s @ 0 # replicate (n - length s - 1) 0"
    by (simp add: cfield_def flip: replicate_Suc)
  then show ?thesis using s by (auto simp: cstring_def takeWhile_tail)
qed

section \<open>Reading and writing a struct inside a buffer\<close>

text \<open>
  What \<open>(T*)(buf + off)\<close> reads: None when the struct does not lie inside the buffer, where the C++
  program reads memory that does not belong to it.
\<close>

definition structAt :: "nat \<Rightarrow> (bytes \<Rightarrow> 'r) \<Rightarrow> bytes \<Rightarrow> int \<Rightarrow> 'r option" where
  "structAt sz get buf off =
     (if 0 \<le> off \<and> off + int sz \<le> int (length buf) then Some (get (slice (nat off) sz buf)) else None)"

text \<open>Overwriting the bytes of a buffer from an offset on.\<close>

definition writeAt :: "nat \<Rightarrow> bytes \<Rightarrow> bytes \<Rightarrow> bytes" where
  "writeAt off bs buf = take off buf @ bs @ drop (off + length bs) buf"

lemma length_writeAt [simp]: "off + length bs \<le> length buf \<Longrightarrow> length (writeAt off bs buf) = length buf"
  by (simp add: writeAt_def)

lemma writeAt_middle: "length old = length bs \<Longrightarrow> writeAt (length pre) bs (pre @ old @ post) = pre @ bs @ post"
  by (simp add: writeAt_def)

lemma structAt_outside: "int (length buf) < off + int sz \<Longrightarrow> structAt sz get buf off = None"
  by (simp add: structAt_def)

locale struct_layout =
  fixes sz :: nat
    and put :: "'r \<Rightarrow> bytes"
    and get :: "bytes \<Rightarrow> 'r"
    and ok :: "'r \<Rightarrow> bool"
  assumes sz_pos: "0 < sz"
    and length_put: "ok r \<Longrightarrow> length (put r) = sz"
    and get_put: "ok r \<Longrightarrow> get (put r) = r"
begin

lemma at_middle:
  assumes "ok r" "off = int (length pre)"
  shows "structAt sz get (pre @ put r @ post) off = Some r"
  using assms length_put [of r] get_put [of r]
  by (simp add: structAt_def slice_def)

lemma at_start: "ok r \<Longrightarrow> structAt sz get (put r @ post) 0 = Some r"
  using at_middle [of r 0 "[]" post] by simp

lemma length_table: "\<forall>r\<in>set rs. ok r \<Longrightarrow> length (concat (map put rs)) = sz * length rs"
  by (induction rs) (auto simp: length_put)

lemma entry_at:
  assumes "\<forall>r\<in>set rs. ok r" "i < length rs"
  shows "structAt sz get (pre @ concat (map put rs) @ post) (int (length pre) + int (sz * i)) = Some (rs ! i)"
proof -
  have split: "rs = take i rs @ rs ! i # drop (Suc i) rs" using assms(2) by (rule id_take_nth_drop)
  have len: "length (concat (map put (take i rs))) = sz * i"
    using assms by (subst length_table) (auto dest: in_set_takeD)
  have bytes: "concat (map put rs) = concat (map put (take i rs)) @ put (rs ! i) @ concat (map put (drop (Suc i) rs))"
    by (subst split) simp
  show ?thesis unfolding bytes
    using at_middle [of "rs ! i" "int (length pre) + int (sz * i)" "pre @ concat (map put (take i rs))"
        "concat (map put (drop (Suc i) rs)) @ post"] assms len by simp
qed

lemma table_update:
  assumes "\<forall>r\<in>set rs. ok r" "ok r" "i < length rs"
  shows "writeAt (length pre + sz * i) (put r) (pre @ concat (map put rs) @ post) =
    pre @ concat (map put (rs[i := r])) @ post"
proof -
  have split: "rs = take i rs @ rs ! i # drop (Suc i) rs" using assms(3) by (rule id_take_nth_drop)
  have len: "length (concat (map put (take i rs))) = sz * i"
    using assms by (subst length_table) (auto dest: in_set_takeD)
  have bytes: "concat (map put rs) = concat (map put (take i rs)) @ put (rs ! i) @ concat (map put (drop (Suc i) rs))"
    by (subst split) simp
  have "length (put (rs ! i)) = length (put r)" using assms by (simp add: length_put)
  then show ?thesis unfolding bytes
    using writeAt_middle [of "put (rs ! i)" "put r" "pre @ concat (map put (take i rs))"
        "concat (map put (drop (Suc i) rs)) @ post"] len
    by (simp add: upd_conv_take_nth_drop [OF assms(3)])
qed

end

section \<open>File share metadata\<close>

record fileShareMDHead =
  mdh_fullNameSize :: int
  mdh_fileSize :: int
  mdh_numOfPastSecrets :: int
  mdh_sizeOfPastSecrets :: int
  mdh_numOfComingSecrets :: int
  mdh_sizeOfComingSecrets :: int

definition putMDHead :: "fileShareMDHead \<Rightarrow> bytes" where
  "putMDHead h = le 4 (mdh_fullNameSize h) @ replicate 4 0 @ le 8 (mdh_fileSize h) @
     le 4 (mdh_numOfPastSecrets h) @ replicate 4 0 @ le 8 (mdh_sizeOfPastSecrets h) @
     le 4 (mdh_numOfComingSecrets h) @ replicate 4 0 @ le 8 (mdh_sizeOfComingSecrets h)"

definition getMDHead :: "bytes \<Rightarrow> fileShareMDHead" where
  "getMDHead bs = \<lparr> mdh_fullNameSize = sle (slice 0 4 bs), mdh_fileSize = sle (slice 8 8 bs),
     mdh_numOfPastSecrets = sle (slice 16 4 bs), mdh_sizeOfPastSecrets = sle (slice 24 8 bs),
     mdh_numOfComingSecrets = sle (slice 32 4 bs), mdh_sizeOfComingSecrets = sle (slice 40 8 bs) \<rparr>"

definition okMDHead :: "fileShareMDHead \<Rightarrow> bool" where
  "okMDHead h \<longleftrightarrow> int32 (mdh_fullNameSize h) \<and> int64 (mdh_fileSize h) \<and>
     int32 (mdh_numOfPastSecrets h) \<and> int64 (mdh_sizeOfPastSecrets h) \<and>
     int32 (mdh_numOfComingSecrets h) \<and> int64 (mdh_sizeOfComingSecrets h)"

record shareMDEntry =
  mde_shareFP :: bytes
  mde_secretID :: int
  mde_secretSize :: int
  mde_shareSize :: int

definition putMDEntry :: "shareMDEntry \<Rightarrow> bytes" where
  "putMDEntry e = mde_shareFP e @ le 4 (mde_secretID e) @ le 4 (mde_secretSize e) @ le 4 (mde_shareSize e)"

definition getMDEntry :: "bytes \<Rightarrow> shareMDEntry" where
  "getMDEntry bs = \<lparr> mde_shareFP = slice 0 32 bs, mde_secretID = sle (slice 32 4 bs),
     mde_secretSize = sle (slice 36 4 bs), mde_shareSize = sle (slice 40 4 bs) \<rparr>"

definition okMDEntry :: "shareMDEntry \<Rightarrow> bool" where
  "okMDEntry e \<longleftrightarrow> length (mde_shareFP e) = 32 \<and> int32 (mde_secretID e) \<and>
     int32 (mde_secretSize e) \<and> int32 (mde_shareSize e)"

section \<open>Values of the inode index\<close>

record inodeIndexValueHead =
  inh_userID :: int
  inh_shortNameSize :: int
  inh_inodeType :: bool
  inh_numOfChildren :: int

definition putInodeHead :: "inodeIndexValueHead \<Rightarrow> bytes" where
  "putInodeHead h = le 4 (inh_userID h) @ le 4 (inh_shortNameSize h) @
     (if inh_inodeType h then 1 else 0) # replicate 3 0 @ le 4 (inh_numOfChildren h)"

definition getInodeHead :: "bytes \<Rightarrow> inodeIndexValueHead" where
  "getInodeHead bs = \<lparr> inh_userID = sle (slice 0 4 bs), inh_shortNameSize = sle (slice 4 4 bs),
     inh_inodeType = (slice 8 1 bs \<noteq> [0]), inh_numOfChildren = sle (slice 12 4 bs) \<rparr>"

definition okInodeHead :: "inodeIndexValueHead \<Rightarrow> bool" where
  "okInodeHead h \<longleftrightarrow> int32 (inh_userID h) \<and> int32 (inh_shortNameSize h) \<and> int32 (inh_numOfChildren h)"

record inodeFileEntry =
  ife_recipeFileName :: bytes
  ife_recipeFileOffset :: int

definition putInodeFileEntry :: "inodeFileEntry \<Rightarrow> bytes" where
  "putInodeFileEntry e = cfield 16 (ife_recipeFileName e) @ le 4 (ife_recipeFileOffset e)"

definition getInodeFileEntry :: "bytes \<Rightarrow> inodeFileEntry" where
  "getInodeFileEntry bs = \<lparr> ife_recipeFileName = cstring (slice 0 16 bs),
     ife_recipeFileOffset = sle (slice 16 4 bs) \<rparr>"

text \<open>A name that fits a 16-byte field with its terminator.\<close>

definition okName :: "bytes \<Rightarrow> bool" where
  "okName s \<longleftrightarrow> 0 \<notin> set s \<and> length s < 16"

definition okInodeFileEntry :: "inodeFileEntry \<Rightarrow> bool" where
  "okInodeFileEntry e \<longleftrightarrow> okName (ife_recipeFileName e) \<and> int32 (ife_recipeFileOffset e)"

section \<open>Values of the share index\<close>

record shareIndexValueHead =
  sih_shareContainerName :: bytes
  sih_shareContainerOffset :: int
  sih_shareSize :: int
  sih_numOfUsers :: int

definition putShareHead :: "shareIndexValueHead \<Rightarrow> bytes" where
  "putShareHead h = cfield 16 (sih_shareContainerName h) @ le 4 (sih_shareContainerOffset h) @
     le 4 (sih_shareSize h) @ le 4 (sih_numOfUsers h)"

definition getShareHead :: "bytes \<Rightarrow> shareIndexValueHead" where
  "getShareHead bs = \<lparr> sih_shareContainerName = cstring (slice 0 16 bs),
     sih_shareContainerOffset = sle (slice 16 4 bs), sih_shareSize = sle (slice 20 4 bs),
     sih_numOfUsers = sle (slice 24 4 bs) \<rparr>"

definition okShareHead :: "shareIndexValueHead \<Rightarrow> bool" where
  "okShareHead h \<longleftrightarrow> okName (sih_shareContainerName h) \<and> int32 (sih_shareContainerOffset h) \<and>
     int32 (sih_shareSize h) \<and> int32 (sih_numOfUsers h)"

record shareUserRefEntry =
  ure_userID :: int
  ure_refCnt :: int

definition putUserRef :: "shareUserRefEntry \<Rightarrow> bytes" where
  "putUserRef e = le 4 (ure_userID e) @ le 4 (ure_refCnt e)"

definition getUserRef :: "bytes \<Rightarrow> shareUserRefEntry" where
  "getUserRef bs = \<lparr> ure_userID = sle (slice 0 4 bs), ure_refCnt = sle (slice 4 4 bs) \<rparr>"

definition okUserRef :: "shareUserRefEntry \<Rightarrow> bool" where
  "okUserRef e \<longleftrightarrow> int32 (ure_userID e) \<and> int32 (ure_refCnt e)"

section \<open>File recipes\<close>

record fileRecipeHead =
  frh_userID :: int
  frh_fileSize :: int
  frh_numOfShares :: int

definition putRecipeHead :: "fileRecipeHead \<Rightarrow> bytes" where
  "putRecipeHead h = le 4 (frh_userID h) @ replicate 4 0 @ le 8 (frh_fileSize h) @
     le 4 (frh_numOfShares h) @ replicate 4 0"

definition getRecipeHead :: "bytes \<Rightarrow> fileRecipeHead" where
  "getRecipeHead bs = \<lparr> frh_userID = sle (slice 0 4 bs), frh_fileSize = sle (slice 8 8 bs),
     frh_numOfShares = sle (slice 16 4 bs) \<rparr>"

definition okRecipeHead :: "fileRecipeHead \<Rightarrow> bool" where
  "okRecipeHead h \<longleftrightarrow> int32 (frh_userID h) \<and> int64 (frh_fileSize h) \<and> int32 (frh_numOfShares h)"

record fileRecipeEntry =
  fre_shareFP :: bytes
  fre_secretID :: int
  fre_secretSize :: int

definition putRecipeEntry :: "fileRecipeEntry \<Rightarrow> bytes" where
  "putRecipeEntry e = fre_shareFP e @ le 4 (fre_secretID e) @ le 4 (fre_secretSize e)"

definition getRecipeEntry :: "bytes \<Rightarrow> fileRecipeEntry" where
  "getRecipeEntry bs = \<lparr> fre_shareFP = slice 0 32 bs, fre_secretID = sle (slice 32 4 bs),
     fre_secretSize = sle (slice 36 4 bs) \<rparr>"

definition okRecipeEntry :: "fileRecipeEntry \<Rightarrow> bool" where
  "okRecipeEntry e \<longleftrightarrow> length (fre_shareFP e) = 32 \<and> int32 (fre_secretID e) \<and> int32 (fre_secretSize e)"

section \<open>Restored share files\<close>

record shareFileHead =
  sfh_fileSize :: int
  sfh_numOfShares :: int

definition putShareFileHead :: "shareFileHead \<Rightarrow> bytes" where
  "putShareFileHead h = le 8 (sfh_fileSize h) @ le 4 (sfh_numOfShares h) @ replicate 4 0"

definition getShareFileHead :: "bytes \<Rightarrow> shareFileHead" where
  "getShareFileHead bs = \<lparr> sfh_fileSize = sle (slice 0 8 bs), sfh_numOfShares = sle (slice 8 4 bs) \<rparr>"

definition okShareFileHead :: "shareFileHead \<Rightarrow> bool" where
  "okShareFileHead h \<longleftrightarrow> int64 (sfh_fileSize h) \<and> int32 (sfh_numOfShares h)"

record shareEntry =
  she_secretID :: int
  she_secretSize :: int
  she_shareSize :: int

definition putShareEntry :: "shareEntry \<Rightarrow> bytes" where
  "putShareEntry e = le 4 (she_secretID e) @ le 4 (she_secretSize e) @ le 4 (she_shareSize e)"

definition getShareEntry :: "bytes \<Rightarrow> shareEntry" where
  "getShareEntry bs = \<lparr> she_secretID = sle (slice 0 4 bs), she_secretSize = sle (slice 4 4 bs),
     she_shareSize = sle (slice 8 4 bs) \<rparr>"

definition okShareEntry :: "shareEntry \<Rightarrow> bool" where
  "okShareEntry e \<longleftrightarrow> int32 (she_secretID e) \<and> int32 (she_secretSize e) \<and> int32 (she_shareSize e)"

section \<open>The layouts are layouts\<close>

lemmas struct_defs = slice_def cstring_cfield
  putMDHead_def getMDHead_def okMDHead_def putMDEntry_def getMDEntry_def okMDEntry_def
  putInodeHead_def getInodeHead_def okInodeHead_def okName_def
  putInodeFileEntry_def getInodeFileEntry_def okInodeFileEntry_def
  putShareHead_def getShareHead_def okShareHead_def putUserRef_def getUserRef_def okUserRef_def
  putRecipeHead_def getRecipeHead_def okRecipeHead_def
  putRecipeEntry_def getRecipeEntry_def okRecipeEntry_def
  putShareFileHead_def getShareFileHead_def okShareFileHead_def
  putShareEntry_def getShareEntry_def okShareEntry_def

interpretation mdHead: struct_layout 48 putMDHead getMDHead okMDHead
  by unfold_locales (simp_all add: struct_defs)

interpretation mdEntry: struct_layout 44 putMDEntry getMDEntry okMDEntry
  by unfold_locales (simp_all add: struct_defs)

interpretation inodeHead: struct_layout 16 putInodeHead getInodeHead okInodeHead
  by unfold_locales (simp_all add: struct_defs)

interpretation inodeFile: struct_layout 20 putInodeFileEntry getInodeFileEntry okInodeFileEntry
  by unfold_locales (simp_all add: struct_defs)

interpretation shareHead: struct_layout 28 putShareHead getShareHead okShareHead
  by unfold_locales (simp_all add: struct_defs)

interpretation userRef: struct_layout 8 putUserRef getUserRef okUserRef
  by unfold_locales (simp_all add: struct_defs)

interpretation recipeHead: struct_layout 24 putRecipeHead getRecipeHead okRecipeHead
  by unfold_locales (simp_all add: struct_defs)

interpretation recipeEntry: struct_layout 40 putRecipeEntry getRecipeEntry okRecipeEntry
  by unfold_locales (simp_all add: struct_defs)

interpretation shareFileHead: struct_layout 16 putShareFileHead getShareFileHead okShareFileHead
  by unfold_locales (simp_all add: struct_defs)

interpretation shareFileEntry: struct_layout 12 putShareEntry getShareEntry okShareEntry
  by unfold_locales (simp_all add: struct_defs)

end
