(* ===== verification/DedupState.thy ===== *)
theory DedupState
  imports Structs Crypto
begin

text \<open>
  The state of the server's deduplication core (server/dedup/DedupCore.hh), the outside world it
  calls (LevelDB, the file system, the clock, the socket) and the small helpers of
  server/dedup/DedupCore.cc: names, prefixes, global file names and index keys. The cloud back ends
  are NULL, as server/main.cc passes them.

  LevelDB is a map from keys to values whose calls may report a fault; the file system is a map from
  paths to contents whose calls may fail, after writing a part of the data where the call is a
  write. Which call fails is decided by the record \<open>env\<close>, indexed by the number of calls made so far,
  so every theorem that does not restrict \<open>env\<close> holds for every pattern of faults.
\<close>

section \<open>Outcomes\<close>

text \<open>
  A member function that returns \<open>bool\<close> either returns 1, or returns 0 with the state as it is at that
  point, or does something the language does not define.
\<close>

datatype crash =
    OutOfBounds        \<comment> \<open>a read outside the region a buffer pointer refers to\<close>
  | UninitRead         \<comment> \<open>a read of a variable that was never written\<close>
  | BufferOverflow     \<comment> \<open>a write past the end of a fixed array\<close>
  | NullDeref          \<comment> \<open>a NULL pointer is dereferenced\<close>
  | LengthError        \<comment> \<open>std::length_error, which nothing catches\<close>

datatype ('a, 's) outcome = Done 'a 's | Fails 's | Crash crash

primrec bindO :: "('a, 's) outcome \<Rightarrow> ('a \<Rightarrow> 's \<Rightarrow> ('b, 's) outcome) \<Rightarrow> ('b, 's) outcome" where
  "bindO (Done a s) f = f a s"
| "bindO (Fails s) f = Fails s"
| "bindO (Crash e) f = Crash e"

lemma bindO_Done_iff [status_simps]:
  "bindO r f = Done b t \<longleftrightarrow> (\<exists>a s. r = Done a s \<and> f a s = Done b t)"
  by (cases r) auto

text \<open>A checked read: the value, or the crash.\<close>

definition readO :: "'x option \<Rightarrow> 's \<Rightarrow> ('x, 's) outcome" where
  "readO r s = (case r of None \<Rightarrow> Crash OutOfBounds | Some x \<Rightarrow> Done x s)"

lemma readO_Done_iff [status_simps]: "readO r s = Done x t \<longleftrightarrow> r = Some x \<and> t = s"
  by (auto simp: readO_def split: option.splits)

lemma readO_Some [simp]: "readO (Some x) s = Done x s"
  by (simp add: readO_def)

text \<open>\<open>if (c) return 0;\<close> and an access that is only defined under a condition.\<close>

definition guardO :: "bool \<Rightarrow> 's \<Rightarrow> (unit, 's) outcome" where
  "guardO c s = (if c then Done () s else Fails s)"

definition safeO :: "bool \<Rightarrow> crash \<Rightarrow> 's \<Rightarrow> (unit, 's) outcome" where
  "safeO c e s = (if c then Done () s else Crash e)"

lemma guardO_Done_iff [status_simps]: "guardO c s = Done u t \<longleftrightarrow> c \<and> t = s"
  by (auto simp: guardO_def)

lemma safeO_Done_iff [status_simps]: "safeO c e s = Done u t \<longleftrightarrow> c \<and> t = s"
  by (auto simp: safeO_def)

lemma guardO_True [simp]: "guardO True s = Done () s"
  by (simp add: guardO_def)

lemma safeO_True [simp]: "safeO True e s = Done () s"
  by (simp add: safeO_def)

section \<open>Sizes\<close>

definition RECIPE_BUFFER_SIZE :: int where "RECIPE_BUFFER_SIZE = 4194304"
definition CONTAINER_BUFFER_SIZE :: int where "CONTAINER_BUFFER_SIZE = 4194304"
definition SHARE_FILE_BUFFER_SIZE :: int where "SHARE_FILE_BUFFER_SIZE = 4194304"
definition MAX_BUFFER_WAIT_USECS :: int where "MAX_BUFFER_WAIT_USECS = 18000000"
definition NUM_OF_CACHED_CONTAINERS :: nat where "NUM_OF_CACHED_CONTAINERS = 4"

section \<open>State\<close>

record bufferNode =
  bn_addr :: nat                         \<comment> \<open>the identity of the malloc'ed node\<close>
  bn_userID :: int
  recipeFileName :: bytes
  recipeFileBuffer :: bytes              \<comment> \<open>the recipeFileBufferCurrLen bytes in use\<close>
  lastRecipeHeadPos :: int
  lastInodeFP :: "bytes option"          \<comment> \<open>None until it is first written\<close>
  shareContainerName :: bytes
  shareContainerBuffer :: bytes          \<comment> \<open>the shareContainerBufferCurrLen bytes in use\<close>
  lastUseTime :: int                     \<comment> \<open>microseconds\<close>

abbreviation recipeFileBufferCurrLen :: "bufferNode \<Rightarrow> int" where
  "recipeFileBufferCurrLen n \<equiv> int (length (recipeFileBuffer n))"

abbreviation shareContainerBufferCurrLen :: "bufferNode \<Rightarrow> int" where
  "shareContainerBufferCurrLen n \<equiv> int (length (shareContainerBuffer n))"

record dedupCore =
  recipeFileDirName :: bytes
  shareContainerDirName :: bytes
  db :: "bytes \<Rightarrow> bytes option"
  disk :: "bytes \<Rightarrow> bytes option"
  tick :: nat                            \<comment> \<open>calls to the outside world so far\<close>
  globalRecipeFileName :: bytes
  globalShareContainerName :: bytes
  bufferLink :: "bufferNode list"        \<comment> \<open>headBufferNode_ and the next pointers\<close>
  tailBufferNode :: "nat option"         \<comment> \<open>the address in tailBufferNode_, None for NULL\<close>
  nextAddr :: nat
  sent :: "bytes list"                   \<comment> \<open>messages accepted by the socket, oldest first\<close>

section \<open>The outside world\<close>

datatype db_fault = DbFine | DbCorruption | DbIOError
datatype io_fault = IoFine | IoOpenFails | IoShort nat    \<comment> \<open>the number of bytes that get through\<close>

record env =
  dbFault :: "nat \<Rightarrow> db_fault"
  ioFault :: "nat \<Rightarrow> io_fault"
  clock :: "nat \<Rightarrow> int"

definition faultless :: "env \<Rightarrow> bool" where
  "faultless E \<longleftrightarrow> (\<forall>i. dbFault E i = DbFine) \<and> (\<forall>i. ioFault E i = IoFine)"

definition tock :: "dedupCore \<Rightarrow> dedupCore" where
  "tock s = s\<lparr>tick := Suc (tick s)\<rparr>"

datatype get_status = GetOk bytes | GetNotFound | GetCorruption | GetIOError

definition dbGet :: "env \<Rightarrow> bytes \<Rightarrow> dedupCore \<Rightarrow> get_status \<times> dedupCore" where
  "dbGet E key s =
     (case dbFault E (tick s) of
        DbFine \<Rightarrow> (case db s key of None \<Rightarrow> GetNotFound | Some v \<Rightarrow> GetOk v)
      | DbCorruption \<Rightarrow> GetCorruption
      | DbIOError \<Rightarrow> GetIOError, tock s)"

text \<open>\<open>Put\<close>, and the batch that deletes a key and puts it again; a call that fails writes nothing.\<close>

definition dbPut :: "env \<Rightarrow> bytes \<Rightarrow> bytes \<Rightarrow> dedupCore \<Rightarrow> bool \<times> dedupCore" where
  "dbPut E key v s =
     (if dbFault E (tick s) = DbFine then (True, tock (s\<lparr>db := (db s)(key \<mapsto> v)\<rparr>)) else (False, tock s))"

text \<open>\<open>fopen\<close> in mode wb creates or empties the file; mode ab+ creates it; rb and rb+ need it.\<close>

definition fopenWb :: "env \<Rightarrow> bytes \<Rightarrow> dedupCore \<Rightarrow> bool \<times> dedupCore" where
  "fopenWb E path s =
     (if ioFault E (tick s) = IoOpenFails then (False, tock s)
      else (True, tock (s\<lparr>disk := (disk s)(path \<mapsto> [])\<rparr>)))"

definition fopenAb :: "env \<Rightarrow> bytes \<Rightarrow> dedupCore \<Rightarrow> bool \<times> dedupCore" where
  "fopenAb E path s =
     (if ioFault E (tick s) = IoOpenFails then (False, tock s)
      else (True, tock (s\<lparr>disk := (disk s)(path \<mapsto> (case disk s path of None \<Rightarrow> [] | Some d \<Rightarrow> d))\<rparr>)))"

definition fopenRb :: "env \<Rightarrow> bytes \<Rightarrow> dedupCore \<Rightarrow> bytes option \<times> dedupCore" where
  "fopenRb E path s = (if ioFault E (tick s) = IoOpenFails then None else disk s path, tock s)"

definition fileContents :: "dedupCore \<Rightarrow> bytes \<Rightarrow> bytes" where
  "fileContents s path = (case disk s path of None \<Rightarrow> [] | Some d \<Rightarrow> d)"

text \<open>
  \<open>fwrite(bs, |bs|, 1, fp)\<close> at a position of the file: the result is 1 only if all bytes were written
  and there was at least one.
\<close>

definition overlay :: "nat \<Rightarrow> bytes \<Rightarrow> bytes \<Rightarrow> bytes" where
  "overlay pos bs old = take pos (old @ replicate (pos - length old) 0) @ bs @ drop (pos + length bs) old"

definition fwriteAt :: "env \<Rightarrow> bytes \<Rightarrow> nat \<Rightarrow> bytes \<Rightarrow> dedupCore \<Rightarrow> bool \<times> dedupCore" where
  "fwriteAt E path pos bs s =
     (case ioFault E (tick s) of
        IoShort k \<Rightarrow> (k \<ge> length bs \<and> bs \<noteq> [],
          tock (s\<lparr>disk := (disk s)(path \<mapsto> overlay pos (take k bs) (fileContents s path))\<rparr>))
      | _ \<Rightarrow> (bs \<noteq> [], tock (s\<lparr>disk := (disk s)(path \<mapsto> overlay pos bs (fileContents s path))\<rparr>)))"

text \<open>\<open>fread(p, n, 1, fp)\<close> at a position: the n bytes, or None when the result is not 1.\<close>

definition freadAt :: "env \<Rightarrow> bytes \<Rightarrow> nat \<Rightarrow> nat \<Rightarrow> dedupCore \<Rightarrow> bytes option \<times> dedupCore" where
  "freadAt E path pos n s =
     (if ioFault E (tick s) \<noteq> IoFine \<or> length (fileContents s path) < pos + n then None
      else Some (slice pos n (fileContents s path)), tock s)"

text \<open>\<open>send\<close> of a whole message through the socket.\<close>

definition sendMsg :: "env \<Rightarrow> bytes \<Rightarrow> dedupCore \<Rightarrow> bool \<times> dedupCore" where
  "sendMsg E msg s =
     (case ioFault E (tick s) of
        IoFine \<Rightarrow> (True, tock (s\<lparr>sent := sent s @ [msg]\<rparr>))
      | IoOpenFails \<Rightarrow> (msg = [], tock s)
      | IoShort k \<Rightarrow> (k \<ge> length msg, tock (s\<lparr>sent := sent s @ [take k msg]\<rparr>)))"

definition getCurrTime :: "env \<Rightarrow> dedupCore \<Rightarrow> int \<times> dedupCore" where
  "getCurrTime E s = (clock E (tick s), tock s)"

section \<open>Names\<close>

definition formatFullFileName :: "bytes \<Rightarrow> bytes option" where
  "formatFullFileName fullFileName =
     (if fullFileName = [] then None
      else if fullFileName ! 0 \<noteq> 47 then
        (if take 2 fullFileName = [46, 47] \<or> take 3 fullFileName = [46, 46, 47] then None
         else Some (47 # fullFileName))
      else Some fullFileName)"

definition formatDirName :: "bytes \<Rightarrow> bytes option" where
  "formatDirName dirName =
     (if dirName = [] then None
      else if last dirName \<noteq> 47 then Some (dirName @ [47])
      else Some dirName)"

definition addPrefixDir :: "bytes \<Rightarrow> bytes \<Rightarrow> bytes option" where
  "addPrefixDir prefixDirName name =
     (if take 1 name = [47] \<or> take 2 name = [46, 47] \<or> take 3 name = [46, 46, 47] then None
      else Some (prefixDirName @ name))"

text \<open>The position of the last character before \<open>i\<close> that is not 'z'.\<close>

primrec scanZ :: "bytes \<Rightarrow> nat \<Rightarrow> nat option" where
  "scanZ fileName 0 = None"
| "scanZ fileName (Suc i) = (if fileName ! i = 122 then scanZ fileName i else Some i)"

definition incrGlobalFileName :: "bytes \<Rightarrow> nat \<Rightarrow> bytes \<times> bool" where
  "incrGlobalFileName fileName validLen =
     (case scanZ fileName validLen of
        None \<Rightarrow> (fileName, False)
      | Some i \<Rightarrow> (take i fileName @ [fileName ! i + 1] @ replicate (validLen - i - 1) 97 @
                    drop validLen fileName, True))"

section \<open>Index keys\<close>

definition inodeFP2IndexKey :: "bytes \<Rightarrow> bytes" where "inodeFP2IndexKey inodeFP = 48 # inodeFP"
definition shareFP2IndexKey :: "bytes \<Rightarrow> bytes" where "shareFP2IndexKey shareFP = 49 # shareFP"

text \<open>
  The callers ignore the return value, so a digest that does not fill the 32-byte fingerprint leaves
  it partly uninitialised.
\<close>

definition fileName2InodeFP :: "openssl \<Rightarrow> cryptoPrimitive \<Rightarrow> bytes \<Rightarrow> int \<Rightarrow> bytes option" where
  "fileName2InodeFP ssl c fullFileName userID =
     (case generateHash ssl c (fullFileName @ le 4 userID) of
        Inl e \<Rightarrow> None
      | Inr fp \<Rightarrow> if length fp = 32 then Some fp else None)"

section \<open>Frame facts of the outside world\<close>

lemma tock_frame [simp]:
  "db (tock s) = db s" "disk (tock s) = disk s" "bufferLink (tock s) = bufferLink s"
  "recipeFileDirName (tock s) = recipeFileDirName s"
  "shareContainerDirName (tock s) = shareContainerDirName s"
  "globalRecipeFileName (tock s) = globalRecipeFileName s"
  "globalShareContainerName (tock s) = globalShareContainerName s"
  "tailBufferNode (tock s) = tailBufferNode s" "nextAddr (tock s) = nextAddr s" "sent (tock s) = sent s"
  "tick (tock s) = Suc (tick s)"
  by (simp_all add: tock_def)

lemma dbGet_cases:
  obtains (ok) v where "dbGet E key s = (GetOk v, tock s)" "db s key = Some v"
    | (absent) "dbGet E key s = (GetNotFound, tock s)" "db s key = None"
    | (corrupt) "dbGet E key s = (GetCorruption, tock s)" "\<not> faultless E"
    | (ioerr) "dbGet E key s = (GetIOError, tock s)" "\<not> faultless E"
  by (cases "dbFault E (tick s)"; cases "db s key")
     (auto simp: dbGet_def faultless_def intro: that)

lemma dbPut_cases:
  obtains (ok) "dbPut E key v s = (True, tock (s\<lparr>db := (db s)(key \<mapsto> v)\<rparr>))"
    | (fault) "dbPut E key v s = (False, tock s)" "\<not> faultless E"
  by (cases "dbFault E (tick s)") (auto simp: dbPut_def faultless_def intro: that)

lemma dbGet_faultless [simp]:
  "faultless E \<Longrightarrow> dbGet E key s = (case db s key of None \<Rightarrow> GetNotFound | Some v \<Rightarrow> GetOk v, tock s)"
  by (simp add: dbGet_def faultless_def)

lemma dbPut_faultless [simp]:
  "faultless E \<Longrightarrow> dbPut E key v s = (True, tock (s\<lparr>db := (db s)(key \<mapsto> v)\<rparr>))"
  by (simp add: dbPut_def faultless_def)

lemma overlay_empty [simp]: "overlay 0 bs [] = bs"
  by (simp add: overlay_def)

lemma fopenWb_cases:
  obtains (ok) "fopenWb E path s = (True, tock (s\<lparr>disk := (disk s)(path \<mapsto> [])\<rparr>))"
    | (fault) "fopenWb E path s = (False, tock s)" "\<not> faultless E"
  by (cases "ioFault E (tick s)") (auto simp: fopenWb_def faultless_def intro: that)

lemma fwriteAt_cases:
  obtains (ok) "fwriteAt E path pos bs s = (True, tock (s\<lparr>disk := (disk s)(path \<mapsto> overlay pos bs (fileContents s path))\<rparr>))"
      "bs \<noteq> []"
    | (bad) c where "fwriteAt E path pos bs s = (False, tock (s\<lparr>disk := (disk s)(path \<mapsto> c)\<rparr>))"
      "bs = [] \<or> \<not> faultless E"
proof (cases "ioFault E (tick s)")
  case (IoShort k)
  then have "\<not> faultless E" by (auto simp: faultless_def)
  then show ?thesis using IoShort that
    by (cases "k \<ge> length bs \<and> bs \<noteq> []") (auto simp: fwriteAt_def)
qed (use that in \<open>(cases "bs = []"; auto simp: fwriteAt_def)+\<close>)

section \<open>Global file names\<close>

text \<open>Names are twelve letters and a suffix; they are counted in base 26.\<close>

definition validName :: "bytes \<Rightarrow> bytes \<Rightarrow> bool" where
  "validName suffix nm \<longleftrightarrow>
     length nm = 15 \<and> (\<forall>b\<in>set (take 12 nm). 97 \<le> b \<and> b \<le> 122) \<and> drop 12 nm = suffix"

definition letter :: "byte \<Rightarrow> nat" where "letter b = unat b - 97"

definition lettersVal :: "bytes \<Rightarrow> nat" where
  "lettersVal bs = foldl (\<lambda>a b. 26 * a + letter b) 0 bs"

definition nameVal :: "bytes \<Rightarrow> nat" where "nameVal nm = lettersVal (take 12 nm)"

definition isLetter :: "byte \<Rightarrow> bool" where "isLetter b \<longleftrightarrow> 97 \<le> b \<and> b \<le> 122"

lemma letter_bound: "isLetter b \<Longrightarrow> letter b < 26"
  by (simp add: isLetter_def letter_def word_le_nat_alt) linarith

lemma letter_inj: "isLetter a \<Longrightarrow> isLetter b \<Longrightarrow> letter a = letter b \<longleftrightarrow> a = b"
  by (auto simp: isLetter_def letter_def word_le_nat_alt word_unat_eq_iff)

lemma lettersVal_append: "lettersVal (xs @ ys) = lettersVal xs * 26 ^ length ys + lettersVal ys"
proof -
  let ?f = "\<lambda>a b. 26 * a + letter b"
  have "foldl ?f k ys = k * 26 ^ length ys + foldl ?f 0 ys" for k
  proof (induction ys arbitrary: k)
    case (Cons y ys)
    have "foldl ?f (26 * k + letter y) ys = (26 * k + letter y) * 26 ^ length ys + foldl ?f 0 ys"
      "foldl ?f (letter y) ys = letter y * 26 ^ length ys + foldl ?f 0 ys" by (rule Cons.IH)+
    then show ?case by (simp add: algebra_simps)
  qed simp
  from this [of "foldl ?f 0 xs"] show ?thesis by (simp add: lettersVal_def)
qed

lemma lettersVal_single [simp]: "lettersVal [b] = letter b"
  by (simp add: lettersVal_def)

lemma lettersVal_Cons: "lettersVal (b # bs) = letter b * 26 ^ length bs + lettersVal bs"
  using lettersVal_append [of "[b]" bs] by simp

lemma lettersVal_bound: "\<forall>b\<in>set bs. isLetter b \<Longrightarrow> lettersVal bs < 26 ^ length bs"
proof (induction bs rule: rev_induct)
  case (snoc b bs)
  then show ?case using letter_bound [of b] by (simp add: lettersVal_append)
qed (simp add: lettersVal_def)

lemma lettersVal_inj:
  assumes "length xs = length ys" "\<forall>b\<in>set xs. isLetter b" "\<forall>b\<in>set ys. isLetter b"
    and "lettersVal xs = lettersVal ys"
  shows "xs = ys"
  using assms
proof (induction xs ys rule: rev_induct2)
  case (4 x xs y ys)
  have b: "letter x < 26" "letter y < 26" using 4 by (simp_all add: letter_bound)
  have eq: "lettersVal xs * 26 + letter x = lettersVal ys * 26 + letter y"
    using 4 by (simp add: lettersVal_append)
  have "(lettersVal xs * 26 + letter x) div 26 = lettersVal xs"
    "(lettersVal ys * 26 + letter y) div 26 = lettersVal ys" using b by simp_all
  then have "lettersVal xs = lettersVal ys" using eq by metis
  then have "letter x = letter y" using eq by simp
  then show ?case using 4 \<open>lettersVal xs = lettersVal ys\<close> by (simp add: letter_inj)
qed auto

lemma validName_letters: "validName sfx nm \<Longrightarrow> \<forall>b\<in>set (take 12 nm). isLetter b"
  by (simp add: validName_def isLetter_def)

lemma nameVal_inj:
  assumes "validName sfx a" "validName sfx b" "nameVal a = nameVal b"
  shows "a = b"
proof -
  have "take 12 a = take 12 b"
    using assms validName_letters [OF assms(1)] validName_letters [OF assms(2)]
    by (intro lettersVal_inj) (auto simp: nameVal_def validName_def)
  then show ?thesis using assms by (metis validName_def append_take_drop_id)
qed

lemma nameVal_bound: "validName sfx a \<Longrightarrow> nameVal a < 26 ^ 12"
  using lettersVal_bound [of "take 12 a"] validName_letters [of sfx a]
  by (simp add: nameVal_def validName_def)

lemma lettersVal_replicate_z: "lettersVal (replicate k 122) + 1 = 26 ^ k"
proof (induction k)
  case (Suc k)
  have "lettersVal (replicate (Suc k) 122) = lettersVal (replicate k 122) * 26 + 25"
    using lettersVal_append [of "replicate k 122" "[122]"]
    by (simp add: letter_def flip: replicate_append_same)
  then show ?case using Suc by simp
qed (simp add: lettersVal_def)

lemma lettersVal_replicate_a [simp]: "lettersVal (replicate k 97) = 0"
proof (induction k)
  case (Suc k)
  then show ?case using lettersVal_append [of "[97]" "replicate k 97"] by (simp add: letter_def)
qed (simp add: lettersVal_def)

lemma scanZ_Some:
  assumes "scanZ f k = Some i" "k \<le> length f"
  shows "i < k \<and> f ! i \<noteq> 122 \<and> take k f = take i f @ [f ! i] @ replicate (k - i - 1) 122"
  using assms
proof (induction k)
  case (Suc k)
  show ?case
  proof (cases "f ! k = 122")
    case True
    then have IH: "i < k" "f ! i \<noteq> 122" "take k f = take i f @ [f ! i] @ replicate (k - i - 1) 122"
      using Suc by auto
    have "Suc k - i - 1 = Suc (k - i - 1)" using IH by simp
    then show ?thesis using True IH Suc.prems
      by (simp add: take_Suc_conv_app_nth replicate_append_same)
  next
    case False
    then show ?thesis using Suc.prems by (auto simp: take_Suc_conv_app_nth)
  qed
qed simp

lemma scanZ_None: "scanZ f k = None \<Longrightarrow> k \<le> length f \<Longrightarrow> take k f = replicate k 122"
  by (induction k) (auto simp: take_Suc_conv_app_nth replicate_append_same split: if_splits)

lemma incrGlobalFileName_step:
  assumes nm: "validName sfx nm" and more: "nameVal nm + 1 < 26 ^ 12"
  shows "snd (incrGlobalFileName nm 12)" "validName sfx (fst (incrGlobalFileName nm 12))"
    "nameVal (fst (incrGlobalFileName nm 12)) = nameVal nm + 1"
proof -
  have len: "12 \<le> length nm" using nm by (simp add: validName_def)
  have "scanZ nm 12 \<noteq> None"
  proof
    assume "scanZ nm 12 = None"
    then have "take 12 nm = replicate 12 122" using len by (rule scanZ_None)
    then show False using more lettersVal_replicate_z [of 12] by (simp add: nameVal_def)
  qed
  then obtain i where sc: "scanZ nm 12 = Some i" by auto
  have i: "i < 12" "nm ! i \<noteq> 122" and parts: "take 12 nm = take i nm @ [nm ! i] @ replicate (12 - i - 1) 122"
    using scanZ_Some [OF sc len] by auto
  let ?r = "fst (incrGlobalFileName nm 12)"
  have r: "?r = take i nm @ [nm ! i + 1] @ replicate (12 - i - 1) 97 @ drop 12 nm"
    "snd (incrGlobalFileName nm 12)"
    by (simp_all add: incrGlobalFileName_def sc)
  have "length (take i nm @ [nm ! i + 1] @ replicate (12 - i - 1) 97) = 12" using i len by simp
  then have r12: "take 12 ?r = take i nm @ [nm ! i + 1] @ replicate (12 - i - 1) 97"
    "drop 12 ?r = drop 12 nm"
    using r(1) by (metis append.assoc append_eq_conv_conj)+
  have li: "isLetter (nm ! i)"
    using validName_letters [OF nm] i len by (metis in_set_conv_nth length_take min.absorb2 nth_take)
  then have small: "unat (nm ! i) < 122" "97 \<le> unat (nm ! i)"
    using i by (auto simp: isLetter_def word_le_nat_alt word_unat_eq_iff)
  then have up: "unat (nm ! i + 1) = unat (nm ! i) + 1" by (simp add: unat_word_ariths)
  have li': "isLetter (nm ! i + 1)" using small up by (simp add: isLetter_def word_le_nat_alt)
  have let1: "letter (nm ! i + 1) = letter (nm ! i) + 1" using small up by (simp add: letter_def)
  show "snd (incrGlobalFileName nm 12)" by (rule r)
  have take_i: "\<forall>b\<in>set (take i nm). isLetter b"
    using validName_letters [OF nm] i by (metis in_set_takeD min.absorb1 less_imp_le take_take)
  show "validName sfx ?r"
    using nm i len take_i li' unfolding validName_def r12
    by (auto simp: r(1) isLetter_def in_set_replicate)
  define k where "k = 12 - i - 1"
  have "lettersVal (take 12 ?r) = (lettersVal (take i nm) * 26 + letter (nm ! i) + 1) * 26 ^ k"
    unfolding r12 k_def [symmetric] by (simp add: lettersVal_append lettersVal_Cons let1 add_mult_distrib)
  moreover have "lettersVal (take 12 nm) = (lettersVal (take i nm) * 26 + letter (nm ! i)) * 26 ^ k +
      lettersVal (replicate k 122)"
    unfolding parts k_def [symmetric] by (simp add: lettersVal_append lettersVal_Cons add_mult_distrib)
  ultimately show "nameVal ?r = nameVal nm + 1"
    using lettersVal_replicate_z [of k] by (simp add: nameVal_def algebra_simps)
qed

lemma incrGlobalFileName_last:
  assumes "validName sfx nm" "nameVal nm + 1 = 26 ^ 12"
  shows "incrGlobalFileName nm 12 = (nm, False)"
proof (cases "scanZ nm 12")
  case (Some i)
  have len: "12 \<le> length nm" using assms by (simp add: validName_def)
  have "take 12 nm = replicate 12 122"
    using assms lettersVal_replicate_z [of 12] validName_letters [OF assms(1)] len
    by (intro lettersVal_inj) (auto simp: nameVal_def isLetter_def)
  then have "nm ! i = 122" if "i < 12" for i using that by (metis nth_replicate nth_take)
  then show ?thesis using scanZ_Some [OF Some len] by auto
qed (simp add: incrGlobalFileName_def)

lemma validName_ok:
  assumes nm: "validName sfx nm" and sfx: "sfx \<noteq> []" "0 \<notin> set sfx"
  shows "okName nm" "last nm = last sfx" "addPrefixDir d nm = Some (d @ nm)" "nm \<noteq> []"
proof -
  have split: "nm = take 12 nm @ sfx" and len: "length nm = 15"
    using nm by (auto simp: validName_def)
  have l: "isLetter b" if "b \<in> set (take 12 nm)" for b
    using validName_letters [OF nm] that by blast
  have "0 \<notin> set (take 12 nm)" using l [of 0] by (auto simp: isLetter_def)
  then have "0 \<notin> set nm" using sfx by (subst split) simp
  then show "okName nm" using len by (simp add: okName_def)
  show "last nm = last sfx" using sfx by (subst split) simp
  obtain x ys where xs: "nm = x # ys" using len by (cases nm) auto
  then have "isLetter x" using l by simp
  then have "x \<noteq> 47" "x \<noteq> 46" by (auto simp: isLetter_def)
  then show "addPrefixDir d nm = Some (d @ nm)" using xs by (simp add: addPrefixDir_def)
  show "nm \<noteq> []" using xs by simp
qed

end
