(* ===== verification/Network.thy ===== *)
theory Network
  imports DedupState
begin

text \<open>
  TCP sockets as both sides use them. A connection delivers, in order, the bytes that the peer sends
  before it closes; how a stream is cut into pieces, and which calls report an error, is decided by
  an oracle indexed by the number of calls made so far. Also the loops around \<open>recv\<close> that the
  server's handlers (server/comm/server.cc) and the client's Socket (client/utils/socket.cc) share.
\<close>

section \<open>Receiving\<close>

datatype recv_event =
    RecvSome nat       \<comment> \<open>at most this many bytes more than one are delivered\<close>
  | RecvErr            \<comment> \<open>the call returns -1\<close>

record rx =
  rx_in :: bytes                         \<comment> \<open>what the peer sends from here on, until it closes\<close>
  rx_calls :: nat

type_synonym recvs = "nat \<Rightarrow> recv_event"

text \<open>\<open>recv(sock, p, n, 0)\<close>: the result and the bytes; 0 is returned only when the peer has closed or n is 0.\<close>

definition recvSome :: "recvs \<Rightarrow> nat \<Rightarrow> rx \<Rightarrow> int \<times> bytes \<times> rx" where
  "recvSome N n r =
     (let r1 = r\<lparr>rx_calls := Suc (rx_calls r)\<rparr> in
      case N (rx_calls r) of
        RecvErr \<Rightarrow> (- 1, [], r1)
      | RecvSome k \<Rightarrow>
          (let bs = take (min n (Suc k)) (rx_in r) in
           (int (length bs), bs, r1\<lparr>rx_in := drop (length bs) (rx_in r)\<rparr>)))"

text \<open>
  \<open>recv(sock, p + off, n, 0)\<close> into an array of \<open>lim\<close> bytes. The array is given by the cells written so
  far; the ones behind are 0.
\<close>

definition recvInto :: "recvs \<Rightarrow> int \<Rightarrow> int \<Rightarrow> int \<Rightarrow> bytes \<Rightarrow> rx \<Rightarrow> (int \<times> bytes, rx) outcome" where
  "recvInto N lim off n buf r =
     (case recvSome N (nat n) r of (k, bs, r1) \<Rightarrow>
        if bs = [] then Done (k, buf) r1
        else if off < 0 \<or> lim < off + int (length bs) then Crash BufferOverflow
        else Done (k, overlay (nat off) bs buf) r1)"

text \<open>
  \<open>while (count < need) count += recv(sock, p + count, need - count, 0);\<close> An error counts -1, and at the
  end of the stream the loop runs on with 0: not returning is None.
\<close>

partial_function (option) recvLoop ::
  "recvs \<Rightarrow> int \<Rightarrow> int \<Rightarrow> int \<Rightarrow> bytes \<Rightarrow> rx \<Rightarrow> (int \<times> bytes, rx) outcome option" where
  "recvLoop N lim need count buf r =
     (if count < need then
        (case recvInto N lim count (need - count) buf r of
           Done (k, buf1) r1 \<Rightarrow> recvLoop N lim need (count + k) buf1 r1
         | Fails r1 \<Rightarrow> Some (Fails r1)
         | Crash e \<Rightarrow> Some (Crash e))
      else Some (Done (count, buf) r))"

declare recvLoop.simps [code]

text \<open>A result of a computation that may also not return.\<close>

definition bindP ::
  "('a, 's) outcome option \<Rightarrow> ('a \<Rightarrow> 's \<Rightarrow> ('b, 't) outcome option) \<Rightarrow> ('s \<Rightarrow> 't) \<Rightarrow> ('b, 't) outcome option" where
  "bindP r f g =
     (case r of
        None \<Rightarrow> None
      | Some (Done x s) \<Rightarrow> f x s
      | Some (Fails s) \<Rightarrow> Some (Fails (g s))
      | Some (Crash e) \<Rightarrow> Some (Crash e))"

lemma bindP_simps [simp]:
  "bindP None f g = None" "bindP (Some (Done x s)) f g = f x s"
  "bindP (Some (Fails s)) f g = Some (Fails (g s))" "bindP (Some (Crash e)) f g = Some (Crash e)"
  by (simp_all add: bindP_def)

section \<open>What arrives\<close>

text \<open>No call reports an error; and every call delivers at least 256 bytes, if so many are asked for and sent.\<close>

definition steady :: "recvs \<Rightarrow> bool" where
  "steady N \<longleftrightarrow> (\<forall>i. N i \<noteq> RecvErr)"

definition whole :: "recvs \<Rightarrow> bool" where
  "whole N \<longleftrightarrow> (\<forall>i. \<exists>k. N i = RecvSome k \<and> 255 \<le> k)"

lemma whole_steady: "whole N \<Longrightarrow> steady N"
  unfolding whole_def steady_def by (metis recv_event.distinct(1))

lemma recvSome_whole:
  assumes "whole N" "rx_in r = msg @ rest" "length msg \<le> 256"
  shows "recvSome N (length msg) r = (int (length msg), msg, \<lparr> rx_in = rest, rx_calls = Suc (rx_calls r) \<rparr>)"
proof -
  obtain k where "N (rx_calls r) = RecvSome k" "255 \<le> k" using assms(1) unfolding whole_def by blast
  then show ?thesis using assms by (cases r) (simp add: recvSome_def Let_def)
qed

lemma recvSome_steady:
  assumes "steady N" "0 < n" "rx_in r \<noteq> []"
  obtains bs rest where "recvSome N n r = (int (length bs), bs, \<lparr> rx_in = rest, rx_calls = Suc (rx_calls r) \<rparr>)"
    "rx_in r = bs @ rest" "bs \<noteq> []" "length bs \<le> n"
proof -
  obtain k where k: "N (rx_calls r) = RecvSome k" using assms(1) unfolding steady_def by (metis recv_event.exhaust)
  let ?bs = "take (min n (Suc k)) (rx_in r)"
  have "recvSome N n r = (int (length ?bs), ?bs, \<lparr> rx_in = drop (length ?bs) (rx_in r), rx_calls = Suc (rx_calls r) \<rparr>)"
    using k by (cases r) (simp add: recvSome_def Let_def)
  then show ?thesis
    by (rule that) (use assms(2,3) in \<open>simp_all add: min_def not_less take_all\<close>)
qed

lemma overlay_overlay:
  "length a = m \<Longrightarrow> overlay (c + m) b (overlay c a buf) = overlay c (a @ b) buf"
proof -
  assume a: "length a = m"
  define P where "P = take c (buf @ replicate (c - length buf) 0)"
  have P: "length P = c" by (simp add: P_def)
  have "overlay (c + m) b (P @ a @ drop (c + m) buf) = P @ a @ b @ drop (c + m + length b) buf"
    using a P by (simp add: overlay_def add.commute)
  then show ?thesis using a by (simp add: overlay_def P_def add.assoc)
qed

lemma overlay_zero [simp]: "overlay 0 bs buf = bs @ drop (length bs) buf"
  by (simp add: overlay_def)

lemma recvLoop_gets:
  assumes "steady N" "rx_in r = msg @ rest" "0 \<le> count" "need = count + int (length msg)" "need \<le> lim"
    and "msg = [] \<longrightarrow> buf' = buf" "msg \<noteq> [] \<longrightarrow> buf' = overlay (nat count) msg buf"
  shows "\<exists>k. recvLoop N lim need count buf r = Some (Done (need, buf') \<lparr> rx_in = rest, rx_calls = k \<rparr>)"
  using assms
proof (induction "length msg" arbitrary: msg count buf r rule: less_induct)
  case less
  show ?case
  proof (cases "msg = []")
    case True
    then show ?thesis using less.prems by (subst recvLoop.simps) (cases r; simp)
  next
    case False
    have n: "0 < nat (need - count)" "rx_in r \<noteq> []" using False less.prems by auto
    obtain bs rest1 where bs: "recvSome N (nat (need - count)) r = (int (length bs), bs, \<lparr> rx_in = rest1, rx_calls = Suc (rx_calls r) \<rparr>)"
      "rx_in r = bs @ rest1" "bs \<noteq> []" "length bs \<le> nat (need - count)"
      by (rule recvSome_steady [OF less.prems(1) n])
    define msg1 where "msg1 = drop (length bs) msg"
    have "length bs \<le> length msg" using bs(4) less.prems(4) by simp
    then have msg: "msg = bs @ msg1" "rest1 = msg1 @ rest"
      using bs(2) less.prems(2) unfolding msg1_def by (auto simp: append_eq_append_conv2)
    have into: "recvInto N lim count (need - count) buf r =
        Done (int (length bs), overlay (nat count) bs buf) \<lparr> rx_in = rest1, rx_calls = Suc (rx_calls r) \<rparr>"
      using bs(1,3) less.prems(3,4,5) msg(1) by (simp add: recvInto_def)
    have ov: "overlay (nat (count + int (length bs))) msg1 (overlay (nat count) bs buf) = overlay (nat count) msg buf"
      using overlay_overlay [of bs "length bs" "nat count" msg1 buf] less.prems(3) msg(1) by (simp add: nat_add_distrib)
    have "\<exists>k. recvLoop N lim need (count + int (length bs)) (overlay (nat count) bs buf) \<lparr> rx_in = rest1, rx_calls = Suc (rx_calls r) \<rparr> =
        Some (Done (need, buf') \<lparr> rx_in = rest, rx_calls = k \<rparr>)"
      by (rule less.hyps [where msg = msg1]) (use less.prems msg bs(3) ov False in auto)
    moreover have "recvLoop N lim need count buf r =
        recvLoop N lim need (count + int (length bs)) (overlay (nat count) bs buf) \<lparr> rx_in = rest1, rx_calls = Suc (rx_calls r) \<rparr>"
      using n into by (subst recvLoop.simps) simp
    ultimately show ?thesis by simp
  qed
qed

text \<open>A peer that closes before it has sent everything keeps the loop running forever.\<close>

lemma recvLoop_hangs:
  assumes "steady N" "int (length (rx_in r)) < need - count" "0 \<le> count" "need \<le> lim"
  shows "recvLoop N lim need count buf r = None"
proof (rule ccontr)
  assume "recvLoop N lim need count buf r \<noteq> None"
  then obtain x where run: "recvLoop N lim need count buf r = Some x" by auto
  have "steady N \<longrightarrow> int (length (rx_in r)) < need - count \<longrightarrow> 0 \<le> count \<longrightarrow> need \<le> lim \<longrightarrow> False"
  proof (rule recvLoop.raw_induct [OF _ run, where
        P = "\<lambda>N lim need count buf r x. steady N \<longrightarrow> int (length (rx_in r)) < need - count \<longrightarrow> 0 \<le> count \<longrightarrow> need \<le> lim \<longrightarrow> False"],
      intro impI)
    fix loop N lim need count buf r x
    assume IH: "\<And>N lim need count buf r x. loop N lim need count buf r = Some x \<Longrightarrow>
        steady N \<longrightarrow> int (length (rx_in r)) < need - count \<longrightarrow> 0 \<le> count \<longrightarrow> need \<le> lim \<longrightarrow> False"
      and body: "(if count < need then
          (case recvInto N lim count (need - count) buf r of
             Done (k, buf1) r1 \<Rightarrow> loop N lim need (count + k) buf1 r1
           | Fails r1 \<Rightarrow> Some (Fails r1) | Crash e \<Rightarrow> Some (Crash e))
        else Some (Done (count, buf) r)) = Some x"
      and pre: "steady N" "int (length (rx_in r)) < need - count" "0 \<le> count" "need \<le> lim"
    have lt: "count < need" using pre(2) by simp
    show False
    proof (cases "rx_in r = []")
      case True
      obtain k where "N (rx_calls r) = RecvSome k" using pre(1) unfolding steady_def by (metis recv_event.exhaust)
      then have "recvInto N lim count (need - count) buf r = Done (0, buf) (r\<lparr>rx_calls := Suc (rx_calls r)\<rparr>)"
        using True by (cases r) (simp add: recvInto_def recvSome_def Let_def)
      then have "loop N lim need (count + 0) buf (r\<lparr>rx_calls := Suc (rx_calls r)\<rparr>) = Some x" using body lt by simp
      from IH [OF this] show False using pre True by simp
    next
      case False
      have n: "0 < nat (need - count)" using lt by simp
      obtain bs rest where bs: "recvSome N (nat (need - count)) r = (int (length bs), bs, \<lparr> rx_in = rest, rx_calls = Suc (rx_calls r) \<rparr>)"
        "rx_in r = bs @ rest" "bs \<noteq> []" "length bs \<le> nat (need - count)"
        by (rule recvSome_steady [OF pre(1) n False])
      have "recvInto N lim count (need - count) buf r =
          Done (int (length bs), overlay (nat count) bs buf) \<lparr> rx_in = rest, rx_calls = Suc (rx_calls r) \<rparr>"
        using bs pre by (simp add: recvInto_def)
      then have "loop N lim need (count + int (length bs)) (overlay (nat count) bs buf) \<lparr> rx_in = rest, rx_calls = Suc (rx_calls r) \<rparr> = Some x"
        using body lt by simp
      from IH [OF this] show False using pre bs(2) by simp
    qed
  qed
  then show False using assms by simp
qed

section \<open>Integers on the wire\<close>

text \<open>The int at the start of an array; \<open>ntohl\<close> turns the bytes around.\<close>

definition readInt :: "bytes \<Rightarrow> int" where
  "readInt buf = sle (take 4 (buf @ replicate 4 0))"

definition ntohlInt :: "bytes \<Rightarrow> int" where
  "ntohlInt bs = sle (rev bs)"

lemma readInt_le [simp]: "int32 v \<Longrightarrow> readInt (le 4 v @ rest) = v"
  by (simp add: readInt_def)

lemma ntohlInt_le [simp]: "int32 v \<Longrightarrow> ntohlInt (rev (le 4 v)) = v"
  by (simp add: ntohlInt_def)

end
