(* ===== verification/ShareIndex.thy ===== *)
theory ShareIndex
  imports DedupState
begin

text \<open>
  The share index of server/dedup/DedupCore.cc: the updates for intra-user and inter-user
  deduplication, which read and rewrite byte strings in the database, and the share containers. The
  reference-count specification they implement and the invariant that ties every index value to the
  bytes of a container are proved here for every pattern of faults of the outside world.
\<close>

section \<open>Values of the index\<close>

text \<open>The search for the entry of a user; the offset of that entry, or None.\<close>

fun ownerScan :: "bytes \<Rightarrow> int \<Rightarrow> nat \<Rightarrow> int \<Rightarrow> crash + int option" where
  "ownerScan v userID 0 valueOffset = Inr None"
| "ownerScan v userID (Suc i) valueOffset =
     (case structAt 8 getUserRef v valueOffset of
        None \<Rightarrow> Inl OutOfBounds
      | Some e \<Rightarrow> if ure_userID e = userID then Inr (Some valueOffset)
                  else ownerScan v userID i (valueOffset + 8))"

definition findOwner :: "bytes \<Rightarrow> int \<Rightarrow> crash + int option" where
  "findOwner v userID =
     (case structAt 28 getShareHead v 0 of
        None \<Rightarrow> Inl OutOfBounds
      | Some h \<Rightarrow> ownerScan v userID (nat (sih_numOfUsers h)) 28)"

text \<open>\<open>refCnt++\<close> in the entry at the offset.\<close>

definition bumpRefCnt :: "bytes \<Rightarrow> int \<Rightarrow> bytes" where
  "bumpRefCnt v valueOffset =
     (let e = getUserRef (slice (nat valueOffset) 8 v) in
      writeAt (nat valueOffset + 4) (le 4 (ure_refCnt e + 1)) v)"

text \<open>A reference entry is appended and \<open>numOfUsers++\<close> in the head.\<close>

definition appendUserRef :: "bytes \<Rightarrow> int \<Rightarrow> bytes" where
  "appendUserRef v userID =
     (let val = v @ putUserRef \<lparr> ure_userID = userID, ure_refCnt = 1 \<rparr>;
          h = getShareHead (slice 0 28 val) in
      writeAt 24 (le 4 (sih_numOfUsers h + 1)) val)"

definition newShareValue :: "bytes \<Rightarrow> int \<Rightarrow> int \<Rightarrow> int \<Rightarrow> bytes" where
  "newShareValue containerName containerOffset shareSize userID =
     putShareHead \<lparr> sih_shareContainerName = containerName, sih_shareContainerOffset = containerOffset,
       sih_shareSize = shareSize, sih_numOfUsers = 1 \<rparr> @
     putUserRef \<lparr> ure_userID = userID, ure_refCnt = 1 \<rparr>"

section \<open>Intra-user deduplication\<close>

definition intraUserIndexUpdate :: "env \<Rightarrow> bytes \<Rightarrow> int \<Rightarrow> dedupCore \<Rightarrow> (bool, dedupCore) outcome" where
  "intraUserIndexUpdate E shareFP userID s =
     (let key = shareFP2IndexKey shareFP in
      case dbGet E key s of
        (GetOk v, s1) \<Rightarrow>
          (case findOwner v userID of
             Inl e \<Rightarrow> Crash e
           | Inr (Some valueOffset) \<Rightarrow>
               (case dbPut E key (bumpRefCnt v valueOffset) s1 of
                  (True, s2) \<Rightarrow> Done True s2
                | (False, s2) \<Rightarrow> Fails s2)
           | Inr None \<Rightarrow> Done False s1)
      | (GetNotFound, s1) \<Rightarrow> Done False s1
      | (GetCorruption, s1) \<Rightarrow> Fails s1
      | (GetIOError, s1) \<Rightarrow> Fails s1)"

section \<open>Share containers\<close>

definition storeShareContainer ::
  "env \<Rightarrow> bufferNode \<times> dedupCore \<Rightarrow> (bytes, bufferNode \<times> dedupCore) outcome" where
  "storeShareContainer E st =
     (case st of (n, s) \<Rightarrow>
       (case addPrefixDir (shareContainerDirName s) (shareContainerName n) of
          None \<Rightarrow> Fails (n, s)
        | Some path \<Rightarrow>
            (case fopenWb E path s of
               (False, s1) \<Rightarrow> Fails (n, s1)
             | (True, s1) \<Rightarrow>
                 (case fwriteAt E path 0 (shareContainerBuffer n) s1 of
                    (False, s2) \<Rightarrow> Fails (n, s2)
                  | (True, s2) \<Rightarrow>
                      Done path
                        (n\<lparr>shareContainerName := take 15 (globalShareContainerName s2),
                           shareContainerBuffer := []\<rparr>,
                         s2\<lparr>globalShareContainerName :=
                              fst (incrGlobalFileName (globalShareContainerName s2) 12)\<rparr>)))))"

section \<open>Inter-user deduplication\<close>

text \<open>The branch for a share that no user has stored yet.\<close>

definition storeNewShare ::
  "env \<Rightarrow> bytes \<Rightarrow> int \<Rightarrow> int \<Rightarrow> bytes \<Rightarrow> int \<Rightarrow> bufferNode \<times> dedupCore \<Rightarrow>
   (unit, bufferNode \<times> dedupCore) outcome" where
  "storeNewShare E key userID shareSize shareDataBuffer shareDataBufferOffset st =
     bindO
       (if shareContainerBufferCurrLen (fst st) + shareSize > CONTAINER_BUFFER_SIZE
        then storeShareContainer E st else Done [] st)
       (\<lambda>_ st1. case st1 of (n, s) \<Rightarrow>
          let val = newShareValue (shareContainerName n) (shareContainerBufferCurrLen n) shareSize userID;
              s1 = snd (dbPut E key val s) in
          bindO (safeO (0 \<le> shareSize \<and> 0 \<le> shareDataBufferOffset \<and>
                        shareDataBufferOffset + shareSize \<le> int (length shareDataBuffer)) OutOfBounds (n, s1))
            (\<lambda>_ _.
          bindO (safeO (shareContainerBufferCurrLen n + shareSize \<le> CONTAINER_BUFFER_SIZE) BufferOverflow (n, s1))
            (\<lambda>_ _.
          Done () (n\<lparr>shareContainerBuffer := shareContainerBuffer n @
                      slice (nat shareDataBufferOffset) (nat shareSize) shareDataBuffer\<rparr>, s1))))"

definition interUserIndexUpdate ::
  "env \<Rightarrow> bytes \<Rightarrow> int \<Rightarrow> int \<Rightarrow> bytes \<Rightarrow> int \<Rightarrow> bufferNode \<times> dedupCore \<Rightarrow>
   (unit, bufferNode \<times> dedupCore) outcome" where
  "interUserIndexUpdate E shareFP userID shareSize shareDataBuffer shareDataBufferOffset st =
     (case st of (n, s) \<Rightarrow>
       let key = shareFP2IndexKey shareFP in
       case dbGet E key s of
         (GetOk v, s1) \<Rightarrow>
           (case findOwner v userID of
              Inl e \<Rightarrow> Crash e
            | Inr owner \<Rightarrow>
                let val = (case owner of Some valueOffset \<Rightarrow> bumpRefCnt v valueOffset
                                         | None \<Rightarrow> appendUserRef v userID) in
                case dbPut E key val s1 of
                  (True, s2) \<Rightarrow> Done () (n, s2)
                | (False, s2) \<Rightarrow> Fails (n, s2))
       | (GetNotFound, s1) \<Rightarrow>
           storeNewShare E key userID shareSize shareDataBuffer shareDataBufferOffset (n, s1)
       | (GetCorruption, s1) \<Rightarrow> Fails (n, s1)
       | (GetIOError, s1) \<Rightarrow> Fails (n, s1))"

section \<open>Well-formed values\<close>

definition signed32 :: "int \<Rightarrow> int" where "signed32 v = sle (le 4 v)"

lemma signed32_eq: "signed32 v = (if v mod 4294967296 < 2147483648 then v mod 4294967296
   else v mod 4294967296 - 4294967296)"
  by (simp add: signed32_def sle_def unle_le Let_def)

lemma int32_signed32 [simp]: "int32 (signed32 v)"
  by (simp add: signed32_eq int32_def) presburger

lemma signed32_id [simp]: "int32 v \<Longrightarrow> signed32 v = v"
  by (simp add: signed32_def)

lemma le_shift: "le n (v + k * 256 ^ n) = le n v"
proof (induction n arbitrary: v)
  case (Suc n)
  have "(v + k * 256 ^ Suc n) div 256 = v div 256 + k * 256 ^ n"
    by (simp add: algebra_simps)
  moreover have "word_of_int (v + k * 256 ^ Suc n) = (word_of_int v :: byte)"
  proof -
    have "word_of_int (k * 256 ^ Suc n) = (0 :: byte)" by (subst word_of_int_eq_0_iff) simp
    then show ?thesis by (simp only: of_int_add) simp
  qed
  ultimately show ?case using Suc by (simp del: power_Suc)
qed simp

lemma le4_signed32: "le 4 (signed32 v) = le 4 v"
proof -
  have "signed32 v = v + (if v mod 4294967296 < 2147483648 then - (v div 4294967296)
      else - (v div 4294967296) - 1) * 256 ^ 4"
    using div_mult_mod_eq [of v 4294967296] by (simp add: signed32_eq algebra_simps)
  then show ?thesis by (metis le_shift)
qed

text \<open>
  A value of the share index: the head, then one reference entry per owner. User ids are positive,
  which also keeps the number of owners inside an int.
\<close>

definition shareValue :: "bytes \<Rightarrow> shareIndexValueHead \<Rightarrow> shareUserRefEntry list \<Rightarrow> bool" where
  "shareValue v h refs \<longleftrightarrow>
     v = putShareHead h @ concat (map putUserRef refs) \<and> okShareHead h \<and>
     (\<forall>r\<in>set refs. okUserRef r \<and> 0 < ure_userID r) \<and> distinct (map ure_userID refs) \<and>
     sih_numOfUsers h = int (length refs)"

text \<open>The parts of a value, as the code reads them.\<close>

definition headOf :: "bytes \<Rightarrow> shareIndexValueHead" where
  "headOf v = getShareHead (slice 0 28 v)"

definition refsOf :: "bytes \<Rightarrow> shareUserRefEntry list" where
  "refsOf v = map (\<lambda>i. getUserRef (slice (28 + 8 * i) 8 v)) [0..<nat (sih_numOfUsers (headOf v))]"

lemma shareValue_okRefs: "shareValue v h refs \<Longrightarrow> \<forall>r\<in>set refs. okUserRef r"
  by (auto simp: shareValue_def)

lemma shareValue_head:
  assumes "shareValue v h refs"
  shows "structAt 28 getShareHead v 0 = Some h" "headOf v = h"
proof -
  show 1: "structAt 28 getShareHead v 0 = Some h"
    using assms shareHead.at_start [of h] by (auto simp: shareValue_def)
  then show "headOf v = h" by (simp add: structAt_def headOf_def split: if_splits)
qed

lemma shareValue_entry:
  assumes "shareValue v h refs" "i < length refs"
  shows "structAt 8 getUserRef v (28 + 8 * int i) = Some (refs ! i)"
  using userRef.entry_at [of refs i "putShareHead h" "[]"] assms shareValue_okRefs [OF assms(1)]
    shareHead.length_put [of h]
  by (simp add: shareValue_def)

lemma shareValue_slice:
  assumes "shareValue v h refs" "i < length refs"
  shows "getUserRef (slice (28 + 8 * i) 8 v) = refs ! i"
proof -
  have "nat (28 + 8 * int i) = 28 + 8 * i" by simp
  then show ?thesis using shareValue_entry [OF assms] by (simp add: structAt_def split: if_splits)
qed

lemma shareValue_refs:
  assumes "shareValue v h refs"
  shows "refsOf v = refs"
  using assms shareValue_slice [OF assms] shareValue_head [OF assms]
  by (auto simp: refsOf_def shareValue_def intro!: nth_equalityI)

lemma length_shareValue: "shareValue v h refs \<Longrightarrow> length v = 28 + 8 * length refs"
  using shareHead.length_put [of h] userRef.length_table [of refs] by (auto simp: shareValue_def)

lemma owners_bounded:
  assumes "shareValue v h refs" shows "length refs < 2147483648"
proof -
  have sub: "set (map ure_userID refs) \<subseteq> {1..<2147483648}"
    using assms by (auto simp: shareValue_def okUserRef_def int32_def)
  have "length refs = card (set (map ure_userID refs))"
    using assms by (metis shareValue_def distinct_card length_map)
  also have "\<dots> \<le> card {1..<2147483648::int}" using sub by (intro card_mono) auto
  finally show ?thesis by simp
qed

section \<open>The searches and rewrites on well-formed values\<close>

definition userPos :: "int \<Rightarrow> shareUserRefEntry list \<Rightarrow> nat option" where
  "userPos u refs = find (\<lambda>i. ure_userID (refs ! i) = u) [0..<length refs]"

lemma ownerScan_valid:
  assumes "shareValue v h refs" "i + k = length refs"
  shows "ownerScan v u k (28 + 8 * int i) =
    Inr (map_option (\<lambda>j. 28 + 8 * int j) (find (\<lambda>i. ure_userID (refs ! i) = u) [i..<length refs]))"
  using assms(2)
proof (induction k arbitrary: i)
  case (Suc k)
  have e: "structAt 8 getUserRef v (28 + 8 * int i) = Some (refs ! i)"
    using assms Suc.prems by (intro shareValue_entry) auto
  have next_off: "28 + 8 * int i + 8 = 28 + 8 * int (Suc i)" by simp
  show ?case
    using Suc.IH [of "Suc i"] Suc.prems
    by (simp add: e next_off find_upt_Cons del: of_nat_Suc)
qed simp

lemma findOwner_valid:
  assumes "shareValue v h refs"
  shows "findOwner v u = Inr (map_option (\<lambda>j. 28 + 8 * int j) (userPos u refs))"
proof -
  have "nat (sih_numOfUsers h) = length refs" using assms by (simp add: shareValue_def)
  then show ?thesis
    using ownerScan_valid [OF assms, of 0 "length refs" u]
    by (simp add: findOwner_def shareValue_head [OF assms] userPos_def)
qed

lemma userPos_None: "userPos u refs = None \<longleftrightarrow> u \<notin> ure_userID ` set refs"
  by (auto simp: userPos_def find_None_iff set_conv_nth)

lemma userPos_Some: "userPos u refs = Some i \<Longrightarrow> i < length refs \<and> ure_userID (refs ! i) = u"
  unfolding userPos_def by (drule find_upt_range) auto

definition bumped :: "shareUserRefEntry \<Rightarrow> shareUserRefEntry" where
  "bumped r = r\<lparr>ure_refCnt := signed32 (ure_refCnt r + 1)\<rparr>"

lemma bumpRefCnt_valid:
  assumes v: "shareValue v h refs" and i: "i < length refs"
  shows "shareValue (bumpRefCnt v (28 + 8 * int i)) h (refs[i := bumped (refs ! i)])"
proof -
  let ?r = "refs ! i"
  have nat_off: "nat (28 + 8 * int i) = 28 + 8 * i" by simp
  have ok: "okUserRef ?r" "okUserRef (bumped ?r)" "0 < ure_userID ?r"
    using v i by (auto simp: shareValue_def okUserRef_def bumped_def)
  have len: "28 + 8 * i + 8 \<le> length v" using length_shareValue [OF v] i by simp
  have here: "slice (28 + 8 * i) 8 v = putUserRef ?r"
  proof -
    have "refs = take i refs @ ?r # drop (Suc i) refs" using i by (rule id_take_nth_drop)
    then have "v = (putShareHead h @ concat (map putUserRef (take i refs))) @ putUserRef ?r @
        concat (map putUserRef (drop (Suc i) refs))"
      using v by (metis (no_types, lifting) append_assoc concat.simps(2) concat_append list.simps(9)
          map_append shareValue_def)
    moreover have "length (putShareHead h @ concat (map putUserRef (take i refs))) = 28 + 8 * i"
      using v i shareHead.length_put [of h] userRef.length_table [of "take i refs"]
      by (auto simp: shareValue_def dest: in_set_takeD)
    moreover have "length (putUserRef ?r) = 8" using ok by (simp add: userRef.length_put)
    ultimately show ?thesis by (metis slice_at_end_more)
  qed
  have "bumpRefCnt v (28 + 8 * int i) = writeAt (28 + 8 * i) (putUserRef (bumped ?r)) v"
  proof -
    have "take 4 (take 8 (drop (28 + 8 * i) v)) = le 4 (ure_userID ?r)"
      using here by (simp only: slice_def) (simp add: putUserRef_def)
    then have parts: "take 4 (drop (28 + 8 * i) v) = le 4 (ure_userID ?r)" by simp
    have "take (28 + 8 * i + 4) v = take (28 + 8 * i) v @ le 4 (ure_userID ?r)"
      by (simp only: take_add [of "28 + 8 * i" 4 v] parts)
    then show ?thesis
      by (simp add: bumpRefCnt_def Let_def nat_off shareValue_slice [OF v i] writeAt_def
          putUserRef_def bumped_def le4_signed32 add.commute)
  qed
  also have "\<dots> = putShareHead h @ concat (map putUserRef (refs[i := bumped ?r]))"
    using userRef.table_update [of refs "bumped ?r" i "putShareHead h" "[]"] v ok i
      shareValue_okRefs [OF v] shareHead.length_put [of h]
    by (simp add: shareValue_def)
  finally have "bumpRefCnt v (28 + 8 * int i) = putShareHead h @ concat (map putUserRef (refs[i := bumped ?r]))" .
  moreover have "map ure_userID (refs[i := bumped ?r]) = map ure_userID refs"
    by (simp add: map_update bumped_def) (metis list_update_id map_update)
  ultimately show ?thesis using v ok
    by (auto simp: shareValue_def bumped_def simp del: map_update
        dest!: set_update_subset_insert [THEN subsetD])
qed

lemma appendUserRef_valid:
  assumes v: "shareValue v h refs" and u: "u \<notin> ure_userID ` set refs" "int32 u" "0 < u"
  shows "shareValue (appendUserRef v u) (h\<lparr>sih_numOfUsers := sih_numOfUsers h + 1\<rparr>)
    (refs @ [\<lparr> ure_userID = u, ure_refCnt = 1 \<rparr>])"
proof -
  let ?e = "\<lparr> ure_userID = u, ure_refCnt = 1 \<rparr>" and ?h = "h\<lparr>sih_numOfUsers := sih_numOfUsers h + 1\<rparr>"
  have okh: "okShareHead h" using v by (simp add: shareValue_def)
  have count: "length refs < 2147483647"
  proof -
    have sub: "set (u # map ure_userID refs) \<subseteq> {1..<2147483648}"
      using v u by (auto simp: shareValue_def okUserRef_def int32_def)
    have "length (u # map ure_userID refs) = card (set (u # map ure_userID refs))"
      using v u by (subst distinct_card) (auto simp: shareValue_def)
    also have "\<dots> \<le> card {1..<2147483648::int}" using sub by (intro card_mono) auto
    finally show ?thesis by simp
  qed
  then have ok: "okShareHead ?h" "okUserRef ?e"
    using v u by (auto simp: shareValue_def okShareHead_def okUserRef_def int32_def)
  define rest where "rest = concat (map putUserRef (refs @ [?e]))"
  have all: "v @ putUserRef ?e = putShareHead h @ rest"
    using v by (simp add: shareValue_def rest_def)
  have hd: "getShareHead (slice 0 28 (putShareHead h @ rest)) = h"
    using okh shareHead.length_put [of h] shareHead.get_put [of h] by (simp add: slice_def)
  have "putShareHead h = (cfield 16 (sih_shareContainerName h) @ le 4 (sih_shareContainerOffset h) @
      le 4 (sih_shareSize h)) @ le 4 (sih_numOfUsers h)"
    by (simp add: putShareHead_def)
  then have "writeAt 24 (le 4 (sih_numOfUsers h + 1)) (putShareHead h @ rest) = putShareHead ?h @ rest"
    by (simp add: writeAt_def putShareHead_def)
  then have "appendUserRef v u = putShareHead ?h @ rest"
    by (simp add: appendUserRef_def all hd Let_def)
  then show ?thesis using v u ok by (auto simp: shareValue_def rest_def)
qed

lemma newShareValue_valid:
  assumes "okName name" "int32 off" "int32 sz" "int32 u" "0 < u"
  shows "shareValue (newShareValue name off sz u)
    \<lparr> sih_shareContainerName = name, sih_shareContainerOffset = off, sih_shareSize = sz, sih_numOfUsers = 1 \<rparr>
    [\<lparr> ure_userID = u, ure_refCnt = 1 \<rparr>]"
  using assms by (simp add: newShareValue_def shareValue_def okShareHead_def okUserRef_def int32_def)

section \<open>The reference-count specification\<close>

text \<open>
  What the share index promises: for every fingerprint the place of the share and, for every owner,
  how often the owner's recipes refer to it.
\<close>

type_synonym share_loc = "bytes \<times> int \<times> int"
type_synonym abs_index = "bytes \<Rightarrow> (share_loc \<times> (int \<Rightarrow> int option)) option"

definition locOf :: "shareIndexValueHead \<Rightarrow> share_loc" where
  "locOf h = (sih_shareContainerName h, sih_shareContainerOffset h, sih_shareSize h)"

definition countsOf :: "shareUserRefEntry list \<Rightarrow> int \<Rightarrow> int option" where
  "countsOf refs = map_of (map (\<lambda>r. (ure_userID r, ure_refCnt r)) refs)"

definition absIndex :: "dedupCore \<Rightarrow> abs_index" where
  "absIndex s fp = map_option (\<lambda>v. (locOf (headOf v), countsOf (refsOf v))) (db s (shareFP2IndexKey fp))"

definition addRef :: "int \<Rightarrow> (int \<Rightarrow> int option) \<Rightarrow> (int \<Rightarrow> int option)" where
  "addRef u cnt = cnt(u \<mapsto> (case cnt u of None \<Rightarrow> 1 | Some c \<Rightarrow> signed32 (c + 1)))"

fun owns :: "abs_index \<Rightarrow> bytes \<Rightarrow> int \<Rightarrow> bool" where
  "owns I fp u = (case I fp of None \<Rightarrow> False | Some (_, cnt) \<Rightarrow> cnt u \<noteq> None)"

definition specIntra :: "bytes \<Rightarrow> int \<Rightarrow> abs_index \<Rightarrow> abs_index" where
  "specIntra fp u I = (if owns I fp u then I(fp := map_option (map_prod id (addRef u)) (I fp)) else I)"

definition specInter :: "bytes \<Rightarrow> int \<Rightarrow> share_loc \<Rightarrow> abs_index \<Rightarrow> abs_index" where
  "specInter fp u loc I =
     I(fp \<mapsto> (case I fp of None \<Rightarrow> (loc, [u \<mapsto> 1]) | Some (l, cnt) \<Rightarrow> (l, addRef u cnt)))"

definition index_wf :: "dedupCore \<Rightarrow> bool" where
  "index_wf s \<longleftrightarrow> (\<forall>fp v. db s (shareFP2IndexKey fp) = Some v \<longrightarrow> (\<exists>h refs. shareValue v h refs))"

lemma absIndex_value:
  "db s (shareFP2IndexKey fp) = Some v \<Longrightarrow> shareValue v h refs \<Longrightarrow>
     absIndex s fp = Some (locOf h, countsOf refs)"
  by (simp add: absIndex_def shareValue_head shareValue_refs)

lemma key_inj [simp]: "shareFP2IndexKey fp = shareFP2IndexKey fp' \<longleftrightarrow> fp = fp'"
  by (simp add: shareFP2IndexKey_def)

lemma absIndex_put:
  assumes "db t = (db s)(shareFP2IndexKey fp \<mapsto> v)" "shareValue v h refs"
  shows "absIndex t = (absIndex s)(fp \<mapsto> (locOf h, countsOf refs))"
  using assms by (auto simp: absIndex_def shareValue_head shareValue_refs)

lemma index_wf_put:
  "index_wf s \<Longrightarrow> db t = (db s)(shareFP2IndexKey fp \<mapsto> v) \<Longrightarrow> shareValue v h refs \<Longrightarrow> index_wf t"
  by (auto simp: index_wf_def)

lemma countsOf_pos: "userPos u refs = None \<longleftrightarrow> countsOf refs u = None"
  by (force simp: userPos_None countsOf_def map_of_eq_None_iff)

lemma countsOf_bumped:
  assumes "distinct (map ure_userID refs)" "userPos u refs = Some i"
  shows "countsOf (refs[i := bumped (refs ! i)]) = addRef u (countsOf refs)"
proof -
  have i: "i < length refs" "ure_userID (refs ! i) = u" using userPos_Some [OF assms(2)] by auto
  let ?f = "\<lambda>r. (ure_userID r, ure_refCnt r)"
  have d: "distinct (map fst (map ?f refs))" using assms by (simp add: o_def)
  have at: "countsOf refs u = Some (ure_refCnt (refs ! i))"
    unfolding countsOf_def using i map_of_is_SomeI [OF d, of u "ure_refCnt (refs ! i)"]
    by (force simp: in_set_conv_nth)
  have split: "refs = take i refs @ refs ! i # drop (Suc i) refs" using i(1) by (rule id_take_nth_drop)
  have notin: "u \<notin> ure_userID ` set (take i refs)"
  proof
    assume "u \<in> ure_userID ` set (take i refs)"
    then obtain j where "j < i" "ure_userID (refs ! j) = u" using i by (auto simp: in_set_conv_nth)
    then show False using assms(1) i by (auto simp: distinct_conv_nth)
  qed
  have none: "map_of (map ?f (take i refs)) u = None" using notin by (force simp: map_of_eq_None_iff)
  show ?thesis
  proof (rule ext)
    fix w
    have new: "countsOf (refs[i := bumped (refs ! i)]) w =
        (map_of (map ?f (drop (Suc i) refs)) ++ [u \<mapsto> signed32 (ure_refCnt (refs ! i) + 1)] ++
          map_of (map ?f (take i refs))) w"
      using i by (simp add: countsOf_def upd_conv_take_nth_drop bumped_def)
    have old: "countsOf refs w = (map_of (map ?f (drop (Suc i) refs)) ++ [u \<mapsto> ure_refCnt (refs ! i)] ++
          map_of (map ?f (take i refs))) w"
      unfolding countsOf_def using i by (subst split) simp
    show "countsOf (refs[i := bumped (refs ! i)]) w = addRef u (countsOf refs) w"
      using new old at none by (auto simp: addRef_def map_add_def split: option.splits)
  qed
qed

lemma countsOf_append:
  "userPos u refs = None \<Longrightarrow> countsOf (refs @ [\<lparr> ure_userID = u, ure_refCnt = 1 \<rparr>]) = addRef u (countsOf refs)"
  by (rule ext) (auto simp: countsOf_pos addRef_def countsOf_def map_add_def split: option.splits)

section \<open>Where the bytes of a container are\<close>

text \<open>
  A reader of a container first looks for a buffer node that is filling it and then on the disk
  (\<open>readShareContainerFromBuffer_\<close> and its callers).
\<close>

definition containerOf :: "dedupCore \<Rightarrow> bytes \<Rightarrow> bytes option" where
  "containerOf s name =
     (case find (\<lambda>n. shareContainerName n = name) (bufferLink s) of
        Some n \<Rightarrow> Some (shareContainerBuffer n)
      | None \<Rightarrow> disk s (shareContainerDirName s @ name))"

definition scSuffix :: bytes where "scSuffix = [46, 115, 99]"
definition rfSuffix :: bytes where "rfSuffix = [46, 114, 102]"

abbreviation containerName :: "bytes \<Rightarrow> bool" where
  "containerName \<equiv> validName scSuffix"

text \<open>The nodes of the link are distinct and fill distinct containers, all named before the next name.\<close>

definition nodeSound :: "dedupCore \<Rightarrow> bufferNode \<Rightarrow> bool" where
  "nodeSound s n \<longleftrightarrow> bn_addr n < nextAddr s \<and> containerName (shareContainerName n) \<and>
     nameVal (shareContainerName n) < nameVal (globalShareContainerName s) \<and>
     shareContainerBufferCurrLen n \<le> CONTAINER_BUFFER_SIZE"

definition linkSound :: "dedupCore \<Rightarrow> bool" where
  "linkSound s \<longleftrightarrow>
     distinct (map bn_addr (bufferLink s)) \<and> distinct (map shareContainerName (bufferLink s)) \<and>
     containerName (globalShareContainerName s) \<and> (\<forall>n\<in>set (bufferLink s). nodeSound s n)"

text \<open>Every value of the share index points at bytes with the fingerprint it is stored under.\<close>

definition located :: "openssl \<Rightarrow> cryptoPrimitive \<Rightarrow> dedupCore \<Rightarrow> bytes \<Rightarrow> shareIndexValueHead \<Rightarrow> bool" where
  "located ssl c s fp h \<longleftrightarrow>
     containerName (sih_shareContainerName h) \<and>
     nameVal (sih_shareContainerName h) < nameVal (globalShareContainerName s) \<and>
     0 \<le> sih_shareContainerOffset h \<and> 0 < sih_shareSize h \<and>
     (\<exists>bs. containerOf s (sih_shareContainerName h) = Some bs \<and>
        sih_shareContainerOffset h + sih_shareSize h \<le> int (length bs) \<and>
        int (length bs) \<le> CONTAINER_BUFFER_SIZE \<and>
        generateHash ssl c (slice (nat (sih_shareContainerOffset h)) (nat (sih_shareSize h)) bs) = Inr fp)"

definition sharesSound :: "openssl \<Rightarrow> cryptoPrimitive \<Rightarrow> dedupCore \<Rightarrow> bool" where
  "sharesSound ssl c s \<longleftrightarrow>
     (\<forall>fp v. db s (shareFP2IndexKey fp) = Some v \<longrightarrow>
        (\<exists>h refs. shareValue v h refs \<and> located ssl c s fp h))"

lemma sharesSound_wf: "sharesSound ssl c s \<Longrightarrow> index_wf s"
  by (force simp: sharesSound_def index_wf_def)

text \<open>The share that the index holds for a fingerprint, as a reader finds it.\<close>

definition fetchShare :: "dedupCore \<Rightarrow> bytes \<Rightarrow> bytes option" where
  "fetchShare s fp =
     (case db s (shareFP2IndexKey fp) of
        None \<Rightarrow> None
      | Some v \<Rightarrow>
          (let h = headOf v in
           map_option (slice (nat (sih_shareContainerOffset h)) (nat (sih_shareSize h)))
             (containerOf s (sih_shareContainerName h))))"

text \<open>Containers only grow at their end.\<close>

definition grows :: "dedupCore \<Rightarrow> dedupCore \<Rightarrow> bool" where
  "grows s t \<longleftrightarrow>
     nameVal (globalShareContainerName s) \<le> nameVal (globalShareContainerName t) \<and>
     (\<forall>name bs. containerName name \<and> nameVal name < nameVal (globalShareContainerName s) \<and>
        containerOf s name = Some bs \<and> bs \<noteq> [] \<and> int (length bs) \<le> CONTAINER_BUFFER_SIZE \<longrightarrow>
        (\<exists>z. containerOf t name = Some (bs @ z) \<and> int (length (bs @ z)) \<le> CONTAINER_BUFFER_SIZE))"

lemma grows_refl [simp]: "grows s s"
  by (auto simp: grows_def intro: exI [of _ "[]"])

lemma grows_trans [trans]: "grows s t \<Longrightarrow> grows t u \<Longrightarrow> grows s u"
proof -
  assume st: "grows s t" and tu: "grows t u"
  have "\<exists>z. containerOf u name = Some (bs @ z) \<and> int (length (bs @ z)) \<le> CONTAINER_BUFFER_SIZE"
    if h: "containerName name" "nameVal name < nameVal (globalShareContainerName s)"
      "containerOf s name = Some bs" "bs \<noteq> []" "int (length bs) \<le> CONTAINER_BUFFER_SIZE" for name bs
  proof -
    from st h obtain z where z: "containerOf t name = Some (bs @ z)"
      "int (length (bs @ z)) \<le> CONTAINER_BUFFER_SIZE" unfolding grows_def by blast
    have "nameVal name < nameVal (globalShareContainerName t)" using st h by (auto simp: grows_def)
    moreover have "bs @ z \<noteq> []" using h by simp
    ultimately obtain y where "containerOf u name = Some ((bs @ z) @ y)"
      "int (length ((bs @ z) @ y)) \<le> CONTAINER_BUFFER_SIZE" using tu h z unfolding grows_def by blast
    then show ?thesis by auto
  qed
  then show "grows s u" using st tu unfolding grows_def by (meson order_trans)
qed

lemma located_grows:
  assumes "located ssl c s fp h" "grows s t"
  shows "located ssl c t fp h"
proof -
  from assms(1) obtain bs where bs: "containerOf s (sih_shareContainerName h) = Some bs"
    "sih_shareContainerOffset h + sih_shareSize h \<le> int (length bs)" "int (length bs) \<le> CONTAINER_BUFFER_SIZE"
    "generateHash ssl c (slice (nat (sih_shareContainerOffset h)) (nat (sih_shareSize h)) bs) = Inr fp"
    and pos: "0 \<le> sih_shareContainerOffset h" "0 < sih_shareSize h"
    and nm: "containerName (sih_shareContainerName h)"
      "nameVal (sih_shareContainerName h) < nameVal (globalShareContainerName s)"
    by (auto simp: located_def)
  moreover have "bs \<noteq> []" using bs pos by auto
  ultimately obtain z where z: "containerOf t (sih_shareContainerName h) = Some (bs @ z)"
    "int (length (bs @ z)) \<le> CONTAINER_BUFFER_SIZE"
    using assms(2) unfolding grows_def by blast
  have "slice (nat (sih_shareContainerOffset h)) (nat (sih_shareSize h)) (bs @ z) =
      slice (nat (sih_shareContainerOffset h)) (nat (sih_shareSize h)) bs"
    using bs pos by (intro slice_append_left) auto
  then show ?thesis using bs pos nm z assms(2) unfolding located_def grows_def by auto
qed

lemma sharesSound_grows:
  assumes "sharesSound ssl c s" "grows s t" "db t = db s"
  shows "sharesSound ssl c t"
  using assms located_grows unfolding sharesSound_def by metis

lemma sharesSound_put:
  assumes "sharesSound ssl c s" "grows s t" "db t = (db s)(shareFP2IndexKey fp \<mapsto> v)"
    and "shareValue v h refs" "located ssl c t fp h"
  shows "sharesSound ssl c t"
  unfolding sharesSound_def
proof (intro allI impI)
  fix fp' v' assume "db t (shareFP2IndexKey fp') = Some v'"
  then show "\<exists>h refs. shareValue v' h refs \<and> located ssl c t fp' h"
    using assms located_grows [OF _ assms(2)] unfolding sharesSound_def
    by (cases "fp' = fp") (auto, metis)
qed

lemma fetchShare_sound:
  assumes "sharesSound ssl c s" "db s (shareFP2IndexKey fp) = Some v"
  obtains d where "fetchShare s fp = Some d" "generateHash ssl c d = Inr fp"
    "int (length d) = sih_shareSize (headOf v)"
proof -
  from assms obtain h refs where v: "shareValue v h refs" "located ssl c s fp h"
    unfolding sharesSound_def by blast
  then show ?thesis using assms(2) that
    by (auto simp: fetchShare_def located_def shareValue_head)
qed

section \<open>The node being filled\<close>

text \<open>
  Operations on the buffer node of a user work on the node and on the rest of the state; \<open>backIn\<close>
  puts the node back into the link, where every reader sees it.
\<close>

definition backIn :: "bufferNode \<Rightarrow> dedupCore \<Rightarrow> dedupCore" where
  "backIn n s = s\<lparr>bufferLink := map (\<lambda>m. if bn_addr m = bn_addr n then n else m) (bufferLink s)\<rparr>"

definition linked :: "bufferNode \<Rightarrow> dedupCore \<Rightarrow> bool" where
  "linked n s \<longleftrightarrow> bn_addr n \<in> bn_addr ` set (bufferLink s)"

lemma backIn_frame [simp]:
  "db (backIn n s) = db s" "disk (backIn n s) = disk s" "tick (backIn n s) = tick s"
  "recipeFileDirName (backIn n s) = recipeFileDirName s"
  "shareContainerDirName (backIn n s) = shareContainerDirName s"
  "globalRecipeFileName (backIn n s) = globalRecipeFileName s"
  "globalShareContainerName (backIn n s) = globalShareContainerName s"
  "tailBufferNode (backIn n s) = tailBufferNode s" "nextAddr (backIn n s) = nextAddr s"
  "sent (backIn n s) = sent s"
  by (simp_all add: backIn_def)

lemma linked_mem: "linked n s \<Longrightarrow> n \<in> set (bufferLink (backIn n s))"
  by (force simp: linked_def backIn_def)

lemma addrs_backIn [simp]: "map bn_addr (bufferLink (backIn n s)) = map bn_addr (bufferLink s)"
  by (auto simp: backIn_def)

lemma find_distinct:
  assumes "distinct (map f xs)" "x \<in> set xs"
  shows "find (\<lambda>y. f y = f x) xs = Some x"
  using assms by (induction xs) (auto simp: image_iff)

lemma containerOf_link:
  assumes "linkSound s" "n \<in> set (bufferLink s)"
  shows "containerOf s (shareContainerName n) = Some (shareContainerBuffer n)"
  using assms by (simp add: containerOf_def linkSound_def find_distinct)

lemma containerOf_disk:
  "name \<notin> shareContainerName ` set (bufferLink s) \<Longrightarrow>
     containerOf s name = disk s (shareContainerDirName s @ name)"
  by (auto simp: containerOf_def find_Some_iff split: option.splits)

lemma containerOf_cong:
  "bufferLink t = bufferLink s \<Longrightarrow> disk t = disk s \<Longrightarrow> shareContainerDirName t = shareContainerDirName s \<Longrightarrow>
     containerOf t name = containerOf s name"
  by (simp add: containerOf_def split: option.split)

lemma grows_same:
  "bufferLink t = bufferLink s \<Longrightarrow> disk t = disk s \<Longrightarrow> shareContainerDirName t = shareContainerDirName s \<Longrightarrow>
     globalShareContainerName t = globalShareContainerName s \<Longrightarrow> grows s t"
  using containerOf_cong [of t s] by (auto simp: grows_def intro: exI [of _ "[]"])

lemma set_backIn:
  "linked n s \<Longrightarrow> set (bufferLink (backIn n s)) = insert n {m \<in> set (bufferLink s). bn_addr m \<noteq> bn_addr n}"
  by (auto simp: linked_def backIn_def image_iff)

lemma backIn_bufferLink_cong: "bufferLink t = bufferLink s \<Longrightarrow> bufferLink (backIn n t) = bufferLink (backIn n s)"
  by (simp add: backIn_def)

lemma distinct_backIn:
  assumes "distinct (map bn_addr (bufferLink s))" "distinct (map f (bufferLink s))" "linked n s"
    and "f n \<notin> f ` {m \<in> set (bufferLink s). bn_addr m \<noteq> bn_addr n}"
  shows "distinct (map f (bufferLink (backIn n s)))"
  using assms unfolding backIn_def linked_def
  by (simp add: distinct_map inj_on_def) (smt (verit) imageI mem_Collect_eq)

text \<open>Replacing the node by one that fills a new container, or more of the same one.\<close>

lemma linkSound_backIn:
  assumes s: "linkSound (backIn n s)" "linked n s"
    and n': "bn_addr n' = bn_addr n" "containerName (shareContainerName n')"
      "nameVal (shareContainerName n') < nameVal (globalShareContainerName t)"
      "shareContainerName n' = shareContainerName n \<or>
        nameVal (globalShareContainerName s) \<le> nameVal (shareContainerName n')"
      "shareContainerBufferCurrLen n' \<le> CONTAINER_BUFFER_SIZE"
    and t: "bufferLink t = bufferLink s" "nextAddr t = nextAddr s" "containerName (globalShareContainerName t)"
      "nameVal (globalShareContainerName s) \<le> nameVal (globalShareContainerName t)"
  shows "linkSound (backIn n' t) \<and> linked n' t"
proof -
  have bk: "bufferLink (backIn n' t) = bufferLink (backIn n' (backIn n s))"
    using n' t by (auto simp: backIn_def)
  have lk: "linked n' (backIn n s)" "linked n' t" using s n' t by (auto simp: linked_def backIn_def)
  have others: "{m \<in> set (bufferLink (backIn n s)). bn_addr m \<noteq> bn_addr n'} =
      {m \<in> set (bufferLink (backIn n s)). bn_addr m \<noteq> bn_addr n}" using n' by simp
  have fresh: "shareContainerName n' \<notin> shareContainerName ` {m \<in> set (bufferLink (backIn n s)). bn_addr m \<noteq> bn_addr n'}"
  proof
    assume "shareContainerName n' \<in> shareContainerName ` {m \<in> set (bufferLink (backIn n s)). bn_addr m \<noteq> bn_addr n'}"
    then obtain m where m: "m \<in> set (bufferLink (backIn n s))" "bn_addr m \<noteq> bn_addr n"
      "shareContainerName m = shareContainerName n'" using n' by auto
    from n'(4) show False
    proof
      assume "shareContainerName n' = shareContainerName n"
      then have "m = n" using s m linked_mem [OF s(2)]
        by (metis (mono_tags, lifting) linkSound_def distinct_map inj_on_def)
      then show False using m by simp
    next
      assume "nameVal (globalShareContainerName s) \<le> nameVal (shareContainerName n')"
      then show False using s m by (auto simp: linkSound_def nodeSound_def)
    qed
  qed
  have "distinct (map shareContainerName (bufferLink (backIn n' t)))"
    unfolding bk by (rule distinct_backIn) (use s lk fresh in \<open>auto simp: linkSound_def\<close>)
  moreover have "nodeSound (backIn n' t) m" if "m \<in> set (bufferLink (backIn n' t))" for m
  proof (cases "m = n'")
    case True
    have "bn_addr n < nextAddr s" using s linked_mem [OF s(2)] by (auto simp: linkSound_def nodeSound_def)
    then show ?thesis using True n' t by (simp add: nodeSound_def)
  next
    case False
    then have "nodeSound (backIn n s) m"
      using that s(1) set_backIn [OF lk(1)] unfolding bk by (auto simp: linkSound_def)
    then show ?thesis using t by (auto simp: nodeSound_def)
  qed
  ultimately show ?thesis using s t lk by (simp add: linkSound_def)
qed

lemma grows_backIn:
  assumes s: "linkSound (backIn n s)" "linked n s" and t: "linkSound (backIn n' t)"
    and eq: "bn_addr n' = bn_addr n" "bufferLink t = bufferLink s"
      "shareContainerDirName t = shareContainerDirName s"
      "nameVal (globalShareContainerName s) \<le> nameVal (globalShareContainerName t)"
    and other: "\<And>name. containerName name \<Longrightarrow> name \<noteq> shareContainerName n \<Longrightarrow>
      disk t (shareContainerDirName s @ name) = disk s (shareContainerDirName s @ name)"
    and own: "(\<exists>z. shareContainerName n' = shareContainerName n \<and>
        shareContainerBuffer n' = shareContainerBuffer n @ z) \<or>
      nameVal (globalShareContainerName s) \<le> nameVal (shareContainerName n') \<and>
        disk t (shareContainerDirName s @ shareContainerName n) = Some (shareContainerBuffer n)"
  shows "grows (backIn n s) (backIn n' t)"
  unfolding grows_def
proof (intro conjI allI impI)
  show "nameVal (globalShareContainerName (backIn n s)) \<le> nameVal (globalShareContainerName (backIn n' t))"
    using eq by simp
next
  fix name bs
  assume h: "containerName name \<and> nameVal name < nameVal (globalShareContainerName (backIn n s)) \<and>
    containerOf (backIn n s) name = Some bs \<and> bs \<noteq> [] \<and> int (length bs) \<le> CONTAINER_BUFFER_SIZE"
  have lk: "linked n' t" using s eq by (simp add: linked_def)
  have sett: "set (bufferLink (backIn n' t)) = insert n' {m \<in> set (bufferLink s). bn_addr m \<noteq> bn_addr n}"
    using set_backIn [OF lk] eq by simp
  have sets: "set (bufferLink (backIn n s)) = insert n {m \<in> set (bufferLink s). bn_addr m \<noteq> bn_addr n}"
    using set_backIn [OF s(2)] .
  have cap: "shareContainerBufferCurrLen n' \<le> CONTAINER_BUFFER_SIZE"
    using t sett by (auto simp: linkSound_def nodeSound_def)
  show "\<exists>z. containerOf (backIn n' t) name = Some (bs @ z) \<and> int (length (bs @ z)) \<le> CONTAINER_BUFFER_SIZE"
  proof (cases "name = shareContainerName n")
    case True
    have bs: "bs = shareContainerBuffer n"
      using containerOf_link [OF s(1) linked_mem [OF s(2)]] h True by simp
    from own show ?thesis
    proof
      assume "\<exists>z. shareContainerName n' = shareContainerName n \<and>
        shareContainerBuffer n' = shareContainerBuffer n @ z"
      then show ?thesis using containerOf_link [OF t linked_mem [OF lk]] True bs cap by auto
    next
      assume new: "nameVal (globalShareContainerName s) \<le> nameVal (shareContainerName n') \<and>
        disk t (shareContainerDirName s @ shareContainerName n) = Some (shareContainerBuffer n)"
      have "name \<notin> shareContainerName ` set (bufferLink (backIn n' t))"
      proof
        assume "name \<in> shareContainerName ` set (bufferLink (backIn n' t))"
        then obtain m where m: "m \<in> insert n' {m \<in> set (bufferLink s). bn_addr m \<noteq> bn_addr n}"
          "shareContainerName m = name" unfolding sett by auto
        show False
        proof (cases "m = n'")
          case True
          then show False using new h m by simp
        next
          case False
          then have "m \<in> set (bufferLink (backIn n s))" "m \<noteq> n" using m sets by auto
          then show False using s(1) m True linked_mem [OF s(2)]
            by (metis (mono_tags, lifting) linkSound_def distinct_map inj_on_def)
        qed
      qed
      then show ?thesis using new True bs h eq by (auto simp: containerOf_disk)
    qed
  next
    case False
    show ?thesis
    proof (cases "name \<in> shareContainerName ` set (bufferLink (backIn n s))")
      case True
      then obtain m where m: "m \<in> set (bufferLink s)" "bn_addr m \<noteq> bn_addr n" "shareContainerName m = name"
        using False sets by auto
      then have "containerOf (backIn n s) name = Some (shareContainerBuffer m)"
        "containerOf (backIn n' t) name = Some (shareContainerBuffer m)"
        using containerOf_link [OF s(1), of m] containerOf_link [OF t, of m] sets sett by auto
      then show ?thesis using h by auto
    next
      case outside: False
      have "name \<notin> shareContainerName ` set (bufferLink (backIn n' t))"
        using outside sett sets own h False by auto
      then show ?thesis using outside h eq other [of name] False
        by (auto simp: containerOf_disk)
    qed
  qed
qed

section \<open>The operations keep the invariant\<close>

definition storeInv :: "openssl \<Rightarrow> cryptoPrimitive \<Rightarrow> dedupCore \<Rightarrow> bool" where
  "storeInv ssl c s \<longleftrightarrow> linkSound s \<and> sharesSound ssl c s"

text \<open>The place of a share; an operation keeps the places of all shares that are in the index.\<close>

definition placeOf :: "dedupCore \<Rightarrow> bytes \<Rightarrow> share_loc option" where
  "placeOf s fp = map_option (\<lambda>v. locOf (headOf v)) (db s (shareFP2IndexKey fp))"

definition keepsPlaces :: "dedupCore \<Rightarrow> dedupCore \<Rightarrow> bool" where
  "keepsPlaces s t \<longleftrightarrow> (\<forall>fp l. placeOf s fp = Some l \<longrightarrow> placeOf t fp = Some l)"

lemma keepsPlaces_refl [simp]: "keepsPlaces s s"
  by (simp add: keepsPlaces_def)

lemma keepsPlaces_trans: "keepsPlaces s t \<Longrightarrow> keepsPlaces t u \<Longrightarrow> keepsPlaces s u"
  by (simp add: keepsPlaces_def)

lemma keepsPlaces_same: "(\<And>fp. db t (shareFP2IndexKey fp) = db s (shareFP2IndexKey fp)) \<Longrightarrow> keepsPlaces s t"
  by (simp add: keepsPlaces_def placeOf_def)

lemma keepsPlaces_put:
  assumes "db t = (db s)(shareFP2IndexKey fp \<mapsto> v)" "\<And>l. placeOf s fp = Some l \<Longrightarrow> locOf (headOf v) = l"
  shows "keepsPlaces s t"
proof -
  have "placeOf t k = Some l" if "placeOf s k = Some l" for k l
    using assms that by (cases "k = fp") (auto simp: placeOf_def)
  then show ?thesis by (simp add: keepsPlaces_def)
qed

lemma keepsPlaces_db: "keepsPlaces s t \<Longrightarrow> db s (shareFP2IndexKey fp) \<noteq> None \<Longrightarrow> db t (shareFP2IndexKey fp) \<noteq> None"
proof -
  assume kp: "keepsPlaces s t" and "db s (shareFP2IndexKey fp) \<noteq> None"
  then obtain v where "placeOf s fp = Some (locOf (headOf v))" by (auto simp: placeOf_def)
  then have "placeOf t fp = Some (locOf (headOf v))" using kp unfolding keepsPlaces_def by blast
  then show ?thesis by (auto simp: placeOf_def)
qed

lemma placeOf_backIn [simp]: "placeOf (backIn n s) = placeOf s"
  by (simp add: placeOf_def fun_eq_iff)

lemma keepsPlaces_backIn [simp]: "keepsPlaces (backIn n s) t = keepsPlaces s t" "keepsPlaces s (backIn n t) = keepsPlaces s t"
  by (simp_all add: keepsPlaces_def)

text \<open>A share whose place is kept keeps its bytes.\<close>

lemma fetchShare_kept:
  assumes snd: "sharesSound ssl c s" and g: "grows s t" "keepsPlaces s t" and v: "db s (shareFP2IndexKey fp) = Some v"
  shows "fetchShare t fp = fetchShare s fp"
proof -
  obtain h refs where h: "shareValue v h refs" "located ssl c s fp h" using snd v unfolding sharesSound_def by blast
  obtain v' where v': "db t (shareFP2IndexKey fp) = Some v'" "locOf (headOf v') = locOf (headOf v)"
    using g(2) v unfolding keepsPlaces_def placeOf_def by (metis map_option_eq_Some option.simps(9))
  obtain bs where bs: "containerOf s (sih_shareContainerName h) = Some bs"
    "sih_shareContainerOffset h + sih_shareSize h \<le> int (length bs)" "int (length bs) \<le> CONTAINER_BUFFER_SIZE"
    and pos: "0 \<le> sih_shareContainerOffset h" "0 < sih_shareSize h"
    and nm: "containerName (sih_shareContainerName h)"
      "nameVal (sih_shareContainerName h) < nameVal (globalShareContainerName s)"
    using h(2) by (auto simp: located_def)
  moreover have "bs \<noteq> []" using bs pos by auto
  ultimately obtain z where z: "containerOf t (sih_shareContainerName h) = Some (bs @ z)"
    using g(1) unfolding grows_def by blast
  have "slice (nat (sih_shareContainerOffset h)) (nat (sih_shareSize h)) (bs @ z) =
      slice (nat (sih_shareContainerOffset h)) (nat (sih_shareSize h)) bs"
    using bs pos by (intro slice_append_left) auto
  then show ?thesis using v v' z bs(1) by (simp add: fetchShare_def shareValue_head [OF h(1)] locOf_def)
qed

text \<open>
  What a share operation on the node of a user leaves alone: everything about recipes, the inode
  index, the other nodes and the places of the shares in the index.
\<close>

definition shareFrame :: "bufferNode \<times> dedupCore \<Rightarrow> bufferNode \<times> dedupCore \<Rightarrow> bool" where
  "shareFrame st st' \<longleftrightarrow>
     (\<exists>nm buf. fst st' = (fst st)\<lparr>shareContainerName := nm, shareContainerBuffer := buf\<rparr>) \<and>
     bufferLink (snd st') = bufferLink (snd st) \<and>
     recipeFileDirName (snd st') = recipeFileDirName (snd st) \<and>
     shareContainerDirName (snd st') = shareContainerDirName (snd st) \<and>
     globalRecipeFileName (snd st') = globalRecipeFileName (snd st) \<and>
     tailBufferNode (snd st') = tailBufferNode (snd st) \<and> nextAddr (snd st') = nextAddr (snd st) \<and>
     sent (snd st') = sent (snd st) \<and>
     (\<forall>fp. db (snd st') (inodeFP2IndexKey fp) = db (snd st) (inodeFP2IndexKey fp)) \<and>
     (\<forall>p. last p \<noteq> 99 \<longrightarrow> disk (snd st') p = disk (snd st) p) \<and>
     keepsPlaces (snd st) (snd st')"

lemma shareFrame_refl: "shareFrame st st"
proof -
  have "fst st = (fst st)\<lparr>shareContainerName := shareContainerName (fst st),
    shareContainerBuffer := shareContainerBuffer (fst st)\<rparr>" by simp
  then show ?thesis unfolding shareFrame_def using keepsPlaces_refl by blast
qed

lemma shareFrame_trans: "shareFrame st st' \<Longrightarrow> shareFrame st' st'' \<Longrightarrow> shareFrame st st''"
  unfolding shareFrame_def by (elim conjE exE, intro conjI) (simp_all, blast, erule (1) keepsPlaces_trans)

definition shareStep ::
  "openssl \<Rightarrow> cryptoPrimitive \<Rightarrow> nat \<Rightarrow> bufferNode \<times> dedupCore \<Rightarrow> bufferNode \<times> dedupCore \<Rightarrow> bool" where
  "shareStep ssl c k st st' \<longleftrightarrow>
     linked (fst st') (snd st') \<and> storeInv ssl c (backIn (fst st') (snd st')) \<and>
     grows (backIn (fst st) (snd st)) (backIn (fst st') (snd st')) \<and> shareFrame st st' \<and>
     nameVal (globalShareContainerName (snd st')) \<le> nameVal (globalShareContainerName (snd st)) + k"

lemma shareStep_trans:
  "shareStep ssl c j st st' \<Longrightarrow> shareStep ssl c k st' st'' \<Longrightarrow> shareStep ssl c (j + k) st st''"
  unfolding shareStep_def
  by (elim conjE, intro conjI) (assumption | erule (1) grows_trans | erule (1) shareFrame_trans | linarith)+

lemma shareStep_mono: "shareStep ssl c j st st' \<Longrightarrow> j \<le> k \<Longrightarrow> shareStep ssl c k st st'"
  unfolding shareStep_def by auto

lemma containerName_ok: "containerName nm \<Longrightarrow> okName nm \<and> last nm = 99 \<and> addPrefixDir d nm = Some (d @ nm)"
  using validName_ok [of scSuffix nm] by (simp add: scSuffix_def)

lemma storeInv_db:
  assumes "storeInv ssl c s" "grows s t" "db t = db s" "linkSound t"
  shows "storeInv ssl c t"
  using assms sharesSound_grows by (auto simp: storeInv_def)

lemma storeShareContainer_inv:
  assumes inv: "storeInv ssl c (backIn n s)" "linked n s"
    and more: "nameVal (globalShareContainerName s) + 1 < 26 ^ 12"
  shows "case storeShareContainer E (n, s) of
      Done path st' \<Rightarrow> shareStep ssl c 1 (n, s) st' \<and> db (snd st') = db s \<and> shareContainerBuffer (fst st') = []
    | Fails st' \<Rightarrow> shareStep ssl c 1 (n, s) st' \<and> (faultless E \<longrightarrow> shareContainerBuffer n = [])
    | Crash e \<Rightarrow> False"
proof -
  have ls: "linkSound (backIn n s)" using inv by (simp add: storeInv_def)
  have node: "containerName (shareContainerName n)"
      "nameVal (shareContainerName n) < nameVal (globalShareContainerName s)"
      "shareContainerBufferCurrLen n \<le> CONTAINER_BUFFER_SIZE"
    using ls linked_mem [OF inv(2)] by (auto simp: linkSound_def nodeSound_def)
  have glob: "containerName (globalShareContainerName s)" using ls by (simp add: linkSound_def)
  let ?path = "shareContainerDirName s @ shareContainerName n"
  have lastp: "last ?path = 99"
    using containerName_ok [OF node(1)] node by (cases "shareContainerName n = []") (auto simp: validName_def)
  have pre: "addPrefixDir (shareContainerDirName s) (shareContainerName n) = Some ?path"
    using containerName_ok [OF node(1)] by blast
  have failed: "shareStep ssl c 1 (n, s) (n, t)"
    if t: "t = s\<lparr>disk := disk t, tick := tick t\<rparr>" "\<And>p. p \<noteq> ?path \<Longrightarrow> disk t p = disk s p" for t
  proof -
    have f: "bufferLink t = bufferLink s" "nextAddr t = nextAddr s" "db t = db s"
      "shareContainerDirName t = shareContainerDirName s" "globalShareContainerName t = globalShareContainerName s"
      "recipeFileDirName t = recipeFileDirName s" "globalRecipeFileName t = globalRecipeFileName s"
      "tailBufferNode t = tailBufferNode s" "sent t = sent s"
      by (subst t(1), simp)+
    have lt: "linkSound (backIn n t) \<and> linked n t"
      by (rule linkSound_backIn [OF ls inv(2)]) (use node glob f in simp_all)
    have g: "grows (backIn n s) (backIn n t)"
      by (rule grows_backIn [OF ls inv(2)]) (use lt f t(2) in auto)
    have dd: "\<forall>p. last p \<noteq> 99 \<longrightarrow> disk t p = disk s p" using lastp t(2) by metis
    have "shareFrame (n, s) (n, s)" by (rule shareFrame_refl)
    then have "shareFrame (n, s) (n, t)"
      using dd keepsPlaces_same [of t s] unfolding shareFrame_def by (auto simp: f)
    then show ?thesis using lt g f inv by (simp add: shareStep_def storeInv_db [OF inv(1) g])
  qed
  show ?thesis
  proof (cases rule: fopenWb_cases [where E = E and path = ?path and s = s])
    case fault
    then show ?thesis using failed [of "tock s"] by (simp add: storeShareContainer_def pre tock_def)
  next
    case ok
    let ?s1 = "tock (s\<lparr>disk := (disk s)(?path \<mapsto> [])\<rparr>)"
    show ?thesis
    proof (cases rule: fwriteAt_cases
        [where E = E and path = ?path and pos = 0 and bs = "shareContainerBuffer n" and s = ?s1])
      case (bad d)
      then show ?thesis using ok failed [of "tock (?s1\<lparr>disk := (disk ?s1)(?path \<mapsto> d)\<rparr>)"]
        by (auto simp: storeShareContainer_def pre tock_def)
    next
      case written: ok
      let ?s2 = "tock (?s1\<lparr>disk := (disk ?s1)(?path \<mapsto> shareContainerBuffer n)\<rparr>)"
      let ?g = "globalShareContainerName s"
      let ?t = "?s2\<lparr>globalShareContainerName := fst (incrGlobalFileName ?g 12)\<rparr>"
      let ?n = "n\<lparr>shareContainerName := take 15 ?g, shareContainerBuffer := []\<rparr>"
      have run: "storeShareContainer E (n, s) = Done ?path (?n, ?t)"
        using ok written by (simp add: storeShareContainer_def pre fileContents_def)
      have g15: "take 15 ?g = ?g" using glob by (simp add: validName_def)
      have next_name: "containerName (fst (incrGlobalFileName ?g 12))"
        "nameVal (fst (incrGlobalFileName ?g 12)) = nameVal ?g + 1"
        using incrGlobalFileName_step [OF glob more] by auto
      have lt: "linkSound (backIn ?n ?t) \<and> linked ?n ?t"
        by (rule linkSound_backIn [OF ls inv(2)])
           (use glob next_name in \<open>simp_all add: g15 CONTAINER_BUFFER_SIZE_def\<close>)
      have g: "grows (backIn n s) (backIn ?n ?t)"
        by (rule grows_backIn [OF ls inv(2)]) (use lt next_name in \<open>auto simp: g15\<close>)
      have "shareFrame (n, s) (?n, ?t)"
        unfolding shareFrame_def using lastp by (auto intro: keepsPlaces_same)
      then have "shareStep ssl c 1 (n, s) (?n, ?t)"
        using lt g next_name storeInv_db [OF inv(1) g] by (simp add: shareStep_def)
      then show ?thesis by (simp add: run)
    qed
  qed
qed

lemma located_locOf: "locOf h = locOf h' \<Longrightarrow> located ssl c s fp h \<longleftrightarrow> located ssl c s fp h'"
  by (simp add: locOf_def located_def)

text \<open>A rewrite of an index value that keeps the place of the share.\<close>

lemma shareStep_rewrite:
  assumes inv: "storeInv ssl c (backIn n s)" "linked n s"
    and v: "shareValue v h refs" "located ssl c (backIn n s) fp h0" "locOf h = locOf h0"
    and v0: "db s (shareFP2IndexKey fp) = Some v0" "shareValue v0 h0 refs0"
    and t: "t = s\<lparr>db := (db s)(shareFP2IndexKey fp \<mapsto> v), tick := tick t\<rparr>"
  shows "shareStep ssl c 0 (n, s) (n, t)"
proof -
  have f: "bufferLink t = bufferLink s" "nextAddr t = nextAddr s" "db t = (db s)(shareFP2IndexKey fp \<mapsto> v)"
    "disk t = disk s"
    "shareContainerDirName t = shareContainerDirName s" "globalShareContainerName t = globalShareContainerName s"
    "recipeFileDirName t = recipeFileDirName s" "globalRecipeFileName t = globalRecipeFileName s"
    "tailBufferNode t = tailBufferNode s" "sent t = sent s"
    by (subst t, simp)+
  have ls: "linkSound (backIn n s)" using inv by (simp add: storeInv_def)
  then have node: "containerName (shareContainerName n)"
      "nameVal (shareContainerName n) < nameVal (globalShareContainerName s)"
      "shareContainerBufferCurrLen n \<le> CONTAINER_BUFFER_SIZE" "containerName (globalShareContainerName s)"
    using linked_mem [OF inv(2)] by (auto simp: linkSound_def nodeSound_def)
  have lt: "linkSound (backIn n t) \<and> linked n t"
    by (rule linkSound_backIn [OF ls inv(2)]) (use node f in simp_all)
  have g: "grows (backIn n s) (backIn n t)"
    using f by (intro grows_same) (simp_all add: backIn_def)
  have "located ssl c (backIn n t) fp h"
    using v located_grows [OF _ g] located_locOf by metis
  then have "sharesSound ssl c (backIn n t)"
    using inv f v by (intro sharesSound_put [OF _ g]) (auto simp: storeInv_def)
  moreover have "shareFrame (n, s) (n, t)"
    using shareFrame_refl [of "(n, s)"] keepsPlaces_put [OF f(3)] v v0 unfolding shareFrame_def
    by (auto simp: f shareFP2IndexKey_def inodeFP2IndexKey_def placeOf_def shareValue_head)
  ultimately show ?thesis using lt g f by (simp add: shareStep_def storeInv_def)
qed

text \<open>A new share at the end of the node's container, with or without its index value.\<close>

lemma shareStep_append:
  assumes inv: "storeInv ssl c (backIn n s)" "linked n s"
    and room: "shareContainerBufferCurrLen n + int (length d) \<le> CONTAINER_BUFFER_SIZE"
    and d: "generateHash ssl c d = Inr fp" "d \<noteq> []" and u: "int32 u" "0 < u"
    and t: "t = s\<lparr>db := db t, tick := tick t\<rparr>"
      "db t = db s \<or> db t = (db s)(shareFP2IndexKey fp \<mapsto>
         newShareValue (shareContainerName n) (shareContainerBufferCurrLen n) (int (length d)) u)"
    and new: "db s (shareFP2IndexKey fp) = None"
  shows "shareStep ssl c 0 (n, s) (n\<lparr>shareContainerBuffer := shareContainerBuffer n @ d\<rparr>, t)"
proof -
  let ?n = "n\<lparr>shareContainerBuffer := shareContainerBuffer n @ d\<rparr>"
  have f: "bufferLink t = bufferLink s" "nextAddr t = nextAddr s" "disk t = disk s"
    "shareContainerDirName t = shareContainerDirName s" "globalShareContainerName t = globalShareContainerName s"
    "recipeFileDirName t = recipeFileDirName s" "globalRecipeFileName t = globalRecipeFileName s"
    "tailBufferNode t = tailBufferNode s" "sent t = sent s"
    by (subst t, simp)+
  have ls: "linkSound (backIn n s)" using inv by (simp add: storeInv_def)
  then have node: "containerName (shareContainerName n)"
      "nameVal (shareContainerName n) < nameVal (globalShareContainerName s)" "containerName (globalShareContainerName s)"
    using linked_mem [OF inv(2)] by (auto simp: linkSound_def nodeSound_def)
  have lt: "linkSound (backIn ?n t) \<and> linked ?n t"
    by (rule linkSound_backIn [OF ls inv(2)]) (use node f room in simp_all)
  have g: "grows (backIn n s) (backIn ?n t)"
    by (rule grows_backIn [OF ls inv(2)]) (use lt f in auto)
  have frame: "shareFrame (n, s) (?n, t)"
  proof -
    have "\<exists>nm buf. ?n = n\<lparr>shareContainerName := nm, shareContainerBuffer := buf\<rparr>"
      by (intro exI [of _ "shareContainerName n"] exI [of _ "shareContainerBuffer n @ d"]) simp
    moreover have "\<forall>k. db t (inodeFP2IndexKey k) = db s (inodeFP2IndexKey k)"
      using t(2) by (auto simp: shareFP2IndexKey_def inodeFP2IndexKey_def)
    moreover have "keepsPlaces s t"
      using t(2) by (elim disjE) (auto intro: keepsPlaces_same elim!: keepsPlaces_put simp: placeOf_def new)
    ultimately show ?thesis unfolding shareFrame_def using f by simp
  qed
  have "sharesSound ssl c (backIn ?n t)"
  proof -
    have old: "sharesSound ssl c (backIn n s)" using inv by (simp add: storeInv_def)
    from t(2) show ?thesis
    proof
      assume "db t = db s"
      then show ?thesis using sharesSound_grows [OF old g] by simp
    next
      let ?h = "\<lparr> sih_shareContainerName = shareContainerName n, sih_shareContainerOffset = shareContainerBufferCurrLen n,
        sih_shareSize = int (length d), sih_numOfUsers = 1 \<rparr>"
      assume put: "db t = (db s)(shareFP2IndexKey fp \<mapsto>
         newShareValue (shareContainerName n) (shareContainerBufferCurrLen n) (int (length d)) u)"
      have v: "shareValue (newShareValue (shareContainerName n) (shareContainerBufferCurrLen n) (int (length d)) u)
          ?h [\<lparr> ure_userID = u, ure_refCnt = 1 \<rparr>]"
        using containerName_ok [OF node(1)] room u
        by (intro newShareValue_valid) (auto simp: int32_def CONTAINER_BUFFER_SIZE_def)
      have "containerOf (backIn ?n t) (shareContainerName ?n) = Some (shareContainerBuffer ?n)"
        using lt linked_mem by (intro containerOf_link) auto
      then have "located ssl c (backIn ?n t) fp ?h"
        using node f room d by (simp add: located_def)
      then show ?thesis using put v by (intro sharesSound_put [OF old g]) auto
    qed
  qed
  then show ?thesis using lt g f frame by (simp add: shareStep_def storeInv_def)
qed

lemma sharesSoundE:
  assumes "sharesSound ssl c s" "db s (shareFP2IndexKey fp) = Some v"
  obtains h refs where "shareValue v h refs" "located ssl c s fp h"
  using assms unfolding sharesSound_def by blast

lemma storeNewShare_inv:
  assumes inv: "storeInv ssl c (backIn n s)" "linked n s"
    and more: "nameVal (globalShareContainerName s) + 1 < 26 ^ 12"
    and d: "generateHash ssl c (slice (nat off) (nat sz) dat) = Inr fp" and sz: "sz \<noteq> 0" and u: "int32 u" "0 < u"
    and new: "db s (shareFP2IndexKey fp) = None"
  shows "case storeNewShare E (shareFP2IndexKey fp) u sz dat off (n, s) of
      Done x st' \<Rightarrow> shareStep ssl c 1 (n, s) st' \<and> (faultless E \<longrightarrow> db (snd st') (shareFP2IndexKey fp) \<noteq> None)
    | Fails st' \<Rightarrow> shareStep ssl c 1 (n, s) st'
    | Crash e \<Rightarrow> sz < 0 \<or> off < 0 \<or> int (length dat) < off + sz \<or> CONTAINER_BUFFER_SIZE < sz"
proof -
  let ?d = "slice (nat off) (nat sz) dat"
  define r where "r = (if shareContainerBufferCurrLen n + sz > CONTAINER_BUFFER_SIZE
        then storeShareContainer E (n, s) else Done [] (n, s))"
  have room: "case r of Done p st1 \<Rightarrow> shareStep ssl c 1 (n, s) st1 \<and> db (snd st1) = db s \<and>
        (shareContainerBufferCurrLen (fst st1) + sz \<le> CONTAINER_BUFFER_SIZE \<or> CONTAINER_BUFFER_SIZE < sz)
      | Fails st1 \<Rightarrow> shareStep ssl c 1 (n, s) st1 | Crash e \<Rightarrow> False"
  proof (cases "shareContainerBufferCurrLen n + sz > CONTAINER_BUFFER_SIZE")
    case True
    then show ?thesis using storeShareContainer_inv [OF inv more, of E]
      by (auto simp: r_def split: outcome.splits)
  next
    case False
    have "shareStep ssl c 1 (n, s) (n, s)"
      using inv by (simp add: shareStep_def shareFrame_refl)
    then show ?thesis using False by (simp add: r_def)
  qed
  show ?thesis
  proof (cases r)
    case (Done p st1)
    obtain n1 s1 where st1: "st1 = (n1, s1)" by (cases st1)
    from room Done st1 have step: "shareStep ssl c 1 (n, s) (n1, s1)" and new1: "db s1 (shareFP2IndexKey fp) = None"
      and cap: "shareContainerBufferCurrLen n1 + sz \<le> CONTAINER_BUFFER_SIZE \<or> CONTAINER_BUFFER_SIZE < sz" using new by auto
    let ?v = "newShareValue (shareContainerName n1) (shareContainerBufferCurrLen n1) sz u"
    let ?t = "snd (dbPut E (shareFP2IndexKey fp) ?v s1)"
    have run: "storeNewShare E (shareFP2IndexKey fp) u sz dat off (n, s) =
        bindO (safeO (0 \<le> sz \<and> 0 \<le> off \<and> off + sz \<le> int (length dat)) OutOfBounds (n1, ?t)) (\<lambda>_ _.
        bindO (safeO (shareContainerBufferCurrLen n1 + sz \<le> CONTAINER_BUFFER_SIZE) BufferOverflow (n1, ?t)) (\<lambda>_ _.
        Done () (n1\<lparr>shareContainerBuffer := shareContainerBuffer n1 @ ?d\<rparr>, ?t)))"
      using Done by (simp add: storeNewShare_def st1 Let_def flip: r_def)
    show ?thesis
    proof (cases "0 \<le> sz \<and> 0 \<le> off \<and> off + sz \<le> int (length dat) \<and>
        shareContainerBufferCurrLen n1 + sz \<le> CONTAINER_BUFFER_SIZE")
      case True
      then have "nat sz \<le> length dat - nat off" by linarith
      then have len: "int (length ?d) = sz" using True by simp
      have ne: "?d \<noteq> []" proof
        assume "?d = []"
        then have "int (length ?d) = 0" by (simp only: list.size)
        then show False using len sz by simp
      qed
      have inv1: "storeInv ssl c (backIn n1 s1)" "linked n1 s1" using step by (auto simp: shareStep_def)
      have put: "?t = s1\<lparr>db := db ?t, tick := tick ?t\<rparr>"
        "db ?t = db s1 \<or> db ?t = (db s1)(shareFP2IndexKey fp \<mapsto> ?v)"
        "faultless E \<longrightarrow> db ?t (shareFP2IndexKey fp) \<noteq> None"
        by (cases rule: dbPut_cases [where E = E and key = "shareFP2IndexKey fp" and v = ?v and s = s1];
            simp add: tock_def)+
      have "shareStep ssl c 0 (n1, s1) (n1\<lparr>shareContainerBuffer := shareContainerBuffer n1 @ ?d\<rparr>, ?t)"
        by (rule shareStep_append [OF inv1 _ d ne u put(1)]) (use True len put(2) new1 in auto)
      then show ?thesis using shareStep_trans [OF step] put(3) True run by fastforce
    next
      case False
      then show ?thesis using cap by (auto simp: run safeO_def)
    qed
  qed (use room in \<open>simp_all add: storeNewShare_def flip: r_def\<close>)
qed

lemma interUserIndexUpdate_inv:
  assumes inv: "storeInv ssl c (backIn n s)" "linked n s"
    and more: "nameVal (globalShareContainerName s) + 1 < 26 ^ 12"
    and d: "generateHash ssl c (slice (nat off) (nat sz) dat) = Inr fp" and sz: "sz \<noteq> 0" and u: "int32 u" "0 < u"
  shows "case interUserIndexUpdate E fp u sz dat off (n, s) of
      Done x st' \<Rightarrow> shareStep ssl c 1 (n, s) st' \<and> (faultless E \<longrightarrow> db (snd st') (shareFP2IndexKey fp) \<noteq> None)
    | Fails st' \<Rightarrow> shareStep ssl c 1 (n, s) st'
    | Crash e \<Rightarrow> sz < 0 \<or> off < 0 \<or> int (length dat) < off + sz \<or> CONTAINER_BUFFER_SIZE < sz"
proof -
  let ?key = "shareFP2IndexKey fp"
  have same: "storeInv ssl c (backIn n (tock s))" "linked n (tock s)" "shareStep ssl c 0 (n, s) (n, tock s)"
  proof -
    have b: "backIn n (tock s) = (backIn n s)\<lparr>tick := Suc (tick s)\<rparr>" by (simp add: backIn_def tock_def)
    have g: "grows (backIn n s) (backIn n (tock s))" by (rule grows_same) (simp_all add: b)
    have l: "linkSound (backIn n (tock s))"
      using inv by (simp add: storeInv_def linkSound_def nodeSound_def b)
    show 1: "storeInv ssl c (backIn n (tock s))" using storeInv_db [OF inv(1) g _ l] by simp
    show 2: "linked n (tock s)" using inv by (simp add: linked_def)
    show "shareStep ssl c 0 (n, s) (n, tock s)"
      using 1 2 g shareFrame_refl [of "(n, s)"] keepsPlaces_same [of "tock s" s] by (auto simp: shareStep_def shareFrame_def)
  qed
  have one: "shareStep ssl c 0 (n, tock s) st' \<Longrightarrow> shareStep ssl c 1 (n, s) st'" for st'
    using shareStep_trans [OF same(3)] shareStep_mono by fastforce
  have one': "shareStep ssl c 1 (n, tock s) st' \<Longrightarrow> shareStep ssl c 1 (n, s) st'" for st'
    using shareStep_trans [OF same(3)] by fastforce
  have stay: "shareStep ssl c 1 (n, s) (n, tock s)" using same(3) shareStep_mono by fastforce
  show ?thesis
  proof (cases rule: dbGet_cases [where E = E and key = ?key and s = s])
    case (ok v)
    have "sharesSound ssl c (backIn n (tock s))" using same by (simp add: storeInv_def)
    moreover have "db (backIn n (tock s)) ?key = Some v" using ok by simp
    ultimately obtain h refs where v: "shareValue v h refs" "located ssl c (backIn n (tock s)) fp h"
      by (rule sharesSoundE)
    define val where "val = (case userPos u refs of Some i \<Rightarrow> bumpRefCnt v (28 + 8 * int i) | None \<Rightarrow> appendUserRef v u)"
    have new: "\<exists>h' refs'. shareValue val h' refs' \<and> locOf h' = locOf h"
    proof (cases "userPos u refs")
      case None
      then have "shareValue (appendUserRef v u) (h\<lparr>sih_numOfUsers := sih_numOfUsers h + 1\<rparr>)
          (refs @ [\<lparr> ure_userID = u, ure_refCnt = 1 \<rparr>])"
        using u userPos_None by (intro appendUserRef_valid [OF v(1)]) auto
      moreover have "locOf (h\<lparr>sih_numOfUsers := sih_numOfUsers h + 1\<rparr>) = locOf h" by (simp add: locOf_def)
      ultimately show ?thesis using None unfolding val_def by auto
    next
      case (Some i)
      then show ?thesis using bumpRefCnt_valid [OF v(1), of i] userPos_Some [OF Some]
        unfolding val_def by auto
    qed
    have run: "interUserIndexUpdate E fp u sz dat off (n, s) = (case dbPut E ?key val (tock s) of
        (True, s2) \<Rightarrow> Done () (n, s2) | (False, s2) \<Rightarrow> Fails (n, s2))"
      using ok by (simp add: interUserIndexUpdate_def Let_def findOwner_valid [OF v(1)] val_def
          split: option.splits)
    from new obtain h' refs' where v': "shareValue val h' refs'" "locOf h' = locOf h" by blast
    let ?t = "tock ((tock s)\<lparr>db := (db s)(?key \<mapsto> val)\<rparr>)"
    have good: "shareStep ssl c 0 (n, tock s) (n, ?t)"
      by (rule shareStep_rewrite [OF same(1,2) v'(1) v(2) v'(2) _ v(1)]) (use ok in \<open>simp_all add: tock_def\<close>)
    have bad: "shareStep ssl c 0 (n, tock s) (n, tock (tock s))"
      using good same shareStep_rewrite [OF same(1,2) v(1) v(2) refl _ v(1)] ok(2)
      by (simp add: tock_def map_upd_triv)
    show ?thesis
      by (cases rule: dbPut_cases [where E = E and key = ?key and v = val and s = "tock s"])
         (use one [OF good] one [OF bad] in \<open>simp_all add: run\<close>)
  next
    case absent
    have "interUserIndexUpdate E fp u sz dat off (n, s) = storeNewShare E ?key u sz dat off (n, tock s)"
      using absent by (simp add: interUserIndexUpdate_def Let_def)
    then show ?thesis using storeNewShare_inv [OF same(1,2) _ d sz u, of E] more one' absent
      by (auto split: outcome.splits)
  qed (use stay in \<open>simp_all add: interUserIndexUpdate_def Let_def\<close>)
qed

text \<open>The same for an operation on the state alone.\<close>

lemma storeInv_frame:
  assumes "storeInv ssl c s" "bufferLink t = bufferLink s" "disk t = disk s" "nextAddr t = nextAddr s"
    "shareContainerDirName t = shareContainerDirName s" "globalShareContainerName t = globalShareContainerName s"
    and "db t = db s \<or> (\<exists>fp v h refs h0. db t = (db s)(shareFP2IndexKey fp \<mapsto> v) \<and> shareValue v h refs \<and>
      located ssl c s fp h0 \<and> locOf h = locOf h0) \<or> (\<forall>fp. db t (shareFP2IndexKey fp) = db s (shareFP2IndexKey fp))"
  shows "storeInv ssl c t"
proof -
  have g: "grows s t" using assms by (intro grows_same) auto
  have l: "linkSound t" using assms by (simp add: storeInv_def linkSound_def nodeSound_def)
  have old: "sharesSound ssl c s" using assms by (simp add: storeInv_def)
  from assms(7) have "sharesSound ssl c t"
  proof (elim disjE exE conjE)
    assume "db t = db s"
    then show ?thesis by (rule sharesSound_grows [OF old g])
  next
    fix fp v h refs h0
    assume v: "db t = (db s)(shareFP2IndexKey fp \<mapsto> v)" "shareValue v h refs" "located ssl c s fp h0" "locOf h = locOf h0"
    then have "located ssl c t fp h" using located_grows [OF _ g] located_locOf by metis
    then show ?thesis using v by (intro sharesSound_put [OF old g])
  next
    assume "\<forall>fp. db t (shareFP2IndexKey fp) = db s (shareFP2IndexKey fp)"
    then show ?thesis using old located_grows [OF _ g] unfolding sharesSound_def by metis
  qed
  then show ?thesis using l by (simp add: storeInv_def)
qed

lemma tock_form: "\<exists>d k. tock s = s\<lparr>db := d, tick := k\<rparr>"
  by (intro exI [of _ "db s"] exI [of _ "Suc (tick s)"]) (simp add: tock_def)

lemma storeInv_tock: "storeInv ssl c s \<Longrightarrow> storeInv ssl c (tock s)"
  by (rule storeInv_frame) auto

section \<open>Intra-user deduplication implements the specification\<close>

lemma intra_value:
  assumes wf: "index_wf s" and v: "db s (shareFP2IndexKey fp) = Some v"
    and u: "findOwner v u = Inr (Some off)"
  obtains h refs refs' where "shareValue v h refs" "shareValue (bumpRefCnt v off) h refs'"
    "countsOf refs' = addRef u (countsOf refs)" "countsOf refs u \<noteq> None"
proof -
  from wf v obtain h refs where val: "shareValue v h refs" unfolding index_wf_def by blast
  from u obtain i where i: "userPos u refs = Some i" "off = 28 + 8 * int i"
    by (auto simp: findOwner_valid [OF val])
  have "shareValue (bumpRefCnt v off) h (refs[i := bumped (refs ! i)])"
    using bumpRefCnt_valid [OF val] userPos_Some [OF i(1)] i by simp
  moreover have "countsOf (refs[i := bumped (refs ! i)]) = addRef u (countsOf refs)"
    using countsOf_bumped i val by (auto simp: shareValue_def)
  ultimately show ?thesis using that [OF val] i countsOf_pos [of u refs] by auto
qed

lemma intra_run:
  assumes wf: "index_wf s"
  shows "case intraUserIndexUpdate E fp u s of
      Done dup s' \<Rightarrow> dup = owns (absIndex s) fp u \<and> absIndex s' = specIntra fp u (absIndex s) \<and> index_wf s' \<and>
        (\<exists>d k. s' = s\<lparr>db := d, tick := k\<rparr>)
    | Fails s' \<Rightarrow> \<not> faultless E \<and> absIndex s' = absIndex s \<and> db s' = db s
    | Crash e \<Rightarrow> False"
proof (cases rule: dbGet_cases [where E = E and key = "shareFP2IndexKey fp" and s = s])
  case (ok v)
  from wf ok obtain h refs where val: "shareValue v h refs" unfolding index_wf_def by blast
  have abs: "absIndex s fp = Some (locOf h, countsOf refs)" by (rule absIndex_value [OF ok(2) val])
  show ?thesis
  proof (cases "userPos u refs")
    case None
    then have "\<not> owns (absIndex s) fp u" by (simp add: abs countsOf_pos)
    then show ?thesis using ok None wf
      by (auto simp: intraUserIndexUpdate_def Let_def findOwner_valid [OF val] specIntra_def index_wf_def
          absIndex_def tock_def intro!: ext exI [of _ "db s"])
  next
    case (Some i)
    let ?off = "28 + 8 * int i"
    have own: "owns (absIndex s) fp u" using Some countsOf_pos [of u refs] by (auto simp: abs)
    have fo: "findOwner v u = Inr (Some ?off)" using Some by (simp add: findOwner_valid [OF val])
    obtain h2 refs2 refs' where v2: "shareValue v h2 refs2" "shareValue (bumpRefCnt v ?off) h2 refs'"
        "countsOf refs' = addRef u (countsOf refs2)"
      by (rule intra_value [OF wf ok(2) fo])
    have same: "h2 = h" "refs2 = refs"
      using shareValue_head(2) [OF val] shareValue_head(2) [OF v2(1)] shareValue_refs [OF val] shareValue_refs [OF v2(1)]
      by auto
    let ?t = "tock ((tock s)\<lparr>db := (db s)(shareFP2IndexKey fp \<mapsto> bumpRefCnt v ?off)\<rparr>)"
    have t: "db ?t = (db s)(shareFP2IndexKey fp \<mapsto> bumpRefCnt v ?off)" by simp
    have "absIndex ?t = specIntra fp u (absIndex s)"
      using absIndex_put [OF t v2(2)] own same v2(3) by (simp add: specIntra_def abs)
    moreover have "index_wf ?t" by (rule index_wf_put [OF wf t v2(2)])
    moreover have "\<exists>d k. ?t = s\<lparr>db := d, tick := k\<rparr>" by (simp add: tock_def) blast
    moreover have "absIndex (tock (tock s)) = absIndex s" by (simp add: absIndex_def fun_eq_iff)
    ultimately show ?thesis
      by (cases rule: dbPut_cases [where E = E and key = "shareFP2IndexKey fp" and v = "bumpRefCnt v ?off" and s = "tock s"])
         (use ok own fo in \<open>simp_all add: intraUserIndexUpdate_def Let_def\<close>)
  qed
next
  case absent
  then have "absIndex s fp = None" by (simp add: absIndex_def)
  then show ?thesis using absent wf
    by (auto simp: intraUserIndexUpdate_def Let_def specIntra_def index_wf_def absIndex_def tock_def
        intro!: ext exI [of _ "db s"])
qed (auto simp: intraUserIndexUpdate_def Let_def absIndex_def)

lemma intra_inv:
  assumes inv: "storeInv ssl c s" and run: "intraUserIndexUpdate E fp u s = Done dup s'"
  shows "storeInv ssl c s' \<and> grows s s' \<and> (\<forall>k. db s' (inodeFP2IndexKey k) = db s (inodeFP2IndexKey k)) \<and>
    (\<forall>k. db s' (shareFP2IndexKey k) = None \<longleftrightarrow> db s (shareFP2IndexKey k) = None) \<and>
    (dup \<longrightarrow> db s (shareFP2IndexKey fp) \<noteq> None) \<and> (\<exists>d k. s' = s\<lparr>db := d, tick := k\<rparr>)"
proof -
  have wf: "index_wf s" using inv sharesSound_wf by (auto simp: storeInv_def)
  show ?thesis
  proof (cases rule: dbGet_cases [where E = E and key = "shareFP2IndexKey fp" and s = s])
    case (ok v)
    show ?thesis
    proof (cases "findOwner v u")
      case (Inr owner)
      show ?thesis
      proof (cases owner)
        case None
        then have "s' = tock s" "\<not> dup" using run ok Inr by (auto simp: intraUserIndexUpdate_def Let_def)
        then show ?thesis using storeInv_tock [OF inv] tock_form [of s] by (auto intro: grows_same)
      next
        case (Some off)
        from Inr Some have fo: "findOwner v u = Inr (Some off)" by simp
        obtain h refs refs' where val: "shareValue v h refs" "shareValue (bumpRefCnt v off) h refs'"
          by (rule intra_value [OF wf ok(2) fo])
        obtain h0 refs0 where l: "shareValue v h0 refs0" "located ssl c s fp h0"
          by (rule sharesSoundE [OF _ ok(2)]) (use inv in \<open>auto simp: storeInv_def\<close>)
        have "h0 = h" using shareValue_head(2) [OF val(1)] shareValue_head(2) [OF l(1)] by simp
        moreover have s': "s' = tock ((tock s)\<lparr>db := (db s)(shareFP2IndexKey fp \<mapsto> bumpRefCnt v off)\<rparr>)"
          using run ok fo
          by (cases rule: dbPut_cases [where E = E and key = "shareFP2IndexKey fp" and v = "bumpRefCnt v off" and s = "tock s"])
             (auto simp: intraUserIndexUpdate_def Let_def)
        ultimately have "storeInv ssl c s'"
          using inv val l by (intro storeInv_frame [OF inv]) auto
        then show ?thesis using s' ok
          by (auto simp: tock_def shareFP2IndexKey_def inodeFP2IndexKey_def intro: grows_same)
      qed
    qed (use run ok in \<open>simp add: intraUserIndexUpdate_def Let_def\<close>)
  next
    case absent
    then have "s' = tock s" "\<not> dup" using run by (auto simp: intraUserIndexUpdate_def Let_def)
    then show ?thesis using storeInv_tock [OF inv] tock_form [of s] by (auto intro: grows_same)
  qed (use run in \<open>auto simp: intraUserIndexUpdate_def Let_def\<close>)
qed

section \<open>Inter-user deduplication implements the specification\<close>

lemma storeShareContainer_db:
  "case storeShareContainer E (n, s) of Done p st' \<Rightarrow> db (snd st') = db s | Fails st' \<Rightarrow> db (snd st') = db s
     | Crash e \<Rightarrow> True"
  by (simp add: storeShareContainer_def fopenWb_def fwriteAt_def split: option.splits io_fault.splits bool.splits)

lemma absIndex_db: "db t = db s \<Longrightarrow> absIndex t = absIndex s"
  by (simp add: absIndex_def fun_eq_iff)

lemma storeNewShare_abs:
  assumes inv: "storeInv ssl c (backIn n s)" "linked n s"
    and more: "nameVal (globalShareContainerName s) + 1 < 26 ^ 12"
    and u: "int32 u" "0 < u" and none: "absIndex s fp = None"
  shows "case storeNewShare E (shareFP2IndexKey fp) u sz dat off (n, s) of
      Done x st' \<Rightarrow> (\<exists>loc. absIndex (snd st') = specInter fp u loc (absIndex s)) \<or>
        \<not> faultless E \<and> absIndex (snd st') = absIndex s
    | Fails st' \<Rightarrow> absIndex (snd st') = absIndex s \<and> (faultless E \<longrightarrow> shareContainerBuffer n = [] \<and> CONTAINER_BUFFER_SIZE < sz)
    | Crash e \<Rightarrow> sz < 0 \<or> off < 0 \<or> int (length dat) < off + sz \<or> CONTAINER_BUFFER_SIZE < sz"
proof -
  define r where "r = (if shareContainerBufferCurrLen n + sz > CONTAINER_BUFFER_SIZE
        then storeShareContainer E (n, s) else Done [] (n, s))"
  have room: "case r of Done p (n1, s1) \<Rightarrow> db s1 = db s \<and> containerName (shareContainerName n1) \<and>
        (shareContainerBufferCurrLen n1 + sz \<le> CONTAINER_BUFFER_SIZE \<or> CONTAINER_BUFFER_SIZE < sz)
      | Fails st1 \<Rightarrow> db (snd st1) = db s \<and> (faultless E \<longrightarrow> shareContainerBuffer n = [] \<and> CONTAINER_BUFFER_SIZE < sz)
      | Crash e \<Rightarrow> False"
  proof (cases "shareContainerBufferCurrLen n + sz > CONTAINER_BUFFER_SIZE")
    case True
    have "containerName (shareContainerName n1)" if "shareStep ssl c 1 (n, s) (n1, s1)" for n1 s1
    proof -
      have "linkSound (backIn n1 s1)" "linked n1 s1" using that by (auto simp: shareStep_def storeInv_def)
      then show ?thesis using linked_mem by (auto simp: linkSound_def nodeSound_def)
    qed
    note names = this
    have r: "r = storeShareContainer E (n, s)" using True by (simp add: r_def)
    show ?thesis
    proof (cases r)
      case (Done p st1)
      then show ?thesis
        using storeShareContainer_inv [OF inv more, of E] storeShareContainer_db [where E = E and n = n and s = s]
          names [of "fst st1" "snd st1"] by (cases st1) (simp add: r linorder_le_less_linear)
    next
      case (Fails st1)
      then show ?thesis
        using storeShareContainer_inv [OF inv more, of E] storeShareContainer_db [where E = E and n = n and s = s] True
        by (cases "shareContainerBuffer n = []") (simp_all add: r)
    next
      case (Crash e)
      then show ?thesis using storeShareContainer_inv [OF inv more, of E] by (simp add: r)
    qed
  next
    case False
    have "containerName (shareContainerName n)"
      using inv linked_mem by (auto simp: storeInv_def linkSound_def nodeSound_def)
    then show ?thesis using False by (simp add: r_def)
  qed
  show ?thesis
  proof (cases r)
    case (Done p st1)
    obtain n1 s1 where st1: "st1 = (n1, s1)" by (cases st1)
    from room Done st1 have s1: "db s1 = db s" "containerName (shareContainerName n1)"
      and cap: "shareContainerBufferCurrLen n1 + sz \<le> CONTAINER_BUFFER_SIZE \<or> CONTAINER_BUFFER_SIZE < sz" by auto
    let ?v = "newShareValue (shareContainerName n1) (shareContainerBufferCurrLen n1) sz u"
    let ?t = "snd (dbPut E (shareFP2IndexKey fp) ?v s1)"
    have run: "storeNewShare E (shareFP2IndexKey fp) u sz dat off (n, s) =
        bindO (safeO (0 \<le> sz \<and> 0 \<le> off \<and> off + sz \<le> int (length dat)) OutOfBounds (n1, ?t)) (\<lambda>_ _.
        bindO (safeO (shareContainerBufferCurrLen n1 + sz \<le> CONTAINER_BUFFER_SIZE) BufferOverflow (n1, ?t)) (\<lambda>_ _.
        Done () (n1\<lparr>shareContainerBuffer := shareContainerBuffer n1 @ slice (nat off) (nat sz) dat\<rparr>, ?t)))"
      using Done by (simp add: storeNewShare_def st1 Let_def flip: r_def)
    show ?thesis
    proof (cases "0 \<le> sz \<and> 0 \<le> off \<and> off + sz \<le> int (length dat) \<and>
        shareContainerBufferCurrLen n1 + sz \<le> CONTAINER_BUFFER_SIZE")
      case True
      have "int32 (shareContainerBufferCurrLen n1)" "int32 sz"
        using True by (auto simp: int32_def CONTAINER_BUFFER_SIZE_def)
      then have v: "shareValue ?v \<lparr> sih_shareContainerName = shareContainerName n1,
          sih_shareContainerOffset = shareContainerBufferCurrLen n1, sih_shareSize = sz, sih_numOfUsers = 1 \<rparr>
          [\<lparr> ure_userID = u, ure_refCnt = 1 \<rparr>]"
        using containerName_ok [OF s1(2)] u by (intro newShareValue_valid) auto
      have "(\<exists>loc. absIndex ?t = specInter fp u loc (absIndex s)) \<or> \<not> faultless E \<and> absIndex ?t = absIndex s"
      proof (cases rule: dbPut_cases [where E = E and key = "shareFP2IndexKey fp" and v = ?v and s = s1])
        case ok
        then have "db ?t = (db s)(shareFP2IndexKey fp \<mapsto> ?v)" by (simp add: s1)
        from absIndex_put [OF this v] have "absIndex ?t = specInter fp u (shareContainerName n1, shareContainerBufferCurrLen n1, sz) (absIndex s)"
          by (simp add: specInter_def none locOf_def countsOf_def fun_upd_def)
        then show ?thesis by blast
      next
        case fault
        then show ?thesis using absIndex_db [of ?t s] by (simp add: s1)
      qed
      then show ?thesis using True by (simp add: run)
    next
      case False
      then show ?thesis using cap by (auto simp: run safeO_def)
    qed
  next
    case (Fails st1)
    then show ?thesis using room absIndex_db [of "snd st1" s] by (simp add: storeNewShare_def flip: r_def)
  qed (use room in simp)
qed

lemma inter_run:
  assumes inv: "storeInv ssl c (backIn n s)" "linked n s"
    and more: "nameVal (globalShareContainerName s) + 1 < 26 ^ 12" and u: "int32 u" "0 < u"
  shows "case interUserIndexUpdate E fp u sz dat off (n, s) of
      Done x st' \<Rightarrow> (\<exists>loc. absIndex (snd st') = specInter fp u loc (absIndex s)) \<or>
        \<not> faultless E \<and> absIndex s fp = None \<and> absIndex (snd st') = absIndex s
    | Fails st' \<Rightarrow> absIndex (snd st') = absIndex s \<and>
        (faultless E \<longrightarrow> absIndex s fp = None \<and> shareContainerBuffer n = [] \<and> CONTAINER_BUFFER_SIZE < sz)
    | Crash e \<Rightarrow> sz < 0 \<or> off < 0 \<or> int (length dat) < off + sz \<or> CONTAINER_BUFFER_SIZE < sz"
proof -
  let ?key = "shareFP2IndexKey fp"
  have b: "backIn n (tock s) = tock (backIn n s)" by (simp add: backIn_def tock_def)
  have inv': "storeInv ssl c (backIn n (tock s))" "linked n (tock s)"
    using inv storeInv_tock by (auto simp: b linked_def)
  have wf: "index_wf s"
    using inv sharesSound_wf [of ssl c "backIn n s"] by (simp add: storeInv_def index_wf_def)
  have abs_tock: "absIndex (tock s) = absIndex s" "absIndex (tock (tock s)) = absIndex s"
    by (rule absIndex_db, simp)+
  show ?thesis
  proof (cases rule: dbGet_cases [where E = E and key = ?key and s = s])
    case (ok v)
    from wf ok obtain h refs where val: "shareValue v h refs" unfolding index_wf_def by blast
    have abs: "absIndex s fp = Some (locOf h, countsOf refs)" by (rule absIndex_value [OF ok(2) val])
    define w where "w = (case userPos u refs of Some i \<Rightarrow> bumpRefCnt v (28 + 8 * int i) | None \<Rightarrow> appendUserRef v u)"
    have "\<exists>h' refs'. shareValue w h' refs' \<and> locOf h' = locOf h \<and> countsOf refs' = addRef u (countsOf refs)"
    proof (cases "userPos u refs")
      case None
      have "shareValue w (h\<lparr>sih_numOfUsers := sih_numOfUsers h + 1\<rparr>) (refs @ [\<lparr> ure_userID = u, ure_refCnt = 1 \<rparr>])"
        using u None userPos_None [of u refs] appendUserRef_valid [OF val, of u] by (simp add: w_def)
      then show ?thesis using countsOf_append [OF None] by (force simp: locOf_def)
    next
      case (Some i)
      have "distinct (map ure_userID refs)" using val by (simp add: shareValue_def)
      then have "countsOf (refs[i := bumped (refs ! i)]) = addRef u (countsOf refs)"
        by (rule countsOf_bumped [OF _ Some])
      moreover have "shareValue w h (refs[i := bumped (refs ! i)])"
        using bumpRefCnt_valid [OF val, of i] userPos_Some [OF Some] Some by (simp add: w_def)
      ultimately show ?thesis by blast
    qed
    then obtain h' refs' where w: "shareValue w h' refs'" "locOf h' = locOf h" "countsOf refs' = addRef u (countsOf refs)"
      by blast
    have run: "interUserIndexUpdate E fp u sz dat off (n, s) = (case dbPut E ?key w (tock s) of
        (True, s2) \<Rightarrow> Done () (n, s2) | (False, s2) \<Rightarrow> Fails (n, s2))"
      using ok by (simp add: interUserIndexUpdate_def Let_def findOwner_valid [OF val] w_def split: option.splits)
    have "absIndex (tock ((tock s)\<lparr>db := (db s)(?key \<mapsto> w)\<rparr>)) = specInter fp u (locOf h) (absIndex s)"
      using absIndex_put [of "tock ((tock s)\<lparr>db := (db s)(?key \<mapsto> w)\<rparr>)" s fp w] w by (simp add: specInter_def abs)
    then have "\<exists>loc. absIndex (tock ((tock s)\<lparr>db := (db s)(?key \<mapsto> w)\<rparr>)) = specInter fp u loc (absIndex s)"
      by (rule exI)
    then show ?thesis
      by (cases rule: dbPut_cases [where E = E and key = ?key and v = w and s = "tock s"])
         (simp_all add: run abs_tock)
  next
    case absent
    then have none: "absIndex s fp = None" by (simp add: absIndex_def)
    have "interUserIndexUpdate E fp u sz dat off (n, s) = storeNewShare E ?key u sz dat off (n, tock s)"
      using absent by (simp add: interUserIndexUpdate_def Let_def)
    then show ?thesis using storeNewShare_abs [OF inv' _ u, where fp = fp and E = E and sz = sz and dat = dat and off = off] more none
      by (cases "storeNewShare E ?key u sz dat off (n, tock s)") (simp_all add: abs_tock)
  qed (simp_all add: interUserIndexUpdate_def Let_def abs_tock)
qed

section \<open>What the invariant depends on\<close>

text \<open>Of a node: its identity and its container. Of the disk: paths that end like a container name.\<close>

definition ckey :: "bufferNode \<Rightarrow> nat \<times> bytes \<times> bytes" where
  "ckey n = (bn_addr n, shareContainerName n, shareContainerBuffer n)"

lemma ckey_maps:
  assumes "map ckey xs = map ckey ys"
  shows "map bn_addr xs = map bn_addr ys" "map shareContainerName xs = map shareContainerName ys"
proof -
  have "map fst (map ckey xs) = map fst (map ckey ys)"
    "map (fst \<circ> snd) (map ckey xs) = map (fst \<circ> snd) (map ckey ys)" by (simp_all only: assms)
  then show "map bn_addr xs = map bn_addr ys" "map shareContainerName xs = map shareContainerName ys"
    by (simp_all add: ckey_def comp_def)
qed

lemma ckey_find:
  assumes "map ckey xs = map ckey ys"
  shows "map_option shareContainerBuffer (find (\<lambda>n. shareContainerName n = name) xs) =
    map_option shareContainerBuffer (find (\<lambda>n. shareContainerName n = name) ys)"
  using assms
proof (induction xs arbitrary: ys)
  case (Cons x xs)
  then obtain y zs where "ys = y # zs" "ckey x = ckey y" "map ckey xs = map ckey zs" by auto
  moreover have "shareContainerName x = shareContainerName y" "shareContainerBuffer x = shareContainerBuffer y"
    using calculation by (auto simp: ckey_def)
  ultimately show ?case using Cons.IH [of zs] by simp
qed simp

lemma containerOf_ckey:
  assumes "map ckey (bufferLink t) = map ckey (bufferLink s)"
    and "shareContainerDirName t = shareContainerDirName s"
    and "\<And>p. last p = 99 \<Longrightarrow> disk t p = disk s p" and "containerName name"
  shows "containerOf t name = containerOf s name"
proof -
  have c: "containerOf v name = (case map_option shareContainerBuffer (find (\<lambda>n. shareContainerName n = name) (bufferLink v)) of
      Some b \<Rightarrow> Some b | None \<Rightarrow> disk v (shareContainerDirName v @ name))" for v
    by (auto simp: containerOf_def split: option.splits)
  have "name \<noteq> []" using assms(4) by (auto simp: validName_def)
  then have "last (shareContainerDirName s @ name) = 99" using containerName_ok [OF assms(4)] by simp
  then show ?thesis unfolding c using ckey_find [OF assms(1)] assms(2,3) by (auto split: option.splits)
qed

text \<open>A step that touches neither nodes' containers nor the share index nor container files.\<close>

definition recipeOnly :: "dedupCore \<Rightarrow> dedupCore \<Rightarrow> bool" where
  "recipeOnly s t \<longleftrightarrow>
     map ckey (bufferLink t) = map ckey (bufferLink s) \<and>
     shareContainerDirName t = shareContainerDirName s \<and>
     globalShareContainerName t = globalShareContainerName s \<and> nextAddr t = nextAddr s \<and>
     (\<forall>p. last p = 99 \<longrightarrow> disk t p = disk s p) \<and>
     (\<forall>fp. db t (shareFP2IndexKey fp) = db s (shareFP2IndexKey fp))"

lemma recipeOnly_refl [simp]: "recipeOnly s s"
  by (simp add: recipeOnly_def)

lemma recipeOnly_trans: "recipeOnly s t \<Longrightarrow> recipeOnly t u \<Longrightarrow> recipeOnly s u"
  by (simp add: recipeOnly_def)

lemma recipeOnly_grows: "recipeOnly s t \<Longrightarrow> grows s t"
  using containerOf_ckey [of t s] unfolding recipeOnly_def grows_def by (auto intro: exI [of _ "[]"])

lemma nodeSound_ckey:
  "ckey n = ckey m \<Longrightarrow> nextAddr t = nextAddr s \<Longrightarrow> globalShareContainerName t = globalShareContainerName s \<Longrightarrow>
     nodeSound t n \<longleftrightarrow> nodeSound s m"
  by (simp add: nodeSound_def ckey_def)

lemma storeInv_recipeOnly:
  assumes inv: "storeInv ssl c s" and step: "recipeOnly s t"
  shows "storeInv ssl c t"
proof -
  have g: "grows s t" by (rule recipeOnly_grows [OF step])
  have keys: "map ckey (bufferLink t) = map ckey (bufferLink s)" using step by (simp add: recipeOnly_def)
  have "nodeSound t n" if "n \<in> set (bufferLink t)" for n
  proof -
    have "ckey n \<in> set (map ckey (bufferLink s))" using that unfolding keys [symmetric] by simp
    then obtain m where m: "m \<in> set (bufferLink s)" "ckey n = ckey m" by auto
    then have "nodeSound s m" using inv by (simp add: storeInv_def linkSound_def)
    then show ?thesis using nodeSound_ckey [OF m(2), of t s] step by (simp add: recipeOnly_def)
  qed
  then have "linkSound t"
    using inv step ckey_maps [OF keys] by (simp add: storeInv_def linkSound_def recipeOnly_def)
  moreover have "sharesSound ssl c t"
    using inv located_grows [OF _ g] step unfolding storeInv_def sharesSound_def recipeOnly_def by metis
  ultimately show ?thesis by (simp add: storeInv_def)
qed

lemma backIn_ckey:
  assumes "ckey n' = ckey n" "map ckey (bufferLink t) = map ckey (bufferLink s)"
  shows "map ckey (bufferLink (backIn n' t)) = map ckey (bufferLink (backIn n s))"
proof -
  have "map ckey (map (\<lambda>m. if bn_addr m = bn_addr n' then n' else m) xs) =
      map ckey (map (\<lambda>m. if bn_addr m = bn_addr n then n else m) ys)" if "map ckey xs = map ckey ys" for xs ys
    using that
  proof (induction xs arbitrary: ys)
    case (Cons x xs)
    then obtain y zs where "ys = y # zs" "ckey x = ckey y" "map ckey xs = map ckey zs" by auto
    moreover have "bn_addr n' = bn_addr n" "bn_addr x = bn_addr y"
      using assms(1) calculation by (auto simp: ckey_def)
    ultimately show ?case using Cons.IH [of zs] assms(1) by simp
  qed simp
  then show ?thesis using assms(2) by (simp add: backIn_def)
qed

lemma recipeOnly_backIn:
  assumes "ckey n' = ckey n" "recipeOnly s t"
  shows "recipeOnly (backIn n s) (backIn n' t)"
  using assms backIn_ckey [OF assms(1), of t s] by (simp add: recipeOnly_def)

section \<open>Properties\<close>

text \<open>
  C10. The update for intra-user deduplication implements the reference-count specification under
  every pattern of database faults: it reports a duplicate exactly when the user already owns the
  share, it then adds one reference of this user and changes nothing else; when it fails, a fault
  occurred and the index is unchanged; it never reads outside a stored value.
\<close>

theorem intra_implements_spec:
  assumes "index_wf s"
  shows "case intraUserIndexUpdate E fp u s of
      Done dup s' \<Rightarrow> dup = owns (absIndex s) fp u \<and> absIndex s' = specIntra fp u (absIndex s) \<and> index_wf s'
    | Fails s' \<Rightarrow> \<not> faultless E \<and> absIndex s' = absIndex s \<and> index_wf s'
    | Crash e \<Rightarrow> False"
proof -
  have "index_wf s'" if "db s' = db s" for s' using assms that by (simp add: index_wf_def)
  then show ?thesis using intra_run [OF assms, where E = E and fp = fp and u = u]
    by (cases "intraUserIndexUpdate E fp u s") simp_all
qed

text \<open>
  C9. The update for inter-user deduplication implements the specification: a user who owns the
  share gets one more reference, another user becomes an owner with one reference, a new share gets
  a place and its first owner. The one exception is a database fault while a new share is put: the
  code ignores the status and reports success although the share is not in the index. It crashes
  only if the announced size does not fit the received data or a container.
\<close>

theorem inter_implements_spec:
  assumes "storeInv ssl c (backIn n s)" "linked n s"
    and "nameVal (globalShareContainerName s) + 1 < 26 ^ 12" and "int32 u" "0 < u"
  shows "case interUserIndexUpdate E fp u sz dat off (n, s) of
      Done x (n', s') \<Rightarrow> (\<exists>loc. absIndex s' = specInter fp u loc (absIndex s)) \<or>
        \<not> faultless E \<and> absIndex s fp = None \<and> absIndex s' = absIndex s
    | Fails (n', s') \<Rightarrow> absIndex s' = absIndex s \<and>
        (faultless E \<longrightarrow> absIndex s fp = None \<and> shareContainerBuffer n = [] \<and> CONTAINER_BUFFER_SIZE < sz)
    | Crash e \<Rightarrow> sz < 0 \<or> off < 0 \<or> int (length dat) < off + sz \<or> CONTAINER_BUFFER_SIZE < sz"
  using inter_run [OF assms, where E = E and fp = fp and sz = sz and dat = dat and off = off]
  by (cases "interUserIndexUpdate E fp u sz dat off (n, s)") (simp_all add: case_prod_beta)

text \<open>
  C7. The share store is sound under every pattern of faults: if every fingerprint in the index
  finds bytes that hash to it, then storing a share whose bytes hash to its fingerprint keeps this
  so whether it succeeds or fails (an empty share is excluded: its container may never be written), all older shares stay in the index with the same bytes, and
  without faults the new fingerprint is in the index afterwards. The containers move between the
  user's buffer and the disk meanwhile.
\<close>

theorem share_store_sound:
  assumes "storeInv ssl c (backIn n s)" "linked n s"
    and "nameVal (globalShareContainerName s) + 1 < 26 ^ 12"
    and "generateHash ssl c (slice (nat off) (nat sz) dat) = Inr fp" "sz \<noteq> 0" and "int32 u" "0 < u"
    and "interUserIndexUpdate E fp u sz dat off (n, s) = r" "r = Done () (n', s') \<or> r = Fails (n', s')"
  shows "(\<forall>k v. db s' (shareFP2IndexKey k) = Some v \<longrightarrow>
      (\<exists>d. fetchShare (backIn n' s') k = Some d \<and> generateHash ssl c d = Inr k)) \<and>
    (\<forall>k v. db s (shareFP2IndexKey k) = Some v \<longrightarrow> db s' (shareFP2IndexKey k) \<noteq> None \<and>
      fetchShare (backIn n' s') k = fetchShare (backIn n s) k) \<and>
    (faultless E \<and> r = Done () (n', s') \<longrightarrow> db s' (shareFP2IndexKey fp) \<noteq> None) \<and>
    storeInv ssl c (backIn n' s') \<and> linked n' s'"
proof -
  have step: "shareStep ssl c 1 (n, s) (n', s')"
    using interUserIndexUpdate_inv [OF assms(1-7), of E] assms(8,9) by (auto split: outcome.splits)
  have inv: "storeInv ssl c (backIn n' s')" "linked n' s'" using step by (auto simp: shareStep_def)
  have "\<exists>d. fetchShare (backIn n' s') k = Some d \<and> generateHash ssl c d = Inr k"
    if "db s' (shareFP2IndexKey k) = Some v" for k v
  proof -
    have "sharesSound ssl c (backIn n' s')" using inv by (simp add: storeInv_def)
    moreover have "db (backIn n' s') (shareFP2IndexKey k) = Some v" using that by simp
    ultimately obtain d where "fetchShare (backIn n' s') k = Some d" "generateHash ssl c d = Inr k"
      by (rule fetchShare_sound)
    then show ?thesis by blast
  qed
  moreover have "faultless E \<and> r = Done () (n', s') \<longrightarrow> db s' (shareFP2IndexKey fp) \<noteq> None"
    using interUserIndexUpdate_inv [OF assms(1-7), of E] assms(8) by auto
  moreover have "db s' (shareFP2IndexKey k) \<noteq> None \<and> fetchShare (backIn n' s') k = fetchShare (backIn n s) k"
    if v: "db s (shareFP2IndexKey k) = Some v" for k v
  proof -
    have kept: "grows (backIn n s) (backIn n' s')" "keepsPlaces s s'" using step by (simp_all add: shareStep_def shareFrame_def)
    then show ?thesis using fetchShare_kept [OF _ kept(1), of ssl c k v] keepsPlaces_db [OF kept(2), of k] assms(1) v
      by (simp add: storeInv_def)
  qed
  ultimately show ?thesis using inv by blast
qed

subsection \<open>Witnesses\<close>

definition fineEnv :: env where
  "fineEnv = \<lparr> dbFault = \<lambda>_. DbFine, ioFault = \<lambda>_. IoFine, clock = \<lambda>_. 0 \<rparr>"

definition shaCrypto :: cryptoPrimitive where
  "shaCrypto = \<lparr> cryptoType = 2, md = EVP_sha256, hashSize = 32, cipher = None, keySize = -1, blockSize = -1, iv = [] \<rparr>"

definition demoNode :: bufferNode where
  "demoNode = \<lparr> bn_addr = 0, bn_userID = 7, recipeFileName = replicate 12 97 @ rfSuffix, recipeFileBuffer = [],
     lastRecipeHeadPos = 0, lastInodeFP = None, shareContainerName = replicate 12 97 @ scSuffix,
     shareContainerBuffer = [], lastUseTime = 0 \<rparr>"

definition demoCore :: dedupCore where
  "demoCore = \<lparr> recipeFileDirName = [114, 47], shareContainerDirName = [115, 47], db = (\<lambda>_. None), disk = (\<lambda>_. None),
     tick = 0, globalRecipeFileName = replicate 11 97 @ 98 # rfSuffix,
     globalShareContainerName = replicate 11 97 @ 98 # scSuffix,
     bufferLink = [demoNode], tailBufferNode = Some 0, nextAddr = 1, sent = [] \<rparr>"

lemma fineEnv_faultless [simp]: "faultless fineEnv"
  by (simp add: faultless_def fineEnv_def)

lemma demo_inv:
  "storeInv ssl c (backIn demoNode demoCore)" "linked demoNode demoCore"
  "nameVal (globalShareContainerName demoCore) + 1 < 26 ^ 12" "index_wf demoCore"
proof -
  have nv: "nameVal (replicate 12 97 @ scSuffix) = 0" "nameVal (replicate 11 97 @ 98 # scSuffix) = 1"
    using lettersVal_append [of "replicate 11 97" "[98]"]
    by (simp_all add: nameVal_def scSuffix_def letter_def)
  have "validName scSuffix (replicate 12 97 @ scSuffix)" "validName scSuffix (replicate 11 97 @ 98 # scSuffix)"
    by (auto simp: validName_def scSuffix_def)
  then show "storeInv ssl c (backIn demoNode demoCore)"
    by (simp add: storeInv_def linkSound_def nodeSound_def sharesSound_def backIn_def demoCore_def demoNode_def
        nv CONTAINER_BUFFER_SIZE_def)
  show "linked demoNode demoCore" by (simp add: linked_def demoCore_def)
  show "nameVal (globalShareContainerName demoCore) + 1 < 26 ^ 12" by (simp add: demoCore_def nv)
  show "index_wf demoCore" by (simp add: index_wf_def demoCore_def)
qed

definition demoShare :: bytes where "demoShare = [1, 2, 3]"
definition demoFP :: bytes where "demoFP = toyDigest EVP_sha256 demoShare"

lemma demo_hash: "generateHash toySSL shaCrypto (slice (nat 0) (nat 3) demoShare) = Inr demoFP"
  by (simp add: generateHash_def toySSL_def shaCrypto_def demoFP_def demoShare_def slice_def toyDigest_def)

theorem intra_implements_spec_witness:
  "case intraUserIndexUpdate fineEnv demoFP 7 demoCore of
      Done dup s' \<Rightarrow> dup = owns (absIndex demoCore) demoFP 7 \<and> absIndex s' = specIntra demoFP 7 (absIndex demoCore) \<and> index_wf s'
    | Fails s' \<Rightarrow> \<not> faultless fineEnv \<and> absIndex s' = absIndex demoCore \<and> index_wf s'
    | Crash e \<Rightarrow> False"
  by (rule intra_implements_spec [OF demo_inv(4)])

lemma demo_store:
  "interUserIndexUpdate fineEnv demoFP 7 3 demoShare 0 (demoNode, demoCore) =
     Done () (demoNode\<lparr>shareContainerBuffer := demoShare\<rparr>,
       tock ((tock demoCore)\<lparr>db := (db demoCore)(shareFP2IndexKey demoFP \<mapsto>
         newShareValue (shareContainerName demoNode) 0 3 7)\<rparr>))"
  by (simp add: interUserIndexUpdate_def Let_def storeNewShare_def demoCore_def demoNode_def
      CONTAINER_BUFFER_SIZE_def demoShare_def slice_def)

theorem inter_implements_spec_witness:
  "\<exists>loc. absIndex (tock ((tock demoCore)\<lparr>db := (db demoCore)(shareFP2IndexKey demoFP \<mapsto>
         newShareValue (shareContainerName demoNode) 0 3 7)\<rparr>)) = specInter demoFP 7 loc (absIndex demoCore)"
  using inter_implements_spec [OF demo_inv(1-3),
      where u = 7 and E = fineEnv and fp = demoFP and sz = 3 and dat = demoShare and off = 0]
  by (simp add: demo_store int32_def)

theorem share_store_sound_witness:
  "\<exists>n' s'. interUserIndexUpdate fineEnv demoFP 7 3 demoShare 0 (demoNode, demoCore) = Done () (n', s') \<and>
     db s' (shareFP2IndexKey demoFP) \<noteq> None \<and> storeInv toySSL shaCrypto (backIn n' s')"
  using share_store_sound [OF demo_inv(1-3) demo_hash _ _ _ demo_store]
  by (simp add: demo_store int32_def)

end
