(* ===== verification/FirstStage.thy ===== *)
theory FirstStage
  imports ShareIndex
begin

text \<open>
  The first stage of deduplication (\<open>firstStageDedup\<close> of server/dedup/DedupCore.cc): the server
  reads the package of share metadata that a client announces and tells the client which shares it
  already owns. The package is read as bytes; the region \<open>mdBuf\<close> is the buffer it was received into
  and \<open>mdSize\<close> its announced size.
\<close>

section \<open>The stage\<close>

text \<open>
  The cells of \<open>intraUserDupStatList\<close> that the stage writes come as a list. When the update of the index
  fails the stage returns 0 with its output parameters as they are then: this is the value Inl, with
  the cells, the number of shares and the size so far. The size is kept in an int, which wraps around. The cell of the failing share was set to 1 if its
  entry had been found and only the write failed.
\<close>

definition failedCell :: "env \<Rightarrow> bytes \<Rightarrow> dedupCore \<Rightarrow> bool list" where
  "failedCell E shareFP s = (case fst (dbGet E (shareFP2IndexKey shareFP) s) of GetOk _ \<Rightarrow> [True] | _ \<Rightarrow> [])"

type_synonym early = "bool list \<times> nat \<times> int"

fun firstStageEntries ::
  "env \<Rightarrow> int \<Rightarrow> bytes \<Rightarrow> nat \<Rightarrow> int \<Rightarrow> bool list \<Rightarrow> int \<Rightarrow> dedupCore \<Rightarrow>
   (early + int \<times> bool list \<times> int, dedupCore) outcome" where
  "firstStageEntries E userID mdBuf 0 off dups sentSize s = Done (Inr (off, dups, sentSize)) s"
| "firstStageEntries E userID mdBuf (Suc i) off dups sentSize s =
     bindO (readO (structAt 44 getMDEntry mdBuf off) s) (\<lambda>e s1.
       case intraUserIndexUpdate E (mde_shareFP e) userID s1 of
         Crash x \<Rightarrow> Crash x
       | Fails s2 \<Rightarrow> Done (Inl (dups @ failedCell E (mde_shareFP e) s1, length dups, sentSize)) s2
       | Done dup s2 \<Rightarrow>
           firstStageEntries E userID mdBuf i (off + 44) (dups @ [dup])
             (if dup then sentSize else wrap32 (sentSize + mde_shareSize e)) s2)"

text \<open>
  The loop over the files of the package. A file name of negative size moves the offset backwards,
  so the loop need not end: not returning is None.
\<close>

partial_function (option) firstStageLoop ::
  "env \<Rightarrow> int \<Rightarrow> bytes \<Rightarrow> int \<Rightarrow> int \<Rightarrow> bool list \<Rightarrow> int \<Rightarrow> dedupCore \<Rightarrow>
   (early + bool list \<times> int, dedupCore) outcome option" where
  "firstStageLoop E userID mdBuf mdSize off dups sentSize s =
     (if off < mdSize then
        (case structAt 48 getMDHead mdBuf off of
           None \<Rightarrow> Some (Crash OutOfBounds)
         | Some h \<Rightarrow>
             (case firstStageEntries E userID mdBuf (nat (mdh_numOfComingSecrets h))
                     (off + 48 + mdh_fullNameSize h) dups sentSize s of
                Done (Inr (off1, dups1, sentSize1)) s1 \<Rightarrow> firstStageLoop E userID mdBuf mdSize off1 dups1 sentSize1 s1
              | Done (Inl r) s1 \<Rightarrow> Some (Done (Inl r) s1)
              | Fails s1 \<Rightarrow> Some (Fails s1)
              | Crash e \<Rightarrow> Some (Crash e)))
      else Some (Done (Inr (dups, sentSize)) s))"

declare firstStageLoop.simps [code]

definition firstStageDedup ::
  "env \<Rightarrow> int \<Rightarrow> bytes \<Rightarrow> int \<Rightarrow> dedupCore \<Rightarrow> (early + bool list \<times> int, dedupCore) outcome option" where
  "firstStageDedup E userID mdBuf mdSize s = firstStageLoop E userID mdBuf mdSize 0 [] 0 s"

section \<open>Well-formed packages\<close>

type_synonym md_file = "fileShareMDHead \<times> bytes \<times> shareMDEntry list"

fun okFile :: "md_file \<Rightarrow> bool" where
  "okFile (h, name, es) \<longleftrightarrow> okMDHead h \<and> mdh_fullNameSize h = int (length name) \<and>
     mdh_numOfComingSecrets h = int (length es) \<and> (\<forall>e\<in>set es. okMDEntry e)"

fun packFile :: "md_file \<Rightarrow> bytes" where
  "packFile (h, name, es) = putMDHead h @ name @ concat (map putMDEntry es)"

definition packageOf :: "md_file list \<Rightarrow> bytes" where
  "packageOf files = concat (map packFile files)"

fun entriesOf :: "md_file list \<Rightarrow> shareMDEntry list" where
  "entriesOf [] = []"
| "entriesOf ((h, name, es) # files) = es @ entriesOf files"

section \<open>What the stage computes\<close>

definition unsentSize :: "abs_index \<Rightarrow> int \<Rightarrow> shareMDEntry list \<Rightarrow> int" where
  "unsentSize I u es = sum_list (map (\<lambda>e. if owns I (mde_shareFP e) u then 0 else mde_shareSize e) es)"

definition specFirst :: "int \<Rightarrow> shareMDEntry list \<Rightarrow> abs_index \<Rightarrow> abs_index" where
  "specFirst u es I = fold (\<lambda>e. specIntra (mde_shareFP e) u) es I"

lemma owns_specIntra [simp]: "owns (specIntra fp u I) fp' u' = owns I fp' u'"
  by (auto simp: specIntra_def addRef_def split: option.splits)

lemma unsentSize_specIntra [simp]: "unsentSize (specIntra fp u I) u' es = unsentSize I u' es"
  by (simp add: unsentSize_def del: owns.simps)

lemma specFirst_simps [simp]:
  "specFirst u [] I = I" "specFirst u (e # es) I = specFirst u es (specIntra (mde_shareFP e) u I)"
  "specFirst u (es @ fs) I = specFirst u fs (specFirst u es I)"
  by (simp_all add: specFirst_def)

lemma owns_specFirst [simp]: "owns (specFirst u es I) fp' u' = owns I fp' u'"
  by (induction es arbitrary: I) (auto simp del: owns.simps)

lemma unsentSize_specFirst [simp]: "unsentSize (specFirst u es I) u' fs = unsentSize I u' fs"
  by (simp add: unsentSize_def del: owns.simps)

lemma unsentSize_simps [simp]:
  "unsentSize I u [] = 0"
  "unsentSize I u (e # es) = (if owns I (mde_shareFP e) u then 0 else mde_shareSize e) + unsentSize I u es"
  "unsentSize I u (es @ fs) = unsentSize I u es + unsentSize I u fs"
  by (simp_all add: unsentSize_def)

text \<open>The entries of one file.\<close>

lemma firstStageEntries_run:
  assumes "\<forall>e\<in>set es. okMDEntry e" "index_wf s"
    and "off = int (length pre)" "int32 sentSize"
  shows "case firstStageEntries E u (pre @ concat (map putMDEntry es) @ post) (length es) off dups sentSize s of
      Done (Inr (off', dups', sentSize')) s' \<Rightarrow> off' = off + 44 * int (length es) \<and>
        dups' = dups @ map (\<lambda>e. owns (absIndex s) (mde_shareFP e) u) es \<and>
        sentSize' = wrap32 (sentSize + unsentSize (absIndex s) u es) \<and>
        absIndex s' = specFirst u es (absIndex s) \<and> index_wf s'
    | Done (Inl r) s' \<Rightarrow> \<not> faultless E
    | Fails s' \<Rightarrow> False
    | Crash e \<Rightarrow> False"
  using assms
proof (induction es arbitrary: pre off dups sentSize s)
  case (Cons e es)
  have ok: "okMDEntry e" using Cons.prems by simp
  let ?buf = "pre @ concat (map putMDEntry (e # es)) @ post"
  have buf: "?buf = (pre @ putMDEntry e) @ concat (map putMDEntry es) @ post" by simp
  have rd: "structAt 44 getMDEntry ?buf off = Some e"
    using mdEntry.at_middle [OF ok, of off pre "concat (map putMDEntry es) @ post"] Cons.prems by simp
  note intra = intra_run [OF Cons.prems(2), where E = E and fp = "mde_shareFP e" and u = u]
  show ?case
  proof (cases "intraUserIndexUpdate E (mde_shareFP e) u s")
    case (Done dup s1)
    have s1: "dup = owns (absIndex s) (mde_shareFP e) u" "absIndex s1 = specIntra (mde_shareFP e) u (absIndex s)" "index_wf s1"
      using intra Done by (auto simp del: owns.simps)
    have off1: "off + 44 = int (length (pre @ putMDEntry e))"
      using Cons.prems mdEntry.length_put [OF ok] by simp
    have all: "\<forall>e\<in>set es. okMDEntry e" using Cons.prems by simp
    have run: "firstStageEntries E u ?buf (length (e # es)) off dups sentSize s =
        firstStageEntries E u ((pre @ putMDEntry e) @ concat (map putMDEntry es) @ post) (length es) (off + 44) (dups @ [dup])
          (if dup then sentSize else wrap32 (sentSize + mde_shareSize e)) s1"
      using rd Done unfolding buf by simp
    let ?size = "if dup then sentSize else wrap32 (sentSize + mde_shareSize e)"
    have size: "int32 ?size" "wrap32 (?size + v) = wrap32 (sentSize + ((if dup then 0 else mde_shareSize e) + v))" for v
      using Cons.prems(4) by (simp_all add: wrap32_int32 wrap32_add add.assoc)
    note IH = Cons.IH [OF all s1(3) off1 size(1), of "dups @ [dup]", unfolded size(2)]
    show ?thesis
    proof (cases "firstStageEntries E u ((pre @ putMDEntry e) @ concat (map putMDEntry es) @ post) (length es) (off + 44)
        (dups @ [dup]) ?size s1")
      case (Done r s2)
      then show ?thesis
        using IH unfolding run by (cases r) (auto simp: s1 simp del: owns.simps)
    next
      case (Fails s2)
      show ?thesis using IH unfolding run Fails by simp
    next
      case (Crash x)
      show ?thesis using IH unfolding run Crash by simp
    qed
  next
    case (Fails s1)
    then show ?thesis using rd intra by simp
  qed (use intra in simp)
qed simp

text \<open>The whole package.\<close>

lemma firstStageLoop_run:
  assumes "\<forall>f\<in>set files. okFile f" "index_wf s"
    and "off = int (length pre)" "mdSize = off + int (length (packageOf files))" "int32 sentSize"
  shows "\<exists>r. firstStageLoop E u (pre @ packageOf files @ post) mdSize off dups sentSize s = Some r \<and>
    (case r of
       Done (Inr (dups', sentSize')) s' \<Rightarrow>
         dups' = dups @ map (\<lambda>e. owns (absIndex s) (mde_shareFP e) u) (entriesOf files) \<and>
         sentSize' = wrap32 (sentSize + unsentSize (absIndex s) u (entriesOf files)) \<and>
         absIndex s' = specFirst u (entriesOf files) (absIndex s) \<and> index_wf s'
     | Done (Inl r') s' \<Rightarrow> \<not> faultless E
     | Fails s' \<Rightarrow> False
     | Crash e \<Rightarrow> False)"
  using assms
proof (induction files arbitrary: pre off dups sentSize s)
  case Nil
  then show ?case by (subst firstStageLoop.simps) (simp add: packageOf_def)
next
  case (Cons f files)
  obtain h name es where f: "f = (h, name, es)" by (cases f)
  have ok: "okMDHead h" "mdh_fullNameSize h = int (length name)" "mdh_numOfComingSecrets h = int (length es)"
    "\<forall>e\<in>set es. okMDEntry e" using Cons.prems f by auto
  let ?rest = "packageOf files @ post"
  let ?pre1 = "pre @ putMDHead h @ name" and ?pre2 = "pre @ packFile f"
  let ?off1 = "off + 48 + mdh_fullNameSize h" and ?off2 = "off + 48 + mdh_fullNameSize h + 44 * int (length es)"
  have buf: "pre @ packageOf (f # files) @ post = pre @ putMDHead h @ (name @ concat (map putMDEntry es) @ ?rest)"
    "pre @ packageOf (f # files) @ post = ?pre1 @ concat (map putMDEntry es) @ ?rest"
    "pre @ packageOf (f # files) @ post = ?pre2 @ packageOf files @ post"
    by (simp_all add: packageOf_def f)
  have head: "structAt 48 getMDHead (pre @ packageOf (f # files) @ post) off = Some h"
    unfolding buf(1) by (rule mdHead.at_middle [OF ok(1) Cons.prems(3)])
  have lens: "?off1 = int (length ?pre1)" "?off2 = int (length ?pre2)"
    using Cons.prems(3) mdHead.length_put [OF ok(1)] mdEntry.length_table [OF ok(4)] ok(2) by (simp_all add: f)
  have size2: "mdSize = ?off2 + int (length (packageOf files))" "off < mdSize"
    using Cons.prems(3,4) lens mdHead.length_put [OF ok(1)] by (simp_all add: packageOf_def f)
  have count: "nat (mdh_numOfComingSecrets h) = length es" using ok(3) by simp
  note entries = firstStageEntries_run [OF ok(4) Cons.prems(2) lens(1) Cons.prems(5), where E = E and u = u and post = ?rest
      and dups = dups, folded buf(2)]
  show ?case
  proof (cases "firstStageEntries E u (pre @ packageOf (f # files) @ post) (length es) ?off1 dups sentSize s")
    case res: (Done r s1)
    show ?thesis
    proof (cases r)
      case (Inl r')
      then show ?thesis using head size2 entries res by (subst firstStageLoop.simps) (simp add: count)
    next
      case (Inr r')
      obtain off1 dups1 sent1 where "r' = (off1, dups1, sent1)" by (cases r')
      then have Done: "firstStageEntries E u (pre @ packageOf (f # files) @ post) (length es) ?off1 dups sentSize s =
          Done (Inr (off1, dups1, sent1)) s1" using res Inr by simp
      have s1: "off1 = ?off2" "dups1 = dups @ map (\<lambda>e. owns (absIndex s) (mde_shareFP e) u) es"
        "sent1 = wrap32 (sentSize + unsentSize (absIndex s) u es)" "absIndex s1 = specFirst u es (absIndex s)" "index_wf s1"
        using entries unfolding Done by (auto simp del: owns.simps)
      have run: "firstStageLoop E u (pre @ packageOf (f # files) @ post) mdSize off dups sentSize s =
          firstStageLoop E u (?pre2 @ packageOf files @ post) mdSize ?off2 dups1 sent1 s1"
        using head size2 Done s1(1) unfolding buf(3) by (subst firstStageLoop.simps) (simp add: count)
      have all: "\<forall>f\<in>set files. okFile f" using Cons.prems by simp
      have ent: "entriesOf (f # files) = es @ entriesOf files" by (simp add: f)
      show ?thesis
        using Cons.IH [OF all s1(5) lens(2) size2(1), of sent1 dups1] wrap32_int32
        unfolding run ent s1(4) by (simp only: s1(2,3) owns_specFirst unsentSize_specFirst specFirst_simps
            unsentSize_simps map_append append_assoc wrap32_add add.assoc)
    qed
  qed (use entries in simp_all)
qed

section \<open>The stage keeps the share store sound\<close>

text \<open>The first stage changes reference counts only.\<close>

definition countsOnly :: "openssl \<Rightarrow> cryptoPrimitive \<Rightarrow> dedupCore \<Rightarrow> dedupCore \<Rightarrow> bool" where
  "countsOnly ssl c s t \<longleftrightarrow> storeInv ssl c t \<and> grows s t \<and> keepsPlaces s t \<and>
     (\<forall>k. db t (inodeFP2IndexKey k) = db s (inodeFP2IndexKey k)) \<and> (\<exists>d k. t = s\<lparr>db := d, tick := k\<rparr>)"

lemma countsOnly_refl: "storeInv ssl c s \<Longrightarrow> countsOnly ssl c s s"
proof -
  have "s = s\<lparr>db := db s, tick := tick s\<rparr>" by simp
  then show "storeInv ssl c s \<Longrightarrow> countsOnly ssl c s s"
    unfolding countsOnly_def using grows_refl keepsPlaces_refl by blast
qed

lemma countsOnly_trans: "countsOnly ssl c s t \<Longrightarrow> countsOnly ssl c t u \<Longrightarrow> countsOnly ssl c s u"
  unfolding countsOnly_def by (elim conjE exE, intro conjI) (assumption | erule (1) grows_trans | erule (1) keepsPlaces_trans | force)+

lemma intra_counts:
  assumes inv: "storeInv ssl c s" and run: "intraUserIndexUpdate E fp u s = Done dup s'"
  shows "countsOnly ssl c s s'"
proof -
  have wf: "index_wf s" using inv sharesSound_wf by (auto simp: storeInv_def)
  have place: "placeOf t k = map_option fst (absIndex t k)" for t k by (simp add: placeOf_def absIndex_def option.map_comp comp_def)
  have "absIndex s' = specIntra fp u (absIndex s)" using intra_run [OF wf, where E = E and fp = fp and u = u] run by simp
  then have "keepsPlaces s s'"
    by (auto simp: keepsPlaces_def place specIntra_def split: option.splits)
  then show ?thesis using intra_inv [OF inv run] by (simp add: countsOnly_def)
qed

lemma intra_fails: "intraUserIndexUpdate E fp u s = Fails s' \<Longrightarrow> \<exists>k. s' = s\<lparr>tick := k\<rparr>"
  by (auto simp: intraUserIndexUpdate_def dbGet_def dbPut_def tock_def Let_def
      split: db_fault.splits option.splits sum.splits if_splits prod.splits get_status.splits)

lemma countsOnly_tick: "storeInv ssl c s \<Longrightarrow> countsOnly ssl c s (s\<lparr>tick := k\<rparr>)"
  by (auto simp: countsOnly_def intro!: storeInv_frame [of ssl c s] grows_same keepsPlaces_same exI [of _ "db s"] exI [of _ k])

lemma firstStageEntries_counts:
  "storeInv ssl c s \<Longrightarrow> firstStageEntries E u mdBuf i off dups sz s = Done r s' \<Longrightarrow> countsOnly ssl c s s'"
proof (induction i arbitrary: off dups sz s)
  case 0
  then show ?case by (simp add: countsOnly_refl)
next
  case (Suc i)
  obtain e where e: "structAt 44 getMDEntry mdBuf off = Some e"
    using Suc.prems(2) by (cases "structAt 44 getMDEntry mdBuf off") (simp_all add: readO_def)
  show ?case
  proof (cases "intraUserIndexUpdate E (mde_shareFP e) u s")
    case run: (Done dup s1)
    note c1 = intra_counts [OF Suc.prems(1) run]
    have "countsOnly ssl c s1 s'" using Suc.IH [of s1] Suc.prems(2) e run c1 by (simp add: countsOnly_def)
    then show ?thesis by (rule countsOnly_trans [OF c1])
  next
    case run: (Fails s1)
    then show ?thesis using Suc.prems e intra_fails [OF run] countsOnly_tick by auto
  next
    case (Crash x)
    then show ?thesis using Suc.prems e by simp
  qed
qed

lemma firstStageLoop_counts:
  assumes inv: "storeInv ssl c s" and run: "firstStageLoop E u mdBuf mdSize off dups sz s = Some (Done x s')"
  shows "countsOnly ssl c s s'"
proof -
  have "storeInv ssl c s \<longrightarrow> (\<forall>y t. Done x s' = Done y t \<longrightarrow> countsOnly ssl c s t)"
  proof (rule firstStageLoop.raw_induct [OF _ run, where
        P = "\<lambda>E u b z off dups sz s r. storeInv ssl c s \<longrightarrow> (\<forall>y t. r = Done y t \<longrightarrow> countsOnly ssl c s t)"], intro impI allI)
    fix loop E u mdBuf mdSize off dups sz s r y t
    assume IH: "\<And>E u b z off dups sz s r. loop E u b z off dups sz s = Some r \<Longrightarrow>
        storeInv ssl c s \<longrightarrow> (\<forall>y t. r = Done y t \<longrightarrow> countsOnly ssl c s t)"
      and body: "(if off < mdSize then case structAt 48 getMDHead mdBuf off of None \<Rightarrow> Some (Crash OutOfBounds)
         | Some h \<Rightarrow> (case firstStageEntries E u mdBuf (nat (mdh_numOfComingSecrets h)) (off + 48 + mdh_fullNameSize h) dups sz s of
                Done (Inr (off1, dups1, sentSize1)) s1 \<Rightarrow> loop E u mdBuf mdSize off1 dups1 sentSize1 s1
              | Done (Inl r) s1 \<Rightarrow> Some (Done (Inl r) s1)
              | Fails s1 \<Rightarrow> Some (Fails s1) | Crash e \<Rightarrow> Some (Crash e)) else Some (Done (Inr (dups, sz)) s)) = Some r"
      and inv: "storeInv ssl c s" and r: "r = Done y t"
    show "countsOnly ssl c s t"
    proof (cases "off < mdSize")
      case False
      then show ?thesis using body r countsOnly_refl [OF inv] by simp
    next
      case True
      then obtain h where h: "structAt 48 getMDHead mdBuf off = Some h" using body r by (cases "structAt 48 getMDHead mdBuf off") simp_all
      then obtain x1 s1 where e: "firstStageEntries E u mdBuf (nat (mdh_numOfComingSecrets h)) (off + 48 + mdh_fullNameSize h) dups sz s = Done x1 s1"
        using body r True
        by (cases "firstStageEntries E u mdBuf (nat (mdh_numOfComingSecrets h)) (off + 48 + mdh_fullNameSize h) dups sz s") simp_all
      note c1 = firstStageEntries_counts [OF inv e]
      show ?thesis
      proof (cases x1)
        case (Inl early)
        then show ?thesis using body r True h e c1 by simp
      next
        case (Inr y1)
        obtain off1 dups1 sz1 where "y1 = (off1, dups1, sz1)" by (cases y1)
        then have "loop E u mdBuf mdSize off1 dups1 sz1 s1 = Some r" using body True h e Inr by simp
        then have "countsOnly ssl c s1 t" using IH r c1 by (simp add: countsOnly_def)
        then show ?thesis by (rule countsOnly_trans [OF c1])
      qed
    qed
  qed
  then show ?thesis using inv by simp
qed

section \<open>Properties\<close>

text \<open>
  C11. On every well-formed package the first stage returns; it never reads outside the package. If
  no database fault occurs it succeeds, its list says for each share in order whether the user
  already owned it, the size it announces is the total size of the other shares as far as an int keeps
  it (modulo 2 to the 32, in two's complement), each listed duplicate has gained one reference per occurrence, and nothing else in the index has changed.
\<close>

theorem first_stage_spec:
  assumes "\<forall>f\<in>set files. okFile f" "index_wf s"
  shows "\<exists>r. firstStageDedup E u (packageOf files @ rest) (int (length (packageOf files))) s = Some r \<and>
    (case r of
       Done (Inr (dups, sentSize)) s' \<Rightarrow>
         dups = map (\<lambda>e. owns (absIndex s) (mde_shareFP e) u) (entriesOf files) \<and>
         sentSize = wrap32 (unsentSize (absIndex s) u (entriesOf files)) \<and>
         absIndex s' = specFirst u (entriesOf files) (absIndex s) \<and> index_wf s'
     | Done (Inl early) s' \<Rightarrow> \<not> faultless E
     | Fails s' \<Rightarrow> False
     | Crash e \<Rightarrow> False)"
  using firstStageLoop_run [OF assms, where off = 0 and pre = "[]" and E = E and u = u and post = rest
      and mdSize = "int (length (packageOf files))" and dups = "[]" and sentSize = 0]
  unfolding append_Nil add_0_left firstStageDedup_def by (simp add: int32_def)

text \<open>
  C24. The first stage trusts the sizes in the package: a package whose first head announces a name
  of -48 bytes and no shares makes the loop run forever, whatever the database does. The server
  thread that serves this client never returns.
\<close>

theorem first_stage_hangs:
  assumes "structAt 48 getMDHead mdBuf 0 = Some h" "mdh_fullNameSize h = -48" "mdh_numOfComingSecrets h \<le> 0"
    and "0 < mdSize"
  shows "firstStageDedup E u mdBuf mdSize s = None"
proof (rule ccontr)
  assume "firstStageDedup E u mdBuf mdSize s \<noteq> None"
  then obtain r where run: "firstStageLoop E u mdBuf mdSize 0 [] 0 s = Some r"
    by (auto simp: firstStageDedup_def)
  have "mdBuf = mdBuf \<longrightarrow> mdSize = mdSize \<longrightarrow> (0::int) = 0 \<longrightarrow> False"
    by (rule firstStageLoop.raw_induct [OF _ run, where
        P = "\<lambda>E u b z off dups sentSize s r. b = mdBuf \<longrightarrow> z = mdSize \<longrightarrow> off = 0 \<longrightarrow> False"])
       (use assms in fastforce)
  then show False by simp
qed

subsection \<open>Witnesses\<close>

definition demoEntry :: shareMDEntry where
  "demoEntry = \<lparr> mde_shareFP = demoFP, mde_secretID = 0, mde_secretSize = 9, mde_shareSize = 3 \<rparr>"

definition demoHead :: fileShareMDHead where
  "demoHead = \<lparr> mdh_fullNameSize = 2, mdh_fileSize = 18, mdh_numOfPastSecrets = 0, mdh_sizeOfPastSecrets = 0,
     mdh_numOfComingSecrets = 2, mdh_sizeOfComingSecrets = 18 \<rparr>"

text \<open>One file /f whose two secrets have the same share.\<close>

definition demoFiles :: "md_file list" where
  "demoFiles = [(demoHead, [47, 102], [demoEntry, demoEntry])]"

lemma demoFiles_ok: "\<forall>f\<in>set demoFiles. okFile f"
  by (simp add: demoFiles_def demoHead_def demoEntry_def okMDHead_def okMDEntry_def int32_def int64_def
      demoFP_def toyDigest_def)

theorem first_stage_spec_witness:
  "\<exists>s'. firstStageDedup fineEnv 7 (packageOf demoFiles) (int (length (packageOf demoFiles))) demoCore =
     Some (Done (Inr ([False, False], 6)) s')"
proof -
  have none: "absIndex demoCore = (\<lambda>_. None)" by (simp add: absIndex_def demoCore_def fun_eq_iff)
  obtain r where r: "firstStageDedup fineEnv 7 (packageOf demoFiles @ []) (int (length (packageOf demoFiles))) demoCore = Some r"
    "case r of
       Done (Inr (dups, sentSize)) s' \<Rightarrow>
         dups = map (\<lambda>e. owns (absIndex demoCore) (mde_shareFP e) 7) (entriesOf demoFiles) \<and>
         sentSize = wrap32 (unsentSize (absIndex demoCore) 7 (entriesOf demoFiles)) \<and>
         absIndex s' = specFirst 7 (entriesOf demoFiles) (absIndex demoCore) \<and> index_wf s'
     | Done (Inl early) s' \<Rightarrow> \<not> faultless fineEnv
     | Fails s' \<Rightarrow> False
     | Crash e \<Rightarrow> False"
    using first_stage_spec [OF demoFiles_ok demo_inv(4)] by blast
  then show ?thesis by (cases r) (auto simp: none demoFiles_def demoEntry_def int32_def split: sum.splits)
qed

definition hangHead :: fileShareMDHead where
  "hangHead = \<lparr> mdh_fullNameSize = -48, mdh_fileSize = 0, mdh_numOfPastSecrets = 0, mdh_sizeOfPastSecrets = 0,
     mdh_numOfComingSecrets = 0, mdh_sizeOfComingSecrets = 0 \<rparr>"

theorem first_stage_hangs_witness: "firstStageDedup fineEnv 7 (putMDHead hangHead) 48 demoCore = None"
proof (rule first_stage_hangs)
  have "okMDHead hangHead" by (simp add: hangHead_def okMDHead_def int32_def int64_def)
  then show "structAt 48 getMDHead (putMDHead hangHead) 0 = Some hangHead"
    using mdHead.at_start [of hangHead "[]"] by simp
qed (simp_all add: hangHead_def)

end
