(* ===== verification/RecipeStore.thy ===== *)
theory RecipeStore
  imports ShareIndex
begin

text \<open>
  The inode index and the recipe files of server/dedup/DedupCore.cc: which recipe file and offset
  hold the newest version of a user's file, the directory entries above it, and the recipe buffer
  of a user's node with the three ways it reaches the disk.
\<close>

section \<open>Paths\<close>

definition shortNameOf :: "bytes \<Rightarrow> bytes" where
  "shortNameOf fullFileName = rev (takeWhile (\<lambda>b. b \<noteq> 47) (rev fullFileName))"

definition dirNameOf :: "bytes \<Rightarrow> bytes" where
  "dirNameOf fullFileName = rev (dropWhile (\<lambda>b. b \<noteq> 47) (rev fullFileName))"

text \<open>A directory name ends with '/'; its short name keeps that '/'.\<close>

definition dirShortName :: "bytes \<Rightarrow> bytes" where
  "dirShortName dirName =
     (if dirName = [47] then dirName else shortNameOf (butlast dirName) @ [last dirName])"

definition parentDir :: "bytes \<Rightarrow> bytes" where
  "parentDir dirName = (if dirName = [47] then [] else dirNameOf (butlast dirName))"

lemma length_dirNameOf: "length (dirNameOf p) \<le> length p"
  unfolding dirNameOf_def by (metis length_dropWhile_le length_rev)

lemma length_parentDir: "d \<noteq> [] \<Longrightarrow> length (parentDir d) < length d"
  using length_dirNameOf [of "butlast d"] by (cases d) (auto simp: parentDir_def)

section \<open>Values of the inode index\<close>

definition newFileInode :: "int \<Rightarrow> bytes \<Rightarrow> bytes \<Rightarrow> int \<Rightarrow> bytes" where
  "newFileInode userID shortName recipeName recipeOffset =
     putInodeHead \<lparr> inh_userID = userID, inh_shortNameSize = int (length shortName) + 1,
       inh_inodeType = True, inh_numOfChildren = 1 \<rparr> @
     cfield (length shortName + 1) (cstring shortName) @
     putInodeFileEntry \<lparr> ife_recipeFileName = recipeName, ife_recipeFileOffset = recipeOffset \<rparr>"

definition newDirInode :: "int \<Rightarrow> bytes \<Rightarrow> bytes \<Rightarrow> bytes" where
  "newDirInode userID shortName childFP =
     putInodeHead \<lparr> inh_userID = userID, inh_shortNameSize = int (length shortName) + 1,
       inh_inodeType = False, inh_numOfChildren = 1 \<rparr> @
     cfield (length shortName + 1) (cstring shortName) @ childFP"

text \<open>The entry of the newest version goes in front of the older ones; \<open>numOfChildren++\<close>.\<close>

definition addFileVersion :: "bytes \<Rightarrow> bytes \<Rightarrow> int \<Rightarrow> bytes option" where
  "addFileVersion v recipeName recipeOffset =
     (case structAt 16 getInodeHead v 0 of
        None \<Rightarrow> None
      | Some h \<Rightarrow>
          (if inh_shortNameSize h < 0 \<or> int (length v) < 16 + inh_shortNameSize h then None
           else
             (let k = 16 + nat (inh_shortNameSize h) in
              Some (writeAt 12 (le 4 (inh_numOfChildren h + 1)) (take k v) @
                    putInodeFileEntry \<lparr> ife_recipeFileName = recipeName, ife_recipeFileOffset = recipeOffset \<rparr> @
                    drop k v))))"

text \<open>The search for a child among the entries of a directory.\<close>

fun childScan :: "bytes \<Rightarrow> bytes \<Rightarrow> nat \<Rightarrow> int \<Rightarrow> crash + bool" where
  "childScan v childFP 0 valueOffset = Inr False"
| "childScan v childFP (Suc i) valueOffset =
     (case structAt 32 id v valueOffset of
        None \<Rightarrow> Inl OutOfBounds
      | Some fp \<Rightarrow> if fp = childFP then Inr True else childScan v childFP i (valueOffset + 32))"

definition dirHasChild :: "bytes \<Rightarrow> bytes \<Rightarrow> crash + bool" where
  "dirHasChild v childFP =
     (case structAt 16 getInodeHead v 0 of
        None \<Rightarrow> Inl OutOfBounds
      | Some h \<Rightarrow> childScan v childFP (nat (inh_numOfChildren h)) (16 + inh_shortNameSize h))"

definition addDirEntry :: "bytes \<Rightarrow> bytes \<Rightarrow> bytes" where
  "addDirEntry v childFP =
     (let h = getInodeHead (slice 0 16 v) in writeAt 12 (le 4 (inh_numOfChildren h + 1)) (v @ childFP))"

section \<open>Adding a file to the inode index\<close>

text \<open>From the directory of the file up to the root, each directory gets an entry for its child.\<close>

function updateDirs ::
  "env \<Rightarrow> openssl \<Rightarrow> cryptoPrimitive \<Rightarrow> int \<Rightarrow> bytes \<Rightarrow> bytes \<Rightarrow> dedupCore \<Rightarrow> (unit, dedupCore) outcome" where
  "updateDirs E ssl c userID preFP dirName s =
     (if dirName = [] then Done () s
      else case fileName2InodeFP ssl c dirName userID of
        None \<Rightarrow> Crash UninitRead
      | Some currFP \<Rightarrow>
          (let key = inodeFP2IndexKey currFP in
           case dbGet E key s of
             (GetOk v, s1) \<Rightarrow>
               (case dirHasChild v preFP of
                  Inl e \<Rightarrow> Crash e
                | Inr True \<Rightarrow> updateDirs E ssl c userID currFP (parentDir dirName) s1
                | Inr False \<Rightarrow>
                    (case dbPut E key (addDirEntry v preFP) s1 of
                       (True, s2) \<Rightarrow> updateDirs E ssl c userID currFP (parentDir dirName) s2
                     | (False, s2) \<Rightarrow> Fails s2))
           | (GetNotFound, s1) \<Rightarrow>
               updateDirs E ssl c userID currFP (parentDir dirName)
                 (snd (dbPut E key (newDirInode userID (dirShortName dirName) preFP) s1))
           | (GetCorruption, s1) \<Rightarrow> Fails s1
           | (GetIOError, s1) \<Rightarrow> Fails s1))"
  by pat_completeness auto
termination
  by (relation "measure (\<lambda>(E, ssl, c, u, fp, d, s). length d)") (auto simp: length_parentDir)

declare updateDirs.simps [simp del]

definition addFileIntoInodeIndex ::
  "env \<Rightarrow> openssl \<Rightarrow> cryptoPrimitive \<Rightarrow> bytes \<Rightarrow> int \<Rightarrow> bufferNode \<Rightarrow> dedupCore \<Rightarrow> (unit, dedupCore) outcome" where
  "addFileIntoInodeIndex E ssl c fullFileName userID n s =
     (case fileName2InodeFP ssl c fullFileName userID of
        None \<Rightarrow> Crash UninitRead
      | Some fp \<Rightarrow>
          (let key = inodeFP2IndexKey fp in
           case dbGet E key s of
             (GetOk v, s1) \<Rightarrow>
               (case addFileVersion v (recipeFileName n) (recipeFileBufferCurrLen n) of
                  None \<Rightarrow> Crash OutOfBounds
                | Some v' \<Rightarrow>
                    (case dbPut E key v' s1 of
                       (True, s2) \<Rightarrow> Done () s2
                     | (False, s2) \<Rightarrow> Fails s2))
           | (GetNotFound, s1) \<Rightarrow>
               updateDirs E ssl c userID fp (dirNameOf fullFileName)
                 (snd (dbPut E key
                   (newFileInode userID (shortNameOf fullFileName) (recipeFileName n) (recipeFileBufferCurrLen n)) s1))
           | (GetCorruption, s1) \<Rightarrow> Fails s1
           | (GetIOError, s1) \<Rightarrow> Fails s1))"

section \<open>Recipe files\<close>

definition storeNewRecipeFile ::
  "env \<Rightarrow> bufferNode \<times> dedupCore \<Rightarrow> (bytes, bufferNode \<times> dedupCore) outcome" where
  "storeNewRecipeFile E st =
     (case st of (n, s) \<Rightarrow>
       (case addPrefixDir (recipeFileDirName s) (recipeFileName n) of
          None \<Rightarrow> Fails (n, s)
        | Some path \<Rightarrow>
            (case fopenWb E path s of
               (False, s1) \<Rightarrow> Fails (n, s1)
             | (True, s1) \<Rightarrow>
                 (case fwriteAt E path 0 (recipeFileBuffer n) s1 of
                    (False, s2) \<Rightarrow> Fails (n, s2)
                  | (True, s2) \<Rightarrow>
                      Done path
                        (n\<lparr>recipeFileName := take 15 (globalRecipeFileName s2),
                           recipeFileBuffer := [], lastRecipeHeadPos := 0\<rparr>,
                         s2\<lparr>globalRecipeFileName :=
                              fst (incrGlobalFileName (globalRecipeFileName s2) 12)\<rparr>)))))"

definition findOldRecipeFile :: "env \<Rightarrow> bufferNode \<Rightarrow> dedupCore \<Rightarrow> (bytes \<times> int, dedupCore) outcome" where
  "findOldRecipeFile E n s =
     (case lastInodeFP n of
        None \<Rightarrow> Crash UninitRead
      | Some fp \<Rightarrow>
          (case dbGet E (inodeFP2IndexKey fp) s of
             (GetOk v, s1) \<Rightarrow>
               bindO (readO (structAt 16 getInodeHead v 0) s1) (\<lambda>h _.
               bindO (readO (structAt 20 getInodeFileEntry v (16 + inh_shortNameSize h)) s1) (\<lambda>e _.
               Done (ife_recipeFileName e, ife_recipeFileOffset e) s1))
           | (GetNotFound, s1) \<Rightarrow> Fails s1
           | (GetCorruption, s1) \<Rightarrow> Fails s1
           | (GetIOError, s1) \<Rightarrow> Fails s1))"

text \<open>\<open>fseek(fp, off, SEEK_SET)\<close>: a negative offset is refused and the position stays.\<close>

definition fseekSet :: "nat \<Rightarrow> int \<Rightarrow> nat" where
  "fseekSet pos off = (if off < 0 then pos else nat off)"

text \<open>
  The recipe entries of the buffer go behind the entries that the file already has, and the head in
  the file counts them.
\<close>

definition appendRecipeEntries :: "env \<Rightarrow> bytes \<Rightarrow> int \<Rightarrow> bufferNode \<Rightarrow> dedupCore \<Rightarrow> (unit, dedupCore) outcome" where
  "appendRecipeEntries E path recipeFileOffset n s =
     (let pos1 = fseekSet 0 recipeFileOffset in
      case freadAt E path pos1 24 s of
        (None, s1) \<Rightarrow> Fails s1
      | (Some headBytes, s1) \<Rightarrow>
          (if length (recipeFileBuffer n) < 24 then Crash OutOfBounds
           else
             (let numOfShares = frh_numOfShares (getRecipeHead headBytes);
                  pos2 = fseekSet (pos1 + 24) (recipeFileOffset + 24 + 40 * numOfShares);
                  entries = drop 24 (recipeFileBuffer n) in
              case fwriteAt E path pos2 entries s1 of
                (False, s2) \<Rightarrow> Fails s2
              | (True, s2) \<Rightarrow>
                  (let added = frh_numOfShares (getRecipeHead (take 24 (recipeFileBuffer n)));
                       pos3 = fseekSet (pos2 + length entries) recipeFileOffset in
                   case fwriteAt E path pos3 (writeAt 16 (le 4 (numOfShares + added)) headBytes) s2 of
                     (False, s3) \<Rightarrow> Fails s3
                   | (True, s3) \<Rightarrow> Done () s3))))"

definition appendOldRecipeFile ::
  "env \<Rightarrow> bufferNode \<times> dedupCore \<Rightarrow> (bytes, bufferNode \<times> dedupCore) outcome" where
  "appendOldRecipeFile E st =
     (case st of (n, s) \<Rightarrow>
       (case findOldRecipeFile E n s of
          Crash e \<Rightarrow> Crash e
        | Fails s1 \<Rightarrow> Fails (n, s1)
        | Done (recipeName, recipeFileOffset) s1 \<Rightarrow>
            (case addPrefixDir (recipeFileDirName s1) recipeName of
               None \<Rightarrow> Fails (n, s1)
             | Some path \<Rightarrow>
                 (case fopenRb E path s1 of
                    (None, s2) \<Rightarrow> Fails (n, s2)
                  | (Some contents, s2) \<Rightarrow>
                      (if length contents = 0 then Fails (n, s2)
                       else
                         (case appendRecipeEntries E path recipeFileOffset n s2 of
                            Crash e \<Rightarrow> Crash e
                          | Fails s3 \<Rightarrow> Fails (n, s3)
                          | Done _ s3 \<Rightarrow>
                              Done path (n\<lparr>recipeFileBuffer := [], lastRecipeHeadPos := 0\<rparr>, s3)))))))"

section \<open>The index entry of a file\<close>

abbreviation recipeName :: "bytes \<Rightarrow> bool" where
  "recipeName \<equiv> validName rfSuffix"

lemma recipeName_ok: "recipeName nm \<Longrightarrow> okName nm \<and> last nm = 102 \<and> addPrefixDir d nm = Some (d @ nm) \<and> nm \<noteq> []"
  using validName_ok [of rfSuffix nm] by (simp add: rfSuffix_def)

text \<open>The newest version of a file, as \<open>findOldRecipeFile_\<close> and \<open>restoreShareFile\<close> read it.\<close>

definition newestVersion :: "bytes \<Rightarrow> inodeIndexValueHead \<Rightarrow> inodeFileEntry \<Rightarrow> bool" where
  "newestVersion v h e \<longleftrightarrow> structAt 16 getInodeHead v 0 = Some h \<and> 0 < inh_numOfChildren h \<and>
     structAt 20 getInodeFileEntry v (16 + inh_shortNameSize h) = Some e"

lemma newestVersion_new:
  assumes "okName rn" "int32 off" "int32 (int (length short) + 1)" "int32 u"
  shows "\<exists>h. newestVersion (newFileInode u short rn off) h \<lparr> ife_recipeFileName = rn, ife_recipeFileOffset = off \<rparr>"
proof -
  let ?h = "\<lparr> inh_userID = u, inh_shortNameSize = int (length short) + 1, inh_inodeType = True, inh_numOfChildren = 1 \<rparr>"
  let ?e = "\<lparr> ife_recipeFileName = rn, ife_recipeFileOffset = off \<rparr>"
  let ?name = "cfield (length short + 1) (cstring short)"
  have ok: "okInodeHead ?h" "okInodeFileEntry ?e"
    using assms by (simp_all add: okInodeHead_def okInodeFileEntry_def int32_def)
  have 1: "structAt 16 getInodeHead (newFileInode u short rn off) 0 = Some ?h"
    unfolding newFileInode_def by (rule inodeHead.at_start [OF ok(1)])
  have "structAt 20 getInodeFileEntry ((putInodeHead ?h @ ?name) @ putInodeFileEntry ?e @ []) (16 + inh_shortNameSize ?h) = Some ?e"
    by (rule inodeFile.at_middle [OF ok(2)]) (simp add: inodeHead.length_put [OF ok(1)])
  then show ?thesis using 1 by (auto simp: newestVersion_def newFileInode_def)
qed

lemma newestVersion_added:
  assumes v: "structAt 16 getInodeHead v 0 = Some h" "0 \<le> inh_numOfChildren h" "inh_numOfChildren h < 2147483647"
    and add: "addFileVersion v rn off = Some v'" and ok: "okName rn" "int32 off"
  shows "\<exists>h'. newestVersion v' h' \<lparr> ife_recipeFileName = rn, ife_recipeFileOffset = off \<rparr>"
proof -
  let ?e = "\<lparr> ife_recipeFileName = rn, ife_recipeFileOffset = off \<rparr>"
  define k where "k = 16 + nat (inh_shortNameSize h)"
  have sns: "0 \<le> inh_shortNameSize h" "int k = 16 + inh_shortNameSize h" "k \<le> length v" "16 \<le> k"
    using v add by (auto simp: addFileVersion_def k_def structAt_def Let_def split: if_splits)
  define front where "front = writeAt 12 (le 4 (inh_numOfChildren h + 1)) (take k v)"
  have v': "v' = front @ putInodeFileEntry ?e @ drop k v"
    using v add by (auto simp: addFileVersion_def k_def front_def Let_def split: if_splits)
  have len: "length front = k" using sns by (simp add: front_def)
  have f16: "take 16 front = take 12 (take 16 v) @ le 4 (inh_numOfChildren h + 1)"
    using sns by (simp add: front_def writeAt_def)
  let ?h' = "h\<lparr>inh_numOfChildren := inh_numOfChildren h + 1\<rparr>"
  have "getInodeHead (take 16 v) = h" using v(1) by (simp add: structAt_def slice_def split: if_splits)
  then have "getInodeHead (take 16 front) = ?h'"
    using v sns unfolding f16 by (auto simp: getInodeHead_def slice_def int32_def min_def drop_take)
  moreover have "slice 0 16 v' = take 16 front" using len sns by (simp add: v' slice_def)
  ultimately have 1: "structAt 16 getInodeHead v' 0 = Some ?h'"
    using len sns by (simp add: structAt_def v')
  have "okInodeFileEntry ?e" using ok by (simp add: okInodeFileEntry_def)
  then have "structAt 20 getInodeFileEntry v' (16 + inh_shortNameSize h) = Some ?e"
    unfolding v' using len sns by (intro inodeFile.at_middle) simp_all
  then show ?thesis using 1 v by (auto simp: newestVersion_def)
qed

text \<open>The directories above a path.\<close>

function dirChain :: "bytes \<Rightarrow> bytes list" where
  "dirChain d = (if d = [] then [] else d # dirChain (parentDir d))"
  by pat_completeness auto
termination
  by (relation "measure length") (auto simp: length_parentDir)

declare dirChain.simps [simp del]

text \<open>Only the values of some keys change, and the number of calls.\<close>

definition dbOnly :: "bytes set \<Rightarrow> dedupCore \<Rightarrow> dedupCore \<Rightarrow> bool" where
  "dbOnly K s t \<longleftrightarrow> (\<exists>m k. t = s\<lparr>db := m, tick := k\<rparr> \<and> (\<forall>key. key \<notin> K \<longrightarrow> m key = db s key))"

lemma dbOnly_refl [simp]: "dbOnly K s s"
  unfolding dbOnly_def by (auto intro!: exI [of _ "db s"] exI [of _ "tick s"])

lemma dbOnly_tock [simp]: "dbOnly K s (tock s)"
  unfolding dbOnly_def tock_def by (auto intro!: exI [of _ "db s"])

lemma dbOnlyI: "t = s\<lparr>db := m, tick := k\<rparr> \<Longrightarrow> (\<And>key. key \<notin> K \<Longrightarrow> m key = db s key) \<Longrightarrow> dbOnly K s t"
  unfolding dbOnly_def by blast

lemma dbOnly_trans:
  assumes "dbOnly K s t" "dbOnly K t v"
  shows "dbOnly K s v"
proof -
  obtain m k m' k' where "t = s\<lparr>db := m, tick := k\<rparr>" "v = t\<lparr>db := m', tick := k'\<rparr>"
    "\<forall>key. key \<notin> K \<longrightarrow> m key = db s key" "\<forall>key. key \<notin> K \<longrightarrow> m' key = db t key"
    using assms unfolding dbOnly_def by blast
  then show ?thesis by (intro dbOnlyI [where m = m' and k = k']) auto
qed

lemma dbOnly_mono: "dbOnly K s t \<Longrightarrow> K \<subseteq> K' \<Longrightarrow> dbOnly K' s t"
  unfolding dbOnly_def by blast

lemma dbOnly_put: "dbPut E key v s = (b, t) \<Longrightarrow> key \<in> K \<Longrightarrow> dbOnly K s t"
  by (cases "dbFault E (tick s) = DbFine")
    (auto simp: dbPut_def tock_def intro: dbOnlyI [where m = "db s"] dbOnlyI [where m = "(db s)(key \<mapsto> v)"])

definition frameO :: "bytes set \<Rightarrow> dedupCore \<Rightarrow> ('a, dedupCore) outcome \<Rightarrow> bool" where
  "frameO K s r \<longleftrightarrow> (case r of Done x t \<Rightarrow> dbOnly K s t | Fails t \<Rightarrow> dbOnly K s t | Crash e \<Rightarrow> True)"

lemma frameO_simps [simp]:
  "frameO K s (Done x t) = dbOnly K s t" "frameO K s (Fails t) = dbOnly K s t" "frameO K s (Crash e)"
  by (simp_all add: frameO_def)

lemma frameO_step: "dbOnly K s t \<Longrightarrow> frameO K' t r \<Longrightarrow> K' \<subseteq> K \<Longrightarrow> frameO K s r"
  by (cases r) (auto intro: dbOnly_trans dbOnly_mono)

definition dirKeys :: "openssl \<Rightarrow> cryptoPrimitive \<Rightarrow> int \<Rightarrow> bytes \<Rightarrow> bytes set" where
  "dirKeys ssl c u d = {inodeFP2IndexKey y | y d'. d' \<in> set (dirChain d) \<and> fileName2InodeFP ssl c d' u = Some y}"

lemma dirKeys_step:
  assumes "d \<noteq> []"
  shows "dirKeys ssl c u (parentDir d) \<subseteq> dirKeys ssl c u d"
    "fileName2InodeFP ssl c d u = Some y \<Longrightarrow> inodeFP2IndexKey y \<in> dirKeys ssl c u d"
  using assms dirChain.simps [of d] by (auto simp: dirKeys_def)

lemma updateDirs_only: "frameO (dirKeys ssl c u d) s (updateDirs E ssl c u fp d s)"
proof (induction E ssl c u fp d s rule: updateDirs.induct)
  case (1 E ssl c u fp d s)
  show ?case
  proof (cases "d = [] \<or> fileName2InodeFP ssl c d u = None")
    case True
    then show ?thesis by (subst updateDirs.simps) auto
  next
    case False
    then obtain y where d: "d \<noteq> []" and y: "fileName2InodeFP ssl c d u = Some y" by auto
    let ?key = "inodeFP2IndexKey y" and ?K = "dirKeys ssl c u d"
    have mem: "?key \<in> ?K" and sub: "dirKeys ssl c u (parentDir d) \<subseteq> ?K" using dirKeys_step d y by auto
    show ?thesis
    proof (cases rule: dbGet_cases [where E = E and key = ?key and s = s])
      case (ok v)
      show ?thesis
      proof (cases "dirHasChild v fp")
        case (Inl e)
        then show ?thesis using d y ok by (subst updateDirs.simps) (simp add: Let_def)
      next
        case (Inr has)
        show ?thesis
        proof (cases has)
          case True
          have "updateDirs E ssl c u fp d s = updateDirs E ssl c u y (parentDir d) (tock s)"
            using d y ok Inr True by (subst updateDirs.simps) (simp add: Let_def)
          then show ?thesis
            using frameO_step [OF dbOnly_tock 1(1) [OF d y refl ok(1) [symmetric] refl Inr] sub] True by simp
        next
          case no: False
          let ?v = "addDirEntry v fp"
          obtain b t where put: "dbPut E ?key ?v (tock s) = (b, t)" by force
          have st: "dbOnly ?K s t" by (rule dbOnly_trans [OF dbOnly_tock dbOnly_put [OF put mem]])
          have run: "updateDirs E ssl c u fp d s = (if b then updateDirs E ssl c u y (parentDir d) t else Fails t)"
            using d y ok Inr no put by (subst updateDirs.simps) (simp add: Let_def split: bool.splits)
          show ?thesis
          proof (cases b)
            case True
            then show ?thesis using run no
                frameO_step [OF st 1(2) [OF d y refl ok(1) [symmetric] refl Inr _ put [symmetric]] sub] by simp
          qed (use run st in simp)
        qed
      qed
    next
      case absent
      let ?v = "newDirInode u (dirShortName d) fp"
      obtain b t where put: "dbPut E ?key ?v (tock s) = (b, t)" by force
      have st: "dbOnly ?K s t" by (rule dbOnly_trans [OF dbOnly_tock dbOnly_put [OF put mem]])
      have "updateDirs E ssl c u fp d s = updateDirs E ssl c u y (parentDir d) t"
        using d y absent put by (subst updateDirs.simps) (simp add: Let_def)
      then show ?thesis using frameO_step [OF st _ sub] 1(3) [OF d y refl absent(1) [symmetric] refl] put by simp
    qed (use d y in \<open>subst updateDirs.simps, simp add: Let_def\<close>)+
  qed
qed

lemma addFileIntoInodeIndex_only:
  assumes fp: "fileName2InodeFP ssl c full u = Some fp"
  shows "frameO (insert (inodeFP2IndexKey fp) (dirKeys ssl c u (dirNameOf full))) s (addFileIntoInodeIndex E ssl c full u n s)"
proof (cases rule: dbGet_cases [where E = E and key = "inodeFP2IndexKey fp" and s = s])
  case (ok v)
  show ?thesis
  proof (cases "addFileVersion v (recipeFileName n) (recipeFileBufferCurrLen n)")
    case (Some v')
    obtain b t where put: "dbPut E (inodeFP2IndexKey fp) v' (tock s) = (b, t)" by force
    have "dbOnly (insert (inodeFP2IndexKey fp) K) s t" for K
      by (rule dbOnly_trans [OF dbOnly_tock dbOnly_put [OF put]]) simp
    then show ?thesis using fp ok Some put by (cases b) (simp_all add: addFileIntoInodeIndex_def Let_def)
  qed (use fp ok in \<open>simp add: addFileIntoInodeIndex_def Let_def\<close>)
next
  case absent
  let ?v = "newFileInode u (shortNameOf full) (recipeFileName n) (recipeFileBufferCurrLen n)"
  obtain b t where put: "dbPut E (inodeFP2IndexKey fp) ?v (tock s) = (b, t)" by force
  have "dbOnly (insert (inodeFP2IndexKey fp) (dirKeys ssl c u (dirNameOf full))) s t"
    by (rule dbOnly_trans [OF dbOnly_tock dbOnly_put [OF put]]) simp
  from frameO_step [OF this updateDirs_only [of ssl c u "dirNameOf full" t E fp]] show ?thesis using fp absent put
    by (auto simp: addFileIntoInodeIndex_def Let_def)
qed (use fp in \<open>simp_all add: addFileIntoInodeIndex_def Let_def\<close>)

lemma share_inode_keys [simp]: "shareFP2IndexKey a \<noteq> inodeFP2IndexKey b" "inodeFP2IndexKey b \<noteq> shareFP2IndexKey a"
  by (simp_all add: shareFP2IndexKey_def inodeFP2IndexKey_def)

lemma inode_key_inj [simp]: "inodeFP2IndexKey a = inodeFP2IndexKey b \<longleftrightarrow> a = b"
  by (simp add: inodeFP2IndexKey_def)

lemma addFileIntoInodeIndex_run:
  assumes run: "addFileIntoInodeIndex E ssl c full u n s = Done x s'" and E: "faultless E"
    and fp: "fileName2InodeFP ssl c full u = Some fp"
    and apart: "\<forall>d\<in>set (dirChain (dirNameOf full)). fileName2InodeFP ssl c d u \<noteq> Some fp"
    and ok: "okName (recipeFileName n)" "int32 (recipeFileBufferCurrLen n)" "int32 u"
      "int32 (int (length (shortNameOf full)) + 1)"
    and old: "\<And>v h. db s (inodeFP2IndexKey fp) = Some v \<Longrightarrow> structAt 16 getInodeHead v 0 = Some h \<Longrightarrow>
      0 \<le> inh_numOfChildren h \<and> inh_numOfChildren h < 2147483647"
  shows "(\<exists>m k. s' = s\<lparr>db := m, tick := k\<rparr>) \<and>
    (\<forall>y. db s' (shareFP2IndexKey y) = db s (shareFP2IndexKey y)) \<and>
    (\<exists>v h. db s' (inodeFP2IndexKey fp) = Some v \<and>
       newestVersion v h \<lparr> ife_recipeFileName = recipeFileName n, ife_recipeFileOffset = recipeFileBufferCurrLen n \<rparr>)"
proof (cases "db s (inodeFP2IndexKey fp)")
  case None
  let ?key = "inodeFP2IndexKey fp"
  let ?v = "newFileInode u (shortNameOf full) (recipeFileName n) (recipeFileBufferCurrLen n)"
  let ?t = "tock ((tock s)\<lparr>db := (db s)(?key \<mapsto> ?v)\<rparr>)"
  have dirs: "updateDirs E ssl c u fp (dirNameOf full) ?t = Done x s'"
    using run fp None E by (simp add: addFileIntoInodeIndex_def Let_def)
  have "dbOnly (dirKeys ssl c u (dirNameOf full)) ?t s'"
    using updateDirs_only [of ssl c u "dirNameOf full" ?t E fp] dirs by simp
  then obtain m k where s': "s' = ?t\<lparr>db := m, tick := k\<rparr>"
    and frame: "\<And>key. key \<notin> dirKeys ssl c u (dirNameOf full) \<Longrightarrow> m key = db ?t key" unfolding dbOnly_def by blast
  have "?key \<notin> dirKeys ssl c u (dirNameOf full)" using apart by (auto simp: dirKeys_def)
  then have "db s' ?key = Some ?v" using frame s' by simp
  moreover have "db s' (shareFP2IndexKey y) = db s (shareFP2IndexKey y)" for y
  proof -
    have "shareFP2IndexKey y \<notin> dirKeys ssl c u (dirNameOf full)" by (auto simp: dirKeys_def)
    then show ?thesis using frame s' by simp
  qed
  moreover have "\<exists>m k. s' = s\<lparr>db := m, tick := k\<rparr>" using s' by (auto simp: tock_def)
  ultimately show ?thesis using newestVersion_new [OF ok(1,2,4,3)] by blast
next
  case (Some v)
  let ?key = "inodeFP2IndexKey fp"
  obtain v' where v': "addFileVersion v (recipeFileName n) (recipeFileBufferCurrLen n) = Some v'"
    and s': "s' = tock ((tock s)\<lparr>db := (db s)(?key \<mapsto> v')\<rparr>)"
    using run fp Some E by (auto simp: addFileIntoInodeIndex_def Let_def split: option.splits)
  obtain h where h: "structAt 16 getInodeHead v 0 = Some h"
    using v' by (auto simp: addFileVersion_def split: option.splits)
  have "\<exists>h'. newestVersion v' h' \<lparr> ife_recipeFileName = recipeFileName n, ife_recipeFileOffset = recipeFileBufferCurrLen n \<rparr>"
    using newestVersion_added [OF h _ _ v' ok(1,2)] old [OF Some h] by blast
  moreover have "\<exists>m k. s' = s\<lparr>db := m, tick := k\<rparr>" unfolding s' by (auto simp: tock_def)
  ultimately show ?thesis unfolding s' by simp
qed

section \<open>What the recipe operations leave alone\<close>

text \<open>Everything about shares and the other nodes; of the files only recipe files change.\<close>

definition recipeFrame :: "bufferNode \<times> dedupCore \<Rightarrow> bufferNode \<times> dedupCore \<Rightarrow> bool" where
  "recipeFrame st st' \<longleftrightarrow>
     ckey (fst st') = ckey (fst st) \<and> bn_userID (fst st') = bn_userID (fst st) \<and>
     recipeOnly (snd st) (snd st') \<and>
     bufferLink (snd st') = bufferLink (snd st) \<and> tailBufferNode (snd st') = tailBufferNode (snd st) \<and>
     recipeFileDirName (snd st') = recipeFileDirName (snd st) \<and> sent (snd st') = sent (snd st)"

lemma recipeFrame_refl [simp]: "recipeFrame st st"
  by (simp add: recipeFrame_def)

lemma recipeFrame_trans: "recipeFrame st st' \<Longrightarrow> recipeFrame st' st'' \<Longrightarrow> recipeFrame st st''"
  unfolding recipeFrame_def using recipeOnly_trans by metis

lemma recipeFrame_inv:
  assumes "recipeFrame (n, s) (n', s')" "storeInv ssl c (backIn n s)" "linked n s"
  shows "storeInv ssl c (backIn n' s')" "linked n' s'"
proof -
  have "recipeOnly (backIn n s) (backIn n' s')"
    using assms(1) by (intro recipeOnly_backIn) (auto simp: recipeFrame_def)
  then show "storeInv ssl c (backIn n' s')" using assms(2) by (rule storeInv_recipeOnly [rotated])
  show "linked n' s'" using assms by (auto simp: recipeFrame_def linked_def ckey_def)
qed

lemma storeNewRecipeFile_run:
  assumes run: "storeNewRecipeFile E (n, s) = Done path (n', s')" and nm: "recipeName (recipeFileName n)"
  shows "recipeFrame (n, s) (n', s') \<and> recipeFileBuffer n' = [] \<and> lastRecipeHeadPos n' = 0 \<and> db s' = db s \<and>
    recipeFileName n' = take 15 (globalRecipeFileName s) \<and>
    globalRecipeFileName s' = fst (incrGlobalFileName (globalRecipeFileName s) 12)"
proof -
  let ?path = "recipeFileDirName s @ recipeFileName n"
  have pre: "addPrefixDir (recipeFileDirName s) (recipeFileName n) = Some ?path"
    and lastp: "last ?path = 102" using recipeName_ok [OF nm] by auto
  obtain d where s': "n' = n\<lparr>recipeFileName := take 15 (globalRecipeFileName s), recipeFileBuffer := [], lastRecipeHeadPos := 0\<rparr>"
    "s' = s\<lparr>disk := (disk s)(?path \<mapsto> d), tick := Suc (Suc (tick s)),
       globalRecipeFileName := fst (incrGlobalFileName (globalRecipeFileName s) 12)\<rparr>"
    using run
    by (cases rule: fopenWb_cases [where E = E and path = ?path and s = s];
        cases rule: fwriteAt_cases [where E = E and path = ?path and pos = 0 and bs = "recipeFileBuffer n"
          and s = "tock (s\<lparr>disk := (disk s)(?path \<mapsto> [])\<rparr>)"])
       (auto simp: storeNewRecipeFile_def pre tock_def)
  have "disk s' p = disk s p" if "last p = 99" for p
    using that lastp by (auto simp: s')
  then show ?thesis by (auto simp: recipeFrame_def recipeOnly_def ckey_def s')
qed

end
