(* ===== verification/BufferLink.thy ===== *)
theory BufferLink
  imports RecipeStore
begin

text \<open>
  The link of per-user buffer nodes of server/dedup/DedupCore.cc: flushing a node, finding or
  creating the node of a user (which also evicts nodes that were idle for more than
  MAX_BUFFER_WAIT_SECS), cleaning up, reading a recipe file or a container that is still in a
  buffer, and the constructor.
\<close>

section \<open>Flushing a node\<close>

text \<open>The recipe buffer, when the last recipe head is at its beginning.\<close>

definition flushFirstRecipe :: "env \<Rightarrow> bufferNode \<Rightarrow> dedupCore \<Rightarrow> (unit, dedupCore) outcome" where
  "flushFirstRecipe E n s =
     bindO (findOldRecipeFile E n s) (\<lambda>(recipeName, recipeFileOffset) s1.
       case addPrefixDir (recipeFileDirName s1) recipeName of
         None \<Rightarrow> Fails s1
       | Some path \<Rightarrow>
           (case fopenAb E path s1 of
              (False, s2) \<Rightarrow> Fails s2
            | (True, s2) \<Rightarrow>
                (if length (fileContents s2 path) = 0 then
                   (case fopenWb E path s2 of
                      (False, s3) \<Rightarrow> Fails s3
                    | (True, s3) \<Rightarrow>
                        (if recipeFileOffset \<noteq> 0 then Fails s3
                         else
                           (case fwriteAt E path 0 (recipeFileBuffer n) s3 of
                              (False, s4) \<Rightarrow> Fails s4
                            | (True, s4) \<Rightarrow> Done () s4)))
                 else
                   (case fopenRb E path s2 of
                      (None, s3) \<Rightarrow> Fails s3
                    | (Some _, s3) \<Rightarrow> appendRecipeEntries E path recipeFileOffset n s3))))"

text \<open>A buffer written as a whole to the file of the given name.\<close>

definition flushWhole :: "env \<Rightarrow> bytes \<Rightarrow> bytes \<Rightarrow> bytes \<Rightarrow> dedupCore \<Rightarrow> (unit, dedupCore) outcome" where
  "flushWhole E dirName name contents s =
     (case addPrefixDir dirName name of
        None \<Rightarrow> Fails s
      | Some path \<Rightarrow>
          (case fopenWb E path s of
             (False, s1) \<Rightarrow> Fails s1
           | (True, s1) \<Rightarrow>
               (case fwriteAt E path 0 contents s1 of
                  (False, s2) \<Rightarrow> Fails s2
                | (True, s2) \<Rightarrow> Done () s2)))"

definition flushBufferNodeIntoDisk :: "env \<Rightarrow> bufferNode \<Rightarrow> dedupCore \<Rightarrow> (unit, dedupCore) outcome" where
  "flushBufferNodeIntoDisk E n s =
     bindO
       (if recipeFileBufferCurrLen n > 0 then
          (if lastRecipeHeadPos n = 0 then flushFirstRecipe E n s
           else flushWhole E (recipeFileDirName s) (recipeFileName n) (recipeFileBuffer n) s)
        else Done () s)
       (\<lambda>_ s1.
         if shareContainerBufferCurrLen n > 0
         then flushWhole E (shareContainerDirName s1) (shareContainerName n) (shareContainerBuffer n) s1
         else Done () s1)"

section \<open>Finding or creating the node of a user\<close>

text \<open>\<open>tailBufferNode_\<close> after a node was unlinked while walking the link; \<open>pre\<close> are the nodes before it.\<close>

definition tailAfterUnlink :: "bufferNode list \<Rightarrow> bufferNode \<Rightarrow> nat option \<Rightarrow> nat option" where
  "tailAfterUnlink pre m tail =
     (if tail = Some (bn_addr m) then (if pre = [] then None else Some (bn_addr (last pre))) else tail)"

text \<open>The walk over the link: the nodes kept so far, the nodes to visit, the node found.\<close>

fun sweepLink ::
  "env \<Rightarrow> int \<Rightarrow> bufferNode list \<Rightarrow> bufferNode list \<Rightarrow> nat option \<Rightarrow> dedupCore \<Rightarrow> (nat option, dedupCore) outcome" where
  "sweepLink E userID pre [] target s = Done target (s\<lparr>bufferLink := pre\<rparr>)"
| "sweepLink E userID pre (m # rest) target s =
     (case getCurrTime E s of (currTime, s1) \<Rightarrow>
       if bn_userID m = userID then
         sweepLink E userID (pre @ [m\<lparr>lastUseTime := currTime\<rparr>]) rest (Some (bn_addr m)) s1
       else if currTime - lastUseTime m > MAX_BUFFER_WAIT_USECS then
         (case flushBufferNodeIntoDisk E m s1 of
            Crash e \<Rightarrow> Crash e
          | Done _ s2 \<Rightarrow> sweepLink E userID pre rest target
              (s2\<lparr>tailBufferNode := tailAfterUnlink pre m (tailBufferNode s2)\<rparr>)
          | Fails s2 \<Rightarrow> sweepLink E userID pre rest target
              (s2\<lparr>tailBufferNode := tailAfterUnlink pre m (tailBufferNode s2)\<rparr>))
       else sweepLink E userID (pre @ [m]) rest target s1)"

definition newBufferNode :: "env \<Rightarrow> int \<Rightarrow> dedupCore \<Rightarrow> bufferNode \<times> dedupCore" where
  "newBufferNode E userID s =
     (case getCurrTime E s of (currTime, s1) \<Rightarrow>
       (\<lparr> bn_addr = nextAddr s1, bn_userID = userID,
          recipeFileName = take 15 (globalRecipeFileName s1), recipeFileBuffer = [], lastRecipeHeadPos = 0,
          lastInodeFP = None,
          shareContainerName = take 15 (globalShareContainerName s1), shareContainerBuffer = [],
          lastUseTime = currTime \<rparr>,
        s1\<lparr>nextAddr := Suc (nextAddr s1),
           globalRecipeFileName := fst (incrGlobalFileName (globalRecipeFileName s1) 12),
           globalShareContainerName := fst (incrGlobalFileName (globalShareContainerName s1) 12)\<rparr>))"

text \<open>
  Linking a new node behind \<open>tailBufferNode_\<close>, which is dereferenced when the link is not empty. A
  tail pointer that does not point at the last node is NULL or dangling.
\<close>

definition linkNode :: "bufferNode \<Rightarrow> dedupCore \<Rightarrow> (unit, dedupCore) outcome" where
  "linkNode n s =
     (if bufferLink s = [] then Done () (s\<lparr>bufferLink := [n], tailBufferNode := Some (bn_addr n)\<rparr>)
      else if tailBufferNode s = Some (bn_addr (last (bufferLink s))) then
        Done () (s\<lparr>bufferLink := bufferLink s @ [n], tailBufferNode := Some (bn_addr n)\<rparr>)
      else Crash NullDeref)"

definition nodeAt :: "nat \<Rightarrow> bufferNode list \<Rightarrow> bufferNode option" where
  "nodeAt a ns = find (\<lambda>n. bn_addr n = a) ns"

definition findOrCreateBufferNode :: "env \<Rightarrow> int \<Rightarrow> dedupCore \<Rightarrow> (bufferNode, dedupCore) outcome" where
  "findOrCreateBufferNode E userID s =
     bindO (sweepLink E userID [] (bufferLink s) None s) (\<lambda>target s1.
       case target of
         Some a \<Rightarrow> (case nodeAt a (bufferLink s1) of None \<Rightarrow> Crash NullDeref | Some n \<Rightarrow> Done n s1)
       | None \<Rightarrow>
           (case newBufferNode E userID s1 of (n, s2) \<Rightarrow>
             bindO (linkNode n s2) (\<lambda>_ s3. Done n s3)))"

section \<open>Cleaning up\<close>

text \<open>Unlinking the node of a user: the head pointer moves on, or the previous node skips it.\<close>

definition unlinkNode :: "bufferNode list \<Rightarrow> bufferNode \<Rightarrow> bufferNode list \<Rightarrow> dedupCore \<Rightarrow> dedupCore" where
  "unlinkNode pre n rest s =
     (if pre = [] then
        (let newHead = (case rest of [] \<Rightarrow> None | m # _ \<Rightarrow> Some (bn_addr m)) in
         s\<lparr>bufferLink := rest, tailBufferNode := (if newHead = tailBufferNode s then None else tailBufferNode s)\<rparr>)
      else
        s\<lparr>bufferLink := pre @ rest,
          tailBufferNode := (if tailBufferNode s = Some (bn_addr n) then Some (bn_addr (last pre)) else tailBufferNode s)\<rparr>)"

definition cleanupUserBufferNode :: "env \<Rightarrow> int \<Rightarrow> dedupCore \<Rightarrow> (unit, dedupCore) outcome" where
  "cleanupUserBufferNode E userID s =
     (let pre = takeWhile (\<lambda>m. bn_userID m \<noteq> userID) (bufferLink s) in
      case dropWhile (\<lambda>m. bn_userID m \<noteq> userID) (bufferLink s) of
        [] \<Rightarrow> Crash NullDeref
      | n # rest \<Rightarrow> bindO (flushBufferNodeIntoDisk E n s) (\<lambda>_ s1. Done () (unlinkNode pre n rest s1)))"

text \<open>
  All nodes are flushed and freed. The pointers to them stay in the object, which the destructor is
  about to free: the model empties the link.
\<close>

fun flushAll :: "env \<Rightarrow> bufferNode list \<Rightarrow> dedupCore \<Rightarrow> (unit, dedupCore) outcome" where
  "flushAll E [] s = Done () s"
| "flushAll E (n # rest) s = bindO (flushBufferNodeIntoDisk E n s) (\<lambda>_ s1. flushAll E rest s1)"

definition cleanupAllBufferNodes :: "env \<Rightarrow> dedupCore \<Rightarrow> (unit, dedupCore) outcome" where
  "cleanupAllBufferNodes E s =
     bindO (flushAll E (bufferLink s) s) (\<lambda>_ s1. Done () (s1\<lparr>bufferLink := []\<rparr>))"

section \<open>Reading from the buffers\<close>

definition readRecipeFileFromBuffer :: "int \<Rightarrow> bytes \<Rightarrow> dedupCore \<Rightarrow> bytes option" where
  "readRecipeFileFromBuffer userID name s =
     (case find (\<lambda>n. bn_userID n = userID) (bufferLink s) of
        Some n \<Rightarrow> if recipeFileName n = name then Some (recipeFileBuffer n) else None
      | None \<Rightarrow> None)"

definition readShareContainerFromBuffer :: "bytes \<Rightarrow> dedupCore \<Rightarrow> bytes option" where
  "readShareContainerFromBuffer name s =
     (case find (\<lambda>n. shareContainerName n = name) (bufferLink s) of
        Some n \<Rightarrow> Some (shareContainerBuffer n)
      | None \<Rightarrow> None)"

section \<open>Directories and the constructor\<close>

text \<open>
  The directories that exist, by names that end with '/'; the empty name is the working directory.
  \<open>mkdir\<close> reports success or EEXIST, or another error where its parent is missing or \<open>denied\<close>.
\<close>

definition mkdirAt :: "(bytes \<Rightarrow> bool) \<Rightarrow> bytes \<Rightarrow> bytes list \<Rightarrow> bool \<times> bytes list" where
  "mkdirAt denied dir dirs =
     (if dir \<in> set dirs then (True, dirs)
      else if \<not> denied dir \<and> (parentDir dir = [] \<or> parentDir dir \<in> set dirs) then (True, dirs @ [dir])
      else (False, dirs))"

definition slashPrefixes :: "bytes \<Rightarrow> bytes list" where
  "slashPrefixes dirName = map (\<lambda>i. take (Suc i) dirName) (filter (\<lambda>i. dirName ! i = 47) [0..<length dirName])"

fun createDirLoop :: "(bytes \<Rightarrow> bool) \<Rightarrow> bytes \<Rightarrow> bytes list \<Rightarrow> bytes list \<Rightarrow> bool \<times> bytes list" where
  "createDirLoop denied dirName [] dirs = (True, dirs)"
| "createDirLoop denied dirName (subDir # rest) dirs =
     (case mkdirAt denied subDir dirs of
        (False, dirs1) \<Rightarrow> (False, dirs1)
      | (True, dirs1) \<Rightarrow>
          if dirName \<notin> set dirs1 then (False, dirs1) else createDirLoop denied dirName rest dirs1)"

definition createDir :: "(bytes \<Rightarrow> bool) \<Rightarrow> bytes \<Rightarrow> bytes list \<Rightarrow> bool \<times> bytes list" where
  "createDir denied dirName dirs = createDirLoop denied dirName (slashPrefixes dirName) dirs"

datatype ctor_error = BadDirName | BadPrefix | DirNotCreated | DbNotOpened

text \<open>One of the three working directories: prefixed and created.\<close>

definition prepareDir :: "(bytes \<Rightarrow> bool) \<Rightarrow> bytes \<Rightarrow> bytes \<Rightarrow> bytes list \<Rightarrow> ctor_error + bytes \<times> bytes list" where
  "prepareDir denied dedupDir dirName dirs =
     (case addPrefixDir dedupDir dirName of
        None \<Rightarrow> Inl BadPrefix
      | Some full \<Rightarrow>
          (case createDir denied full dirs of
             (False, _) \<Rightarrow> Inl DirNotCreated
           | (True, dirs1) \<Rightarrow> Inr (full, dirs1)))"

definition mkDedupCore ::
  "(bytes \<Rightarrow> bool) \<Rightarrow> bytes list \<Rightarrow> (bytes \<Rightarrow> (bytes \<Rightarrow> bytes option) option) \<Rightarrow> (bytes \<Rightarrow> bytes option) \<Rightarrow>
   bytes \<Rightarrow> bytes \<Rightarrow> bytes \<Rightarrow> bytes \<Rightarrow> ctor_error + dedupCore" where
  "mkDedupCore denied dirs openDB disk0 dedupDirName dbDirName recipeDirName containerDirName =
     (case (formatDirName dedupDirName, formatDirName dbDirName, formatDirName recipeDirName,
            formatDirName containerDirName) of
        (Some dedupDir, Some dbDir, Some recipeDir, Some containerDir) \<Rightarrow>
          bindR (prepareDir denied dedupDir dbDir dirs) (\<lambda>(dbDir1, dirs1).
          bindR (prepareDir denied dedupDir recipeDir dirs1) (\<lambda>(recipeDir1, dirs2).
          bindR (prepareDir denied dedupDir containerDir dirs2) (\<lambda>(containerDir1, dirs3).
            case openDB dbDir1 of
              None \<Rightarrow> Inl DbNotOpened
            | Some db0 \<Rightarrow>
                Inr \<lparr> recipeFileDirName = recipeDir1, shareContainerDirName = containerDir1,
                  db = db0, disk = disk0, tick = 0,
                  globalRecipeFileName = replicate 12 97 @ rfSuffix,
                  globalShareContainerName = replicate 12 97 @ scSuffix,
                  bufferLink = [], tailBufferNode = None, nextAddr = 0, sent = [] \<rparr>)))
      | _ \<Rightarrow> Inl BadDirName)"

section \<open>Flushing keeps the shares\<close>

lemma flushWhole_run:
  assumes "flushWhole E d nm contents s = Done x s'" "addPrefixDir d nm = Some (d @ nm)"
  shows "\<exists>k. s' = s\<lparr>disk := (disk s)(d @ nm \<mapsto> contents), tick := k\<rparr> \<and> contents \<noteq> []"
proof (cases rule: fopenWb_cases [where E = E and path = "d @ nm" and s = s])
  case ok
  let ?s1 = "tock (s\<lparr>disk := (disk s)(d @ nm \<mapsto> [])\<rparr>)"
  show ?thesis
  proof (cases rule: fwriteAt_cases [where E = E and path = "d @ nm" and pos = 0 and bs = contents and s = ?s1])
    case written: ok
    then show ?thesis using assms ok
      by (intro exI [of _ "Suc (Suc (tick s))"]) (simp add: flushWhole_def tock_def fileContents_def)
  qed (use assms ok in \<open>auto simp: flushWhole_def\<close>)
qed (use assms in \<open>simp add: flushWhole_def\<close>)

text \<open>The file that holds the beginning of the node's last recipe has a recipe file's name.\<close>

definition recipeTarget :: "bufferNode \<Rightarrow> dedupCore \<Rightarrow> bool" where
  "recipeTarget n s \<longleftrightarrow>
     (\<forall>fp v h e. lastInodeFP n = Some fp \<and> db s (inodeFP2IndexKey fp) = Some v \<and>
        structAt 16 getInodeHead v 0 = Some h \<and>
        structAt 20 getInodeFileEntry v (16 + inh_shortNameSize h) = Some e \<longrightarrow> recipeName (ife_recipeFileName e))"

text \<open>Only the file at the given path changes.\<close>

definition onlyFile :: "bytes \<Rightarrow> dedupCore \<Rightarrow> dedupCore \<Rightarrow> bool" where
  "onlyFile path s t \<longleftrightarrow> (\<exists>m k. t = s\<lparr>disk := m, tick := k\<rparr> \<and> (\<forall>p. p \<noteq> path \<longrightarrow> m p = disk s p))"

lemma onlyFile_trans: "onlyFile path s t \<Longrightarrow> onlyFile path t u \<Longrightarrow> onlyFile path s u"
  unfolding onlyFile_def by force

lemma onlyFile_tock [simp]: "onlyFile path s (tock s)"
  unfolding onlyFile_def by (auto simp: tock_def intro!: exI [of _ "disk s"])

lemma onlyFile_put [simp]: "onlyFile path s (tock (s\<lparr>disk := (disk s)(path \<mapsto> c)\<rparr>))"
  unfolding onlyFile_def by (auto simp: tock_def intro!: exI [of _ "(disk s)(path \<mapsto> c)"])

lemma onlyFile_io:
  "onlyFile path s (snd (fopenWb E path s))" "onlyFile path s (snd (fopenAb E path s))"
  "onlyFile path s (snd (fopenRb E path s))" "onlyFile path s (snd (fwriteAt E path pos bs s))"
  "onlyFile path s (snd (freadAt E path pos n s))"
  by (simp_all add: fopenWb_def fopenAb_def fopenRb_def fwriteAt_def freadAt_def split: io_fault.splits)

lemma appendRecipeEntries_frame:
  assumes "appendRecipeEntries E path off n s = Done x s'"
  shows "onlyFile path s s'"
proof -
  obtain hb s1 where 1: "freadAt E path (fseekSet 0 off) 24 s = (Some hb, s1)"
    using assms by (auto simp: appendRecipeEntries_def Let_def split: prod.splits option.splits)
  let ?num = "frh_numOfShares (getRecipeHead hb)"
  let ?pos2 = "fseekSet (fseekSet 0 off + 24) (off + 24 + 40 * ?num)"
  obtain s2 where 2: "fwriteAt E path ?pos2 (drop 24 (recipeFileBuffer n)) s1 = (True, s2)"
    using assms 1 by (auto simp: appendRecipeEntries_def Let_def split: prod.splits bool.splits if_splits)
  let ?pos3 = "fseekSet (?pos2 + length (drop 24 (recipeFileBuffer n))) off"
  let ?hd = "writeAt 16 (le 4 (?num + frh_numOfShares (getRecipeHead (take 24 (recipeFileBuffer n))))) hb"
  have 3: "fwriteAt E path ?pos3 ?hd s2 = (True, s')"
    using assms 1 2 by (auto simp: appendRecipeEntries_def Let_def split: prod.splits bool.splits if_splits)
  have "onlyFile path s s1" "onlyFile path s1 s2" "onlyFile path s2 s'"
    using onlyFile_io(5) [of path s E "fseekSet 0 off" 24] onlyFile_io(4) [of path s1 E ?pos2 "drop 24 (recipeFileBuffer n)"]
      onlyFile_io(4) [of path s2 E ?pos3 ?hd] 1 2 3 by simp_all
  then show ?thesis using onlyFile_trans by blast
qed

lemma findOldRecipeFile_frame:
  assumes "findOldRecipeFile E n s = Done (rn, off) s'" "recipeTarget n s"
  shows "s' = tock s" "recipeName rn"
proof -
  obtain fp where fp: "lastInodeFP n = Some fp"
    using assms by (auto simp: findOldRecipeFile_def split: option.splits)
  show "s' = tock s" "recipeName rn"
    by (cases rule: dbGet_cases [where E = E and key = "inodeFP2IndexKey fp" and s = s];
        use assms fp in \<open>auto simp: findOldRecipeFile_def recipeTarget_def status_simps\<close>)+
qed

lemma flushFirstRecipe_frame:
  assumes run: "flushFirstRecipe E n s = Done x s'" and tgt: "recipeTarget n s"
  shows "\<exists>rn. recipeName rn \<and> onlyFile (recipeFileDirName s @ rn) s s'"
proof -
  obtain rn off s1 where old: "findOldRecipeFile E n s = Done (rn, off) s1"
    using run by (auto simp: flushFirstRecipe_def status_simps)
  note 1 = findOldRecipeFile_frame [OF old tgt]
  let ?path = "recipeFileDirName s @ rn"
  have pre: "addPrefixDir (recipeFileDirName s) rn = Some ?path" using recipeName_ok [OF 1(2)] by blast
  obtain s2 where 2: "fopenAb E ?path s1 = (True, s2)"
    using run old pre 1 by (auto simp: flushFirstRecipe_def split: prod.splits bool.splits)
  have "onlyFile ?path s s1" using 1 by simp
  moreover have "onlyFile ?path s1 s2" using onlyFile_io(2) [of ?path s1 E] 2 by simp
  moreover have "onlyFile ?path s2 s'"
  proof (cases "length (fileContents s2 ?path) = 0")
    case True
    obtain s3 where 3: "fopenWb E ?path s2 = (True, s3)"
      using run old pre 1 2 True by (auto simp: flushFirstRecipe_def split: prod.splits bool.splits)
    have 4: "fwriteAt E ?path 0 (recipeFileBuffer n) s3 = (True, s')"
      using run old pre 1 2 3 True by (auto simp: flushFirstRecipe_def split: prod.splits bool.splits if_splits)
    show ?thesis
      using onlyFile_io(1) [of ?path s2 E] onlyFile_io(4) [of ?path s3 E 0 "recipeFileBuffer n"] 3 4
        onlyFile_trans [of ?path s2 s3 s'] by simp
  next
    case False
    obtain c s3 where 3: "fopenRb E ?path s2 = (Some c, s3)" and 4: "appendRecipeEntries E ?path off n s3 = Done x s'"
      using run old pre 1 2 False by (auto simp: flushFirstRecipe_def split: prod.splits option.splits)
    show ?thesis
      using onlyFile_io(3) [of ?path s2 E] appendRecipeEntries_frame [OF 4] 3 onlyFile_trans [of ?path s2 s3 s'] by simp
  qed
  ultimately have "onlyFile ?path s s'" using onlyFile_trans by blast
  then show ?thesis using 1(2) by blast
qed

lemma flush_run:
  assumes run: "flushBufferNodeIntoDisk E n s = Done x s'" and tgt: "recipeTarget n s"
    and nm: "recipeName (recipeFileName n)" "containerName (shareContainerName n)"
  shows "\<exists>m k. s' = s\<lparr>disk := m, tick := k\<rparr> \<and>
    (\<forall>p. last p = 99 \<longrightarrow> m p = (if p = shareContainerDirName s @ shareContainerName n \<and> shareContainerBuffer n \<noteq> []
       then Some (shareContainerBuffer n) else disk s p))"
proof -
  obtain s1 where r: "(if recipeFileBufferCurrLen n > 0 then
          (if lastRecipeHeadPos n = 0 then flushFirstRecipe E n s
           else flushWhole E (recipeFileDirName s) (recipeFileName n) (recipeFileBuffer n) s)
        else Done () s) = Done () s1"
    and c: "(if shareContainerBufferCurrLen n > 0
         then flushWhole E (shareContainerDirName s1) (shareContainerName n) (shareContainerBuffer n) s1
         else Done () s1) = Done x s'"
    using run by (auto simp: flushBufferNodeIntoDisk_def status_simps)
  have "\<exists>rn. recipeName rn \<and> onlyFile (recipeFileDirName s @ rn) s s1"
  proof (cases "recipeFileBufferCurrLen n > 0")
    case True
    show ?thesis
    proof (cases "lastRecipeHeadPos n = 0")
      case first: True
      have "flushFirstRecipe E n s = Done () s1" using r True first by simp
      then show ?thesis by (rule flushFirstRecipe_frame [OF _ tgt])
    next
      case False
      then have "flushWhole E (recipeFileDirName s) (recipeFileName n) (recipeFileBuffer n) s = Done () s1" using r True by simp
      from flushWhole_run [OF this] recipeName_ok [OF nm(1)]
      have "onlyFile (recipeFileDirName s @ recipeFileName n) s s1" unfolding onlyFile_def by auto
      then show ?thesis using nm by blast
    qed
  next
    case False
    then have "s1 = s" using r by simp
    moreover have "onlyFile p s s" for p unfolding onlyFile_def by (auto intro!: exI [of _ "disk s"] exI [of _ "tick s"])
    ultimately show ?thesis using nm by blast
  qed
  then obtain rn m k where s1: "s1 = s\<lparr>disk := m, tick := k\<rparr>" "recipeName rn"
    "\<forall>p. p \<noteq> recipeFileDirName s @ rn \<longrightarrow> m p = disk s p" unfolding onlyFile_def by blast
  have m: "m p = disk s p" if "last p = 99" for p
  proof -
    have "last (recipeFileDirName s @ rn) = 102" using recipeName_ok [OF s1(2)] by auto
    then have "p \<noteq> recipeFileDirName s @ rn" using that by auto
    then show ?thesis using s1(3) by blast
  qed
  show ?thesis
  proof (cases "shareContainerBuffer n = []")
    case True
    then have "s' = s1" using c by simp
    then show ?thesis using s1(1) m True by auto
  next
    case False
    then have "flushWhole E (shareContainerDirName s) (shareContainerName n) (shareContainerBuffer n) s1 = Done x s'"
      using c s1 by simp
    from flushWhole_run [OF this] containerName_ok [OF nm(2)]
    obtain k' where "s' = s1\<lparr>disk := m(shareContainerDirName s @ shareContainerName n \<mapsto> shareContainerBuffer n), tick := k'\<rparr>"
      using s1(1) by auto
    then show ?thesis using s1(1) m False
      by (intro exI [of _ "m(shareContainerDirName s @ shareContainerName n \<mapsto> shareContainerBuffer n)"] exI [of _ k']) auto
  qed
qed

text \<open>A node whose container went to the disk may leave the link.\<close>

lemma unlink_inv:
  assumes inv: "storeInv ssl c s" and link: "bufferLink s = pre @ n # rest" "bufferLink t = pre @ rest"
    and same: "db t = db s" "shareContainerDirName t = shareContainerDirName s"
      "globalShareContainerName t = globalShareContainerName s" "nextAddr t = nextAddr s"
    and out: "\<And>p. last p = 99 \<Longrightarrow> disk t p = (if p = shareContainerDirName s @ shareContainerName n \<and>
      shareContainerBuffer n \<noteq> [] then Some (shareContainerBuffer n) else disk s p)"
  shows "storeInv ssl c t" "grows s t"
proof -
  have ls: "linkSound s" using inv by (simp add: storeInv_def)
  have lt: "linkSound t" using ls link same by (auto simp: linkSound_def nodeSound_def)
  have "containerOf t name = Some bs"
    if nm: "containerName name" and bs: "containerOf s name = Some bs" "bs \<noteq> []" for name bs
  proof (cases "name = shareContainerName n")
    case True
    have "containerOf s name = Some (shareContainerBuffer n)"
      unfolding True by (rule containerOf_link [OF ls]) (simp add: link)
    moreover have "name \<notin> shareContainerName ` set (bufferLink t)" using ls link True by (auto simp: linkSound_def)
    then have "containerOf t name = disk t (shareContainerDirName t @ name)" by (rule containerOf_disk)
    moreover have "last (shareContainerDirName t @ name) = 99"
      using containerName_ok [OF nm] nm by (cases "name = []") (auto simp: validName_def)
    ultimately show ?thesis using out [of "shareContainerDirName t @ name"] bs True same by simp
  next
    case False
    have "find (\<lambda>m. shareContainerName m = name) (bufferLink t) = find (\<lambda>m. shareContainerName m = name) (bufferLink s)"
      using False unfolding link by (induction pre) auto
    moreover have "last (shareContainerDirName t @ name) = 99"
      using containerName_ok [OF nm] nm by (cases "name = []") (auto simp: validName_def)
    then have "disk t (shareContainerDirName t @ name) = disk s (shareContainerDirName s @ name)"
      using out [of "shareContainerDirName t @ name"] False same by simp
    ultimately show ?thesis using bs same by (simp add: containerOf_def split: option.splits)
  qed
  then show g: "grows s t" using same by (auto simp: grows_def intro: exI [of _ "[]"])
  show "storeInv ssl c t" using storeInv_db [OF inv g same(1) lt] .
qed

text \<open>A node was found and flushed: the link without it still holds every share.\<close>

lemma flush_unlink_inv:
  assumes inv: "storeInv ssl c s" and link: "bufferLink s = pre @ n # rest"
    and run: "flushBufferNodeIntoDisk E n s = Done x s1"
    and nm: "recipeName (recipeFileName n)" "recipeTarget n s"
  shows "storeInv ssl c (s1\<lparr>bufferLink := pre @ rest, tailBufferNode := ta\<rparr>)"
    "grows s (s1\<lparr>bufferLink := pre @ rest, tailBufferNode := ta\<rparr>)" "db s1 = db s" "bufferLink s1 = bufferLink s"
    "nextAddr s1 = nextAddr s" "tailBufferNode s1 = tailBufferNode s" "recipeFileDirName s1 = recipeFileDirName s"
proof -
  have "containerName (shareContainerName n)" using inv link by (auto simp: storeInv_def linkSound_def nodeSound_def)
  from flush_run [OF run nm(2,1) this] obtain m k where s1: "s1 = s\<lparr>disk := m, tick := k\<rparr>"
    and m: "\<And>p. last p = 99 \<Longrightarrow> m p = (if p = shareContainerDirName s @ shareContainerName n \<and>
       shareContainerBuffer n \<noteq> [] then Some (shareContainerBuffer n) else disk s p)" by blast
  show "storeInv ssl c (s1\<lparr>bufferLink := pre @ rest, tailBufferNode := ta\<rparr>)"
    "grows s (s1\<lparr>bufferLink := pre @ rest, tailBufferNode := ta\<rparr>)"
    by (rule unlink_inv [OF inv link]; use m in \<open>simp add: s1\<close>)+
  show "db s1 = db s" "bufferLink s1 = bufferLink s" "nextAddr s1 = nextAddr s"
    "tailBufferNode s1 = tailBufferNode s" "recipeFileDirName s1 = recipeFileDirName s" by (simp_all add: s1)
qed

section \<open>Finding or creating a node when no node is idle\<close>

text \<open>A node up to the time of its last use.\<close>

definition untime :: "bufferNode \<Rightarrow> bufferNode" where "untime n = n\<lparr>lastUseTime := 0\<rparr>"

lemma untime_update [simp]: "untime (n\<lparr>lastUseTime := t\<rparr>) = untime n"
  by (simp add: untime_def)

lemma untime_fields:
  assumes "untime n = untime m"
  shows "bn_addr n = bn_addr m" "bn_userID n = bn_userID m" "recipeFileName n = recipeFileName m"
    "recipeFileBuffer n = recipeFileBuffer m" "lastRecipeHeadPos n = lastRecipeHeadPos m"
    "lastInodeFP n = lastInodeFP m" "shareContainerName n = shareContainerName m"
    "shareContainerBuffer n = shareContainerBuffer m" "ckey n = ckey m"
  using assms by (cases n; cases m; simp add: untime_def ckey_def)+

lemma untime_map: "map untime xs = map untime ys \<Longrightarrow> (\<And>n m. untime n = untime m \<Longrightarrow> f n = f m) \<Longrightarrow> map f xs = map f ys"
proof (induction xs arbitrary: ys)
  case (Cons x xs)
  from Cons.prems(1) obtain y zs where "ys = y # zs" "untime x = untime y" "map untime xs = map untime zs" by auto
  moreover have "map f xs = map f zs" by (rule Cons.IH [OF calculation(3) Cons.prems(2)])
  moreover have "f x = f y" by (rule Cons.prems(2) [OF calculation(2)])
  ultimately show ?case by simp
qed simp

lemma tock_link: "(tock s)\<lparr>bufferLink := l, tick := k\<rparr> = s\<lparr>bufferLink := l, tick := k\<rparr>"
  by (simp add: tock_def)

lemma untime_mem: "map untime xs = map untime ys \<Longrightarrow> n \<in> set xs \<Longrightarrow> \<exists>m\<in>set ys. untime n = untime m"
  by (metis (no_types, lifting) image_iff list.set_map)

definition noIdle :: "env \<Rightarrow> dedupCore \<Rightarrow> bool" where
  "noIdle E s \<longleftrightarrow> (\<forall>m\<in>set (bufferLink s). \<forall>i. clock E i - lastUseTime m \<le> MAX_BUFFER_WAIT_USECS)"

lemma sweep_run:
  assumes "\<forall>m\<in>set rest. \<forall>i. clock E i - lastUseTime m \<le> MAX_BUFFER_WAIT_USECS"
  shows "\<exists>link k. sweepLink E u pre rest target s =
      Done (case find (\<lambda>m. bn_userID m = u) (rev rest) of Some m \<Rightarrow> Some (bn_addr m) | None \<Rightarrow> target)
        (s\<lparr>bufferLink := pre @ link, tick := k\<rparr>) \<and> map untime link = map untime rest"
  using assms
proof (induction rest arbitrary: pre target s)
  case Nil
  show ?case by (intro exI [of _ "[]"] exI [of _ "tick s"]) simp
next
  case (Cons m rest)
  have idle: "\<not> clock E (tick s) - lastUseTime m > MAX_BUFFER_WAIT_USECS" using Cons.prems by (auto simp: not_less)
  have fr: "find P (xs @ [x]) = (case find P xs of Some y \<Rightarrow> Some y | None \<Rightarrow> if P x then Some x else None)"
    for P :: "bufferNode \<Rightarrow> bool" and xs x by (induction xs) auto
  show ?case
  proof (cases "bn_userID m = u")
    case True
    obtain link k where IH: "sweepLink E u (pre @ [m\<lparr>lastUseTime := clock E (tick s)\<rparr>]) rest (Some (bn_addr m)) (tock s) =
        Done (case find (\<lambda>m. bn_userID m = u) (rev rest) of Some m \<Rightarrow> Some (bn_addr m) | None \<Rightarrow> Some (bn_addr m))
          ((tock s)\<lparr>bufferLink := (pre @ [m\<lparr>lastUseTime := clock E (tick s)\<rparr>]) @ link, tick := k\<rparr>)"
      "map untime link = map untime rest"
      using Cons.IH [of "pre @ [m\<lparr>lastUseTime := clock E (tick s)\<rparr>]" "Some (bn_addr m)" "tock s"] Cons.prems by auto
    show ?thesis
      by (intro exI [of _ "m\<lparr>lastUseTime := clock E (tick s)\<rparr> # link"] exI [of _ k])
        (simp add: getCurrTime_def True IH fr tock_link split: option.splits)
  next
    case False
    obtain link k where IH: "sweepLink E u (pre @ [m]) rest target (tock s) =
        Done (case find (\<lambda>m. bn_userID m = u) (rev rest) of Some m \<Rightarrow> Some (bn_addr m) | None \<Rightarrow> target)
          ((tock s)\<lparr>bufferLink := (pre @ [m]) @ link, tick := k\<rparr>)"
      "map untime link = map untime rest"
      using Cons.IH [of "pre @ [m]" target "tock s"] Cons.prems by auto
    show ?thesis using False idle
      by (intro exI [of _ "m # link"] exI [of _ k])
        (simp add: getCurrTime_def IH fr tock_link split: option.splits)
  qed
qed

text \<open>The tail pointer is usable: it points at the last node of a link that is not empty.\<close>

definition tailOk :: "dedupCore \<Rightarrow> bool" where
  "tailOk s \<longleftrightarrow> bufferLink s \<noteq> [] \<longrightarrow> tailBufferNode s = Some (bn_addr (last (bufferLink s)))"

definition freshNode :: "nat \<Rightarrow> int \<Rightarrow> bytes \<Rightarrow> bytes \<Rightarrow> bufferNode" where
  "freshNode a u rn cn = \<lparr> bn_addr = a, bn_userID = u, recipeFileName = rn, recipeFileBuffer = [],
     lastRecipeHeadPos = 0, lastInodeFP = None, shareContainerName = cn, shareContainerBuffer = [], lastUseTime = 0 \<rparr>"

lemma findOrCreate_run:
  assumes idle: "noIdle E s" and tail: "tailOk s" and dist: "distinct (map bn_addr (bufferLink s))"
  shows "\<exists>n s1 link k. findOrCreateBufferNode E u s = Done n s1 \<and> map untime link = map untime (bufferLink s) \<and>
    ((\<exists>m\<in>set (bufferLink s). bn_userID m = u) \<and> bn_userID n = u \<and> n \<in> set link \<and> s1 = s\<lparr>bufferLink := link, tick := k\<rparr> \<or>
     (\<forall>m\<in>set (bufferLink s). bn_userID m \<noteq> u) \<and>
     untime n = freshNode (nextAddr s) u (take 15 (globalRecipeFileName s)) (take 15 (globalShareContainerName s)) \<and>
     s1 = s\<lparr>bufferLink := link @ [n], tick := k, nextAddr := Suc (nextAddr s), tailBufferNode := Some (bn_addr n),
       globalRecipeFileName := fst (incrGlobalFileName (globalRecipeFileName s) 12),
       globalShareContainerName := fst (incrGlobalFileName (globalShareContainerName s) 12)\<rparr>)"
proof -
  obtain link k where run: "sweepLink E u [] (bufferLink s) None s =
      Done (case find (\<lambda>m. bn_userID m = u) (rev (bufferLink s)) of Some m \<Rightarrow> Some (bn_addr m) | None \<Rightarrow> None)
        (s\<lparr>bufferLink := link, tick := k\<rparr>)" and link: "map untime link = map untime (bufferLink s)"
    using sweep_run [of "bufferLink s" E u "[]" None s] idle by (auto simp: noIdle_def)
  show ?thesis
  proof (cases "find (\<lambda>m. bn_userID m = u) (rev (bufferLink s))")
    case None
    then have none: "\<forall>m\<in>set (bufferLink s). bn_userID m \<noteq> u" by (auto simp: find_None_iff)
    have last: "link \<noteq> [] \<Longrightarrow> tailBufferNode s = Some (bn_addr (last link))"
    proof -
      assume ne: "link \<noteq> []"
      then have ne': "bufferLink s \<noteq> []" using link by auto
      have "untime (last link) = untime (last (bufferLink s))"
        using link ne ne' by (metis last_map)
      then have "bn_addr (last link) = bn_addr (last (bufferLink s))" by (rule untime_fields)
      then show ?thesis using tail ne' by (simp add: tailOk_def)
    qed
    let ?n = "freshNode (nextAddr s) u (take 15 (globalRecipeFileName s)) (take 15 (globalShareContainerName s))
      \<lparr>lastUseTime := clock E k\<rparr>"
    let ?s1 = "s\<lparr>bufferLink := link @ [?n], tick := Suc k, nextAddr := Suc (nextAddr s), tailBufferNode := Some (bn_addr ?n),
      globalRecipeFileName := fst (incrGlobalFileName (globalRecipeFileName s) 12),
      globalShareContainerName := fst (incrGlobalFileName (globalShareContainerName s) 12)\<rparr>"
    have create: "newBufferNode E u (s\<lparr>bufferLink := link, tick := k\<rparr>) = (?n, ?s1\<lparr>bufferLink := link, tailBufferNode := tailBufferNode s\<rparr>)"
      by (simp add: newBufferNode_def getCurrTime_def freshNode_def tock_def)
    have "linkNode ?n (?s1\<lparr>bufferLink := link, tailBufferNode := tailBufferNode s\<rparr>) = Done () ?s1"
      using last by (cases "link = []") (simp_all add: linkNode_def)
    then have "findOrCreateBufferNode E u s = Done ?n ?s1"
      using run None create by (simp add: findOrCreateBufferNode_def)
    moreover have "untime ?n = freshNode (nextAddr s) u (take 15 (globalRecipeFileName s)) (take 15 (globalShareContainerName s))"
      by (simp add: untime_def freshNode_def)
    ultimately show ?thesis using none link by blast
  next
    case (Some m)
    have m: "m \<in> set (bufferLink s)" "bn_userID m = u"
      using Some nth_mem [of _ "rev (bufferLink s)"] by (auto simp: find_Some_iff simp del: nth_mem)
    obtain m' where m': "m' \<in> set link" "untime m = untime m'"
      using untime_mem [OF link [symmetric] m(1)] by blast
    have dist': "distinct (map bn_addr link)"
      using dist untime_map [OF link, of bn_addr] untime_fields(1) by metis
    have "nodeAt (bn_addr m) link = Some m'"
      using find_distinct [OF dist' m'(1)] untime_fields(1) [OF m'(2)] by (simp add: nodeAt_def)
    then show ?thesis using run Some m m' link untime_fields(2) [OF m'(2)]
      by (intro exI [of _ m'] exI [of _ "s\<lparr>bufferLink := link, tick := k\<rparr>"] exI [of _ link] exI [of _ k])
        (auto simp: findOrCreateBufferNode_def)
  qed
qed

lemma findOrCreate_link:
  assumes "noIdle E s" "tailOk s" "linkSound s"
  obtains n s1 where "findOrCreateBufferNode E u s = Done n s1" "linked n s1" "n \<in> set (bufferLink s1)" "bn_userID n = u"
    "backIn n s1 = s1" "db s1 = db s" "disk s1 = disk s" "sent s1 = sent s"
    "recipeFileDirName s1 = recipeFileDirName s" "shareContainerDirName s1 = shareContainerDirName s"
    "(\<exists>m\<in>set (bufferLink s). untime n = untime m) \<and> recipeOnly s s1 \<and> globalRecipeFileName s1 = globalRecipeFileName s \<and>
       map untime (bufferLink s1) = map untime (bufferLink s) \<and> tailBufferNode s1 = tailBufferNode s \<or>
     (\<forall>m\<in>set (bufferLink s). bn_userID m \<noteq> u) \<and>
     untime n = freshNode (nextAddr s) u (take 15 (globalRecipeFileName s)) (take 15 (globalShareContainerName s)) \<and>
       (\<exists>link. bufferLink s1 = link @ [n] \<and> map untime link = map untime (bufferLink s)) \<and>
       nextAddr s1 = Suc (nextAddr s) \<and> tailBufferNode s1 = Some (bn_addr n) \<and>
       globalRecipeFileName s1 = fst (incrGlobalFileName (globalRecipeFileName s) 12) \<and>
       globalShareContainerName s1 = fst (incrGlobalFileName (globalShareContainerName s) 12)"
proof -
  have dist: "distinct (map bn_addr (bufferLink s))" and small: "\<forall>m\<in>set (bufferLink s). bn_addr m < nextAddr s"
    using assms(3) by (auto simp: linkSound_def nodeSound_def)
  obtain n s1 link k where run: "findOrCreateBufferNode E u s = Done n s1" "map untime link = map untime (bufferLink s)"
    and cases: "(\<exists>m\<in>set (bufferLink s). bn_userID m = u) \<and> bn_userID n = u \<and> n \<in> set link \<and> s1 = s\<lparr>bufferLink := link, tick := k\<rparr> \<or>
     (\<forall>m\<in>set (bufferLink s). bn_userID m \<noteq> u) \<and>
     untime n = freshNode (nextAddr s) u (take 15 (globalRecipeFileName s)) (take 15 (globalShareContainerName s)) \<and>
     s1 = s\<lparr>bufferLink := link @ [n], tick := k, nextAddr := Suc (nextAddr s), tailBufferNode := Some (bn_addr n),
       globalRecipeFileName := fst (incrGlobalFileName (globalRecipeFileName s) 12),
       globalShareContainerName := fst (incrGlobalFileName (globalShareContainerName s) 12)\<rparr>"
    using findOrCreate_run [OF assms(1,2) dist, where u = u] by (elim exE conjE) (rule that)
  have addrs: "map bn_addr link = map bn_addr (bufferLink s)"
    by (rule untime_map [OF run(2)]) (rule untime_fields)
  have keys: "map ckey link = map ckey (bufferLink s)"
    by (rule untime_map [OF run(2)]) (rule untime_fields)
  have self: "backIn n t = t" if "n \<in> set (bufferLink t)" "distinct (map bn_addr (bufferLink t))" for t
  proof -
    have "map (\<lambda>m. if bn_addr m = bn_addr n then n else m) (bufferLink t) = bufferLink t"
    proof (rule map_idI)
      fix m assume "m \<in> set (bufferLink t)"
      moreover have "inj_on bn_addr (set (bufferLink t))" using that(2) by (simp add: distinct_map)
      ultimately show "(if bn_addr m = bn_addr n then n else m) = m" using that(1) by (simp add: inj_on_def)
    qed
    then show ?thesis by (simp add: backIn_def)
  qed
  from cases show ?thesis
  proof
    assume old: "(\<exists>m\<in>set (bufferLink s). bn_userID m = u) \<and> bn_userID n = u \<and> n \<in> set link \<and> s1 = s\<lparr>bufferLink := link, tick := k\<rparr>"
    then have s1: "s1 = s\<lparr>bufferLink := link, tick := k\<rparr>" "n \<in> set (bufferLink s1)" by auto
    have "backIn n s1 = s1" by (rule self) (use s1 addrs dist in simp_all)
    moreover have "recipeOnly s s1" using keys by (simp add: recipeOnly_def s1)
    moreover have "\<exists>m\<in>set (bufferLink s). untime n = untime m" using untime_mem [OF run(2)] old by blast
    moreover have "linked n s1" using s1 by (simp add: linked_def)
    ultimately show ?thesis using that [OF run(1)] old run(2) s1 by simp
  next
    assume new: "(\<forall>m\<in>set (bufferLink s). bn_userID m \<noteq> u) \<and>
     untime n = freshNode (nextAddr s) u (take 15 (globalRecipeFileName s)) (take 15 (globalShareContainerName s)) \<and>
     s1 = s\<lparr>bufferLink := link @ [n], tick := k, nextAddr := Suc (nextAddr s), tailBufferNode := Some (bn_addr n),
       globalRecipeFileName := fst (incrGlobalFileName (globalRecipeFileName s) 12),
       globalShareContainerName := fst (incrGlobalFileName (globalShareContainerName s) 12)\<rparr>"
    then have s1: "n \<in> set (bufferLink s1)" "bufferLink s1 = link @ [n]" by auto
    have n: "bn_addr n = nextAddr s" "bn_userID n = u"
      using new untime_fields(1,2) [of n "freshNode (nextAddr s) u (take 15 (globalRecipeFileName s)) (take 15 (globalShareContainerName s))"]
      by (simp_all add: untime_def freshNode_def)
    have "nextAddr s \<notin> bn_addr ` set (bufferLink s)" using small by auto
    then have "distinct (map bn_addr (bufferLink s1))" using dist addrs n by (simp add: s1)
    then have "backIn n s1 = s1" by (rule self [OF s1(1)])
    moreover have "linked n s1" using s1 by (simp add: linked_def)
    ultimately show ?thesis using that [OF run(1)] new n run(2) by simp
  qed
qed

text \<open>A node with the next container name joins the link: the name has not been used.\<close>

lemma new_node_inv:
  assumes inv: "storeInv ssl c s" and more: "nameVal (globalShareContainerName s) + 1 < 26 ^ 12"
    and n: "bn_addr n = nextAddr s" "shareContainerName n = globalShareContainerName s" "shareContainerBuffer n = []"
    and t: "bufferLink t = bufferLink s @ [n]" "nextAddr t = Suc (nextAddr s)" "db t = db s" "disk t = disk s"
      "shareContainerDirName t = shareContainerDirName s"
      "globalShareContainerName t = fst (incrGlobalFileName (globalShareContainerName s) 12)"
  shows "storeInv ssl c t" "grows s t" "nameVal (globalShareContainerName t) = nameVal (globalShareContainerName s) + 1"
proof -
  have ls: "linkSound s" using inv by (simp add: storeInv_def)
  then have glob: "containerName (globalShareContainerName s)" by (simp add: linkSound_def)
  note up = incrGlobalFileName_step [OF glob more]
  have fresh: "m \<in> set (bufferLink s) \<Longrightarrow> shareContainerName m \<noteq> globalShareContainerName s \<and> bn_addr m \<noteq> nextAddr s" for m
    using ls by (auto simp: linkSound_def nodeSound_def)
  have lt: "linkSound t"
    using ls n up fresh unfolding linkSound_def nodeSound_def t
    by (auto simp: glob CONTAINER_BUFFER_SIZE_def image_iff)
  have "containerOf t name = containerOf s name" if "nameVal name < nameVal (globalShareContainerName s)" for name
  proof -
    have "name \<noteq> shareContainerName n" using that n by auto
    then have "find (\<lambda>m. shareContainerName m = name) (l @ [n]) = find (\<lambda>m. shareContainerName m = name) l" for l
      by (induction l) auto
    then show ?thesis by (simp add: containerOf_def t split: option.splits)
  qed
  then show g: "grows s t" using up t by (auto simp: grows_def intro: exI [of _ "[]"])
  show "storeInv ssl c t" using storeInv_db [OF inv g t(3) lt] .
  show "nameVal (globalShareContainerName t) = nameVal (globalShareContainerName s) + 1" using up t by simp
qed

text \<open>A new node keeps the invariant: its container name has not been used.\<close>

lemma findOrCreate_inv:
  assumes inv: "storeInv ssl c s" and run: "findOrCreateBufferNode E u s = Done n s1"
    and idle: "noIdle E s" "tailOk s" and more: "nameVal (globalShareContainerName s) + 1 < 26 ^ 12"
  shows "storeInv ssl c s1" "grows s s1" "linked n s1" "backIn n s1 = s1"
    "nameVal (globalShareContainerName s1) \<le> nameVal (globalShareContainerName s) + 1"
proof -
  have ls: "linkSound s" using inv by (simp add: storeInv_def)
  obtain n' s1' where r: "findOrCreateBufferNode E u s = Done n' s1'" "linked n' s1'" "n' \<in> set (bufferLink s1')"
    "bn_userID n' = u" "backIn n' s1' = s1'" "db s1' = db s" "disk s1' = disk s" "sent s1' = sent s"
    "recipeFileDirName s1' = recipeFileDirName s" "shareContainerDirName s1' = shareContainerDirName s"
    "(\<exists>m\<in>set (bufferLink s). untime n' = untime m) \<and> recipeOnly s s1' \<and> globalRecipeFileName s1' = globalRecipeFileName s \<and>
       map untime (bufferLink s1') = map untime (bufferLink s) \<and> tailBufferNode s1' = tailBufferNode s \<or>
     (\<forall>m\<in>set (bufferLink s). bn_userID m \<noteq> u) \<and>
     untime n' = freshNode (nextAddr s) u (take 15 (globalRecipeFileName s)) (take 15 (globalShareContainerName s)) \<and>
       (\<exists>link. bufferLink s1' = link @ [n'] \<and> map untime link = map untime (bufferLink s)) \<and>
       nextAddr s1' = Suc (nextAddr s) \<and> tailBufferNode s1' = Some (bn_addr n') \<and>
       globalRecipeFileName s1' = fst (incrGlobalFileName (globalRecipeFileName s) 12) \<and>
       globalShareContainerName s1' = fst (incrGlobalFileName (globalShareContainerName s) 12)"
    by (rule findOrCreate_link [OF idle ls, where u = u])
  have eq: "n' = n" "s1' = s1" using r(1) run by simp_all
  show "linked n s1" "backIn n s1 = s1" using r(2,5) eq by simp_all
  show "storeInv ssl c s1" "grows s s1" "nameVal (globalShareContainerName s1) \<le> nameVal (globalShareContainerName s) + 1"
    using r(11) unfolding eq
  proof (atomize (full), elim disjE conjE exE)
    assume "recipeOnly s s1"
    then show "storeInv ssl c s1 \<and> grows s s1 \<and> nameVal (globalShareContainerName s1) \<le> nameVal (globalShareContainerName s) + 1"
      using storeInv_recipeOnly [OF inv] recipeOnly_grows by (auto simp: recipeOnly_def)
  next
    fix link
    assume n: "untime n = freshNode (nextAddr s) u (take 15 (globalRecipeFileName s)) (take 15 (globalShareContainerName s))"
      and link: "bufferLink s1 = link @ [n]" "map untime link = map untime (bufferLink s)"
      and na: "nextAddr s1 = Suc (nextAddr s)"
      and g: "globalShareContainerName s1 = fst (incrGlobalFileName (globalShareContainerName s) 12)"
    have "take 15 (globalShareContainerName s) = globalShareContainerName s" using ls by (simp add: linkSound_def validName_def)
    then have nn: "bn_addr n = nextAddr s" "shareContainerName n = globalShareContainerName s" "shareContainerBuffer n = []"
      using n untime_fields(1,7,8) [of n "freshNode (nextAddr s) u (take 15 (globalRecipeFileName s)) (take 15 (globalShareContainerName s))"]
      by (simp_all add: untime_def freshNode_def)
    have keys: "map ckey link = map ckey (bufferLink s)" by (rule untime_map [OF link(2)]) (rule untime_fields)
    let ?t = "s1\<lparr>bufferLink := link, nextAddr := nextAddr s, globalShareContainerName := globalShareContainerName s\<rparr>"
    have "recipeOnly s ?t" using keys r(6,7,10) by (simp add: recipeOnly_def eq)
    then have t: "storeInv ssl c ?t" "grows s ?t" using storeInv_recipeOnly [OF inv] recipeOnly_grows by auto
    note new = new_node_inv [where t = s1 and n = n, OF t(1)]
    show "storeInv ssl c s1 \<and> grows s s1 \<and> nameVal (globalShareContainerName s1) \<le> nameVal (globalShareContainerName s) + 1"
      using new grows_trans [OF t(2)] more nn link(1) na g by simp
  qed
qed

section \<open>Creating directories\<close>

definition closedDirs :: "bytes list \<Rightarrow> bool" where
  "closedDirs dirs \<longleftrightarrow> (\<forall>d\<in>set dirs. \<forall>p\<in>set (slashPrefixes d). p \<in> set dirs)"

lemma slashPrefixes_two:
  assumes "d = a @ 47 # b" "b \<noteq> []"
  obtains p rest where "slashPrefixes d = p # rest" "p \<noteq> d"
proof -
  let ?I = "filter (\<lambda>i. d ! i = 47) [0..<length d]"
  have mem: "length a \<in> set ?I" using assms by simp
  then obtain i is' where I: "?I = i # is'" by (cases ?I) auto
  have "sorted ?I" by (simp add: sorted_wrt_filter)
  then have "i \<le> length a" using mem unfolding I by auto
  then have "length (take (Suc i) d) < length d" using assms by (cases b) auto
  then have "take (Suc i) d \<noteq> d" by force
  moreover have "slashPrefixes d = take (Suc i) d # map (\<lambda>i. take (Suc i) d) is'" by (simp add: slashPrefixes_def I)
  ultimately show ?thesis using that by blast
qed

lemma createDirLoop_exists:
  "\<forall>p\<in>set ps. p \<in> set dirs \<Longrightarrow> d \<in> set dirs \<Longrightarrow> createDirLoop denied d ps dirs = (True, dirs)"
  by (induction ps) (auto simp: mkdirAt_def)

lemma createDir_exists: "closedDirs dirs \<Longrightarrow> d \<in> set dirs \<Longrightarrow> createDir denied d dirs = (True, dirs)"
  unfolding createDir_def by (rule createDirLoop_exists) (auto simp: closedDirs_def)

text \<open>A directory inside another one is not created: the check after the first mkdir looks at the whole path.\<close>

lemma createDir_nested:
  assumes "d = a @ 47 # b" "b \<noteq> []" "closedDirs dirs"
  shows "fst (createDir denied d dirs) \<longleftrightarrow> d \<in> set dirs"
proof (cases "d \<in> set dirs")
  case False
  obtain p rest where p: "slashPrefixes d = p # rest" "p \<noteq> d" by (rule slashPrefixes_two [OF assms(1,2)])
  have "d \<notin> set (snd (mkdirAt denied p dirs))" using False p(2) by (auto simp: mkdirAt_def)
  then have "\<not> fst (createDir denied d dirs)" unfolding createDir_def p
    by (cases "mkdirAt denied p dirs") (auto split: bool.splits)
  then show ?thesis using False by simp
qed (simp add: createDir_exists [OF assms(3)])

lemma prepareDir_run:
  assumes "prepareDir denied dedupDir d dirs = Inr (full, dirs1)" "closedDirs dirs"
    and "last dedupDir = 47" "dedupDir \<noteq> []" "d \<noteq> []"
  shows "full \<in> set dirs" "dirs1 = dirs"
proof -
  have full: "full = butlast dedupDir @ 47 # d" and made: "createDir denied full dirs = (True, dirs1)"
    using assms by (auto simp: prepareDir_def addPrefixDir_def split: option.splits if_splits prod.splits bool.splits)
      (metis append_butlast_last_id append_Cons append_Nil append.assoc)+
  have "full \<in> set dirs" using createDir_nested [OF full assms(5,2), of denied] made by simp
  then show "full \<in> set dirs" "dirs1 = dirs" using createDir_exists [OF assms(2), of full denied] made by simp_all
qed

section \<open>Properties\<close>

text \<open>
  C14. Cleaning up the node of a user is safe for the shares: when it succeeds, under any faults
  before, every indexed share can still be fetched with the same bytes, from the other buffers or
  from the disk, the store invariant holds and the user has no node left.
\<close>

theorem cleanup_keeps_shares:
  assumes "storeInv ssl c s" "cleanupUserBufferNode E u s = Done () s'"
    and "\<forall>n\<in>set (bufferLink s). recipeName (recipeFileName n) \<and> recipeTarget n s"
    and "distinct (map bn_userID (bufferLink s))"
  shows "storeInv ssl c s' \<and> (\<forall>fp. fetchShare s' fp = fetchShare s fp) \<and>
    (\<forall>m\<in>set (bufferLink s'). m \<in> set (bufferLink s) \<and> bn_userID m \<noteq> u)"
proof -
  let ?pre = "takeWhile (\<lambda>m. bn_userID m \<noteq> u) (bufferLink s)"
  obtain n rest where dw: "dropWhile (\<lambda>m. bn_userID m \<noteq> u) (bufferLink s) = n # rest"
    using assms(2) by (auto simp: cleanupUserBufferNode_def split: list.splits)
  have link: "bufferLink s = ?pre @ n # rest" by (metis dw takeWhile_dropWhile_id)
  have n: "n \<in> set (bufferLink s)" by (subst link) simp
  have un: "bn_userID n = u" using hd_dropWhile [of "\<lambda>m. bn_userID m \<noteq> u" "bufferLink s"] dw by simp
  obtain s1 where fl: "flushBufferNodeIntoDisk E n s = Done () s1" and s': "s' = unlinkNode ?pre n rest s1"
    using assms(2) dw by (auto simp: cleanupUserBufferNode_def Let_def status_simps)
  obtain ta where s'': "s' = s1\<lparr>bufferLink := ?pre @ rest, tailBufferNode := ta\<rparr>"
    unfolding s' unlinkNode_def Let_def by (cases "?pre = []") (auto intro: that)
  have nm: "recipeName (recipeFileName n)" "recipeTarget n s" using assms(3) n by auto
  note keep = flush_unlink_inv [OF assms(1) link fl nm]
  have inv: "storeInv ssl c s'" "grows s s'" "db s' = db s"
    unfolding s'' using keep(1,2) [of ta] keep(3) by simp_all
  have "fetchShare s' fp = fetchShare s fp" for fp
  proof (cases "db s (shareFP2IndexKey fp)")
    case None
    then show ?thesis using inv by (simp add: fetchShare_def)
  next
    case (Some v)
    then show ?thesis using assms(1) inv
      by (intro fetchShare_kept [where ssl = ssl and c = c and v = v]) (simp_all add: storeInv_def keepsPlaces_same)
  qed
  moreover have "bn_userID m \<noteq> u" if "m \<in> set ?pre \<union> set rest" for m
  proof -
    have "distinct (map bn_userID (?pre @ n # rest))" using assms(4) link by metis
    then have "u \<notin> bn_userID ` (set ?pre \<union> set rest)" using un by auto
    then show ?thesis using that by (metis imageI)
  qed
  moreover have "set (bufferLink s') = set ?pre \<union> set rest" "set ?pre \<union> set rest \<subseteq> set (bufferLink s)"
    using s'' link by (auto dest: set_takeWhileD, metis Un_iff link list.set_intros(2) set_append)
  ultimately show ?thesis using inv by blast
qed

text \<open>
  C23. Cleaning up the first of two nodes leaves a NULL tail pointer behind although one node is
  left: the code takes the new head, which is also the tail, for the sign that the only node was
  deleted. The next user who needs a node crashes the server.
\<close>

theorem cleanup_breaks_tail:
  assumes "bufferLink s = [a, b]" "tailOk s" "bn_userID a \<noteq> bn_userID b" "v \<noteq> bn_userID b"
    and "cleanupUserBufferNode E (bn_userID a) s = Done () s'" "noIdle E s"
    and "recipeName (recipeFileName a)" "containerName (shareContainerName a)" "recipeTarget a s"
  shows "bufferLink s' = [b] \<and> tailBufferNode s' = None \<and> findOrCreateBufferNode E v s' = Crash NullDeref"
proof -
  obtain s1 where fl: "flushBufferNodeIntoDisk E a s = Done () s1" and s': "s' = unlinkNode [] a [b] s1"
    using assms by (auto simp: cleanupUserBufferNode_def Let_def status_simps)
  have "tailBufferNode s1 = tailBufferNode s" using flush_run [OF fl assms(9,7,8)] by auto
  then have t: "bufferLink s' = [b]" "tailBufferNode s' = None"
    using assms(1,2) s' by (auto simp: unlinkNode_def tailOk_def)
  have "\<forall>m\<in>set [b]. \<forall>i. clock E i - lastUseTime m \<le> MAX_BUFFER_WAIT_USECS"
    using assms(1,6) by (simp add: noIdle_def)
  from sweep_run [OF this, where u = v and pre = "[]" and target = None and s = s'] obtain link k where
    run: "sweepLink E v [] [b] None s' = Done None (s'\<lparr>bufferLink := link, tick := k\<rparr>)"
    and link: "map untime link = [untime b]" using assms(4) by auto
  then have ne: "link \<noteq> []" by auto
  have "linkNode n (s'\<lparr>bufferLink := link, tick := k', nextAddr := x, globalRecipeFileName := y, globalShareContainerName := z\<rparr>) =
      Crash NullDeref" for n k' x y z
    using ne t(2) by (simp add: linkNode_def)
  then have "findOrCreateBufferNode E v s' = Crash NullDeref"
    using run t by (simp add: findOrCreateBufferNode_def newBufferNode_def getCurrTime_def tock_def)
  then show ?thesis using t by simp
qed

text \<open>
  C20. The constructor succeeds only if all three of its directories, that of the database, of the recipe files and of the
  share containers, exist already, although \<open>createDir_\<close> is documented to create a path recursively: after each level
  it makes, it tests whether the whole path exists.
\<close>

theorem constructor_creates_no_directory:
  assumes "mkDedupCore denied dirs openDB disk0 dedupDirName dbDirName recipeDirName containerDirName = Inr s"
    and "closedDirs dirs"
  shows "recipeFileDirName s \<in> set dirs \<and> shareContainerDirName s \<in> set dirs \<and>
    (\<exists>dedupDir dbDir dbDir1. formatDirName dedupDirName = Some dedupDir \<and> formatDirName dbDirName = Some dbDir \<and>
      addPrefixDir dedupDir dbDir = Some dbDir1 \<and> openDB dbDir1 = Some (db s) \<and> dbDir1 \<in> set dirs)"
proof -
  obtain dedupDir dbDir recipeDir containerDir where f: "formatDirName dedupDirName = Some dedupDir"
    "formatDirName dbDirName = Some dbDir" "formatDirName recipeDirName = Some recipeDir"
    "formatDirName containerDirName = Some containerDir"
    using assms(1) by (auto simp: mkDedupCore_def split: option.splits)
  have fmt: "d \<noteq> [] \<and> last d = 47" if "formatDirName x = Some d" for x d
    using that by (auto simp: formatDirName_def split: if_splits)
  obtain db1 d1 rd1 d2 cd1 d3 where p: "prepareDir denied dedupDir dbDir dirs = Inr (db1, d1)"
    "prepareDir denied dedupDir recipeDir d1 = Inr (rd1, d2)"
    "prepareDir denied dedupDir containerDir d2 = Inr (cd1, d3)"
    and s: "recipeFileDirName s = rd1" "shareContainerDirName s = cd1" "openDB db1 = Some (db s)"
    using assms(1) f by (auto simp: mkDedupCore_def status_simps split: option.splits)
  have "d1 = dirs" "db1 \<in> set dirs" using prepareDir_run [OF p(1) assms(2)] fmt f by blast+
  moreover have "addPrefixDir dedupDir dbDir = Some db1" using p(1) by (auto simp: prepareDir_def split: option.splits prod.splits bool.splits)
  moreover have "rd1 \<in> set dirs" "d2 = dirs" using prepareDir_run [OF p(2)] calculation(1) assms(2) fmt f by blast+
  ultimately show ?thesis using prepareDir_run [OF p(3)] assms(2) fmt f s by blast
qed

text \<open>
  C19. The global file names enumerate all 26 ^ 12 names of twelve letters: the i-th name has number i,
  so no name is given out twice, until the last one, where the increment reports failure and leaves
  the name as it is.
\<close>

theorem global_names_enumerate:
  assumes "i < 26 ^ 12" "j < 26 ^ 12" "length sfx = 3"
    and "nm = (\<lambda>k. ((\<lambda>f. fst (incrGlobalFileName f 12)) ^^ k) (replicate 12 97 @ sfx))"
  shows "nameVal (nm i) = i \<and> validName sfx (nm i) \<and> (nm i = nm j \<longleftrightarrow> i = j) \<and>
    snd (incrGlobalFileName (nm i) 12) = (i + 1 < 26 ^ 12) \<and>
    (i + 1 = 26 ^ 12 \<longrightarrow> incrGlobalFileName (nm i) 12 = (nm i, False))"
proof -
  have val: "nameVal (nm k) = k \<and> validName sfx (nm k)" if "k < 26 ^ 12" for k
    using that
  proof (induction k)
    case 0
    have "nm 0 = replicate 12 97 @ sfx" by (simp add: assms(4))
    moreover have "validName sfx (replicate 12 97 @ sfx)" using assms(3) by (simp add: validName_def)
    moreover have "nameVal (replicate 12 97 @ sfx) = 0"
      using lettersVal_replicate_a [of 12] by (simp add: nameVal_def)
    ultimately show ?case by metis
  next
    case (Suc k)
    then have "nameVal (nm k) = k" "validName sfx (nm k)" by simp_all
    moreover have "nm (Suc k) = fst (incrGlobalFileName (nm k) 12)" by (simp add: assms(4))
    ultimately show ?case using incrGlobalFileName_step(2,3) [of sfx "nm k"] Suc.prems by simp
  qed
  have i: "nameVal (nm i) = i" "validName sfx (nm i)" using val [OF assms(1)] by simp_all
  have inj: "nm i = nm j \<longleftrightarrow> i = j" using i(1) val [OF assms(2)] by metis
  consider (more) "i + 1 < 26 ^ 12" | (last) "i + 1 = 26 ^ 12" using assms(1) by linarith
  then show ?thesis
  proof cases
    case more
    then have "snd (incrGlobalFileName (nm i) 12)" using incrGlobalFileName_step(1) [OF i(2)] i(1) by simp
    then show ?thesis using i inj more by simp
  next
    case last
    then have "incrGlobalFileName (nm i) 12 = (nm i, False)" using incrGlobalFileName_last [OF i(2)] i(1) by simp
    then show ?thesis using i inj last by simp
  qed
qed

text \<open>
  C22. The constructor starts the container names again although the database and the containers of
  earlier runs are still there. After a restart the first user to upload gets the name of the very
  first container: until then a share stored in it is read from the disk, afterwards the lookup
  finds the user's empty buffer.
\<close>

theorem restart_hides_shares:
  assumes "mkDedupCore denied dirs openDB disk0 dedupDirName dbDirName recipeDirName containerDirName = Inr s"
    and "db s (shareFP2IndexKey fp) = Some v" "shareValue v h refs"
    and "sih_shareContainerName h = replicate 12 97 @ scSuffix" "findOrCreateBufferNode E u s = Done n s1"
  shows "fetchShare s fp = map_option (slice (nat (sih_shareContainerOffset h)) (nat (sih_shareSize h)))
      (disk0 (shareContainerDirName s @ sih_shareContainerName h)) \<and>
    fetchShare s1 fp = Some []"
proof -
  have s: "bufferLink s = []" "disk s = disk0" "globalShareContainerName s = replicate 12 97 @ scSuffix"
    using assms(1) by (auto simp: mkDedupCore_def status_simps split: option.splits)
  have "shareContainerName n = replicate 12 97 @ scSuffix" "shareContainerBuffer n = []"
    "bufferLink s1 = [n]" "db s1 = db s"
    using assms(5) s
    by (auto simp: findOrCreateBufferNode_def newBufferNode_def getCurrTime_def linkNode_def scSuffix_def)
  then show ?thesis using s assms(2-4) by (simp add: fetchShare_def containerOf_def shareValue_head slice_def)
qed

text \<open>
  C21. A node that is evicted for idleness is unlinked and freed even if it could not be flushed.
  When the recipe file cannot be opened at that moment, the container of the node is not written at
  all: shares that other uploads rely on stay in the index, but their bytes are gone.
\<close>

theorem eviction_loses_shares:
  assumes "storeInv ssl c s" "bufferLink s = [m]" "tailOk s" "bn_userID m \<noteq> u"
    and "clock E (tick s) - lastUseTime m > MAX_BUFFER_WAIT_USECS"
    and "recipeFileBuffer m \<noteq> []" "lastRecipeHeadPos m \<noteq> 0" "ioFault E (Suc (tick s)) = IoOpenFails"
    and "db s (shareFP2IndexKey fp) = Some v" "sih_shareContainerName (headOf v) = shareContainerName m"
    and "disk s (shareContainerDirName s @ shareContainerName m) = None"
  shows "\<exists>n s1. findOrCreateBufferNode E u s = Done n s1 \<and> fetchShare s fp \<noteq> None \<and>
    db s1 (shareFP2IndexKey fp) \<noteq> None \<and> fetchShare s1 fp = None"
proof -
  have ls: "linkSound s" using assms(1) by (simp add: storeInv_def)
  have glob: "containerName (globalShareContainerName s)" using ls by (simp add: linkSound_def)
  have m: "nameVal (shareContainerName m) < nameVal (globalShareContainerName s)"
    using ls assms(2) by (simp add: linkSound_def nodeSound_def)
  have flush: "\<exists>k. flushBufferNodeIntoDisk E m (tock s) = Fails (s\<lparr>tick := k\<rparr>)"
    using assms(6-8)
    by (auto simp: flushBufferNodeIntoDisk_def flushWhole_def fopenWb_def tock_def split: option.splits)
  then obtain k where fl: "flushBufferNodeIntoDisk E m (tock s) = Fails (s\<lparr>tick := k\<rparr>)" by blast
  have tail: "tailBufferNode s = Some (bn_addr m)" using assms(2,3) by (simp add: tailOk_def)
  let ?s2 = "s\<lparr>bufferLink := [], tailBufferNode := None, tick := k\<rparr>"
  have sweep: "sweepLink E u [] [m] None s = Done None ?s2"
    using assms(4,5) fl tail by (simp add: getCurrTime_def tailAfterUnlink_def)
  obtain n s1 where new: "newBufferNode E u ?s2 = (n, s1)" by force
  have n: "shareContainerName n = globalShareContainerName s" "bufferLink s1 = []" "db s1 = db s" "disk s1 = disk s"
    "shareContainerDirName s1 = shareContainerDirName s"
    using new glob by (auto simp: newBufferNode_def getCurrTime_def validName_def)
  let ?s3 = "s1\<lparr>bufferLink := [n], tailBufferNode := Some (bn_addr n)\<rparr>"
  have "findOrCreateBufferNode E u s = Done n ?s3"
    using assms(2) sweep new n by (simp add: findOrCreateBufferNode_def linkNode_def)
  moreover have "shareContainerName n \<noteq> shareContainerName m" using n(1) m by auto
  then have "fetchShare ?s3 fp = None" using assms(9-11) n by (simp add: fetchShare_def containerOf_def)
  moreover have "fetchShare s fp \<noteq> None" using assms(2,9,10) by (simp add: fetchShare_def containerOf_def Let_def)
  ultimately show ?thesis using assms(9) n(3) by (intro exI [of _ n] exI [of _ ?s3]) simp
qed

subsection \<open>Witnesses\<close>

text \<open>A store with one share of user 7 in the first container, and a node of user 8.\<close>

definition filledNode :: bufferNode where
  "filledNode = demoNode\<lparr>shareContainerBuffer := demoShare\<rparr>"

definition otherNode :: bufferNode where
  "otherNode = demoNode\<lparr>bn_addr := 1, bn_userID := 8, shareContainerName := replicate 11 97 @ 98 # scSuffix,
     recipeFileName := replicate 11 97 @ 98 # rfSuffix\<rparr>"

definition demoValue :: bytes where
  "demoValue = newShareValue (replicate 12 97 @ scSuffix) 0 3 7"

definition twoCore :: dedupCore where
  "twoCore = demoCore\<lparr>db := [shareFP2IndexKey demoFP \<mapsto> demoValue], bufferLink := [filledNode, otherNode],
     tailBufferNode := Some 1, nextAddr := 2, globalShareContainerName := replicate 11 97 @ 99 # scSuffix\<rparr>"

lemma demoName_simps:
  "containerName (replicate 12 97 @ scSuffix)" "containerName (replicate 11 97 @ 98 # scSuffix)"
  "containerName (replicate 11 97 @ 99 # scSuffix)" "recipeName (replicate 12 97 @ rfSuffix)"
  "recipeName (replicate 11 97 @ 98 # rfSuffix)"
  "nameVal (replicate 12 97 @ scSuffix) = 0" "nameVal (replicate 11 97 @ 98 # scSuffix) = 1"
  "nameVal (replicate 11 97 @ 99 # scSuffix) = 2" "okName (replicate 12 97 @ scSuffix)"
  using lettersVal_append [of "replicate 11 97" "[98]"] lettersVal_append [of "replicate 11 97" "[99]"]
  by (auto simp: nameVal_def scSuffix_def rfSuffix_def letter_def validName_def okName_def)

lemma demoValue_ok:
  "shareValue demoValue \<lparr> sih_shareContainerName = replicate 12 97 @ scSuffix, sih_shareContainerOffset = 0,
     sih_shareSize = 3, sih_numOfUsers = 1 \<rparr> [\<lparr> ure_userID = 7, ure_refCnt = 1 \<rparr>]"
  unfolding demoValue_def by (rule newShareValue_valid) (simp_all add: demoName_simps int32_def)

lemma demoValue_head: "sih_shareContainerName (headOf demoValue) = replicate 12 97 @ scSuffix"
  by (simp add: shareValue_head [OF demoValue_ok])

text \<open>The stores of the witnesses hold one share; this is what their invariant comes down to.\<close>

lemma one_share_inv:
  assumes "linkSound s" "db s = [shareFP2IndexKey demoFP \<mapsto> demoValue]"
    and "containerOf s (replicate 12 97 @ scSuffix) = Some demoShare" "0 < nameVal (globalShareContainerName s)"
  shows "storeInv toySSL shaCrypto s"
proof -
  have "located toySSL shaCrypto s demoFP \<lparr> sih_shareContainerName = replicate 12 97 @ scSuffix,
      sih_shareContainerOffset = 0, sih_shareSize = 3, sih_numOfUsers = 1 \<rparr>"
    using assms demo_hash by (simp add: located_def demoName_simps demoShare_def CONTAINER_BUFFER_SIZE_def)
  then have "sharesSound toySSL shaCrypto s"
    using demoValue_ok assms(2) unfolding sharesSound_def
    by (metis fun_upd_apply option.inject option.distinct(1) shareFP2IndexKey_def list.inject)
  then show ?thesis using assms(1) by (simp add: storeInv_def)
qed

lemma twoCore_inv: "storeInv toySSL shaCrypto twoCore"
proof (rule one_share_inv)
  show "linkSound twoCore"
    by (simp add: linkSound_def nodeSound_def twoCore_def filledNode_def otherNode_def demoNode_def demoName_simps
        CONTAINER_BUFFER_SIZE_def demoShare_def) (simp add: eval_nat_numeral)
  show "containerOf twoCore (replicate 12 97 @ scSuffix) = Some demoShare"
    by (simp add: containerOf_def twoCore_def filledNode_def demoNode_def)
qed (simp_all add: twoCore_def demoName_simps)

lemma twoCore_cleanup:
  "cleanupUserBufferNode fineEnv 7 twoCore =
     Done () (twoCore\<lparr>disk := [[115, 47] @ replicate 12 97 @ scSuffix \<mapsto> demoShare], tick := 2,
       bufferLink := [otherNode], tailBufferNode := None\<rparr>)"
proof -
  have "addPrefixDir [115, 47] (replicate 12 97 @ scSuffix) = Some ([115, 47] @ replicate 12 97 @ scSuffix)"
    using containerName_ok [OF demoName_simps(1)] by blast
  then show ?thesis
    by (simp add: cleanupUserBufferNode_def twoCore_def filledNode_def otherNode_def demoNode_def demoCore_def
        flushBufferNodeIntoDisk_def flushWhole_def fopenWb_def fwriteAt_def fineEnv_def tock_def fileContents_def
        demoShare_def unlinkNode_def Let_def)
qed

lemma twoCore_nodes: "\<forall>n\<in>set (bufferLink twoCore). recipeName (recipeFileName n) \<and> recipeTarget n twoCore"
  by (simp add: twoCore_def filledNode_def otherNode_def demoNode_def demoName_simps recipeTarget_def)

theorem cleanup_keeps_shares_witness:
  "\<exists>s'. cleanupUserBufferNode fineEnv 7 twoCore = Done () s' \<and> storeInv toySSL shaCrypto s' \<and>
     fetchShare s' demoFP = fetchShare twoCore demoFP"
  using cleanup_keeps_shares [OF twoCore_inv twoCore_cleanup twoCore_nodes] twoCore_cleanup
  by (simp add: twoCore_def filledNode_def otherNode_def demoNode_def)

theorem cleanup_breaks_tail_witness:
  "\<exists>s'. cleanupUserBufferNode fineEnv 7 twoCore = Done () s' \<and> findOrCreateBufferNode fineEnv 9 s' = Crash NullDeref"
  using cleanup_breaks_tail [where s = twoCore and a = filledNode and b = otherNode and v = 9 and E = fineEnv,
      OF _ _ _ _ _ _ _ _ _] twoCore_cleanup twoCore_nodes
  by (simp add: twoCore_def filledNode_def otherNode_def demoNode_def tailOk_def noIdle_def fineEnv_def
      MAX_BUFFER_WAIT_USECS_def demoName_simps)

text \<open>A run that started from the directories m/, m/d/, m/r/ and m/s/.\<close>

definition demoDirs :: "bytes list" where
  "demoDirs = [[109, 47], [109, 47, 100, 47], [109, 47, 114, 47], [109, 47, 115, 47]]"

definition demoStart :: "ctor_error + dedupCore" where
  "demoStart = mkDedupCore (\<lambda>_. False) demoDirs (\<lambda>_. Some [shareFP2IndexKey demoFP \<mapsto> demoValue])
     [[109, 47, 115, 47] @ replicate 12 97 @ scSuffix \<mapsto> demoShare] [109] [100] [114] [115]"

lemma demoStart_run: "demoStart = Inr \<lparr> recipeFileDirName = [109, 47, 114, 47], shareContainerDirName = [109, 47, 115, 47],
    db = [shareFP2IndexKey demoFP \<mapsto> demoValue], disk = [[109, 47, 115, 47] @ replicate 12 97 @ scSuffix \<mapsto> demoShare],
    tick = 0, globalRecipeFileName = replicate 12 97 @ rfSuffix, globalShareContainerName = replicate 12 97 @ scSuffix,
    bufferLink = [], tailBufferNode = None, nextAddr = 0, sent = [] \<rparr>"
  by (simp add: demoStart_def mkDedupCore_def formatDirName_def prepareDir_def addPrefixDir_def createDir_def
      slashPrefixes_def upt_conv_Cons mkdirAt_def demoDirs_def)

lemma demoDirs_closed: "closedDirs demoDirs"
  by code_simp

theorem constructor_creates_no_directory_witness:
  "\<exists>s. demoStart = Inr s \<and> recipeFileDirName s \<in> set demoDirs"
  using constructor_creates_no_directory [OF demoStart_run [unfolded demoStart_def] demoDirs_closed] demoStart_run
  by (intro exI) (rule conjI, assumption, simp)

theorem global_names_enumerate_witness:
  "nameVal (((\<lambda>f. fst (incrGlobalFileName f 12)) ^^ 3) (replicate 12 97 @ scSuffix)) = 3"
  using global_names_enumerate [of 3 3 scSuffix, OF _ _ _ refl] by (simp add: scSuffix_def)

theorem restart_hides_shares_witness:
  "\<exists>s n s1. demoStart = Inr s \<and> findOrCreateBufferNode fineEnv 9 s = Done n s1 \<and>
     fetchShare s demoFP = Some demoShare \<and> fetchShare s1 demoFP = Some []"
proof -
  obtain s where s: "demoStart = Inr s" "bufferLink s = []" "db s (shareFP2IndexKey demoFP) = Some demoValue"
    "shareContainerDirName s = [109, 47, 115, 47]"
    using demoStart_run by force
  have "\<exists>n s1. findOrCreateBufferNode fineEnv 9 s = Done n s1"
    using s by (simp add: findOrCreateBufferNode_def newBufferNode_def getCurrTime_def linkNode_def)
  then obtain n s1 where run: "findOrCreateBufferNode fineEnv 9 s = Done n s1" by blast
  show ?thesis
    using restart_hides_shares [OF s(1) [unfolded demoStart_def] s(3) demoValue_ok _ run] s run
    by (intro exI [of _ s] exI [of _ n] exI [of _ s1]) (simp add: slice_def demoShare_def)
qed

definition idleCore :: dedupCore where
  "idleCore = demoCore\<lparr>db := [shareFP2IndexKey demoFP \<mapsto> demoValue],
     bufferLink := [filledNode\<lparr>recipeFileBuffer := replicate 24 0, lastRecipeHeadPos := 8\<rparr>]\<rparr>"

definition flakyEnv :: env where
  "flakyEnv = \<lparr> dbFault = \<lambda>_. DbFine, ioFault = (\<lambda>i. if i = 1 then IoOpenFails else IoFine), clock = \<lambda>_. 20000000 \<rparr>"

lemma idleCore_inv: "storeInv toySSL shaCrypto idleCore"
proof (rule one_share_inv)
  show "linkSound idleCore"
    by (simp add: linkSound_def nodeSound_def idleCore_def demoCore_def filledNode_def demoNode_def demoName_simps
        CONTAINER_BUFFER_SIZE_def demoShare_def)
  show "containerOf idleCore (replicate 12 97 @ scSuffix) = Some demoShare"
    by (simp add: containerOf_def idleCore_def filledNode_def demoNode_def)
qed (simp_all add: idleCore_def demoCore_def demoName_simps)

theorem eviction_loses_shares_witness:
  "\<exists>n s1. findOrCreateBufferNode flakyEnv 9 idleCore = Done n s1 \<and> fetchShare idleCore demoFP \<noteq> None \<and>
     db s1 (shareFP2IndexKey demoFP) \<noteq> None \<and> fetchShare s1 demoFP = None"
  by (rule eviction_loses_shares [OF idleCore_inv, where m = "filledNode\<lparr>recipeFileBuffer := replicate 24 0, lastRecipeHeadPos := 8\<rparr>"
        and v = demoValue])
    (simp_all add: idleCore_def demoCore_def filledNode_def demoNode_def tailOk_def flakyEnv_def
      MAX_BUFFER_WAIT_USECS_def demoValue_head)

end
