(* ===== verification/SecondStage.thy ===== *)
theory SecondStage
  imports FirstStage BufferLink
begin

text \<open>
  The second stage of deduplication (\<open>secondStageDedup\<close> of server/dedup/DedupCore.cc): the client has
  sent the shares that the first stage did not find; each is checked against its fingerprint and
  stored, and the recipe of every file is written into the user's buffer node.
\<close>

section \<open>Second stage\<close>

type_synonym node_op = "bufferNode \<times> dedupCore \<Rightarrow> (unit, bufferNode \<times> dedupCore) outcome"

text \<open>Steps that work on the state alone, run beside the node.\<close>

definition onCore :: "bufferNode \<Rightarrow> (unit, dedupCore) outcome \<Rightarrow> (unit, bufferNode \<times> dedupCore) outcome" where
  "onCore n r = (case r of Done _ s \<Rightarrow> Done () (n, s) | Fails s \<Rightarrow> Fails (n, s) | Crash e \<Rightarrow> Crash e)"

text \<open>
  Step 2: the recipe buffer is emptied when the coming recipe does not fit. The code then reads the first head of the buffer; in an empty
  buffer these bytes were never written.
\<close>

definition recipeAddedLen :: "fileShareMDHead \<Rightarrow> bufferNode \<Rightarrow> int" where
  "recipeAddedLen h n =
     (if mdh_numOfPastSecrets h = 0 then 24 + 40 * mdh_numOfComingSecrets h
      else if recipeFileBufferCurrLen n = 0 then 24 + 40 * mdh_numOfComingSecrets h
      else 40 * mdh_numOfComingSecrets h)"

definition makeRecipeRoom :: "env \<Rightarrow> fileShareMDHead \<Rightarrow> node_op" where
  "makeRecipeRoom E h st =
     (case st of (n, s) \<Rightarrow>
       if recipeFileBufferCurrLen n + recipeAddedLen h n > RECIPE_BUFFER_SIZE then
         (if lastRecipeHeadPos n = 0 \<and> length (recipeFileBuffer n) < 24 then Crash UninitRead
          else if lastRecipeHeadPos n = 0 \<and>
            mdh_numOfPastSecrets h > frh_numOfShares (getRecipeHead (take 24 (recipeFileBuffer n)))
          then bindO (appendOldRecipeFile E (n, s)) (\<lambda>_ st1. Done () st1)
          else bindO (storeNewRecipeFile E (n, s)) (\<lambda>_ st1. Done () st1))
       else Done () (n, s))"

text \<open>Step 3: a recipe head is written at the end of the buffer, or the last one is updated.\<close>

definition newRecipeHead :: "openssl \<Rightarrow> cryptoPrimitive \<Rightarrow> int \<Rightarrow> bytes \<Rightarrow> fileShareMDHead \<Rightarrow> node_op" where
  "newRecipeHead ssl c userID fullFileName h st =
     (case st of (n, s) \<Rightarrow>
       bindO (safeO (recipeFileBufferCurrLen n + 24 \<le> RECIPE_BUFFER_SIZE) BufferOverflow st) (\<lambda>_ _.
       case fileName2InodeFP ssl c fullFileName userID of
         None \<Rightarrow> Crash UninitRead
       | Some fp \<Rightarrow>
           Done () (n\<lparr>recipeFileBuffer := recipeFileBuffer n @
                        putRecipeHead \<lparr> frh_userID = userID, frh_fileSize = mdh_fileSize h,
                          frh_numOfShares = mdh_numOfComingSecrets h \<rparr>,
                      lastRecipeHeadPos := recipeFileBufferCurrLen n,
                      lastInodeFP := Some fp\<rparr>, s)))"

definition updateRecipeHead :: "fileShareMDHead \<Rightarrow> node_op" where
  "updateRecipeHead h st =
     (case st of (n, s) \<Rightarrow>
       bindO (readO (structAt 24 getRecipeHead (recipeFileBuffer n) (lastRecipeHeadPos n)) st) (\<lambda>rh _.
       Done () (n\<lparr>recipeFileBuffer :=
                    writeAt (nat (lastRecipeHeadPos n) + 16)
                      (le 4 (frh_numOfShares rh + mdh_numOfComingSecrets h)) (recipeFileBuffer n)\<rparr>, s)))"

definition putFileRecipeHead ::
  "env \<Rightarrow> openssl \<Rightarrow> cryptoPrimitive \<Rightarrow> int \<Rightarrow> bytes \<Rightarrow> fileShareMDHead \<Rightarrow> node_op" where
  "putFileRecipeHead E ssl c userID fullFileName h st =
     (case st of (n, s) \<Rightarrow>
       if mdh_numOfPastSecrets h = 0 then
         bindO (onCore n (addFileIntoInodeIndex E ssl c fullFileName userID n s)) (\<lambda>_ st1.
         newRecipeHead ssl c userID fullFileName h st1)
       else if recipeFileBufferCurrLen n = 0 then newRecipeHead ssl c userID fullFileName h (n, s)
       else updateRecipeHead h (n, s))"

text \<open>
  Step 4: each share. A share that the first stage did not find is checked against its fingerprint
  and stored; every share gets a recipe entry.
\<close>

definition storeShare ::
  "env \<Rightarrow> openssl \<Rightarrow> cryptoPrimitive \<Rightarrow> int \<Rightarrow> bytes \<Rightarrow> int \<Rightarrow> shareMDEntry \<Rightarrow> node_op" where
  "storeShare E ssl c userID dat dataOff e st =
     bindO (safeO (0 \<le> mde_shareSize e \<and> 0 \<le> dataOff \<and> dataOff + mde_shareSize e \<le> int (length dat)) OutOfBounds st)
       (\<lambda>_ _.
     case generateHash ssl c (slice (nat dataOff) (nat (mde_shareSize e)) dat) of
       Inl _ \<Rightarrow> Crash UninitRead
     | Inr shareFP \<Rightarrow>
         bindO (safeO (length shareFP = 32) UninitRead st) (\<lambda>_ _.
         bindO (guardO (mde_shareFP e = shareFP) st) (\<lambda>_ _.
         interUserIndexUpdate E shareFP userID (mde_shareSize e) dat dataOff st)))"

definition putRecipeEntryOf :: "shareMDEntry \<Rightarrow> node_op" where
  "putRecipeEntryOf e st =
     (case st of (n, s) \<Rightarrow>
       bindO (safeO (recipeFileBufferCurrLen n + 40 \<le> RECIPE_BUFFER_SIZE) BufferOverflow st) (\<lambda>_ _.
       Done () (n\<lparr>recipeFileBuffer := recipeFileBuffer n @
                    putRecipeEntry \<lparr> fre_shareFP = mde_shareFP e, fre_secretID = mde_secretID e,
                      fre_secretSize = mde_secretSize e \<rparr>\<rparr>, s)))"

fun secondStageEntries ::
  "env \<Rightarrow> openssl \<Rightarrow> cryptoPrimitive \<Rightarrow> int \<Rightarrow> bytes \<Rightarrow> bool list \<Rightarrow> bytes \<Rightarrow> nat \<Rightarrow> int \<Rightarrow> int \<Rightarrow> nat \<Rightarrow>
   bufferNode \<times> dedupCore \<Rightarrow> (int \<times> int \<times> nat, bufferNode \<times> dedupCore) outcome" where
  "secondStageEntries E ssl c userID mdBuf dups dat 0 off dataOff num st = Done (off, dataOff, num) st"
| "secondStageEntries E ssl c userID mdBuf dups dat (Suc i) off dataOff num st =
     bindO (readO (structAt 44 getMDEntry mdBuf off) st) (\<lambda>e st1.
     bindO (readO (bufAt dups (int num)) st1) (\<lambda>dup st2.
     bindO (if dup then Done () st2 else storeShare E ssl c userID dat dataOff e st2) (\<lambda>_ st3.
     bindO (putRecipeEntryOf e st3) (\<lambda>_ st4.
     secondStageEntries E ssl c userID mdBuf dups dat i (off + 44)
       (if dup then dataOff else dataOff + mde_shareSize e) (Suc num) st4))))"

lemma secondStageEntries_offset:
  "secondStageEntries E ssl c userID mdBuf dups dat i off dataOff num st = Done (off1, r) st' \<Longrightarrow>
     off1 = off + 44 * int i"
  by (induction i arbitrary: off dataOff num st) (fastforce simp: status_simps)+

text \<open>Step 5: when the file ends here, a recipe whose beginning is in an older recipe file is appended to it.\<close>

definition finishFile :: "env \<Rightarrow> fileShareMDHead \<Rightarrow> node_op" where
  "finishFile E h st =
     (case st of (n, s) \<Rightarrow>
       if mdh_sizeOfPastSecrets h + mdh_sizeOfComingSecrets h = mdh_fileSize h \<and> lastRecipeHeadPos n = 0 \<and>
          mdh_numOfPastSecrets h > frh_numOfShares (getRecipeHead (take 24 (recipeFileBuffer n)))
       then bindO (appendOldRecipeFile E (n, s)) (\<lambda>_ st1. Done () st1)
       else Done () (n, s))"

text \<open>The loop over the files; a negative name size makes \<open>std::string::assign\<close> throw.\<close>

function secondStageLoop ::
  "env \<Rightarrow> openssl \<Rightarrow> cryptoPrimitive \<Rightarrow> int \<Rightarrow> bytes \<Rightarrow> int \<Rightarrow> bool list \<Rightarrow> bytes \<Rightarrow> int \<Rightarrow> int \<Rightarrow> nat \<Rightarrow> node_op" where
  "secondStageLoop E ssl c userID mdBuf mdSize dups dat off dataOff num st =
     (if off < mdSize then
        (case structAt 48 getMDHead mdBuf off of
           None \<Rightarrow> Crash OutOfBounds
         | Some h \<Rightarrow>
             (if mdh_fullNameSize h < 0 then Crash LengthError
              else if int (length mdBuf) < off + 48 + mdh_fullNameSize h then Crash OutOfBounds
              else case formatFullFileName (slice (nat (off + 48)) (nat (mdh_fullNameSize h)) mdBuf) of
                None \<Rightarrow> Fails st
              | Some fullFileName \<Rightarrow>
                  (case bindO (makeRecipeRoom E h st) (\<lambda>_ st1.
                          bindO (putFileRecipeHead E ssl c userID fullFileName h st1) (\<lambda>_ st2.
                          bindO (secondStageEntries E ssl c userID mdBuf dups dat (nat (mdh_numOfComingSecrets h))
                                   (off + 48 + mdh_fullNameSize h) dataOff num st2) (\<lambda>r st3.
                          bindO (finishFile E h st3) (\<lambda>_ st4. Done r st4)))) of
                     Crash e \<Rightarrow> Crash e
                   | Fails st5 \<Rightarrow> Fails st5
                   | Done (off1, dataOff1, num1) st5 \<Rightarrow>
                       secondStageLoop E ssl c userID mdBuf mdSize dups dat off1 dataOff1 num1 st5)))
      else Done () st)"
  by pat_completeness auto
termination
  by (relation "measure (\<lambda>(E, ssl, c, u, mdBuf, mdSize, dups, dat, off, dataOff, num, st). nat (mdSize - off))")
     (auto simp: status_simps dest!: secondStageEntries_offset)

declare secondStageLoop.simps [simp del]

definition secondStageDedup ::
  "env \<Rightarrow> openssl \<Rightarrow> cryptoPrimitive option \<Rightarrow> int \<Rightarrow> bytes \<Rightarrow> int \<Rightarrow> bool list \<Rightarrow> bytes \<Rightarrow> dedupCore \<Rightarrow>
   (unit, dedupCore) outcome" where
  "secondStageDedup E ssl cryptoObj userID mdBuf mdSize dups dat s =
     (case cryptoObj of
        None \<Rightarrow> Fails s
      | Some c \<Rightarrow>
          bindO (findOrCreateBufferNode E userID s) (\<lambda>n s1.
            case secondStageLoop E ssl c userID mdBuf mdSize dups dat 0 0 0 (n, s1) of
              Done _ (n2, s2) \<Rightarrow> Done () (backIn n2 s2)
            | Fails (n2, s2) \<Rightarrow> Fails (backIn n2 s2)
            | Crash e \<Rightarrow> Crash e))"

section \<open>The shares of a file\<close>

text \<open>Share operations do not look at the recipe buffer of the node.\<close>

lemma backIn_rebuf:
  "recipeOnly (backIn n s) (backIn (n\<lparr>recipeFileBuffer := b\<rparr>) s)"
  "recipeOnly (backIn (n\<lparr>recipeFileBuffer := b\<rparr>) s) (backIn n s)"
  by (rule recipeOnly_backIn; simp add: ckey_def)+

lemma shareStep_rebuf:
  assumes "shareStep ssl c k (n, s) (n', s')"
  shows "shareStep ssl c k (n\<lparr>recipeFileBuffer := b\<rparr>, s) (n'\<lparr>recipeFileBuffer := b\<rparr>, s')"
proof -
  have "storeInv ssl c (backIn (n'\<lparr>recipeFileBuffer := b\<rparr>) s')"
    using assms storeInv_recipeOnly [OF _ backIn_rebuf(1)] by (auto simp: shareStep_def)
  moreover have "grows (backIn (n\<lparr>recipeFileBuffer := b\<rparr>) s) (backIn (n'\<lparr>recipeFileBuffer := b\<rparr>) s')"
    using assms grows_trans [OF recipeOnly_grows [OF backIn_rebuf(2)] grows_trans [OF _ recipeOnly_grows [OF backIn_rebuf(1)]]]
    by (auto simp: shareStep_def)
  moreover have "linked (n'\<lparr>recipeFileBuffer := b\<rparr>) s'" using assms by (simp add: shareStep_def linked_def)
  moreover have "shareFrame (n\<lparr>recipeFileBuffer := b\<rparr>, s) (n'\<lparr>recipeFileBuffer := b\<rparr>, s')"
  proof -
    obtain nm buf where "n' = n\<lparr>shareContainerName := nm, shareContainerBuffer := buf\<rparr>"
      using assms by (auto simp: shareStep_def shareFrame_def)
    then have "\<exists>nm buf. n'\<lparr>recipeFileBuffer := b\<rparr> = n\<lparr>recipeFileBuffer := b, shareContainerName := nm, shareContainerBuffer := buf\<rparr>"
      by (intro exI [of _ nm] exI [of _ buf]) simp
    then show ?thesis using assms by (simp add: shareStep_def shareFrame_def)
  qed
  ultimately show ?thesis using assms by (simp add: shareStep_def)
qed

text \<open>Shares are stored and the recipe buffer grows by the given bytes.\<close>

definition entriesStep ::
  "openssl \<Rightarrow> cryptoPrimitive \<Rightarrow> nat \<Rightarrow> bytes \<Rightarrow> bufferNode \<times> dedupCore \<Rightarrow> bufferNode \<times> dedupCore \<Rightarrow> bool" where
  "entriesStep ssl c k added st st' \<longleftrightarrow>
     shareStep ssl c k st ((fst st')\<lparr>recipeFileBuffer := recipeFileBuffer (fst st)\<rparr>, snd st') \<and>
     recipeFileBuffer (fst st') = recipeFileBuffer (fst st) @ added"

lemma shareStep_buffer: "shareStep ssl c k (n, s) (n', s') \<Longrightarrow> recipeFileBuffer n' = recipeFileBuffer n"
  by (auto simp: shareStep_def shareFrame_def)

lemma entriesStep_share: "shareStep ssl c k (n, s) (n', s') \<Longrightarrow> entriesStep ssl c k [] (n, s) (n', s')"
proof -
  assume st: "shareStep ssl c k (n, s) (n', s')"
  note b = shareStep_buffer [OF st]
  have eq: "n'\<lparr>recipeFileBuffer := recipeFileBuffer n\<rparr> = n'" unfolding b [symmetric] by simp
  show ?thesis unfolding entriesStep_def fst_conv snd_conv eq using st b by simp
qed

lemma entriesStep_refl: "storeInv ssl c (backIn n s) \<Longrightarrow> linked n s \<Longrightarrow> entriesStep ssl c 0 [] (n, s) (n, s)"
  by (rule entriesStep_share) (simp add: shareStep_def shareFrame_refl)

lemma entriesStep_inv:
  assumes "entriesStep ssl c k added (n, s) (n', s')"
  shows "storeInv ssl c (backIn n' s')" "linked n' s'" "grows (backIn n s) (backIn n' s')"
    "nameVal (globalShareContainerName s') \<le> nameVal (globalShareContainerName s) + k"
proof -
  have sh: "shareStep ssl c k (n, s) (n'\<lparr>recipeFileBuffer := recipeFileBuffer n\<rparr>, s')"
    using assms by (simp add: entriesStep_def)
  from shareStep_rebuf [OF this, of "recipeFileBuffer n'"]
  have sh': "shareStep ssl c k (n\<lparr>recipeFileBuffer := recipeFileBuffer n'\<rparr>, s) (n', s')" by simp
  then show "storeInv ssl c (backIn n' s')" "linked n' s'"
    "nameVal (globalShareContainerName s') \<le> nameVal (globalShareContainerName s) + k"
    by (simp_all add: shareStep_def)
  show "grows (backIn n s) (backIn n' s')"
    using sh' grows_trans [OF recipeOnly_grows [OF backIn_rebuf(1)]] by (auto simp: shareStep_def)
qed

lemma entriesStep_trans:
  assumes "entriesStep ssl c j a (n, s) (n', s')" "entriesStep ssl c k b (n', s') (n'', s'')"
  shows "entriesStep ssl c (j + k) (a @ b) (n, s) (n'', s'')"
proof -
  have "shareStep ssl c k (n'\<lparr>recipeFileBuffer := recipeFileBuffer n\<rparr>, s') (n''\<lparr>recipeFileBuffer := recipeFileBuffer n\<rparr>, s'')"
    using assms(2) shareStep_rebuf [of ssl c k n' s' "n''\<lparr>recipeFileBuffer := recipeFileBuffer n'\<rparr>" s'' "recipeFileBuffer n"]
    by (simp add: entriesStep_def)
  then show ?thesis using assms shareStep_trans by (fastforce simp: entriesStep_def)
qed

lemma entriesStep_mono: "entriesStep ssl c j a st st' \<Longrightarrow> j \<le> k \<Longrightarrow> entriesStep ssl c k a st st'"
  unfolding entriesStep_def by (blast intro: shareStep_mono)

definition recipeOf :: "shareMDEntry \<Rightarrow> fileRecipeEntry" where
  "recipeOf e = \<lparr> fre_shareFP = mde_shareFP e, fre_secretID = mde_secretID e, fre_secretSize = mde_secretSize e \<rparr>"

lemma putRecipeEntry_len: "length (mde_shareFP e) = 32 \<Longrightarrow> length (putRecipeEntry (recipeOf e)) = 40"
  by (simp add: putRecipeEntry_def recipeOf_def layout_simps)

lemma structAt_fp: "structAt 44 getMDEntry buf off = Some e \<Longrightarrow> length (mde_shareFP e) = 32"
  by (auto simp: structAt_def getMDEntry_def slice_def split: if_splits)

lemma storeShare_inv:
  assumes inv: "storeInv ssl c (backIn n s)" "linked n s"
    and more: "nameVal (globalShareContainerName s) + 1 < 26 ^ 12" and sz: "mde_shareSize e \<noteq> 0" and u: "int32 u" "0 < u"
  shows "case storeShare E ssl c u dat off e (n, s) of
      Done x st' \<Rightarrow> entriesStep ssl c 1 [] (n, s) st' \<and> (faultless E \<longrightarrow> db (snd st') (shareFP2IndexKey (mde_shareFP e)) \<noteq> None)
    | Fails st' \<Rightarrow> entriesStep ssl c 1 [] (n, s) st'
    | Crash e \<Rightarrow> True"
proof (cases "0 \<le> mde_shareSize e \<and> 0 \<le> off \<and> off + mde_shareSize e \<le> int (length dat)")
  case range: True
  show ?thesis
  proof (cases "generateHash ssl c (slice (nat off) (nat (mde_shareSize e)) dat)")
    case (Inr fp)
    show ?thesis
    proof (cases "length fp = 32 \<and> mde_shareFP e = fp")
      case True
      note upd = interUserIndexUpdate_inv [OF inv more Inr sz u, of E]
      have "storeShare E ssl c u dat off e (n, s) = interUserIndexUpdate E fp u (mde_shareSize e) dat off (n, s)"
        using range Inr True by (simp add: storeShare_def)
      then show ?thesis using upd True entriesStep_share by (auto split: outcome.splits)
    next
      case False
      then show ?thesis using range Inr entriesStep_mono [OF entriesStep_refl [OF inv]]
        by (auto simp: storeShare_def safeO_def guardO_def)
    qed
  qed (use range in \<open>simp add: storeShare_def\<close>)
qed (auto simp: storeShare_def safeO_def)

lemma entriesStep_keeps:
  "entriesStep ssl c k added (n, s) (n', s') \<Longrightarrow> db s (shareFP2IndexKey fp) \<noteq> None \<Longrightarrow> db s' (shareFP2IndexKey fp) \<noteq> None"
  by (rule keepsPlaces_db [of s]) (simp_all add: entriesStep_def shareStep_def shareFrame_def)

lemma entriesStep_put:
  "storeInv ssl c (backIn n s) \<Longrightarrow> linked n s \<Longrightarrow>
     entriesStep ssl c 0 x (n, s) (n\<lparr>recipeFileBuffer := recipeFileBuffer n @ x\<rparr>, s)"
  by (simp add: entriesStep_def shareStep_def shareFrame_refl)

lemma secondStageEntries_inv:
  assumes "storeInv ssl c (backIn n s)" "linked n s" "int32 u" "0 < u"
    and "nameVal (globalShareContainerName s) + i < 26 ^ 12"
    and "\<forall>j<i. \<forall>e. structAt 44 getMDEntry mdBuf (off + 44 * int j) = Some e \<longrightarrow> mde_shareSize e \<noteq> 0"
  shows "case secondStageEntries E ssl c u mdBuf dups dat i off dataOff num (n, s) of
      Done r st' \<Rightarrow> fst r = off + 44 * int i \<and> snd (snd r) = num + i \<and>
        (\<exists>es. length es = i \<and> (\<forall>j<i. structAt 44 getMDEntry mdBuf (off + 44 * int j) = Some (es ! j)) \<and>
          entriesStep ssl c i (concat (map (putRecipeEntry \<circ> recipeOf) es)) (n, s) st' \<and>
          (es \<noteq> [] \<longrightarrow> recipeFileBufferCurrLen (fst st') \<le> RECIPE_BUFFER_SIZE) \<and>
          (faultless E \<longrightarrow> (\<forall>j<i. \<not> dups ! (num + j) \<longrightarrow> db (snd st') (shareFP2IndexKey (mde_shareFP (es ! j))) \<noteq> None)))
    | Fails st' \<Rightarrow> \<exists>added. entriesStep ssl c i added (n, s) st' \<and>
        (added \<noteq> [] \<longrightarrow> recipeFileBufferCurrLen (fst st') \<le> RECIPE_BUFFER_SIZE)
    | Crash e \<Rightarrow> True"
  using assms
proof (induction i arbitrary: off dataOff num n s)
  case 0
  then show ?case using entriesStep_refl by simp
next
  case (Suc i)
  note inv = Suc.prems(1,2) and u = Suc.prems(3,4)
  show ?case
  proof (cases "structAt 44 getMDEntry mdBuf off")
    case (Some e)
    have sz: "mde_shareSize e \<noteq> 0" using Suc.prems(6) [rule_format, of 0 e] Some by simp
    show ?thesis
    proof (cases "bufAt dups (int num)")
      case dup: (Some dup)
      then have dnum: "dups ! num = dup" by (auto simp: bufAt_def split: if_splits)
      define r3 where "r3 = (if dup then Done () (n, s) else storeShare E ssl c u dat dataOff e (n, s))"
      have r3: "case r3 of
          Done x st3 \<Rightarrow> entriesStep ssl c 1 [] (n, s) st3 \<and>
            (faultless E \<and> \<not> dup \<longrightarrow> db (snd st3) (shareFP2IndexKey (mde_shareFP e)) \<noteq> None)
        | Fails st3 \<Rightarrow> entriesStep ssl c 1 [] (n, s) st3 | Crash e \<Rightarrow> True"
        using storeShare_inv [OF inv _ sz u, of E dat dataOff] Suc.prems(5) entriesStep_mono [OF entriesStep_refl [OF inv]]
        by (auto simp: r3_def split: outcome.splits)
      show ?thesis
      proof (cases r3)
        case (Done x st3)
        obtain n3 s3 where st3: "st3 = (n3, s3)" by (cases st3)
        have 3: "entriesStep ssl c 1 [] (n, s) (n3, s3)"
          "faultless E \<and> \<not> dup \<longrightarrow> db s3 (shareFP2IndexKey (mde_shareFP e)) \<noteq> None" using r3 Done st3 by auto
        note inv3 = entriesStep_inv [OF 3(1)]
        let ?x = "putRecipeEntry (recipeOf e)"
        let ?n4 = "n3\<lparr>recipeFileBuffer := recipeFileBuffer n3 @ ?x\<rparr>"
        show ?thesis
        proof (cases "recipeFileBufferCurrLen n3 + 40 \<le> RECIPE_BUFFER_SIZE")
          case True
          have 4: "entriesStep ssl c 1 ?x (n, s) (?n4, s3)"
            using entriesStep_trans [OF 3(1) entriesStep_put [OF inv3(1,2), of ?x]] by simp
          note inv4 = entriesStep_inv [OF 4]
          have len4: "recipeFileBufferCurrLen ?n4 \<le> RECIPE_BUFFER_SIZE" using True structAt_fp [OF Some] by (simp add: putRecipeEntry_len)
          let ?d' = "if dup then dataOff else dataOff + mde_shareSize e"
          have run: "secondStageEntries E ssl c u mdBuf dups dat (Suc i) off dataOff num (n, s) =
              secondStageEntries E ssl c u mdBuf dups dat i (off + 44) ?d' (Suc num) (?n4, s3)"
            using Some dup Done st3 True by (simp add: putRecipeEntryOf_def recipeOf_def flip: r3_def)
          have pos: "\<forall>j<i. \<forall>e. structAt 44 getMDEntry mdBuf (off + 44 + 44 * int j) = Some e \<longrightarrow> mde_shareSize e \<noteq> 0"
            using Suc.prems(6) [rule_format, of "Suc _"] by (simp add: algebra_simps)
          have names: "nameVal (globalShareContainerName s3) + i < 26 ^ 12" using inv3(4) Suc.prems(5) by linarith
          note IH = Suc.IH [where off = "off + 44" and dataOff = ?d' and num = "Suc num", OF inv4(1,2) u names pos]
          show ?thesis
          proof (cases "secondStageEntries E ssl c u mdBuf dups dat i (off + 44) ?d' (Suc num) (?n4, s3)")
            case rest: (Done r st')
            obtain n' s' where st': "st' = (n', s')" by (cases st')
            from IH rest st' obtain es where r: "fst r = off + 44 + 44 * int i" "snd (snd r) = Suc num + i"
              and es: "length es = i" "\<forall>j<i. structAt 44 getMDEntry mdBuf (off + 44 + 44 * int j) = Some (es ! j)"
                "entriesStep ssl c i (concat (map (putRecipeEntry \<circ> recipeOf) es)) (?n4, s3) (n', s')"
                "es \<noteq> [] \<longrightarrow> recipeFileBufferCurrLen n' \<le> RECIPE_BUFFER_SIZE"
                "faultless E \<longrightarrow> (\<forall>j<i. \<not> dups ! (Suc num + j) \<longrightarrow> db s' (shareFP2IndexKey (mde_shareFP (es ! j))) \<noteq> None)"
              by auto
            have step: "entriesStep ssl c (Suc i) (concat (map (putRecipeEntry \<circ> recipeOf) (e # es))) (n, s) (n', s')"
              using entriesStep_trans [OF 4 es(3)] by simp
            have at: "structAt 44 getMDEntry mdBuf (off + 44 * int j) = Some ((e # es) ! j)" if "j < Suc i" for j
              using that es(2) Some by (cases j) (auto simp: algebra_simps)
            have bound: "recipeFileBufferCurrLen n' \<le> RECIPE_BUFFER_SIZE"
              using es(3,4) len4 by (cases es) (auto simp: entriesStep_def)
            have kept: "db s' (shareFP2IndexKey (mde_shareFP ((e # es) ! j))) \<noteq> None"
              if "faultless E" "j < Suc i" "\<not> dups ! (num + j)" for j
              using that es(5) 3(2) dnum entriesStep_keeps [OF es(3)] by (cases j) auto
            show ?thesis
              using r es(1) step at bound kept unfolding run rest st'
              by (auto intro!: exI [of _ "e # es"])
          next
            case rest: (Fails st')
            obtain n' s' where st': "st' = (n', s')" by (cases st')
            from IH rest st' obtain added where a: "entriesStep ssl c i added (?n4, s3) (n', s')"
              "added \<noteq> [] \<longrightarrow> recipeFileBufferCurrLen n' \<le> RECIPE_BUFFER_SIZE" by auto
            have "recipeFileBufferCurrLen n' \<le> RECIPE_BUFFER_SIZE"
              using a len4 by (cases added) (auto simp: entriesStep_def)
            then show ?thesis using entriesStep_trans [OF 4 a(1)] unfolding run rest st' by auto
          next
            case (Crash x3)
            then show ?thesis unfolding run by simp
          qed
        next
          case False
          then show ?thesis using Some dup Done st3 by (simp add: putRecipeEntryOf_def safeO_def flip: r3_def)
        qed
      next
        case (Fails st3)
        then have "secondStageEntries E ssl c u mdBuf dups dat (Suc i) off dataOff num (n, s) = Fails st3"
          using Some dup by (simp flip: r3_def)
        moreover have "entriesStep ssl c (Suc i) [] (n, s) st3" using r3 Fails entriesStep_mono [of ssl c 1] by simp
        ultimately show ?thesis by auto
      next
        case (Crash x3)
        then show ?thesis using Some dup by (simp flip: r3_def)
      qed
    qed (use Some in \<open>simp add: readO_def\<close>)
  qed (simp add: readO_def)
qed

end
