(* ===== verification/Restore.thy ===== *)
theory Restore
  imports BufferLink
begin

text \<open>
  \<open>restoreShareFile\<close> of server/dedup/DedupCore.cc: the newest (or an older) version of a user's file
  is looked up in the inode index, its recipe is read from the user's buffer or from the disk, and
  every share of the recipe is found through the share index and a cache of containers, and sent in
  messages of at most SHARE_FILE_BUFFER_SIZE bytes.
\<close>

section \<open>The state of a restore\<close>

record restoring =
  rs_recipe :: bytes                     \<comment> \<open>recipeFileBuffer, the part that was written\<close>
  rs_off :: int                          \<comment> \<open>recipeFileBufferOffset\<close>
  rs_pos :: nat                          \<comment> \<open>position of recipeFilePointer\<close>
  rs_slots :: "(bytes \<times> bytes) list"     \<comment> \<open>shareContainerCache: names and contents\<close>
  rs_index :: "nat list"                 \<comment> \<open>shareContainerCacheIndex, most recent first\<close>
  rs_out :: bytes                        \<comment> \<open>shareFileBuffer behind the message head\<close>

type_synonym rst = "restoring \<times> dedupCore"

text \<open>\<open>fread(p, 1, n, fp)\<close>: as many bytes as there are, up to n.\<close>

definition freadUpTo :: "env \<Rightarrow> bytes \<Rightarrow> nat \<Rightarrow> nat \<Rightarrow> dedupCore \<Rightarrow> bytes \<times> dedupCore" where
  "freadUpTo E path pos n s =
     ((case ioFault E (tick s) of
         IoFine \<Rightarrow> slice pos n (fileContents s path)
       | IoOpenFails \<Rightarrow> []
       | IoShort k \<Rightarrow> slice pos (min k n) (fileContents s path)), tock s)"

text \<open>Writing at the start of an array that keeps its old contents behind.\<close>

definition overwrite :: "'a list \<Rightarrow> 'a list \<Rightarrow> 'a list" where
  "overwrite new old = new @ drop (length new) old"

section \<open>The container cache\<close>

text \<open>The position in the cache of the container with the given name.\<close>

definition cachePos :: "bytes \<Rightarrow> restoring \<Rightarrow> nat option" where
  "cachePos name r = find (\<lambda>j. fst (rs_slots r ! (rs_index r ! j)) = name) [0..<length (rs_index r)]"

definition moveToFront :: "nat \<Rightarrow> nat list \<Rightarrow> nat list" where
  "moveToFront j idx = idx ! j # take j idx @ drop (Suc j) idx"

text \<open>The slot for a container that is not cached: a new one, or the least recently used.\<close>

definition evict :: "restoring \<Rightarrow> restoring" where
  "evict r =
     (if length (rs_index r) < NUM_OF_CACHED_CONTAINERS
      then r\<lparr>rs_index := length (rs_index r) # rs_index r, rs_slots := rs_slots r @ [([], [])]\<rparr>
      else r\<lparr>rs_index := last (rs_index r) # butlast (rs_index r)\<rparr>)"

definition loadSlot :: "bytes \<Rightarrow> bytes \<Rightarrow> restoring \<Rightarrow> restoring" where
  "loadSlot name contents r =
     (let i = rs_index r ! 0 in
      r\<lparr>rs_slots := (rs_slots r)[i := (name, overwrite contents (snd (rs_slots r ! i)))]\<rparr>)"

definition cacheContainer :: "env \<Rightarrow> bytes \<Rightarrow> rst \<Rightarrow> (unit, rst) outcome" where
  "cacheContainer E name st =
     (case st of (r, s) \<Rightarrow>
       (case cachePos name r of
          Some j \<Rightarrow> Done () (r\<lparr>rs_index := moveToFront j (rs_index r)\<rparr>, s)
        | None \<Rightarrow>
            (let r1 = evict r in
             case readShareContainerFromBuffer name s of
               Some contents \<Rightarrow> Done () (loadSlot name contents r1, s)
             | None \<Rightarrow>
                 (case addPrefixDir (shareContainerDirName s) name of
                    None \<Rightarrow> Fails (r1, s)
                  | Some path \<Rightarrow>
                      (case fopenRb E path s of
                         (None, s1) \<Rightarrow> Fails (r1, s1)
                       | (Some _, s1) \<Rightarrow>
                           (case freadUpTo E path 0 (nat CONTAINER_BUFFER_SIZE) s1 of (contents, s2) \<Rightarrow>
                             if contents = [] then Fails (r1, s2)
                             else Done () (loadSlot name contents r1, s2)))))))"

section \<open>Sending\<close>

definition restoreMsg :: "bytes \<Rightarrow> bytes" where
  "restoreMsg payload = rev (le 4 (- 5)) @ rev (le 4 (int (length payload))) @ payload"

definition flushOut :: "env \<Rightarrow> rst \<Rightarrow> (unit, rst) outcome" where
  "flushOut E st =
     (case st of (r, s) \<Rightarrow>
       (case sendMsg E (restoreMsg (rs_out r)) s of
          (False, s1) \<Rightarrow> Fails (r, s1)
        | (True, s1) \<Rightarrow> Done () (r\<lparr>rs_out := []\<rparr>, s1)))"

text \<open>The share info and the share data go into the output buffer, which is sent first when it is too full.\<close>

definition emitShare :: "env \<Rightarrow> fileRecipeEntry \<Rightarrow> shareIndexValueHead \<Rightarrow> rst \<Rightarrow> (unit, rst) outcome" where
  "emitShare E e h st =
     bindO
       (if int (length (rs_out (fst st))) + 12 + sih_shareSize h > SHARE_FILE_BUFFER_SIZE
        then flushOut E st else Done () st)
       (\<lambda>_ st1. case st1 of (r, s) \<Rightarrow>
          let contents = snd (rs_slots r ! (rs_index r ! 0)) in
          bindO (safeO (0 \<le> sih_shareSize h \<and> 0 \<le> sih_shareContainerOffset h \<and>
                   sih_shareContainerOffset h + sih_shareSize h \<le> int (length contents)) OutOfBounds st1) (\<lambda>_ _.
          bindO (safeO (int (length (rs_out r)) + 12 + sih_shareSize h \<le> SHARE_FILE_BUFFER_SIZE) BufferOverflow st1) (\<lambda>_ _.
          Done () (r\<lparr>rs_out := rs_out r @
              putShareEntry \<lparr> she_secretID = fre_secretID e, she_secretSize = fre_secretSize e,
                she_shareSize = sih_shareSize h \<rparr> @
              slice (nat (sih_shareContainerOffset h)) (nat (sih_shareSize h)) contents\<rparr>, s))))"

section \<open>Restoring\<close>

text \<open>More of the recipe file is read when the buffer does not hold a complete entry.\<close>

definition refillRecipe :: "env \<Rightarrow> bool \<Rightarrow> bytes \<Rightarrow> rst \<Rightarrow> (unit, rst) outcome" where
  "refillRecipe E inBuffer path st =
     (case st of (r, s) \<Rightarrow>
       if rs_off r + 40 > RECIPE_BUFFER_SIZE then
         (if inBuffer then Fails st
          else
            (let tail = slice (nat (rs_off r)) (nat (RECIPE_BUFFER_SIZE - rs_off r)) (rs_recipe r) in
             case freadUpTo E path (rs_pos r) (nat (rs_off r)) s of (got, s1) \<Rightarrow>
               if got = [] then Fails (r, s1)
               else if int (length (rs_recipe r)) < RECIPE_BUFFER_SIZE then Crash UninitRead
               else Done () (r\<lparr>rs_recipe := overwrite (tail @ got) (rs_recipe r), rs_off := 0,
                               rs_pos := rs_pos r + length got\<rparr>, s1)))
       else Done () st)"

definition restoreShare :: "env \<Rightarrow> bool \<Rightarrow> bytes \<Rightarrow> rst \<Rightarrow> (unit, rst) outcome" where
  "restoreShare E inBuffer path st =
     bindO (refillRecipe E inBuffer path st) (\<lambda>_ st1.
     bindO (readO (structAt 40 getRecipeEntry (rs_recipe (fst st1)) (rs_off (fst st1))) st1) (\<lambda>e _.
       case st1 of (r, s) \<Rightarrow>
       (case dbGet E (shareFP2IndexKey (fre_shareFP e)) s of
          (GetOk v, s1) \<Rightarrow>
            bindO (readO (structAt 28 getShareHead v 0) (r\<lparr>rs_off := rs_off r + 40\<rparr>, s1)) (\<lambda>h st2.
            bindO (cacheContainer E (sih_shareContainerName h) st2) (\<lambda>_ st3.
            emitShare E e h st3))
        | (GetNotFound, s1) \<Rightarrow> Fails (r, s1)
        | (GetCorruption, s1) \<Rightarrow> Fails (r, s1)
        | (GetIOError, s1) \<Rightarrow> Fails (r, s1))))"

fun restoreLoop :: "env \<Rightarrow> bool \<Rightarrow> bytes \<Rightarrow> nat \<Rightarrow> rst \<Rightarrow> (unit, rst) outcome" where
  "restoreLoop E inBuffer path 0 st = Done () st"
| "restoreLoop E inBuffer path (Suc i) st =
     bindO (restoreShare E inBuffer path st) (\<lambda>_ st1. restoreLoop E inBuffer path i st1)"

text \<open>The recipe from the user's buffer, or the first RECIPE_BUFFER_SIZE bytes of the recipe file.\<close>

definition openRecipe ::
  "env \<Rightarrow> int \<Rightarrow> bytes \<Rightarrow> dedupCore \<Rightarrow> (bool \<times> bytes \<times> bytes, dedupCore) outcome" where
  "openRecipe E userID recipeFileNm s =
     (case readRecipeFileFromBuffer userID recipeFileNm s of
        Some contents \<Rightarrow> Done (True, [], contents) s
      | None \<Rightarrow>
          (case addPrefixDir (recipeFileDirName s) recipeFileNm of
             None \<Rightarrow> Fails s
           | Some path \<Rightarrow>
               (case fopenRb E path s of
                  (None, s1) \<Rightarrow> Fails s1
                | (Some _, s1) \<Rightarrow>
                    (case freadUpTo E path 0 (nat RECIPE_BUFFER_SIZE) s1 of (contents, s2) \<Rightarrow>
                      if contents = [] then Fails s2 else Done (False, path, contents) s2))))"

definition restoreFromInode :: "env \<Rightarrow> int \<Rightarrow> int \<Rightarrow> bytes \<Rightarrow> dedupCore \<Rightarrow> (unit, dedupCore) outcome" where
  "restoreFromInode E userID versionNumber v s =
     bindO (readO (structAt 16 getInodeHead v 0) s) (\<lambda>ih s1.
     bindO (guardO (- versionNumber < inh_numOfChildren ih) s1) (\<lambda>_ _.
     bindO (readO (structAt 20 getInodeFileEntry v (16 + inh_shortNameSize ih + 20 * (- versionNumber))) s1) (\<lambda>fe _.
     bindO (openRecipe E userID (ife_recipeFileName fe) s1) (\<lambda>(inBuffer, path, contents) s2.
     bindO (readO (structAt 24 getRecipeHead contents (ife_recipeFileOffset fe)) s2) (\<lambda>rh _.
       let r = \<lparr> rs_recipe = contents, rs_off = ife_recipeFileOffset fe + 24, rs_pos = length contents,
                 rs_slots = [], rs_index = [],
                 rs_out = putShareFileHead \<lparr> sfh_fileSize = frh_fileSize rh, sfh_numOfShares = frh_numOfShares rh \<rparr> \<rparr> in
       case bindO (restoreLoop E inBuffer path (nat (frh_numOfShares rh)) (r, s2)) (\<lambda>_ st.
              if rs_out (fst st) \<noteq> [] then flushOut E st else Done () st) of
         Done _ (_, s3) \<Rightarrow> Done () s3
       | Fails (_, s3) \<Rightarrow> Fails s3
       | Crash e \<Rightarrow> Crash e)))))"

definition restoreShareFile ::
  "env \<Rightarrow> openssl \<Rightarrow> cryptoPrimitive option \<Rightarrow> int \<Rightarrow> bytes \<Rightarrow> int \<Rightarrow> dedupCore \<Rightarrow> (unit, dedupCore) outcome" where
  "restoreShareFile E ssl cryptoObj userID fullFileName versionNumber s =
     (case cryptoObj of
        None \<Rightarrow> Fails s
      | Some c \<Rightarrow>
          (case formatFullFileName fullFileName of
             None \<Rightarrow> Fails s
           | Some name \<Rightarrow>
               (case fileName2InodeFP ssl c name userID of
                  None \<Rightarrow> Crash UninitRead
                | Some fp \<Rightarrow>
                    (case dbGet E (inodeFP2IndexKey fp) s of
                       (GetOk v, s1) \<Rightarrow> restoreFromInode E userID versionNumber v s1
                     | (GetNotFound, s1) \<Rightarrow> Fails s1
                     | (GetCorruption, s1) \<Rightarrow> Fails s1
                     | (GetIOError, s1) \<Rightarrow> Fails s1))))"

section \<open>The cache is transparent\<close>

text \<open>Every slot in use starts with the container it is named after; the index lists the slots.\<close>

definition cacheOk :: "dedupCore \<Rightarrow> restoring \<Rightarrow> bool" where
  "cacheOk s r \<longleftrightarrow> length (rs_index r) = length (rs_slots r) \<and> set (rs_index r) = {..<length (rs_slots r)} \<and>
     length (rs_slots r) \<le> NUM_OF_CACHED_CONTAINERS \<and>
     (\<forall>slot\<in>set (rs_slots r). \<exists>bs. containerOf s (fst slot) = Some bs \<and> take (length bs) (snd slot) = bs)"

definition frontHolds :: "bytes \<Rightarrow> restoring \<Rightarrow> bool" where
  "frontHolds bs r \<longleftrightarrow> take (length bs) (snd (rs_slots r ! (rs_index r ! 0))) = bs"

lemma set_moveToFront: "j < length idx \<Longrightarrow> set (moveToFront j idx) = set idx"
proof -
  assume j: "j < length idx"
  have "set idx = set (take j idx @ idx ! j # drop (Suc j) idx)" by (metis id_take_nth_drop [OF j])
  then show ?thesis by (simp add: moveToFront_def)
qed

lemma length_moveToFront: "j < length idx \<Longrightarrow> length (moveToFront j idx) = length idx"
  by (simp add: moveToFront_def)

lemma cache_hit:
  assumes ok: "cacheOk s r" and pos: "cachePos name r = Some j" and bs: "containerOf s name = Some bs"
  shows "cacheOk s (r\<lparr>rs_index := moveToFront j (rs_index r)\<rparr>)"
    "frontHolds bs (r\<lparr>rs_index := moveToFront j (rs_index r)\<rparr>)"
proof -
  have j: "j < length (rs_index r)" and name: "fst (rs_slots r ! (rs_index r ! j)) = name"
    using pos by (auto simp: cachePos_def find_Some_iff)
  show "cacheOk s (r\<lparr>rs_index := moveToFront j (rs_index r)\<rparr>)"
    using ok j by (simp add: cacheOk_def set_moveToFront length_moveToFront)
  have "rs_index r ! j < length (rs_slots r)" using ok j nth_mem [OF j] by (simp add: cacheOk_def)
  then have "rs_slots r ! (rs_index r ! j) \<in> set (rs_slots r)" by simp
  then have "take (length bs) (snd (rs_slots r ! (rs_index r ! j))) = bs"
    using ok bs unfolding cacheOk_def name [symmetric] by fastforce
  then show "frontHolds bs (r\<lparr>rs_index := moveToFront j (rs_index r)\<rparr>)"
    by (simp add: frontHolds_def moveToFront_def)
qed

lemma cache_load:
  assumes ok: "cacheOk s r" and bs: "containerOf s name = Some bs"
  shows "cacheOk s (loadSlot name bs (evict r))" "frontHolds bs (loadSlot name bs (evict r))"
    "\<exists>sl ix. loadSlot name bs (evict r) = r\<lparr>rs_slots := sl, rs_index := ix\<rparr>"
proof -
  have pre: "take (length bs) (overwrite bs old) = bs" for old by (simp add: overwrite_def)
  have idx: "length (rs_index r) = length (rs_slots r)" "set (rs_index r) = {..<length (rs_slots r)}"
    using ok by (auto simp: cacheOk_def)
  show "\<exists>sl ix. loadSlot name bs (evict r) = r\<lparr>rs_slots := sl, rs_index := ix\<rparr>"
    by (intro exI [of _ "rs_slots (loadSlot name bs (evict r))"] exI [of _ "rs_index (loadSlot name bs (evict r))"])
      (simp add: loadSlot_def evict_def Let_def)
  show "cacheOk s (loadSlot name bs (evict r))" "frontHolds bs (loadSlot name bs (evict r))"
  proof (atomize (full), cases "length (rs_index r) < NUM_OF_CACHED_CONTAINERS")
    case True
    then have "loadSlot name bs (evict r) =
        r\<lparr>rs_index := length (rs_index r) # rs_index r, rs_slots := rs_slots r @ [(name, overwrite bs [])]\<rparr>"
      using idx by (simp add: loadSlot_def evict_def Let_def)
    then show "cacheOk s (loadSlot name bs (evict r)) \<and> frontHolds bs (loadSlot name bs (evict r))"
      using True ok bs pre idx by (auto simp: cacheOk_def frontHolds_def)
  next
    case False
    let ?i = "last (rs_index r)"
    have ne: "rs_index r \<noteq> []" using False by (auto simp: NUM_OF_CACHED_CONTAINERS_def)
    then have i: "?i < length (rs_slots r)" using idx by (metis last_in_set lessThan_iff)
    have perm: "set (?i # butlast (rs_index r)) = set (rs_index r)"
      using ne by (metis append_butlast_last_id list.set(1) list.simps(15) set_append sup_bot.right_neutral Un_insert_right)
    have r': "loadSlot name bs (evict r) = r\<lparr>rs_index := ?i # butlast (rs_index r),
        rs_slots := (rs_slots r)[?i := (name, overwrite bs (snd (rs_slots r ! ?i)))]\<rparr>"
      using False by (simp add: loadSlot_def evict_def Let_def)
    have "\<forall>slot\<in>set ((rs_slots r)[?i := (name, overwrite bs (snd (rs_slots r ! ?i)))]).
        \<exists>bs. containerOf s (fst slot) = Some bs \<and> take (length bs) (snd slot) = bs"
    proof
      fix slot assume "slot \<in> set ((rs_slots r)[?i := (name, overwrite bs (snd (rs_slots r ! ?i)))])"
      then have "slot = (name, overwrite bs (snd (rs_slots r ! ?i))) \<or> slot \<in> set (rs_slots r)"
        using set_update_subset_insert by fastforce
      then show "\<exists>bs. containerOf s (fst slot) = Some bs \<and> take (length bs) (snd slot) = bs"
        using ok bs pre by (auto simp: cacheOk_def)
    qed
    then show "cacheOk s (loadSlot name bs (evict r)) \<and> frontHolds bs (loadSlot name bs (evict r))"
      using ok idx perm i pre ne unfolding r' by (simp add: cacheOk_def frontHolds_def)
  qed
qed

lemma cacheContainer_run:
  assumes E: "faultless E" and ok: "cacheOk s r" and bs: "containerOf s name = Some bs" "bs \<noteq> []"
    and small: "int (length bs) \<le> CONTAINER_BUFFER_SIZE" and nm: "containerName name"
  shows "\<exists>sl ix k. cacheContainer E name (r, s) = Done () (r\<lparr>rs_slots := sl, rs_index := ix\<rparr>, s\<lparr>tick := k\<rparr>) \<and>
    cacheOk s (r\<lparr>rs_slots := sl, rs_index := ix\<rparr>) \<and> frontHolds bs (r\<lparr>rs_slots := sl, rs_index := ix\<rparr>)"
proof (cases "cachePos name r")
  case (Some j)
  then show ?thesis using cache_hit [OF ok Some bs(1)]
    by (intro exI [of _ "rs_slots r"] exI [of _ "moveToFront j (rs_index r)"] exI [of _ "tick s"])
      (simp add: cacheContainer_def)
next
  case None
  obtain sl ix where r': "loadSlot name bs (evict r) = r\<lparr>rs_slots := sl, rs_index := ix\<rparr>"
    using cache_load(3) [OF ok bs(1)] by blast
  have "\<exists>k. cacheContainer E name (r, s) = Done () (loadSlot name bs (evict r), s\<lparr>tick := k\<rparr>)"
  proof (cases "readShareContainerFromBuffer name s")
    case (Some b)
    then have "b = bs" using bs by (auto simp: readShareContainerFromBuffer_def containerOf_def split: option.splits)
    then show ?thesis using None Some by (intro exI [of _ "tick s"]) (simp add: cacheContainer_def Let_def)
  next
    case absent: None
    let ?path = "shareContainerDirName s @ name"
    have d: "disk s ?path = Some bs"
      using bs absent by (auto simp: readShareContainerFromBuffer_def containerOf_def split: option.splits)
    have "slice 0 (nat CONTAINER_BUFFER_SIZE) bs = bs" using small by (simp add: slice_def)
    moreover have "addPrefixDir (shareContainerDirName s) name = Some ?path" using containerName_ok [OF nm] by blast
    moreover have "ioFault E i = IoFine" for i using E by (simp add: faultless_def)
    ultimately show ?thesis using None absent d bs(2)
      by (intro exI [of _ "Suc (Suc (tick s))"])
        (simp add: cacheContainer_def Let_def fopenRb_def freadUpTo_def fileContents_def tock_def)
  qed
  then show ?thesis using cache_load(1,2) [OF ok bs(1)] unfolding r' by blast
qed

section \<open>What a restore sends\<close>

definition entryBytes :: "dedupCore \<Rightarrow> fileRecipeEntry \<Rightarrow> bytes" where
  "entryBytes s e =
     (let d = the (fetchShare s (fre_shareFP e)) in
      putShareEntry \<lparr> she_secretID = fre_secretID e, she_secretSize = fre_secretSize e, she_shareSize = int (length d) \<rparr> @ d)"

definition restoredFile :: "dedupCore \<Rightarrow> int \<Rightarrow> fileRecipeEntry list \<Rightarrow> bytes" where
  "restoredFile s fileSize es =
     putShareFileHead \<lparr> sfh_fileSize = fileSize, sfh_numOfShares = int (length es) \<rparr> @ concat (map (entryBytes s) es)"

text \<open>The messages: each takes whole entries, as many as fit, and the first starts with the head.\<close>

fun packMsgs :: "bytes \<Rightarrow> bytes list \<Rightarrow> bytes list" where
  "packMsgs out [] = (if out = [] then [] else [out])"
| "packMsgs out (x # xs) =
     (if SHARE_FILE_BUFFER_SIZE < int (length out + length x) then out # packMsgs x xs else packMsgs (out @ x) xs)"

definition restoredMsgs :: "dedupCore \<Rightarrow> int \<Rightarrow> fileRecipeEntry list \<Rightarrow> bytes list" where
  "restoredMsgs s fileSize es =
     packMsgs (putShareFileHead \<lparr> sfh_fileSize = fileSize, sfh_numOfShares = int (length es) \<rparr>) (map (entryBytes s) es)"

lemma packMsgs_concat: "concat (packMsgs out xs) = out @ concat xs"
  by (induction out xs rule: packMsgs.induct) simp_all

lemma restoredMsgs_concat: "concat (restoredMsgs s fileSize es) = restoredFile s fileSize es"
  by (simp add: restoredMsgs_def restoredFile_def packMsgs_concat)

lemma restoredMsgs_end:
  assumes "\<forall>rest. packMsgs (putShareFileHead \<lparr> sfh_fileSize = fileSize, sfh_numOfShares = int (length es) \<rparr>) (map (entryBytes s) es @ rest) = ps @ packMsgs out rest"
  shows "restoredMsgs s fileSize es = ps @ (if out = [] then [] else [out])"
  using spec [OF assms, of "[]"] by (simp add: restoredMsgs_def)

text \<open>The share of an entry is in the index and fits a message.\<close>

definition restorable :: "dedupCore \<Rightarrow> fileRecipeEntry \<Rightarrow> bool" where
  "restorable s e \<longleftrightarrow> okRecipeEntry e \<and>
     (\<exists>v. db s (shareFP2IndexKey (fre_shareFP e)) = Some v \<and> sih_shareSize (headOf v) + 12 \<le> SHARE_FILE_BUFFER_SIZE)"

abbreviation later :: "nat \<Rightarrow> bytes list \<Rightarrow> dedupCore \<Rightarrow> dedupCore" where
  "later k ms s \<equiv> s\<lparr>tick := k, sent := ms\<rparr>"

lemma later_swap [simp]: "s\<lparr>sent := ms, tick := k\<rparr> = later k ms s"
  by simp

lemma later_containerOf [simp]: "containerOf (later k ms s) name = containerOf s name"
  by (simp add: containerOf_def split: option.splits)

lemma later_cacheOk [simp]: "cacheOk (later k ms s) r = cacheOk s r"
  by (simp add: cacheOk_def)

lemma cacheOk_out [simp]:
  "cacheOk s (r\<lparr>rs_out := z\<rparr>) = cacheOk s r" "cacheOk s (r\<lparr>rs_off := z'\<rparr>) = cacheOk s r"
  "frontHolds bs (r\<lparr>rs_out := z\<rparr>) = frontHolds bs r"
  by (simp_all add: cacheOk_def frontHolds_def)

lemma length_putShareEntry [simp]: "length (putShareEntry x) = 12"
  by (simp add: putShareEntry_def layout_simps)

lemma length_putShareFileHead [simp]: "length (putShareFileHead x) = 16"
  by (simp add: putShareFileHead_def layout_simps)

lemma sendMsg_fine: "faultless E \<Longrightarrow> sendMsg E msg s = (True, later (Suc (tick s)) (sent s @ [msg]) s)"
  by (simp add: sendMsg_def faultless_def tock_def)

lemma emitShare_run:
  assumes E: "faultless E" and front: "frontHolds bs r"
    and h: "0 \<le> sih_shareContainerOffset h" "0 < sih_shareSize h"
      "sih_shareContainerOffset h + sih_shareSize h \<le> int (length bs)" "sih_shareSize h + 12 \<le> SHARE_FILE_BUFFER_SIZE"
    and out: "int (length (rs_out r)) \<le> SHARE_FILE_BUFFER_SIZE"
  shows "\<exists>out' k ps. emitShare E e h (r, s) = Done () (r\<lparr>rs_out := out'\<rparr>, later k (sent s @ map restoreMsg ps) s) \<and>
    (\<forall>rest. packMsgs (rs_out r) ((putShareEntry \<lparr> she_secretID = fre_secretID e, she_secretSize = fre_secretSize e,
      she_shareSize = sih_shareSize h \<rparr> @ slice (nat (sih_shareContainerOffset h)) (nat (sih_shareSize h)) bs) # rest) =
      ps @ packMsgs out' rest) \<and> int (length out') \<le> SHARE_FILE_BUFFER_SIZE \<and> (\<forall>p\<in>set ps. int (length p) \<le> SHARE_FILE_BUFFER_SIZE)"
proof -
  define slot where "slot = snd (rs_slots r ! (rs_index r ! 0))"
  define new where "new = putShareEntry \<lparr> she_secretID = fre_secretID e, she_secretSize = fre_secretSize e,
      she_shareSize = sih_shareSize h \<rparr> @ slice (nat (sih_shareContainerOffset h)) (nat (sih_shareSize h)) bs"
  have slot: "slot = bs @ drop (length bs) slot"
    using front by (metis frontHolds_def append_take_drop_id slot_def)
  then have len: "length bs \<le> length slot" by (metis length_append le_add1)
  have sl: "slice (nat (sih_shareContainerOffset h)) (nat (sih_shareSize h)) slot =
      slice (nat (sih_shareContainerOffset h)) (nat (sih_shareSize h)) bs"
    by (subst slot, rule slice_append_left) (use h in auto)
  have newlen: "int (length new) = 12 + sih_shareSize h" using h by (simp add: new_def)
  show ?thesis
  proof (cases "int (length (rs_out r)) + 12 + sih_shareSize h > SHARE_FILE_BUFFER_SIZE")
    case True
    have "emitShare E e h (r, s) = Done () (r\<lparr>rs_out := new\<rparr>, later (Suc (tick s)) (sent s @ map restoreMsg [rs_out r]) s)"
      using True h len sl E
      by (simp add: emitShare_def flushOut_def sendMsg_fine Let_def new_def flip: slot_def)
    then show ?thesis using True newlen h out unfolding new_def [symmetric]
      by (intro exI [of _ new] exI [of _ "Suc (tick s)"] exI [of _ "[rs_out r]"]) simp
  next
    case False
    have "emitShare E e h (r, s) = Done () (r\<lparr>rs_out := rs_out r @ new\<rparr>, later (tick s) (sent s @ map restoreMsg []) s)"
      using False h len sl by (simp add: emitShare_def Let_def new_def flip: slot_def)
    then show ?thesis using newlen False unfolding new_def [symmetric]
      by (intro exI [of _ "rs_out r @ new"] exI [of _ "tick s"] exI [of _ "[]"]) simp
  qed
qed

text \<open>The container of a share is found through the cache and the share goes to the output.\<close>

lemma sendShare_run:
  assumes E: "faultless E" and snd: "sharesSound ssl c s" and e: "restorable s e"
    and r: "cacheOk s r" "int (length (rs_out r)) \<le> SHARE_FILE_BUFFER_SIZE"
  obtains v h r' k' ps where "db s (shareFP2IndexKey (fre_shareFP e)) = Some v" "structAt 28 getShareHead v 0 = Some h"
    "bindO (cacheContainer E (sih_shareContainerName h) (r, later k ms s)) (\<lambda>_ st. emitShare E e h st) =
       Done () (r', later k' (ms @ map restoreMsg ps) s)"
    "\<forall>rest. packMsgs (rs_out r) (entryBytes s e # rest) = ps @ packMsgs (rs_out r') rest" "cacheOk s r'" "rs_recipe r' = rs_recipe r"
    "rs_off r' = rs_off r" "rs_pos r' = rs_pos r" "int (length (rs_out r')) \<le> SHARE_FILE_BUFFER_SIZE"
    "\<forall>p\<in>set ps. int (length p) \<le> SHARE_FILE_BUFFER_SIZE"
proof -
  obtain v where v: "db s (shareFP2IndexKey (fre_shareFP e)) = Some v" "sih_shareSize (headOf v) + 12 \<le> SHARE_FILE_BUFFER_SIZE"
    using e by (auto simp: restorable_def)
  obtain h refs where h: "shareValue v h refs" "located ssl c s (fre_shareFP e) h"
    using snd v(1) unfolding sharesSound_def by blast
  then have hd: "headOf v = h" by (simp add: shareValue_head)
  have head: "structAt 28 getShareHead v 0 = Some h"
    using h(1) by (rule shareValue_head)
  obtain bs where bs: "containerOf s (sih_shareContainerName h) = Some bs" "int (length bs) \<le> CONTAINER_BUFFER_SIZE"
    "sih_shareContainerOffset h + sih_shareSize h \<le> int (length bs)"
    and loc: "0 \<le> sih_shareContainerOffset h" "0 < sih_shareSize h" "containerName (sih_shareContainerName h)"
    using h(2) by (auto simp: located_def)
  have ne: "bs \<noteq> []" using bs loc by auto
  obtain sl ix k1 where cache: "cacheContainer E (sih_shareContainerName h) (r, later k ms s) =
      Done () (r\<lparr>rs_slots := sl, rs_index := ix\<rparr>, (later k ms s)\<lparr>tick := k1\<rparr>)"
    "cacheOk s (r\<lparr>rs_slots := sl, rs_index := ix\<rparr>)" "frontHolds bs (r\<lparr>rs_slots := sl, rs_index := ix\<rparr>)"
    using cacheContainer_run [OF E, of "later k ms s" r "sih_shareContainerName h" bs,
        unfolded later_containerOf later_cacheOk cacheOk_out, OF r(1) bs(1) ne bs(2) loc(3)] by blast
  let ?r2 = "r\<lparr>rs_slots := sl, rs_index := ix\<rparr>"
  obtain out' k2 ps where emit: "emitShare E e h (?r2, later k1 ms s) = Done () (?r2\<lparr>rs_out := out'\<rparr>, later k2 (ms @ map restoreMsg ps) (later k1 ms s))"
    "\<forall>rest. packMsgs (rs_out r) ((putShareEntry \<lparr> she_secretID = fre_secretID e, she_secretSize = fre_secretSize e,
      she_shareSize = sih_shareSize h \<rparr> @ slice (nat (sih_shareContainerOffset h)) (nat (sih_shareSize h)) bs) # rest) =
      ps @ packMsgs out' rest" "int (length out') \<le> SHARE_FILE_BUFFER_SIZE" "\<forall>p\<in>set ps. int (length p) \<le> SHARE_FILE_BUFFER_SIZE"
    using emitShare_run [OF E cache(3) loc(1,2) bs(3), where s = "later k1 ms s" and e = e] v(2) r(2) hd by auto
  have "fetchShare s (fre_shareFP e) = Some (slice (nat (sih_shareContainerOffset h)) (nat (sih_shareSize h)) bs)"
    using v bs hd by (simp add: fetchShare_def)
  then have bytes: "entryBytes s e = putShareEntry \<lparr> she_secretID = fre_secretID e, she_secretSize = fre_secretSize e,
      she_shareSize = sih_shareSize h \<rparr> @ slice (nat (sih_shareContainerOffset h)) (nat (sih_shareSize h)) bs"
    using bs loc by (simp add: entryBytes_def)
  have run: "bindO (cacheContainer E (sih_shareContainerName h) (r, later k ms s)) (\<lambda>_ st. emitShare E e h st) =
      Done () (?r2\<lparr>rs_out := out'\<rparr>, later k2 (ms @ map restoreMsg ps) s)"
    using cache(1) emit(1) by simp
  show ?thesis
    by (rule that [OF v(1) head run]) (use emit(2-4) cache(2) bytes in simp_all)
qed

lemma restoreShare_run:
  assumes E: "faultless E" and snd: "sharesSound ssl c s" and e: "restorable s e"
    and at: "structAt 40 getRecipeEntry (rs_recipe r) (rs_off r) = Some e" "rs_off r + 40 \<le> RECIPE_BUFFER_SIZE"
    and r: "cacheOk s r" "int (length (rs_out r)) \<le> SHARE_FILE_BUFFER_SIZE"
  shows "\<exists>r' k' ps. restoreShare E inBuffer path (r, later k ms s) = Done () (r', later k' (ms @ map restoreMsg ps) s) \<and>
    (\<forall>rest. packMsgs (rs_out r) (entryBytes s e # rest) = ps @ packMsgs (rs_out r') rest) \<and> cacheOk s r' \<and> rs_recipe r' = rs_recipe r \<and>
    rs_off r' = rs_off r + 40 \<and> int (length (rs_out r')) \<le> SHARE_FILE_BUFFER_SIZE \<and>
    (\<forall>p\<in>set ps. int (length p) \<le> SHARE_FILE_BUFFER_SIZE)"
proof -
  let ?r1 = "r\<lparr>rs_off := rs_off r + 40\<rparr>"
  have r1: "cacheOk s ?r1" "int (length (rs_out ?r1)) \<le> SHARE_FILE_BUFFER_SIZE" using r by simp_all
  obtain v h r' k' ps where *: "db s (shareFP2IndexKey (fre_shareFP e)) = Some v" "structAt 28 getShareHead v 0 = Some h"
    "bindO (cacheContainer E (sih_shareContainerName h) (?r1, later (Suc k) ms s)) (\<lambda>_ st. emitShare E e h st) =
       Done () (r', later k' (ms @ map restoreMsg ps) s)"
    "\<forall>rest. packMsgs (rs_out ?r1) (entryBytes s e # rest) = ps @ packMsgs (rs_out r') rest" "cacheOk s r'" "rs_recipe r' = rs_recipe ?r1"
    "rs_off r' = rs_off ?r1" "rs_pos r' = rs_pos ?r1" "int (length (rs_out r')) \<le> SHARE_FILE_BUFFER_SIZE"
    "\<forall>p\<in>set ps. int (length p) \<le> SHARE_FILE_BUFFER_SIZE"
    by (rule sendShare_run [OF E snd e r1, where k = "Suc k" and ms = ms])
  have "restoreShare E inBuffer path (r, later k ms s) = Done () (r', later k' (ms @ map restoreMsg ps) s)"
    using at E *(1-3) by (simp add: restoreShare_def refillRecipe_def tock_def)
  then show ?thesis using *(4-10) by auto
qed

lemma restoreLoop_run:
  assumes E: "faultless E" and snd: "sharesSound ssl c s" and es: "\<forall>e\<in>set es. restorable s e"
    and contents: "contents = pre @ concat (map putRecipeEntry es) @ post" "int (length contents) \<le> RECIPE_BUFFER_SIZE"
  shows "es = old @ todo \<Longrightarrow> rs_recipe r = contents \<Longrightarrow> rs_off r = int (length pre) + 40 * int (length old) \<Longrightarrow>
    cacheOk s r \<Longrightarrow> int (length (rs_out r)) \<le> SHARE_FILE_BUFFER_SIZE \<Longrightarrow>
    \<exists>r' k' ps. restoreLoop E inBuffer path (length todo) (r, later k ms s) = Done () (r', later k' (ms @ map restoreMsg ps) s) \<and>
      (\<forall>rest. packMsgs (rs_out r) (map (entryBytes s) todo @ rest) = ps @ packMsgs (rs_out r') rest) \<and>
      int (length (rs_out r')) \<le> SHARE_FILE_BUFFER_SIZE \<and> (\<forall>p\<in>set ps. int (length p) \<le> SHARE_FILE_BUFFER_SIZE)"
proof (induction todo arbitrary: old r k ms)
  case Nil
  then show ?case by (intro exI [of _ r] exI [of _ k] exI [of _ "[]"]) simp
next
  case (Cons e todo)
  have ok: "\<forall>e\<in>set es. okRecipeEntry e" using es by (simp add: restorable_def)
  have at: "structAt 40 getRecipeEntry (rs_recipe r) (rs_off r) = Some e"
    using recipeEntry.entry_at [OF ok, of "length old" pre post] Cons.prems contents by simp
  have len: "length (concat (map putRecipeEntry es)) = 40 * length es" by (rule recipeEntry.length_table [OF ok])
  have room: "rs_off r + 40 \<le> RECIPE_BUFFER_SIZE" using contents len Cons.prems by simp
  have e: "restorable s e" using es Cons.prems by simp
  obtain r1 k1 ps1 where 1: "restoreShare E inBuffer path (r, later k ms s) = Done () (r1, later k1 (ms @ map restoreMsg ps1) s)"
    "\<forall>rest. packMsgs (rs_out r) (entryBytes s e # rest) = ps1 @ packMsgs (rs_out r1) rest" "cacheOk s r1" "rs_recipe r1 = rs_recipe r"
    "rs_off r1 = rs_off r + 40" "int (length (rs_out r1)) \<le> SHARE_FILE_BUFFER_SIZE"
    "\<forall>p\<in>set ps1. int (length p) \<le> SHARE_FILE_BUFFER_SIZE"
    using restoreShare_run [OF E snd e at room Cons.prems(4,5), where k = k and ms = ms and inBuffer = inBuffer and path = path]
    by blast
  have "\<exists>r' k' ps. restoreLoop E inBuffer path (length todo) (r1, later k1 (ms @ map restoreMsg ps1) s) =
      Done () (r', later k' ((ms @ map restoreMsg ps1) @ map restoreMsg ps) s) \<and>
      (\<forall>rest. packMsgs (rs_out r1) (map (entryBytes s) todo @ rest) = ps @ packMsgs (rs_out r') rest) \<and>
      int (length (rs_out r')) \<le> SHARE_FILE_BUFFER_SIZE \<and> (\<forall>p\<in>set ps. int (length p) \<le> SHARE_FILE_BUFFER_SIZE)"
    by (rule Cons.IH [where old = "old @ [e]"]) (use Cons.prems 1 in simp_all)
  then obtain r2 k2 ps2 where 2: "restoreLoop E inBuffer path (length todo) (r1, later k1 (ms @ map restoreMsg ps1) s) =
      Done () (r2, later k2 ((ms @ map restoreMsg ps1) @ map restoreMsg ps2) s)"
    "\<forall>rest. packMsgs (rs_out r1) (map (entryBytes s) todo @ rest) = ps2 @ packMsgs (rs_out r2) rest"
    "int (length (rs_out r2)) \<le> SHARE_FILE_BUFFER_SIZE" "\<forall>p\<in>set ps2. int (length p) \<le> SHARE_FILE_BUFFER_SIZE"
    by blast
  have "\<forall>rest. packMsgs (rs_out r) (map (entryBytes s) (e # todo) @ rest) = (ps1 @ ps2) @ packMsgs (rs_out r2) rest"
    using 1(2) 2(2) by simp
  then show ?case using 1 2
    by (intro exI [of _ r2] exI [of _ k2] exI [of _ "ps1 @ ps2"]) auto
qed

section \<open>Restoring a stored recipe\<close>

text \<open>The recipe file as a restore of the user reads it: from the user's buffer, or else from the disk.\<close>

definition recipeAt :: "dedupCore \<Rightarrow> int \<Rightarrow> bytes \<Rightarrow> bytes \<Rightarrow> bool" where
  "recipeAt s u rn contents \<longleftrightarrow> recipeName rn \<and> int (length contents) \<le> RECIPE_BUFFER_SIZE \<and>
     (readRecipeFileFromBuffer u rn s = Some contents \<or>
      readRecipeFileFromBuffer u rn s = None \<and> disk s (recipeFileDirName s @ rn) = Some contents)"

definition versionAt :: "bytes \<Rightarrow> int \<Rightarrow> inodeFileEntry \<Rightarrow> bool" where
  "versionAt v k e \<longleftrightarrow> (\<exists>h. structAt 16 getInodeHead v 0 = Some h \<and> 0 \<le> k \<and> k < inh_numOfChildren h \<and>
     structAt 20 getInodeFileEntry v (16 + inh_shortNameSize h + 20 * k) = Some e)"

text \<open>Version \<open>- k\<close> of a file of the user has the given size and shares.\<close>

definition recipeStored :: "dedupCore \<Rightarrow> int \<Rightarrow> bytes \<Rightarrow> int \<Rightarrow> int \<Rightarrow> fileRecipeEntry list \<Rightarrow> bool" where
  "recipeStored s u fp k fileSize es \<longleftrightarrow> int32 u \<and> int64 fileSize \<and> int32 (int (length es)) \<and>
     (\<exists>v rn pre post. db s (inodeFP2IndexKey fp) = Some v \<and>
        versionAt v k \<lparr> ife_recipeFileName = rn, ife_recipeFileOffset = int (length pre) \<rparr> \<and>
        recipeAt s u rn (pre @ putRecipeHead \<lparr> frh_userID = u, frh_fileSize = fileSize, frh_numOfShares = int (length es) \<rparr> @
          concat (map putRecipeEntry es) @ post))"

lemma openRecipe_run:
  assumes E: "faultless E" and at: "recipeAt s u rn contents" "contents \<noteq> []"
  shows "\<exists>inBuffer path k. openRecipe E u rn s = Done (inBuffer, path, contents) (s\<lparr>tick := k\<rparr>)"
proof (cases "readRecipeFileFromBuffer u rn s")
  case None
  let ?path = "recipeFileDirName s @ rn"
  have d: "disk s ?path = Some contents" "int (length contents) \<le> RECIPE_BUFFER_SIZE"
    using at None by (auto simp: recipeAt_def)
  have "addPrefixDir (recipeFileDirName s) rn = Some ?path" using at recipeName_ok by (auto simp: recipeAt_def)
  moreover have "slice 0 (nat RECIPE_BUFFER_SIZE) contents = contents" using d by (simp add: slice_def)
  moreover have "ioFault E i = IoFine" for i using E by (simp add: faultless_def)
  ultimately show ?thesis using None d at(2)
    by (simp add: openRecipe_def fopenRb_def freadUpTo_def fileContents_def tock_def) blast
next
  case (Some x)
  then have "openRecipe E u rn s = Done (True, [], contents) (s\<lparr>tick := tick s\<rparr>)"
    using at by (simp add: openRecipe_def recipeAt_def)
  then show ?thesis by blast
qed

lemma restore_run:
  assumes E: "faultless E" and snd: "sharesSound ssl c s" and es: "\<forall>e\<in>set es. restorable s e"
    and nm: "formatFullFileName name = Some full" "fileName2InodeFP ssl c full u = Some fp"
    and st: "recipeStored s u fp k fileSize es"
  shows "\<exists>t ps. restoreShareFile E ssl (Some c) u name (- k) s = Done () (later t (sent s @ map restoreMsg ps) s) \<and>
    ps = restoredMsgs s fileSize es \<and> concat ps = restoredFile s fileSize es \<and> (\<forall>p\<in>set ps. int (length p) \<le> SHARE_FILE_BUFFER_SIZE)"
proof -
  let ?rh = "\<lparr> frh_userID = u, frh_fileSize = fileSize, frh_numOfShares = int (length es) \<rparr>"
  obtain v rn pre post where v: "db s (inodeFP2IndexKey fp) = Some v"
    "versionAt v k \<lparr> ife_recipeFileName = rn, ife_recipeFileOffset = int (length pre) \<rparr>"
    and at: "recipeAt s u rn (pre @ putRecipeHead ?rh @ concat (map putRecipeEntry es) @ post)"
    using st unfolding recipeStored_def by blast
  define contents where "contents = pre @ putRecipeHead ?rh @ concat (map putRecipeEntry es) @ post"
  have okh: "okRecipeHead ?rh" using st by (simp add: recipeStored_def okRecipeHead_def)
  have len24: "length (putRecipeHead ?rh) = 24" by (rule recipeHead.length_put [OF okh])
  then have ne: "contents \<noteq> []" unfolding contents_def by auto
  obtain inB path k1 where op: "openRecipe E u rn (tock s) = Done (inB, path, contents) ((tock s)\<lparr>tick := k1\<rparr>)"
    using openRecipe_run [OF E, of "tock s" u rn contents] at ne
    by (auto simp: recipeAt_def contents_def readRecipeFileFromBuffer_def)
  have head: "structAt 24 getRecipeHead contents (int (length pre)) = Some ?rh"
    unfolding contents_def by (rule recipeHead.at_middle [OF okh refl])
  let ?r = "\<lparr> rs_recipe = contents, rs_off = int (length pre) + 24, rs_pos = length contents, rs_slots = [], rs_index = [],
      rs_out = putShareFileHead \<lparr> sfh_fileSize = fileSize, sfh_numOfShares = int (length es) \<rparr> \<rparr>"
  have "\<exists>r' k' ps. restoreLoop E inB path (length es) (?r, later k1 (sent s) s) = Done () (r', later k' (sent s @ map restoreMsg ps) s) \<and>
      (\<forall>rest. packMsgs (rs_out ?r) (map (entryBytes s) es @ rest) = ps @ packMsgs (rs_out r') rest) \<and>
      int (length (rs_out r')) \<le> SHARE_FILE_BUFFER_SIZE \<and> (\<forall>p\<in>set ps. int (length p) \<le> SHARE_FILE_BUFFER_SIZE)"
  proof (rule restoreLoop_run [OF E snd es, where pre = "pre @ putRecipeHead ?rh" and post = post and old = "[]" and contents = contents])
    show "contents = (pre @ putRecipeHead ?rh) @ concat (map putRecipeEntry es) @ post" by (simp add: contents_def)
    show "int (length contents) \<le> RECIPE_BUFFER_SIZE" using at by (simp add: recipeAt_def contents_def)
    show "cacheOk s ?r" by (simp add: cacheOk_def)
  qed (simp_all add: len24 SHARE_FILE_BUFFER_SIZE_def)
  then obtain r' k2 ps where loop: "restoreLoop E inB path (length es) (?r, later k1 (sent s) s) = Done () (r', later k2 (sent s @ map restoreMsg ps) s)"
    "restoredMsgs s fileSize es = ps @ (if rs_out r' = [] then [] else [rs_out r'])"
    "int (length (rs_out r')) \<le> SHARE_FILE_BUFFER_SIZE" "\<forall>p\<in>set ps. int (length p) \<le> SHARE_FILE_BUFFER_SIZE"
    using restoredMsgs_end [of fileSize es s] by auto
  have t1: "(tock s)\<lparr>tick := k1\<rparr> = later k1 (sent s) s" by (simp add: tock_def)
  obtain h where h: "structAt 16 getInodeHead v 0 = Some h" "k < inh_numOfChildren h"
    "structAt 20 getInodeFileEntry v (16 + inh_shortNameSize h + 20 * k) =
      Some \<lparr> ife_recipeFileName = rn, ife_recipeFileOffset = int (length pre) \<rparr>"
    using v(2) by (auto simp: versionAt_def)
  let ?fin = "case bindO (restoreLoop E inB path (nat (int (length es))) (?r, later k1 (sent s) s)) (\<lambda>_ st.
              if rs_out (fst st) \<noteq> [] then flushOut E st else Done () st) of
         Done _ (_, s3) \<Rightarrow> Done () s3 | Fails (_, s3) \<Rightarrow> Fails s3 | Crash e \<Rightarrow> Crash e"
  have run: "restoreShareFile E ssl (Some c) u name (- k) s = ?fin"
    using nm v(1) E h op t1 head
    by (simp add: restoreShareFile_def restoreFromInode_def Let_def guardO_def)
  show ?thesis
  proof (cases "rs_out r' = []")
    case True
    then have "?fin = Done () (later k2 (sent s @ map restoreMsg ps) s)" using loop(1) by simp
    then show ?thesis using run loop(2,4) True restoredMsgs_concat [of s fileSize es] by (intro exI [of _ k2] exI [of _ ps]) simp
  next
    case False
    then have "?fin = Done () (later (Suc k2) (sent s @ map restoreMsg (ps @ [rs_out r'])) s)"
      using loop(1) E by (simp add: flushOut_def sendMsg_fine)
    then show ?thesis using run loop(2-4) False restoredMsgs_concat [of s fileSize es]
      by (intro exI [of _ "Suc k2"] exI [of _ "ps @ [rs_out r']"]) simp
  qed
qed

section \<open>Properties\<close>

text \<open>
  C8. Restoring gives back exactly what the recipe lists. If a version of a file is recorded in the
  inode index, in the user's recipe buffer or in a recipe file of at most RECIPE_BUFFER_SIZE bytes,
  and its shares are in the index and fit a message, then without faults the restore of that
  version succeeds; the payloads of the messages it sends concatenate to the head with the file's
  size and number of shares, followed by the shares in the order of the recipe, each with its
  secret's id and size and with bytes whose hash is the fingerprint in the recipe. No message
  exceeds the buffer, and nothing but the messages changes, whatever the four cached containers are.
\<close>

theorem restore_sends_the_file:
  assumes "faultless E" "storeInv ssl c s" "\<forall>e\<in>set es. restorable s e"
    and "formatFullFileName name = Some full" "fileName2InodeFP ssl c full u = Some fp"
    and "recipeStored s u fp k fileSize es"
  shows "\<exists>t ps. restoreShareFile E ssl (Some c) u name (- k) s = Done () (later t (sent s @ map restoreMsg ps) s) \<and>
    concat ps = restoredFile s fileSize es \<and> (\<forall>p\<in>set ps. int (length p) \<le> SHARE_FILE_BUFFER_SIZE) \<and>
    (\<forall>e\<in>set es. \<exists>d. fetchShare s (fre_shareFP e) = Some d \<and> generateHash ssl c d = Inr (fre_shareFP e))"
proof -
  have snd: "sharesSound ssl c s" using assms(2) by (simp add: storeInv_def)
  have "\<exists>d. fetchShare s (fre_shareFP e) = Some d \<and> generateHash ssl c d = Inr (fre_shareFP e)" if "e \<in> set es" for e
    using assms(3) that fetchShare_sound [OF snd, of "fre_shareFP e"] by (metis restorable_def)
  then show ?thesis using restore_run [OF assms(1) snd assms(3-6)] by blast
qed

subsection \<open>Witnesses\<close>

text \<open>User 7 has stored the file /f of 9 bytes with one share; recipe and share are in the user's buffers.\<close>

definition keptHead :: fileRecipeHead where
  "keptHead = \<lparr> frh_userID = 7, frh_fileSize = 9, frh_numOfShares = 1 \<rparr>"

definition keptEntry :: fileRecipeEntry where
  "keptEntry = \<lparr> fre_shareFP = demoFP, fre_secretID = 0, fre_secretSize = 9 \<rparr>"

definition keptFP :: bytes where
  "keptFP = toyDigest EVP_sha256 ([47, 102] @ le 4 7)"

definition keptNode :: bufferNode where
  "keptNode = filledNode\<lparr>recipeFileBuffer := putRecipeHead keptHead @ putRecipeEntry keptEntry\<rparr>"

definition keptCore :: dedupCore where
  "keptCore = demoCore\<lparr>
     db := [shareFP2IndexKey demoFP \<mapsto> demoValue,
            inodeFP2IndexKey keptFP \<mapsto> newFileInode 7 [102] (replicate 12 97 @ rfSuffix) 0],
     bufferLink := [keptNode]\<rparr>"

lemma keptFP_name: "formatFullFileName [47, 102] = Some [47, 102]" "fileName2InodeFP toySSL shaCrypto [47, 102] 7 = Some keptFP"
  by code_simp+

lemma keptCore_inv: "storeInv toySSL shaCrypto keptCore"
proof -
  let ?s = "keptCore\<lparr>db := [shareFP2IndexKey demoFP \<mapsto> demoValue]\<rparr>"
  have "storeInv toySSL shaCrypto ?s"
  proof (rule one_share_inv)
    show "linkSound ?s"
      by (simp add: linkSound_def nodeSound_def keptCore_def demoCore_def keptNode_def filledNode_def demoNode_def demoName_simps
          CONTAINER_BUFFER_SIZE_def demoShare_def)
    show "containerOf ?s (replicate 12 97 @ scSuffix) = Some demoShare"
      by (simp add: containerOf_def keptCore_def keptNode_def filledNode_def demoNode_def)
  qed (simp_all add: keptCore_def demoCore_def demoName_simps)
  then show ?thesis by (rule storeInv_frame) (simp_all add: keptCore_def)
qed

lemma keptCore_version:
  "versionAt (newFileInode 7 [102] (replicate 12 97 @ rfSuffix) 0) 0
     \<lparr> ife_recipeFileName = replicate 12 97 @ rfSuffix, ife_recipeFileOffset = int (length ([]::bytes)) \<rparr>"
  using newestVersion_new [of "replicate 12 97 @ rfSuffix" 0 "[102]" 7] recipeName_ok [OF demoName_simps(4)]
  by (auto simp: newestVersion_def versionAt_def int32_def)

lemma keptCore_recipe:
  "recipeFileBuffer keptNode = [] @ putRecipeHead \<lparr> frh_userID = 7, frh_fileSize = 9, frh_numOfShares = int (length [keptEntry]) \<rparr> @
     concat (map putRecipeEntry [keptEntry]) @ []"
  "int (length (recipeFileBuffer keptNode)) \<le> RECIPE_BUFFER_SIZE"
  by (simp_all add: keptNode_def keptHead_def RECIPE_BUFFER_SIZE_def putRecipeHead_def putRecipeEntry_def layout_simps
      keptEntry_def demoFP_def toyDigest_def)

lemma keptCore_stored: "recipeStored keptCore 7 keptFP 0 9 [keptEntry]"
  unfolding recipeStored_def
proof (intro conjI exI)
  show "db keptCore (inodeFP2IndexKey keptFP) = Some (newFileInode 7 [102] (replicate 12 97 @ rfSuffix) 0)"
    by (simp add: keptCore_def)
  show "versionAt (newFileInode 7 [102] (replicate 12 97 @ rfSuffix) 0) 0
     \<lparr> ife_recipeFileName = replicate 12 97 @ rfSuffix, ife_recipeFileOffset = int (length ([]::bytes)) \<rparr>"
    by (rule keptCore_version)
  show "recipeAt keptCore 7 (replicate 12 97 @ rfSuffix) ([] @ putRecipeHead \<lparr> frh_userID = 7, frh_fileSize = 9,
      frh_numOfShares = int (length [keptEntry]) \<rparr> @ concat (map putRecipeEntry [keptEntry]) @ [])"
    unfolding keptCore_recipe(1) [symmetric] recipeAt_def using keptCore_recipe(2)
    by (simp add: readRecipeFileFromBuffer_def keptCore_def keptNode_def filledNode_def demoNode_def demoName_simps)
qed (simp_all add: int32_def int64_def)

lemma keptEntry_restorable: "restorable keptCore keptEntry"
  by (simp add: restorable_def okRecipeEntry_def keptEntry_def keptCore_def demoFP_def toyDigest_def int32_def
      shareValue_head [OF demoValue_ok] SHARE_FILE_BUFFER_SIZE_def)

theorem restore_sends_the_file_witness:
  "\<exists>t ps. restoreShareFile fineEnv toySSL (Some shaCrypto) 7 [47, 102] 0 keptCore =
       Done () (later t (sent keptCore @ map restoreMsg ps) keptCore) \<and> concat ps = restoredFile keptCore 9 [keptEntry]"
  using restore_sends_the_file [OF fineEnv_faultless keptCore_inv _ keptFP_name keptCore_stored] keptEntry_restorable by auto

end
