(* ===== verification/Upload.thy ===== *)
theory Upload
  imports SecondStage Restore
begin

text \<open>
  Uploads and restores of server/dedup/DedupCore.cc together: what the second stage does to the
  recipes in buffers and recipe files, that an uploaded file can be restored, and that later
  uploads, successful or not, do not disturb it.
\<close>

section \<open>The recipe buffers of the link\<close>

definition headOk :: "bufferNode \<Rightarrow> bool" where
  "headOk n \<longleftrightarrow> recipeFileBuffer n = [] \<or>
     24 \<le> length (recipeFileBuffer n) \<and> 0 \<le> frh_numOfShares (getRecipeHead (take 24 (recipeFileBuffer n)))"

definition recipeNode :: "dedupCore \<Rightarrow> bufferNode \<Rightarrow> bool" where
  "recipeNode s n \<longleftrightarrow> recipeName (recipeFileName n) \<and>
     nameVal (recipeFileName n) < nameVal (globalRecipeFileName s) \<and>
     recipeFileBufferCurrLen n \<le> RECIPE_BUFFER_SIZE \<and> headOk n"

definition recipeLink :: "dedupCore \<Rightarrow> bool" where
  "recipeLink s \<longleftrightarrow> recipeName (globalRecipeFileName s) \<and> distinct (map recipeFileName (bufferLink s)) \<and>
     distinct (map bn_userID (bufferLink s)) \<and> (\<forall>n\<in>set (bufferLink s). recipeNode s n)"

definition uploadInv :: "openssl \<Rightarrow> cryptoPrimitive \<Rightarrow> dedupCore \<Rightarrow> bool" where
  "uploadInv ssl c s \<longleftrightarrow> storeInv ssl c s \<and> recipeLink s"

text \<open>
  A version of a file is recorded: its recipe lies in the buffer of the user's node, or in a recipe
  file that no node is going to write.
\<close>

definition recordAt :: "dedupCore \<Rightarrow> int \<Rightarrow> bytes \<Rightarrow> int \<Rightarrow> int \<Rightarrow> fileRecipeEntry list \<Rightarrow> bool" where
  "recordAt s u fp k fileSize es \<longleftrightarrow>
     (\<exists>v rn pre post contents. db s (inodeFP2IndexKey fp) = Some v \<and>
        versionAt v k \<lparr> ife_recipeFileName = rn, ife_recipeFileOffset = int (length pre) \<rparr> \<and>
        contents = pre @ putRecipeHead \<lparr> frh_userID = u, frh_fileSize = fileSize, frh_numOfShares = int (length es) \<rparr> @
          concat (map putRecipeEntry es) @ post \<and>
        int (length contents) \<le> RECIPE_BUFFER_SIZE \<and> recipeName rn \<and>
        nameVal rn < nameVal (globalRecipeFileName s) \<and>
        ((\<exists>m\<in>set (bufferLink s). recipeFileName m = rn \<and> bn_userID m = u \<and> recipeFileBuffer m = contents) \<or>
         (\<forall>m\<in>set (bufferLink s). recipeFileName m \<noteq> rn) \<and> disk s (recipeFileDirName s @ rn) = Some contents))"

lemma recordAt_stored:
  assumes rec: "recordAt s u fp k fileSize es" and link: "recipeLink s"
    and ok: "int32 u" "int64 fileSize" "int32 (int (length es))"
  shows "recipeStored s u fp k fileSize es"
proof -
  obtain v rn pre post contents where v: "db s (inodeFP2IndexKey fp) = Some v"
      "versionAt v k \<lparr> ife_recipeFileName = rn, ife_recipeFileOffset = int (length pre) \<rparr>"
    and c: "contents = pre @ putRecipeHead \<lparr> frh_userID = u, frh_fileSize = fileSize, frh_numOfShares = int (length es) \<rparr> @
          concat (map putRecipeEntry es) @ post" "int (length contents) \<le> RECIPE_BUFFER_SIZE" "recipeName rn"
    and where_it_is: "(\<exists>m\<in>set (bufferLink s). recipeFileName m = rn \<and> bn_userID m = u \<and> recipeFileBuffer m = contents) \<or>
         (\<forall>m\<in>set (bufferLink s). recipeFileName m \<noteq> rn) \<and> disk s (recipeFileDirName s @ rn) = Some contents"
    using rec unfolding recordAt_def by blast
  have "readRecipeFileFromBuffer u rn s = Some contents \<or>
      readRecipeFileFromBuffer u rn s = None \<and> disk s (recipeFileDirName s @ rn) = Some contents"
    using where_it_is
  proof
    assume "\<exists>m\<in>set (bufferLink s). recipeFileName m = rn \<and> bn_userID m = u \<and> recipeFileBuffer m = contents"
    then obtain m where m: "m \<in> set (bufferLink s)" "recipeFileName m = rn" "bn_userID m = u" "recipeFileBuffer m = contents"
      by blast
    have "find (\<lambda>y. bn_userID y = bn_userID m) (bufferLink s) = Some m"
      using link m(1) by (intro find_distinct) (auto simp: recipeLink_def)
    then show ?thesis using m by (simp add: readRecipeFileFromBuffer_def)
  next
    assume none: "(\<forall>m\<in>set (bufferLink s). recipeFileName m \<noteq> rn) \<and> disk s (recipeFileDirName s @ rn) = Some contents"
    have "readRecipeFileFromBuffer u rn s = None"
    proof (cases "find (\<lambda>n. bn_userID n = u) (bufferLink s)")
      case (Some m)
      then have "m \<in> set (bufferLink s)" by (auto simp: find_Some_iff)
      then show ?thesis using Some none by (simp add: readRecipeFileFromBuffer_def)
    qed (simp add: readRecipeFileFromBuffer_def)
    then show ?thesis using none by blast
  qed
  then have "recipeAt s u rn contents" using c by (simp add: recipeAt_def)
  then show ?thesis using v ok unfolding recipeStored_def c(1) by blast
qed

section \<open>What keeps a record\<close>

text \<open>
  One step on the node of a user: its recipe buffer grows, or it was written to its recipe file and
  the node has taken the next name.
\<close>

definition nodeStep :: "bufferNode \<times> dedupCore \<Rightarrow> bufferNode \<times> dedupCore \<Rightarrow> bool" where
  "nodeStep st st' \<longleftrightarrow>
     bn_addr (fst st') = bn_addr (fst st) \<and> bn_userID (fst st') = bn_userID (fst st) \<and>
     bufferLink (snd st') = bufferLink (snd st) \<and> recipeFileDirName (snd st') = recipeFileDirName (snd st) \<and>
     recipeFileBufferCurrLen (fst st') \<le> RECIPE_BUFFER_SIZE \<and> headOk (fst st') \<and>
     recipeName (globalRecipeFileName (snd st')) \<and>
     nameVal (globalRecipeFileName (snd st)) \<le> nameVal (globalRecipeFileName (snd st')) \<and>
     (\<forall>rn. recipeName rn \<and> rn \<noteq> recipeFileName (fst st) \<longrightarrow>
        disk (snd st') (recipeFileDirName (snd st) @ rn) = disk (snd st) (recipeFileDirName (snd st) @ rn)) \<and>
     (recipeFileName (fst st') = recipeFileName (fst st) \<and> (\<exists>x. recipeFileBuffer (fst st') = recipeFileBuffer (fst st) @ x) \<or>
      recipeFileName (fst st') = globalRecipeFileName (snd st) \<and>
      nameVal (globalRecipeFileName (snd st)) < nameVal (globalRecipeFileName (snd st')) \<and>
      disk (snd st') (recipeFileDirName (snd st) @ recipeFileName (fst st)) = Some (recipeFileBuffer (fst st)))"

lemma replaced_link:
  assumes "bn_addr n' = bn_addr n" "bufferLink s' = bufferLink s"
  shows "bufferLink (backIn n' s') = map (\<lambda>m. if bn_addr m = bn_addr n then n' else m) (bufferLink (backIn n s))"
  using assms by (simp add: backIn_def)

lemma replaced_set:
  assumes "bn_addr n' = bn_addr n" "bufferLink s' = bufferLink s" "linked n s"
  shows "set (bufferLink (backIn n' s')) = insert n' {m \<in> set (bufferLink (backIn n s)). bn_addr m \<noteq> bn_addr n}"
  using set_backIn [of n' s'] set_backIn [OF assms(3)] assms by (auto simp: linked_def)

lemma nodeStep_link:
  assumes step: "nodeStep (n, s) (n', s')" and link: "recipeLink (backIn n s)" "linked n s"
    and addrs: "distinct (map bn_addr (bufferLink s))"
  shows "recipeLink (backIn n' s')"
proof -
  have st: "bn_addr n' = bn_addr n" "bn_userID n' = bn_userID n" "bufferLink s' = bufferLink s"
    "recipeName (globalRecipeFileName s')" "nameVal (globalRecipeFileName s) \<le> nameVal (globalRecipeFileName s')"
    "recipeFileBufferCurrLen n' \<le> RECIPE_BUFFER_SIZE" "headOk n'"
    using step by (simp_all add: nodeStep_def)
  have mem: "n \<in> set (bufferLink (backIn n s))" by (rule linked_mem [OF link(2)])
  have n: "recipeNode (backIn n s) n" "recipeName (globalRecipeFileName s)"
    using link mem by (auto simp: recipeLink_def)
  have name: "recipeFileName n' = recipeFileName n \<and> nameVal (recipeFileName n') < nameVal (globalRecipeFileName s) \<or>
      recipeFileName n' = globalRecipeFileName s \<and> nameVal (globalRecipeFileName s) < nameVal (globalRecipeFileName s')"
    using step n by (auto simp: nodeStep_def recipeNode_def)
  have okn: "recipeNode (backIn n' s') n'"
    using name n st by (auto simp: recipeNode_def)
  have lk: "linked n' (backIn n s)" using st link(2) by (auto simp: linked_def backIn_def)
  have bk: "bufferLink (backIn n' s') = bufferLink (backIn n' (backIn n s))"
    using replaced_link [OF st(1,3)] st(1) by (simp add: backIn_def)
  have dist: "distinct (map bn_addr (bufferLink (backIn n s)))" using addrs by simp
  have others: "recipeFileName m \<noteq> recipeFileName n' \<and> bn_userID m \<noteq> bn_userID n'"
    if m: "m \<in> set (bufferLink (backIn n s))" "bn_addr m \<noteq> bn_addr n'" for m
  proof -
    have mn: "m \<noteq> n" using m st by auto
    have inj: "inj_on recipeFileName (set (bufferLink (backIn n s)))" "inj_on bn_userID (set (bufferLink (backIn n s)))"
      using link(1) by (auto simp: recipeLink_def distinct_map)
    have "recipeFileName m \<noteq> recipeFileName n" "bn_userID m \<noteq> bn_userID n"
      using inj mn m(1) mem by (auto simp: inj_on_def)
    moreover have "nameVal (recipeFileName m) < nameVal (globalRecipeFileName s)"
      using link(1) m by (auto simp: recipeLink_def recipeNode_def)
    ultimately show ?thesis using name st by auto
  qed
  have d1: "distinct (map recipeFileName (bufferLink (backIn n' s')))"
    unfolding bk by (rule distinct_backIn [OF dist _ lk]) (use link(1) others in \<open>force simp: recipeLink_def\<close>)+
  have d2: "distinct (map bn_userID (bufferLink (backIn n' s')))"
    unfolding bk by (rule distinct_backIn [OF dist _ lk]) (use link(1) others in \<open>force simp: recipeLink_def\<close>)+
  have "recipeNode (backIn n' s') m" if "m \<in> set (bufferLink (backIn n' s'))" for m
    using that okn link(1) st(5) unfolding replaced_set [OF st(1,3) link(2)]
    by (auto simp: recipeLink_def recipeNode_def)
  then show ?thesis using d1 d2 st(4) by (simp add: recipeLink_def)
qed

lemma nodeStep_record:
  assumes step: "nodeStep (n, s) (n', s')" and link: "recipeLink (backIn n s)" "linked n s"
    and key: "db s' (inodeFP2IndexKey fp) = db s (inodeFP2IndexKey fp)"
    and rec: "recordAt (backIn n s) u fp k fileSize es"
  shows "recordAt (backIn n' s') u fp k fileSize es"
proof -
  let ?h = "\<lparr> frh_userID = u, frh_fileSize = fileSize, frh_numOfShares = int (length es) \<rparr>"
  obtain v rn pre post contents where v: "db s (inodeFP2IndexKey fp) = Some v"
      "versionAt v k \<lparr> ife_recipeFileName = rn, ife_recipeFileOffset = int (length pre) \<rparr>"
    and c: "contents = pre @ putRecipeHead ?h @ concat (map putRecipeEntry es) @ post"
      "int (length contents) \<le> RECIPE_BUFFER_SIZE" "recipeName rn" "nameVal rn < nameVal (globalRecipeFileName s)"
    and where_it_is: "(\<exists>m\<in>set (bufferLink (backIn n s)). recipeFileName m = rn \<and> bn_userID m = u \<and> recipeFileBuffer m = contents) \<or>
         (\<forall>m\<in>set (bufferLink (backIn n s)). recipeFileName m \<noteq> rn) \<and> disk s (recipeFileDirName s @ rn) = Some contents"
    using rec unfolding recordAt_def backIn_frame by blast
  have st: "bn_addr n' = bn_addr n" "bn_userID n' = bn_userID n" "bufferLink s' = bufferLink s"
    "recipeFileDirName s' = recipeFileDirName s" "nameVal (globalRecipeFileName s) \<le> nameVal (globalRecipeFileName s')"
    "recipeFileBufferCurrLen n' \<le> RECIPE_BUFFER_SIZE"
    "\<And>rn. recipeName rn \<Longrightarrow> rn \<noteq> recipeFileName n \<Longrightarrow> disk s' (recipeFileDirName s @ rn) = disk s (recipeFileDirName s @ rn)"
    using step by (simp_all add: nodeStep_def)
  have how: "recipeFileName n' = recipeFileName n \<and> (\<exists>x. recipeFileBuffer n' = recipeFileBuffer n @ x) \<or>
      recipeFileName n' = globalRecipeFileName s \<and>
      disk s' (recipeFileDirName s @ recipeFileName n) = Some (recipeFileBuffer n)"
    using step by (auto simp: nodeStep_def)
  have set': "set (bufferLink (backIn n' s')) = insert n' {m \<in> set (bufferLink (backIn n s)). bn_addr m \<noteq> bn_addr n}"
    by (rule replaced_set [OF st(1,3) link(2)])
  have mem: "n \<in> set (bufferLink (backIn n s))" by (rule linked_mem [OF link(2)])
  have only: "m = n" if "m \<in> set (bufferLink (backIn n s))" "recipeFileName m = recipeFileName n" for m
    using link(1) mem that by (auto simp: recipeLink_def distinct_map inj_on_def)
  have goal: ?thesis if "\<exists>post'. (\<exists>m\<in>set (bufferLink (backIn n' s')). recipeFileName m = rn \<and> bn_userID m = u \<and>
        recipeFileBuffer m = contents @ post' \<and> int (length (contents @ post')) \<le> RECIPE_BUFFER_SIZE) \<or>
      post' = [] \<and> (\<forall>m\<in>set (bufferLink (backIn n' s')). recipeFileName m \<noteq> rn) \<and> disk s' (recipeFileDirName s @ rn) = Some contents"
  proof -
    from that obtain post' where p: "(\<exists>m\<in>set (bufferLink (backIn n' s')). recipeFileName m = rn \<and> bn_userID m = u \<and>
        recipeFileBuffer m = contents @ post' \<and> int (length (contents @ post')) \<le> RECIPE_BUFFER_SIZE) \<or>
      post' = [] \<and> (\<forall>m\<in>set (bufferLink (backIn n' s')). recipeFileName m \<noteq> rn) \<and> disk s' (recipeFileDirName s @ rn) = Some contents"
      by blast
    have c': "contents @ post' = pre @ putRecipeHead ?h @ concat (map putRecipeEntry es) @ (post @ post')"
      "int (length (contents @ post')) \<le> RECIPE_BUFFER_SIZE" using c(1,2) p by auto
    have "nameVal rn < nameVal (globalRecipeFileName s')" using c(4) st(5) by simp
    then show ?thesis unfolding recordAt_def backIn_frame key st(4) using v c' c(3) p by force
  qed
  show ?thesis using where_it_is
  proof
    assume "\<exists>m\<in>set (bufferLink (backIn n s)). recipeFileName m = rn \<and> bn_userID m = u \<and> recipeFileBuffer m = contents"
    then obtain m where m: "m \<in> set (bufferLink (backIn n s))" "recipeFileName m = rn" "bn_userID m = u" "recipeFileBuffer m = contents"
      by blast
    show ?thesis
    proof (cases "bn_addr m = bn_addr n")
      case False
      then have "m \<in> set (bufferLink (backIn n' s'))" using m(1) set' by simp
      then show ?thesis using m c(2) by (intro goal exI [of _ "[]"]) auto
    next
      case True
      have mn: "m = n" using True m(1) set_backIn [OF link(2)] by auto
      from how show ?thesis
      proof
        assume "recipeFileName n' = recipeFileName n \<and> (\<exists>x. recipeFileBuffer n' = recipeFileBuffer n @ x)"
        then obtain x where "recipeFileName n' = rn" "recipeFileBuffer n' = contents @ x" using m mn by auto
        then show ?thesis using m mn st(2,6) set' by (intro goal exI [of _ x]) auto
      next
        assume moved: "recipeFileName n' = globalRecipeFileName s \<and> disk s' (recipeFileDirName s @ recipeFileName n) = Some (recipeFileBuffer n)"
        have "recipeFileName m' \<noteq> rn" if "m' \<in> set (bufferLink (backIn n' s'))" for m'
          using that moved c(4) only [of m'] m(2) mn unfolding set' by auto
        then show ?thesis using moved m mn by (intro goal exI [of _ "[]"]) auto
      qed
    qed
  next
    assume d: "(\<forall>m\<in>set (bufferLink (backIn n s)). recipeFileName m \<noteq> rn) \<and> disk s (recipeFileDirName s @ rn) = Some contents"
    then have "recipeFileName n' \<noteq> rn" using how mem c(4) by auto
    then have "\<forall>m\<in>set (bufferLink (backIn n' s')). recipeFileName m \<noteq> rn" using d unfolding set' by auto
    moreover have "disk s' (recipeFileDirName s @ rn) = Some contents" using d mem st(7) [OF c(3)] by auto
    ultimately show ?thesis by (intro goal exI [of _ "[]"]) auto
  qed
qed

section \<open>Steps of an upload\<close>

text \<open>
  What a step of an upload keeps: the invariant, every share with its bytes, and every record of a file
  whose inode key is not in \<open>T\<close>, with its inode; it uses at most a container names and b recipe names.
\<close>

definition upStep ::
  "openssl \<Rightarrow> cryptoPrimitive \<Rightarrow> bytes set \<Rightarrow> nat \<Rightarrow> nat \<Rightarrow> bufferNode \<times> dedupCore \<Rightarrow> bufferNode \<times> dedupCore \<Rightarrow> bool" where
  "upStep ssl c T a b st st' \<longleftrightarrow>
     uploadInv ssl c (backIn (fst st') (snd st')) \<and> linked (fst st') (snd st') \<and>
     bn_addr (fst st') = bn_addr (fst st) \<and> bn_userID (fst st') = bn_userID (fst st) \<and>
     bufferLink (snd st') = bufferLink (snd st) \<and> tailBufferNode (snd st') = tailBufferNode (snd st) \<and>
     sent (snd st') = sent (snd st) \<and>
     grows (backIn (fst st) (snd st)) (backIn (fst st') (snd st')) \<and>
     nameVal (globalShareContainerName (snd st')) \<le> nameVal (globalShareContainerName (snd st)) + a \<and>
     nameVal (globalRecipeFileName (snd st')) \<le> nameVal (globalRecipeFileName (snd st)) + b \<and>
     keepsPlaces (snd st) (snd st') \<and>
     (\<forall>fp. inodeFP2IndexKey fp \<notin> T \<longrightarrow> db (snd st') (inodeFP2IndexKey fp) = db (snd st) (inodeFP2IndexKey fp)) \<and>
     (\<forall>w fp k sz es. inodeFP2IndexKey fp \<notin> T \<longrightarrow> recordAt (backIn (fst st) (snd st)) w fp k sz es \<longrightarrow>
        recordAt (backIn (fst st') (snd st')) w fp k sz es)"

lemma upStep_trans:
  "upStep ssl c T a b st st' \<Longrightarrow> upStep ssl c T' a' b' st' st'' \<Longrightarrow> upStep ssl c (T \<union> T') (a + a') (b + b') st st''"
  unfolding upStep_def by (elim conjE, intro conjI) (assumption | erule (1) grows_trans | erule (1) keepsPlaces_trans | linarith | simp)+

lemma upStep_mono: "upStep ssl c T a b st st' \<Longrightarrow> T \<subseteq> T' \<Longrightarrow> a \<le> a' \<Longrightarrow> b \<le> b' \<Longrightarrow> upStep ssl c T' a' b' st st'"
  unfolding upStep_def by (elim conjE, intro conjI) (assumption | linarith | blast)+

lemma upStep_refl: "uploadInv ssl c (backIn n s) \<Longrightarrow> linked n s \<Longrightarrow> upStep ssl c T a b (n, s) (n, s)"
  by (simp add: upStep_def)

lemma uploadInvD:
  assumes "uploadInv ssl c (backIn n s)" "linked n s"
  shows "storeInv ssl c (backIn n s)" "recipeLink (backIn n s)" "distinct (map bn_addr (bufferLink s))"
    "recipeNode s n" "recipeName (globalRecipeFileName s)"
proof -
  show inv: "storeInv ssl c (backIn n s)" "recipeLink (backIn n s)" using assms by (simp_all add: uploadInv_def)
  then show "distinct (map bn_addr (bufferLink s))" by (simp add: storeInv_def linkSound_def)
  show "recipeNode s n" "recipeName (globalRecipeFileName s)"
    using inv(2) linked_mem [OF assms(2)] by (auto simp: recipeLink_def recipeNode_def)
qed

text \<open>A step on the recipe side alone.\<close>

lemma upStep_recipe:
  assumes inv: "uploadInv ssl c (backIn n s)" "linked n s" and step: "nodeStep (n, s) (n', s')"
    and ck: "ckey n' = ckey n" "recipeOnly s s'" "tailBufferNode s' = tailBufferNode s" "sent s' = sent s"
    and keys: "\<And>fp. inodeFP2IndexKey fp \<notin> T \<Longrightarrow> db s' (inodeFP2IndexKey fp) = db s (inodeFP2IndexKey fp)"
    and names: "nameVal (globalRecipeFileName s') \<le> nameVal (globalRecipeFileName s) + b"
  shows "upStep ssl c T 0 b (n, s) (n', s')"
proof -
  note d = uploadInvD [OF inv]
  have ro: "recipeOnly (backIn n s) (backIn n' s')" by (rule recipeOnly_backIn [OF ck(1,2)])
  have st: "bn_addr n' = bn_addr n" "bn_userID n' = bn_userID n" "bufferLink s' = bufferLink s"
    using step by (simp_all add: nodeStep_def)
  have "uploadInv ssl c (backIn n' s')"
    using storeInv_recipeOnly [OF d(1) ro] nodeStep_link [OF step d(2) inv(2) d(3)] by (simp add: uploadInv_def)
  moreover have "linked n' s'" using inv(2) st by (simp add: linked_def)
  moreover have "keepsPlaces s s'"
    using ck(2) by (intro keepsPlaces_same) (simp add: recipeOnly_def)
  ultimately show ?thesis
    using st ck names keys recipeOnly_grows [OF ro] nodeStep_record [OF step d(2) inv(2) keys]
    by (simp add: upStep_def recipeOnly_def)
qed

lemma storeNewRecipeFile_shape:
  assumes nm: "recipeName (recipeFileName n)"
  shows "case storeNewRecipeFile E (n, s) of
      Done p st' \<Rightarrow> recipeFileBuffer n \<noteq> [] \<and>
        (\<exists>k. st' = (n\<lparr>recipeFileName := take 15 (globalRecipeFileName s), recipeFileBuffer := [], lastRecipeHeadPos := 0\<rparr>,
          s\<lparr>disk := (disk s)(recipeFileDirName s @ recipeFileName n \<mapsto> recipeFileBuffer n), tick := k,
            globalRecipeFileName := fst (incrGlobalFileName (globalRecipeFileName s) 12)\<rparr>))
    | Fails st' \<Rightarrow> \<exists>m k. st' = (n, s\<lparr>disk := m, tick := k\<rparr>) \<and> (\<forall>p. p \<noteq> recipeFileDirName s @ recipeFileName n \<longrightarrow> m p = disk s p)
    | Crash e \<Rightarrow> False"
proof -
  let ?path = "recipeFileDirName s @ recipeFileName n"
  let ?s1 = "tock (s\<lparr>disk := (disk s)(?path \<mapsto> [])\<rparr>)"
  have pre: "addPrefixDir (recipeFileDirName s) (recipeFileName n) = Some ?path" using recipeName_ok [OF nm] by blast
  show ?thesis
  proof (cases rule: fopenWb_cases [where E = E and path = ?path and s = s])
    case ok
    show ?thesis
    proof (cases rule: fwriteAt_cases [where E = E and path = ?path and pos = 0 and bs = "recipeFileBuffer n" and s = ?s1])
      case written: ok
      then show ?thesis using ok
        by (simp add: storeNewRecipeFile_def pre tock_def fileContents_def) blast
    next
      case (bad x)
      have "\<exists>m k. tock (?s1\<lparr>disk := (disk ?s1)(?path \<mapsto> x)\<rparr>) = s\<lparr>disk := m, tick := k\<rparr> \<and> (\<forall>p. p \<noteq> ?path \<longrightarrow> m p = disk s p)"
        by (intro exI [of _ "(disk s)(?path \<mapsto> x)"] exI [of _ "Suc (Suc (tick s))"]) (simp add: tock_def)
      then show ?thesis using ok bad by (simp add: storeNewRecipeFile_def pre)
    qed
  next
    case fault
    have "\<exists>m k. tock s = s\<lparr>disk := m, tick := k\<rparr> \<and> (\<forall>p. p \<noteq> ?path \<longrightarrow> m p = disk s p)"
      by (intro exI [of _ "disk s"] exI [of _ "Suc (tick s)"]) (simp add: tock_def)
    then show ?thesis using fault by (simp add: storeNewRecipeFile_def pre)
  qed
qed

lemma makeRecipeRoom_step:
  assumes inv: "uploadInv ssl c (backIn n s)" "linked n s" and new: "mdh_numOfPastSecrets h = 0"
    and more: "nameVal (globalRecipeFileName s) + 1 < 26 ^ 12"
  shows "case makeRecipeRoom E h (n, s) of
      Done x st' \<Rightarrow> upStep ssl c {} 0 1 (n, s) st' \<and> db (snd st') = db s
    | Fails st' \<Rightarrow> upStep ssl c {} 0 1 (n, s) st'
    | Crash e \<Rightarrow> True"
proof (cases "recipeFileBufferCurrLen n + recipeAddedLen h n > RECIPE_BUFFER_SIZE \<and>
    \<not> (lastRecipeHeadPos n = 0 \<and> length (recipeFileBuffer n) < 24)")
  case False
  then show ?thesis using upStep_refl [OF inv] by (auto simp: makeRecipeRoom_def)
next
  case True
  note d = uploadInvD [OF inv]
  note up = incrGlobalFileName_step [OF d(5) more]
  have node: "recipeName (recipeFileName n)" "recipeFileBufferCurrLen n \<le> RECIPE_BUFFER_SIZE" "headOk n"
    "nameVal (recipeFileName n) < nameVal (globalRecipeFileName s)"
    using d(4) by (simp_all add: recipeNode_def)
  let ?path = "recipeFileDirName s @ recipeFileName n"
  have last: "last ?path = 102" using recipeName_ok [OF node(1)] by auto
  have g15: "take 15 (globalRecipeFileName s) = globalRecipeFileName s" using d(5) by (simp add: validName_def)
  have run: "makeRecipeRoom E h (n, s) = bindO (storeNewRecipeFile E (n, s)) (\<lambda>_ st1. Done () st1)"
    using True new node(3) by (auto simp: makeRecipeRoom_def headOk_def)
  have p99: "m p = disk s p" if "\<forall>p. p \<noteq> ?path \<longrightarrow> m p = disk s p" "last p = 99" for m :: "bytes \<Rightarrow> bytes option" and p
  proof -
    have "p \<noteq> ?path" using that(2) last by auto
    then show ?thesis using that(1) by blast
  qed
  show ?thesis
  proof (cases "storeNewRecipeFile E (n, s)")
    case (Done p st')
    let ?n' = "n\<lparr>recipeFileName := globalRecipeFileName s, recipeFileBuffer := [], lastRecipeHeadPos := 0\<rparr>"
    obtain k where st': "st' = (?n', s\<lparr>disk := (disk s)(?path \<mapsto> recipeFileBuffer n), tick := k,
            globalRecipeFileName := fst (incrGlobalFileName (globalRecipeFileName s) 12)\<rparr>)"
      using storeNewRecipeFile_shape [OF node(1), where E = E and s = s] Done by (auto simp: g15)
    let ?s' = "s\<lparr>disk := (disk s)(?path \<mapsto> recipeFileBuffer n), tick := k,
            globalRecipeFileName := fst (incrGlobalFileName (globalRecipeFileName s) 12)\<rparr>"
    have "nodeStep (n, s) (?n', ?s')"
      using up by (simp add: nodeStep_def headOk_def RECIPE_BUFFER_SIZE_def)
    moreover have "recipeOnly s ?s'" using last by (auto simp: recipeOnly_def)
    ultimately have "upStep ssl c {} 0 1 (n, s) (?n', ?s')"
      using up by (intro upStep_recipe [OF inv]) (simp_all add: ckey_def)
    then show ?thesis using Done st' run by simp
  next
    case (Fails st')
    obtain m k where st': "st' = (n, s\<lparr>disk := m, tick := k\<rparr>)" "\<forall>p. p \<noteq> ?path \<longrightarrow> m p = disk s p"
      using storeNewRecipeFile_shape [OF node(1), where E = E and s = s] Fails by auto
    have "nodeStep (n, s) (n, s\<lparr>disk := m, tick := k\<rparr>)"
      using node d(5) st'(2) by (auto simp: nodeStep_def)
    moreover have "recipeOnly s (s\<lparr>disk := m, tick := k\<rparr>)" using p99 [OF st'(2)] by (auto simp: recipeOnly_def)
    ultimately have "upStep ssl c {} 0 1 (n, s) (n, s\<lparr>disk := m, tick := k\<rparr>)"
      by (intro upStep_recipe [OF inv]) simp_all
    then show ?thesis using Fails st' run by simp
  next
    case (Crash e)
    then show ?thesis using run by simp
  qed
qed

text \<open>The keys of the inode index that adding a file may write.\<close>

definition fileKeys :: "openssl \<Rightarrow> cryptoPrimitive \<Rightarrow> int \<Rightarrow> bytes \<Rightarrow> bytes set" where
  "fileKeys ssl c u full =
     {inodeFP2IndexKey fp | fp. fileName2InodeFP ssl c full u = Some fp} \<union> dirKeys ssl c u (dirNameOf full)"

lemma fileKeys_share [simp]: "shareFP2IndexKey fp \<notin> fileKeys ssl c u full"
  by (auto simp: fileKeys_def dirKeys_def)

lemma addFile_step:
  assumes inv: "uploadInv ssl c (backIn n s)" "linked n s"
  shows "case onCore n (addFileIntoInodeIndex E ssl c full u n s) of
      Done x st' \<Rightarrow> fst st' = n \<and> upStep ssl c (fileKeys ssl c u full) 0 0 (n, s) st'
    | Fails st' \<Rightarrow> upStep ssl c (fileKeys ssl c u full) 0 0 (n, s) st'
    | Crash e \<Rightarrow> True"
proof (cases "fileName2InodeFP ssl c full u")
  case (Some fp)
  note d = uploadInvD [OF inv]
  have keys: "insert (inodeFP2IndexKey fp) (dirKeys ssl c u (dirNameOf full)) = fileKeys ssl c u full"
    using Some by (auto simp: fileKeys_def)
  have go: "upStep ssl c (fileKeys ssl c u full) 0 0 (n, s) (n, s')" if "dbOnly (fileKeys ssl c u full) s s'" for s'
  proof -
    obtain m k where s': "s' = s\<lparr>db := m, tick := k\<rparr>" "\<And>key. key \<notin> fileKeys ssl c u full \<Longrightarrow> m key = db s key"
      using \<open>dbOnly _ s s'\<close> unfolding dbOnly_def by blast
    have "nodeStep (n, s) (n, s')" using d(4,5) by (simp add: nodeStep_def recipeNode_def s'(1))
    moreover have "recipeOnly s s'" using s'(2) by (simp add: recipeOnly_def s'(1))
    ultimately show ?thesis using s'(2) by (intro upStep_recipe [OF inv]) (simp_all add: s'(1))
  qed
  show ?thesis using addFileIntoInodeIndex_only [OF Some, where s = s and E = E and n = n] go unfolding keys
    by (cases "addFileIntoInodeIndex E ssl c full u n s") (simp_all add: onCore_def)
qed (simp add: addFileIntoInodeIndex_def onCore_def)

lemma headOk_append: "headOk n \<Longrightarrow> recipeFileBuffer n \<noteq> [] \<Longrightarrow> recipeFileBuffer n' = recipeFileBuffer n @ x \<Longrightarrow> headOk n'"
  by (auto simp: headOk_def)

lemma newRecipeHead_step:
  assumes inv: "uploadInv ssl c (backIn n s)" "linked n s"
    and h: "int32 u" "int64 (mdh_fileSize h)" "int32 (mdh_numOfComingSecrets h)" "0 \<le> mdh_numOfComingSecrets h"
  shows "case newRecipeHead ssl c u full h (n, s) of
      Done x st' \<Rightarrow> upStep ssl c {} 0 0 (n, s) st' \<and> snd st' = s \<and> recipeFileName (fst st') = recipeFileName n \<and>
        recipeFileBuffer (fst st') = recipeFileBuffer n @
          putRecipeHead \<lparr> frh_userID = u, frh_fileSize = mdh_fileSize h, frh_numOfShares = mdh_numOfComingSecrets h \<rparr> \<and>
        lastRecipeHeadPos (fst st') = recipeFileBufferCurrLen n
    | Fails st' \<Rightarrow> False
    | Crash e \<Rightarrow> True"
proof (cases "recipeFileBufferCurrLen n + 24 \<le> RECIPE_BUFFER_SIZE \<and> fileName2InodeFP ssl c full u \<noteq> None")
  case True
  then obtain fp where fp: "fileName2InodeFP ssl c full u = Some fp" by auto
  note d = uploadInvD [OF inv]
  let ?h = "\<lparr> frh_userID = u, frh_fileSize = mdh_fileSize h, frh_numOfShares = mdh_numOfComingSecrets h \<rparr>"
  let ?n' = "n\<lparr>recipeFileBuffer := recipeFileBuffer n @ putRecipeHead ?h, lastRecipeHeadPos := recipeFileBufferCurrLen n,
    lastInodeFP := Some fp\<rparr>"
  have okh: "okRecipeHead ?h" using h by (simp add: okRecipeHead_def)
  have len: "length (putRecipeHead ?h) = 24" by (rule recipeHead.length_put [OF okh])
  have run: "newRecipeHead ssl c u full h (n, s) = Done () (?n', s)" using True fp by (simp add: newRecipeHead_def)
  have "headOk ?n'"
  proof (cases "recipeFileBuffer n = []")
    case True
    then show ?thesis using len recipeHead.get_put [OF okh] h by (simp add: headOk_def)
  next
    case False
    then show ?thesis using d(4) by (intro headOk_append [of n ?n']) (simp_all add: recipeNode_def)
  qed
  then have "nodeStep (n, s) (?n', s)" using True len d(5) by (auto simp: nodeStep_def)
  then have "upStep ssl c {} 0 0 (n, s) (?n', s)" by (rule upStep_recipe [OF inv]) (simp_all add: ckey_def)
  then show ?thesis using run by simp
qed (auto simp: newRecipeHead_def safeO_def)

lemma entries_step:
  assumes inv: "uploadInv ssl c (backIn n s)" "linked n s"
    and step: "entriesStep ssl c k added (n, s) (n', s')" "added \<noteq> [] \<longrightarrow> recipeFileBufferCurrLen n' \<le> RECIPE_BUFFER_SIZE"
    and ne: "recipeFileBuffer n \<noteq> []"
  shows "upStep ssl c {} k 0 (n, s) (n', s')" "recipeFileName n' = recipeFileName n"
    "recipeFileBuffer n' = recipeFileBuffer n @ added" "lastRecipeHeadPos n' = lastRecipeHeadPos n"
    "\<forall>fp. db s' (inodeFP2IndexKey fp) = db s (inodeFP2IndexKey fp)"
proof -
  note d = uploadInvD [OF inv]
  have fr: "shareFrame (n, s) (n'\<lparr>recipeFileBuffer := recipeFileBuffer n\<rparr>, s')"
    using step(1) by (simp add: entriesStep_def shareStep_def)
  obtain nm buf where nm: "n'\<lparr>recipeFileBuffer := recipeFileBuffer n\<rparr> = n\<lparr>shareContainerName := nm, shareContainerBuffer := buf\<rparr>"
    using fr by (auto simp: shareFrame_def)
  have f: "bn_addr n' = bn_addr n" "bn_userID n' = bn_userID n" "recipeFileName n' = recipeFileName n"
    "lastRecipeHeadPos n' = lastRecipeHeadPos n" using nm by (cases n; cases n'; simp)+
  show "recipeFileName n' = recipeFileName n" "lastRecipeHeadPos n' = lastRecipeHeadPos n" by (rule f)+
  show buf: "recipeFileBuffer n' = recipeFileBuffer n @ added" using step(1) by (simp add: entriesStep_def)
  show keys: "\<forall>fp. db s' (inodeFP2IndexKey fp) = db s (inodeFP2IndexKey fp)" using fr by (simp add: shareFrame_def)
  have len: "recipeFileBufferCurrLen n' \<le> RECIPE_BUFFER_SIZE"
    using step(2) buf d(4) by (cases "added = []") (simp_all add: recipeNode_def)
  have hd: "headOk n'" using d(4) ne by (intro headOk_append [OF _ _ buf]) (auto simp: recipeNode_def)
  have "disk s' (recipeFileDirName s @ rn) = disk s (recipeFileDirName s @ rn)" if "recipeName rn" for rn
  proof -
    have "last (recipeFileDirName s @ rn) \<noteq> 99" using recipeName_ok [OF that] by auto
    then show ?thesis using fr by (simp add: shareFrame_def)
  qed
  then have ns: "nodeStep (n, s) (n', s')"
    using fr f buf len hd d(5) by (simp add: nodeStep_def shareFrame_def)
  note e = entriesStep_inv [OF step(1)]
  have "uploadInv ssl c (backIn n' s')"
    using e(1) nodeStep_link [OF ns d(2) inv(2) d(3)] by (simp add: uploadInv_def)
  then show "upStep ssl c {} k 0 (n, s) (n', s')"
    using e fr f nodeStep_record [OF ns d(2) inv(2)] keys
    by (simp add: upStep_def shareFrame_def)
qed

lemma finishFile_noop:
  assumes "mdh_numOfPastSecrets h = 0" "headOk n" "recipeFileBuffer n \<noteq> []"
  shows "finishFile E h (n, s) = Done () (n, s)"
  using assms by (auto simp: finishFile_def headOk_def)

section \<open>A complete file\<close>

text \<open>The body of the loop over the files, with the name already read.\<close>

definition oneFile ::
  "env \<Rightarrow> openssl \<Rightarrow> cryptoPrimitive \<Rightarrow> int \<Rightarrow> bytes \<Rightarrow> bool list \<Rightarrow> bytes \<Rightarrow> fileShareMDHead \<Rightarrow> bytes \<Rightarrow> int \<Rightarrow> int \<Rightarrow> nat \<Rightarrow>
   bufferNode \<times> dedupCore \<Rightarrow> (int \<times> int \<times> nat, bufferNode \<times> dedupCore) outcome" where
  "oneFile E ssl c u mdBuf dups dat h full off dataOff num st =
     bindO (makeRecipeRoom E h st) (\<lambda>_ st1.
     bindO (putFileRecipeHead E ssl c u full h st1) (\<lambda>_ st2.
     bindO (secondStageEntries E ssl c u mdBuf dups dat (nat (mdh_numOfComingSecrets h)) off dataOff num st2) (\<lambda>r st3.
     bindO (finishFile E h st3) (\<lambda>_ st4. Done r st4))))"

text \<open>A file that comes whole in one package and whose shares are not empty.\<close>

fun completeFile :: "md_file \<Rightarrow> bool" where
  "completeFile (h, name, es) \<longleftrightarrow> mdh_numOfPastSecrets h = 0 \<and> (\<forall>e\<in>set es. mde_shareSize e \<noteq> 0)"

lemma entries_read:
  assumes "\<forall>e\<in>set es. okMDEntry e" "mdBuf = pre @ concat (map putMDEntry es) @ post" "j < length es"
  shows "structAt 44 getMDEntry mdBuf (int (length pre) + 44 * int j) = Some (es ! j)"
  using mdEntry.entry_at [OF assms(1,3), of pre post] assms(2) by simp

lemma putFileRecipeHead_new:
  "mdh_numOfPastSecrets h = 0 \<Longrightarrow> putFileRecipeHead E ssl c u full h (n, s) =
     bindO (onCore n (addFileIntoInodeIndex E ssl c full u n s)) (\<lambda>_ st1. newRecipeHead ssl c u full h st1)"
  by (simp add: putFileRecipeHead_def)

lemma upStep_inv: "upStep ssl c T a b st (n', s') \<Longrightarrow> uploadInv ssl c (backIn n' s') \<and> linked n' s'"
  by (simp add: upStep_def)

lemma outcome_cases3:
  obtains (Done) x n s where "r = Done x (n, s)" | (Fails) n s where "r = Fails (n, s)" | (Crash) e where "r = Crash e"
  by (cases r) auto

lemma outcome_case_mono:
  assumes "case r of Done x st \<Rightarrow> P st | Fails st \<Rightarrow> P' st | Crash e \<Rightarrow> True"
    and "\<And>st. P st \<Longrightarrow> Q st" "\<And>st. P' st \<Longrightarrow> Q' st"
  shows "case r of Done x st \<Rightarrow> Q st | Fails st \<Rightarrow> Q' st | Crash e \<Rightarrow> True"
  using assms by (cases r) simp_all

lemma oneFile_step:
  assumes inv: "uploadInv ssl c (backIn n s)" "linked n s" and u: "int32 u" "0 < u"
    and whole: "okFile (h, name, es)" "completeFile (h, name, es)"
    and buf: "mdBuf = pre @ concat (map putMDEntry es) @ post" "off = int (length pre)"
    and names: "nameVal (globalShareContainerName s) + length es < 26 ^ 12" "nameVal (globalRecipeFileName s) + 1 < 26 ^ 12"
  shows "case oneFile E ssl c u mdBuf dups dat h full off dataOff num (n, s) of
      Done r st' \<Rightarrow> upStep ssl c (fileKeys ssl c u full) (length es) 1 (n, s) st' \<and>
        fst r = off + 44 * int (length es) \<and> snd (snd r) = num + length es \<and>
        (faultless E \<longrightarrow> (\<forall>j<length es. \<not> dups ! (num + j) \<longrightarrow> db (snd st') (shareFP2IndexKey (mde_shareFP (es ! j))) \<noteq> None))
    | Fails st' \<Rightarrow> upStep ssl c (fileKeys ssl c u full) (length es) 1 (n, s) st'
    | Crash e \<Rightarrow> True"
proof -
  let ?T = "fileKeys ssl c u full"
  have h: "mdh_numOfPastSecrets h = 0" "mdh_numOfComingSecrets h = int (length es)" "\<forall>e\<in>set es. okMDEntry e"
    "int64 (mdh_fileSize h)" "int32 (mdh_numOfComingSecrets h)" "\<forall>e\<in>set es. mde_shareSize e \<noteq> 0"
    using whole by (auto simp: okMDHead_def)
  have weaken: "upStep ssl c ?T (length es) 1 (n, s) st'" if "upStep ssl c T a b (n, s) st'" "T \<subseteq> ?T" "a \<le> length es" "b \<le> 1" for T a b st'
    by (rule upStep_mono [OF that])
  note room = makeRecipeRoom_step [OF inv h(1) names(2), where E = E]
  show ?thesis
  proof (cases rule: outcome_cases3 [where r = "makeRecipeRoom E h (n, s)"])
    case (Done x n1 s1)
    have s1: "upStep ssl c {} 0 1 (n, s) (n1, s1)" using room Done by simp
    note i1 = upStep_inv [OF s1]
    note add = addFile_step [OF i1 [THEN conjunct1] i1 [THEN conjunct2], where E = E and full = full and u = u]
    show ?thesis
    proof (cases rule: outcome_cases3 [where r = "onCore n1 (addFileIntoInodeIndex E ssl c full u n1 s1)"])
      case added: (Done x2 n2 s2)
      have s2: "n2 = n1" "upStep ssl c ?T 0 0 (n1, s1) (n1, s2)" using add added by auto
      note s12 = upStep_trans [OF s1 s2(2)]
      note i2 = upStep_inv [OF s12]
      note head = newRecipeHead_step [OF i2 [THEN conjunct1] i2 [THEN conjunct2] u(1) h(4,5), where full = full]
      show ?thesis
      proof (cases rule: outcome_cases3 [where r = "newRecipeHead ssl c u full h (n1, s2)"])
        case headed: (Done x3 n3 s3)
        have s3: "upStep ssl c {} 0 0 (n1, s2) (n3, s2)" "s3 = s2" "recipeFileBuffer n3 \<noteq> []"
          using head headed h(2) by (auto simp: putRecipeHead_def dest: arg_cong [where f = length])
        note s13 = upStep_trans [OF s12 s3(1)]
        note i3 = upStep_inv [OF s13]
        have sc: "nameVal (globalShareContainerName s2) + length es < 26 ^ 12"
          using s13 names(1) by (simp add: upStep_def)
        have pos: "\<forall>j<length es. \<forall>e. structAt 44 getMDEntry mdBuf (off + 44 * int j) = Some e \<longrightarrow> mde_shareSize e \<noteq> 0"
          using entries_read [OF h(3) buf(1)] h(6) buf(2) by auto
        have st3: "storeInv ssl c (backIn n3 s2)" using i3 by (simp add: uploadInv_def)
        note ent = secondStageEntries_inv [OF st3 i3 [THEN conjunct2] u sc pos, where E = E and dups = dups and dat = dat
            and dataOff = dataOff and num = num]
        have run: "oneFile E ssl c u mdBuf dups dat h full off dataOff num (n, s) =
            bindO (secondStageEntries E ssl c u mdBuf dups dat (length es) off dataOff num (n3, s2)) (\<lambda>r st3.
            bindO (finishFile E h st3) (\<lambda>_ st4. Done r st4))"
          using Done added headed s2(1) s3(2) h(1,2) by (simp add: oneFile_def putFileRecipeHead_new)
        show ?thesis
        proof (cases rule: outcome_cases3 [where r = "secondStageEntries E ssl c u mdBuf dups dat (length es) off dataOff num (n3, s2)"])
          case entered: (Done r n4 s4)
          obtain fs where fs: "length fs = length es" "\<forall>j<length es. structAt 44 getMDEntry mdBuf (off + 44 * int j) = Some (fs ! j)"
            and step: "entriesStep ssl c (length es) (concat (map (putRecipeEntry \<circ> recipeOf) fs)) (n3, s2) (n4, s4)"
              "fs \<noteq> [] \<longrightarrow> recipeFileBufferCurrLen n4 \<le> RECIPE_BUFFER_SIZE"
            and put: "faultless E \<longrightarrow> (\<forall>j<length es. \<not> dups ! (num + j) \<longrightarrow> db s4 (shareFP2IndexKey (mde_shareFP (fs ! j))) \<noteq> None)"
            and r: "fst r = off + 44 * int (length es)" "snd (snd r) = num + length es"
            using ent entered by auto
          have "fs = es" using fs entries_read [OF h(3) buf(1)] buf(2) by (auto intro: nth_equalityI)
          have cut: "concat (map (putRecipeEntry \<circ> recipeOf) fs) \<noteq> [] \<longrightarrow> recipeFileBufferCurrLen n4 \<le> RECIPE_BUFFER_SIZE"
            using step(2) by auto
          note e4 = entries_step [OF i3 [THEN conjunct1] i3 [THEN conjunct2] step(1) cut s3(3)]
          note s14 = upStep_trans [OF s13 e4(1)]
          have "headOk n4" using uploadInvD(4) [of ssl c n4 s4] upStep_inv [OF s14] by (simp add: recipeNode_def)
          moreover have "recipeFileBuffer n4 \<noteq> []" using e4(3) s3(3) by simp
          ultimately have "oneFile E ssl c u mdBuf dups dat h full off dataOff num (n, s) = Done r (n4, s4)"
            using run entered finishFile_noop [OF h(1)] by simp
          then show ?thesis using weaken [OF s14] r put \<open>fs = es\<close> by simp
        next
          case failed: (Fails n4 s4)
          obtain a where a: "entriesStep ssl c (length es) a (n3, s2) (n4, s4)"
            "a \<noteq> [] \<longrightarrow> recipeFileBufferCurrLen n4 \<le> RECIPE_BUFFER_SIZE" using ent failed by auto
          note e4 = entries_step [OF i3 [THEN conjunct1] i3 [THEN conjunct2] a s3(3)]
          then show ?thesis using weaken [OF upStep_trans [OF s13 e4(1)]] run failed by simp
        next
          case (Crash e)
          then show ?thesis using run by simp
        qed
      next
        case (Fails n3 s3)
        then show ?thesis using head h(2) by simp
      next
        case (Crash e)
        then show ?thesis using Done added s2(1) h(1) by (simp add: oneFile_def putFileRecipeHead_new)
      qed
    next
      case (Fails n2 s2)
      have "upStep ssl c ?T 0 0 (n1, s1) (n2, s2)" using add Fails by simp
      then show ?thesis using weaken [OF upStep_trans [OF s1]] Done Fails h(1) by (simp add: oneFile_def putFileRecipeHead_new)
    next
      case (Crash e)
      then show ?thesis using Done h(1) by (simp add: oneFile_def putFileRecipeHead_new)
    qed
  next
    case (Fails n1 s1)
    then show ?thesis using room weaken [of "{}" 0 1] by (simp add: oneFile_def)
  next
    case (Crash e)
    then show ?thesis by (simp add: oneFile_def)
  qed
qed

text \<open>With no fault, the file is recorded as its newest version.\<close>

lemma oneFile_record:
  assumes inv: "uploadInv ssl c (backIn n s)" "linked n s" and u: "int32 u" "0 < u" "bn_userID n = u"
    and whole: "okFile (h, name, es)" "completeFile (h, name, es)"
    and buf: "mdBuf = pre @ concat (map putMDEntry es) @ post" "off = int (length pre)"
    and names: "nameVal (globalShareContainerName s) + length es < 26 ^ 12" "nameVal (globalRecipeFileName s) + 1 < 26 ^ 12"
    and E: "faultless E" and fp: "fileName2InodeFP ssl c full u = Some fp"
    and apart: "\<forall>d\<in>set (dirChain (dirNameOf full)). fileName2InodeFP ssl c d u \<noteq> Some fp"
    and short: "int32 (int (length (shortNameOf full)) + 1)"
    and old: "\<And>v h. db s (inodeFP2IndexKey fp) = Some v \<Longrightarrow> structAt 16 getInodeHead v 0 = Some h \<Longrightarrow>
      0 \<le> inh_numOfChildren h \<and> inh_numOfChildren h < 2147483647"
    and run: "oneFile E ssl c u mdBuf dups dat h full off dataOff num (n, s) = Done r (n', s')"
  shows "recordAt (backIn n' s') u fp 0 (mdh_fileSize h) (map recipeOf es)"
proof -
  have h: "mdh_numOfPastSecrets h = 0" "mdh_numOfComingSecrets h = int (length es)" "\<forall>e\<in>set es. okMDEntry e"
    "int64 (mdh_fileSize h)" "int32 (mdh_numOfComingSecrets h)" "\<forall>e\<in>set es. mde_shareSize e \<noteq> 0"
    using whole by (auto simp: okMDHead_def)
  obtain x1 n1 s1 where r1: "makeRecipeRoom E h (n, s) = Done x1 (n1, s1)"
    using run by (cases rule: outcome_cases3 [where r = "makeRecipeRoom E h (n, s)"]) (simp_all add: oneFile_def)
  have s1: "upStep ssl c {} 0 1 (n, s) (n1, s1)" "db s1 = db s"
    using makeRecipeRoom_step [OF inv h(1) names(2), where E = E] r1 by simp_all
  note i1 = upStep_inv [OF s1(1)]
  note d1 = uploadInvD [OF i1 [THEN conjunct1] i1 [THEN conjunct2]]
  obtain x2 s2 where r2: "addFileIntoInodeIndex E ssl c full u n1 s1 = Done x2 s2"
    using run r1 h(1) by (cases "addFileIntoInodeIndex E ssl c full u n1 s1") (simp_all add: oneFile_def putFileRecipeHead_new onCore_def)
  have s2: "upStep ssl c (fileKeys ssl c u full) 0 0 (n1, s1) (n1, s2)"
    using addFile_step [OF i1 [THEN conjunct1] i1 [THEN conjunct2], where E = E and full = full and u = u] r2 by (simp add: onCore_def)
  note s12 = upStep_trans [OF s1(1) s2]
  note i2 = upStep_inv [OF s12]
  have n1: "okName (recipeFileName n1)" "int32 (recipeFileBufferCurrLen n1)" "recipeName (recipeFileName n1)"
    using d1(4) recipeName_ok by (auto simp: recipeNode_def RECIPE_BUFFER_SIZE_def int32_def)
  have "\<exists>v ih. db s2 (inodeFP2IndexKey fp) = Some v \<and>
       newestVersion v ih \<lparr> ife_recipeFileName = recipeFileName n1, ife_recipeFileOffset = recipeFileBufferCurrLen n1 \<rparr>"
    using addFileIntoInodeIndex_run [OF r2 E fp apart n1(1,2) u(1) short] old by (simp add: s1(2))
  then obtain v where v: "db s2 (inodeFP2IndexKey fp) = Some v"
      "versionAt v 0 \<lparr> ife_recipeFileName = recipeFileName n1, ife_recipeFileOffset = recipeFileBufferCurrLen n1 \<rparr>"
    by (auto simp: newestVersion_def versionAt_def)
  obtain x3 n3 s3 where r3: "newRecipeHead ssl c u full h (n1, s2) = Done x3 (n3, s3)"
    using run r1 r2 h(1)
    by (cases rule: outcome_cases3 [where r = "newRecipeHead ssl c u full h (n1, s2)"]) (simp_all add: oneFile_def putFileRecipeHead_new onCore_def)
  let ?h = "\<lparr> frh_userID = u, frh_fileSize = mdh_fileSize h, frh_numOfShares = int (length es) \<rparr>"
  have s3: "upStep ssl c {} 0 0 (n1, s2) (n3, s2)" "s3 = s2" "recipeFileName n3 = recipeFileName n1"
    "recipeFileBuffer n3 = recipeFileBuffer n1 @ putRecipeHead ?h"
    using newRecipeHead_step [OF i2 [THEN conjunct1] i2 [THEN conjunct2] u(1) h(4,5), where full = full] r3 h(2) by auto
  have ne: "recipeFileBuffer n3 \<noteq> []" using s3(4) by (auto simp: putRecipeHead_def dest: arg_cong [where f = length])
  note s13 = upStep_trans [OF s12 s3(1)]
  note i3 = upStep_inv [OF s13]
  have sc: "nameVal (globalShareContainerName s2) + length es < 26 ^ 12" using s13 names(1) by (simp add: upStep_def)
  have pos: "\<forall>j<length es. \<forall>e. structAt 44 getMDEntry mdBuf (off + 44 * int j) = Some e \<longrightarrow> mde_shareSize e \<noteq> 0"
    using entries_read [OF h(3) buf(1)] h(6) buf(2) by auto
  note ent = secondStageEntries_inv [OF uploadInvD(1) [OF i3 [THEN conjunct1] i3 [THEN conjunct2]] i3 [THEN conjunct2] u(1,2) sc pos,
      where E = E and dups = dups and dat = dat and dataOff = dataOff and num = num]
  have rest: "bindO (secondStageEntries E ssl c u mdBuf dups dat (length es) off dataOff num (n3, s2)) (\<lambda>r st3.
      bindO (finishFile E h st3) (\<lambda>_ st4. Done r st4)) = Done r (n', s')"
    using run r1 r2 r3 s3(2) h(1,2) by (simp add: oneFile_def putFileRecipeHead_new onCore_def)
  obtain r4 n4 s4 where r4: "secondStageEntries E ssl c u mdBuf dups dat (length es) off dataOff num (n3, s2) = Done r4 (n4, s4)"
    using rest by (cases rule: outcome_cases3 [where r = "secondStageEntries E ssl c u mdBuf dups dat (length es) off dataOff num (n3, s2)"]) simp_all
  obtain fs where fs: "length fs = length es" "\<forall>j<length es. structAt 44 getMDEntry mdBuf (off + 44 * int j) = Some (fs ! j)"
    and step: "entriesStep ssl c (length es) (concat (map (putRecipeEntry \<circ> recipeOf) fs)) (n3, s2) (n4, s4)"
      "fs \<noteq> [] \<longrightarrow> recipeFileBufferCurrLen n4 \<le> RECIPE_BUFFER_SIZE"
    using ent r4 by auto
  have "fs = es" using fs entries_read [OF h(3) buf(1)] buf(2) by (auto intro: nth_equalityI)
  have cut: "concat (map (putRecipeEntry \<circ> recipeOf) es) \<noteq> [] \<longrightarrow> recipeFileBufferCurrLen n4 \<le> RECIPE_BUFFER_SIZE"
    using step(2) \<open>fs = es\<close> by auto
  note e4 = entries_step [OF i3 [THEN conjunct1] i3 [THEN conjunct2] step(1) [unfolded \<open>fs = es\<close>] cut ne]
  note s14 = upStep_trans [OF s13 e4(1)]
  note i4 = upStep_inv [OF s14]
  note d4 = uploadInvD [OF i4 [THEN conjunct1] i4 [THEN conjunct2]]
  have "finishFile E h (n4, s4) = Done () (n4, s4)"
    using d4(4) e4(3) ne by (intro finishFile_noop [OF h(1)]) (auto simp: recipeNode_def)
  then have fin: "n' = n4" "s' = s4" using rest r4 by auto
  have mem: "n4 \<in> set (bufferLink (backIn n4 s4))" using i4 by (auto intro: linked_mem)
  have uid: "bn_userID n4 = u" using s14 u(3) by (simp add: upStep_def)
  show "recordAt (backIn n' s') u fp 0 (mdh_fileSize h) (map recipeOf es)"
    unfolding recordAt_def fin
  proof (intro exI conjI)
    show "db (backIn n4 s4) (inodeFP2IndexKey fp) = Some v" using v(1) e4(5) by simp
    show "versionAt v 0 \<lparr> ife_recipeFileName = recipeFileName n1, ife_recipeFileOffset = int (length (recipeFileBuffer n1)) \<rparr>"
      using v(2) by simp
    show "recipeFileBuffer n4 = recipeFileBuffer n1 @ putRecipeHead \<lparr> frh_userID = u, frh_fileSize = mdh_fileSize h,
        frh_numOfShares = int (length (map recipeOf es)) \<rparr> @ concat (map putRecipeEntry (map recipeOf es)) @ []"
      using e4(3) s3(4) by (simp add: comp_def)
    show "int (length (recipeFileBuffer n4)) \<le> RECIPE_BUFFER_SIZE" using d4(4) by (simp add: recipeNode_def)
    show "recipeName (recipeFileName n1)" by (rule n1(3))
    show "nameVal (recipeFileName n1) < nameVal (globalRecipeFileName (backIn n4 s4))"
      using d4(4) e4(2) s3(3) by (simp add: recipeNode_def)
    show "(\<exists>m\<in>set (bufferLink (backIn n4 s4)). recipeFileName m = recipeFileName n1 \<and> bn_userID m = u \<and> recipeFileBuffer m = recipeFileBuffer n4) \<or>
       (\<forall>m\<in>set (bufferLink (backIn n4 s4)). recipeFileName m \<noteq> recipeFileName n1) \<and>
        disk (backIn n4 s4) (recipeFileDirName (backIn n4 s4) @ recipeFileName n1) = Some (recipeFileBuffer n4)"
      using mem uid e4(2) s3(3) by auto
  qed
qed

section \<open>A package of complete files\<close>

fun keysOf :: "openssl \<Rightarrow> cryptoPrimitive \<Rightarrow> int \<Rightarrow> md_file \<Rightarrow> bytes set" where
  "keysOf ssl c u (h, name, es) =
     (case formatFullFileName name of None \<Rightarrow> {} | Some full \<Rightarrow> fileKeys ssl c u full)"

definition packageKeys :: "openssl \<Rightarrow> cryptoPrimitive \<Rightarrow> int \<Rightarrow> md_file list \<Rightarrow> bytes set" where
  "packageKeys ssl c u files = (\<Union>f\<in>set files. keysOf ssl c u f)"

lemma packageKeys_simps [simp]:
  "packageKeys ssl c u [] = {}" "packageKeys ssl c u (f # files) = keysOf ssl c u f \<union> packageKeys ssl c u files"
  by (auto simp: packageKeys_def)

lemma secondStageLoop_file:
  assumes f: "okFile (h, name, es)" and buf: "mdBuf = pre @ packFile (h, name, es) @ post" and off: "off = int (length pre)"
    and size: "off < mdSize"
  shows "secondStageLoop E ssl c u mdBuf mdSize dups dat off dataOff num st =
      (case formatFullFileName name of
         None \<Rightarrow> Fails st
       | Some full \<Rightarrow>
           (case oneFile E ssl c u mdBuf dups dat h full (off + 48 + int (length name)) dataOff num st of
              Crash e \<Rightarrow> Crash e
            | Fails st5 \<Rightarrow> Fails st5
            | Done (off1, dataOff1, num1) st5 \<Rightarrow> secondStageLoop E ssl c u mdBuf mdSize dups dat off1 dataOff1 num1 st5))"
proof -
  have ok: "okMDHead h" "mdh_fullNameSize h = int (length name)" using f by simp_all
  have len: "length (putMDHead h) = 48" by (rule mdHead.length_put [OF ok(1)])
  have head: "structAt 48 getMDHead mdBuf off = Some h"
    using mdHead.at_middle [OF ok(1) off, of "name @ concat (map putMDEntry es) @ post"] buf by simp
  have "slice (nat (off + 48)) (nat (int (length name))) mdBuf = name"
    unfolding buf off by (simp add: slice_def len nat_add_distrib)
  moreover have "\<not> int (length mdBuf) < off + 48 + int (length name)" unfolding buf off by (simp add: len)
  ultimately show ?thesis
    by (subst secondStageLoop.simps) (simp add: size head ok(2) oneFile_def split: option.split)
qed

lemma packFile_at:
  assumes "okFile (h, name, es)" "off = int (length pre)"
  shows "pre @ packFile (h, name, es) @ post = (pre @ putMDHead h @ name) @ concat (map putMDEntry es) @ post"
    "off + 48 + int (length name) = int (length (pre @ putMDHead h @ name))"
    "off + 48 + int (length name) + 44 * int (length es) = int (length (pre @ packFile (h, name, es)))"
    "0 < length (packFile (h, name, es))"
  using assms mdHead.length_put [of h] mdEntry.length_table [of es] by simp_all

lemma secondStageLoop_files:
  assumes "\<forall>f\<in>set files. okFile f \<and> completeFile f" "int32 u" "0 < u"
    and "uploadInv ssl c (backIn n s)" "linked n s"
    and "off = int (length pre)" "mdSize = off + int (length (packageOf files))"
    and "nameVal (globalShareContainerName s) + length (entriesOf files) < 26 ^ 12"
      "nameVal (globalRecipeFileName s) + length files < 26 ^ 12"
  shows "case secondStageLoop E ssl c u (pre @ packageOf files @ post) mdSize dups dat off dataOff num (n, s) of
      Done x st' \<Rightarrow> upStep ssl c (packageKeys ssl c u files) (length (entriesOf files)) (length files) (n, s) st'
    | Fails st' \<Rightarrow> upStep ssl c (packageKeys ssl c u files) (length (entriesOf files)) (length files) (n, s) st'
    | Crash e \<Rightarrow> True"
  using assms
proof (induction files arbitrary: pre off dataOff num n s)
  case Nil
  then show ?case by (subst secondStageLoop.simps) (simp add: packageOf_def upStep_refl)
next
  case (Cons f files)
  obtain h name es where f: "f = (h, name, es)" by (cases f)
  have ok: "okFile (h, name, es)" "completeFile (h, name, es)" using Cons.prems(1) f by simp_all
  note inv = Cons.prems(4,5)
  let ?buf = "pre @ packageOf (f # files) @ post" and ?K = "packageKeys ssl c u (f # files)"
  let ?a = "length (entriesOf (f # files))" and ?b = "length (f # files)"
  have buf: "?buf = pre @ packFile (h, name, es) @ (packageOf files @ post)" by (simp add: packageOf_def f)
  note at = packFile_at [OF ok(1) Cons.prems(6)]
  have size: "off < mdSize" using Cons.prems(7) at(4) by (simp add: packageOf_def f del: packFile.simps length_greater_0_conv)
  note loop = secondStageLoop_file [OF ok(1) buf Cons.prems(6) size]
  show ?case
  proof (cases "formatFullFileName name")
    case None
    then show ?thesis using upStep_refl [OF inv] by (simp add: loop)
  next
    case (Some full)
    have keys: "keysOf ssl c u f = fileKeys ssl c u full" using Some f by simp
    have nm: "nameVal (globalShareContainerName s) + length es < 26 ^ 12" "nameVal (globalRecipeFileName s) + 1 < 26 ^ 12"
      using Cons.prems(8,9) f by simp_all
    note one = oneFile_step [OF inv Cons.prems(2,3) ok buf [unfolded at(1)] at(2) nm,
        where E = E and dups = dups and dat = dat and full = full and dataOff = dataOff and num = num]
    show ?thesis
    proof (cases rule: outcome_cases3 [where r = "oneFile E ssl c u ?buf dups dat h full (off + 48 + int (length name)) dataOff num (n, s)"])
      case (Done r n1 s1)
      obtain off1 dataOff1 num1 where r: "r = (off1, dataOff1, num1)" by (cases r)
      have s1: "upStep ssl c (fileKeys ssl c u full) (length es) 1 (n, s) (n1, s1)" "off1 = int (length (pre @ packFile (h, name, es)))"
        using one Done r at(3) by simp_all
      note i1 = upStep_inv [OF s1(1)]
      have nm1: "nameVal (globalShareContainerName s1) + length (entriesOf files) < 26 ^ 12"
        "nameVal (globalRecipeFileName s1) + length files < 26 ^ 12"
        using s1(1) Cons.prems(8,9) f by (simp_all add: upStep_def)
      have size1: "mdSize = off1 + int (length (packageOf files))"
        using Cons.prems(6,7) s1(2) f by (simp add: packageOf_def)
      have all: "\<forall>f\<in>set files. okFile f \<and> completeFile f" using Cons.prems(1) by simp
      note IH = Cons.IH [OF all Cons.prems(2,3) i1 [THEN conjunct1] i1 [THEN conjunct2] s1(2) size1 nm1,
          where dataOff = dataOff1 and num = num1]
      have buf1: "(pre @ packFile (h, name, es)) @ packageOf files @ post = ?buf" using buf by simp
      have go: "upStep ssl c ?K ?a ?b (n, s) st'"
        if "upStep ssl c (packageKeys ssl c u files) (length (entriesOf files)) (length files) (n1, s1) st'" for st'
        using upStep_trans [OF s1(1) that] keys f by simp
      have eq: "secondStageLoop E ssl c u ?buf mdSize dups dat off dataOff num (n, s) =
          secondStageLoop E ssl c u ?buf mdSize dups dat off1 dataOff1 num1 (n1, s1)"
        using Some Done r by (simp add: loop)
      show ?thesis unfolding eq
        by (rule outcome_case_mono [OF IH [unfolded buf1] go go])
    next
      case (Fails n1 s1)
      then have "upStep ssl c (fileKeys ssl c u full) (length es) 1 (n, s) (n1, s1)" using one by simp
      then have "upStep ssl c ?K ?a ?b (n, s) (n1, s1)" by (rule upStep_mono) (use keys f in auto)
      then show ?thesis using Some Fails by (simp add: loop)
    next
      case (Crash e)
      then show ?thesis using Some by (simp add: loop)
    qed
  qed
qed

text \<open>
  A file of the package that has its own inode: no other file of the package writes its key, no directory
  of its path has it, and an inode that is already there can take one more version.
\<close>

fun ownInode :: "openssl \<Rightarrow> cryptoPrimitive \<Rightarrow> int \<Rightarrow> dedupCore \<Rightarrow> bytes \<Rightarrow> md_file \<Rightarrow> bool" where
  "ownInode ssl c u s fp (h, name, es) \<longleftrightarrow>
     (\<exists>full. formatFullFileName name = Some full \<and> fileName2InodeFP ssl c full u = Some fp \<and>
        (\<forall>d\<in>set (dirChain (dirNameOf full)). fileName2InodeFP ssl c d u \<noteq> Some fp) \<and>
        int32 (int (length (shortNameOf full)) + 1)) \<and>
     (\<forall>v ih. db s (inodeFP2IndexKey fp) = Some v \<longrightarrow> structAt 16 getInodeHead v 0 = Some ih \<longrightarrow>
        0 \<le> inh_numOfChildren ih \<and> inh_numOfChildren ih < 2147483647)"

lemma secondStageLoop_records:
  assumes "\<forall>f\<in>set files. okFile f \<and> completeFile f" "int32 u" "0 < u"
    and "uploadInv ssl c (backIn n s)" "linked n s"
    and "off = int (length pre)" "mdSize = off + int (length (packageOf files))"
    and "nameVal (globalShareContainerName s) + length (entriesOf files) < 26 ^ 12"
      "nameVal (globalRecipeFileName s) + length files < 26 ^ 12"
    and "faultless E" "bn_userID n = u"
    and "secondStageLoop E ssl c u (pre @ packageOf files @ post) mdSize dups dat off dataOff num (n, s) = Done x (n', s')"
  shows "(\<forall>fs h name es gs fp. files = fs @ (h, name, es) # gs \<longrightarrow> ownInode ssl c u s fp (h, name, es) \<longrightarrow>
       inodeFP2IndexKey fp \<notin> packageKeys ssl c u (fs @ gs) \<longrightarrow>
       recordAt (backIn n' s') u fp 0 (mdh_fileSize h) (map recipeOf es)) \<and>
     (\<forall>j<length (entriesOf files). \<not> dups ! (num + j) \<longrightarrow>
        db s' (shareFP2IndexKey (mde_shareFP (entriesOf files ! j))) \<noteq> None)"
  using assms
proof (induction files arbitrary: pre off dataOff num n s)
  case Nil
  then show ?case by simp
next
  case (Cons f files)
  obtain h name es where f: "f = (h, name, es)" by (cases f)
  have ok: "okFile (h, name, es)" "completeFile (h, name, es)" using Cons.prems(1) f by simp_all
  note inv = Cons.prems(4,5) and run = Cons.prems(12)
  let ?buf = "pre @ packageOf (f # files) @ post"
  have buf: "?buf = pre @ packFile (h, name, es) @ (packageOf files @ post)" by (simp add: packageOf_def f)
  note at = packFile_at [OF ok(1) Cons.prems(6)]
  have size: "off < mdSize" using Cons.prems(7) at(4) by (simp add: packageOf_def f del: packFile.simps length_greater_0_conv)
  note loop = secondStageLoop_file [OF ok(1) buf Cons.prems(6) size]
  obtain full where full: "formatFullFileName name = Some full" using run by (cases "formatFullFileName name") (simp_all add: loop)
  have nm: "nameVal (globalShareContainerName s) + length es < 26 ^ 12" "nameVal (globalRecipeFileName s) + 1 < 26 ^ 12"
    using Cons.prems(8,9) f by simp_all
  let ?one = "oneFile E ssl c u ?buf dups dat h full (off + 48 + int (length name)) dataOff num (n, s)"
  obtain off1 dataOff1 num1 n1 s1 where one: "?one = Done (off1, dataOff1, num1) (n1, s1)"
    using run full by (cases rule: outcome_cases3 [where r = ?one]) (auto simp: loop)
  have s1: "upStep ssl c (fileKeys ssl c u full) (length es) 1 (n, s) (n1, s1)" "off1 = int (length (pre @ packFile (h, name, es)))"
    "num1 = num + length es"
    and put: "\<forall>j<length es. \<not> dups ! (num + j) \<longrightarrow> db s1 (shareFP2IndexKey (mde_shareFP (es ! j))) \<noteq> None"
    using oneFile_step [OF inv Cons.prems(2,3) ok buf [unfolded at(1)] at(2) nm,
        where E = E and dups = dups and dat = dat and full = full and dataOff = dataOff and num = num] one at(3) Cons.prems(10) by simp_all
  note i1 = upStep_inv [OF s1(1)]
  have nm1: "nameVal (globalShareContainerName s1) + length (entriesOf files) < 26 ^ 12"
    "nameVal (globalRecipeFileName s1) + length files < 26 ^ 12"
    using s1(1) Cons.prems(8,9) f by (simp_all add: upStep_def)
  have size1: "mdSize = off1 + int (length (packageOf files))" using Cons.prems(6,7) s1(2) f by (simp add: packageOf_def)
  have all: "\<forall>f\<in>set files. okFile f \<and> completeFile f" using Cons.prems(1) by simp
  have buf1: "(pre @ packFile (h, name, es)) @ packageOf files @ post = ?buf" using buf by simp
  have run1: "secondStageLoop E ssl c u ((pre @ packFile (h, name, es)) @ packageOf files @ post) mdSize dups dat off1 dataOff1 num1 (n1, s1) =
      Done x (n', s')"
    unfolding buf1 using run full one by (simp add: loop)
  have u1: "bn_userID n1 = u" using s1(1) Cons.prems(11) by (simp add: upStep_def)
  note IH = Cons.IH [OF all Cons.prems(2,3) i1 [THEN conjunct1] i1 [THEN conjunct2] s1(2) size1 nm1 Cons.prems(10) u1 run1]
  have later: "upStep ssl c (packageKeys ssl c u files) (length (entriesOf files)) (length files) (n1, s1) (n', s')"
    using secondStageLoop_files [OF all Cons.prems(2,3) i1 [THEN conjunct1] i1 [THEN conjunct2] s1(2) size1 nm1,
        where E = E and post = post and dups = dups and dat = dat and dataOff = dataOff1 and num = num1] run1 by simp
  note rec = oneFile_record [OF inv Cons.prems(2,3,11) ok buf [unfolded at(1)] at(2) nm Cons.prems(10) _ _ _ _ one]
  show ?case
  proof (intro conjI allI impI)
    fix fs h' name' es' gs fp
    assume split: "f # files = fs @ (h', name', es') # gs" and own: "ownInode ssl c u s fp (h', name', es')"
      and alone: "inodeFP2IndexKey fp \<notin> packageKeys ssl c u (fs @ gs)"
    show "recordAt (backIn n' s') u fp 0 (mdh_fileSize h') (map recipeOf es')"
    proof (cases fs)
      case Nil
      then have e: "h' = h" "name' = name" "es' = es" "gs = files" using split f by simp_all
      have "recordAt (backIn n1 s1) u fp 0 (mdh_fileSize h) (map recipeOf es)"
        using own full e by (intro rec) auto
      then show ?thesis using later alone e Nil by (auto simp: upStep_def)
    next
      case (Cons g fs')
      then have e: "g = f" "files = fs' @ (h', name', es') # gs" using split by simp_all
      have "inodeFP2IndexKey fp \<notin> fileKeys ssl c u full" "inodeFP2IndexKey fp \<notin> packageKeys ssl c u (fs' @ gs)"
        using alone Cons e f full by simp_all
      moreover have "ownInode ssl c u s1 fp (h', name', es')" using own s1(1) calculation(1) by (simp add: upStep_def)
      ultimately show ?thesis using IH e(2) by blast
    qed
  next
    fix j assume j: "j < length (entriesOf (f # files))" "\<not> dups ! (num + j)"
    show "db s' (shareFP2IndexKey (mde_shareFP (entriesOf (f # files) ! j))) \<noteq> None"
    proof (cases "j < length es")
      case True
      then have "db s1 (shareFP2IndexKey (mde_shareFP (es ! j))) \<noteq> None" using put j(2) by blast
      then have "db s' (shareFP2IndexKey (mde_shareFP (es ! j))) \<noteq> None"
        by (rule keepsPlaces_db [rotated]) (use later in \<open>simp add: upStep_def\<close>)
      then show ?thesis using True f by (simp add: nth_append)
    next
      case False
      then have "j - length es < length (entriesOf files)" "num1 + (j - length es) = num + j" using j(1) s1(3) f by auto
      then have "db s' (shareFP2IndexKey (mde_shareFP (entriesOf files ! (j - length es)))) \<noteq> None" using IH j(2) by metis
      then show ?thesis using False f by (simp add: nth_append)
    qed
  qed
qed

section \<open>Opening the buffer of the user\<close>

text \<open>What records and the recipe side of the link depend on.\<close>

definition linkView :: "dedupCore \<Rightarrow> (bytes \<times> int \<times> bytes) list" where
  "linkView s = map (\<lambda>n. (recipeFileName n, bn_userID n, recipeFileBuffer n)) (bufferLink s)"

fun viewOk :: "nat \<Rightarrow> bytes \<times> int \<times> bytes \<Rightarrow> bool" where
  "viewOk g (rn, u, b) \<longleftrightarrow> recipeName rn \<and> nameVal rn < g \<and> int (length b) \<le> RECIPE_BUFFER_SIZE \<and>
     (b = [] \<or> 24 \<le> length b \<and> 0 \<le> frh_numOfShares (getRecipeHead (take 24 b)))"

lemma recipeLink_view:
  "recipeLink s \<longleftrightarrow> recipeName (globalRecipeFileName s) \<and> distinct (map fst (linkView s)) \<and>
     distinct (map (fst \<circ> snd) (linkView s)) \<and> (\<forall>x\<in>set (linkView s). viewOk (nameVal (globalRecipeFileName s)) x)"
  by (simp add: recipeLink_def linkView_def recipeNode_def headOk_def comp_def)

lemma recordAt_view:
  assumes "db s' (inodeFP2IndexKey fp) = db s (inodeFP2IndexKey fp)" "disk s' = disk s" "recipeFileDirName s' = recipeFileDirName s"
    and "nameVal (globalRecipeFileName s) \<le> nameVal (globalRecipeFileName s')" "linkView s' = linkView s @ extra"
    and "\<forall>x\<in>set extra. nameVal (globalRecipeFileName s) \<le> nameVal (fst x)"
    and "recordAt s u fp k fileSize es"
  shows "recordAt s' u fp k fileSize es"
proof -
  have mem: "(\<exists>m\<in>set (bufferLink t). recipeFileName m = rn \<and> bn_userID m = w \<and> recipeFileBuffer m = b) \<longleftrightarrow> (rn, w, b) \<in> set (linkView t)" for t rn w b
    by (auto simp: linkView_def)
  have none: "(\<forall>m\<in>set (bufferLink t). recipeFileName m \<noteq> rn) \<longleftrightarrow> rn \<notin> fst ` set (linkView t)" for t rn
    by (force simp: linkView_def)
  show ?thesis using assms(7) unfolding recordAt_def mem none assms(1-3,5)
    using assms(4,6) by (elim exE conjE) (intro exI conjI, assumption+, auto)
qed

lemma findOrCreate_upload:
  assumes inv: "uploadInv ssl c s" and run: "findOrCreateBufferNode E u s = Done n s1"
    and idle: "noIdle E s" "tailOk s" and more: "nameVal (globalShareContainerName s) + 1 < 26 ^ 12" "nameVal (globalRecipeFileName s) + 1 < 26 ^ 12"
  shows "uploadInv ssl c s1" "grows s s1" "linked n s1" "backIn n s1 = s1" "bn_userID n = u" "db s1 = db s"
    "nameVal (globalShareContainerName s1) \<le> nameVal (globalShareContainerName s) + 1"
    "nameVal (globalRecipeFileName s1) \<le> nameVal (globalRecipeFileName s) + 1"
    "\<forall>w fp k sz es. recordAt s w fp k sz es \<longrightarrow> recordAt s1 w fp k sz es"
proof -
  have st: "storeInv ssl c s" "recipeLink s" "linkSound s" using inv by (simp_all add: uploadInv_def storeInv_def)
  note base = findOrCreate_inv [OF st(1) run idle more(1)]
  show "grows s s1" "linked n s1" "backIn n s1 = s1"
    "nameVal (globalShareContainerName s1) \<le> nameVal (globalShareContainerName s) + 1" by (rule base)+
  obtain n' s1' where r: "findOrCreateBufferNode E u s = Done n' s1'" "linked n' s1'" "n' \<in> set (bufferLink s1')"
    "bn_userID n' = u" "backIn n' s1' = s1'" "db s1' = db s" "disk s1' = disk s" "sent s1' = sent s"
    "recipeFileDirName s1' = recipeFileDirName s" "shareContainerDirName s1' = shareContainerDirName s"
    and how: "(\<exists>m\<in>set (bufferLink s). untime n' = untime m) \<and> recipeOnly s s1' \<and> globalRecipeFileName s1' = globalRecipeFileName s \<and>
       map untime (bufferLink s1') = map untime (bufferLink s) \<and> tailBufferNode s1' = tailBufferNode s \<or>
     (\<forall>m\<in>set (bufferLink s). bn_userID m \<noteq> u) \<and>
     untime n' = freshNode (nextAddr s) u (take 15 (globalRecipeFileName s)) (take 15 (globalShareContainerName s)) \<and>
       (\<exists>link. bufferLink s1' = link @ [n'] \<and> map untime link = map untime (bufferLink s)) \<and>
       nextAddr s1' = Suc (nextAddr s) \<and> tailBufferNode s1' = Some (bn_addr n') \<and>
       globalRecipeFileName s1' = fst (incrGlobalFileName (globalRecipeFileName s) 12) \<and>
       globalShareContainerName s1' = fst (incrGlobalFileName (globalShareContainerName s) 12)"
    by (rule findOrCreate_link [OF idle st(3), where u = u])
  have eq: "n' = n" "s1' = s1" using r(1) run by simp_all
  show "bn_userID n = u" "db s1 = db s" using r(4,6) eq by simp_all
  let ?view = "\<lambda>n. (recipeFileName n, bn_userID n, recipeFileBuffer n)"
  have one: "?view n = ?view m" if "untime n = untime m" for n m
    using that by (cases n; cases m; simp add: untime_def)
  have view: "map ?view xs = map ?view ys" if "map untime xs = map untime ys" for xs ys
    using that by (rule untime_map) (rule one)
  have gn: "recipeName (globalRecipeFileName s)" using st(2) by (simp add: recipeLink_def)
  note up = incrGlobalFileName_step [OF gn more(2)]
  have g15: "take 15 (globalRecipeFileName s) = globalRecipeFileName s" using gn by (simp add: validName_def)
  have two: "linkView s1 = linkView s \<and> globalRecipeFileName s1 = globalRecipeFileName s \<or>
      (\<forall>x\<in>set (linkView s). fst (snd x) \<noteq> u) \<and> linkView s1 = linkView s @ [(globalRecipeFileName s, u, [])] \<and>
      globalRecipeFileName s1 = fst (incrGlobalFileName (globalRecipeFileName s) 12)"
    using how unfolding eq
  proof (elim disjE conjE exE)
    assume same: "map untime (bufferLink s1) = map untime (bufferLink s)" "globalRecipeFileName s1 = globalRecipeFileName s"
    then show ?thesis using view [OF same(1)] by (simp add: linkView_def)
  next
    fix link
    assume new: "\<forall>m\<in>set (bufferLink s). bn_userID m \<noteq> u" "bufferLink s1 = link @ [n]" "map untime link = map untime (bufferLink s)"
      "untime n = freshNode (nextAddr s) u (take 15 (globalRecipeFileName s)) (take 15 (globalShareContainerName s))"
      "globalRecipeFileName s1 = fst (incrGlobalFileName (globalRecipeFileName s) 12)"
    have "?view n = (globalRecipeFileName s, u, [])" using new(4) by (cases n) (simp add: untime_def freshNode_def g15)
    then show ?thesis using new view [OF new(3)] by (simp add: linkView_def)
  qed
  show "nameVal (globalRecipeFileName s1) \<le> nameVal (globalRecipeFileName s) + 1" using two up by auto
  have small: "\<forall>x\<in>set (linkView s). viewOk (nameVal (globalRecipeFileName s)) x" using st(2) by (simp add: recipeLink_view)
  then have fresh: "globalRecipeFileName s \<notin> fst ` set (linkView s)" by auto
  have weak: "viewOk g' x" if "viewOk g x" "g \<le> g'" for g g' x using that by (cases x) auto
  have "recipeLink s1"
    using two
  proof (elim disjE conjE)
    assume "linkView s1 = linkView s" "globalRecipeFileName s1 = globalRecipeFileName s"
    then show ?thesis using st(2) by (simp add: recipeLink_view)
  next
    assume new: "\<forall>x\<in>set (linkView s). fst (snd x) \<noteq> u" "linkView s1 = linkView s @ [(globalRecipeFileName s, u, [])]"
      "globalRecipeFileName s1 = fst (incrGlobalFileName (globalRecipeFileName s) 12)"
    have "u \<notin> (fst \<circ> snd) ` set (linkView s)" using new(1) by auto
    then show ?thesis using st(2) new fresh up gn weak [OF small [rule_format]]
      by (simp add: recipeLink_view RECIPE_BUFFER_SIZE_def)
  qed
  then show "uploadInv ssl c s1" using base(1) by (simp add: uploadInv_def)
  show "\<forall>w fp k sz es. recordAt s w fp k sz es \<longrightarrow> recordAt s1 w fp k sz es"
    using two
  proof (elim disjE conjE)
    assume same: "linkView s1 = linkView s" "globalRecipeFileName s1 = globalRecipeFileName s"
    show ?thesis using same r(6,7,9) unfolding eq by (intro allI impI, elim recordAt_view [where s = s and extra = "[]", rotated -1]) simp_all
  next
    assume new: "linkView s1 = linkView s @ [(globalRecipeFileName s, u, [])]"
      "globalRecipeFileName s1 = fst (incrGlobalFileName (globalRecipeFileName s) 12)"
    show ?thesis using new r(6,7,9) up unfolding eq
      by (intro allI impI, elim recordAt_view [where s = s and extra = "[(globalRecipeFileName s, u, [])]", rotated -1]) simp_all
  qed
qed

section \<open>The stages\<close>

lemma secondStage_step:
  assumes inv: "uploadInv ssl c s" and idle: "noIdle E s" "tailOk s" and u: "int32 u" "0 < u"
    and files: "\<forall>f\<in>set files. okFile f \<and> completeFile f"
    and names: "nameVal (globalShareContainerName s) + Suc (length (entriesOf files)) < 26 ^ 12"
      "nameVal (globalRecipeFileName s) + Suc (length files) < 26 ^ 12"
    and run: "secondStageDedup E ssl (Some c) u (packageOf files @ rest) (int (length (packageOf files))) dups dat s = r"
      "r = Done () s' \<or> r = Fails s'"
  obtains n1 s1 n2 s2 where "findOrCreateBufferNode E u s = Done n1 s1" "backIn n1 s1 = s1" "s' = backIn n2 s2"
    "db s1 = db s" "bn_userID n1 = u" "linked n1 s1" "uploadInv ssl c s1"
    "nameVal (globalShareContainerName s1) + length (entriesOf files) < 26 ^ 12"
    "nameVal (globalRecipeFileName s1) + length files < 26 ^ 12"
    "upStep ssl c (packageKeys ssl c u files) (length (entriesOf files)) (length files) (n1, s1) (n2, s2)"
    "grows s s1" "\<forall>w fp k sz es. recordAt s w fp k sz es \<longrightarrow> recordAt s1 w fp k sz es"
    "r = Done () s' \<longrightarrow> secondStageLoop E ssl c u (packageOf files @ rest) (int (length (packageOf files))) dups dat 0 0 0 (n1, s1) = Done () (n2, s2)"
proof -
  have ls: "linkSound s" using inv by (simp add: uploadInv_def storeInv_def)
  obtain n1 s1 where run1: "findOrCreateBufferNode E u s = Done n1 s1"
    using findOrCreate_run [OF idle, of u] ls by (auto simp: linkSound_def)
  have more: "nameVal (globalShareContainerName s) + 1 < 26 ^ 12" "nameVal (globalRecipeFileName s) + 1 < 26 ^ 12"
    using names by simp_all
  note f = findOrCreate_upload [OF inv run1 idle more]
  have nm: "nameVal (globalShareContainerName s1) + length (entriesOf files) < 26 ^ 12"
    "nameVal (globalRecipeFileName s1) + length files < 26 ^ 12" using f(7,8) names by simp_all
  let ?loop = "secondStageLoop E ssl c u (packageOf files @ rest) (int (length (packageOf files))) dups dat 0 0 0 (n1, s1)"
  have inv1: "uploadInv ssl c (backIn n1 s1)" using f(1,4) by simp
  have "case secondStageLoop E ssl c u ([] @ packageOf files @ rest) (int (length (packageOf files))) dups dat 0 0 0 (n1, s1) of
      Done x st' \<Rightarrow> upStep ssl c (packageKeys ssl c u files) (length (entriesOf files)) (length files) (n1, s1) st'
    | Fails st' \<Rightarrow> upStep ssl c (packageKeys ssl c u files) (length (entriesOf files)) (length files) (n1, s1) st'
    | Crash e \<Rightarrow> True"
    by (rule secondStageLoop_files [OF files u inv1 f(3) _ _ nm]) simp_all
  note loop = this [unfolded append_Nil]
  have r: "r = (case ?loop of Done _ (n2, s2) \<Rightarrow> Done () (backIn n2 s2) | Fails (n2, s2) \<Rightarrow> Fails (backIn n2 s2) | Crash e \<Rightarrow> Crash e)"
    using run(1) run1 by (simp add: secondStageDedup_def)
  have "\<exists>n2 s2. s' = backIn n2 s2 \<and> upStep ssl c (packageKeys ssl c u files) (length (entriesOf files)) (length files) (n1, s1) (n2, s2) \<and>
      (r = Done () s' \<longrightarrow> ?loop = Done () (n2, s2))"
    by (cases rule: outcome_cases3 [where r = ?loop]) (use r run(2) loop in auto)
  then obtain n2 s2 where fin: "s' = backIn n2 s2"
      "upStep ssl c (packageKeys ssl c u files) (length (entriesOf files)) (length files) (n1, s1) (n2, s2)"
      "r = Done () s' \<longrightarrow> ?loop = Done () (n2, s2)"
    by blast
  show ?thesis by (rule that [OF run1 f(4) fin(1) f(6,5,3,1) nm fin(2) f(2,9) fin(3)])
qed

lemma restorable_kept:
  assumes "sharesSound ssl c s" "grows s t" "keepsPlaces s t" "restorable s e"
  shows "restorable t e" "entryBytes t e = entryBytes s e"
proof -
  obtain v where v: "db s (shareFP2IndexKey (fre_shareFP e)) = Some v" "sih_shareSize (headOf v) + 12 \<le> SHARE_FILE_BUFFER_SIZE" "okRecipeEntry e"
    using assms(4) by (auto simp: restorable_def)
  have "placeOf t (fre_shareFP e) = Some (locOf (headOf v))" using assms(3) v(1) unfolding keepsPlaces_def
    by (metis (no_types, lifting) option.simps(9) placeOf_def)
  then show "restorable t e" using v by (auto simp: restorable_def placeOf_def locOf_def)
  show "entryBytes t e = entryBytes s e" using fetchShare_kept [OF assms(1-3) v(1)] by (simp add: entryBytes_def)
qed

lemma restoredFile_kept:
  assumes "sharesSound ssl c s" "grows s t" "keepsPlaces s t" "\<forall>e\<in>set es. restorable s e"
  shows "restoredFile t sz es = restoredFile s sz es"
proof -
  have "map (entryBytes t) es = map (entryBytes s) es" using restorable_kept(2) [OF assms(1-3)] assms(4) by simp
  then show ?thesis by (simp only: restoredFile_def)
qed

text \<open>
  C3. Durability. An upload of a user, successful or not and with faults at any point, leaves every
  file that is recorded before it and whose inode it does not write as it was: afterwards, without faults, the
  restore of that version succeeds and sends exactly the bytes it would have sent before. In the
  meantime containers and recipe buffers may have moved to disk and shares may have got new owners.
  The uploaded files come whole in one package, no buffer is idle long enough to be evicted, and
  the names of containers and recipe files do not run out.
\<close>

theorem upload_keeps_files:
  assumes "uploadInv ssl c s" "noIdle E s" "tailOk s" "int32 u" "0 < u"
    and "\<forall>f\<in>set files. okFile f \<and> completeFile f"
    and "nameVal (globalShareContainerName s) + Suc (length (entriesOf files)) < 26 ^ 12"
      "nameVal (globalRecipeFileName s) + Suc (length files) < 26 ^ 12"
    and "secondStageDedup E ssl (Some c) u (packageOf files @ rest) (int (length (packageOf files))) dups dat s = r"
      "r = Done () s' \<or> r = Fails s'"
    and "recordAt s w fp k fileSize es" "\<forall>e\<in>set es. restorable s e" "inodeFP2IndexKey fp \<notin> packageKeys ssl c u files"
    and "formatFullFileName name = Some full" "fileName2InodeFP ssl c full w = Some fp"
    and "int32 w" "int64 fileSize" "int32 (int (length es))" and "faultless E'"
  shows "uploadInv ssl c s' \<and>
    (\<exists>t ps. restoreShareFile E' ssl (Some c) w name (- k) s' = Done () (later t (sent s' @ map restoreMsg ps) s') \<and>
      concat ps = restoredFile s fileSize es)"
proof -
  obtain n1 s1 n2 s2 where st: "findOrCreateBufferNode E u s = Done n1 s1" "backIn n1 s1 = s1" "s' = backIn n2 s2"
    "db s1 = db s" "bn_userID n1 = u" "linked n1 s1" "uploadInv ssl c s1"
    "nameVal (globalShareContainerName s1) + length (entriesOf files) < 26 ^ 12"
    "nameVal (globalRecipeFileName s1) + length files < 26 ^ 12"
    "upStep ssl c (packageKeys ssl c u files) (length (entriesOf files)) (length files) (n1, s1) (n2, s2)"
    "grows s s1" "\<forall>w fp k sz es. recordAt s w fp k sz es \<longrightarrow> recordAt s1 w fp k sz es"
    "r = Done () s' \<longrightarrow> secondStageLoop E ssl c u (packageOf files @ rest) (int (length (packageOf files))) dups dat 0 0 0 (n1, s1) = Done () (n2, s2)"
    by (rule secondStage_step [OF assms(1-10)])
  have up: "uploadInv ssl c s'" "grows s1 s'" "keepsPlaces s1 s'" "recordAt s' w fp k fileSize es"
    using st(10,12) assms(11,13) by (auto simp: upStep_def st(2,3))
  have keep: "grows s s'" "keepsPlaces s s'"
    using grows_trans [OF st(11) up(2)] keepsPlaces_trans [OF keepsPlaces_same up(3)] st(4) by simp_all
  have snd: "sharesSound ssl c s" "sharesSound ssl c s'" "recipeLink s'"
    using assms(1) up(1) by (simp_all add: uploadInv_def storeInv_def)
  have "recipeStored s' w fp k fileSize es" by (rule recordAt_stored [OF up(4) snd(3) assms(16-18)])
  moreover have "\<forall>e\<in>set es. restorable s' e" using restorable_kept(1) [OF snd(1) keep] assms(12) by blast
  ultimately have "\<exists>t ps. restoreShareFile E' ssl (Some c) w name (- k) s' = Done () (later t (sent s' @ map restoreMsg ps) s') \<and>
      concat ps = restoredFile s' fileSize es"
    using restore_run [OF assms(19) snd(2) _ assms(14,15)] by blast
  then show ?thesis using up(1) restoredFile_kept [OF snd(1) keep assms(12)] by simp
qed

lemma countsOnly_upload:
  assumes inv: "uploadInv ssl c s" and cnt: "countsOnly ssl c s t"
  shows "uploadInv ssl c t" "bufferLink t = bufferLink s" "tailBufferNode t = tailBufferNode s"
    "globalShareContainerName t = globalShareContainerName s" "globalRecipeFileName t = globalRecipeFileName s"
    "\<forall>w fp k sz es. recordAt s w fp k sz es \<longrightarrow> recordAt t w fp k sz es"
proof -
  obtain d k where t: "t = s\<lparr>db := d, tick := k\<rparr>" using cnt by (auto simp: countsOnly_def)
  show f: "bufferLink t = bufferLink s" "tailBufferNode t = tailBufferNode s"
    "globalShareContainerName t = globalShareContainerName s" "globalRecipeFileName t = globalRecipeFileName s" by (simp_all add: t)
  have view: "linkView t = linkView s" by (simp add: linkView_def f)
  show "uploadInv ssl c t" using inv cnt by (simp add: uploadInv_def recipeLink_view view f countsOnly_def)
  show "\<forall>w fp k sz es. recordAt s w fp k sz es \<longrightarrow> recordAt t w fp k sz es"
    by (intro allI impI, elim recordAt_view [where s = s and extra = "[]", rotated -1])
       (use cnt in \<open>simp_all add: t view [unfolded t] countsOnly_def\<close>)
qed

text \<open>The server may talk to the client between the stages.\<close>

lemma later_frame [simp]:
  "uploadInv ssl c (later k ms s) = uploadInv ssl c s" "noIdle E (later k ms s) = noIdle E s"
  "tailOk (later k ms s) = tailOk s" "recordAt (later k ms s) = recordAt s"
  by (simp_all add: uploadInv_def storeInv_def linkSound_def nodeSound_def sharesSound_def located_def recipeLink_def
      recipeNode_def noIdle_def tailOk_def recordAt_def fun_eq_iff)

lemma upload_restore_run:
  assumes "uploadInv ssl c s" "noIdle E s" "tailOk s" "int32 u" "0 < u" "faultless E"
    and "\<forall>f\<in>set files. okFile f \<and> completeFile f"
    and "nameVal (globalShareContainerName s) + Suc (length (entriesOf files)) < 26 ^ 12"
      "nameVal (globalRecipeFileName s) + Suc (length files) < 26 ^ 12"
    and "firstStageDedup E u (packageOf files @ rest) (int (length (packageOf files))) s = Some (Done (Inr (dups, sz)) s0)"
    and "secondStageDedup E ssl (Some c) u (packageOf files @ rest) (int (length (packageOf files))) dups dat (later k0 ms0 s0) = Done () s'"
    and "files = fs @ (h, name, es) # gs" "ownInode ssl c u s fp (h, name, es)" "inodeFP2IndexKey fp \<notin> packageKeys ssl c u (fs @ gs)"
    and "\<forall>e\<in>set es. \<forall>d. fetchShare s' (mde_shareFP e) = Some d \<longrightarrow> int (length d) + 12 \<le> SHARE_FILE_BUFFER_SIZE"
    and "faultless E'"
  shows "sent s' = ms0 \<and> (\<exists>t ps. restoreShareFile E' ssl (Some c) u name 0 s' = Done () (later t (sent s' @ map restoreMsg ps) s') \<and>
      concat ps = restoredFile s' (mdh_fileSize h) (map recipeOf es) \<and>
      (\<forall>e\<in>set es. \<exists>d. fetchShare s' (mde_shareFP e) = Some d \<and> generateHash ssl c d = Inr (mde_shareFP e)))"
proof -
  have inv: "storeInv ssl c s" "index_wf s" using assms(1) sharesSound_wf by (auto simp: uploadInv_def storeInv_def)
  note cnt = firstStageLoop_counts [OF inv(1) assms(10) [unfolded firstStageDedup_def]]
  note c0 = countsOnly_upload [OF assms(1) cnt]
  let ?s0 = "later k0 ms0 s0"
  have up0: "uploadInv ssl c ?s0" "\<forall>w fp k sz es. recordAt s w fp k sz es \<longrightarrow> recordAt ?s0 w fp k sz es" using c0(1,6) by simp_all
  have idle0: "noIdle E ?s0" "tailOk ?s0" using assms(2,3) c0(2,3) by (simp_all add: noIdle_def tailOk_def)
  have names0: "nameVal (globalShareContainerName ?s0) + Suc (length (entriesOf files)) < 26 ^ 12"
    "nameVal (globalRecipeFileName ?s0) + Suc (length files) < 26 ^ 12" using assms(8,9) c0(4,5) by simp_all
  have dups: "dups = map (\<lambda>e. owns (absIndex s) (mde_shareFP e) u) (entriesOf files)"
  proof -
    have ok: "\<forall>f\<in>set files. okFile f" using assms(7) by blast
    show ?thesis
      using firstStageLoop_run [OF ok inv(2), where off = 0 and pre = "[]" and E = E and u = u and post = rest
        and mdSize = "int (length (packageOf files))" and dups = "[]" and sentSize = 0] assms(10)
      unfolding append_Nil add_0_left firstStageDedup_def by (simp add: int32_def del: owns.simps)
  qed
  obtain n1 s1 n2 s2 where st: "findOrCreateBufferNode E u ?s0 = Done n1 s1" "backIn n1 s1 = s1" "s' = backIn n2 s2"
    "db s1 = db ?s0" "bn_userID n1 = u" "linked n1 s1" "uploadInv ssl c s1"
    "nameVal (globalShareContainerName s1) + length (entriesOf files) < 26 ^ 12"
    "nameVal (globalRecipeFileName s1) + length files < 26 ^ 12"
    "upStep ssl c (packageKeys ssl c u files) (length (entriesOf files)) (length files) (n1, s1) (n2, s2)"
    "grows ?s0 s1" "\<forall>w fp k sz es. recordAt ?s0 w fp k sz es \<longrightarrow> recordAt s1 w fp k sz es"
    "Done () s' = Done () s' \<longrightarrow> secondStageLoop E ssl c u (packageOf files @ rest) (int (length (packageOf files))) dups dat 0 0 0 (n1, s1) = Done () (n2, s2)"
    by (rule secondStage_step [OF up0(1) idle0 assms(4,5,7) names0 assms(11)]) simp
  have inv1: "uploadInv ssl c (backIn n1 s1)" using st(2,7) by simp
  have run: "secondStageLoop E ssl c u ([] @ packageOf files @ rest) (int (length (packageOf files))) dups dat 0 0 0 (n1, s1) = Done () (n2, s2)"
    using st(13) by simp
  note both = secondStageLoop_records [OF assms(7,4,5) inv1 st(6) _ _ st(8,9) assms(6) st(5) run]
  have own: "ownInode ssl c u s1 fp (h, name, es)" using assms(13) st(4) cnt by (simp add: countsOnly_def)
  have rec: "recordAt s' u fp 0 (mdh_fileSize h) (map recipeOf es)"
    using both assms(12,14) own st(3) by auto
  have keep: "keepsPlaces s s'"
    using cnt keepsPlaces_trans [OF keepsPlaces_same, of s1 s0 s2] st(3,4,10) by (auto simp: countsOnly_def upStep_def intro: keepsPlaces_trans)
  have inIndex: "db s' (shareFP2IndexKey (mde_shareFP e)) \<noteq> None" if e: "e \<in> set es" for e
  proof -
    have "e \<in> set (entriesOf files)" using e assms(12) by (induction fs arbitrary: files) auto
    then obtain j where j: "j < length (entriesOf files)" "entriesOf files ! j = e" by (auto simp: in_set_conv_nth)
    show ?thesis
    proof (cases "dups ! j")
      case True
      then have "owns (absIndex s) (mde_shareFP e) u" using j dups by simp
      then have "db s (shareFP2IndexKey (mde_shareFP e)) \<noteq> None"
        by (cases "db s (shareFP2IndexKey (mde_shareFP e))") (simp_all add: absIndex_def)
      then show ?thesis by (rule keepsPlaces_db [OF keep])
    next
      case False
      then show ?thesis using both j st(3) by auto
    qed
  qed
  have inv2: "uploadInv ssl c s'" using upStep_inv [OF st(10)] st(3) by simp
  then have snd: "sharesSound ssl c s'" "recipeLink s'" by (simp_all add: uploadInv_def storeInv_def)
  have "okFile (h, name, es)" using assms(7,12) by simp
  then have h: "int64 (mdh_fileSize h)" "int32 (int (length (map recipeOf es)))" "\<forall>e\<in>set es. okMDEntry e"
    by (auto simp: okMDHead_def)
  have good: "restorable s' (recipeOf e) \<and> (\<exists>d. fetchShare s' (mde_shareFP e) = Some d \<and> generateHash ssl c d = Inr (mde_shareFP e))"
    if e: "e \<in> set es" for e
  proof -
    obtain v where v: "db s' (shareFP2IndexKey (mde_shareFP e)) = Some v" using inIndex [OF e] by blast
    obtain d where d: "fetchShare s' (mde_shareFP e) = Some d" "generateHash ssl c d = Inr (mde_shareFP e)"
      "int (length d) = sih_shareSize (headOf v)"
      by (rule fetchShare_sound [OF snd(1) v])
    then have "sih_shareSize (headOf v) + 12 \<le> SHARE_FILE_BUFFER_SIZE" using assms(15) e by fastforce
    moreover have "okRecipeEntry (recipeOf e)" using h(3) e by (auto simp: okRecipeEntry_def okMDEntry_def recipeOf_def)
    ultimately show ?thesis using v d(1,2) by (simp add: restorable_def recipeOf_def)
  qed
  obtain full where full: "formatFullFileName name = Some full" "fileName2InodeFP ssl c full u = Some fp" using assms(13) by auto
  have "recipeStored s' u fp 0 (mdh_fileSize h) (map recipeOf es)" by (rule recordAt_stored [OF rec snd(2) assms(4) h(1,2)])
  moreover have "\<forall>e\<in>set (map recipeOf es). restorable s' e" using good by simp
  ultimately have "\<exists>t ps. restoreShareFile E' ssl (Some c) u name 0 s' = Done () (later t (sent s' @ map restoreMsg ps) s') \<and>
      concat ps = restoredFile s' (mdh_fileSize h) (map recipeOf es)"
    using restore_run [OF assms(16) snd(1) _ full, of "map recipeOf es" 0 "mdh_fileSize h"] by fastforce
  moreover have "sent s1 = sent ?s0"
    by (rule findOrCreate_link [OF idle0, where u = u]) (use st(1) up0(1) in \<open>simp_all add: uploadInv_def storeInv_def\<close>)
  then have "sent s' = ms0" using st(3,10) by (simp add: upStep_def)
  ultimately show ?thesis using good by blast
qed

text \<open>
  C2. What the server acknowledges can be restored. A user announces a package of complete files; the
  first stage says which shares it has, the second stage receives the others. If both report success
  and no fault occurs, every file of the package that has its own inode (no other file of the package and no
  directory above it has the same key) is afterwards the newest version under its name: the restore of version
  0 succeeds and sends the file size and number of shares from the metadata, and then for each
  metadata entry in order the id and size of the secret and bytes whose hash is the fingerprint of the
  entry, whether the share came with this upload, with an earlier one or from another user.
\<close>

theorem upload_then_restore:
  assumes "uploadInv ssl c s" "noIdle E s" "tailOk s" "int32 u" "0 < u" "faultless E"
    and "\<forall>f\<in>set files. okFile f \<and> completeFile f"
    and "nameVal (globalShareContainerName s) + Suc (length (entriesOf files)) < 26 ^ 12"
      "nameVal (globalRecipeFileName s) + Suc (length files) < 26 ^ 12"
    and "firstStageDedup E u (packageOf files @ rest) (int (length (packageOf files))) s = Some (Done (Inr (dups, sz)) s0)"
    and "secondStageDedup E ssl (Some c) u (packageOf files @ rest) (int (length (packageOf files))) dups dat s0 = Done () s'"
    and "files = fs @ (h, name, es) # gs" "ownInode ssl c u s fp (h, name, es)" "inodeFP2IndexKey fp \<notin> packageKeys ssl c u (fs @ gs)"
    and "\<forall>e\<in>set es. \<forall>d. fetchShare s' (mde_shareFP e) = Some d \<longrightarrow> int (length d) + 12 \<le> SHARE_FILE_BUFFER_SIZE"
    and "faultless E'"
  shows "\<exists>t ps. restoreShareFile E' ssl (Some c) u name 0 s' = Done () (later t (sent s' @ map restoreMsg ps) s') \<and>
      concat ps = restoredFile s' (mdh_fileSize h) (map recipeOf es) \<and>
      (\<forall>e\<in>set es. \<exists>d. fetchShare s' (mde_shareFP e) = Some d \<and> generateHash ssl c d = Inr (mde_shareFP e))"
proof -
  have run: "secondStageDedup E ssl (Some c) u (packageOf files @ rest) (int (length (packageOf files))) dups dat
      (later (tick s0) (sent s0) s0) = Done () s'" using assms(11) by simp
  show ?thesis using upload_restore_run [OF assms(1-10) run assms(12-16)] by (rule conjunct2)
qed

subsection \<open>Witnesses\<close>

lemma demoFiles_complete: "\<forall>f\<in>set demoFiles. okFile f \<and> completeFile f"
  using demoFiles_ok by (simp add: demoFiles_def demoHead_def demoEntry_def)

lemma demoFiles_entries: "entriesOf demoFiles = [demoEntry, demoEntry]" "length demoFiles = 1"
  by (simp_all add: demoFiles_def)

lemma demoRecipeNames: "nameVal (replicate 12 97 @ rfSuffix) = 0" "nameVal (replicate 11 97 @ 98 # rfSuffix) = 1"
  using lettersVal_append [of "replicate 11 97" "[98]"] by (simp_all add: nameVal_def rfSuffix_def letter_def)

lemma demoCore_upload: "uploadInv ssl c demoCore" "noIdle fineEnv demoCore" "tailOk demoCore"
  "nameVal (globalShareContainerName demoCore) + Suc (length (entriesOf demoFiles)) < 26 ^ 12"
  "nameVal (globalRecipeFileName demoCore) + Suc (length demoFiles) < 26 ^ 12"
proof -
  have "backIn demoNode demoCore = demoCore" by (simp add: backIn_def demoCore_def)
  moreover have "recipeLink demoCore"
    by (simp add: recipeLink_def recipeNode_def headOk_def demoCore_def demoNode_def demoName_simps demoRecipeNames RECIPE_BUFFER_SIZE_def)
  ultimately show "uploadInv ssl c demoCore" using demo_inv(1) by (simp add: uploadInv_def)
qed (simp_all add: noIdle_def tailOk_def demoCore_def demoNode_def fineEnv_def MAX_BUFFER_WAIT_USECS_def demoName_simps
    demoRecipeNames demoFiles_entries)

lemma keptCore_upload: "uploadInv toySSL shaCrypto keptCore" "noIdle fineEnv keptCore" "tailOk keptCore"
  "nameVal (globalShareContainerName keptCore) + Suc (length (entriesOf demoFiles)) < 26 ^ 12"
  "nameVal (globalRecipeFileName keptCore) + Suc (length demoFiles) < 26 ^ 12"
proof -
  have "headOk keptNode" by code_simp
  then have "recipeLink keptCore" using keptCore_recipe(2)
    by (simp add: recipeLink_def recipeNode_def keptCore_def demoCore_def keptNode_def filledNode_def demoNode_def demoName_simps
        demoRecipeNames)
  then show "uploadInv toySSL shaCrypto keptCore" using keptCore_inv by (simp add: uploadInv_def)
qed (simp_all add: noIdle_def tailOk_def keptCore_def demoCore_def keptNode_def filledNode_def demoNode_def fineEnv_def
    MAX_BUFFER_WAIT_USECS_def demoName_simps demoRecipeNames demoFiles_entries)

lemma keptCore_record: "recordAt keptCore 7 keptFP 0 9 [keptEntry]"
  unfolding recordAt_def
proof (intro exI conjI)
  show "db keptCore (inodeFP2IndexKey keptFP) = Some (newFileInode 7 [102] (replicate 12 97 @ rfSuffix) 0)"
    by (simp add: keptCore_def)
  show "versionAt (newFileInode 7 [102] (replicate 12 97 @ rfSuffix) 0) 0
     \<lparr> ife_recipeFileName = replicate 12 97 @ rfSuffix, ife_recipeFileOffset = int (length ([]::bytes)) \<rparr>"
    by (rule keptCore_version)
  show "recipeFileBuffer keptNode = [] @ putRecipeHead \<lparr> frh_userID = 7, frh_fileSize = 9, frh_numOfShares = int (length [keptEntry]) \<rparr> @
     concat (map putRecipeEntry [keptEntry]) @ []" "int (length (recipeFileBuffer keptNode)) \<le> RECIPE_BUFFER_SIZE"
    by (rule keptCore_recipe)+
  show "(\<exists>m\<in>set (bufferLink keptCore). recipeFileName m = replicate 12 97 @ rfSuffix \<and> bn_userID m = 7 \<and> recipeFileBuffer m = recipeFileBuffer keptNode) \<or>
     (\<forall>m\<in>set (bufferLink keptCore). recipeFileName m \<noteq> replicate 12 97 @ rfSuffix) \<and>
     disk keptCore (recipeFileDirName keptCore @ replicate 12 97 @ rfSuffix) = Some (recipeFileBuffer keptNode)"
    by (simp add: keptCore_def keptNode_def filledNode_def demoNode_def)
qed (simp_all add: demoName_simps demoRecipeNames keptCore_def demoCore_def)

lemma other_keys: "inodeFP2IndexKey keptFP \<notin> packageKeys toySSL shaCrypto 8 demoFiles"
proof -
  have "formatFullFileName [47, 102] = Some [47, 102]" "dirChain (dirNameOf [47, 102]) = [[47]]"
    "fileName2InodeFP toySSL shaCrypto [47, 102] 8 \<noteq> Some keptFP" "fileName2InodeFP toySSL shaCrypto [47] 8 \<noteq> Some keptFP"
    by code_simp+
  then show ?thesis by (auto simp: demoFiles_def fileKeys_def dirKeys_def)
qed

text \<open>User 8 uploads a file with the share that user 7 already has.\<close>

lemma other_uploads:
  "\<exists>s'. secondStageDedup fineEnv toySSL (Some shaCrypto) 8 (packageOf demoFiles @ []) (int (length (packageOf demoFiles))) [False, False]
     (demoShare @ demoShare) keptCore = Done () s'"
proof -
  have "case secondStageDedup fineEnv toySSL (Some shaCrypto) 8 (packageOf demoFiles @ []) (int (length (packageOf demoFiles))) [False, False]
     (demoShare @ demoShare) keptCore of Done _ _ \<Rightarrow> True | _ \<Rightarrow> False"
    by code_simp
  then show ?thesis by (simp split: outcome.splits)
qed

theorem upload_keeps_files_witness:
  "\<exists>s' t ps. secondStageDedup fineEnv toySSL (Some shaCrypto) 8 (packageOf demoFiles @ []) (int (length (packageOf demoFiles)))
       [False, False] (demoShare @ demoShare) keptCore = Done () s' \<and>
     restoreShareFile fineEnv toySSL (Some shaCrypto) 7 [47, 102] 0 s' = Done () (later t (sent s' @ map restoreMsg ps) s') \<and>
     concat ps = restoredFile keptCore 9 [keptEntry]"
proof -
  obtain s' where run: "secondStageDedup fineEnv toySSL (Some shaCrypto) 8 (packageOf demoFiles @ [])
      (int (length (packageOf demoFiles))) [False, False] (demoShare @ demoShare) keptCore = Done () s'"
    using other_uploads by blast
  show ?thesis
    using upload_keeps_files [OF keptCore_upload(1-3) _ _ demoFiles_complete keptCore_upload(4,5) run _ keptCore_record _ other_keys
        keptFP_name _ _ _ fineEnv_faultless] run keptEntry_restorable
    by (auto simp: int32_def int64_def)
qed

text \<open>User 7 announces and uploads a file whose two secrets have the same share.\<close>

lemma demo_uploads:
  "\<exists>dups sz s0 s'. firstStageDedup fineEnv 7 (packageOf demoFiles @ []) (int (length (packageOf demoFiles))) demoCore = Some (Done (Inr (dups, sz)) s0) \<and>
     secondStageDedup fineEnv toySSL (Some shaCrypto) 7 (packageOf demoFiles @ []) (int (length (packageOf demoFiles))) dups
       (demoShare @ demoShare) s0 = Done () s' \<and> fetchShare s' demoFP = Some demoShare"
proof -
  let ?first = "firstStageDedup fineEnv 7 (packageOf demoFiles @ []) (int (length (packageOf demoFiles))) demoCore"
  have *: "case ?first of
      Some (Done (Inr (dups, sz)) s0) \<Rightarrow>
        (case secondStageDedup fineEnv toySSL (Some shaCrypto) 7 (packageOf demoFiles @ []) (int (length (packageOf demoFiles))) dups
           (demoShare @ demoShare) s0 of Done _ s' \<Rightarrow> fetchShare s' demoFP = Some demoShare | _ \<Rightarrow> False)
    | _ \<Rightarrow> False"
    by code_simp
  then obtain r where r: "?first = Some r" by (cases ?first) auto
  then obtain dups sz s0 where "r = Done (Inr (dups, sz)) s0" using * by (cases r) (auto split: sum.splits)
  then show ?thesis using * r
    by (cases "secondStageDedup fineEnv toySSL (Some shaCrypto) 7 (packageOf demoFiles @ []) (int (length (packageOf demoFiles))) dups
      (demoShare @ demoShare) s0") auto
qed

lemma demoFile_own: "ownInode toySSL shaCrypto 7 demoCore keptFP (demoHead, [47, 102], [demoEntry, demoEntry])"
proof -
  have "dirChain (dirNameOf [47, 102]) = [[47]]" "fileName2InodeFP toySSL shaCrypto [47] 7 \<noteq> Some keptFP"
    "shortNameOf [47, 102] = [102]"
    by code_simp+
  then show ?thesis using keptFP_name by (auto simp: demoCore_def int32_def)
qed

theorem upload_then_restore_witness:
  "\<exists>dups sz s0 s' t ps.
     firstStageDedup fineEnv 7 (packageOf demoFiles @ []) (int (length (packageOf demoFiles))) demoCore = Some (Done (Inr (dups, sz)) s0) \<and>
     secondStageDedup fineEnv toySSL (Some shaCrypto) 7 (packageOf demoFiles @ []) (int (length (packageOf demoFiles))) dups
       (demoShare @ demoShare) s0 = Done () s' \<and>
     restoreShareFile fineEnv toySSL (Some shaCrypto) 7 [47, 102] 0 s' = Done () (later t (sent s' @ map restoreMsg ps) s') \<and>
     concat ps = restoredFile s' 18 (map recipeOf [demoEntry, demoEntry])"
proof -
  obtain dups sz s0 s' where
    run: "firstStageDedup fineEnv 7 (packageOf demoFiles @ []) (int (length (packageOf demoFiles))) demoCore = Some (Done (Inr (dups, sz)) s0)"
      "secondStageDedup fineEnv toySSL (Some shaCrypto) 7 (packageOf demoFiles @ []) (int (length (packageOf demoFiles))) dups
         (demoShare @ demoShare) s0 = Done () s'" and d: "fetchShare s' demoFP = Some demoShare"
    using demo_uploads by blast
  have "demoFiles = [] @ (demoHead, [47, 102], [demoEntry, demoEntry]) # []" by (simp add: demoFiles_def)
  note rest = upload_then_restore [OF demoCore_upload(1-3) _ _ fineEnv_faultless demoFiles_complete demoCore_upload(4,5) run this
      demoFile_own _ _ fineEnv_faultless]
  have "mdh_fileSize demoHead = 18" "\<forall>e\<in>set [demoEntry, demoEntry]. mde_shareFP e = demoFP" by (simp_all add: demoHead_def demoEntry_def)
  then show ?thesis using rest run d by (auto simp: int32_def demoShare_def SHARE_FILE_BUFFER_SIZE_def)
qed

end
