(* ===== verification/MinDedup.thy ===== *)
theory MinDedup
  imports Upload
begin

text \<open>
  The deduplication core for the data shares, server/dedup/minDedupCore.cc. It keeps shares like
  DedupCore but no inodes and no recipes: the recipe of a file comes as a file of its own, from
  which \<open>restoreShareFile\<close> reads one entry at a time and which it deletes afterwards.

  The object has the fields of DedupCore without those for recipes, and the buffer nodes are the same
  \<open>perUserBufferNode_t\<close>, whose recipe fields stay unused: the state is the record \<open>dedupCore\<close>. The member
  functions whose statements are the same as in DedupCore.cc are defined by the definitions for
  those.
\<close>

section \<open>Member functions with the same statements\<close>

definition minFormatFullFileName :: "bytes \<Rightarrow> bytes option" where
  "minFormatFullFileName = formatFullFileName"

definition minFormatDirName :: "bytes \<Rightarrow> bytes option" where
  "minFormatDirName = formatDirName"

definition minAddPrefixDir :: "bytes \<Rightarrow> bytes \<Rightarrow> bytes option" where
  "minAddPrefixDir = addPrefixDir"

definition minCreateDir :: "(bytes \<Rightarrow> bool) \<Rightarrow> bytes \<Rightarrow> bytes list \<Rightarrow> bool \<times> bytes list" where
  "minCreateDir = createDir"

definition minIncrGlobalFileName :: "bytes \<Rightarrow> nat \<Rightarrow> bytes \<times> bool" where
  "minIncrGlobalFileName = incrGlobalFileName"

definition minShareFP2IndexKey :: "bytes \<Rightarrow> bytes" where
  "minShareFP2IndexKey = shareFP2IndexKey"

definition minGetCurrTime :: "env \<Rightarrow> dedupCore \<Rightarrow> int \<times> dedupCore" where
  "minGetCurrTime = getCurrTime"

definition minIntraUserIndexUpdate :: "env \<Rightarrow> bytes \<Rightarrow> int \<Rightarrow> dedupCore \<Rightarrow> (bool, dedupCore) outcome" where
  "minIntraUserIndexUpdate = intraUserIndexUpdate"

definition minStoreShareContainer ::
  "env \<Rightarrow> bufferNode \<times> dedupCore \<Rightarrow> (bytes, bufferNode \<times> dedupCore) outcome" where
  "minStoreShareContainer = storeShareContainer"

definition minInterUserIndexUpdate ::
  "env \<Rightarrow> bytes \<Rightarrow> int \<Rightarrow> int \<Rightarrow> bytes \<Rightarrow> int \<Rightarrow> bufferNode \<times> dedupCore \<Rightarrow> (unit, bufferNode \<times> dedupCore) outcome" where
  "minInterUserIndexUpdate = interUserIndexUpdate"

definition minReadShareContainerFromBuffer :: "bytes \<Rightarrow> dedupCore \<Rightarrow> bytes option" where
  "minReadShareContainerFromBuffer = readShareContainerFromBuffer"

definition minFirstStageDedup ::
  "env \<Rightarrow> int \<Rightarrow> bytes \<Rightarrow> int \<Rightarrow> dedupCore \<Rightarrow> (early + bool list \<times> int, dedupCore) outcome option" where
  "minFirstStageDedup = firstStageDedup"

text \<open>The container cache and the filling of messages, inside \<open>restoreShareFile\<close>.\<close>

definition minCacheContainer :: "env \<Rightarrow> bytes \<Rightarrow> rst \<Rightarrow> (unit, rst) outcome" where
  "minCacheContainer = cacheContainer"

definition minEmitShare :: "env \<Rightarrow> fileRecipeEntry \<Rightarrow> shareIndexValueHead \<Rightarrow> rst \<Rightarrow> (unit, rst) outcome" where
  "minEmitShare = emitShare"

lemmas min_same = minCacheContainer_def minEmitShare_def minFormatFullFileName_def minFormatDirName_def minAddPrefixDir_def minCreateDir_def
  minIncrGlobalFileName_def minShareFP2IndexKey_def minGetCurrTime_def minIntraUserIndexUpdate_def
  minStoreShareContainer_def minInterUserIndexUpdate_def minReadShareContainerFromBuffer_def minFirstStageDedup_def

section \<open>Buffer nodes\<close>

definition minFlushBufferNodeIntoDisk :: "env \<Rightarrow> bufferNode \<Rightarrow> dedupCore \<Rightarrow> (unit, dedupCore) outcome" where
  "minFlushBufferNodeIntoDisk E n s =
     (if shareContainerBufferCurrLen n > 0
      then flushWhole E (shareContainerDirName s) (shareContainerName n) (shareContainerBuffer n) s
      else Done () s)"

fun minSweepLink ::
  "env \<Rightarrow> int \<Rightarrow> bufferNode list \<Rightarrow> bufferNode list \<Rightarrow> nat option \<Rightarrow> dedupCore \<Rightarrow> (nat option, dedupCore) outcome" where
  "minSweepLink E userID pre [] target s = Done target (s\<lparr>bufferLink := pre\<rparr>)"
| "minSweepLink E userID pre (m # rest) target s =
     (case minGetCurrTime E s of (currTime, s1) \<Rightarrow>
       if bn_userID m = userID then
         minSweepLink E userID (pre @ [m\<lparr>lastUseTime := currTime\<rparr>]) rest (Some (bn_addr m)) s1
       else if currTime - lastUseTime m > MAX_BUFFER_WAIT_USECS then
         (case minFlushBufferNodeIntoDisk E m s1 of
            Crash e \<Rightarrow> Crash e
          | Done _ s2 \<Rightarrow> minSweepLink E userID pre rest target
              (s2\<lparr>tailBufferNode := tailAfterUnlink pre m (tailBufferNode s2)\<rparr>)
          | Fails s2 \<Rightarrow> minSweepLink E userID pre rest target
              (s2\<lparr>tailBufferNode := tailAfterUnlink pre m (tailBufferNode s2)\<rparr>))
       else minSweepLink E userID (pre @ [m]) rest target s1)"

text \<open>The recipe fields of a new node are never written.\<close>

definition minNewBufferNode :: "env \<Rightarrow> int \<Rightarrow> dedupCore \<Rightarrow> bufferNode \<times> dedupCore" where
  "minNewBufferNode E userID s =
     (case minGetCurrTime E s of (currTime, s1) \<Rightarrow>
       (\<lparr> bn_addr = nextAddr s1, bn_userID = userID,
          recipeFileName = [], recipeFileBuffer = [], lastRecipeHeadPos = 0, lastInodeFP = None,
          shareContainerName = take 15 (globalShareContainerName s1), shareContainerBuffer = [],
          lastUseTime = currTime \<rparr>,
        s1\<lparr>nextAddr := Suc (nextAddr s1),
           globalShareContainerName := fst (minIncrGlobalFileName (globalShareContainerName s1) 12)\<rparr>))"

definition minFindOrCreateBufferNode :: "env \<Rightarrow> int \<Rightarrow> dedupCore \<Rightarrow> (bufferNode, dedupCore) outcome" where
  "minFindOrCreateBufferNode E userID s =
     bindO (minSweepLink E userID [] (bufferLink s) None s) (\<lambda>target s1.
       case target of
         Some a \<Rightarrow> (case nodeAt a (bufferLink s1) of None \<Rightarrow> Crash NullDeref | Some n \<Rightarrow> Done n s1)
       | None \<Rightarrow>
           (case minNewBufferNode E userID s1 of (n, s2) \<Rightarrow>
             bindO (linkNode n s2) (\<lambda>_ s3. Done n s3)))"

definition minCleanupUserBufferNode :: "env \<Rightarrow> int \<Rightarrow> dedupCore \<Rightarrow> (unit, dedupCore) outcome" where
  "minCleanupUserBufferNode E userID s =
     (let pre = takeWhile (\<lambda>m. bn_userID m \<noteq> userID) (bufferLink s) in
      case dropWhile (\<lambda>m. bn_userID m \<noteq> userID) (bufferLink s) of
        [] \<Rightarrow> Crash NullDeref
      | n # rest \<Rightarrow> bindO (minFlushBufferNodeIntoDisk E n s) (\<lambda>_ s1. Done () (unlinkNode pre n rest s1)))"

fun minFlushAll :: "env \<Rightarrow> bufferNode list \<Rightarrow> dedupCore \<Rightarrow> (unit, dedupCore) outcome" where
  "minFlushAll E [] s = Done () s"
| "minFlushAll E (n # rest) s = bindO (minFlushBufferNodeIntoDisk E n s) (\<lambda>_ s1. minFlushAll E rest s1)"

definition minCleanupAllBufferNodes :: "env \<Rightarrow> dedupCore \<Rightarrow> (unit, dedupCore) outcome" where
  "minCleanupAllBufferNodes E s =
     bindO (minFlushAll E (bufferLink s) s) (\<lambda>_ s1. Done () (s1\<lparr>bufferLink := []\<rparr>))"

section \<open>The constructor\<close>

definition mkMinDedupCore ::
  "(bytes \<Rightarrow> bool) \<Rightarrow> bytes list \<Rightarrow> (bytes \<Rightarrow> (bytes \<Rightarrow> bytes option) option) \<Rightarrow> (bytes \<Rightarrow> bytes option) \<Rightarrow>
   bytes \<Rightarrow> bytes \<Rightarrow> bytes \<Rightarrow> ctor_error + dedupCore" where
  "mkMinDedupCore denied dirs openDB disk0 dedupDirName dbDirName containerDirName =
     (case (minFormatDirName dedupDirName, minFormatDirName dbDirName, minFormatDirName containerDirName) of
        (Some dedupDir, Some dbDir, Some containerDir) \<Rightarrow>
          bindR (prepareDir denied dedupDir dbDir dirs) (\<lambda>(dbDir1, dirs1).
          bindR (prepareDir denied dedupDir containerDir dirs1) (\<lambda>(containerDir1, dirs2).
            case openDB dbDir1 of
              None \<Rightarrow> Inl DbNotOpened
            | Some db0 \<Rightarrow>
                Inr \<lparr> recipeFileDirName = [], shareContainerDirName = containerDir1,
                  db = db0, disk = disk0, tick = 0,
                  globalRecipeFileName = [],
                  globalShareContainerName = replicate 12 97 @ scSuffix,
                  bufferLink = [], tailBufferNode = None, nextAddr = 0, sent = [] \<rparr>))
      | _ \<Rightarrow> Inl BadDirName)"

section \<open>Second stage\<close>

text \<open>A share that the first stage did not find: its fingerprint is checked and it is stored.\<close>

definition minStoreShare ::
  "env \<Rightarrow> openssl \<Rightarrow> cryptoPrimitive \<Rightarrow> int \<Rightarrow> bytes \<Rightarrow> int \<Rightarrow> shareMDEntry \<Rightarrow> node_op" where
  "minStoreShare E ssl c userID dat dataOff e st =
     bindO (safeO (0 \<le> mde_shareSize e \<and> 0 \<le> dataOff \<and> dataOff + mde_shareSize e \<le> int (length dat)) OutOfBounds st)
       (\<lambda>_ _.
     case generateHash ssl c (slice (nat dataOff) (nat (mde_shareSize e)) dat) of
       Inl _ \<Rightarrow> Crash UninitRead
     | Inr shareFP \<Rightarrow>
         bindO (safeO (length shareFP = 32) UninitRead st) (\<lambda>_ _.
         bindO (guardO (mde_shareFP e = shareFP) st) (\<lambda>_ _.
         minInterUserIndexUpdate E shareFP userID (mde_shareSize e) dat dataOff st)))"

fun minSecondStageEntries ::
  "env \<Rightarrow> openssl \<Rightarrow> cryptoPrimitive \<Rightarrow> int \<Rightarrow> bytes \<Rightarrow> bool list \<Rightarrow> bytes \<Rightarrow> nat \<Rightarrow> int \<Rightarrow> int \<Rightarrow> nat \<Rightarrow>
   bufferNode \<times> dedupCore \<Rightarrow> (int \<times> int \<times> nat, bufferNode \<times> dedupCore) outcome" where
  "minSecondStageEntries E ssl c userID mdBuf dups dat 0 off dataOff num st = Done (off, dataOff, num) st"
| "minSecondStageEntries E ssl c userID mdBuf dups dat (Suc i) off dataOff num st =
     bindO (readO (structAt 44 getMDEntry mdBuf off) st) (\<lambda>e st1.
     bindO (readO (bufAt dups (int num)) st1) (\<lambda>dup st2.
     bindO (if dup then Done () st2 else minStoreShare E ssl c userID dat dataOff e st2) (\<lambda>_ st3.
     minSecondStageEntries E ssl c userID mdBuf dups dat i (off + 44)
       (if dup then dataOff else dataOff + mde_shareSize e) (Suc num) st3)))"

lemma minSecondStageEntries_offset:
  "minSecondStageEntries E ssl c userID mdBuf dups dat i off dataOff num st = Done (off1, r) st' \<Longrightarrow>
     off1 = off + 44 * int i"
proof (induction i arbitrary: off dataOff num st)
  case (Suc i)
  then obtain d n st3 where "minSecondStageEntries E ssl c userID mdBuf dups dat i (off + 44) d n st3 = Done (off1, r) st'"
    by (auto simp: status_simps)
  then show ?case using Suc.IH by fastforce
qed simp

function minSecondStageLoop ::
  "env \<Rightarrow> openssl \<Rightarrow> cryptoPrimitive \<Rightarrow> int \<Rightarrow> bytes \<Rightarrow> int \<Rightarrow> bool list \<Rightarrow> bytes \<Rightarrow> int \<Rightarrow> int \<Rightarrow> nat \<Rightarrow> node_op" where
  "minSecondStageLoop E ssl c userID mdBuf mdSize dups dat off dataOff num st =
     (if off < mdSize then
        (case structAt 48 getMDHead mdBuf off of
           None \<Rightarrow> Crash OutOfBounds
         | Some h \<Rightarrow>
             (if mdh_fullNameSize h < 0 then Crash LengthError
              else if int (length mdBuf) < off + 48 + mdh_fullNameSize h then Crash OutOfBounds
              else case minFormatFullFileName (slice (nat (off + 48)) (nat (mdh_fullNameSize h)) mdBuf) of
                None \<Rightarrow> Fails st
              | Some fullFileName \<Rightarrow>
                  (case minSecondStageEntries E ssl c userID mdBuf dups dat (nat (mdh_numOfComingSecrets h))
                          (off + 48 + mdh_fullNameSize h) dataOff num st of
                     Crash e \<Rightarrow> Crash e
                   | Fails st1 \<Rightarrow> Fails st1
                   | Done (off1, dataOff1, num1) st1 \<Rightarrow>
                       minSecondStageLoop E ssl c userID mdBuf mdSize dups dat off1 dataOff1 num1 st1)))
      else Done () st)"
  by pat_completeness auto
termination
  by (relation "measure (\<lambda>(E, ssl, c, u, mdBuf, mdSize, dups, dat, off, dataOff, num, st). nat (mdSize - off))")
     (auto dest!: minSecondStageEntries_offset)

declare minSecondStageLoop.simps [simp del]

definition minSecondStageDedup ::
  "env \<Rightarrow> openssl \<Rightarrow> cryptoPrimitive option \<Rightarrow> int \<Rightarrow> bytes \<Rightarrow> int \<Rightarrow> bool list \<Rightarrow> bytes \<Rightarrow> dedupCore \<Rightarrow>
   (unit, dedupCore) outcome" where
  "minSecondStageDedup E ssl cryptoObj userID mdBuf mdSize dups dat s =
     (case cryptoObj of
        None \<Rightarrow> Fails s
      | Some c \<Rightarrow>
          bindO (minFindOrCreateBufferNode E userID s) (\<lambda>n s1.
            case minSecondStageLoop E ssl c userID mdBuf mdSize dups dat 0 0 0 (n, s1) of
              Done _ (n2, s2) \<Rightarrow> Done () (backIn n2 s2)
            | Fails (n2, s2) \<Rightarrow> Fails (backIn n2 s2)
            | Crash e \<Rightarrow> Crash e))"

section \<open>Restore\<close>

text \<open>
  One share. \<open>fread\<close> reports an error only when it reads nothing: a short read leaves the rest of the
  previous entry in the buffer.
\<close>

definition minRestoreShare :: "env \<Rightarrow> bytes \<Rightarrow> rst \<Rightarrow> (unit, rst) outcome" where
  "minRestoreShare E path st =
     (case st of (r, s) \<Rightarrow>
       (case freadUpTo E path (rs_pos r) 40 s of (got, s1) \<Rightarrow>
          if got = [] then Fails (r, s1)
          else
            (let r1 = r\<lparr>rs_recipe := overwrite got (rs_recipe r), rs_pos := rs_pos r + length got\<rparr> in
             case structAt 40 getRecipeEntry (rs_recipe r1) 0 of
               None \<Rightarrow> Crash UninitRead
             | Some e \<Rightarrow>
                 (case dbGet E (minShareFP2IndexKey (fre_shareFP e)) s1 of
                    (GetOk v, s2) \<Rightarrow>
                      bindO (readO (structAt 28 getShareHead v 0) (r1, s2)) (\<lambda>h st2.
                      bindO (minCacheContainer E (sih_shareContainerName h) st2) (\<lambda>_ st3.
                      minEmitShare E e h st3))
                  | (GetNotFound, s2) \<Rightarrow> Fails (r1, s2)
                  | (GetCorruption, s2) \<Rightarrow> Fails (r1, s2)
                  | (GetIOError, s2) \<Rightarrow> Fails (r1, s2)))))"

fun minRestoreLoop :: "env \<Rightarrow> bytes \<Rightarrow> nat \<Rightarrow> rst \<Rightarrow> (unit, rst) outcome" where
  "minRestoreLoop E path 0 st = Done () st"
| "minRestoreLoop E path (Suc i) st = bindO (minRestoreShare E path st) (\<lambda>_ st1. minRestoreLoop E path i st1)"

text \<open>
  \<open>snprintf(cmd, 256, "rm -rf %s", name)\<close> cuts the command after 255 characters; the shell that
  \<open>system\<close> starts is a parameter that maps the command and the files to the files afterwards.
\<close>

type_synonym shell = "bytes \<Rightarrow> (bytes \<Rightarrow> bytes option) \<Rightarrow> (bytes \<Rightarrow> bytes option)"

definition rmCommand :: "bytes \<Rightarrow> bytes" where
  "rmCommand name = take 255 ([114, 109, 32, 45, 114, 102, 32] @ cstring name)"

definition minRemoveRecipe :: "shell \<Rightarrow> bytes \<Rightarrow> dedupCore \<Rightarrow> dedupCore" where
  "minRemoveRecipe sh fullRecipeFileName s = s\<lparr>disk := sh (rmCommand fullRecipeFileName) (disk s)\<rparr>"

text \<open>
  The open recipe file. The fields of its head that are used end at byte 20; the entries are read
  over the head into the same buffer.
\<close>

definition minRestoreFile :: "env \<Rightarrow> bytes \<Rightarrow> dedupCore \<Rightarrow> (unit, dedupCore) outcome" where
  "minRestoreFile E path s =
     (case freadUpTo E path 0 24 s of (got, s1) \<Rightarrow>
        if got = [] then Fails s1
        else
          if length got < 20 then Crash UninitRead
          else
               (let rh = getRecipeHead got;
                    r = \<lparr> rs_recipe = got, rs_off = 0, rs_pos = length got, rs_slots = [], rs_index = [],
                          rs_out = putShareFileHead \<lparr> sfh_fileSize = frh_fileSize rh, sfh_numOfShares = frh_numOfShares rh \<rparr> \<rparr> in
                case bindO (minRestoreLoop E path (nat (frh_numOfShares rh)) (r, s1)) (\<lambda>_ st.
                       if rs_out (fst st) \<noteq> [] then flushOut E st else Done () st) of
                  Done _ (_, s2) \<Rightarrow> Done () s2
                | Fails (_, s2) \<Rightarrow> Fails s2
                | Crash e \<Rightarrow> Crash e))"

definition minRestoreShareFile ::
  "env \<Rightarrow> shell \<Rightarrow> cryptoPrimitive option \<Rightarrow> bytes \<Rightarrow> dedupCore \<Rightarrow> (unit, dedupCore) outcome" where
  "minRestoreShareFile E sh cryptoObj fullRecipeFileName s =
     (case cryptoObj of
        None \<Rightarrow> Fails s
      | Some _ \<Rightarrow>
          bindO
            (case fopenRb E (cstring fullRecipeFileName) s of
               (None, s1) \<Rightarrow> Done () s1
             | (Some _, s1) \<Rightarrow> minRestoreFile E (cstring fullRecipeFileName) s1)
            (\<lambda>_ s2. Done () (minRemoveRecipe sh fullRecipeFileName s2)))"


section \<open>Buffer nodes keep the invariant\<close>

lemma flushWhole_cases:
  assumes "addPrefixDir d nm = Some (d @ nm)" "bs \<noteq> []"
  obtains (written) k where "flushWhole E d nm bs s = Done () (s\<lparr>disk := (disk s)(d @ nm \<mapsto> bs), tick := k\<rparr>)"
  | (failed) m k where "flushWhole E d nm bs s = Fails (s\<lparr>disk := m, tick := k\<rparr>)" "\<not> faultless E"
proof (cases "flushWhole E d nm bs s")
  case (Done x s1)
  then show ?thesis using flushWhole_run [OF Done assms(1)] written by auto
next
  case (Fails s1)
  have "\<exists>m k. s1 = s\<lparr>disk := m, tick := k\<rparr>"
  proof (cases "ioFault E (tick s) = IoOpenFails")
    case True
    then have "s1 = s\<lparr>disk := disk s, tick := Suc (tick s)\<rparr>" using Fails assms by (simp add: flushWhole_def fopenWb_def tock_def)
    then show ?thesis by blast
  next
    case False
    then show ?thesis using Fails assms
      by (auto simp: flushWhole_def fopenWb_def fwriteAt_def tock_def split: io_fault.splits if_splits bool.splits)
  qed
  moreover have "\<not> faultless E" using Fails assms
    by (auto simp: flushWhole_def fopenWb_def fwriteAt_def faultless_def)
  ultimately show ?thesis using Fails failed by blast
next
  case (Crash e)
  then show ?thesis using assms by (auto simp: flushWhole_def split: prod.splits bool.splits)
qed

lemma minFlush_cases:
  assumes "containerName (shareContainerName n)"
  obtains (written) m k where "minFlushBufferNodeIntoDisk E n s = Done () (s\<lparr>disk := m, tick := k\<rparr>)"
    "m = (if shareContainerBuffer n = [] then disk s
          else (disk s)(shareContainerDirName s @ shareContainerName n \<mapsto> shareContainerBuffer n))"
  | (failed) m k where "minFlushBufferNodeIntoDisk E n s = Fails (s\<lparr>disk := m, tick := k\<rparr>)" "\<not> faultless E"
proof (cases "shareContainerBuffer n = []")
  case True
  then have "minFlushBufferNodeIntoDisk E n s = Done () (s\<lparr>disk := disk s, tick := tick s\<rparr>)"
    by (simp add: minFlushBufferNodeIntoDisk_def)
  then show ?thesis by (rule written) (simp add: True)
next
  case False
  have path: "addPrefixDir (shareContainerDirName s) (shareContainerName n) = Some (shareContainerDirName s @ shareContainerName n)"
    using containerName_ok [OF assms] by simp
  have eq: "minFlushBufferNodeIntoDisk E n s =
      flushWhole E (shareContainerDirName s) (shareContainerName n) (shareContainerBuffer n) s"
    using False by (simp add: minFlushBufferNodeIntoDisk_def)
  show ?thesis
    by (rule flushWhole_cases [OF path False, where E = E and s = s]) (use eq False in \<open>auto intro: written failed\<close>)
qed

text \<open>A node whose container was written may leave the link.\<close>

lemma minFlush_unlink:
  assumes inv: "storeInv ssl c s" and link: "bufferLink s = pre @ n # rest"
    and run: "minFlushBufferNodeIntoDisk E n s = Done () s1"
  shows "storeInv ssl c (s1\<lparr>bufferLink := pre @ rest, tailBufferNode := ta\<rparr>)"
    "grows s (s1\<lparr>bufferLink := pre @ rest, tailBufferNode := ta\<rparr>)"
proof -
  have nm: "containerName (shareContainerName n)" using inv link by (auto simp: storeInv_def linkSound_def nodeSound_def)
  obtain m k where s1: "s1 = s\<lparr>disk := m, tick := k\<rparr>"
    "m = (if shareContainerBuffer n = [] then disk s
          else (disk s)(shareContainerDirName s @ shareContainerName n \<mapsto> shareContainerBuffer n))"
    by (rule minFlush_cases [OF nm, where E = E and s = s]) (use run in auto)
  show "storeInv ssl c (s1\<lparr>bufferLink := pre @ rest, tailBufferNode := ta\<rparr>)"
    "grows s (s1\<lparr>bufferLink := pre @ rest, tailBufferNode := ta\<rparr>)"
    by (rule unlink_inv [OF inv link]; simp add: s1)+
qed


text \<open>
  The walk over the link. With idle nodes that are flushed without faults, or without idle nodes, every
  share stays where readers find it, and the tail pointer stays usable.
\<close>

definition quiet :: "env \<Rightarrow> bufferNode list \<Rightarrow> bool" where
  "quiet E ns \<longleftrightarrow> faultless E \<or> (\<forall>m\<in>set ns. \<forall>i. clock E i - lastUseTime m \<le> MAX_BUFFER_WAIT_USECS)"

definition shareSame :: "dedupCore \<Rightarrow> dedupCore \<Rightarrow> bool" where
  "shareSame s t \<longleftrightarrow> db t = db s \<and> sent t = sent s \<and> nextAddr t = nextAddr s \<and>
     shareContainerDirName t = shareContainerDirName s \<and> globalShareContainerName t = globalShareContainerName s"

lemma minSweep_inv:
  assumes "storeInv ssl c (s\<lparr>bufferLink := pre @ rest\<rparr>)" "tailOk (s\<lparr>bufferLink := pre @ rest\<rparr>)" "quiet E rest"
    and "target = map_option bn_addr (find (\<lambda>m. bn_userID m = u) (rev pre))"
  shows "\<exists>t. minSweepLink E u pre rest target s =
      Done (map_option bn_addr (find (\<lambda>m. bn_userID m = u) (rev (bufferLink t)))) t \<and>
    storeInv ssl c t \<and> tailOk t \<and> grows (s\<lparr>bufferLink := pre @ rest\<rparr>) t \<and> shareSame s t"
  using assms
proof (induction rest arbitrary: pre target s)
  case Nil
  then show ?case by (intro exI [of _ "s\<lparr>bufferLink := pre\<rparr>"]) (simp add: shareSame_def)
next
  case (Cons m rest)
  let ?s = "s\<lparr>bufferLink := pre @ m # rest\<rparr>"
  have fr: "find P (xs @ [x]) = (case find P xs of Some y \<Rightarrow> Some y | None \<Rightarrow> if P x then Some x else None)"
    for P :: "bufferNode \<Rightarrow> bool" and xs x by (induction xs) auto
  have quiet: "quiet E rest" using Cons.prems(3) by (auto simp: quiet_def)
  have keep: "\<exists>t. minSweepLink E u (pre @ [m']) rest target' (tock s) =
      Done (map_option bn_addr (find (\<lambda>m. bn_userID m = u) (rev (bufferLink t)))) t \<and>
      storeInv ssl c t \<and> tailOk t \<and> grows ?s t \<and> shareSame s t"
    if m': "untime m' = untime m" and t': "target' = map_option bn_addr (find (\<lambda>m. bn_userID m = u) (rev (pre @ [m'])))" for m' target'
  proof -
    let ?s' = "(tock s)\<lparr>bufferLink := (pre @ [m']) @ rest\<rparr>"
    have key: "ckey m' = ckey m" "bn_addr m' = bn_addr m" by (rule untime_fields [OF m'])+
    have only: "recipeOnly ?s ?s'" using key by (simp add: recipeOnly_def)
    have "storeInv ssl c ?s'" by (rule storeInv_recipeOnly [OF Cons.prems(1) only])
    moreover have "tailOk ?s'" using Cons.prems(2) key by (cases rest) (simp_all add: tailOk_def)
    ultimately obtain t where "minSweepLink E u (pre @ [m']) rest target' (tock s) =
      Done (map_option bn_addr (find (\<lambda>m. bn_userID m = u) (rev (bufferLink t)))) t"
      "storeInv ssl c t" "tailOk t" "grows ?s' t" "shareSame (tock s) t"
      using Cons.IH [where pre = "pre @ [m']" and s = "tock s" and target = target', OF _ _ quiet t'] by blast
    then show ?thesis using grows_trans [OF recipeOnly_grows [OF only]] by (auto simp: shareSame_def)
  qed
  show ?case
  proof (cases "bn_userID m = u")
    case True
    show ?thesis
      using keep [of "m\<lparr>lastUseTime := clock E (tick s)\<rparr>" "Some (bn_addr m)"] True
      by (simp add: min_same getCurrTime_def)
  next
    case other: False
    show ?thesis
    proof (cases "clock E (tick s) - lastUseTime m > MAX_BUFFER_WAIT_USECS")
      case False
      then show ?thesis using keep [of m target] other Cons.prems(4) by (simp add: min_same getCurrTime_def)
    next
      case idle: True
      then have E: "faultless E" using Cons.prems(3) by (auto simp: quiet_def not_less [symmetric])
      have nm: "containerName (shareContainerName m)" using Cons.prems(1) by (auto simp: storeInv_def linkSound_def nodeSound_def)
      obtain d k where fl: "minFlushBufferNodeIntoDisk E m (tock s) = Done () ((tock s)\<lparr>disk := d, tick := k\<rparr>)"
        "d = (if shareContainerBuffer m = [] then disk (tock s)
              else (disk (tock s))(shareContainerDirName (tock s) @ shareContainerName m \<mapsto> shareContainerBuffer m))"
        by (rule minFlush_cases [OF nm, where E = E and s = "tock s"]) (use E in blast)+
      let ?ta = "tailAfterUnlink pre m (tailBufferNode s)"
      let ?s2 = "(tock s)\<lparr>disk := d, tick := k, tailBufferNode := ?ta\<rparr>"
      have 2: "storeInv ssl c (?s2\<lparr>bufferLink := pre @ rest\<rparr>)" "grows ?s (?s2\<lparr>bufferLink := pre @ rest\<rparr>)"
        by (rule unlink_inv [where pre = pre and n = m and rest = rest, OF Cons.prems(1)]; simp add: fl(2))+
      have "distinct (map bn_addr (pre @ m # rest))" using Cons.prems(1) by (simp add: storeInv_def linkSound_def)
      then have 3: "tailOk (?s2\<lparr>bufferLink := pre @ rest\<rparr>)"
        using Cons.prems(2) by (cases rest rule: rev_cases) (auto simp: tailOk_def tailAfterUnlink_def)
      obtain t where "minSweepLink E u pre rest target ?s2 =
          Done (map_option bn_addr (find (\<lambda>m. bn_userID m = u) (rev (bufferLink t)))) t"
        "storeInv ssl c t" "tailOk t" "grows (?s2\<lparr>bufferLink := pre @ rest\<rparr>) t" "shareSame ?s2 t"
        using Cons.IH [OF 2(1) 3 quiet Cons.prems(4)] by blast
      moreover have "minSweepLink E u pre (m # rest) target s = minSweepLink E u pre rest target ?s2"
        using other idle fl(1) by (simp add: min_same getCurrTime_def)
      ultimately show ?thesis using grows_trans [OF 2(2)] by (auto simp: shareSame_def)
    qed
  qed
qed


lemma backIn_self: "linkSound s \<Longrightarrow> n \<in> set (bufferLink s) \<Longrightarrow> backIn n s = s"
proof -
  assume ls: "linkSound s" and n: "n \<in> set (bufferLink s)"
  have "inj_on bn_addr (set (bufferLink s))" using ls by (simp add: linkSound_def distinct_map)
  then have "map (\<lambda>m. if bn_addr m = bn_addr n then n else m) (bufferLink s) = bufferLink s"
    using n by (intro map_idI) (auto simp: inj_on_def)
  then show ?thesis by (simp add: backIn_def)
qed

lemma minFindOrCreate_inv:
  assumes inv: "storeInv ssl c s" "tailOk s" "quiet E (bufferLink s)" and more: "nameVal (globalShareContainerName s) + 1 < 26 ^ 12"
  obtains n t where "minFindOrCreateBufferNode E u s = Done n t" "storeInv ssl c t" "tailOk t" "grows s t" "db t = db s"
    "sent t = sent s" "linked n t" "backIn n t = t" "bn_userID n = u"
    "nameVal (globalShareContainerName t) \<le> nameVal (globalShareContainerName s) + 1"
proof -
  obtain t where t: "minSweepLink E u [] (bufferLink s) None s =
      Done (map_option bn_addr (find (\<lambda>m. bn_userID m = u) (rev (bufferLink t)))) t"
    "storeInv ssl c t" "tailOk t" "grows s t" "shareSame s t"
    using minSweep_inv [where pre = "[]" and rest = "bufferLink s" and target = None and s = s and u = u, of ssl c E] inv by auto
  have ls: "linkSound t" using t by (simp add: storeInv_def)
  show ?thesis
  proof (cases "find (\<lambda>m. bn_userID m = u) (rev (bufferLink t))")
    case (Some n)
    then have n: "n \<in> set (bufferLink t)" "bn_userID n = u"
      using nth_mem [of _ "rev (bufferLink t)"] by (auto simp: find_Some_iff simp del: nth_mem)
    have "nodeAt (bn_addr n) (bufferLink t) = Some n"
      using find_distinct [OF _ n(1), of bn_addr] ls by (simp add: nodeAt_def linkSound_def)
    then have found: "minFindOrCreateBufferNode E u s = Done n t" using t(1) Some by (simp add: minFindOrCreateBufferNode_def)
    show ?thesis
      by (rule that [OF found t(2,3,4) _ _ _ backIn_self [OF ls n(1)] n(2)]) (use t(5) n(1) ls in \<open>simp_all add: shareSame_def linked_def\<close>)
  next
    case None
    have glob: "take 15 (globalShareContainerName t) = globalShareContainerName t" using ls by (simp add: linkSound_def validName_def)
    obtain n t1 where new: "minNewBufferNode E u t = (n, t1)" by (cases "minNewBufferNode E u t")
    define t2 where "t2 = t1\<lparr>bufferLink := bufferLink t @ [n], tailBufferNode := Some (bn_addr n)\<rparr>"
    have n: "bn_addr n = nextAddr t" "bn_userID n = u" "shareContainerName n = globalShareContainerName t" "shareContainerBuffer n = []"
      "t1 = (tock t)\<lparr>nextAddr := Suc (nextAddr t),
         globalShareContainerName := fst (incrGlobalFileName (globalShareContainerName t) 12)\<rparr>"
      using new glob by (auto simp: minNewBufferNode_def min_same getCurrTime_def)
    have link: "linkNode n t1 = Done () t2"
      using t(3) n(5) by (auto simp: linkNode_def tailOk_def t2_def)
    have more': "nameVal (globalShareContainerName t) + 1 < 26 ^ 12" using more t(5) by (simp add: shareSame_def)
    have inv2: "storeInv ssl c t2" "grows t t2" "nameVal (globalShareContainerName t2) = nameVal (globalShareContainerName t) + 1"
      by (rule new_node_inv [OF t(2) more' n(1,3,4)]; simp add: t2_def n(5))+
    then have ls2: "linkSound t2" by (simp add: storeInv_def)
    have run: "minFindOrCreateBufferNode E u s = Done n t2" using t(1) None new link by (simp add: minFindOrCreateBufferNode_def)
    have fields: "tailOk t2" "linked n t2" "n \<in> set (bufferLink t2)" "db t2 = db s" "sent t2 = sent s"
      using t(5) by (simp_all add: t2_def tailOk_def linked_def n(5) shareSame_def)
    have names: "nameVal (globalShareContainerName t2) \<le> nameVal (globalShareContainerName s) + 1"
      using inv2(3) t(5) by (simp add: shareSame_def)
    show ?thesis
      by (rule that [OF run inv2(1) fields(1) grows_trans [OF t(4) inv2(2)] fields(4,5,2) backIn_self [OF ls2 fields(3)] n(2) names])
  qed
qed


section \<open>The second stage\<close>

text \<open>The entries with the flags of the first stage; the data that has to come, and that it has the right hashes.\<close>

definition wanted :: "(bool \<times> shareMDEntry) list \<Rightarrow> int" where
  "wanted zs = sum_list (map (\<lambda>(dup, e). if dup then 0 else mde_shareSize e) zs)"

fun sharesIn :: "openssl \<Rightarrow> cryptoPrimitive \<Rightarrow> (bool \<times> shareMDEntry) list \<Rightarrow> bytes \<Rightarrow> bool" where
  "sharesIn ssl c [] dat = True"
| "sharesIn ssl c ((dup, e) # zs) dat =
     (if dup then sharesIn ssl c zs dat
      else generateHash ssl c (take (nat (mde_shareSize e)) dat) = Inr (mde_shareFP e) \<and>
        sharesIn ssl c zs (drop (nat (mde_shareSize e)) dat))"

definition fitEntry :: "shareMDEntry \<Rightarrow> bool" where
  "fitEntry e \<longleftrightarrow> okMDEntry e \<and> 0 < mde_shareSize e \<and> mde_shareSize e \<le> CONTAINER_BUFFER_SIZE"

lemma wanted_simps [simp]:
  "wanted [] = 0" "wanted (z # zs) = (if fst z then 0 else mde_shareSize (snd z)) + wanted zs"
  "wanted (xs @ ys) = wanted xs + wanted ys"
  by (simp_all add: wanted_def case_prod_beta)

lemma wanted_nonneg: "\<forall>z\<in>set zs. fitEntry (snd z) \<Longrightarrow> 0 \<le> wanted zs"
  by (induction zs) (auto simp: fitEntry_def)

lemma sharesIn_append:
  "\<forall>z\<in>set xs. fitEntry (snd z) \<Longrightarrow>
     sharesIn ssl c (xs @ ys) dat \<longleftrightarrow> sharesIn ssl c xs dat \<and> sharesIn ssl c ys (drop (nat (wanted xs)) dat)"
proof (induction xs arbitrary: dat)
  case (Cons x xs)
  then show ?case using wanted_nonneg [of xs] by (cases x) (auto simp: fitEntry_def nat_add_distrib add.commute)
qed simp

lemma minStoreShare_inv:
  assumes inv: "storeInv ssl c (backIn n s)" "linked n s"
    and more: "nameVal (globalShareContainerName s) + 1 < 26 ^ 12" and e: "fitEntry e" and u: "int32 u" "0 < u"
    and hash: "crypto_valid ssl c" "hashSize c = 32" and off: "0 \<le> off" "off + mde_shareSize e \<le> int (length dat)"
  shows "case minStoreShare E ssl c u dat off e (n, s) of
      Done x st' \<Rightarrow> shareStep ssl c 1 (n, s) st' \<and> (faultless E \<longrightarrow> db (snd st') (shareFP2IndexKey (mde_shareFP e)) \<noteq> None)
    | Fails st' \<Rightarrow> shareStep ssl c 1 (n, s) st' \<and>
        (faultless E \<longrightarrow> generateHash ssl c (slice (nat off) (nat (mde_shareSize e)) dat) \<noteq> Inr (mde_shareFP e))
    | Crash e \<Rightarrow> False"
proof -
  obtain fp where fp: "generateHash ssl c (slice (nat off) (nat (mde_shareSize e)) dat) = Inr fp" "length fp = 32"
    using crypto.hashE [OF hash(1)] hash(2) by (metis nat_numeral)
  have size: "0 < mde_shareSize e" "mde_shareSize e \<le> CONTAINER_BUFFER_SIZE" using e by (simp_all add: fitEntry_def)
  show ?thesis
  proof (cases "mde_shareFP e = fp")
    case True
    have eq: "minStoreShare E ssl c u dat off e (n, s) = interUserIndexUpdate E fp u (mde_shareSize e) dat off (n, s)"
      using fp size off True by (simp add: minStoreShare_def min_same)
    have ne: "mde_shareSize e \<noteq> 0" using size by simp
    note upd = interUserIndexUpdate_inv [OF inv more fp(1) ne u, of E]
      and run = inter_run [OF inv more u, where E = E and fp = fp and sz = "mde_shareSize e" and dat = dat and off = off]
    show ?thesis using upd run size off True unfolding eq by (auto split: outcome.splits)
  next
    case False
    have "shareStep ssl c 0 (n, s) (n, s)" using inv by (simp add: shareStep_def shareFrame_refl)
    then show ?thesis using fp size off False shareStep_mono [of ssl c 0 "(n, s)" "(n, s)" 1]
      by (auto simp: minStoreShare_def guardO_def)
  qed
qed

lemma minEntries_inv:
  assumes "storeInv ssl c (backIn n s)" "linked n s"
    and "nameVal (globalShareContainerName s) + length es < 26 ^ 12" and "\<forall>e\<in>set es. fitEntry e"
    and "mdBuf = pre @ concat (map putMDEntry es) @ post" "off = int (length pre)"
    and "num + length es \<le> length dups" "0 \<le> dataOff" "dataOff + wanted (zip (drop num dups) es) \<le> int (length dat)"
    and u: "int32 u" "0 < u" and hash: "crypto_valid ssl c" "hashSize c = 32"
  shows "case minSecondStageEntries E ssl c u mdBuf dups dat (length es) off dataOff num (n, s) of
      Done r st' \<Rightarrow> r = (off + 44 * int (length es), dataOff + wanted (zip (drop num dups) es), num + length es) \<and>
        shareStep ssl c (length es) (n, s) st' \<and>
        (faultless E \<longrightarrow> (\<forall>z\<in>set (zip (drop num dups) es). \<not> fst z \<longrightarrow> db (snd st') (shareFP2IndexKey (mde_shareFP (snd z))) \<noteq> None))
    | Fails st' \<Rightarrow> shareStep ssl c (length es) (n, s) st' \<and>
        (faultless E \<longrightarrow> \<not> sharesIn ssl c (zip (drop num dups) es) (drop (nat dataOff) dat))
    | Crash e \<Rightarrow> False"
  using assms(1-9)
proof (induction es arbitrary: pre off num dataOff n s)
  case Nil
  then show ?case by (simp add: shareStep_def shareFrame_refl)
next
  case (Cons e es)
  note inv = Cons.prems(1,2)
  have fit: "fitEntry e" "\<forall>e\<in>set es. fitEntry e" "okMDEntry e" using Cons.prems(4) by (simp_all add: fitEntry_def)
  define dup where "dup = dups ! num"
  have num: "num < length dups" using Cons.prems(7) by simp
  have zip: "zip (drop num dups) (e # es) = (dup, e) # zip (drop (Suc num) dups) es"
    using num by (simp add: dup_def flip: Cons_nth_drop_Suc)
  let ?zs = "zip (drop (Suc num) dups) es"
  have nonneg: "0 \<le> wanted ?zs" by (rule wanted_nonneg) (use fit in \<open>auto dest: set_zip_rightD\<close>)
  have read: "structAt 44 getMDEntry mdBuf off = Some e"
    using mdEntry.at_middle [OF fit(3) Cons.prems(6), of "concat (map putMDEntry es) @ post"] Cons.prems(5) by simp
  have flag: "bufAt dups (int num) = Some dup" using num by (simp add: bufAt_def dup_def)
  let ?sz = "if dup then 0 else mde_shareSize e"
  have size: "0 < mde_shareSize e" using fit by (simp add: fitEntry_def)
  define r3 where "r3 = (if dup then Done () (n, s) else minStoreShare E ssl c u dat dataOff e (n, s))"
  have room: "dataOff + ?sz + wanted ?zs \<le> int (length dat)" using Cons.prems(9) zip by (simp split: if_splits)
  have refl: "shareStep ssl c 1 (n, s) (n, s)" using inv by (simp add: shareStep_def shareFrame_refl)
  have r3: "case r3 of
      Done x st3 \<Rightarrow> shareStep ssl c 1 (n, s) st3 \<and>
        (faultless E \<and> \<not> dup \<longrightarrow> db (snd st3) (shareFP2IndexKey (mde_shareFP e)) \<noteq> None)
    | Fails st3 \<Rightarrow> shareStep ssl c 1 (n, s) st3 \<and> \<not> dup \<and>
        (faultless E \<longrightarrow> generateHash ssl c (slice (nat dataOff) (nat (mde_shareSize e)) dat) \<noteq> Inr (mde_shareFP e))
    | Crash e \<Rightarrow> False"
  proof (cases dup)
    case True
    then show ?thesis using refl by (simp add: r3_def)
  next
    case False
    then have "dataOff + mde_shareSize e \<le> int (length dat)" using room nonneg by simp
    then show ?thesis
      using minStoreShare_inv [OF inv _ fit(1) u hash Cons.prems(8), of dat E] Cons.prems(3) False
      by (auto simp: r3_def split: outcome.splits)
  qed
  have run: "minSecondStageEntries E ssl c u mdBuf dups dat (length (e # es)) off dataOff num (n, s) =
      bindO r3 (\<lambda>_ st3. minSecondStageEntries E ssl c u mdBuf dups dat (length es) (off + 44) (dataOff + ?sz) (Suc num) st3)"
    using read flag by (simp add: r3_def)
  show ?case
  proof (cases rule: outcome_cases3 [where r = r3])
    case (Done x n3 s3)
    have 3: "shareStep ssl c 1 (n, s) (n3, s3)"
      "faultless E \<and> \<not> dup \<longrightarrow> db s3 (shareFP2IndexKey (mde_shareFP e)) \<noteq> None" using r3 Done by simp_all
    have inv3: "storeInv ssl c (backIn n3 s3)" "linked n3 s3"
      "nameVal (globalShareContainerName s3) + length es < 26 ^ 12"
      using 3(1) Cons.prems(3) by (simp_all add: shareStep_def)
    have buf: "mdBuf = (pre @ putMDEntry e) @ concat (map putMDEntry es) @ post" using Cons.prems(5) by simp
    have off: "off + 44 = int (length (pre @ putMDEntry e))" using Cons.prems(6) mdEntry.length_put [OF fit(3)] by simp
    have n4: "Suc num + length es \<le> length dups" "0 \<le> dataOff + ?sz" using Cons.prems(7,8) size by simp_all
    note IH = Cons.IH [OF inv3(1,2,3) fit(2) buf off n4 room]
    have drop: "drop (nat (dataOff + ?sz)) dat = drop (nat ?sz) (drop (nat dataOff) dat)"
      using Cons.prems(8) size by (simp add: nat_add_distrib add.commute)
    show ?thesis
    proof (cases rule: outcome_cases3 [where r = "minSecondStageEntries E ssl c u mdBuf dups dat (length es) (off + 44) (dataOff + ?sz) (Suc num) (n3, s3)"])
      case rest: (Done r n4 s4)
      have 4: "r = (off + 44 + 44 * int (length es), dataOff + ?sz + wanted ?zs, Suc num + length es)"
        "shareStep ssl c (length es) (n3, s3) (n4, s4)"
        "faultless E \<longrightarrow> (\<forall>z\<in>set ?zs. \<not> fst z \<longrightarrow> db s4 (shareFP2IndexKey (mde_shareFP (snd z))) \<noteq> None)"
        using IH rest by simp_all
      have "keepsPlaces s3 s4" using 4(2) by (simp add: shareStep_def shareFrame_def)
      then have "faultless E \<and> \<not> dup \<longrightarrow> db s4 (shareFP2IndexKey (mde_shareFP e)) \<noteq> None"
        using 3(2) keepsPlaces_db by blast
      then show ?thesis using 4 shareStep_trans [OF 3(1) 4(2)] unfolding run zip by (simp add: Done rest)
    next
      case rest: (Fails n4 s4)
      have 4: "shareStep ssl c (length es) (n3, s3) (n4, s4)"
        "faultless E \<longrightarrow> \<not> sharesIn ssl c ?zs (drop (nat (dataOff + ?sz)) dat)" using IH rest by simp_all
      then show ?thesis using shareStep_trans [OF 3(1) 4(1)] drop unfolding run zip by (auto simp: Done rest)
    next
      case (Crash e)
      then show ?thesis using IH by simp
    qed
  next
    case (Fails n3 s3)
    then show ?thesis using r3 shareStep_mono [of ssl c 1 "(n, s)" "(n3, s3)" "length (e # es)"] unfolding run zip
      by (auto simp: slice_def)
  next
    case (Crash e)
    then show ?thesis using r3 by simp
  qed
qed


lemma minLoop_file:
  assumes f: "okFile (h, name, es)" and buf: "mdBuf = pre @ packFile (h, name, es) @ post" and off: "off = int (length pre)"
    and size: "off < mdSize"
  shows "minSecondStageLoop E ssl c u mdBuf mdSize dups dat off dataOff num st =
      (case formatFullFileName name of
         None \<Rightarrow> Fails st
       | Some full \<Rightarrow>
           (case minSecondStageEntries E ssl c u mdBuf dups dat (length es) (off + 48 + int (length name)) dataOff num st of
              Crash e \<Rightarrow> Crash e
            | Fails st1 \<Rightarrow> Fails st1
            | Done (off1, dataOff1, num1) st1 \<Rightarrow> minSecondStageLoop E ssl c u mdBuf mdSize dups dat off1 dataOff1 num1 st1))"
proof -
  have ok: "okMDHead h" "mdh_fullNameSize h = int (length name)" "nat (mdh_numOfComingSecrets h) = length es" using f by simp_all
  have len: "length (putMDHead h) = 48" by (rule mdHead.length_put [OF ok(1)])
  have head: "structAt 48 getMDHead mdBuf off = Some h"
    using mdHead.at_middle [OF ok(1) off, of "name @ concat (map putMDEntry es) @ post"] buf by simp
  have "slice (nat (off + 48)) (nat (int (length name))) mdBuf = name"
    unfolding buf off by (simp add: slice_def len nat_add_distrib)
  moreover have "\<not> int (length mdBuf) < off + 48 + int (length name)" unfolding buf off by (simp add: len)
  ultimately show ?thesis
    by (subst minSecondStageLoop.simps) (simp add: size head ok(2,3) min_same split: option.split)
qed

definition fitFile :: "md_file \<Rightarrow> bool" where
  "fitFile f \<longleftrightarrow> okFile f \<and> (\<forall>e\<in>set (snd (snd f)). fitEntry e)"

lemma zip_entries: "zip (drop num dups) (xs @ ys) = zip (drop num dups) xs @ zip (drop (num + length xs) dups) ys"
proof -
  have "zip (take (length xs) zs) xs = zip zs xs" for zs :: "'a list"
    using take_zip [of "length xs" zs xs] by simp
  then show ?thesis by (simp add: zip_append2 add.commute)
qed

lemma minLoop_inv:
  assumes "storeInv ssl c (backIn n s)" "linked n s" "\<forall>f\<in>set files. fitFile f"
    and "nameVal (globalShareContainerName s) + length (entriesOf files) < 26 ^ 12"
    and "off = int (length pre)" "mdSize = off + int (length (packageOf files))"
    and "num + length (entriesOf files) \<le> length dups" "0 \<le> dataOff"
      "dataOff + wanted (zip (drop num dups) (entriesOf files)) \<le> int (length dat)"
    and u: "int32 u" "0 < u" and hash: "crypto_valid ssl c" "hashSize c = 32"
  shows "case minSecondStageLoop E ssl c u (pre @ packageOf files @ post) mdSize dups dat off dataOff num (n, s) of
      Done x st' \<Rightarrow> shareStep ssl c (length (entriesOf files)) (n, s) st' \<and>
        (faultless E \<longrightarrow> (\<forall>z\<in>set (zip (drop num dups) (entriesOf files)). \<not> fst z \<longrightarrow>
          db (snd st') (shareFP2IndexKey (mde_shareFP (snd z))) \<noteq> None))
    | Fails st' \<Rightarrow> shareStep ssl c (length (entriesOf files)) (n, s) st' \<and>
        (faultless E \<longrightarrow> (\<exists>f\<in>set files. formatFullFileName (fst (snd f)) = None) \<or>
          \<not> sharesIn ssl c (zip (drop num dups) (entriesOf files)) (drop (nat dataOff) dat))
    | Crash e \<Rightarrow> False"
  using assms(1-9)
proof (induction files arbitrary: pre off dataOff num n s)
  case Nil
  then show ?case by (subst minSecondStageLoop.simps) (simp add: packageOf_def shareStep_def shareFrame_refl)
next
  case (Cons f files)
  obtain h name es where f: "f = (h, name, es)" by (cases f)
  have ok: "okFile (h, name, es)" "\<forall>e\<in>set es. fitEntry e" using Cons.prems(3) f by (simp_all add: fitFile_def del: okFile.simps)
  note inv = Cons.prems(1,2)
  let ?buf = "pre @ packageOf (f # files) @ post"
  have buf: "?buf = pre @ packFile (h, name, es) @ (packageOf files @ post)" by (simp add: packageOf_def f)
  note at = packFile_at [OF ok(1) Cons.prems(5)]
  have size: "off < mdSize" using Cons.prems(6) at(4) by (simp add: packageOf_def f del: packFile.simps length_greater_0_conv)
  note loop = minLoop_file [OF ok(1) buf Cons.prems(5) size]
  define zs where "zs = zip (drop num dups) es"
  define ws where "ws = zip (drop (num + length es) dups) (entriesOf files)"
  have split: "zip (drop num dups) (entriesOf (f # files)) = zs @ ws"
    using zip_entries [of num dups es "entriesOf files"] f by (simp add: zs_def ws_def)
  have fits: "\<forall>z\<in>set zs. fitEntry (snd z)" "\<forall>z\<in>set ws. fitEntry (snd z)"
  proof -
    show "\<forall>z\<in>set zs. fitEntry (snd z)" using ok(2) by (auto simp: zs_def dest: set_zip_rightD)
    have "\<forall>e\<in>set (entriesOf fs). fitEntry e" if "\<forall>f\<in>set fs. fitFile f" for fs
      using that by (induction fs rule: entriesOf.induct) (auto simp: fitFile_def)
    then show "\<forall>z\<in>set ws. fitEntry (snd z)" using Cons.prems(3) by (auto simp: ws_def dest: set_zip_rightD)
  qed
  show ?case
  proof (cases "formatFullFileName name")
    case None
    have "shareStep ssl c (length (entriesOf (f # files))) (n, s) (n, s)" using inv by (simp add: shareStep_def shareFrame_refl)
    then show ?thesis using None by (simp add: loop) (simp add: f)
  next
    case (Some full)
    have nm: "nameVal (globalShareContainerName s) + length es < 26 ^ 12" "num + length es \<le> length dups"
      "dataOff + wanted zs + wanted ws \<le> int (length dat)"
      using Cons.prems(4,7,9) split f by simp_all
    have room: "dataOff + wanted (zip (drop num dups) es) \<le> int (length dat)"
      using nm(3) wanted_nonneg [OF fits(2)] by (simp add: zs_def)
    note one = minEntries_inv [OF inv nm(1) ok(2) buf [unfolded at(1)] at(2) nm(2) Cons.prems(8) room u hash,
        where E = E, folded zs_def]
    show ?thesis
    proof (cases rule: outcome_cases3 [where r = "minSecondStageEntries E ssl c u ?buf dups dat (length es) (off + 48 + int (length name)) dataOff num (n, s)"])
      case (Done r n1 s1)
      have 1: "r = (int (length (pre @ packFile (h, name, es))), dataOff + wanted zs, num + length es)"
        "shareStep ssl c (length es) (n, s) (n1, s1)"
        "faultless E \<longrightarrow> (\<forall>z\<in>set zs. \<not> fst z \<longrightarrow> db s1 (shareFP2IndexKey (mde_shareFP (snd z))) \<noteq> None)"
        using one Done at(3) by (simp_all del: packFile.simps)
      have inv1: "storeInv ssl c (backIn n1 s1)" "linked n1 s1" "\<forall>f\<in>set files. fitFile f"
        "nameVal (globalShareContainerName s1) + length (entriesOf files) < 26 ^ 12"
        using 1(2) Cons.prems(3,4) f by (simp_all add: shareStep_def)
      have n1: "mdSize = int (length (pre @ packFile (h, name, es))) + int (length (packageOf files))"
        "num + length es + length (entriesOf files) \<le> length dups" "0 \<le> dataOff + wanted zs"
        using Cons.prems(5,6,7,8) f wanted_nonneg [OF fits(1)] by (simp_all add: packageOf_def)
      note IH = Cons.IH [OF inv1 refl n1 nm(3) [unfolded ws_def], folded ws_def]
      have buf1: "(pre @ packFile (h, name, es)) @ packageOf files @ post = ?buf" using buf by simp
      have eq: "minSecondStageLoop E ssl c u ?buf mdSize dups dat off dataOff num (n, s) =
          minSecondStageLoop E ssl c u ?buf mdSize dups dat (int (length (pre @ packFile (h, name, es)))) (dataOff + wanted zs) (num + length es) (n1, s1)"
        using Some Done 1(1) by (simp add: loop del: packFile.simps)
      have drop: "drop (nat (dataOff + wanted zs)) dat = drop (nat (wanted zs)) (drop (nat dataOff) dat)"
        using Cons.prems(8) wanted_nonneg [OF fits(1)] by (simp add: nat_add_distrib add.commute)
      show ?thesis
      proof (cases rule: outcome_cases3 [where r = "minSecondStageLoop E ssl c u ?buf mdSize dups dat (int (length (pre @ packFile (h, name, es)))) (dataOff + wanted zs) (num + length es) (n1, s1)"])
        case rest: (Done x n2 s2)
        have 2: "shareStep ssl c (length (entriesOf files)) (n1, s1) (n2, s2)"
          "faultless E \<longrightarrow> (\<forall>z\<in>set ws. \<not> fst z \<longrightarrow> db s2 (shareFP2IndexKey (mde_shareFP (snd z))) \<noteq> None)"
          using IH [unfolded buf1 rest] by simp_all
        have "keepsPlaces s1 s2" using 2(1) by (simp add: shareStep_def shareFrame_def)
        then have "faultless E \<longrightarrow> (\<forall>z\<in>set zs. \<not> fst z \<longrightarrow> db s2 (shareFP2IndexKey (mde_shareFP (snd z))) \<noteq> None)"
          using 1(3) keepsPlaces_db by blast
        then show ?thesis using 2(2) shareStep_trans [OF 1(2) 2(1)] f unfolding eq rest split by auto
      next
        case rest: (Fails n2 s2)
        have 2: "shareStep ssl c (length (entriesOf files)) (n1, s1) (n2, s2)"
          "faultless E \<longrightarrow> (\<exists>f\<in>set files. formatFullFileName (fst (snd f)) = None) \<or>
             \<not> sharesIn ssl c ws (drop (nat (dataOff + wanted zs)) dat)"
          using IH [unfolded buf1 rest] by simp_all
        show ?thesis using 2(2) shareStep_trans [OF 1(2) 2(1)] f drop sharesIn_append [OF fits(1), of ssl c ws]
          unfolding eq rest split by auto
      next
        case (Crash e)
        then show ?thesis using IH [unfolded buf1] by simp
      qed
    next
      case (Fails n1 s1)
      then have 1: "shareStep ssl c (length es) (n, s) (n1, s1)" "faultless E \<longrightarrow> \<not> sharesIn ssl c zs (drop (nat dataOff) dat)"
        using one by simp_all
      have "shareStep ssl c (length (entriesOf (f # files))) (n, s) (n1, s1)" by (rule shareStep_mono [OF 1(1)]) (simp add: f)
      then show ?thesis using Some Fails 1(2) sharesIn_append [OF fits(1), of ssl c ws] unfolding split by (auto simp: loop)
    next
      case (Crash e)
      then show ?thesis using one by simp
    qed
  qed
qed


lemma tailOk_backIn [simp]: "tailOk (backIn n s) = tailOk s"
proof -
  have "last (bufferLink (backIn n s)) = (if bn_addr (last (bufferLink s)) = bn_addr n then n else last (bufferLink s))"
    if "bufferLink s \<noteq> []" using that by (simp add: backIn_def last_map)
  then show ?thesis by (auto simp: tailOk_def backIn_def)
qed

lemma minSecondStage_step:
  assumes inv: "storeInv ssl c s" "tailOk s" "quiet E (bufferLink s)" and u: "int32 u" "0 < u"
    and hash: "crypto_valid ssl c" "hashSize c = 32"
    and files: "\<forall>f\<in>set files. fitFile f" "nameVal (globalShareContainerName s) + Suc (length (entriesOf files)) < 26 ^ 12"
      "length (entriesOf files) \<le> length dups" "wanted (zip dups (entriesOf files)) \<le> int (length dat)"
  shows "case minSecondStageDedup E ssl (Some c) u (packageOf files @ rest) (int (length (packageOf files))) dups dat s of
      Done x s' \<Rightarrow> storeInv ssl c s' \<and> tailOk s' \<and> grows s s' \<and> keepsPlaces s s' \<and> sent s' = sent s \<and>
        nameVal (globalShareContainerName s') \<le> nameVal (globalShareContainerName s) + Suc (length (entriesOf files)) \<and>
        (faultless E \<longrightarrow> (\<forall>z\<in>set (zip dups (entriesOf files)). \<not> fst z \<longrightarrow> db s' (shareFP2IndexKey (mde_shareFP (snd z))) \<noteq> None))
    | Fails s' \<Rightarrow> storeInv ssl c s' \<and> tailOk s' \<and> grows s s' \<and> keepsPlaces s s' \<and> sent s' = sent s \<and>
        nameVal (globalShareContainerName s') \<le> nameVal (globalShareContainerName s) + Suc (length (entriesOf files)) \<and>
        (faultless E \<longrightarrow> (\<exists>f\<in>set files. formatFullFileName (fst (snd f)) = None) \<or>
          \<not> sharesIn ssl c (zip dups (entriesOf files)) dat)
    | Crash e \<Rightarrow> False"
proof -
  have "nameVal (globalShareContainerName s) + 1 < 26 ^ 12" using files(2) by simp
  then obtain n t where t: "minFindOrCreateBufferNode E u s = Done n t" "storeInv ssl c t" "tailOk t" "grows s t" "db t = db s"
    "sent t = sent s" "linked n t" "backIn n t = t" "bn_userID n = u"
    "nameVal (globalShareContainerName t) \<le> nameVal (globalShareContainerName s) + 1"
    by (rule minFindOrCreate_inv [OF inv, where u = u])
  have nm: "nameVal (globalShareContainerName t) + length (entriesOf files) < 26 ^ 12" using t(10) files(2) by linarith
  have inv': "storeInv ssl c (backIn n t)" using t(2,8) by simp
  note loop = minLoop_inv [where n = n and s = t and pre = "[]" and num = 0 and dataOff = 0 and post = rest and E = E and files = files
      and dups = dups and dat = dat, OF inv' t(7) files(1) nm _ refl _ _ _ u hash, of 0, simplified]
  have frame: "storeInv ssl c (backIn n2 s2) \<and> tailOk s2 \<and> grows s (backIn n2 s2) \<and> keepsPlaces s s2 \<and> sent s2 = sent s \<and>
      nameVal (globalShareContainerName s2) \<le> nameVal (globalShareContainerName s) + Suc k"
    if "shareStep ssl c k (n, t) (n2, s2)" for k n2 s2
  proof -
    have "grows t (backIn n2 s2)" "keepsPlaces t s2" "bufferLink s2 = bufferLink t" "tailBufferNode s2 = tailBufferNode t" "sent s2 = sent t"
      "storeInv ssl c (backIn n2 s2)" "nameVal (globalShareContainerName s2) \<le> nameVal (globalShareContainerName t) + k"
      using that t(8) by (simp_all add: shareStep_def shareFrame_def)
    moreover have "keepsPlaces s t" by (rule keepsPlaces_same) (simp add: t(5))
    ultimately show ?thesis using grows_trans [OF t(4)] keepsPlaces_trans t(3,6,10) by (auto simp: tailOk_def)
  qed
  let ?r = "minSecondStageLoop E ssl c u (packageOf files @ rest) (int (length (packageOf files))) dups dat 0 0 0 (n, t)"
  show ?thesis
  proof (cases rule: outcome_cases3 [where r = ?r])
    case (Done x n2 s2)
    then show ?thesis using loop files(3,4) frame [of "length (entriesOf files)" n2 s2] t(1) by (simp add: minSecondStageDedup_def)
  next
    case (Fails n2 s2)
    then show ?thesis using loop files(3,4) frame [of "length (entriesOf files)" n2 s2] t(1) by (simp add: minSecondStageDedup_def)
  next
    case (Crash e)
    then show ?thesis using loop files(3,4) by simp
  qed
qed

section \<open>Restoring\<close>

lemma minRestoreShare_run:
  assumes E: "faultless E" and snd: "sharesSound ssl c s" and e: "restorable s e"
    and at: "disk s path = Some contents" "slice (rs_pos r) 40 contents = putRecipeEntry e"
    and r: "cacheOk s r" "int (length (rs_out r)) \<le> SHARE_FILE_BUFFER_SIZE"
  shows "\<exists>r' k' ps. minRestoreShare E path (r, later k ms s) = Done () (r', later k' (ms @ map restoreMsg ps) s) \<and>
    (\<forall>rest. packMsgs (rs_out r) (entryBytes s e # rest) = ps @ packMsgs (rs_out r') rest) \<and> cacheOk s r' \<and> rs_pos r' = rs_pos r + 40 \<and>
    int (length (rs_out r')) \<le> SHARE_FILE_BUFFER_SIZE \<and> (\<forall>p\<in>set ps. int (length p) \<le> SHARE_FILE_BUFFER_SIZE)"
proof -
  have ok: "okRecipeEntry e" using e by (simp add: restorable_def)
  have len: "length (putRecipeEntry e) = 40" by (rule recipeEntry.length_put [OF ok])
  then have ne: "putRecipeEntry e \<noteq> []" by auto
  let ?r1 = "r\<lparr>rs_recipe := overwrite (putRecipeEntry e) (rs_recipe r), rs_pos := rs_pos r + 40\<rparr>"
  have r1: "cacheOk s ?r1" "int (length (rs_out ?r1)) \<le> SHARE_FILE_BUFFER_SIZE" using r by (simp_all add: cacheOk_def)
  have entry: "structAt 40 getRecipeEntry (rs_recipe ?r1) 0 = Some e"
    using recipeEntry.at_start [OF ok] by (simp add: overwrite_def)
  have read: "freadUpTo E path (rs_pos r) 40 (later k ms s) = (putRecipeEntry e, later (Suc k) ms s)"
    using E at by (simp add: freadUpTo_def faultless_def fileContents_def tock_def)
  obtain v h r' k' ps where *: "db s (shareFP2IndexKey (fre_shareFP e)) = Some v" "structAt 28 getShareHead v 0 = Some h"
    "bindO (cacheContainer E (sih_shareContainerName h) (?r1, later (Suc (Suc k)) ms s)) (\<lambda>_ st. emitShare E e h st) =
       Done () (r', later k' (ms @ map restoreMsg ps) s)"
    "\<forall>rest. packMsgs (rs_out ?r1) (entryBytes s e # rest) = ps @ packMsgs (rs_out r') rest" "cacheOk s r'" "rs_recipe r' = rs_recipe ?r1"
    "rs_off r' = rs_off ?r1" "rs_pos r' = rs_pos ?r1" "int (length (rs_out r')) \<le> SHARE_FILE_BUFFER_SIZE"
    "\<forall>p\<in>set ps. int (length p) \<le> SHARE_FILE_BUFFER_SIZE"
    by (rule sendShare_run [OF E snd e r1, where k = "Suc (Suc k)" and ms = ms])
  have "minRestoreShare E path (r, later k ms s) = Done () (r', later k' (ms @ map restoreMsg ps) s)"
    using E *(1-3) read ne len entry by (simp add: minRestoreShare_def min_same Let_def tock_def)
  then show ?thesis using *(4-10) by auto
qed


lemma minRestoreLoop_run:
  assumes E: "faultless E" and snd: "sharesSound ssl c s" and at: "disk s path = Some contents"
  shows "\<forall>e\<in>set es. restorable s e \<Longrightarrow> contents = pre @ concat (map putRecipeEntry es) @ post \<Longrightarrow> rs_pos r = length pre \<Longrightarrow>
    cacheOk s r \<Longrightarrow> int (length (rs_out r)) \<le> SHARE_FILE_BUFFER_SIZE \<Longrightarrow>
    \<exists>r' k' ps. minRestoreLoop E path (length es) (r, later k ms s) = Done () (r', later k' (ms @ map restoreMsg ps) s) \<and>
      (\<forall>rest. packMsgs (rs_out r) (map (entryBytes s) es @ rest) = ps @ packMsgs (rs_out r') rest) \<and>
      int (length (rs_out r')) \<le> SHARE_FILE_BUFFER_SIZE \<and> (\<forall>p\<in>set ps. int (length p) \<le> SHARE_FILE_BUFFER_SIZE)"
proof (induction es arbitrary: pre r k ms)
  case Nil
  then show ?case by (intro exI [of _ r] exI [of _ k] exI [of _ "[]"]) simp
next
  case (Cons e es)
  have e: "restorable s e" "\<forall>e\<in>set es. restorable s e" "okRecipeEntry e" using Cons.prems(1) by (simp_all add: restorable_def)
  have len: "length (putRecipeEntry e) = 40" by (rule recipeEntry.length_put [OF e(3)])
  have sl: "slice (rs_pos r) 40 contents = putRecipeEntry e" using Cons.prems(2,3) len by (simp add: slice_def)
  obtain r1 k1 ps1 where 1: "minRestoreShare E path (r, later k ms s) = Done () (r1, later k1 (ms @ map restoreMsg ps1) s)"
    "\<forall>rest. packMsgs (rs_out r) (entryBytes s e # rest) = ps1 @ packMsgs (rs_out r1) rest" "cacheOk s r1" "rs_pos r1 = rs_pos r + 40"
    "int (length (rs_out r1)) \<le> SHARE_FILE_BUFFER_SIZE" "\<forall>p\<in>set ps1. int (length p) \<le> SHARE_FILE_BUFFER_SIZE"
    using minRestoreShare_run [OF E snd e(1) at sl Cons.prems(4,5), where k = k and ms = ms] by blast
  have "\<exists>r' k' ps. minRestoreLoop E path (length es) (r1, later k1 (ms @ map restoreMsg ps1) s) =
      Done () (r', later k' ((ms @ map restoreMsg ps1) @ map restoreMsg ps) s) \<and>
      (\<forall>rest. packMsgs (rs_out r1) (map (entryBytes s) es @ rest) = ps @ packMsgs (rs_out r') rest) \<and>
      int (length (rs_out r')) \<le> SHARE_FILE_BUFFER_SIZE \<and> (\<forall>p\<in>set ps. int (length p) \<le> SHARE_FILE_BUFFER_SIZE)"
    by (rule Cons.IH [where pre = "pre @ putRecipeEntry e"]) (use Cons.prems e 1 len in simp_all)
  then obtain r2 k2 ps2 where 2: "minRestoreLoop E path (length es) (r1, later k1 (ms @ map restoreMsg ps1) s) =
      Done () (r2, later k2 ((ms @ map restoreMsg ps1) @ map restoreMsg ps2) s)"
    "\<forall>rest. packMsgs (rs_out r1) (map (entryBytes s) es @ rest) = ps2 @ packMsgs (rs_out r2) rest"
    "int (length (rs_out r2)) \<le> SHARE_FILE_BUFFER_SIZE" "\<forall>p\<in>set ps2. int (length p) \<le> SHARE_FILE_BUFFER_SIZE"
    by blast
  have "\<forall>rest. packMsgs (rs_out r) (map (entryBytes s) (e # es) @ rest) = (ps1 @ ps2) @ packMsgs (rs_out r2) rest"
    using 1(2) 2(2) by simp
  then show ?case using 1 2
    by (intro exI [of _ r2] exI [of _ k2] exI [of _ "ps1 @ ps2"]) auto
qed

text \<open>A recipe file as the meta server hands it over: one head and its entries.\<close>

definition recipeFileOf :: "int \<Rightarrow> int \<Rightarrow> fileRecipeEntry list \<Rightarrow> bytes" where
  "recipeFileOf u fileSize es =
     putRecipeHead \<lparr> frh_userID = u, frh_fileSize = fileSize, frh_numOfShares = int (length es) \<rparr> @
     concat (map putRecipeEntry es)"

lemma minRestoreFile_run:
  assumes E: "faultless E" and snd: "sharesSound ssl c s" and es: "\<forall>e\<in>set es. restorable s e"
    and at: "disk s path = Some (recipeFileOf u fileSize es @ post)" and range: "int32 u" "int64 fileSize" "int32 (int (length es))"
  shows "\<exists>t ps. minRestoreFile E path s = Done () (later t (sent s @ map restoreMsg ps) s) \<and>
    ps = restoredMsgs s fileSize es \<and> concat ps = restoredFile s fileSize es \<and> (\<forall>p\<in>set ps. int (length p) \<le> SHARE_FILE_BUFFER_SIZE)"
proof -
  let ?rh = "\<lparr> frh_userID = u, frh_fileSize = fileSize, frh_numOfShares = int (length es) \<rparr>"
  have okh: "okRecipeHead ?rh" using range by (simp add: okRecipeHead_def)
  have len: "length (putRecipeHead ?rh) = 24" by (rule recipeHead.length_put [OF okh])
  then have ne: "putRecipeHead ?rh \<noteq> []" by auto
  have head: "getRecipeHead (putRecipeHead ?rh) = ?rh" by (rule recipeHead.get_put [OF okh])
  have read: "freadUpTo E path 0 24 s = (putRecipeHead ?rh, later (Suc (tick s)) (sent s) s)"
    using E at len by (simp add: freadUpTo_def faultless_def fileContents_def tock_def recipeFileOf_def slice_def)
  let ?r = "\<lparr> rs_recipe = putRecipeHead ?rh, rs_off = 0, rs_pos = 24, rs_slots = [], rs_index = [],
      rs_out = putShareFileHead \<lparr> sfh_fileSize = fileSize, sfh_numOfShares = int (length es) \<rparr> \<rparr>"
  have "\<exists>r' k' ps. minRestoreLoop E path (length es) (?r, later (Suc (tick s)) (sent s) s) = Done () (r', later k' (sent s @ map restoreMsg ps) s) \<and>
      (\<forall>rest. packMsgs (rs_out ?r) (map (entryBytes s) es @ rest) = ps @ packMsgs (rs_out r') rest) \<and>
      int (length (rs_out r')) \<le> SHARE_FILE_BUFFER_SIZE \<and> (\<forall>p\<in>set ps. int (length p) \<le> SHARE_FILE_BUFFER_SIZE)"
    by (rule minRestoreLoop_run [OF E snd at es, where pre = "putRecipeHead ?rh" and post = post])
       (simp_all add: recipeFileOf_def len cacheOk_def SHARE_FILE_BUFFER_SIZE_def)
  then obtain r' k2 ps where loop:
    "minRestoreLoop E path (length es) (?r, later (Suc (tick s)) (sent s) s) = Done () (r', later k2 (sent s @ map restoreMsg ps) s)"
    "restoredMsgs s fileSize es = ps @ (if rs_out r' = [] then [] else [rs_out r'])"
    "int (length (rs_out r')) \<le> SHARE_FILE_BUFFER_SIZE" "\<forall>p\<in>set ps. int (length p) \<le> SHARE_FILE_BUFFER_SIZE"
    using restoredMsgs_end [of fileSize es s] by auto
  show ?thesis
  proof (cases "rs_out r' = []")
    case True
    then have "minRestoreFile E path s = Done () (later k2 (sent s @ map restoreMsg ps) s)"
      using loop(1) read ne len head by (simp add: minRestoreFile_def Let_def)
    then show ?thesis using loop(2,4) True restoredMsgs_concat [of s fileSize es] by (intro exI [of _ k2] exI [of _ ps]) simp
  next
    case False
    then have "minRestoreFile E path s = Done () (later (Suc k2) (sent s @ map restoreMsg (ps @ [rs_out r'])) s)"
      using loop(1) read ne len head E by (simp add: minRestoreFile_def Let_def flushOut_def sendMsg_fine)
    then show ?thesis using loop(2-4) False restoredMsgs_concat [of s fileSize es] by (intro exI [of _ "Suc k2"] exI [of _ "ps @ [rs_out r']"]) simp
  qed
qed

section \<open>Properties\<close>

text \<open>
  C26. The second stage of the data server is sound. For a package of well-formed files with enough
  flags and data, under any pattern of faults, and with idle buffers that are evicted without faults or none
  evicted at all, it never crashes; the store invariant and the tail pointer stay intact and every share
  that was in the index is afterwards fetched with the same bytes. Without faults it
  fails only if a file name is empty or some received share does not have the fingerprint announced for it, and
  after success every share the client was asked for is in the store with bytes of its fingerprint.
\<close>

theorem min_second_stage_sound:
  assumes "storeInv ssl c s" "tailOk s" "quiet E (bufferLink s)" and "int32 u" "0 < u"
    and "crypto_valid ssl c" "hashSize c = 32"
    and "\<forall>f\<in>set files. fitFile f" "nameVal (globalShareContainerName s) + Suc (length (entriesOf files)) < 26 ^ 12"
    and "length (entriesOf files) \<le> length dups" "wanted (zip dups (entriesOf files)) \<le> int (length dat)"
  shows "case minSecondStageDedup E ssl (Some c) u (packageOf files @ rest) (int (length (packageOf files))) dups dat s of
      Done x s' \<Rightarrow> storeInv ssl c s' \<and> tailOk s' \<and>
        (\<forall>fp. db s (shareFP2IndexKey fp) \<noteq> None \<longrightarrow> fetchShare s' fp = fetchShare s fp) \<and>
        (faultless E \<longrightarrow> (\<forall>(dup, e)\<in>set (zip dups (entriesOf files)). \<not> dup \<longrightarrow>
           (\<exists>d. fetchShare s' (mde_shareFP e) = Some d \<and> generateHash ssl c d = Inr (mde_shareFP e))))
    | Fails s' \<Rightarrow> storeInv ssl c s' \<and> tailOk s' \<and>
        (\<forall>fp. db s (shareFP2IndexKey fp) \<noteq> None \<longrightarrow> fetchShare s' fp = fetchShare s fp) \<and>
        (faultless E \<longrightarrow> (\<exists>(h, name, es)\<in>set files. formatFullFileName name = None) \<or>
           \<not> sharesIn ssl c (zip dups (entriesOf files)) dat)
    | Crash e \<Rightarrow> False"
proof -
  have kept: "fetchShare s' fp = fetchShare s fp" if "grows s s'" "keepsPlaces s s'" "db s (shareFP2IndexKey fp) \<noteq> None" for s' fp
    using fetchShare_kept that assms(1) unfolding storeInv_def by blast
  have here: "\<exists>d. fetchShare s' fp = Some d \<and> generateHash ssl c d = Inr fp"
    if "storeInv ssl c s'" "db s' (shareFP2IndexKey fp) \<noteq> None" for s' fp
    using that fetchShare_sound unfolding storeInv_def by blast
  note step = minSecondStage_step [OF assms, of rest]
  show ?thesis
  proof (cases "minSecondStageDedup E ssl (Some c) u (packageOf files @ rest) (int (length (packageOf files))) dups dat s")
    case (Done x s')
    then have s': "storeInv ssl c s'" "tailOk s'" "grows s s'" "keepsPlaces s s'"
      "faultless E \<longrightarrow> (\<forall>z\<in>set (zip dups (entriesOf files)). \<not> fst z \<longrightarrow> db s' (shareFP2IndexKey (mde_shareFP (snd z))) \<noteq> None)"
      using step by simp_all
    then have "faultless E \<longrightarrow> (\<forall>(dup, e)\<in>set (zip dups (entriesOf files)). \<not> dup \<longrightarrow>
        (\<exists>d. fetchShare s' (mde_shareFP e) = Some d \<and> generateHash ssl c d = Inr (mde_shareFP e)))"
      using here [OF s'(1)] by (auto simp: case_prod_beta)
    then show ?thesis using Done s'(1,2) kept [OF s'(3,4)] by simp
  next
    case (Fails s')
    then have s': "storeInv ssl c s'" "tailOk s'" "grows s s'" "keepsPlaces s s'"
      "faultless E \<longrightarrow> (\<exists>f\<in>set files. formatFullFileName (fst (snd f)) = None) \<or>
        \<not> sharesIn ssl c (zip dups (entriesOf files)) dat"
      using step by simp_all
    then show ?thesis using Fails kept [OF s'(3,4)] by (simp add: case_prod_beta)
  qed (use step in simp)
qed


text \<open>
  What is relied on of the shell: the command removes the file it names, if the name is made of
  characters without a meaning to the shell and does not look like an option.
\<close>

definition plainByte :: "byte \<Rightarrow> bool" where
  "plainByte b \<longleftrightarrow> 97 \<le> b \<and> b \<le> 122 \<or> 65 \<le> b \<and> b \<le> 90 \<or> 45 \<le> b \<and> b \<le> 57 \<or> b = 95"

definition plainName :: "bytes \<Rightarrow> bool" where
  "plainName name \<longleftrightarrow> name \<noteq> [] \<and> hd name \<noteq> 45 \<and> (\<forall>b\<in>set name. plainByte b)"

definition shell_rm :: "shell \<Rightarrow> bool" where
  "shell_rm sh \<longleftrightarrow> (\<forall>name d. plainName name \<and> d name \<noteq> None \<longrightarrow>
     sh ([114, 109, 32, 45, 114, 102, 32] @ name) d = d(name := None))"

lemma rmCommand_plain:
  assumes "plainName name" "length name \<le> 248"
  shows "cstring name = name" "rmCommand name = [114, 109, 32, 45, 114, 102, 32] @ name"
proof -
  have "0 \<notin> set name" using assms(1) by (auto simp: plainName_def plainByte_def)
  then show "cstring name = name" by (simp add: cstring_def takeWhile_eq_all_conv) metis
  then show "rmCommand name = [114, 109, 32, 45, 114, 102, 32] @ name" using assms(2) by (simp add: rmCommand_def)
qed

lemma minRestoreShareFile_run:
  assumes "faultless E" "storeInv ssl c s" "\<forall>e\<in>set es. restorable s e"
    and "disk s name = Some (recipeFileOf u fileSize es @ post)" "int32 u" "int64 fileSize" "int32 (int (length es))"
    and "shell_rm sh" "plainName name" "length name \<le> 248"
  shows "\<exists>t ps. minRestoreShareFile E sh (Some c) name s =
      Done () ((later t (sent s @ map restoreMsg ps) s)\<lparr>disk := (disk s)(name := None)\<rparr>) \<and>
    ps = restoredMsgs s fileSize es \<and> concat ps = restoredFile s fileSize es \<and> (\<forall>p\<in>set ps. int (length p) \<le> SHARE_FILE_BUFFER_SIZE) \<and>
    (\<forall>e\<in>set es. \<exists>d. fetchShare s (fre_shareFP e) = Some d \<and> generateHash ssl c d = Inr (fre_shareFP e))"
proof -
  have snd: "sharesSound ssl c s" using assms(2) by (simp add: storeInv_def)
  have snd': "sharesSound ssl c (tock s)" using storeInv_tock [OF assms(2)] by (simp add: storeInv_def)
  note cmd = rmCommand_plain [OF assms(9,10)]
  have same: "restorable (tock s) = restorable s" "restoredFile (tock s) fileSize es = restoredFile s fileSize es"
    "restoredMsgs (tock s) fileSize es = restoredMsgs s fileSize es"
  proof -
    have "containerOf (tock s) = containerOf s" by (simp add: fun_eq_iff containerOf_def split: option.split)
    then have "fetchShare (tock s) = fetchShare s" by (simp add: fun_eq_iff fetchShare_def Let_def split: option.split)
    then show "restoredFile (tock s) fileSize es = restoredFile s fileSize es" "restoredMsgs (tock s) fileSize es = restoredMsgs s fileSize es"
      by (simp_all add: restoredFile_def restoredMsgs_def entryBytes_def [abs_def])
  qed (simp add: fun_eq_iff restorable_def)
  have "\<exists>t ps. minRestoreFile E name (tock s) = Done () (later t (sent (tock s) @ map restoreMsg ps) (tock s)) \<and>
    ps = restoredMsgs (tock s) fileSize es \<and> concat ps = restoredFile (tock s) fileSize es \<and> (\<forall>p\<in>set ps. int (length p) \<le> SHARE_FILE_BUFFER_SIZE)"
    by (rule minRestoreFile_run [OF assms(1) snd']) (use assms same in simp_all)
  then obtain t ps where run: "minRestoreFile E name (tock s) = Done () (later t (sent s @ map restoreMsg ps) s)"
    "ps = restoredMsgs s fileSize es" "concat ps = restoredFile s fileSize es" "\<forall>p\<in>set ps. int (length p) \<le> SHARE_FILE_BUFFER_SIZE"
    unfolding same by (auto simp: tock_def)
  have "fopenRb E name s = (disk s name, tock s)" using assms(1) by (simp add: fopenRb_def faultless_def)
  moreover have "sh (rmCommand name) (disk s) = (disk s)(name := None)"
    using assms(4,8,9) cmd(2) by (simp add: shell_rm_def)
  ultimately have "minRestoreShareFile E sh (Some c) name s =
      Done () ((later t (sent s @ map restoreMsg ps) s)\<lparr>disk := (disk s)(name := None)\<rparr>)"
    using run(1) cmd(1) assms(4) by (simp add: minRestoreShareFile_def minRemoveRecipe_def)
  moreover have "\<exists>d. fetchShare s (fre_shareFP e) = Some d \<and> generateHash ssl c d = Inr (fre_shareFP e)" if "e \<in> set es" for e
    using assms(3) that fetchShare_sound [OF snd, of "fre_shareFP e"] by (metis restorable_def)
  ultimately show ?thesis using run(2-4) by blast
qed

subsection \<open>Witnesses\<close>

lemma shaCrypto_valid: "crypto_valid toySSL shaCrypto" "hashSize shaCrypto = 32"
proof -
  have "mkCrypto True SHA256_TYPE = Inr shaCrypto" by (simp add: mkCrypto_def crypto_types shaCrypto_def)
  then show "crypto_valid toySSL shaCrypto" using toySSL_ok by (auto simp: crypto_valid_def)
qed (simp add: shaCrypto_def)

lemma demoFiles_fit: "\<forall>f\<in>set demoFiles. fitFile f"
  using demoFiles_ok by (auto simp: fitFile_def fitEntry_def demoFiles_def demoEntry_def CONTAINER_BUFFER_SIZE_def)

theorem min_second_stage_sound_witness:
  "\<exists>s'. minSecondStageDedup fineEnv toySSL (Some shaCrypto) 8 (packageOf demoFiles @ []) (int (length (packageOf demoFiles)))
       [False, False] (demoShare @ demoShare) keptCore = Done () s' \<and> storeInv toySSL shaCrypto s' \<and>
     fetchShare s' demoFP = Some demoShare"
proof -
  have "case minSecondStageDedup fineEnv toySSL (Some shaCrypto) 8 (packageOf demoFiles @ []) (int (length (packageOf demoFiles))) [False, False]
     (demoShare @ demoShare) keptCore of Done _ s' \<Rightarrow> fetchShare s' demoFP = Some demoShare | _ \<Rightarrow> False"
    by code_simp
  moreover have "storeInv toySSL shaCrypto keptCore" using keptCore_inv .
  moreover have "quiet fineEnv (bufferLink keptCore)" by (simp add: quiet_def)
  moreover have "wanted (zip [False, False] (entriesOf demoFiles)) \<le> int (length (demoShare @ demoShare))"
    by (simp add: demoFiles_entries demoEntry_def demoShare_def)
  ultimately show ?thesis
    using min_second_stage_sound [OF _ keptCore_upload(3) _ _ _ shaCrypto_valid demoFiles_fit keptCore_upload(4),
        of fineEnv 8 "[False, False]" "demoShare @ demoShare" "[]"] demoFiles_entries
    by (auto simp: int32_def split: outcome.splits)
qed

text \<open>A shell that knows this one command.\<close>

definition demoShell :: shell where
  "demoShell cmd d = (if take 7 cmd = [114, 109, 32, 45, 114, 102, 32] then d(drop 7 cmd := None) else d)"

lemma demoShell_rm: "shell_rm demoShell"
  by (simp add: shell_rm_def demoShell_def)

end
