(* ===== verification/ServerComm.thy ===== *)
theory ServerComm
  imports Network MinDedup
begin

text \<open>
  The connection handlers of server/comm/server.cc: \<open>SocketHandlerMeta\<close>, which serves the metadata
  shares with a DedupCore and stores key files and recipe files, and \<open>SocketHandlerData\<close>, which serves
  the data shares with a minDedupCore. A handler reads the stream of one client message by message and
  ignores the results of the deduplication core. Replies go to the list \<open>sent\<close> of the core, which also gets the
  messages of a restore.

  The mutex around recipe files is not modelled: a handler runs without interruption. Paths are compared
  as they are written.
\<close>

section \<open>The state of a connection\<close>

definition BUFFER_LEN :: int where "BUFFER_LEN = 4194304"
definition META_LEN :: int where "META_LEN = 2097152"
definition META :: int where "META = - 1"
definition DATA :: int where "DATA = - 2"
definition STAT :: int where "STAT = - 3"
definition DOWNLOAD :: int where "DOWNLOAD = - 7"
definition KEY_RECIPE :: int where "KEY_RECIPE = - 101"
definition GET_KEY_RECIPE :: int where "GET_KEY_RECIPE = - 102"
definition FILE_RECIPE :: int where "FILE_RECIPE = - 103"

lemmas indicators = META_def DATA_def STAT_def DOWNLOAD_def KEY_RECIPE_def GET_KEY_RECIPE_def FILE_RECIPE_def

record handler =
  h_rx :: rx
  h_buffer :: bytes                      \<comment> \<open>buffer, zeroed before the loop: the cells behind are 0\<close>
  h_meta :: bytes                        \<comment> \<open>the cells of metaBuffer written so far\<close>
  h_metaSize :: "int option"             \<comment> \<open>None until metaSize is first written\<close>
  h_stat :: "bool list"                  \<comment> \<open>statusList, zeroed at the start: the cells behind are 0\<close>

type_synonym session = "handler \<times> dedupCore"

datatype flow = Continue | Break

definition padTo :: "nat \<Rightarrow> 'a \<Rightarrow> 'a list \<Rightarrow> 'a list" where
  "padTo n z xs = xs @ replicate (n - length xs) z"

text \<open>\<open>recv(*clientSock, buffer, sizeof(int), 0)\<close>: the result is only looked at for the indicator.\<close>

definition recvHead :: "recvs \<Rightarrow> handler \<Rightarrow> int \<times> handler" where
  "recvHead N h =
     (case recvSome N 4 (h_rx h) of (k, bs, r) \<Rightarrow>
        (k, h\<lparr>h_rx := r, h_buffer := overlay 0 bs (h_buffer h)\<rparr>))"

definition recvNumber :: "recvs \<Rightarrow> handler \<Rightarrow> int \<times> handler" where
  "recvNumber N h = (case recvHead N h of (_, h1) \<Rightarrow> (readInt (h_buffer h1), h1))"

text \<open>
  A file name of \<open>namesize\<close> bytes in one call. The array for it has \<open>namesize + 1\<close> cells, and only the
  received ones are initialised. Every slash but a leading one is replaced.
\<close>

definition underscores :: "bytes \<Rightarrow> bytes" where
  "underscores name = (case name of [] \<Rightarrow> [] | b # rest \<Rightarrow> b # map (\<lambda>x. if x = 47 then 95 else x) rest)"

definition recvName :: "recvs \<Rightarrow> int \<Rightarrow> handler \<Rightarrow> (bytes, handler) outcome" where
  "recvName N namesize h =
     (if namesize < 0 then Crash OutOfBounds
      else
        (case recvSome N (nat namesize) (h_rx h) of (k, bs, r) \<Rightarrow>
           if int (length bs) < namesize \<and> 0 \<notin> set bs then Crash UninitRead
           else Done (underscores (cstring bs)) (h\<lparr>h_rx := r\<rparr>)))"

text \<open>\<open>sprintf\<close> of a directory and a name into an array of 256 bytes.\<close>

definition pathIn :: "bytes \<Rightarrow> bytes \<Rightarrow> bytes option" where
  "pathIn dir name = (if length (dir @ name) < 256 then Some (dir @ name) else None)"

definition keystoreDir :: bytes where    \<comment> \<open>meta/keystore/\<close>
  "keystoreDir = [109, 101, 116, 97, 47, 107, 101, 121, 115, 116, 111, 114, 101, 47]"

definition recipesDir :: bytes where     \<comment> \<open>meta/RecipeFiles/\<close>
  "recipesDir = [109, 101, 116, 97, 47, 82, 101, 99, 105, 112, 101, 70, 105, 108, 101, 115, 47]"

section \<open>Key files\<close>

text \<open>\<open>fwrite\<close> and \<open>fclose\<close> with a NULL stream crash, and so does an allocation of negative size that is read.\<close>

definition serveKeyRecipe :: "recvs \<Rightarrow> env \<Rightarrow> session \<Rightarrow> (flow, session) outcome option" where
  "serveKeyRecipe N E st =
     (case st of (h, s) \<Rightarrow>
      case recvNumber N h of (len, h1) \<Rightarrow>
      case recvNumber N h1 of (namesize, h2) \<Rightarrow>
      case recvName N namesize h2 of
        Crash e \<Rightarrow> Some (Crash e)
      | Fails h3 \<Rightarrow> Some (Fails (h3, s))
      | Done name h3 \<Rightarrow>
          (case pathIn keystoreDir name of
             None \<Rightarrow> Some (Crash BufferOverflow)
           | Some path \<Rightarrow>
               (case fopenWb E path s of (opened, s1) \<Rightarrow>
                  bindP (recvLoop N len len 0 [] (h_rx h3))
                    (\<lambda>(_, keybuffer) r.
                       if len < 0 then Some (Crash OutOfBounds)
                       else if \<not> opened then Some (Crash NullDeref)
                       else Some (Done Continue (h3\<lparr>h_rx := r\<rparr>, snd (fwriteAt E path 0 keybuffer s1))))
                    (\<lambda>r. (h3\<lparr>h_rx := r\<rparr>, s1)))))"

text \<open>\<open>while (total < length) total += send(...)\<close>: a short send is continued, an error counts -1.\<close>

definition sendSome :: "env \<Rightarrow> bytes \<Rightarrow> dedupCore \<Rightarrow> int \<times> dedupCore" where
  "sendSome E msg s =
     ((case ioFault E (tick s) of
         IoFine \<Rightarrow> int (length msg) | IoOpenFails \<Rightarrow> - 1 | IoShort k \<Rightarrow> int (min k (length msg))),
      snd (sendMsg E msg s))"

partial_function (option) sendLoop :: "env \<Rightarrow> bytes \<Rightarrow> int \<Rightarrow> dedupCore \<Rightarrow> (unit, dedupCore) outcome option" where
  "sendLoop E bs n s =
     (if n < int (length bs) then
        (if n < 0 then Some (Crash OutOfBounds)
         else (case sendSome E (drop (nat n) bs) s of (k, s1) \<Rightarrow> sendLoop E bs (n + k) s1))
      else Some (Done () s))"

declare sendLoop.simps [code]

text \<open>The size of the file is kept in an int; a file of 2 GB or more does not fit.\<close>

definition serveGetKeyRecipe :: "recvs \<Rightarrow> env \<Rightarrow> session \<Rightarrow> (flow, session) outcome option" where
  "serveGetKeyRecipe N E st =
     (case st of (h, s) \<Rightarrow>
      case recvNumber N h of (namesize, h1) \<Rightarrow>
      case recvName N namesize h1 of
        Crash e \<Rightarrow> Some (Crash e)
      | Fails h2 \<Rightarrow> Some (Fails (h2, s))
      | Done name h2 \<Rightarrow>
          (case pathIn keystoreDir name of
             None \<Rightarrow> Some (Crash BufferOverflow)
           | Some path \<Rightarrow>
               (case fopenRb E path s of
                  (None, s1) \<Rightarrow> Some (Done Break (h2, s1))
                | (Some contents, s1) \<Rightarrow>
                    (case freadUpTo E path 0 (length contents) s1 of (stub, s2) \<Rightarrow>
                       if 2147483648 \<le> int (length contents) then Some (Crash LengthError)
                       else if length stub < length contents then Some (Crash UninitRead)
                       else bindP (sendLoop E stub 0 (snd (sendMsg E (le 4 (int (length contents))) s2)))
                              (\<lambda>_ s3. Some (Done Continue (h2, s3))) (\<lambda>s3. (h2, s3))))))"

section \<open>Recipe files\<close>

text \<open>
  The entries are received in pieces of at most 1000 entries and each piece is appended as it comes. An
  error makes \<open>fwrite\<close> copy \<open>(size_t)-1\<close> bytes; at the end of the stream the loop runs on.
\<close>

definition fappend :: "env \<Rightarrow> bytes \<Rightarrow> bytes \<Rightarrow> dedupCore \<Rightarrow> dedupCore" where
  "fappend E path bs s = (if bs = [] then s else snd (fwriteAt E path (length (fileContents s path)) bs s))"

partial_function (option) recipeLoop ::
  "recvs \<Rightarrow> env \<Rightarrow> bytes \<Rightarrow> int \<Rightarrow> int \<Rightarrow> rx \<times> dedupCore \<Rightarrow> (unit, rx \<times> dedupCore) outcome option" where
  "recipeLoop N E path len n st =
     (if n < len then
        (case recvSome N (nat (if len - n \<ge> 40000 then 40000 else len - n)) (fst st) of (k, bs, r) \<Rightarrow>
           if k < 0 then Some (Crash OutOfBounds)
           else recipeLoop N E path len (n + k) (r, fappend E path bs (snd st)))
      else Some (Done () st))"

declare recipeLoop.simps [code]

definition serveFileRecipe :: "recvs \<Rightarrow> env \<Rightarrow> session \<Rightarrow> (flow, session) outcome option" where
  "serveFileRecipe N E st =
     (case st of (h, s) \<Rightarrow>
      case recvNumber N h of (len, h1) \<Rightarrow>
      case recvNumber N h1 of (namesize, h2) \<Rightarrow>
      case recvName N namesize h2 of
        Crash e \<Rightarrow> Some (Crash e)
      | Fails h3 \<Rightarrow> Some (Fails (h3, s))
      | Done name h3 \<Rightarrow>
          (case pathIn recipesDir name of
             None \<Rightarrow> Some (Crash BufferOverflow)
           | Some path \<Rightarrow>
               (case fopenAb E path s of (opened, s1) \<Rightarrow>
                case recvSome N 24 (h_rx h3) of (_, headerbuffer, r) \<Rightarrow>
                  if \<not> opened then Some (Crash NullDeref)
                  else if length headerbuffer < 24 then Some (Crash UninitRead)
                  else bindP (recipeLoop N E path (len - 24) 0 (r, fappend E path headerbuffer s1))
                         (\<lambda>_ (r1, s2). Some (Done Break (h3\<lparr>h_rx := r1\<rparr>, s2))) (\<lambda>(r1, s2). (h3\<lparr>h_rx := r1\<rparr>, s2)))))"

section \<open>Deduplication messages\<close>

text \<open>The size of a package and the package itself, received into \<open>buffer\<close>.\<close>

definition recvPackage :: "recvs \<Rightarrow> handler \<Rightarrow> (int \<times> int, handler) outcome option" where
  "recvPackage N h =
     (case recvNumber N h of (packageSize, h1) \<Rightarrow>
        bindP (recvLoop N BUFFER_LEN packageSize 0 (h_buffer h1) (h_rx h1))
          (\<lambda>(count, buf) r. Some (Done (packageSize, count) (h1\<lparr>h_rx := r, h_buffer := buf\<rparr>)))
          (\<lambda>r. h1\<lparr>h_rx := r\<rparr>))"

text \<open>
  Share metadata: first stage and the reply. The stage's result is not looked at; the reply has as many
  flags as shares were processed.
\<close>

type_synonym first_stage = "env \<Rightarrow> int \<Rightarrow> bytes \<Rightarrow> int \<Rightarrow> dedupCore \<Rightarrow> (early + bool list \<times> int, dedupCore) outcome option"

definition flagBytes :: "bool list \<Rightarrow> bytes" where
  "flagBytes flags = map (\<lambda>b. if b then 1 else 0) flags"

definition reply :: "env \<Rightarrow> nat \<Rightarrow> session \<Rightarrow> session" where
  "reply E numOfShare st =
     (case st of (h, s) \<Rightarrow>
        (h\<lparr>h_buffer := overlay 0 (le 4 (int numOfShare)) (h_buffer h)\<rparr>,
         snd (sendMsg E (flagBytes (take numOfShare (padTo (nat BUFFER_LEN) False (h_stat h))))
           (snd (sendMsg E (le 4 (int numOfShare)) (snd (sendMsg E (le 4 STAT) s)))))))"

definition serveShareMD :: "first_stage \<Rightarrow> recvs \<Rightarrow> env \<Rightarrow> int \<Rightarrow> session \<Rightarrow> (flow, session) outcome option" where
  "serveShareMD first N E user st =
     (case st of (h, s) \<Rightarrow>
      bindP (recvPackage N h)
        (\<lambda>(_, count) h1.
           if count < 0 \<or> META_LEN < count then Some (Crash BufferOverflow)
           else
             (let h2 = h1\<lparr>h_meta := overwrite (take (nat count) (h_buffer h1)) (h_meta h1), h_metaSize := Some count\<rparr> in
              bindP (first E user (h_meta h2) count s)
                (\<lambda>result s1.
                   case (case result of Inr (dups, _) \<Rightarrow> (dups, length dups) | Inl (cells, num, _) \<Rightarrow> (cells, num)) of (cells, num) \<Rightarrow>
                     if BUFFER_LEN < int (length cells) then Some (Crash BufferOverflow)
                     else Some (Done Continue (reply E num (h2\<lparr>h_stat := overwrite cells (h_stat h2)\<rparr>, s1))))
                (\<lambda>s1. (h2, s1))))
        (\<lambda>h1. (h1, s)))"

text \<open>Share data: second stage, with the metadata and the flags of the last first stage.\<close>

type_synonym second_stage = "env \<Rightarrow> openssl \<Rightarrow> cryptoPrimitive option \<Rightarrow> int \<Rightarrow> bytes \<Rightarrow> int \<Rightarrow> bool list \<Rightarrow> bytes \<Rightarrow> dedupCore \<Rightarrow>
  (unit, dedupCore) outcome"

definition ignoreResult :: "handler \<Rightarrow> (unit, dedupCore) outcome \<Rightarrow> (flow, session) outcome option" where
  "ignoreResult h r =
     (case r of Done _ s \<Rightarrow> Some (Done Continue (h, s)) | Fails s \<Rightarrow> Some (Done Continue (h, s)) | Crash e \<Rightarrow> Some (Crash e))"

definition serveShareData ::
  "second_stage \<Rightarrow> recvs \<Rightarrow> env \<Rightarrow> openssl \<Rightarrow> cryptoPrimitive \<Rightarrow> int \<Rightarrow> session \<Rightarrow> (flow, session) outcome option" where
  "serveShareData second N E ssl hashObj user st =
     (case st of (h, s) \<Rightarrow>
      bindP (recvPackage N h)
        (\<lambda>_ h1.
           case h_metaSize h1 of
             None \<Rightarrow> Some (Crash UninitRead)
           | Some metaSize \<Rightarrow>
               ignoreResult h1
                 (second E ssl (Some hashObj) user (h_meta h1) metaSize (padTo (nat BUFFER_LEN) False (h_stat h1))
                    (padTo (nat BUFFER_LEN) 0 (h_buffer h1)) s))
        (\<lambda>h1. (h1, s)))"

definition serveMetaDownload ::
  "recvs \<Rightarrow> env \<Rightarrow> openssl \<Rightarrow> cryptoPrimitive \<Rightarrow> int \<Rightarrow> session \<Rightarrow> (flow, session) outcome option" where
  "serveMetaDownload N E ssl hashObj user st =
     (case st of (h, s) \<Rightarrow>
      bindP (recvPackage N h)
        (\<lambda>(_, count) h1.
           if count < 0 then Some (Crash LengthError)
           else ignoreResult h1
             (restoreShareFile E ssl (Some hashObj) user (take (nat count) (padTo (nat BUFFER_LEN) 0 (h_buffer h1))) 0 s))
        (\<lambda>h1. (h1, s)))"

text \<open>The data server writes a NUL behind the name, also when the name fills the buffer.\<close>

definition serveDataDownload ::
  "recvs \<Rightarrow> env \<Rightarrow> shell \<Rightarrow> cryptoPrimitive \<Rightarrow> session \<Rightarrow> (flow, session) outcome option" where
  "serveDataDownload N E sh hashObj st =
     (case st of (h, s) \<Rightarrow>
      bindP (recvPackage N h)
        (\<lambda>(packageSize, _) h1.
           if packageSize < 0 \<or> BUFFER_LEN \<le> packageSize then Some (Crash BufferOverflow)
           else
             (let full = cstring (take (nat packageSize) (padTo (nat BUFFER_LEN) 0 (h_buffer h1)));
                  name = underscores full;
                  h2 = h1\<lparr>h_buffer := overlay 0 name (overlay (nat packageSize) [0] (h_buffer h1))\<rparr> in
              case pathIn recipesDir name of
                None \<Rightarrow> Some (Crash BufferOverflow)
              | Some path \<Rightarrow> ignoreResult h2 (minRestoreShareFile E sh (Some hashObj) path s)))
        (\<lambda>h1. (h1, s)))"

section \<open>The handlers\<close>

text \<open>One round: the indicator, and what it selects. An unknown indicator is skipped.\<close>

definition metaRound ::
  "recvs \<Rightarrow> env \<Rightarrow> openssl \<Rightarrow> cryptoPrimitive \<Rightarrow> int \<Rightarrow> session \<Rightarrow> (flow, session) outcome option" where
  "metaRound N E ssl hashObj user st =
     (case st of (h, s) \<Rightarrow>
      case recvHead N h of (bytecount, h1) \<Rightarrow>
        if bytecount = 0 then Some (Done Break (h1, s))
        else
          (let indicator = readInt (h_buffer h1) in
           if indicator = KEY_RECIPE then serveKeyRecipe N E (h1, s)
           else if indicator = GET_KEY_RECIPE then serveGetKeyRecipe N E (h1, s)
           else if indicator = FILE_RECIPE then serveFileRecipe N E (h1, s)
           else if indicator = META then serveShareMD firstStageDedup N E user (h1, s)
           else if indicator = DATA then serveShareData secondStageDedup N E ssl hashObj user (h1, s)
           else if indicator = DOWNLOAD then serveMetaDownload N E ssl hashObj user (h1, s)
           else Some (Done Continue (h1, s))))"

definition dataRound ::
  "recvs \<Rightarrow> env \<Rightarrow> shell \<Rightarrow> openssl \<Rightarrow> cryptoPrimitive \<Rightarrow> int \<Rightarrow> session \<Rightarrow> (flow, session) outcome option" where
  "dataRound N E sh ssl hashObj user st =
     (case st of (h, s) \<Rightarrow>
      case recvHead N h of (bytecount, h1) \<Rightarrow>
        if bytecount = 0 then Some (Done Break (h1, s))
        else
          (let indicator = readInt (h_buffer h1) in
           if indicator = META then serveShareMD minFirstStageDedup N E user (h1, s)
           else if indicator = DATA then serveShareData minSecondStageDedup N E ssl hashObj user (h1, s)
           else if indicator = DOWNLOAD then serveDataDownload N E sh hashObj (h1, s)
           else Some (Done Continue (h1, s))))"

partial_function (option) metaLoop ::
  "recvs \<Rightarrow> env \<Rightarrow> openssl \<Rightarrow> cryptoPrimitive \<Rightarrow> int \<Rightarrow> session \<Rightarrow> (unit, session) outcome option" where
  "metaLoop N E ssl hashObj user st =
     (case metaRound N E ssl hashObj user st of
        None \<Rightarrow> None
      | Some (Done f st1) \<Rightarrow> (if f = Continue then metaLoop N E ssl hashObj user st1 else Some (Done () st1))
      | Some (Fails st1) \<Rightarrow> Some (Fails st1)
      | Some (Crash e) \<Rightarrow> Some (Crash e))"

partial_function (option) dataLoop ::
  "recvs \<Rightarrow> env \<Rightarrow> shell \<Rightarrow> openssl \<Rightarrow> cryptoPrimitive \<Rightarrow> int \<Rightarrow> session \<Rightarrow> (unit, session) outcome option" where
  "dataLoop N E sh ssl hashObj user st =
     (case dataRound N E sh ssl hashObj user st of
        None \<Rightarrow> None
      | Some (Done f st1) \<Rightarrow> (if f = Continue then dataLoop N E sh ssl hashObj user st1 else Some (Done () st1))
      | Some (Fails st1) \<Rightarrow> Some (Fails st1)
      | Some (Crash e) \<Rightarrow> Some (Crash e))"

declare metaLoop.simps [code] dataLoop.simps [code]

text \<open>The user id comes first, in network order, into a buffer that is not initialised yet.\<close>

definition openSession :: "recvs \<Rightarrow> bytes \<Rightarrow> (int, handler) outcome" where
  "openSession N inbox =
     (case recvSome N 4 \<lparr> rx_in = inbox, rx_calls = 0 \<rparr> of (_, bs, r) \<Rightarrow>
        if length bs < 4 then Crash UninitRead
        else Done (ntohlInt bs) \<lparr> h_rx = r, h_buffer = [], h_meta = [], h_metaSize = None, h_stat = [] \<rparr>)"

definition hashOfServer :: "crypto_error + cryptoPrimitive" where
  "hashOfServer = mkCrypto True SHA256_TYPE"

definition SocketHandlerMeta :: "recvs \<Rightarrow> env \<Rightarrow> openssl \<Rightarrow> bytes \<Rightarrow> dedupCore \<Rightarrow> (unit, session) outcome option" where
  "SocketHandlerMeta N E ssl inbox s =
     (case openSession N inbox of
        Crash e \<Rightarrow> Some (Crash e)
      | Fails h \<Rightarrow> Some (Fails (h, s))
      | Done user h \<Rightarrow>
          (case hashOfServer of
             Inl _ \<Rightarrow> Some (Crash UninitRead)
           | Inr hashObj \<Rightarrow> metaLoop N E ssl hashObj user (h, s)))"

definition SocketHandlerData ::
  "recvs \<Rightarrow> env \<Rightarrow> shell \<Rightarrow> openssl \<Rightarrow> bytes \<Rightarrow> dedupCore \<Rightarrow> (unit, session) outcome option" where
  "SocketHandlerData N E sh ssl inbox s =
     (case openSession N inbox of
        Crash e \<Rightarrow> Some (Crash e)
      | Fails h \<Rightarrow> Some (Fails (h, s))
      | Done user h \<Rightarrow>
          (case hashOfServer of
             Inl _ \<Rightarrow> Some (Crash UninitRead)
           | Inr hashObj \<Rightarrow> dataLoop N E sh ssl hashObj user (h, s)))"


section \<open>Arrays that are longer than needed\<close>

text \<open>
  The handlers pass whole arrays: a stage that reads only inside the package, the flags and the data it was
  given does the same when there is more behind them.
\<close>

lemma bufAt_more: "bufAt xs i = Some x \<Longrightarrow> bufAt (xs @ ys) i = Some x"
  by (auto simp: bufAt_def nth_append split: if_splits)

lemma structAt_more: "structAt sz get buf off = Some v \<Longrightarrow> structAt sz get (buf @ z) off = Some v"
  by (auto simp: structAt_def slice_append_left split: if_splits)

lemma inter_more:
  assumes "0 \<le> shareSize" "0 \<le> off" "off + shareSize \<le> int (length dat)"
  shows "slice (nat off) (nat shareSize) (dat @ y) = slice (nat off) (nat shareSize) dat"
    and "interUserIndexUpdate E fp u shareSize (dat @ y) off = interUserIndexUpdate E fp u shareSize dat off"
proof -
  show sl: "slice (nat off) (nat shareSize) (dat @ y) = slice (nat off) (nat shareSize) dat"
    by (rule slice_append_left) (use assms in linarith)
  have "storeNewShare E key u shareSize (dat @ y) off = storeNewShare E key u shareSize dat off" for key
    using assms by (simp add: storeNewShare_def fun_eq_iff sl)
  then show "interUserIndexUpdate E fp u shareSize (dat @ y) off = interUserIndexUpdate E fp u shareSize dat off"
    unfolding interUserIndexUpdate_def Let_def by presburger
qed

lemma storeShare_more:
  "storeShare E ssl c u dat off e st = r \<Longrightarrow> (\<forall>x. r \<noteq> Crash x) \<Longrightarrow> storeShare E ssl c u (dat @ y) off e st = r"
  by (cases "0 \<le> mde_shareSize e \<and> 0 \<le> off \<and> off + mde_shareSize e \<le> int (length dat)")
     (auto simp: storeShare_def safeO_def inter_more split: sum.split)

lemma secondStageEntries_more:
  "secondStageEntries E ssl c u mdBuf dups dat i off dataOff num st = r \<Longrightarrow> (\<forall>x. r \<noteq> Crash x) \<Longrightarrow>
     secondStageEntries E ssl c u (mdBuf @ z) (dups @ x) (dat @ y) i off dataOff num st = r"
proof (induction i arbitrary: off dataOff num st)
  case (Suc i)
  obtain e where e: "structAt 44 getMDEntry mdBuf off = Some e"
    using Suc.prems by (cases "structAt 44 getMDEntry mdBuf off") (auto simp: readO_def)
  obtain dup where dup: "bufAt dups (int num) = Some dup"
    using Suc.prems e by (cases "bufAt dups (int num)") (auto simp: readO_def)
  note dup' = bufAt_more [OF dup, of x] structAt_more [OF e, of z]
  define r3 where "r3 = (if dup then Done () st else storeShare E ssl c u dat dataOff e st)"
  have nc: "\<forall>x. r3 \<noteq> Crash x" using Suc.prems e dup by (auto simp: r3_def)
  then have r3: "(if dup then Done () st else storeShare E ssl c u (dat @ y) dataOff e st) = r3"
    using storeShare_more [of E ssl c u dat dataOff e st r3 y] by (cases dup) (simp_all add: r3_def)
  show ?case
  proof (cases "bindO r3 (\<lambda>_ st3. putRecipeEntryOf e st3)")
    case (Done v st4)
    let ?d = "if dup then dataOff else dataOff + mde_shareSize e"
    have assoc: "bindO r3 (\<lambda>_ st3. bindO (putRecipeEntryOf e st3) (\<lambda>_ st4. f st4)) = bindO (bindO r3 (\<lambda>_ st3. putRecipeEntryOf e st3)) (\<lambda>_ st4. f st4)"
      for f :: "bufferNode \<times> dedupCore \<Rightarrow> (int \<times> int \<times> nat, bufferNode \<times> dedupCore) outcome" by (cases r3) simp_all
    have "secondStageEntries E ssl c u mdBuf dups dat i (off + 44) ?d (Suc num) st4 = r"
      using Suc.prems(1) e dup Done by (simp add: assoc flip: r3_def)
    from Suc.IH [OF this Suc.prems(2)] show ?thesis using e dup' r3 Done by (simp add: assoc)
  next
    case (Fails st4)
    then have "r = Fails st4" using Suc.prems e dup by (cases r3) (auto simp flip: r3_def)
    then show ?thesis using Fails e dup' r3 by (cases r3) auto
  next
    case (Crash w)
    then show ?thesis using Suc.prems e dup by (cases r3) (auto simp flip: r3_def)
  qed
qed simp

lemma secondStageLoop_more:
  "secondStageLoop E ssl c u mdBuf mdSize dups dat off dataOff num st = r \<Longrightarrow> (\<forall>x. r \<noteq> Crash x) \<Longrightarrow> 0 \<le> off \<Longrightarrow>
     secondStageLoop E ssl c u (mdBuf @ z) mdSize (dups @ x) (dat @ y) off dataOff num st = r"
proof (induction "nat (mdSize - off)" arbitrary: off dataOff num st rule: less_induct)
  case less
  show ?case
  proof (cases "off < mdSize")
    case True
    obtain h where h: "structAt 48 getMDHead mdBuf off = Some h" "\<not> mdh_fullNameSize h < 0"
      "\<not> int (length mdBuf) < off + 48 + mdh_fullNameSize h"
      using less.prems True by (subst (asm) secondStageLoop.simps) (auto split: option.splits if_splits)
    have nm: "slice (nat (off + 48)) (nat (mdh_fullNameSize h)) (mdBuf @ z) = slice (nat (off + 48)) (nat (mdh_fullNameSize h)) mdBuf"
      by (rule slice_append_left) (use h(2,3) less.prems(3) in linarith)
    note h' = h structAt_more [OF h(1), of z] nm
    show ?thesis
    proof (cases "formatFullFileName (slice (nat (off + 48)) (nat (mdh_fullNameSize h)) mdBuf)")
      case None
      then show ?thesis using less.prems True h'
        by (subst (asm) secondStageLoop.simps, subst secondStageLoop.simps) simp
    next
      case (Some full)
      let ?i = "nat (mdh_numOfComingSecrets h)" and ?o = "off + 48 + mdh_fullNameSize h"
      define one where "one mdBuf dups dat = bindO (makeRecipeRoom E h st) (\<lambda>_ st1.
          bindO (putFileRecipeHead E ssl c u full h st1) (\<lambda>_ st2.
          bindO (secondStageEntries E ssl c u mdBuf dups dat ?i ?o dataOff num st2) (\<lambda>r st3.
          bindO (finishFile E h st3) (\<lambda>_ st4. Done r st4))))" for mdBuf dups dat
      have step: "secondStageLoop E ssl c u md mdSize dups dat off dataOff num st =
          (case one md dups dat of Crash e \<Rightarrow> Crash e | Fails st5 \<Rightarrow> Fails st5
            | Done (off1, dataOff1, num1) st5 \<Rightarrow> secondStageLoop E ssl c u md mdSize dups dat off1 dataOff1 num1 st5)"
        if "md = mdBuf \<or> md = mdBuf @ z" for md dups dat
        using that True h' Some by (subst secondStageLoop.simps) (auto simp: one_def)
      have nc: "\<forall>w. one mdBuf dups dat \<noteq> Crash w" using less.prems step [of mdBuf] by auto
      have same: "one (mdBuf @ z) (dups @ x) (dat @ y) = one mdBuf dups dat"
      proof (cases "bindO (makeRecipeRoom E h st) (\<lambda>_ st1. putFileRecipeHead E ssl c u full h st1)")
        case (Done v st2)
        then have two: "one md d b = bindO (secondStageEntries E ssl c u md d b ?i ?o dataOff num st2) (\<lambda>r st3.
            bindO (finishFile E h st3) (\<lambda>_ st4. Done r st4))" for md d b
          by (cases "makeRecipeRoom E h st") (simp_all add: one_def)
        have "\<forall>w. secondStageEntries E ssl c u mdBuf dups dat ?i ?o dataOff num st2 \<noteq> Crash w" using nc two by auto
        then show ?thesis using secondStageEntries_more [OF refl] two by simp
      next
        case (Fails st2)
        then show ?thesis by (cases "makeRecipeRoom E h st") (simp_all add: one_def)
      next
        case (Crash w)
        then show ?thesis by (cases "makeRecipeRoom E h st") (simp_all add: one_def)
      qed
      show ?thesis
      proof (cases "one mdBuf dups dat")
        case (Done v st5)
        obtain off1 dataOff1 num1 where v: "v = (off1, dataOff1, num1)" by (cases v)
        have "off1 = ?o + 44 * int ?i"
          using Done v by (auto simp: one_def status_simps dest!: secondStageEntries_offset)
        then have smaller: "nat (mdSize - off1) < nat (mdSize - off)" "0 \<le> off1" using True h(2) less.prems(3) by simp_all
        have "secondStageLoop E ssl c u mdBuf mdSize dups dat off1 dataOff1 num1 st5 = r" using less.prems(1) step [of mdBuf] Done v by simp
        from less.hyps [OF smaller(1) this less.prems(2) smaller(2)] show ?thesis using step [of "mdBuf @ z"] same Done v by simp
      next
        case (Fails st5)
        then show ?thesis using less.prems(1) step [of mdBuf] step [of "mdBuf @ z"] same by simp
      next
        case (Crash w)
        then show ?thesis using nc by simp
      qed
    qed
  next
    case False
    then show ?thesis using less.prems by (subst (asm) secondStageLoop.simps, subst secondStageLoop.simps) simp
  qed
qed

lemma secondStage_more:
  assumes "secondStageDedup E ssl (Some c) u mdBuf mdSize dups dat s = r" "\<forall>x. r \<noteq> Crash x"
  shows "secondStageDedup E ssl (Some c) u (mdBuf @ z) mdSize (dups @ x) (dat @ y) s = r"
proof (cases "findOrCreateBufferNode E u s")
  case (Done n s1)
  then have "\<forall>w. secondStageLoop E ssl c u mdBuf mdSize dups dat 0 0 0 (n, s1) \<noteq> Crash w"
    using assms by (auto simp: secondStageDedup_def)
  then show ?thesis using assms(1) Done secondStageLoop_more [OF refl] by (simp add: secondStageDedup_def)
qed (use assms in \<open>auto simp: secondStageDedup_def\<close>)


lemma firstStageEntries_more:
  "firstStageEntries E u mdBuf i off dups sz s = r \<Longrightarrow> (\<forall>x. r \<noteq> Crash x) \<Longrightarrow> firstStageEntries E u (mdBuf @ z) i off dups sz s = r"
proof (induction i arbitrary: off dups sz s)
  case (Suc i)
  obtain e where e: "structAt 44 getMDEntry mdBuf off = Some e"
    using Suc.prems by (cases "structAt 44 getMDEntry mdBuf off") (auto simp: readO_def)
  show ?case using Suc.prems Suc.IH e structAt_more [OF e, of z]
    by (cases "intraUserIndexUpdate E (mde_shareFP e) u s") auto
qed simp

lemma firstStage_more:
  assumes "firstStageDedup E u mdBuf mdSize s = Some r" "\<forall>x. r \<noteq> Crash x"
  shows "firstStageDedup E u (mdBuf @ z) mdSize s = Some r"
proof -
  have "(\<forall>x. r \<noteq> Crash x) \<longrightarrow> firstStageLoop E u (mdBuf @ z) mdSize 0 [] 0 s = Some r"
  proof (rule firstStageLoop.raw_induct [OF _ assms(1) [unfolded firstStageDedup_def], where
        P = "\<lambda>E u mdBuf mdSize off dups sz s r. (\<forall>x. r \<noteq> Crash x) \<longrightarrow> firstStageLoop E u (mdBuf @ z) mdSize off dups sz s = Some r"], intro impI)
    fix loop E u mdBuf mdSize off dups sz s r
    assume IH: "\<And>E u mdBuf mdSize off dups sz s r. loop E u mdBuf mdSize off dups sz s = Some r \<Longrightarrow>
        (\<forall>x. r \<noteq> Crash x) \<longrightarrow> firstStageLoop E u (mdBuf @ z) mdSize off dups sz s = Some r"
      and body: "(if off < mdSize then
        (case structAt 48 getMDHead mdBuf off of
           None \<Rightarrow> Some (Crash OutOfBounds)
         | Some h \<Rightarrow>
             (case firstStageEntries E u mdBuf (nat (mdh_numOfComingSecrets h)) (off + 48 + mdh_fullNameSize h) dups sz s of
                Done (Inr (off1, dups1, sentSize1)) s1 \<Rightarrow> loop E u mdBuf mdSize off1 dups1 sentSize1 s1
              | Done (Inl r) s1 \<Rightarrow> Some (Done (Inl r) s1)
              | Fails s1 \<Rightarrow> Some (Fails s1)
              | Crash e \<Rightarrow> Some (Crash e)))
        else Some (Done (Inr (dups, sz)) s)) = Some r"
      and nc: "\<forall>x. r \<noteq> Crash x"
    show "firstStageLoop E u (mdBuf @ z) mdSize off dups sz s = Some r"
    proof (cases "off < mdSize")
      case True
      then obtain h where h: "structAt 48 getMDHead mdBuf off = Some h" using body nc by (auto split: option.splits)
      define r1 where "r1 = firstStageEntries E u mdBuf (nat (mdh_numOfComingSecrets h)) (off + 48 + mdh_fullNameSize h) dups sz s"
      have "\<forall>x. r1 \<noteq> Crash x" using body nc True h by (auto simp: r1_def)
      then have "firstStageEntries E u (mdBuf @ z) (nat (mdh_numOfComingSecrets h)) (off + 48 + mdh_fullNameSize h) dups sz s = r1"
        by (intro firstStageEntries_more) (simp_all add: r1_def)
      then show ?thesis using body True h structAt_more [OF h, of z] IH nc
        by (subst firstStageLoop.simps) (auto simp flip: r1_def split: outcome.splits sum.splits)
    next
      case False
      then show ?thesis using body by (subst firstStageLoop.simps) simp
    qed
  qed
  then show ?thesis using assms(2) by (simp add: firstStageDedup_def)
qed

lemma minStoreShare_more:
  "minStoreShare E ssl c u dat off e st = r \<Longrightarrow> (\<forall>x. r \<noteq> Crash x) \<Longrightarrow> minStoreShare E ssl c u (dat @ y) off e st = r"
  by (cases "0 \<le> mde_shareSize e \<and> 0 \<le> off \<and> off + mde_shareSize e \<le> int (length dat)")
     (auto simp: minStoreShare_def min_same safeO_def inter_more split: sum.split)

lemma minEntries_more:
  "minSecondStageEntries E ssl c u mdBuf dups dat i off dataOff num st = r \<Longrightarrow> (\<forall>x. r \<noteq> Crash x) \<Longrightarrow>
     minSecondStageEntries E ssl c u (mdBuf @ z) (dups @ x) (dat @ y) i off dataOff num st = r"
proof (induction i arbitrary: off dataOff num st)
  case (Suc i)
  obtain e where e: "structAt 44 getMDEntry mdBuf off = Some e"
    using Suc.prems by (cases "structAt 44 getMDEntry mdBuf off") (auto simp: readO_def)
  obtain dup where dup: "bufAt dups (int num) = Some dup"
    using Suc.prems e by (cases "bufAt dups (int num)") (auto simp: readO_def)
  define r3 where "r3 = (if dup then Done () st else minStoreShare E ssl c u dat dataOff e st)"
  have nc: "\<forall>x. r3 \<noteq> Crash x" using Suc.prems e dup by (auto simp: r3_def)
  then have r3: "(if dup then Done () st else minStoreShare E ssl c u (dat @ y) dataOff e st) = r3"
    using minStoreShare_more [of E ssl c u dat dataOff e st r3 y] by (cases dup) (simp_all add: r3_def)
  show ?case
    using Suc.prems Suc.IH e dup structAt_more [OF e, of z] bufAt_more [OF dup, of x] r3
    by (cases r3) (auto simp flip: r3_def)
qed simp

lemma minLoop_more:
  "minSecondStageLoop E ssl c u mdBuf mdSize dups dat off dataOff num st = r \<Longrightarrow> (\<forall>x. r \<noteq> Crash x) \<Longrightarrow> 0 \<le> off \<Longrightarrow>
     minSecondStageLoop E ssl c u (mdBuf @ z) mdSize (dups @ x) (dat @ y) off dataOff num st = r"
proof (induction "nat (mdSize - off)" arbitrary: off dataOff num st rule: less_induct)
  case less
  show ?case
  proof (cases "off < mdSize")
    case True
    obtain h where h: "structAt 48 getMDHead mdBuf off = Some h" "0 \<le> mdh_fullNameSize h" "off + 48 + mdh_fullNameSize h \<le> int (length mdBuf)"
      using less.prems True by (subst (asm) minSecondStageLoop.simps) (auto split: option.splits if_splits)
    have nm: "slice (nat (off + 48)) (nat (mdh_fullNameSize h)) (mdBuf @ z) = slice (nat (off + 48)) (nat (mdh_fullNameSize h)) mdBuf"
      by (rule slice_append_left) (use h(2,3) less.prems(3) in linarith)
    let ?nm = "minFormatFullFileName (slice (nat (off + 48)) (nat (mdh_fullNameSize h)) mdBuf)"
    define r1 where "r1 = minSecondStageEntries E ssl c u mdBuf dups dat (nat (mdh_numOfComingSecrets h)) (off + 48 + mdh_fullNameSize h) dataOff num st"
    define r2 where "r2 = minSecondStageEntries E ssl c u (mdBuf @ z) (dups @ x) (dat @ y) (nat (mdh_numOfComingSecrets h)) (off + 48 + mdh_fullNameSize h) dataOff num st"
    have step: "minSecondStageLoop E ssl c u mdBuf mdSize dups dat off dataOff num st =
        (case ?nm of None \<Rightarrow> Fails st | Some _ \<Rightarrow> (case r1 of Crash e \<Rightarrow> Crash e | Fails st1 \<Rightarrow> Fails st1
          | Done (off1, dataOff1, num1) st1 \<Rightarrow> minSecondStageLoop E ssl c u mdBuf mdSize dups dat off1 dataOff1 num1 st1))"
      using True h by (subst minSecondStageLoop.simps) (simp add: r1_def split: option.split)
    have step2: "minSecondStageLoop E ssl c u (mdBuf @ z) mdSize (dups @ x) (dat @ y) off dataOff num st =
        (case ?nm of None \<Rightarrow> Fails st | Some _ \<Rightarrow> (case r2 of Crash e \<Rightarrow> Crash e | Fails st1 \<Rightarrow> Fails st1
          | Done (off1, dataOff1, num1) st1 \<Rightarrow> minSecondStageLoop E ssl c u (mdBuf @ z) mdSize (dups @ x) (dat @ y) off1 dataOff1 num1 st1))"
      using True h(2,3) structAt_more [OF h(1), of z] nm by (subst minSecondStageLoop.simps) (simp add: r2_def split: option.split)
    show ?thesis
    proof (cases ?nm)
      case None
      then show ?thesis using less.prems(1) step step2 by simp
    next
      case (Some full)
      have "\<forall>x. r1 \<noteq> Crash x" using less.prems(1,2) step Some by auto
      then have r2: "r2 = r1" unfolding r2_def r1_def by (intro minEntries_more) simp_all
      show ?thesis
      proof (cases r1)
        case (Done v st1)
        obtain off1 dataOff1 num1 where v: "v = (off1, dataOff1, num1)" by (cases v)
        have off1: "off1 = off + 48 + mdh_fullNameSize h + 44 * int (nat (mdh_numOfComingSecrets h))"
          using Done v unfolding r1_def by (auto dest!: minSecondStageEntries_offset)
        then have "nat (mdSize - off1) < nat (mdSize - off)" "0 \<le> off1" using True h(2) less.prems(3) by simp_all
        then show ?thesis using less.hyps [of off1 dataOff1 num1 st1] less.prems(1,2) step step2 r2 Some Done v by simp
      qed (use less.prems(1,2) step step2 r2 Some in simp_all)
    qed
  next
    case False
    then show ?thesis using less.prems by (subst (asm) minSecondStageLoop.simps, subst minSecondStageLoop.simps) simp
  qed
qed

lemma minSecondStage_more:
  assumes "minSecondStageDedup E ssl (Some c) u mdBuf mdSize dups dat s = r" "\<forall>x. r \<noteq> Crash x"
  shows "minSecondStageDedup E ssl (Some c) u (mdBuf @ z) mdSize (dups @ x) (dat @ y) s = r"
proof (cases "minFindOrCreateBufferNode E u s")
  case (Done n s1)
  then have "\<forall>z. minSecondStageLoop E ssl c u mdBuf mdSize dups dat 0 0 0 (n, s1) \<noteq> Crash z"
    using assms by (auto simp: minSecondStageDedup_def)
  then show ?thesis using assms(1) Done minLoop_more [OF refl] by (simp add: minSecondStageDedup_def)
qed (use assms in \<open>auto simp: minSecondStageDedup_def\<close>)

section \<open>Messages\<close>

definition userMsg :: "int \<Rightarrow> bytes" where "userMsg u = rev (le 4 u)"

definition packageMsg :: "int \<Rightarrow> bytes \<Rightarrow> bytes" where
  "packageMsg indicator bs = le 4 indicator @ le 4 (int (length bs)) @ bs"

definition recipeFileMsg :: "bytes \<Rightarrow> bytes \<Rightarrow> bytes" where
  "recipeFileMsg name contents =
     le 4 FILE_RECIPE @ le 4 (int (length contents)) @ le 4 (int (length name)) @ name @ contents"

definition keyFileMsg :: "bytes \<Rightarrow> bytes \<Rightarrow> bytes" where
  "keyFileMsg name contents =
     le 4 KEY_RECIPE @ le 4 (int (length contents)) @ le 4 (int (length name)) @ name @ contents"

definition getKeyMsg :: "bytes \<Rightarrow> bytes" where
  "getKeyMsg name = le 4 GET_KEY_RECIPE @ le 4 (int (length name)) @ name"

text \<open>What a handler has still to receive; its arrays may hold anything behind what matters.\<close>

abbreviation inboxOf :: "handler \<Rightarrow> bytes" where
  "inboxOf h \<equiv> rx_in (h_rx h)"

lemma recvHead_whole:
  assumes N: "whole N" and h: "inboxOf h = le 4 v @ rest"
  obtains c buf where "recvHead N h = (4, h\<lparr>h_rx := \<lparr> rx_in = rest, rx_calls = c \<rparr>, h_buffer := le 4 v @ buf\<rparr>)"
proof -
  have "recvSome N 4 (h_rx h) = (4, le 4 v, \<lparr> rx_in = rest, rx_calls = Suc (rx_calls (h_rx h)) \<rparr>)"
    using recvSome_whole [OF N h] by simp
  then show ?thesis by (intro that) (simp add: recvHead_def)
qed

lemma recvNumber_whole:
  assumes N: "whole N" and h: "inboxOf h = le 4 v @ rest" and v: "int32 v"
  obtains c buf where "recvNumber N h = (v, h\<lparr>h_rx := \<lparr> rx_in = rest, rx_calls = c \<rparr>, h_buffer := le 4 v @ buf\<rparr>)"
  by (rule recvHead_whole [OF N h]) (use v in \<open>auto simp: recvNumber_def intro: that\<close>)

lemma recvName_whole:
  assumes N: "whole N" and h: "inboxOf h = name @ rest" and name: "length name \<le> 256" "0 \<notin> set name"
  obtains c where "recvName N (int (length name)) h = Done (underscores name) (h\<lparr>h_rx := \<lparr> rx_in = rest, rx_calls = c \<rparr>\<rparr>)"
proof -
  have "cstring name = name" using name(2) by (simp add: cstring_def takeWhile_eq_all_conv) metis
  then show ?thesis using recvSome_whole [OF N h name(1)] by (intro that) (simp add: recvName_def)
qed

lemma recvPackage_whole:
  assumes N: "whole N" and h: "inboxOf h = le 4 (int (length bs)) @ bs @ rest" and bs: "int (length bs) \<le> BUFFER_LEN"
  obtains c buf where "recvPackage N h =
    Some (Done (int (length bs), int (length bs)) (h\<lparr>h_rx := \<lparr> rx_in = rest, rx_calls = c \<rparr>, h_buffer := bs @ buf\<rparr>))"
proof -
  have "int32 (int (length bs))" using bs by (simp add: int32_def BUFFER_LEN_def)
  then obtain c buf where num: "recvNumber N h =
      (int (length bs), h\<lparr>h_rx := \<lparr> rx_in = bs @ rest, rx_calls = c \<rparr>, h_buffer := le 4 (int (length bs)) @ buf\<rparr>)"
    by (rule recvNumber_whole [OF N h])
  define buf0 where "buf0 = le 4 (int (length bs)) @ buf"
  define buf1 where "buf1 = (if bs = [] then buf0 else overlay 0 bs buf0)"
  have "\<exists>k. recvLoop N BUFFER_LEN (int (length bs)) 0 buf0 \<lparr> rx_in = bs @ rest, rx_calls = c \<rparr> =
      Some (Done (int (length bs), buf1) \<lparr> rx_in = rest, rx_calls = k \<rparr>)"
    by (rule recvLoop_gets [where msg = bs, OF whole_steady [OF N]]) (use bs in \<open>simp_all add: buf1_def\<close>)
  then obtain k where loop: "recvLoop N BUFFER_LEN (int (length bs)) 0 buf0 \<lparr> rx_in = bs @ rest, rx_calls = c \<rparr> =
      Some (Done (int (length bs), buf1) \<lparr> rx_in = rest, rx_calls = k \<rparr>)" by blast
  have "\<exists>b. buf1 = bs @ b" by (simp add: buf1_def)
  then obtain b where "buf1 = bs @ b" by blast
  then show ?thesis using num loop by (intro that [where c = k and buf = b]) (simp add: recvPackage_def flip: buf0_def)
qed

lemma recvPackage_half:
  assumes N: "whole N" and h: "inboxOf h = le 4 n @ part" and n: "int (length part) < n" "n \<le> BUFFER_LEN"
  shows "recvPackage N h = None"
proof -
  have "int32 n" using n by (simp add: int32_def BUFFER_LEN_def)
  then obtain c buf where num: "recvNumber N h = (n, h\<lparr>h_rx := \<lparr> rx_in = part, rx_calls = c \<rparr>, h_buffer := le 4 n @ buf\<rparr>)"
    by (rule recvNumber_whole [OF N h])
  have "recvLoop N BUFFER_LEN n 0 (le 4 n @ buf) \<lparr> rx_in = part, rx_calls = c \<rparr> = None"
    by (rule recvLoop_hangs [OF whole_steady [OF N]]) (use n in simp_all)
  then show ?thesis using num by (simp add: recvPackage_def)
qed

lemma padTo_more: "\<exists>y. padTo n z (xs @ ys) = xs @ y"
  by (simp add: padTo_def)

section \<open>Rounds\<close>

text \<open>The replies to a first stage that went well.\<close>

definition statReply :: "bool list \<Rightarrow> bytes list" where
  "statReply dups = [le 4 STAT, le 4 (int (length dups)), flagBytes dups]"

lemma reply_run:
  assumes E: "faultless E" and dups: "h_stat h = dups @ cells"
  shows "\<exists>buf. reply E (length dups) (h, s) = (h\<lparr>h_buffer := buf\<rparr>, later (tick s + 3) (sent s @ statReply dups) s)"
proof -
  have "take (length dups) (padTo (nat BUFFER_LEN) False (h_stat h)) = dups" by (simp add: dups padTo_def)
  then show ?thesis using E
    by (intro exI [of _ "overlay 0 (le 4 (int (length dups))) (h_buffer h)"])
       (simp add: reply_def sendMsg_fine statReply_def numeral_3_eq_3)
qed

lemma serveShareMD_run:
  assumes N: "whole N" and E: "faultless E" and h: "inboxOf h = le 4 (int (length pkg)) @ pkg @ rest"
    and pkg: "int (length pkg) \<le> META_LEN" and dups: "int (length dups) \<le> BUFFER_LEN"
    and first: "first E u (overwrite pkg (h_meta h)) (int (length pkg)) s = Some (Done (Inr (dups, sz)) s1)"
  obtains h' d where "serveShareMD first N E u (h, s) = Some (Done Continue (h', later (tick s1 + 3) (sent s1 @ statReply dups) s1))"
    "inboxOf h' = rest" "h_meta h' = overwrite pkg (h_meta h)" "h_metaSize h' = Some (int (length pkg))" "h_stat h' = dups @ d"
proof -
  have "int (length pkg) \<le> BUFFER_LEN" using pkg by (simp add: META_LEN_def BUFFER_LEN_def)
  then obtain c buf where rp: "recvPackage N h =
      Some (Done (int (length pkg), int (length pkg)) (h\<lparr>h_rx := \<lparr> rx_in = rest, rx_calls = c \<rparr>, h_buffer := pkg @ buf\<rparr>))"
    by (rule recvPackage_whole [OF N h])
  define h2 where "h2 = h\<lparr>h_rx := \<lparr> rx_in = rest, rx_calls = c \<rparr>, h_buffer := pkg @ buf,
      h_meta := overwrite pkg (h_meta h), h_metaSize := Some (int (length pkg)),
      h_stat := dups @ drop (length dups) (h_stat h)\<rparr>"
  obtain b where r: "reply E (length dups) (h2, s1) = (h2\<lparr>h_buffer := b\<rparr>, later (tick s1 + 3) (sent s1 @ statReply dups) s1)"
    using reply_run [OF E, of h2 dups "drop (length dups) (h_stat h)" s1] by (auto simp: h2_def)
  have "serveShareMD first N E u (h, s) = Some (Done Continue (h2\<lparr>h_buffer := b\<rparr>, later (tick s1 + 3) (sent s1 @ statReply dups) s1))"
    using rp pkg dups first r by (simp add: serveShareMD_def Let_def h2_def overwrite_def)
  then show ?thesis by (rule that) (simp_all add: h2_def)
qed

lemma serveShareData_run:
  assumes N: "whole N" and h: "inboxOf h = le 4 (int (length dat)) @ dat @ rest" and dat: "int (length dat) \<le> BUFFER_LEN"
    and meta: "h_metaSize h = Some mdSize" "h_stat h = dups @ d"
    and second: "\<And>x y. \<exists>s'. second E ssl (Some c) u (h_meta h) mdSize (dups @ x) (dat @ y) s \<in> {Done () s', Fails s'} \<and> Q s'"
  obtains h' s' where "serveShareData second N E ssl c u (h, s) = Some (Done Continue (h', s'))" "Q s'"
    "inboxOf h' = rest" "h_meta h' = h_meta h" "h_metaSize h' = h_metaSize h" "h_stat h' = h_stat h"
proof -
  obtain c' buf where rp: "recvPackage N h =
      Some (Done (int (length dat), int (length dat)) (h\<lparr>h_rx := \<lparr> rx_in = rest, rx_calls = c' \<rparr>, h_buffer := dat @ buf\<rparr>))"
    by (rule recvPackage_whole [OF N h dat])
  obtain x y where xy: "padTo (nat BUFFER_LEN) False (h_stat h) = dups @ x" "padTo (nat BUFFER_LEN) 0 (dat @ buf) = dat @ y"
    using padTo_more meta(2) by metis
  obtain s' where s': "second E ssl (Some c) u (h_meta h) mdSize (dups @ x) (dat @ y) s \<in> {Done () s', Fails s'}" "Q s'"
    using second by blast
  have "serveShareData second N E ssl c u (h, s) =
      Some (Done Continue (h\<lparr>h_rx := \<lparr> rx_in = rest, rx_calls = c' \<rparr>, h_buffer := dat @ buf\<rparr>, s'))"
    using rp meta(1) xy s'(1) by (auto simp: serveShareData_def ignoreResult_def)
  then show ?thesis by (rule that) (simp_all add: s'(2))
qed


lemma serveMetaDownload_run:
  assumes N: "whole N" and h: "inboxOf h = le 4 (int (length name)) @ name @ rest" and name: "int (length name) \<le> BUFFER_LEN"
    and restore: "restoreShareFile E ssl (Some c) u name 0 s = r" "r = Done () s' \<or> r = Fails s'"
  obtains h' where "serveMetaDownload N E ssl c u (h, s) = Some (Done Continue (h', s'))" "inboxOf h' = rest"
proof -
  obtain c' buf where rp: "recvPackage N h =
      Some (Done (int (length name), int (length name)) (h\<lparr>h_rx := \<lparr> rx_in = rest, rx_calls = c' \<rparr>, h_buffer := name @ buf\<rparr>))"
    by (rule recvPackage_whole [OF N h name])
  have "take (length name) (padTo (nat BUFFER_LEN) 0 (name @ buf)) = name" by (simp add: padTo_def)
  then have "serveMetaDownload N E ssl c u (h, s) =
      Some (Done Continue (h\<lparr>h_rx := \<lparr> rx_in = rest, rx_calls = c' \<rparr>, h_buffer := name @ buf\<rparr>, s'))"
    using rp restore by (auto simp: serveMetaDownload_def ignoreResult_def)
  then show ?thesis by (rule that) simp_all
qed

text \<open>What a round leaves of a handler when it has read the indicator.\<close>

lemma indicator_whole:
  assumes N: "whole N" and h: "inboxOf h = le 4 ind @ rest" and ind: "int32 ind"
  obtains h1 where "recvHead N h = (4, h1)" "readInt (h_buffer h1) = ind" "inboxOf h1 = rest"
    "h_meta h1 = h_meta h" "h_metaSize h1 = h_metaSize h" "h_stat h1 = h_stat h"
proof -
  obtain c buf where "recvHead N h = (4, h\<lparr>h_rx := \<lparr> rx_in = rest, rx_calls = c \<rparr>, h_buffer := le 4 ind @ buf\<rparr>)"
    by (rule recvHead_whole [OF N h])
  then show ?thesis by (rule that) (simp_all add: ind)
qed

lemma closed_head: "steady N \<Longrightarrow> inboxOf h = [] \<Longrightarrow> \<exists>h1. recvHead N h = (0, h1) \<and> inboxOf h1 = []"
  by (cases "N (rx_calls (h_rx h))") (auto simp: steady_def recvHead_def recvSome_def)

lemma int32_indicators [simp]:
  "int32 META" "int32 DATA" "int32 STAT" "int32 DOWNLOAD" "int32 KEY_RECIPE" "int32 GET_KEY_RECIPE" "int32 FILE_RECIPE"
  by (simp_all add: indicators int32_def)

lemma openSession_whole:
  assumes "whole N" "int32 u"
  obtains h where "openSession N (userMsg u @ rest) = Done u h" "inboxOf h = rest" "h_meta h = []"
  using recvSome_whole [OF assms(1), of "\<lparr> rx_in = userMsg u @ rest, rx_calls = 0 \<rparr>" "userMsg u" rest] assms(2)
  by (auto simp: openSession_def userMsg_def intro: that)

lemma plain_cstring: "0 \<notin> set name \<Longrightarrow> cstring name = name"
  by (simp add: cstring_def takeWhile_eq_all_conv) metis

lemma serveDataDownload_run:
  assumes N: "whole N" and h: "inboxOf h = le 4 (int (length name)) @ name @ rest" and name: "int (length name) < BUFFER_LEN" "0 \<notin> set name"
    and path: "pathIn recipesDir (underscores name) = Some path"
    and restore: "minRestoreShareFile E sh (Some c) path s = r" "r = Done () s' \<or> r = Fails s'"
  obtains h' where "serveDataDownload N E sh c (h, s) = Some (Done Continue (h', s'))" "inboxOf h' = rest"
proof -
  have "int (length name) \<le> BUFFER_LEN" using name(1) by simp
  then obtain c' buf where rp: "recvPackage N h =
      Some (Done (int (length name), int (length name)) (h\<lparr>h_rx := \<lparr> rx_in = rest, rx_calls = c' \<rparr>, h_buffer := name @ buf\<rparr>))"
    by (rule recvPackage_whole [OF N h])
  have nm: "take (length name) (padTo (nat BUFFER_LEN) 0 (name @ buf)) = name" by (simp add: padTo_def)
  then obtain h' where "serveDataDownload N E sh c (h, s) = Some (Done Continue (h', s'))" "inboxOf h' = rest"
    using rp restore path name plain_cstring [OF name(2)] by (auto simp: serveDataDownload_def ignoreResult_def Let_def)
  then show ?thesis by (rule that)
qed

lemma sendLoop_fine:
  assumes E: "faultless E"
  shows "\<exists>k. sendLoop E bs 0 s = Some (Done () (later k (sent s @ (if bs = [] then [] else [bs])) s))"
proof (cases "bs = []")
  case True
  then have "sendLoop E bs 0 s = Some (Done () (later (tick s) (sent s @ []) s))" by (subst sendLoop.simps) simp
  then show ?thesis unfolding True by (intro exI [of _ "tick s"]) simp
next
  case False
  have "sendSome E bs s = (int (length bs), later (Suc (tick s)) (sent s @ [bs]) s)"
    using E by (simp add: sendSome_def sendMsg_fine faultless_def)
  then have "sendLoop E bs 0 s = sendLoop E bs (int (length bs)) (later (Suc (tick s)) (sent s @ [bs]) s)"
    using False by (subst sendLoop.simps) simp
  also have "\<dots> = Some (Done () (later (Suc (tick s)) (sent s @ [bs]) s))" by (subst sendLoop.simps) simp
  finally show ?thesis using False by auto
qed

lemma fappend_fine:
  "faultless E \<Longrightarrow> disk s path = Some old \<Longrightarrow> \<exists>k. fappend E path bs s = s\<lparr>disk := (disk s)(path \<mapsto> old @ bs), tick := k\<rparr>"
proof (cases "bs = []")
  case True
  assume "disk s path = Some old"
  then have "fappend E path bs s = s\<lparr>disk := (disk s)(path \<mapsto> old @ bs), tick := tick s\<rparr>" using True by (simp add: fappend_def fun_upd_idem)
  then show ?thesis by blast
next
  case False
  assume "faultless E" "disk s path = Some old"
  then have "fappend E path bs s = s\<lparr>disk := (disk s)(path \<mapsto> old @ bs), tick := Suc (tick s)\<rparr>"
    using False by (simp add: fappend_def fwriteAt_def faultless_def fileContents_def overlay_def tock_def)
  then show ?thesis by blast
qed

lemma recipeLoop_run:
  assumes N: "steady N" and E: "faultless E"
  shows "rx_in r = msg @ rest \<Longrightarrow> len = n + int (length msg) \<Longrightarrow> 0 \<le> n \<Longrightarrow> disk s path = Some old \<Longrightarrow>
    \<exists>c k. recipeLoop N E path len n (r, s) =
      Some (Done () (\<lparr> rx_in = rest, rx_calls = c \<rparr>, s\<lparr>disk := (disk s)(path \<mapsto> old @ msg), tick := k\<rparr>))"
proof (induction "length msg" arbitrary: msg n r s old rule: less_induct)
  case less
  show ?case
  proof (cases "msg = []")
    case True
    have "s\<lparr>disk := (disk s)(path \<mapsto> old), tick := tick s\<rparr> = s" using less.prems(4) by (simp add: fun_upd_idem)
    then show ?thesis using less.prems True
      by (subst recipeLoop.simps) (intro exI [of _ "rx_calls r"] exI [of _ "tick s"], cases r, simp)
  next
    case False
    let ?n = "nat (if len - n \<ge> 40000 then 40000 else len - n)"
    have pos: "0 < ?n" "rx_in r \<noteq> []" "n < len" using False less.prems(1,2) by auto
    obtain bs rest1 where bs: "recvSome N ?n r = (int (length bs), bs, \<lparr> rx_in = rest1, rx_calls = Suc (rx_calls r) \<rparr>)"
      "rx_in r = bs @ rest1" "bs \<noteq> []" "length bs \<le> ?n"
      by (rule recvSome_steady [OF N pos(1,2)])
    define msg1 where "msg1 = drop (length bs) msg"
    have "length bs \<le> length msg" using bs(4) less.prems(2) by (auto split: if_splits)
    then have msg: "msg = bs @ msg1" "rest1 = msg1 @ rest"
      using bs(2) less.prems(1) unfolding msg1_def by (auto simp: append_eq_append_conv2)
    obtain k1 where ap: "fappend E path bs s = s\<lparr>disk := (disk s)(path \<mapsto> old @ bs), tick := k1\<rparr>"
      using fappend_fine [OF E less.prems(4)] by blast
    let ?s1 = "s\<lparr>disk := (disk s)(path \<mapsto> old @ bs), tick := k1\<rparr>"
    have "\<exists>c k. recipeLoop N E path len (n + int (length bs)) (\<lparr> rx_in = rest1, rx_calls = Suc (rx_calls r) \<rparr>, ?s1) =
        Some (Done () (\<lparr> rx_in = rest, rx_calls = c \<rparr>, ?s1\<lparr>disk := (disk ?s1)(path \<mapsto> (old @ bs) @ msg1), tick := k\<rparr>))"
      by (rule less.hyps) (use less.prems msg bs(3) in auto)
    moreover have "recipeLoop N E path len n (r, s) =
        recipeLoop N E path len (n + int (length bs)) (\<lparr> rx_in = rest1, rx_calls = Suc (rx_calls r) \<rparr>, ?s1)"
      using pos(3) bs(1) ap by (subst recipeLoop.simps) simp
    ultimately show ?thesis using msg(1) by simp
  qed
qed

lemma underscores_nul: "0 \<in> set name \<Longrightarrow> 0 \<in> set (underscores name)"
  by (cases name) (force simp: underscores_def image_iff)+

lemma pathIn_short: "pathIn dir (underscores name) = Some path \<Longrightarrow> length name \<le> 256"
  by (cases name) (auto simp: underscores_def pathIn_def split: if_splits)

lemma serveFileRecipe_run:
  assumes N: "whole N" and E: "faultless E"
    and h: "inboxOf h = le 4 (int (length contents)) @ le 4 (int (length name)) @ name @ contents @ rest"
    and name: "0 \<notin> set name" "pathIn recipesDir (underscores name) = Some path"
    and contents: "24 \<le> length contents" "int32 (int (length contents))" and new: "disk s path = None"
  obtains h' k where "serveFileRecipe N E (h, s) = Some (Done Break (h', s\<lparr>disk := (disk s)(path \<mapsto> contents), tick := k\<rparr>))"
proof -
  have short: "length name \<le> 256" by (rule pathIn_short [OF name(2)])
  then have i32: "int32 (int (length name))" by (simp add: int32_def)
  obtain c1 b1 where h1: "recvNumber N h = (int (length contents), h\<lparr>h_rx := \<lparr> rx_in = le 4 (int (length name)) @ name @ contents @ rest, rx_calls = c1 \<rparr>,
      h_buffer := le 4 (int (length contents)) @ b1\<rparr>)" (is "_ = (_, ?h1)")
    by (rule recvNumber_whole [OF N h contents(2)])
  have in1: "inboxOf ?h1 = le 4 (int (length name)) @ (name @ contents @ rest)" by simp
  obtain c2 b2 where h2: "recvNumber N ?h1 = (int (length name), ?h1\<lparr>h_rx := \<lparr> rx_in = name @ contents @ rest, rx_calls = c2 \<rparr>,
      h_buffer := le 4 (int (length name)) @ b2\<rparr>)" (is "_ = (_, ?h2)")
    by (rule recvNumber_whole [OF N in1 i32])
  have in2: "inboxOf ?h2 = name @ (contents @ rest)" by simp
  obtain c3 where h3: "recvName N (int (length name)) ?h2 = Done (underscores name) (?h2\<lparr>h_rx := \<lparr> rx_in = contents @ rest, rx_calls = c3 \<rparr>\<rparr>)" (is "_ = Done _ ?h3")
    by (rule recvName_whole [OF N in2 short name(1)])
  define hd24 where "hd24 = take 24 contents"
  have c24: "contents = hd24 @ drop 24 contents" "length hd24 = 24" using contents(1) by (simp_all add: hd24_def)
  have in3: "rx_in (h_rx ?h3) = hd24 @ (drop 24 contents @ rest)" using c24(1) by simp
  have h4: "recvSome N 24 (h_rx ?h3) = (24, hd24, \<lparr> rx_in = drop 24 contents @ rest, rx_calls = Suc c3 \<rparr>)"
    using recvSome_whole [OF N in3] c24(2) by simp
  let ?s1 = "tock (s\<lparr>disk := (disk s)(path \<mapsto> [])\<rparr>)"
  have open1: "fopenAb E path s = (True, ?s1)" using E new by (simp add: fopenAb_def faultless_def)
  obtain k1 where ap: "fappend E path hd24 ?s1 = ?s1\<lparr>disk := (disk ?s1)(path \<mapsto> [] @ hd24), tick := k1\<rparr>" (is "_ = ?s2")
    using fappend_fine [OF E, of ?s1 path "[]" hd24] by auto
  have "\<exists>c k. recipeLoop N E path (int (length contents) - 24) 0 (\<lparr> rx_in = drop 24 contents @ rest, rx_calls = Suc c3 \<rparr>, ?s2) =
      Some (Done () (\<lparr> rx_in = rest, rx_calls = c \<rparr>, ?s2\<lparr>disk := (disk ?s2)(path \<mapsto> ([] @ hd24) @ drop 24 contents), tick := k\<rparr>))"
    by (rule recipeLoop_run [OF whole_steady [OF N] E]) (use contents(1) in simp_all)
  then obtain c4 k where loop: "recipeLoop N E path (int (length contents) - 24) 0 (\<lparr> rx_in = drop 24 contents @ rest, rx_calls = Suc c3 \<rparr>, ?s2) =
      Some (Done () (\<lparr> rx_in = rest, rx_calls = c4 \<rparr>, ?s2\<lparr>disk := (disk ?s2)(path \<mapsto> ([] @ hd24) @ drop 24 contents), tick := k\<rparr>))" by blast
  have fin: "?s2\<lparr>disk := (disk ?s2)(path \<mapsto> ([] @ hd24) @ drop 24 contents), tick := k\<rparr> = s\<lparr>disk := (disk s)(path \<mapsto> contents), tick := k\<rparr>"
    using c24(1) by (simp add: tock_def)
  have "serveFileRecipe N E (h, s) = Some (Done Break (?h3\<lparr>h_rx := \<lparr> rx_in = rest, rx_calls = c4 \<rparr>\<rparr>, s\<lparr>disk := (disk s)(path \<mapsto> contents), tick := k\<rparr>))"
    unfolding serveFileRecipe_def prod.case h1 h2 h3 outcome.case name(2) option.case open1 h4
    using c24(2) loop fin by (simp add: ap)
  then show ?thesis by (rule that)
qed

lemma serveKeyRecipe_run:
  assumes N: "whole N" and E: "faultless E"
    and h: "inboxOf h = le 4 (int (length contents)) @ le 4 (int (length name)) @ name @ contents @ rest"
    and name: "0 \<notin> set name" "pathIn keystoreDir (underscores name) = Some path" and contents: "int32 (int (length contents))"
  obtains h' k where "serveKeyRecipe N E (h, s) = Some (Done Continue (h', s\<lparr>disk := (disk s)(path \<mapsto> contents), tick := k\<rparr>))" "inboxOf h' = rest"
proof -
  have i32: "length name \<le> 256" "int32 (int (length name))" using pathIn_short [OF name(2)] by (simp_all add: int32_def)
  obtain c1 b1 where h1: "recvNumber N h = (int (length contents), h\<lparr>h_rx := \<lparr> rx_in = le 4 (int (length name)) @ name @ contents @ rest, rx_calls = c1 \<rparr>,
      h_buffer := le 4 (int (length contents)) @ b1\<rparr>)" (is "_ = (_, ?h1)")
    by (rule recvNumber_whole [OF N h contents])
  have in1: "inboxOf ?h1 = le 4 (int (length name)) @ (name @ contents @ rest)" by simp
  obtain c2 b2 where h2: "recvNumber N ?h1 = (int (length name), ?h1\<lparr>h_rx := \<lparr> rx_in = name @ contents @ rest, rx_calls = c2 \<rparr>,
      h_buffer := le 4 (int (length name)) @ b2\<rparr>)" (is "_ = (_, ?h2)")
    by (rule recvNumber_whole [OF N in1 i32(2)])
  have in2: "inboxOf ?h2 = name @ (contents @ rest)" by simp
  obtain c3 where h3: "recvName N (int (length name)) ?h2 = Done (underscores name) (?h2\<lparr>h_rx := \<lparr> rx_in = contents @ rest, rx_calls = c3 \<rparr>\<rparr>)" (is "_ = Done _ ?h3")
    by (rule recvName_whole [OF N in2 i32(1) name(1)])
  have "\<exists>c. recvLoop N (int (length contents)) (int (length contents)) 0 [] (h_rx ?h3) =
      Some (Done (int (length contents), contents) \<lparr> rx_in = rest, rx_calls = c \<rparr>)"
    by (rule recvLoop_gets [where msg = contents, OF whole_steady [OF N]]) (simp_all add: overlay_def)
  then obtain c4 where h4: "recvLoop N (int (length contents)) (int (length contents)) 0 [] (h_rx ?h3) =
      Some (Done (int (length contents), contents) \<lparr> rx_in = rest, rx_calls = c4 \<rparr>)" by blast
  let ?s1 = "tock (s\<lparr>disk := (disk s)(path \<mapsto> [])\<rparr>)"
  have open1: "fopenWb E path s = (True, ?s1)" using E by (simp add: fopenWb_def faultless_def)
  have wrote: "snd (fwriteAt E path 0 contents ?s1) = s\<lparr>disk := (disk s)(path \<mapsto> contents), tick := tick s + 2\<rparr>"
    using E by (simp add: fwriteAt_def faultless_def fileContents_def overlay_def tock_def)
  have "serveKeyRecipe N E (h, s) = Some (Done Continue (?h3\<lparr>h_rx := \<lparr> rx_in = rest, rx_calls = c4 \<rparr>\<rparr>, s\<lparr>disk := (disk s)(path \<mapsto> contents), tick := tick s + 2\<rparr>))"
    unfolding serveKeyRecipe_def prod.case h1 h2 h3 outcome.case name(2) option.case open1 h4 by (simp add: wrote)
  then show ?thesis by (rule that) simp
qed

lemma serveGetKeyRecipe_run:
  assumes N: "whole N" and E: "faultless E"
    and h: "inboxOf h = le 4 (int (length name)) @ name @ rest"
    and name: "0 \<notin> set name" "pathIn keystoreDir (underscores name) = Some path"
    and contents: "int32 (int (length contents))" and at: "disk s path = Some contents"
  obtains h' k where "serveGetKeyRecipe N E (h, s) = Some (Done Continue (h', later k
      (sent s @ le 4 (int (length contents)) # (if contents = [] then [] else [contents])) s))" "inboxOf h' = rest"
proof -
  have i32: "length name \<le> 256" "int32 (int (length name))" using pathIn_short [OF name(2)] by (simp_all add: int32_def)
  obtain c1 b1 where h1: "recvNumber N h = (int (length name), h\<lparr>h_rx := \<lparr> rx_in = name @ rest, rx_calls = c1 \<rparr>,
      h_buffer := le 4 (int (length name)) @ b1\<rparr>)" (is "_ = (_, ?h1)")
    by (rule recvNumber_whole [OF N h i32(2)])
  have in1: "inboxOf ?h1 = name @ rest" by simp
  obtain c2 where h2: "recvName N (int (length name)) ?h1 = Done (underscores name) (?h1\<lparr>h_rx := \<lparr> rx_in = rest, rx_calls = c2 \<rparr>\<rparr>)" (is "_ = Done _ ?h2")
    by (rule recvName_whole [OF N in1 i32(1) name(1)])
  have open1: "fopenRb E path s = (Some contents, tock s)" using E at by (simp add: fopenRb_def faultless_def)
  obtain k0 where read: "freadUpTo E path 0 (length contents) (tock s) = (contents, s\<lparr>tick := k0\<rparr>)"
    using E at by (auto simp: freadUpTo_def faultless_def fileContents_def tock_def slice_def)
  let ?s1 = "snd (sendMsg E (le 4 (int (length contents))) (s\<lparr>tick := k0\<rparr>))"
  have send: "?s1 = later (Suc k0) (sent s @ [le 4 (int (length contents))]) s" using E by (simp add: sendMsg_fine)
  obtain k where loop: "sendLoop E contents 0 ?s1 = Some (Done () (later k (sent ?s1 @ (if contents = [] then [] else [contents])) ?s1))"
    using sendLoop_fine [OF E] by blast
  have small: "\<not> 2147483648 \<le> int (length contents)" using contents by (simp add: int32_def)
  have "serveGetKeyRecipe N E (h, s) = Some (Done Continue (?h2, later k (sent s @ le 4 (int (length contents)) # (if contents = [] then [] else [contents])) s))"
    unfolding serveGetKeyRecipe_def prod.case h1 h2 outcome.case name(2) option.case open1 read using small loop by (simp add: send)
  then show ?thesis by (rule that) simp
qed

lemma storeInv_later: "storeInv ssl c (later k ms s) = storeInv ssl c s"
  by (simp add: storeInv_def linkSound_def nodeSound_def sharesSound_def located_def)

lemma sharesIn_more:
  assumes "\<forall>z\<in>set zs. fitEntry (snd z)" "wanted zs \<le> int (length dat)"
  shows "sharesIn ssl c zs (dat @ y) = sharesIn ssl c zs dat"
  using assms
proof (induction zs arbitrary: dat)
  case (Cons z zs)
  obtain dup e where z: "z = (dup, e)" by (cases z)
  have "0 \<le> wanted zs" by (rule wanted_nonneg) (use Cons.prems in simp)
  then have "\<not> dup \<Longrightarrow> nat (mde_shareSize e) \<le> length dat \<and> wanted zs \<le> int (length (drop (nat (mde_shareSize e)) dat))"
    using Cons.prems z by (auto simp: fitEntry_def)
  then show ?case using Cons z by auto
qed simp

lemma entries_fit: "\<forall>f\<in>set files. okFile f \<Longrightarrow> length (entriesOf files) \<le> length (packageOf files)"
proof (induction files rule: entriesOf.induct)
  case (2 h name es files)
  then have "length (concat (map putMDEntry es)) = 44 * length es" by (intro mdEntry.length_table) simp
  then show ?case using 2 by (simp add: packageOf_def)
qed (simp add: packageOf_def)

lemma recipeFile_size:
  assumes "int32 (int (length (recipeFileOf u fileSize es)))"
  shows "24 \<le> length (recipeFileOf u fileSize es)" "int32 (int (length es))"
proof -
  have "length es \<le> length (concat (map putRecipeEntry es))" by (induction es) (simp_all add: putRecipeEntry_def)
  then have "24 + length es \<le> length (recipeFileOf u fileSize es)" by (simp add: recipeFileOf_def putRecipeHead_def)
  then show "24 \<le> length (recipeFileOf u fileSize es)" "int32 (int (length es))" using assms by (auto simp: int32_def)
qed

text \<open>A file outside the directory of the share containers does not matter to the shares.\<close>

lemma disk_elsewhere:
  assumes "\<nexists>name. path = shareContainerDirName s @ name"
  shows "containerOf (s\<lparr>disk := (disk s)(path := v)\<rparr>) = containerOf s"
    and "storeInv ssl c (s\<lparr>disk := (disk s)(path := v)\<rparr>) = storeInv ssl c s"
    and "fetchShare (s\<lparr>disk := (disk s)(path := v)\<rparr>) = fetchShare s"
    and "restorable (s\<lparr>disk := (disk s)(path := v)\<rparr>) = restorable s"
    and "restoredFile (s\<lparr>disk := (disk s)(path := v)\<rparr>) = restoredFile s"
proof -
  show co: "containerOf (s\<lparr>disk := (disk s)(path := v)\<rparr>) = containerOf s"
    using assms by (auto simp: fun_eq_iff containerOf_def split: option.split)
  then show "storeInv ssl c (s\<lparr>disk := (disk s)(path := v)\<rparr>) = storeInv ssl c s"
    by (simp add: storeInv_def linkSound_def nodeSound_def sharesSound_def located_def)
  show "fetchShare (s\<lparr>disk := (disk s)(path := v)\<rparr>) = fetchShare s"
    using co by (simp add: fun_eq_iff fetchShare_def Let_def split: option.split)
  then show "restoredFile (s\<lparr>disk := (disk s)(path := v)\<rparr>) = restoredFile s"
    by (simp add: fun_eq_iff restoredFile_def entryBytes_def [abs_def])
qed (simp add: fun_eq_iff restorable_def)

section \<open>What both handlers promise\<close>

text \<open>
  Both handlers serve announcements and share data the same way, with their own stages: a client that
  uploads a package relies on these laws only.
\<close>

locale share_server =
  fixes first :: first_stage
    and second :: second_stage
    and round :: "recvs \<Rightarrow> env \<Rightarrow> openssl \<Rightarrow> cryptoPrimitive \<Rightarrow> int \<Rightarrow> session \<Rightarrow> (flow, session) outcome option"
    and loop :: "recvs \<Rightarrow> env \<Rightarrow> openssl \<Rightarrow> cryptoPrimitive \<Rightarrow> int \<Rightarrow> session \<Rightarrow> (unit, session) outcome option"
  assumes announce: "recvHead N h = (4, h1) \<Longrightarrow> readInt (h_buffer h1) = META \<Longrightarrow>
      round N E ssl c u (h, s) = serveShareMD first N E u (h1, s)"
    and receive: "recvHead N h = (4, h1) \<Longrightarrow> readInt (h_buffer h1) = DATA \<Longrightarrow>
      round N E ssl c u (h, s) = serveShareData second N E ssl c u (h1, s)"
    and close: "recvHead N h = (0, h1) \<Longrightarrow> round N E ssl c u (h, s) = Some (Done Break (h1, s))"
    and next_round: "round N E ssl c u st = Some (Done Continue st1) \<Longrightarrow> loop N E ssl c u st = loop N E ssl c u st1"
    and last_round: "round N E ssl c u st = Some (Done Break st1) \<Longrightarrow> loop N E ssl c u st = Some (Done () st1)"
    and stuck_round: "round N E ssl c u st = None \<Longrightarrow> loop N E ssl c u st = None"
    and crash_round: "round N E ssl c u st = Some (Crash e) \<Longrightarrow> loop N E ssl c u st = Some (Crash e)"
begin

lemma ends:
  assumes "steady N" "inboxOf h = []"
  shows "\<exists>h1. loop N E ssl c u (h, s) = Some (Done () (h1, s))"
  using closed_head [OF assms] close last_round by blast

text \<open>An announcement that the first stage accepts is answered; then the share data goes to the second stage.\<close>

lemma upload_rounds:
  assumes N: "whole N" and E: "faultless E"
    and h: "inboxOf h = packageMsg META pkg @ packageMsg DATA dat @ rest"
    and size: "int (length pkg) \<le> META_LEN" "int (length dups) \<le> BUFFER_LEN" "int (length dat) \<le> BUFFER_LEN"
    and one: "\<And>z. first E u (pkg @ z) (int (length pkg)) s = Some (Done (Inr (dups, sz)) s0)"
    and two: "\<And>x y z. second E ssl (Some c) u (pkg @ z) (int (length pkg)) (dups @ x) (dat @ y)
      (later (tick s0 + 3) (sent s0 @ statReply dups) s0) = r" "r = Done () s' \<or> r = Fails s'"
  obtains h' where "loop N E ssl c u (h, s) = loop N E ssl c u (h', s')" "inboxOf h' = rest"
proof -
  let ?s1 = "later (tick s0 + 3) (sent s0 @ statReply dups) s0"
  have in0: "inboxOf h = le 4 META @ (le 4 (int (length pkg)) @ pkg @ packageMsg DATA dat @ rest)" using h by (simp add: packageMsg_def)
  obtain h1 where h1: "recvHead N h = (4, h1)" "readInt (h_buffer h1) = META"
    "inboxOf h1 = le 4 (int (length pkg)) @ pkg @ packageMsg DATA dat @ rest"
    by (rule indicator_whole [OF N in0]) auto
  have f1: "first E u (overwrite pkg (h_meta h1)) (int (length pkg)) s = Some (Done (Inr (dups, sz)) s0)"
    using one by (simp add: overwrite_def)
  obtain h2 d where md: "serveShareMD first N E u (h1, s) = Some (Done Continue (h2, ?s1))" "inboxOf h2 = packageMsg DATA dat @ rest"
    "h_meta h2 = overwrite pkg (h_meta h1)" "h_metaSize h2 = Some (int (length pkg))" "h_stat h2 = dups @ d"
    by (rule serveShareMD_run [where first = first, OF N E h1(3) size(1,2) f1])
  have in2: "inboxOf h2 = le 4 DATA @ (le 4 (int (length dat)) @ dat @ rest)" using md(2) by (simp add: packageMsg_def)
  obtain h3 where h3: "recvHead N h2 = (4, h3)" "readInt (h_buffer h3) = DATA" "inboxOf h3 = le 4 (int (length dat)) @ dat @ rest"
    "h_meta h3 = overwrite pkg (h_meta h1)" "h_metaSize h3 = Some (int (length pkg))" "h_stat h3 = dups @ d"
    by (rule indicator_whole [OF N in2]) (use md in auto)
  have two': "\<exists>t. second E ssl (Some c) u (h_meta h3) (int (length pkg)) (dups @ x) (dat @ y) ?s1 \<in> {Done () t, Fails t} \<and> t = s'" for x y
    using two h3(4) by (auto simp: overwrite_def)
  obtain h4 where dt: "serveShareData second N E ssl c u (h3, ?s1) = Some (Done Continue (h4, s'))" "inboxOf h4 = rest"
    by (rule serveShareData_run [where second = second, OF N h3(3) size(3) h3(5,6) two']) simp
  have "loop N E ssl c u (h, s) = loop N E ssl c u (h2, ?s1)" using next_round announce [OF h1(1,2)] md(1) by simp
  moreover have "loop N E ssl c u (h2, ?s1) = loop N E ssl c u (h4, s')" using next_round receive [OF h3(1,2)] dt(1) by simp
  ultimately show ?thesis using that dt(2) by simp
qed

text \<open>A client that closes in the middle of a package, and one whose announcement does not fit \<open>metaBuffer\<close>.\<close>

lemma half_package:
  assumes N: "whole N" and h: "inboxOf h = le 4 ind @ le 4 n @ part" and ind: "ind = META \<or> ind = DATA"
    and n: "int (length part) < n" "n \<le> BUFFER_LEN"
  shows "loop N E ssl c u (h, s) = None"
proof -
  obtain h1 where h1: "recvHead N h = (4, h1)" "readInt (h_buffer h1) = ind" "inboxOf h1 = le 4 n @ part"
    by (rule indicator_whole [OF N h]) (use ind in auto)
  have "recvPackage N h1 = None" by (rule recvPackage_half [OF N h1(3) n])
  then have "serveShareMD first N E u (h1, s) = None" "serveShareData second N E ssl c u (h1, s) = None"
    by (simp_all add: serveShareMD_def serveShareData_def)
  then show ?thesis using ind stuck_round announce [OF h1(1)] receive [OF h1(1)] h1(2) by auto
qed

lemma big_announcement:
  assumes N: "whole N" and h: "inboxOf h = packageMsg META pkg @ rest" and n: "META_LEN < int (length pkg)" "int (length pkg) \<le> BUFFER_LEN"
  shows "loop N E ssl c u (h, s) = Some (Crash BufferOverflow)"
proof -
  have in0: "inboxOf h = le 4 META @ (le 4 (int (length pkg)) @ pkg @ rest)" using h by (simp add: packageMsg_def)
  obtain h1 where h1: "recvHead N h = (4, h1)" "readInt (h_buffer h1) = META" "inboxOf h1 = le 4 (int (length pkg)) @ pkg @ rest"
    by (rule indicator_whole [OF N in0]) auto
  obtain c' buf where "recvPackage N h1 =
      Some (Done (int (length pkg), int (length pkg)) (h1\<lparr>h_rx := \<lparr> rx_in = rest, rx_calls = c' \<rparr>, h_buffer := pkg @ buf\<rparr>))"
    by (rule recvPackage_whole [OF N h1(3) n(2)])
  then have "serveShareMD first N E u (h1, s) = Some (Crash BufferOverflow)" using n(1) by (simp add: serveShareMD_def)
  then show ?thesis using crash_round announce [OF h1(1,2)] by simp
qed

end

lemma metaLoop_step:
  "metaRound N E ssl c u st = Some (Done Continue st1) \<Longrightarrow> metaLoop N E ssl c u st = metaLoop N E ssl c u st1"
  "metaRound N E ssl c u st = Some (Done Break st1) \<Longrightarrow> metaLoop N E ssl c u st = Some (Done () st1)"
  "metaRound N E ssl c u st = None \<Longrightarrow> metaLoop N E ssl c u st = None"
  "metaRound N E ssl c u st = Some (Crash e) \<Longrightarrow> metaLoop N E ssl c u st = Some (Crash e)"
  by (subst metaLoop.simps, simp)+

lemma dataLoop_step:
  "dataRound N E sh ssl c u st = Some (Done Continue st1) \<Longrightarrow> dataLoop N E sh ssl c u st = dataLoop N E sh ssl c u st1"
  "dataRound N E sh ssl c u st = Some (Done Break st1) \<Longrightarrow> dataLoop N E sh ssl c u st = Some (Done () st1)"
  "dataRound N E sh ssl c u st = None \<Longrightarrow> dataLoop N E sh ssl c u st = None"
  "dataRound N E sh ssl c u st = Some (Crash e) \<Longrightarrow> dataLoop N E sh ssl c u st = Some (Crash e)"
  by (subst dataLoop.simps, simp)+

interpretation metaServer: share_server firstStageDedup secondStageDedup metaRound metaLoop
  by unfold_locales (simp_all add: metaRound_def indicators metaLoop_step)

interpretation dataServer: share_server minFirstStageDedup minSecondStageDedup "\<lambda>N E. dataRound N E sh" "\<lambda>N E. dataLoop N E sh" for sh
  by unfold_locales (simp_all add: dataRound_def indicators dataLoop_step)

section \<open>A package for the data server\<close>

text \<open>
  One package of well-formed files with the data of the shares that the server asks for. What the server does
  does not depend on what follows in the stream.
\<close>

lemma data_round:
  assumes inv: "storeInv ssl c s" "tailOk s" "int32 u" "0 < u" "faultless E" "whole N" "crypto_valid ssl c" "hashSize c = 32"
    and files: "\<forall>f\<in>set files. fitFile f \<and> formatFullFileName (fst (snd f)) \<noteq> None"
    and room: "nameVal (globalShareContainerName s) + Suc (length (entriesOf files)) < 26 ^ 12"
    and dups: "dups = map (\<lambda>e. owns (absIndex s) (mde_shareFP e) u) (entriesOf files)"
    and dat: "wanted (zip dups (entriesOf files)) \<le> int (length dat)" "sharesIn ssl c (zip dups (entriesOf files)) dat"
    and len: "int (length (packageOf files)) \<le> META_LEN" "int (length dat) \<le> BUFFER_LEN"
  obtains s' where
    "\<forall>h rest. inboxOf h = packageMsg META (packageOf files) @ packageMsg DATA dat @ rest \<longrightarrow>
       (\<exists>h'. dataLoop N E sh ssl c u (h, s) = dataLoop N E sh ssl c u (h', s') \<and> inboxOf h' = rest)"
    "storeInv ssl c s'" "tailOk s'" "sent s' = sent s @ statReply dups" "grows s s'" "keepsPlaces s s'"
    "\<forall>e\<in>set (entriesOf files). db s' (shareFP2IndexKey (mde_shareFP e)) \<noteq> None"
    "nameVal (globalShareContainerName s') \<le> nameVal (globalShareContainerName s) + Suc (length (entriesOf files))"
proof -
  let ?pkg = "packageOf files" and ?es = "entriesOf files"
  have ok: "\<forall>f\<in>set files. okFile f" "\<forall>f\<in>set files. fitFile f" using files by (auto simp: fitFile_def)
  have wf: "index_wf s" using inv(1) sharesSound_wf by (auto simp: storeInv_def)
  obtain r where r: "firstStageLoop E u ([] @ ?pkg @ []) (int (length ?pkg)) 0 [] 0 s = Some r"
    "case r of Done (Inr (dups', sentSize')) s' \<Rightarrow> dups' = [] @ map (\<lambda>e. owns (absIndex s) (mde_shareFP e) u) ?es \<and>
       sentSize' = wrap32 (0 + unsentSize (absIndex s) u ?es) \<and> absIndex s' = specFirst u ?es (absIndex s) \<and> index_wf s'
     | Done (Inl r') s' \<Rightarrow> \<not> faultless E | Fails s' \<Rightarrow> False | Crash e \<Rightarrow> False"
    using firstStageLoop_run [OF ok(1) wf, where off = 0 and pre = "[]" and post = "[]" and mdSize = "int (length ?pkg)"
        and dups = "[]" and sentSize = 0 and E = E and u = u] by (auto simp: int32_def)
  then obtain sz s0 where first: "firstStageDedup E u ?pkg (int (length ?pkg)) s = Some (Done (Inr (dups, sz)) s0)"
    using inv(5) dups by (cases r) (auto simp: firstStageDedup_def simp del: owns.simps split: sum.splits)
  have cnt: "countsOnly ssl c s s0" by (rule firstStageLoop_counts [OF inv(1) first [unfolded firstStageDedup_def]])
  then obtain db0 k0 where s0: "s0 = s\<lparr>db := db0, tick := k0\<rparr>" by (auto simp: countsOnly_def)
  let ?s1 = "later (tick s0 + 3) (sent s0 @ statReply dups) s0"
  have inv1: "storeInv ssl c ?s1" using cnt by (simp add: countsOnly_def storeInv_later)
  have inv2: "tailOk ?s1" "quiet E (bufferLink ?s1)" "nameVal (globalShareContainerName ?s1) + Suc (length ?es) < 26 ^ 12"
    using inv(2,5) room s0 by (simp_all add: tailOk_def quiet_def)
  have kept: "grows s ?s1" "keepsPlaces s ?s1"
  proof -
    have "grows s0 ?s1" by (rule grows_same) simp_all
    then show "grows s ?s1" using cnt by (auto simp: countsOnly_def intro: grows_trans)
    show "keepsPlaces s ?s1" using cnt by (simp add: countsOnly_def keepsPlaces_def placeOf_def)
  qed
  have "length ?es \<le> length dups" using dups by simp
  note step = minSecondStage_step [OF inv1 inv2(1,2) inv(3,4,7,8) ok(2) inv2(3) this dat(1), of "[]"]
  obtain s' where second: "minSecondStageDedup E ssl (Some c) u ?pkg (int (length ?pkg)) dups dat ?s1 = Done () s'"
    and s': "storeInv ssl c s'" "tailOk s'" "grows ?s1 s'" "keepsPlaces ?s1 s'" "sent s' = sent ?s1"
      "nameVal (globalShareContainerName s') \<le> nameVal (globalShareContainerName ?s1) + Suc (length ?es)"
      "\<forall>z\<in>set (zip dups ?es). \<not> fst z \<longrightarrow> db s' (shareFP2IndexKey (mde_shareFP (snd z))) \<noteq> None"
    using step inv(5) files dat(2) by (cases "minSecondStageDedup E ssl (Some c) u ?pkg (int (length ?pkg)) dups dat ?s1") auto
  have kept2: "grows s s'" "keepsPlaces s s'" by (rule grows_trans [OF kept(1) s'(3)], rule keepsPlaces_trans [OF kept(2) s'(4)])
  have one: "minFirstStageDedup E u (?pkg @ z) (int (length ?pkg)) s = Some (Done (Inr (dups, sz)) s0)" for z
    using firstStage_more [OF first] by (simp add: min_same)
  have two: "minSecondStageDedup E ssl (Some c) u (?pkg @ z) (int (length ?pkg)) (dups @ x) (dat @ y) ?s1 = Done () s'" for x y z
    using minSecondStage_more [OF second] by simp
  have dlen: "int (length dups) \<le> BUFFER_LEN"
    using dups entries_fit [OF ok(1)] len(1) by (simp add: META_LEN_def BUFFER_LEN_def)
  show ?thesis
  proof (rule that [OF _ s'(1,2) _ kept2])
    have "\<exists>h'. dataLoop N E sh ssl c u (h, s) = dataLoop N E sh ssl c u (h', s') \<and> inboxOf h' = rest"
      if h: "inboxOf h = packageMsg META ?pkg @ packageMsg DATA dat @ rest" for h rest
    proof -
      obtain h' where "dataLoop N E sh ssl c u (h, s) = dataLoop N E sh ssl c u (h', s')" "inboxOf h' = rest"
        by (rule dataServer.upload_rounds [OF inv(6,5) h len(1) dlen len(2) one two, where sh = sh]) auto
      then show ?thesis by blast
    qed
    then show "\<forall>h rest. inboxOf h = packageMsg META ?pkg @ packageMsg DATA dat @ rest \<longrightarrow>
       (\<exists>h'. dataLoop N E sh ssl c u (h, s) = dataLoop N E sh ssl c u (h', s') \<and> inboxOf h' = rest)" by blast
  next
    show "sent s' = sent s @ statReply dups" "nameVal (globalShareContainerName s') \<le> nameVal (globalShareContainerName s) + Suc (length ?es)"
      using s'(5,6) s0 by simp_all
    show "\<forall>e\<in>set ?es. db s' (shareFP2IndexKey (mde_shareFP e)) \<noteq> None"
    proof
      fix e assume e: "e \<in> set ?es"
      show "db s' (shareFP2IndexKey (mde_shareFP e)) \<noteq> None"
      proof (cases "owns (absIndex s) (mde_shareFP e) u")
        case True
        then have "db s (shareFP2IndexKey (mde_shareFP e)) \<noteq> None"
          by (cases "db s (shareFP2IndexKey (mde_shareFP e))") (simp_all add: absIndex_def)
        then show ?thesis by (rule keepsPlaces_db [OF kept2(2)])
      next
        case False
        then have "(False, e) \<in> set (zip dups ?es)" using e dups by (force simp: set_zip in_set_conv_nth)
        then show ?thesis using s'(7) by force
      qed
    qed
  qed
qed

text \<open>What a session leaves: every share of the index is fetched with bytes of its fingerprint, old ones with the same bytes.\<close>

lemma stored_shares:
  assumes "storeInv ssl c s" "storeInv ssl c s'" "grows s s'" "keepsPlaces s s'"
  shows "db s' (shareFP2IndexKey fp) \<noteq> None \<Longrightarrow> \<exists>d. fetchShare s' fp = Some d \<and> generateHash ssl c d = Inr fp"
    and "db s (shareFP2IndexKey fp) \<noteq> None \<Longrightarrow> fetchShare s' fp = fetchShare s fp"
proof -
  have snd: "sharesSound ssl c s" "sharesSound ssl c s'" using assms(1,2) by (simp_all add: storeInv_def)
  show "db s' (shareFP2IndexKey fp) \<noteq> None \<Longrightarrow> \<exists>d. fetchShare s' fp = Some d \<and> generateHash ssl c d = Inr fp"
    using fetchShare_sound [OF snd(2)] by blast
  show "db s (shareFP2IndexKey fp) \<noteq> None \<Longrightarrow> fetchShare s' fp = fetchShare s fp"
    using fetchShare_kept [OF snd(1) assms(3,4)] by blast
qed

section \<open>Properties\<close>

text \<open>
  C27. A session with the metadata server. A client opens a connection, announces a package of complete
  files, sends the data of the shares and asks for one of the files. However the network cuts the
  stream, as long as the small fields arrive whole, and without faults of the server, the handler
  answers the announcement with one flag per share and the request with messages that concatenate to the
  file's size and number of shares and, for each entry of the announced metadata, bytes whose hash is
  the fingerprint of the entry; then it ends with the connection. The second stage is assumed to accept the
  data, and the file to have an inode of its own.
\<close>

theorem meta_session_roundtrip:
  assumes "uploadInv ssl c s" "noIdle E s" "tailOk s" "int32 u" "0 < u" "faultless E" "whole N" "hashOfServer = Inr c"
    and "\<forall>f\<in>set files. okFile f \<and> completeFile f"
    and "nameVal (globalShareContainerName s) + Suc (length (entriesOf files)) < 26 ^ 12"
      "nameVal (globalRecipeFileName s) + Suc (length files) < 26 ^ 12"
    and "int (length (packageOf files)) \<le> META_LEN" "int (length dups) \<le> BUFFER_LEN" "int (length dat) \<le> BUFFER_LEN"
      "int (length name) \<le> BUFFER_LEN"
    and "firstStageDedup E u (packageOf files) (int (length (packageOf files))) s = Some (Done (Inr (dups, sz)) s0)"
    and "secondStageDedup E ssl (Some c) u (packageOf files) (int (length (packageOf files))) dups dat
      (later (tick s0 + 3) (sent s0 @ statReply dups) s0) = Done () s'"
    and "files = fs @ (h, name, es) # gs" "ownInode ssl c u s fp (h, name, es)" "inodeFP2IndexKey fp \<notin> packageKeys ssl c u (fs @ gs)"
    and "\<forall>e\<in>set es. \<forall>d. fetchShare s' (mde_shareFP e) = Some d \<longrightarrow> int (length d) + 12 \<le> SHARE_FILE_BUFFER_SIZE"
  shows "\<exists>h' t ps. SocketHandlerMeta N E ssl
        (userMsg u @ packageMsg META (packageOf files) @ packageMsg DATA dat @ packageMsg DOWNLOAD name) s =
      Some (Done () (h', later t (sent s @ statReply dups @ map restoreMsg ps) s')) \<and>
    concat ps = restoredFile s' (mdh_fileSize h) (map recipeOf es) \<and>
    (\<forall>e\<in>set es. \<exists>d. fetchShare s' (mde_shareFP e) = Some d \<and> generateHash ssl c d = Inr (mde_shareFP e))"
proof -
  let ?pkg = "packageOf files" and ?E3 = "packageMsg DOWNLOAD name"
  let ?E2 = "packageMsg DATA dat @ ?E3"
  have inv: "storeInv ssl c s" using assms(1) by (simp add: uploadInv_def)
  have sent0: "sent s0 = sent s"
    using firstStageLoop_counts [OF inv assms(16) [unfolded firstStageDedup_def]] by (auto simp: countsOnly_def)
  have first: "firstStageDedup E u (?pkg @ []) (int (length ?pkg)) s = Some (Done (Inr (dups, sz)) s0)" using assms(16) by simp
  have second: "secondStageDedup E ssl (Some c) u (?pkg @ []) (int (length ?pkg)) dups dat
      (later (tick s0 + 3) (sent s0 @ statReply dups) s0) = Done () s'" using assms(17) by simp
  obtain t ps where restore: "restoreShareFile E ssl (Some c) u name 0 s' = Done () (later t (sent s' @ map restoreMsg ps) s')"
    "concat ps = restoredFile s' (mdh_fileSize h) (map recipeOf es)"
    "\<forall>e\<in>set es. \<exists>d. fetchShare s' (mde_shareFP e) = Some d \<and> generateHash ssl c d = Inr (mde_shareFP e)"
    and sent': "sent s' = sent s0 @ statReply dups"
    using upload_restore_run [OF assms(1-6,9-11) first second assms(18-21,6)] by blast
  obtain h0 where op: "openSession N (userMsg u @ packageMsg META ?pkg @ ?E2) = Done u h0" "inboxOf h0 = packageMsg META ?pkg @ ?E2"
    by (rule openSession_whole [OF assms(7,4)])
  have f1: "firstStageDedup E u (?pkg @ z) (int (length ?pkg)) s = Some (Done (Inr (dups, sz)) s0)" for z
    using firstStage_more [OF assms(16)] by simp
  have f2: "secondStageDedup E ssl (Some c) u (?pkg @ z) (int (length ?pkg)) (dups @ x) (dat @ y)
      (later (tick s0 + 3) (sent s0 @ statReply dups) s0) = Done () s'" for x y z
    using secondStage_more [OF assms(17)] by simp
  obtain h4 where up: "metaLoop N E ssl c u (h0, s) = metaLoop N E ssl c u (h4, s')" "inboxOf h4 = ?E3"
    by (rule metaServer.upload_rounds [OF assms(7,6) op(2) assms(12-14) f1 f2]) simp_all
  have in4: "inboxOf h4 = le 4 DOWNLOAD @ (le 4 (int (length name)) @ name @ [])" using up(2) by (simp add: packageMsg_def)
  obtain h5 where h5: "recvHead N h4 = (4, h5)" "readInt (h_buffer h5) = DOWNLOAD" "inboxOf h5 = le 4 (int (length name)) @ name @ []"
    by (rule indicator_whole [OF assms(7) in4]) auto
  obtain h6 where dl: "serveMetaDownload N E ssl c u (h5, s') = Some (Done Continue (h6, later t (sent s' @ map restoreMsg ps) s'))" "inboxOf h6 = []"
    by (rule serveMetaDownload_run [OF assms(7) h5(3) assms(15) restore(1)]) auto
  obtain h7 where last: "metaLoop N E ssl c u (h6, later t (sent s' @ map restoreMsg ps) s') = Some (Done () (h7, later t (sent s' @ map restoreMsg ps) s'))"
    using metaServer.ends [OF whole_steady [OF assms(7)] dl(2)] by blast
  have "metaRound N E ssl c u (h4, s') = Some (Done Continue (h6, later t (sent s' @ map restoreMsg ps) s'))"
    using h5(1,2) dl(1) by (simp add: metaRound_def indicators)
  then have "metaLoop N E ssl c u (h0, s) = Some (Done () (h7, later t (sent s' @ map restoreMsg ps) s'))"
    using up(1) last by (simp add: metaLoop_step(1))
  then have "SocketHandlerMeta N E ssl (userMsg u @ packageMsg META ?pkg @ ?E2) s =
      Some (Done () (h7, later t (sent s @ statReply dups @ map restoreMsg ps) s'))"
    using op(1) sent' sent0 by (simp add: SocketHandlerMeta_def assms(8))
  then show ?thesis using restore(2,3) by blast
qed

text \<open>
  C28. Uploading to the data server. A client that announces well-formed files and sends the data of
  exactly the shares it is asked for, with the right fingerprints, is served completely, however the
  network cuts the stream as long as small fields arrive whole: without faults the handler ends with the connection, its reply
  says for each share whether the user owned it, and afterwards every announced share, sent now or
  stored before, is fetched with bytes of its fingerprint, while all older shares keep their bytes.
\<close>

theorem data_upload_session:
  assumes "storeInv ssl c s" "tailOk s" "int32 u" "0 < u" "faultless E" "whole N" "hashOfServer = Inr c" "evp_ok ssl"
    and "\<forall>f\<in>set files. fitFile f \<and> formatFullFileName (fst (snd f)) \<noteq> None"
    and "nameVal (globalShareContainerName s) + Suc (length (entriesOf files)) < 26 ^ 12"
    and "dups = map (\<lambda>e. owns (absIndex s) (mde_shareFP e) u) (entriesOf files)"
    and "wanted (zip dups (entriesOf files)) \<le> int (length dat)" "sharesIn ssl c (zip dups (entriesOf files)) dat"
    and "int (length (packageOf files)) \<le> META_LEN" "int (length dat) \<le> BUFFER_LEN"
  shows "\<exists>h' s'. SocketHandlerData N E sh ssl (userMsg u @ packageMsg META (packageOf files) @ packageMsg DATA dat) s =
      Some (Done () (h', s')) \<and> storeInv ssl c s' \<and> tailOk s' \<and> sent s' = sent s @ statReply dups \<and>
    (\<forall>e\<in>set (entriesOf files). \<exists>d. fetchShare s' (mde_shareFP e) = Some d \<and> generateHash ssl c d = Inr (mde_shareFP e)) \<and>
    (\<forall>fp. db s (shareFP2IndexKey fp) \<noteq> None \<longrightarrow> fetchShare s' fp = fetchShare s fp)"
proof -
  let ?pkg = "packageOf files" and ?es = "entriesOf files"
  have c: "crypto_valid ssl c" "hashSize c = 32"
    using assms(7,8) unfolding hashOfServer_def crypto_valid_def by (blast, auto simp: mkCrypto_def crypto_types)
  obtain s' where run: "\<forall>h rest. inboxOf h = packageMsg META ?pkg @ packageMsg DATA dat @ rest \<longrightarrow>
       (\<exists>h'. dataLoop N E sh ssl c u (h, s) = dataLoop N E sh ssl c u (h', s') \<and> inboxOf h' = rest)"
    and s': "storeInv ssl c s'" "tailOk s'" "sent s' = sent s @ statReply dups" "grows s s'" "keepsPlaces s s'"
    "\<forall>e\<in>set ?es. db s' (shareFP2IndexKey (mde_shareFP e)) \<noteq> None"
    by (rule data_round [OF assms(1-6) c assms(9-15), of sh])
  obtain h0 where op: "openSession N (userMsg u @ packageMsg META ?pkg @ packageMsg DATA dat @ []) = Done u h0"
    "inboxOf h0 = packageMsg META ?pkg @ packageMsg DATA dat @ []"
    by (rule openSession_whole [OF assms(6,3)])
  obtain h4 where dt: "dataLoop N E sh ssl c u (h0, s) = dataLoop N E sh ssl c u (h4, s')" "inboxOf h4 = []" using run op(2) by blast
  obtain h5 where "SocketHandlerData N E sh ssl (userMsg u @ packageMsg META ?pkg @ packageMsg DATA dat) s = Some (Done () (h5, s'))"
    using dataServer.ends [OF whole_steady [OF assms(6)] dt(2), where E = E and sh = sh and ssl = ssl and c = c and u = u and s = s'] op(1) dt(1)
    by (auto simp: SocketHandlerData_def assms(7))
  then show ?thesis using s' stored_shares [OF assms(1) s'(1,4,5)] by blast
qed

lemma plain_recipe:
  assumes "path = recipesDir @ underscores name" "plainName path" "length path \<le> 248"
  shows "0 \<notin> set name" "pathIn recipesDir (underscores name) = Some path" "length name \<le> 256" "int (length name) < BUFFER_LEN"
proof -
  have "\<not> plainByte 0" by (simp add: plainByte_def)
  then show "0 \<notin> set name" using assms(1,2) underscores_nul [of name] by (auto simp: plainName_def)
  show path: "pathIn recipesDir (underscores name) = Some path" using assms(1,3) by (simp add: pathIn_def)
  show "length name \<le> 256" by (rule pathIn_short [OF path])
  then show "int (length name) < BUFFER_LEN" by (simp add: BUFFER_LEN_def)
qed

text \<open>A session with the data server that asks for a file whose recipe is on the disk.\<close>

lemma restore_session:
  assumes "whole N" "faultless E" "hashOfServer = Inr c" "shell_rm sh" "int32 u" "storeInv ssl c d" "\<forall>e\<in>set es. restorable d e"
    and "path = recipesDir @ underscores name" "plainName path" "length path \<le> 248"
    and "disk d path = Some (recipeFileOf v fileSize es @ post)" "int32 v" "int64 fileSize" "int32 (int (length es))"
  obtains h t where "SocketHandlerData N E sh ssl (userMsg u @ packageMsg DOWNLOAD name) d =
      Some (Done () (h, (later t (sent d @ map restoreMsg (restoredMsgs d fileSize es)) d)\<lparr>disk := (disk d)(path := None)\<rparr>))"
    "\<forall>p\<in>set (restoredMsgs d fileSize es). int (length p) \<le> SHARE_FILE_BUFFER_SIZE"
    "\<forall>e\<in>set es. \<exists>b. fetchShare d (fre_shareFP e) = Some b \<and> generateHash ssl c b = Inr (fre_shareFP e)"
proof -
  note name = plain_recipe [OF assms(8-10)]
  obtain t where rs: "minRestoreShareFile E sh (Some c) path d =
      Done () ((later t (sent d @ map restoreMsg (restoredMsgs d fileSize es)) d)\<lparr>disk := (disk d)(path := None)\<rparr>)" (is "_ = Done () ?d1")
    "\<forall>p\<in>set (restoredMsgs d fileSize es). int (length p) \<le> SHARE_FILE_BUFFER_SIZE"
    "\<forall>e\<in>set es. \<exists>b. fetchShare d (fre_shareFP e) = Some b \<and> generateHash ssl c b = Inr (fre_shareFP e)"
    using minRestoreShareFile_run [OF assms(2,6,7,11-14,4,9,10)] by blast
  obtain h0 where op: "openSession N (userMsg u @ packageMsg DOWNLOAD name) = Done u h0" "inboxOf h0 = packageMsg DOWNLOAD name"
    by (rule openSession_whole [OF assms(1,5)])
  obtain h1 where h1: "recvHead N h0 = (4, h1)" "readInt (h_buffer h1) = DOWNLOAD" "inboxOf h1 = le 4 (int (length name)) @ name @ []"
    by (rule indicator_whole [OF assms(1) op(2) [unfolded packageMsg_def]]) auto
  obtain h2 where h2: "serveDataDownload N E sh c (h1, d) = Some (Done Continue (h2, ?d1))" "inboxOf h2 = []"
    by (rule serveDataDownload_run [OF assms(1) h1(3) name(4,1,2) rs(1)]) auto
  obtain h3 where "dataLoop N E sh ssl c u (h2, ?d1) = Some (Done () (h3, ?d1))"
    using dataServer.ends [OF whole_steady [OF assms(1)] h2(2), where sh = sh] by blast
  then have "SocketHandlerData N E sh ssl (userMsg u @ packageMsg DOWNLOAD name) d = Some (Done () (h3, ?d1))"
    using op(1) h1(1,2) h2(1) by (simp add: SocketHandlerData_def assms(3) dataLoop_step(1) dataRound_def indicators)
  then show ?thesis using rs(2,3) that by blast
qed

text \<open>
  C29. From recipe file to restore. A client sends the recipe file of a file to the metadata server, which
  writes it to the directory of recipe files and ends the connection; asked for the file by name, the data
  server, which shares the disk, sends the file's size and number of shares and then the shares in the order of the
  recipe, each with bytes of its fingerprint. Then the recipe is gone and the data server is as it was before
  but for the messages. The shares must be stored, the recipe must not yet exist, its path must
  be made of plain characters and lie outside the share containers, and \<open>rm -rf\<close> must remove it.
\<close>

theorem recipe_handover:
  assumes "whole N" "faultless E" "whole N'" "faultless E'" "hashOfServer = Inr c" "shell_rm sh" "int32 u"
    and "storeInv ssl c d" "\<forall>e\<in>set es. restorable d e" "disk m = disk d"
    and "path = recipesDir @ underscores name" "plainName path" "length path \<le> 248"
    and "disk m path = None" "\<nexists>p. path = shareContainerDirName d @ p"
    and "int64 fileSize" "int32 (int (length (recipeFileOf u fileSize es)))"
  shows "\<exists>h m' h' t ps. SocketHandlerMeta N E ssl (userMsg u @ recipeFileMsg name (recipeFileOf u fileSize es)) m = Some (Done () (h, m')) \<and>
    SocketHandlerData N' E' sh ssl (userMsg u @ packageMsg DOWNLOAD name) (d\<lparr>disk := disk m'\<rparr>) =
      Some (Done () (h', later t (sent d @ map restoreMsg ps) d)) \<and>
    concat ps = restoredFile d fileSize es \<and>
    (\<forall>e\<in>set es. \<exists>b. fetchShare d (fre_shareFP e) = Some b \<and> generateHash ssl c b = Inr (fre_shareFP e))"
proof -
  let ?rf = "recipeFileOf u fileSize es" and ?d1 = "d\<lparr>disk := (disk d)(path \<mapsto> recipeFileOf u fileSize es)\<rparr>"
  note name = plain_recipe [OF assms(11-13)]
  have rf: "24 \<le> length ?rf" "int32 (int (length es))" by (rule recipeFile_size [OF assms(17)])+
  obtain h0 where op: "openSession N (userMsg u @ recipeFileMsg name ?rf) = Done u h0" "inboxOf h0 = recipeFileMsg name ?rf"
    by (rule openSession_whole [OF assms(1,7)])
  obtain h1 where h1: "recvHead N h0 = (4, h1)" "readInt (h_buffer h1) = FILE_RECIPE"
    "inboxOf h1 = le 4 (int (length ?rf)) @ le 4 (int (length name)) @ name @ ?rf @ []"
    by (rule indicator_whole [OF assms(1) op(2) [unfolded recipeFileMsg_def]]) auto
  obtain h2 k where "serveFileRecipe N E (h1, m) = Some (Done Break (h2, m\<lparr>disk := (disk m)(path \<mapsto> ?rf), tick := k\<rparr>))"
    by (rule serveFileRecipe_run [OF assms(1,2) h1(3) name(1,2) rf(1) assms(17,14)])
  then have meta: "SocketHandlerMeta N E ssl (userMsg u @ recipeFileMsg name ?rf) m = Some (Done () (h2, m\<lparr>disk := (disk m)(path \<mapsto> ?rf), tick := k\<rparr>))"
    using op(1) h1(1,2) by (simp add: SocketHandlerMeta_def assms(5), subst metaLoop.simps) (simp add: metaRound_def indicators)
  have d1: "storeInv ssl c ?d1" "\<forall>e\<in>set es. restorable ?d1 e" "disk ?d1 path = Some (?rf @ [])"
    using assms(8,9) disk_elsewhere(2,4) [OF assms(15)] by simp_all
  obtain h3 t where "SocketHandlerData N' E' sh ssl (userMsg u @ packageMsg DOWNLOAD name) ?d1 =
      Some (Done () (h3, (later t (sent ?d1 @ map restoreMsg (restoredMsgs ?d1 fileSize es)) ?d1)\<lparr>disk := (disk ?d1)(path := None)\<rparr>))"
    "\<forall>e\<in>set es. \<exists>b. fetchShare ?d1 (fre_shareFP e) = Some b \<and> generateHash ssl c b = Inr (fre_shareFP e)"
    by (rule restore_session [OF assms(3-7) d1(1,2) assms(11-13) d1(3) assms(7,16) rf(2)]) blast
  moreover have "(later t (sent ?d1 @ ms) ?d1)\<lparr>disk := (disk ?d1)(path := None)\<rparr> = later t (sent d @ ms) d" for t ms
    using assms(10,14) by (simp add: fun_upd_idem)
  ultimately have "SocketHandlerData N' E' sh ssl (userMsg u @ packageMsg DOWNLOAD name) ?d1 =
      Some (Done () (h3, later t (sent d @ map restoreMsg (restoredMsgs ?d1 fileSize es)) d)) \<and>
      (\<forall>e\<in>set es. \<exists>b. fetchShare ?d1 (fre_shareFP e) = Some b \<and> generateHash ssl c b = Inr (fre_shareFP e))" by simp
  moreover have "concat (restoredMsgs ?d1 fileSize es) = restoredFile d fileSize es"
    using restoredMsgs_concat [of ?d1] disk_elsewhere(5) [OF assms(15)] by simp
  ultimately show ?thesis using meta assms(10) unfolding disk_elsewhere(3) [OF assms(15)] by force
qed

text \<open>
  C30. A key file comes back as it was sent. A client that stores a key file under a name and asks for it, on a
  connection that delivers small fields whole, gets the number of bytes and then exactly the bytes; any older file of
  that name is replaced, and nothing but that file changes.
\<close>

theorem key_file_roundtrip:
  assumes "whole N" "faultless E" "int32 u" "int32 (int (length contents))" "0 \<notin> set name"
    and "length (keystoreDir @ underscores name) < 256"
  shows "\<exists>h' t ms. SocketHandlerMeta N E ssl (userMsg u @ keyFileMsg name contents @ getKeyMsg name) s =
      Some (Done () (h', (later t (sent s @ ms) s)\<lparr>disk := (disk s)(keystoreDir @ underscores name \<mapsto> contents)\<rparr>)) \<and>
    concat ms = le 4 (int (length contents)) @ contents"
proof -
  let ?s1 = "\<lambda>k. s\<lparr>disk := (disk s)(keystoreDir @ underscores name \<mapsto> contents), tick := k\<rparr>"
  define ms where "ms = le 4 (int (length contents)) # (if contents = [] then [] else [contents])"
  have path: "pathIn keystoreDir (underscores name) = Some (keystoreDir @ underscores name)" using assms(6) by (simp add: pathIn_def)
  obtain c where c: "hashOfServer = Inr c" by (simp add: hashOfServer_def mkCrypto_def crypto_types)
  obtain h0 where op: "openSession N (userMsg u @ keyFileMsg name contents @ getKeyMsg name) = Done u h0" "inboxOf h0 = keyFileMsg name contents @ getKeyMsg name"
    by (rule openSession_whole [OF assms(1,3)])
  have in0: "inboxOf h0 = le 4 KEY_RECIPE @ (le 4 (int (length contents)) @ le 4 (int (length name)) @ name @ contents @ getKeyMsg name)"
    using op(2) by (simp add: keyFileMsg_def)
  obtain h1 where h1: "recvHead N h0 = (4, h1)" "readInt (h_buffer h1) = KEY_RECIPE"
    "inboxOf h1 = le 4 (int (length contents)) @ le 4 (int (length name)) @ name @ contents @ getKeyMsg name"
    by (rule indicator_whole [OF assms(1) in0]) auto
  obtain h2 k where k: "serveKeyRecipe N E (h1, s) = Some (Done Continue (h2, ?s1 k))" "inboxOf h2 = getKeyMsg name"
    by (rule serveKeyRecipe_run [OF assms(1,2) h1(3) assms(5) path assms(4)])
  have in2: "inboxOf h2 = le 4 GET_KEY_RECIPE @ (le 4 (int (length name)) @ name @ [])" using k(2) by (simp add: getKeyMsg_def)
  obtain h3 where h3: "recvHead N h2 = (4, h3)" "readInt (h_buffer h3) = GET_KEY_RECIPE" "inboxOf h3 = le 4 (int (length name)) @ name @ []"
    by (rule indicator_whole [OF assms(1) in2]) auto
  have at: "disk (?s1 k) (keystoreDir @ underscores name) = Some contents" by simp
  obtain h4 t where g: "serveGetKeyRecipe N E (h3, ?s1 k) = Some (Done Continue (h4, later t (sent (?s1 k) @ ms) (?s1 k)))" "inboxOf h4 = []"
    by (rule serveGetKeyRecipe_run [OF assms(1,2) h3(3) assms(5) path assms(4) at, folded ms_def])
  obtain h5 where "metaLoop N E ssl c u (h4, later t (sent (?s1 k) @ ms) (?s1 k)) = Some (Done () (h5, later t (sent (?s1 k) @ ms) (?s1 k)))"
    using metaServer.ends [OF whole_steady [OF assms(1)] g(2)] by blast
  moreover have "metaRound N E ssl c u (h0, s) = Some (Done Continue (h2, ?s1 k))"
    "metaRound N E ssl c u (h2, ?s1 k) = Some (Done Continue (h4, later t (sent (?s1 k) @ ms) (?s1 k)))"
    using h1(1,2) k(1) h3(1,2) g(1) by (simp_all add: metaRound_def indicators)
  ultimately have "SocketHandlerMeta N E ssl (userMsg u @ keyFileMsg name contents @ getKeyMsg name) s = Some (Done () (h5, later t (sent s @ ms) (?s1 k)))"
    using op(1) by (simp add: SocketHandlerMeta_def c metaLoop_step(1))
  then show ?thesis by (intro exI [of _ h5] exI [of _ t] exI [of _ ms]) (simp add: ms_def)
qed

text \<open>
  C31. A client that goes away in the middle of a package keeps its handler busy for ever, on both servers: at the end of
  the stream \<open>recv\<close> returns 0, and the receiving loops count 0 bytes again and again.
\<close>

theorem half_package_hangs:
  assumes "whole N" "int32 u" "ind = META \<or> ind = DATA" "int (length part) < n" "n \<le> BUFFER_LEN"
  shows "SocketHandlerMeta N E ssl (userMsg u @ le 4 ind @ le 4 n @ part) s = None \<and>
    SocketHandlerData N E sh ssl (userMsg u @ le 4 ind @ le 4 n @ part) s = None"
proof -
  obtain h where "openSession N (userMsg u @ le 4 ind @ le 4 n @ part) = Done u h" and inb: "inboxOf h = le 4 ind @ le 4 n @ part"
    by (rule openSession_whole [OF assms(1,2)])
  then show ?thesis
    using metaServer.half_package [OF assms(1) inb assms(3-5)] dataServer.half_package [OF assms(1) inb assms(3-5), where sh = sh]
    by (simp add: SocketHandlerMeta_def SocketHandlerData_def hashOfServer_def mkCrypto_def crypto_types)
qed

text \<open>
  C32. The buffer for share metadata is half as long as a package may be: an announcement of more than 2 MB, which
  clients of up to 4 MB send and both servers receive, is copied behind the end of \<open>metaBuffer\<close>.
\<close>

theorem big_package_overflows:
  assumes "whole N" "int32 u" "META_LEN < int (length pkg)" "int (length pkg) \<le> BUFFER_LEN"
  shows "SocketHandlerMeta N E ssl (userMsg u @ packageMsg META pkg @ rest) s = Some (Crash BufferOverflow) \<and>
    SocketHandlerData N E sh ssl (userMsg u @ packageMsg META pkg @ rest) s = Some (Crash BufferOverflow)"
proof -
  obtain h where "openSession N (userMsg u @ packageMsg META pkg @ rest) = Done u h" and inb: "inboxOf h = packageMsg META pkg @ rest"
    by (rule openSession_whole [OF assms(1,2)])
  then show ?thesis
    using metaServer.big_announcement [OF assms(1) inb assms(3,4)] dataServer.big_announcement [OF assms(1) inb assms(3,4), where sh = sh]
    by (simp add: SocketHandlerMeta_def SocketHandlerData_def hashOfServer_def mkCrypto_def crypto_types)
qed

subsection \<open>Witnesses\<close>

definition goodNet :: recvs where "goodNet = (\<lambda>_. RecvSome 300)"

lemma goodNet_whole: "whole goodNet" "hashOfServer = Inr shaCrypto"
  by (simp_all add: whole_def goodNet_def hashOfServer_def mkCrypto_def crypto_types shaCrypto_def)

theorem meta_session_roundtrip_witness:
  "\<exists>h' t ps s'. SocketHandlerMeta goodNet fineEnv toySSL
      (userMsg 7 @ packageMsg META (packageOf demoFiles) @ packageMsg DATA (demoShare @ demoShare) @ packageMsg DOWNLOAD [47, 102]) demoCore =
    Some (Done () (h', later t (statReply [False, False] @ map restoreMsg ps) s')) \<and>
    concat ps = restoredFile s' 18 (map recipeOf [demoEntry, demoEntry]) \<and> fetchShare s' demoFP = Some demoShare"
proof -
  have "case firstStageDedup fineEnv 7 (packageOf demoFiles) (int (length (packageOf demoFiles))) demoCore of
      Some (Done (Inr (dups, sz)) s0) \<Rightarrow> dups = [False, False] \<and>
        (case secondStageDedup fineEnv toySSL (Some shaCrypto) 7 (packageOf demoFiles) (int (length (packageOf demoFiles))) dups
           (demoShare @ demoShare) (later (tick s0 + 3) (sent s0 @ statReply dups) s0) of
           Done _ s' \<Rightarrow> fetchShare s' demoFP = Some demoShare | _ \<Rightarrow> False)
    | _ \<Rightarrow> False" by code_simp
  then obtain sz s0 s' where
    run: "firstStageDedup fineEnv 7 (packageOf demoFiles) (int (length (packageOf demoFiles))) demoCore = Some (Done (Inr ([False, False], sz)) s0)"
      "secondStageDedup fineEnv toySSL (Some shaCrypto) 7 (packageOf demoFiles) (int (length (packageOf demoFiles))) [False, False]
         (demoShare @ demoShare) (later (tick s0 + 3) (sent s0 @ statReply [False, False]) s0) = Done () s'"
    and d: "fetchShare s' demoFP = Some demoShare"
    by (auto split: option.splits outcome.splits sum.splits)
  have files: "demoFiles = [] @ (demoHead, [47, 102], [demoEntry, demoEntry]) # []" by (simp add: demoFiles_def)
  have len: "int (length (packageOf demoFiles)) \<le> META_LEN" by code_simp
  note rest = meta_session_roundtrip [OF demoCore_upload(1-3) _ _ fineEnv_faultless goodNet_whole demoFiles_complete demoCore_upload(4,5) len _ _ _ run files
      demoFile_own]
  have demo: "mdh_fileSize demoHead = 18" "mde_shareFP demoEntry = demoFP" "sent demoCore = []"
    by (simp_all add: demoHead_def demoEntry_def demoCore_def)
  have "\<exists>h' t ps. SocketHandlerMeta goodNet fineEnv toySSL
      (userMsg 7 @ packageMsg META (packageOf demoFiles) @ packageMsg DATA (demoShare @ demoShare) @ packageMsg DOWNLOAD [47, 102]) demoCore =
    Some (Done () (h', later t (statReply [False, False] @ map restoreMsg ps) s')) \<and>
    concat ps = restoredFile s' 18 (map recipeOf [demoEntry, demoEntry])"
    using rest d demo by (auto simp: int32_def demoShare_def SHARE_FILE_BUFFER_SIZE_def BUFFER_LEN_def)
  then show ?thesis using d by blast
qed

theorem data_upload_session_witness:
  "\<exists>h' s'. SocketHandlerData goodNet fineEnv demoShell toySSL
      (userMsg 8 @ packageMsg META (packageOf demoFiles) @ packageMsg DATA (demoShare @ demoShare)) keptCore = Some (Done () (h', s')) \<and>
    storeInv toySSL shaCrypto s' \<and> sent s' = statReply [False, False]"
proof -
  have own: "[False, False] = map (\<lambda>e. owns (absIndex keptCore) (mde_shareFP e) 8) (entriesOf demoFiles)" by code_simp
  have len: "int (length (packageOf demoFiles)) \<le> META_LEN" by code_simp
  have dat: "wanted (zip [False, False] (entriesOf demoFiles)) \<le> int (length (demoShare @ demoShare))"
    "sharesIn toySSL shaCrypto (zip [False, False] (entriesOf demoFiles)) (demoShare @ demoShare)" by code_simp+
  have names: "\<forall>f\<in>set demoFiles. fitFile f \<and> formatFullFileName (fst (snd f)) \<noteq> None"
    using demoFiles_fit keptFP_name(1) by (simp add: demoFiles_def)
  show ?thesis
    using data_upload_session [OF keptCore_inv keptCore_upload(3) _ _ fineEnv_faultless goodNet_whole toySSL_ok names keptCore_upload(4) own dat len, where sh = demoShell]
    by (auto simp: int32_def BUFFER_LEN_def demoShare_def keptCore_def demoCore_def)
qed

theorem recipe_handover_witness:
  "\<exists>h m' h' t ps. SocketHandlerMeta goodNet fineEnv toySSL (userMsg 7 @ recipeFileMsg [102] (recipeFileOf 7 9 [keptEntry])) demoCore = Some (Done () (h, m')) \<and>
    SocketHandlerData goodNet fineEnv demoShell toySSL (userMsg 7 @ packageMsg DOWNLOAD [102]) (keptCore\<lparr>disk := disk m'\<rparr>) =
      Some (Done () (h', later t (map restoreMsg ps) keptCore)) \<and>
    concat ps = restoredFile keptCore 9 [keptEntry]"
proof -
  have "disk keptCore = Map.empty" "sent keptCore = []" "shareContainerDirName keptCore = [115, 47]" "disk demoCore = Map.empty"
    by (simp_all add: keptCore_def demoCore_def)
  moreover have "length (recipeFileOf 7 9 [keptEntry]) = 64" by code_simp
  moreover have "plainName (recipesDir @ underscores [102])"
    by (simp add: plainName_def plainByte_def recipesDir_def underscores_def)
  moreover have "\<nexists>p. recipesDir @ underscores [102] = [115, 47] @ p" "length (recipesDir @ underscores [102]) \<le> 248"
    by (simp_all add: recipesDir_def underscores_def)
  ultimately show ?thesis
    using recipe_handover [OF goodNet_whole(1) fineEnv_faultless goodNet_whole(1) fineEnv_faultless goodNet_whole(2) demoShell_rm _ keptCore_inv _ _ refl,
      of 7 "[keptEntry]" demoCore "[102]" 9] keptEntry_restorable
    by (simp only: int32_def int64_def) force
qed

theorem key_file_roundtrip_witness:
  "\<exists>h' t ms. SocketHandlerMeta goodNet fineEnv toySSL (userMsg 7 @ keyFileMsg [102] [1, 2, 3] @ getKeyMsg [102]) demoCore =
      Some (Done () (h', (later t ms demoCore)\<lparr>disk := [keystoreDir @ [102] \<mapsto> [1, 2, 3]]\<rparr>)) \<and> concat ms = le 4 3 @ [1, 2, 3]"
  using key_file_roundtrip [OF goodNet_whole(1) fineEnv_faultless, of 7 "[1, 2, 3]" "[102]" toySSL demoCore]
  by (auto simp: int32_def keystoreDir_def underscores_def demoCore_def)

theorem half_package_hangs_witness:
  "SocketHandlerMeta goodNet fineEnv toySSL (userMsg 7 @ le 4 META @ le 4 5 @ [1, 2]) demoCore = None"
  using half_package_hangs [OF goodNet_whole(1), of 7 META "[1, 2]" 5] by (simp add: int32_def BUFFER_LEN_def)

theorem big_package_overflows_witness:
  "SocketHandlerData goodNet fineEnv demoShell toySSL (userMsg 7 @ packageMsg META (replicate 3000000 0) @ []) demoCore = Some (Crash BufferOverflow)"
proof -
  have "META_LEN < int (length (replicate 3000000 (0 :: byte)))" "int (length (replicate 3000000 (0 :: byte))) \<le> BUFFER_LEN"
    unfolding length_replicate by (simp_all add: META_LEN_def BUFFER_LEN_def)
  from big_package_overflows [OF goodNet_whole(1) _ this, of 7 fineEnv toySSL "[]" demoCore demoShell] show ?thesis by (simp only: int32_def) simp
qed

end
