(* ===== verification/Socket.thy ===== *)
theory Socket
  imports ServerComm
begin

text \<open>
  The client's end of a connection, client/utils/socket.cc: the constructor, which sends the user id, and
  the operations of the uploader and the downloader. What the server sends is a stream with the
  receiving oracle of Network; sending has an oracle of its own.
\<close>

section \<open>Sending\<close>

datatype send_event =
    SendSome nat       \<comment> \<open>at most this many bytes more than one are taken\<close>
  | SendErr            \<comment> \<open>the call returns -1\<close>

record net =
  net_recv :: recvs
  net_send :: "nat \<Rightarrow> send_event"

record sock =
  so_rx :: rx
  so_out :: bytes                        \<comment> \<open>what was sent so far\<close>
  so_sends :: nat

definition SEND_META :: int where "SEND_META = - 1"
definition SEND_DATA :: int where "SEND_DATA = - 2"
definition GET_STAT :: int where "GET_STAT = - 3"
definition INIT_DOWNLOAD :: int where "INIT_DOWNLOAD = - 7"

text \<open>\<open>send(hostSock_, p, n, 0)\<close> with a blocking socket.\<close>

definition sockSend :: "net \<Rightarrow> bytes \<Rightarrow> sock \<Rightarrow> int \<times> sock" where
  "sockSend W bs k =
     (let k1 = k\<lparr>so_sends := Suc (so_sends k)\<rparr> in
      case net_send W (so_sends k) of
        SendErr \<Rightarrow> (- 1, k1)
      | SendSome n \<Rightarrow>
          (let piece = take (Suc n) bs in (int (length piece), k1\<lparr>so_out := so_out k @ piece\<rparr>)))"

text \<open>The constructor once the connection stands; \<open>inbox\<close> is what the server will send.\<close>

definition mkSocket :: "net \<Rightarrow> int \<Rightarrow> bytes \<Rightarrow> sock" where
  "mkSocket W userID inbox =
     snd (sockSend W (rev (le 4 userID)) \<lparr> so_rx = \<lparr> rx_in = inbox, rx_calls = 0 \<rparr>, so_out = [], so_sends = 0 \<rparr>)"

function genericSend :: "net \<Rightarrow> bytes \<Rightarrow> nat \<Rightarrow> sock \<Rightarrow> int \<times> sock" where
  "genericSend W raw pos k =
     (if pos < length raw then
        (case sockSend W (drop pos raw) k of (bytecount, k1) \<Rightarrow>
           if bytecount = - 1 then (- 1, k1) else genericSend W raw (pos + nat bytecount) k1)
      else (int pos, k))"
  by pat_completeness auto
termination
  by (relation "measure (\<lambda>(W, raw, pos, k). length raw - pos)")
     (auto simp: sockSend_def Let_def min_def split: send_event.splits if_splits)

declare genericSend.simps [simp del]

definition sendPackage :: "net \<Rightarrow> int \<Rightarrow> bytes \<Rightarrow> sock \<Rightarrow> int \<times> sock" where
  "sendPackage W indicator raw k =
     (case sockSend W (le 4 indicator) k of (bytecount, k1) \<Rightarrow>
        if bytecount = - 1 then (- 1, k1)
        else
          (case sockSend W (le 4 (int (length raw))) k1 of (bytecount, k2) \<Rightarrow>
             if bytecount = - 1 then (- 1, k2) else (0, snd (genericSend W raw 0 k2))))"

definition sendMeta :: "net \<Rightarrow> bytes \<Rightarrow> sock \<Rightarrow> int \<times> sock" where
  "sendMeta W raw k = sendPackage W SEND_META raw k"

definition sendData :: "net \<Rightarrow> bytes \<Rightarrow> sock \<Rightarrow> int \<times> sock" where
  "sendData W raw k = sendPackage W SEND_DATA raw k"

text \<open>The name is sent with one call, whatever part of it the call takes.\<close>

definition initDownload :: "net \<Rightarrow> bytes \<Rightarrow> sock \<Rightarrow> int \<times> sock" where
  "initDownload W filename k =
     (case sockSend W (le 4 INIT_DOWNLOAD) k of (bytecount, k1) \<Rightarrow>
        if bytecount = - 1 then (- 1, k1)
        else
          (case sockSend W (le 4 (int (length filename))) k1 of (bytecount, k2) \<Rightarrow>
             if bytecount = - 1 then (- 1, k2)
             else
               (case sockSend W filename k2 of (bytecount, k3) \<Rightarrow> (if bytecount = - 1 then - 1 else 0, k3))))"

section \<open>Receiving\<close>

text \<open>
  \<open>genericDownload\<close> into an array of \<open>lim\<close> bytes: whether it returned 0, and the bytes it received. When
  the server has closed, \<open>recv\<close> returns 0 and the loop runs on.
\<close>

partial_function (option) downloadLoop ::
  "net \<Rightarrow> int \<Rightarrow> int \<Rightarrow> bytes \<Rightarrow> sock \<Rightarrow> (bool \<times> bytes, sock) outcome option" where
  "downloadLoop W lim rawSize got k =
     (if int (length got) < rawSize then
        (case recvSome (net_recv W) (nat (rawSize - int (length got))) (so_rx k) of (bytecount, bs, r) \<Rightarrow>
           if bytecount = - 1 then Some (Done (False, got) (k\<lparr>so_rx := r\<rparr>))
           else if lim < int (length (got @ bs)) then Some (Crash BufferOverflow)
           else downloadLoop W lim rawSize (got @ bs) (k\<lparr>so_rx := r\<rparr>))
      else Some (Done (True, got) k))"

declare downloadLoop.simps [code]

definition genericDownload :: "net \<Rightarrow> int \<Rightarrow> int \<Rightarrow> sock \<Rightarrow> (bool \<times> bytes, sock) outcome option" where
  "genericDownload W lim rawSize k = downloadLoop W lim rawSize [] k"

text \<open>One \<open>recv\<close> of an int; the result is None when it reports an error.\<close>

definition recvInt :: "net \<Rightarrow> sock \<Rightarrow> bytes option \<times> sock" where
  "recvInt W k =
     (case recvSome (net_recv W) 4 (so_rx k) of (bytecount, bs, r) \<Rightarrow>
        (if bytecount = - 1 then None else Some bs, k\<lparr>so_rx := r\<rparr>))"

text \<open>
  The reply to an announcement: the number of flags and the flags, or None for a return of -1, which
  leaves \<open>num\<close> unset. The result of \<open>genericDownload\<close> is not used.
\<close>

definition getStatus :: "net \<Rightarrow> int \<Rightarrow> sock \<Rightarrow> ((int \<times> bytes) option, sock) outcome option" where
  "getStatus W lim k =
     (case recvInt W k of
        (None, k1) \<Rightarrow> Some (Done None k1)
      | (Some bs, k1) \<Rightarrow>
          if readInt bs \<noteq> GET_STAT then Some (Done None k1)
          else
            (case recvInt W k1 of
               (None, k2) \<Rightarrow> Some (Done None k2)
             | (Some bs, k2) \<Rightarrow>
                 if length bs < 4 then Some (Crash UninitRead)
                 else bindP (genericDownload W lim (sle bs) k2)
                        (\<lambda>(_, flags) k3. Some (Done (Some (sle bs, flags)) k3)) id))"

text \<open>One message of a restore: its size and its bytes. The indicator is not looked at.\<close>

definition downloadChunk :: "net \<Rightarrow> int \<Rightarrow> sock \<Rightarrow> ((int \<times> bytes) option, sock) outcome option" where
  "downloadChunk W lim k =
     (case recvInt W k of
        (None, k1) \<Rightarrow> Some (Done None k1)
      | (Some _, k1) \<Rightarrow>
          (case recvInt W k1 of
             (None, k2) \<Rightarrow> Some (Done None k2)
           | (Some bs, k2) \<Rightarrow>
               if length bs < 4 then Some (Crash UninitRead)
               else bindP (genericDownload W lim (ntohlInt bs) k2)
                      (\<lambda>(_, raw) k3. Some (Done (Some (ntohlInt bs, raw)) k3)) id))"

section \<open>What is sent and received\<close>

text \<open>Sending never fails and takes up to 256 bytes at once.\<close>

definition sendsWhole :: "net \<Rightarrow> bool" where
  "sendsWhole W \<longleftrightarrow> (\<forall>i. \<exists>n. net_send W i = SendSome n \<and> 255 \<le> n)"

text \<open>Both ends agree on the indicators.\<close>

lemma same_indicators [simp]: "SEND_META = META" "SEND_DATA = DATA" "GET_STAT = STAT" "INIT_DOWNLOAD = DOWNLOAD"
  by (simp_all add: SEND_META_def SEND_DATA_def GET_STAT_def INIT_DOWNLOAD_def indicators)

lemma sockSend_whole:
  assumes "sendsWhole W" "length bs \<le> 256"
  shows "sockSend W bs k = (int (length bs), k\<lparr>so_out := so_out k @ bs, so_sends := Suc (so_sends k)\<rparr>)"
proof -
  obtain n where "net_send W (so_sends k) = SendSome n" "255 \<le> n" using assms(1) unfolding sendsWhole_def by blast
  then show ?thesis using assms(2) by (simp add: sockSend_def)
qed

lemma genericSend_whole:
  assumes "sendsWhole W" "pos \<le> length raw"
  shows "\<exists>c. genericSend W raw pos k = (int (length raw), k\<lparr>so_out := so_out k @ drop pos raw, so_sends := c\<rparr>)"
  using assms(2)
proof (induction "length raw - pos" arbitrary: pos k rule: less_induct)
  case less
  show ?case
  proof (cases "pos < length raw")
    case True
    obtain n where n: "net_send W (so_sends k) = SendSome n" using assms(1) unfolding sendsWhole_def by blast
    let ?piece = "take (Suc n) (drop pos raw)"
    let ?k1 = "k\<lparr>so_out := so_out k @ ?piece, so_sends := Suc (so_sends k)\<rparr>"
    have more: "length raw - (pos + length ?piece) < length raw - pos" "pos + length ?piece \<le> length raw" using True by auto
    obtain c where "genericSend W raw (pos + length ?piece) ?k1 =
        (int (length raw), ?k1\<lparr>so_out := so_out ?k1 @ drop (pos + length ?piece) raw, so_sends := c\<rparr>)"
      using less.hyps [OF more] by blast
    moreover have "?piece @ drop (pos + length ?piece) raw = drop pos raw"
      by (metis append_take_drop_id drop_drop add.commute length_drop length_take min.commute take_take nat_le_linear take_all drop_all)
    moreover have "genericSend W raw pos k = genericSend W raw (pos + length ?piece) ?k1"
      using True n by (subst genericSend.simps) (cases k; simp add: sockSend_def)
    ultimately show ?thesis by auto
  next
    case False
    then have "genericSend W raw pos k = (int (length raw), k\<lparr>so_out := so_out k @ drop pos raw, so_sends := so_sends k\<rparr>)"
      using less.prems by (subst genericSend.simps) simp
    then show ?thesis by blast
  qed
qed

lemma mkSocket_whole: "sendsWhole W \<Longrightarrow> mkSocket W u inbox = \<lparr> so_rx = \<lparr> rx_in = inbox, rx_calls = 0 \<rparr>, so_out = userMsg u, so_sends = 1 \<rparr>"
  by (simp add: mkSocket_def sockSend_whole userMsg_def)

lemma sendPackage_whole:
  assumes "sendsWhole W"
  shows "\<exists>c. sendPackage W ind raw k = (0, k\<lparr>so_out := so_out k @ packageMsg ind raw, so_sends := c\<rparr>)"
  using genericSend_whole [OF assms, of 0 raw "k\<lparr>so_out := so_out k @ le 4 ind @ le 4 (int (length raw)), so_sends := Suc (Suc (so_sends k))\<rparr>"]
  by (auto simp: sendPackage_def sockSend_whole [OF assms] packageMsg_def)

lemma initDownload_whole:
  assumes "sendsWhole W" "length name \<le> 256"
  shows "\<exists>c. initDownload W name k = (0, k\<lparr>so_out := so_out k @ packageMsg DOWNLOAD name, so_sends := c\<rparr>)"
  using assms by (auto simp: initDownload_def sockSend_whole packageMsg_def)

lemma downloadLoop_gets:
  assumes "steady (net_recv W)"
  shows "rx_in (so_rx k) = msg @ rest \<Longrightarrow> rawSize = int (length got) + int (length msg) \<Longrightarrow> rawSize \<le> lim \<Longrightarrow>
    \<exists>c. downloadLoop W lim rawSize got k = Some (Done (True, got @ msg) (k\<lparr>so_rx := \<lparr> rx_in = rest, rx_calls = c \<rparr>\<rparr>))"
proof (induction "length msg" arbitrary: msg got k rule: less_induct)
  case less
  show ?case
  proof (cases "msg = []")
    case True
    then have "downloadLoop W lim rawSize got k = Some (Done (True, got @ msg) (k\<lparr>so_rx := \<lparr> rx_in = rest, rx_calls = rx_calls (so_rx k) \<rparr>\<rparr>))"
      using less.prems by (subst downloadLoop.simps) (cases "so_rx k"; cases k; simp)
    then show ?thesis by blast
  next
    case False
    have n: "0 < nat (rawSize - int (length got))" "rx_in (so_rx k) \<noteq> []" using False less.prems by auto
    obtain bs rest1 where bs: "recvSome (net_recv W) (nat (rawSize - int (length got))) (so_rx k) =
        (int (length bs), bs, \<lparr> rx_in = rest1, rx_calls = Suc (rx_calls (so_rx k)) \<rparr>)"
      "rx_in (so_rx k) = bs @ rest1" "bs \<noteq> []" "length bs \<le> nat (rawSize - int (length got))"
      by (rule recvSome_steady [OF assms n])
    define msg1 where "msg1 = drop (length bs) msg"
    have "length bs \<le> length msg" using bs(4) less.prems(2) by simp
    then have msg: "msg = bs @ msg1" "rest1 = msg1 @ rest"
      using bs(2) less.prems(1) unfolding msg1_def by (auto simp: append_eq_append_conv2)
    let ?k1 = "k\<lparr>so_rx := \<lparr> rx_in = rest1, rx_calls = Suc (rx_calls (so_rx k)) \<rparr>\<rparr>"
    have "\<exists>c. downloadLoop W lim rawSize (got @ bs) ?k1 = Some (Done (True, (got @ bs) @ msg1) (?k1\<lparr>so_rx := \<lparr> rx_in = rest, rx_calls = c \<rparr>\<rparr>))"
      by (rule less.hyps) (use less.prems msg bs(3) in auto)
    moreover have "downloadLoop W lim rawSize got k = downloadLoop W lim rawSize (got @ bs) ?k1"
      using n(1) bs(1) less.prems(2,3) msg(1) by (subst downloadLoop.simps) simp
    ultimately show ?thesis using msg(1) by simp
  qed
qed

lemma recvInt_whole:
  assumes "whole (net_recv W)" "rx_in (so_rx k) = bs @ rest" "length bs = 4"
  shows "\<exists>c. recvInt W k = (Some bs, k\<lparr>so_rx := \<lparr> rx_in = rest, rx_calls = c \<rparr>\<rparr>)"
  using recvSome_whole [OF assms(1,2)] assms(3) by (auto simp: recvInt_def)

lemma getStatus_whole:
  assumes W: "whole (net_recv W)" and k: "rx_in (so_rx k) = concat (statReply dups) @ rest" and lim: "int (length dups) \<le> lim" "lim < 2147483648"
  shows "\<exists>c. getStatus W lim k = Some (Done (Some (int (length dups), flagBytes dups)) (k\<lparr>so_rx := \<lparr> rx_in = rest, rx_calls = c \<rparr>\<rparr>))"
proof -
  have i32: "int32 (int (length dups))" using lim by (simp add: int32_def)
  have in0: "rx_in (so_rx k) = le 4 STAT @ (le 4 (int (length dups)) @ flagBytes dups @ rest)" using k by (simp add: statReply_def)
  obtain c1 where k1: "recvInt W k = (Some (le 4 STAT), k\<lparr>so_rx := \<lparr> rx_in = le 4 (int (length dups)) @ flagBytes dups @ rest, rx_calls = c1 \<rparr>\<rparr>)" (is "_ = (_, ?k1)")
    using recvInt_whole [OF W in0] by auto
  have in1: "rx_in (so_rx ?k1) = le 4 (int (length dups)) @ (flagBytes dups @ rest)" by simp
  obtain c2 where k2: "recvInt W ?k1 = (Some (le 4 (int (length dups))), ?k1\<lparr>so_rx := \<lparr> rx_in = flagBytes dups @ rest, rx_calls = c2 \<rparr>\<rparr>)" (is "_ = (_, ?k2)")
    using recvInt_whole [OF W in1] by auto
  have "\<exists>c. downloadLoop W lim (int (length dups)) [] ?k2 = Some (Done (True, [] @ flagBytes dups) (?k2\<lparr>so_rx := \<lparr> rx_in = rest, rx_calls = c \<rparr>\<rparr>))"
    by (rule downloadLoop_gets [OF whole_steady [OF W]]) (use lim in \<open>simp_all add: flagBytes_def\<close>)
  then show ?thesis
    using k1 k2 i32 readInt_le [OF int32_indicators(3), of "[]"] by (auto simp: getStatus_def genericDownload_def)
qed

lemma downloadChunk_whole:
  assumes W: "whole (net_recv W)" and k: "rx_in (so_rx k) = restoreMsg p @ rest" and lim: "int (length p) \<le> lim" "lim < 2147483648"
  shows "\<exists>c. downloadChunk W lim k = Some (Done (Some (int (length p), p)) (k\<lparr>so_rx := \<lparr> rx_in = rest, rx_calls = c \<rparr>\<rparr>))"
proof -
  have i32: "int32 (int (length p))" using lim by (simp add: int32_def)
  have in0: "rx_in (so_rx k) = rev (le 4 (- 5)) @ (rev (le 4 (int (length p))) @ p @ rest)" using k by (simp add: restoreMsg_def)
  obtain c1 where k1: "recvInt W k = (Some (rev (le 4 (- 5))), k\<lparr>so_rx := \<lparr> rx_in = rev (le 4 (int (length p))) @ p @ rest, rx_calls = c1 \<rparr>\<rparr>)" (is "_ = (_, ?k1)")
    using recvInt_whole [OF W in0] by auto
  have in1: "rx_in (so_rx ?k1) = rev (le 4 (int (length p))) @ (p @ rest)" by simp
  obtain c2 where k2: "recvInt W ?k1 = (Some (rev (le 4 (int (length p)))), ?k1\<lparr>so_rx := \<lparr> rx_in = p @ rest, rx_calls = c2 \<rparr>\<rparr>)" (is "_ = (_, ?k2)")
    using recvInt_whole [OF W in1] by auto
  have "\<exists>c. downloadLoop W lim (int (length p)) [] ?k2 = Some (Done (True, [] @ p) (?k2\<lparr>so_rx := \<lparr> rx_in = rest, rx_calls = c \<rparr>\<rparr>))"
    by (rule downloadLoop_gets [OF whole_steady [OF W]]) (use lim in simp_all)
  then show ?thesis using k1 k2 i32 by (auto simp: downloadChunk_def genericDownload_def)
qed

end
