(* ===== verification/ClientFiles.thy ===== *)
theory ClientFiles
  imports Socket
begin

text \<open>
  Files and commands on the client's side. The working directory is a map from names to contents; a command
  passed to \<open>system\<close> goes to a shell, which is a parameter: it returns the files afterwards, or None
  when \<open>system\<close> returns -1. The names are those of uploader.cc, encoder.cc and downloader.cc.
\<close>

section \<open>Names\<close>

definition ascii :: "string \<Rightarrow> bytes" where
  "ascii cs = map of_char cs"

text \<open>The conversion \<open>%d\<close> of a number that is not negative.\<close>

fun decimal :: "nat \<Rightarrow> bytes" where
  "decimal n = (if n < 10 then [48 + of_nat n] else decimal (n div 10) @ [48 + of_nat (n mod 10)])"

declare decimal.simps [simp del]

definition shareKeyName :: "nat \<Rightarrow> bytes" where       \<comment> \<open>share-i.key\<close>
  "shareKeyName i = ascii ''share-'' @ decimal i @ ascii ''.key''"

definition shareRecipeName :: "nat \<Rightarrow> bytes" where    \<comment> \<open>share-i.recipe\<close>
  "shareRecipeName i = ascii ''share-'' @ decimal i @ ascii ''.recipe''"

definition encKeyName :: "bytes \<Rightarrow> nat \<Rightarrow> bytes" where  \<comment> \<open>name-share-i-enc.key\<close>
  "encKeyName name i = cstring name @ ascii ''-share-'' @ decimal i @ ascii ''-enc.key''"

definition downKeyName :: "bytes \<Rightarrow> nat \<Rightarrow> bytes" where \<comment> \<open>name-share-i-enc.key.d\<close>
  "downKeyName name i = cstring name @ ascii ''-share-'' @ decimal i @ ascii ''-enc.key.d''"

definition decKeyName :: "bytes \<Rightarrow> nat \<Rightarrow> bytes" where  \<comment> \<open>name-share-i-dec.key\<close>
  "decKeyName name i = cstring name @ ascii ''-share-'' @ decimal i @ ascii ''-dec.key''"

definition serverRecipeName :: "bytes \<Rightarrow> nat \<Rightarrow> bytes" where  \<comment> \<open>name-i.recipe\<close>
  "serverRecipeName name i = cstring name @ ascii ''-'' @ decimal i @ ascii ''.recipe''"

text \<open>\<open>sprintf\<close> into an array of 256 bytes.\<close>

definition fits256 :: "bytes \<Rightarrow> bool" where
  "fits256 name \<longleftrightarrow> length name < 256"

section \<open>Commands\<close>

type_synonym files = "bytes \<Rightarrow> bytes option"
type_synonym system = "bytes \<Rightarrow> files \<Rightarrow> files option"

text \<open>\<open>snprintf(cmd, 256, ...)\<close> cuts a command after 255 characters.\<close>

definition cmdRm :: "bytes \<Rightarrow> bytes" where
  "cmdRm name = take 255 (ascii ''rm -rf '' @ name)"

definition cmdEncrypt :: "bytes \<Rightarrow> bytes \<Rightarrow> bytes" where
  "cmdEncrypt src dst = take 255 (ascii ''openssl enc -aes-128-cbc -in '' @ src @ ascii '' -out '' @ dst @ ascii '' -pass pass:test'')"

definition cmdDecrypt :: "bytes \<Rightarrow> bytes \<Rightarrow> bytes" where
  "cmdDecrypt dst src = take 255 (ascii ''openssl enc -d -aes-128-cbc -out '' @ dst @ ascii '' -in '' @ src @ ascii '' -pass pass:test'')"

text \<open>
  What the two programs do when their arguments are single plain words: \<open>rm -rf\<close> removes a file, and
  \<open>openssl enc\<close> writes an encryption of a file that \<open>openssl enc -d\<close> undoes.
\<close>

definition system_ok :: "(bytes \<Rightarrow> bytes) \<Rightarrow> (bytes \<Rightarrow> bytes) \<Rightarrow> system \<Rightarrow> bool" where
  "system_ok enc dec sys \<longleftrightarrow> (\<forall>d. dec (enc d) = d) \<and>
     (\<forall>name f. plainName name \<and> length (cmdRm name) < 255 \<and> (\<forall>p. f (name @ 47 # p) = None) \<longrightarrow> sys (cmdRm name) f = Some (f(name := None))) \<and>
     (\<forall>src dst f d. plainName src \<and> plainName dst \<and> length (cmdEncrypt src dst) < 255 \<and> f src = Some d \<longrightarrow>
        sys (cmdEncrypt src dst) f = Some (f(dst \<mapsto> enc d))) \<and>
     (\<forall>src dst f d. plainName src \<and> plainName dst \<and> length (cmdDecrypt dst src) < 255 \<and> f src = Some d \<longrightarrow>
        sys (cmdDecrypt dst src) f = Some (f(dst \<mapsto> dec d)))"

section \<open>Different clouds have different files\<close>

definition decimalValue :: "bytes \<Rightarrow> nat" where
  "decimalValue bs = foldl (\<lambda>a b. 10 * a + (unat b - 48)) 0 bs"

lemma decimalValue_decimal: "decimalValue (decimal n) = n"
proof (induction n rule: decimal.induct)
  case (1 n)
  have digit: "unat (48 + of_nat k :: byte) - 48 = k" if "k < 10" for k :: nat
    using that by (simp add: unat_word_ariths unat_of_nat)
  show ?case
  proof (cases "n < 10")
    case True
    then show ?thesis using digit by (simp add: decimal.simps [of n] decimalValue_def)
  next
    case False
    then show ?thesis using 1 digit [of "n mod 10"] by (simp add: decimal.simps [of n] decimalValue_def)
  qed
qed

lemma shareKeyName_inj: "shareKeyName i = shareKeyName j \<longleftrightarrow> i = j"
proof
  assume "shareKeyName i = shareKeyName j"
  then have "decimal i = decimal j" by (simp add: shareKeyName_def)
  then show "i = j" by (metis decimalValue_decimal)
qed simp

end
