(* ===== verification/Uploader.thy ===== *)
theory Uploader
  imports ClientFiles
begin

text \<open>
  The uploader, client/comm/uploader.cc: one thread per cloud server, which takes the file header and the shares
  from its ring buffer, collects metadata and shares in two buffers of 4 MB, and uploads both when the next
  share does not fit or the last share has come. The ring buffer is the list of objects that are put
  into it (RingQueue shows that it is a queue); waiting for an object that never comes is not returning.
\<close>

section \<open>State of a thread\<close>

definition UPLOAD_BUFFER_SIZE :: int where "UPLOAD_BUFFER_SIZE = 4194304"
definition RING_BUFFER_DATA_SIZE :: int where "RING_BUFFER_DATA_SIZE = 16384"
definition RING_BUFFER_META_SIZE :: int where "RING_BUFFER_META_SIZE = 32768"

text \<open>The objects: a header with the initialised part of its data, and a share, the last one marked.\<close>

datatype up_item =
    FileHeader fileShareMDHead bytes
  | ShareObject bool shareMDEntry bytes

text \<open>The members of the uploader that belong to one cloud. Arrays are given by their cells that were written.\<close>

record cloud =
  metaBuf :: bytes                       \<comment> \<open>uploadMetaBuffer_\<close>
  metaWP :: nat
  container :: bytes                     \<comment> \<open>uploadContainer_\<close>
  containerWP :: nat
  shareSizes :: "int list"               \<comment> \<open>shareSizeArray_\<close>
  numShares :: nat                       \<comment> \<open>numOfShares_\<close>
  header :: "nat option"                 \<comment> \<open>headerArray_: an offset into the metadata buffer\<close>
  accuData :: int
  accuUnique :: int
  csock :: sock

definition mkCloud :: "sock \<Rightarrow> cloud" where
  "mkCloud k = \<lparr> metaBuf = [], metaWP = 0, container = [], containerWP = 0, shareSizes = [], numShares = 0, header = None,
     accuData = 0, accuUnique = 0, csock = k \<rparr>"

section \<open>Buffers\<close>

definition putMeta :: "bytes \<Rightarrow> cloud \<Rightarrow> (unit, cloud) outcome" where
  "putMeta bs t =
     (if UPLOAD_BUFFER_SIZE < int (metaWP t + length bs) then Crash BufferOverflow
      else Done () (t\<lparr>metaBuf := overlay (metaWP t) bs (metaBuf t), metaWP := metaWP t + length bs\<rparr>))"

definition putContainer :: "bytes \<Rightarrow> cloud \<Rightarrow> (unit, cloud) outcome" where
  "putContainer bs t =
     (if UPLOAD_BUFFER_SIZE < int (containerWP t + length bs) then Crash BufferOverflow
      else Done () (t\<lparr>container := overlay (containerWP t) bs (container t), containerWP := containerWP t + length bs\<rparr>))"

definition recordSize :: "int \<Rightarrow> cloud \<Rightarrow> (unit, cloud) outcome" where
  "recordSize shareSize t =
     (if UPLOAD_BUFFER_SIZE \<le> int (numShares t) then Crash BufferOverflow
      else Done () (t\<lparr>shareSizes := take (numShares t) (shareSizes t) @ shareSize # drop (Suc (numShares t)) (shareSizes t),
             numShares := Suc (numShares t)\<rparr>))"

text \<open>The first n bytes of the data array of an object.\<close>

definition dataOf :: "int \<Rightarrow> bytes \<Rightarrow> cloud \<Rightarrow> (bytes, cloud) outcome" where
  "dataOf n bs t = (if n < 0 then Crash OutOfBounds else if int (length bs) < n then Crash UninitRead else Done (take (nat n) bs) t)"

text \<open>Access to the current file header through \<open>headerArray_\<close>.\<close>

definition readHeader :: "cloud \<Rightarrow> (fileShareMDHead, cloud) outcome" where
  "readHeader t = (case header t of None \<Rightarrow> Crash UninitRead | Some off \<Rightarrow> readO (structAt 48 getMDHead (metaBuf t) (int off)) t)"

definition updHeader :: "(fileShareMDHead \<Rightarrow> fileShareMDHead) \<Rightarrow> cloud \<Rightarrow> (unit, cloud) outcome" where
  "updHeader f t = bindO (readHeader t) (\<lambda>h t1. Done () (t1\<lparr>metaBuf := writeAt (the (header t)) (putMDHead (f h)) (metaBuf t1)\<rparr>))"

section \<open>Uploading\<close>

text \<open>
  Step 3 of \<open>performUpload\<close>: the shares with status 0 are moved to the front of the container, one by one through an array of
  \<open>lim\<close> bytes. The result is (indexCount, containerIndex).
\<close>

fun compact :: "int \<Rightarrow> bytes \<Rightarrow> nat \<Rightarrow> nat \<Rightarrow> nat \<Rightarrow> nat \<Rightarrow> cloud \<Rightarrow> (nat \<times> nat, cloud) outcome" where
  "compact lim statusList 0 i indexCount containerIndex t = Done (indexCount, containerIndex) t"
| "compact lim statusList (Suc n) i indexCount containerIndex t =
     (if length (shareSizes t) \<le> i \<or> length statusList \<le> i then Crash UninitRead
      else
        (let currentSize = shareSizes t ! i in
         if currentSize < 0 then Crash OutOfBounds
         else if statusList ! i = 0 then
           (if lim < currentSize then Crash BufferOverflow
            else if int (length (container t)) < int containerIndex + currentSize then Crash UninitRead
            else compact lim statusList n (Suc i) (indexCount + nat currentSize) (containerIndex + nat currentSize)
                   (t\<lparr>container := overlay indexCount (slice containerIndex (nat currentSize) (container t)) (container t)\<rparr>))
         else compact lim statusList n (Suc i) indexCount (containerIndex + nat currentSize) t))"

definition performUpload :: "net \<Rightarrow> int \<Rightarrow> cloud \<Rightarrow> (unit, cloud) outcome option" where
  "performUpload W lim t =
     (let k1 = snd (sendMeta W (take (metaWP t) (metaBuf t)) (csock t)) in
      bindP (getStatus W (int (Suc (numShares t))) k1)
        (\<lambda>status k2.
           case status of
             None \<Rightarrow> Some (Crash UninitRead)
           | Some (numOfshares, statusList) \<Rightarrow>
               bindP (Some (compact lim statusList (nat numOfshares) 0 0 0 (t\<lparr>csock := k2\<rparr>)))
                 (\<lambda>(indexCount, containerIndex) t1.
                    Some (Done () (t1\<lparr>accuData := accuData t1 + int containerIndex, accuUnique := accuUnique t1 + int indexCount,
                      csock := snd (sendData W (take indexCount (container t1)) (csock t1))\<rparr>)))
                 id)
        (\<lambda>k. t\<lparr>csock := k\<rparr>))"

text \<open>The counts move from coming to past, and the buffers start over with the header and the name.\<close>

definition updateHeader :: "cloud \<Rightarrow> (unit, cloud) outcome" where
  "updateHeader t =
     bindO (readHeader t) (\<lambda>h t0.
     bindO (updHeader (\<lambda>h. h\<lparr>mdh_numOfPastSecrets := mdh_numOfPastSecrets h + mdh_numOfComingSecrets h,
        mdh_sizeOfPastSecrets := mdh_sizeOfPastSecrets h + mdh_sizeOfComingSecrets h,
        mdh_numOfComingSecrets := 0, mdh_sizeOfComingSecrets := 0\<rparr>) t0) (\<lambda>_ t1.
     let off = the (header t); n = 48 + mdh_fullNameSize h in
     if n < 0 then Crash OutOfBounds
     else if int (length (metaBuf t1)) < int off + n then Crash UninitRead
     else putMeta (slice off (nat n) (metaBuf t1)) (t1\<lparr>containerWP := 0, metaWP := 0, numShares := 0\<rparr>)))"

section \<open>The threads\<close>

text \<open>A share goes to both buffers and is counted in the header.\<close>

definition addShare :: "shareMDEntry \<Rightarrow> bytes \<Rightarrow> cloud \<Rightarrow> (unit, cloud) outcome" where
  "addShare e dat t =
     bindO (putMeta (putMDEntry e) t) (\<lambda>_ t1.
     bindO (dataOf (mde_shareSize e) dat t1) (\<lambda>share t2.
     bindO (putContainer share t2) (\<lambda>_ t3.
     bindO (recordSize (mde_shareSize e) t3) (\<lambda>_ t4.
     updHeader (\<lambda>h. h\<lparr>mdh_numOfComingSecrets := mdh_numOfComingSecrets h + 1,
       mdh_sizeOfComingSecrets := mdh_sizeOfComingSecrets h + mde_secretSize e\<rparr>) t4))))"

text \<open>One object; the result is whether it was the last.\<close>

definition uploadItem :: "net \<Rightarrow> int \<Rightarrow> up_item \<Rightarrow> cloud \<Rightarrow> (bool, cloud) outcome option" where
  "uploadItem W lim item t =
     (case item of
        FileHeader h nm \<Rightarrow>
          Some (bindO (putMeta (putMDHead h) t) (\<lambda>_ t1.
                bindO (dataOf (mdh_fullNameSize h) nm (t1\<lparr>header := Some (metaWP t)\<rparr>)) (\<lambda>name t2.
                bindO (putMeta name t2) (\<lambda>_ t3. Done False t3))))
      | ShareObject fin e dat \<Rightarrow>
          bindP
            (if UPLOAD_BUFFER_SIZE < mde_shareSize e + int (containerWP t)
             then bindP (performUpload W lim t) (\<lambda>_ t1. Some (updateHeader t1)) id
             else Some (Done () t))
            (\<lambda>_ t1. bindP (Some (addShare e dat t1))
               (\<lambda>_ t2. if fin then bindP (performUpload W lim t2) (\<lambda>_ t3. Some (Done True t3)) id
                       else Some (Done False t2))
               id)
            id)"

fun uploadLoop :: "net \<Rightarrow> int \<Rightarrow> up_item list \<Rightarrow> cloud \<Rightarrow> (unit, cloud) outcome option" where
  "uploadLoop W lim [] t = None"
| "uploadLoop W lim (item # items) t =
     bindP (uploadItem W lim item t) (\<lambda>last t1. if last then Some (Done () t1) else uploadLoop W lim items t1) id"

text \<open>The thread for a data server.\<close>

definition thread_handler :: "net \<Rightarrow> up_item list \<Rightarrow> cloud \<Rightarrow> (unit, cloud) outcome option" where
  "thread_handler W items t = uploadLoop W RING_BUFFER_DATA_SIZE items t"

text \<open>
  The key file of a cloud: it is encrypted by a command, removed, and its encryption is sent and removed. The name of the
  file is the name of the uploaded file, as the constructor got it.
\<close>

definition sendKeyFile :: "net \<Rightarrow> bytes \<Rightarrow> bytes \<Rightarrow> sock \<Rightarrow> sock" where
  "sendKeyFile W name contents k =
     snd (genericSend W contents 0 (snd (genericSend W name 0
      (snd (genericSend W (le 4 (int (length name))) 0 (snd (genericSend W (le 4 (int (length contents))) 0
      (snd (genericSend W (le 4 KEY_RECIPE) 0 k)))))))))"

definition uploadKeyFile :: "net \<Rightarrow> system \<Rightarrow> bytes \<Rightarrow> nat \<Rightarrow> cloud \<times> files \<Rightarrow> (bool, cloud \<times> files) outcome" where
  "uploadKeyFile W sys name index tf =
     (case tf of (t, f) \<Rightarrow>
      let keyFileName = shareKeyName index; encFileName = encKeyName name index in
      if \<not> fits256 encFileName then Crash BufferOverflow
      else
        (case sys (cmdEncrypt keyFileName encFileName) f of
           None \<Rightarrow> Done False (t, f)
         | Some f1 \<Rightarrow>
             (case sys (cmdRm keyFileName) f1 of
                None \<Rightarrow> Done False (t, f1)
              | Some f2 \<Rightarrow>
                  (case f2 encFileName of
                     None \<Rightarrow> Crash NullDeref
                   | Some contents \<Rightarrow>
                       if 2147483647 \<le> int (length contents) then Crash LengthError
                       else
                         (let t1 = t\<lparr>csock := sendKeyFile W encFileName contents (csock t)\<rparr> in
                          case sys (cmdRm encFileName) f2 of
                            None \<Rightarrow> Done False (t1, f2)
                          | Some f3 \<Rightarrow> Done True (t1, f3))))))"

text \<open>The thread for a metadata server; a failure of the key file is only reported.\<close>

definition thread_handler_meta ::
  "net \<Rightarrow> system \<Rightarrow> bytes \<Rightarrow> nat \<Rightarrow> up_item list \<Rightarrow> cloud \<times> files \<Rightarrow> (unit, cloud \<times> files) outcome option" where
  "thread_handler_meta W sys name index items tf =
     (case tf of (t, f) \<Rightarrow>
      bindP (uploadLoop W RING_BUFFER_META_SIZE items t)
        (\<lambda>_ t1. Some (bindO (uploadKeyFile W sys name index (t1, f)) (\<lambda>_ tf1. Done () tf1)))
        (\<lambda>t1. (t1, f)))"

section \<open>What is uploaded\<close>

text \<open>
  The shares of a file with their metadata are cut greedily into batches that fill the container; each batch is
  announced with the header of the file, which counts the shares of the batches before and of this one, and
  the shares that the server does not know are sent.
\<close>

type_synonym share = "shareMDEntry \<times> bytes"

definition sharesLen :: "share list \<Rightarrow> nat" where
  "sharesLen xs = length (concat (map snd xs))"

fun batches :: "nat \<Rightarrow> share list \<Rightarrow> share list \<Rightarrow> share list list" where
  "batches cap cur [] = [cur]"
| "batches cap cur (x # xs) =
     (if cap < sharesLen cur + length (snd x) then cur # batches cap [x] xs else batches cap (cur @ [x]) xs)"

definition secretsSize :: "share list \<Rightarrow> int" where
  "secretsSize xs = sum_list (map (mde_secretSize \<circ> fst) xs)"

definition batchHead :: "fileShareMDHead \<Rightarrow> share list \<Rightarrow> share list \<Rightarrow> fileShareMDHead" where
  "batchHead h past cur = h\<lparr>mdh_numOfPastSecrets := int (length past), mdh_sizeOfPastSecrets := secretsSize past,
     mdh_numOfComingSecrets := int (length cur), mdh_sizeOfComingSecrets := secretsSize cur\<rparr>"

definition batchFile :: "fileShareMDHead \<Rightarrow> bytes \<Rightarrow> share list \<Rightarrow> share list \<Rightarrow> md_file" where
  "batchFile h name past cur = (batchHead h past cur, name, map fst cur)"

definition wantedData :: "bool list \<Rightarrow> share list \<Rightarrow> bytes" where
  "wantedData flags xs = concat (map (snd \<circ> snd) (filter (\<lambda>z. \<not> fst z) (zip flags xs)))"

fun uploadsOf :: "fileShareMDHead \<Rightarrow> bytes \<Rightarrow> share list \<Rightarrow> share list list \<Rightarrow> bool list list \<Rightarrow> bytes" where
  "uploadsOf h name past (b # bs) (flags # fs) =
     packageMsg META (packFile (batchFile h name past b)) @ packageMsg DATA (wantedData flags b) @ uploadsOf h name (past @ b) bs fs"
| "uploadsOf h name past _ _ = []"

fun shareItems :: "share list \<Rightarrow> up_item list" where
  "shareItems [] = []"
| "shareItems [(e, d)] = [ShareObject True e d]"
| "shareItems ((e, d) # x # xs) = ShareObject False e d # shareItems (x # xs)"

lemma wantedData_simps [simp]:
  "wantedData [] xs = []" "wantedData fs [] = []"
  "wantedData (f # fs) (x # xs) = (if f then [] else snd x) @ wantedData fs xs"
  by (simp_all add: wantedData_def)

lemma sharesLen_simps [simp]:
  "sharesLen [] = 0" "sharesLen (x # xs) = length (snd x) + sharesLen xs" "sharesLen (xs @ ys) = sharesLen xs + sharesLen ys"
  by (simp_all add: sharesLen_def)

lemma secretsSize_simps [simp]:
  "secretsSize [] = 0" "secretsSize (x # xs) = mde_secretSize (fst x) + secretsSize xs" "secretsSize (xs @ ys) = secretsSize xs + secretsSize ys"
  by (simp_all add: secretsSize_def)

text \<open>A share as the encoder makes it.\<close>

definition goodShare :: "int \<Rightarrow> share \<Rightarrow> bool" where
  "goodShare lim x \<longleftrightarrow> okMDEntry (fst x) \<and> 0 \<le> mde_secretSize (fst x) \<and> mde_shareSize (fst x) = int (length (snd x)) \<and> 0 < length (snd x) \<and> int (length (snd x)) \<le> lim"

section \<open>The container is compacted to what the server asks for\<close>

lemma drop_eq_Cons:
  assumes "drop i xs = y # ys"
  shows "i < length xs" "xs ! i = y" "drop (Suc i) xs = ys"
proof -
  show i: "i < length xs" using assms by (cases "i < length xs") simp_all
  show "xs ! i = y" "drop (Suc i) xs = ys" using assms Cons_nth_drop_Suc [OF i] by simp_all
qed

lemma compact_run:
  "\<lbrakk>\<forall>x\<in>set xs. goodShare lim x; length flags = length xs;
     drop i (shareSizes t) = map (int \<circ> length \<circ> snd) xs @ junk; drop i statusList = flagBytes flags;
     container t = pre @ mid @ concat (map snd xs) @ rest; length pre = ic; length pre + length mid = ci\<rbrakk> \<Longrightarrow>
   \<exists>rest'. compact lim statusList (length xs) i ic ci t =
     Done (ic + length (wantedData flags xs), ci + sharesLen xs) (t\<lparr>container := pre @ wantedData flags xs @ rest'\<rparr>)"
proof (induction xs arbitrary: flags i ic ci t pre mid)
  case Nil
  then show ?case by (intro exI [of _ "mid @ rest"]) simp
next
  case (Cons x xs)
  obtain f fs where flags: "flags = f # fs" using Cons.prems(2) by (cases flags) auto
  have "drop i statusList = (if f then 1 else 0) # flagBytes fs" using Cons.prems(4) flags by (simp add: flagBytes_def)
  note st = drop_eq_Cons [OF this]
  have "drop i (shareSizes t) = int (length (snd x)) # map (int \<circ> length \<circ> snd) xs @ junk" using Cons.prems(3) by simp
  note sz = drop_eq_Cons [OF this]
  have lim: "int (length (snd x)) \<le> lim" "\<forall>x\<in>set xs. goodShare lim x" "length fs = length xs" using Cons.prems(1,2) flags by (auto simp: goodShare_def)
  show ?case
  proof (cases f)
    case True
    have "container t = pre @ (mid @ snd x) @ concat (map snd xs) @ rest" "length pre + length (mid @ snd x) = ci + length (snd x)"
      using Cons.prems(5,7) by simp_all
    from Cons.IH [OF lim(2,3) sz(3) st(3) this(1) Cons.prems(6) this(2)]
    show ?thesis using True st(1,2) sz(1,2) flags by (simp add: add.assoc)
  next
    case False
    let ?c = "overlay ic (snd x) (container t)"
    let ?mid = "drop (length (snd x)) (mid @ snd x)"
    have sl: "slice ci (length (snd x)) (container t) = snd x" "length (container t) \<ge> ci + length (snd x)"
      using Cons.prems(5,7) by (simp_all add: slice_def)
    have c: "?c = (pre @ snd x) @ ?mid @ concat (map snd xs) @ rest"
      using Cons.prems(5,6) by (simp add: overlay_def)
    have "\<exists>rest'. compact lim statusList (length xs) (Suc i) (ic + length (snd x)) (ci + length (snd x)) (t\<lparr>container := ?c\<rparr>) =
       Done (ic + length (snd x) + length (wantedData fs xs), ci + length (snd x) + sharesLen xs)
         (t\<lparr>container := ?c\<rparr>\<lparr>container := (pre @ snd x) @ wantedData fs xs @ rest'\<rparr>)"
      by (rule Cons.IH [OF lim(2,3), where mid = ?mid]) (use sz(3) st(3) c Cons.prems(6,7) in simp_all)
    then show ?thesis using False st(1,2) sz(1,2) flags lim(1) sl by (simp add: add.assoc)
  qed
qed

section \<open>The buffers hold a batch\<close>

definition holdsMeta :: "fileShareMDHead \<Rightarrow> bytes \<Rightarrow> share list \<Rightarrow> share list \<Rightarrow> cloud \<Rightarrow> bool" where
  "holdsMeta h name past cur t \<longleftrightarrow> (\<exists>junk. metaBuf t = packFile (batchFile h name past cur) @ junk) \<and>
     metaWP t = length (packFile (batchFile h name past cur)) \<and> header t = Some 0"

definition holdsData :: "share list \<Rightarrow> cloud \<Rightarrow> bool" where
  "holdsData cur t \<longleftrightarrow> (\<exists>junk. container t = concat (map snd cur) @ junk) \<and> containerWP t = sharesLen cur \<and>
     (\<exists>junk. shareSizes t = map (int \<circ> length \<circ> snd) cur @ junk) \<and> numShares t = length cur"

lemma performUpload_run:
  assumes W: "sendsWhole W" "whole (net_recv W)" and good: "\<forall>x\<in>set cur. goodShare lim x"
    and hold: "holdsMeta h name past cur t" "holdsData cur t" and len: "length flags = length cur" "int (length cur) < 2147483646"
    and inb: "rx_in (so_rx (csock t)) = concat (statReply flags) @ rest"
  shows "\<exists>c d e. performUpload W lim t = Some (Done () (t\<lparr>container := c,
      accuData := accuData t + int (sharesLen cur), accuUnique := accuUnique t + int (length (wantedData flags cur)),
      csock := \<lparr> so_rx = \<lparr> rx_in = rest, rx_calls = d \<rparr>,
        so_out = so_out (csock t) @ packageMsg META (packFile (batchFile h name past cur)) @ packageMsg DATA (wantedData flags cur), so_sends = e \<rparr>\<rparr>))"
proof -
  let ?pkg = "packFile (batchFile h name past cur)"
  have pkg: "take (metaWP t) (metaBuf t) = ?pkg" using hold(1) by (auto simp: holdsMeta_def)
  obtain c1 where send1: "sendPackage W META ?pkg (csock t) = (0, (csock t)\<lparr>so_out := so_out (csock t) @ packageMsg META ?pkg, so_sends := c1\<rparr>)" (is "_ = (_, ?k1)")
    using sendPackage_whole [OF W(1)] by blast
  have in1: "rx_in (so_rx ?k1) = concat (statReply flags) @ rest" using inb by simp
  have n: "int (length flags) \<le> int (Suc (numShares t))" "int (Suc (numShares t)) < 2147483648" using hold(2) len by (simp_all add: holdsData_def)
  obtain c2 where stat: "getStatus W (int (Suc (numShares t))) ?k1 =
      Some (Done (Some (int (length flags), flagBytes flags)) (?k1\<lparr>so_rx := \<lparr> rx_in = rest, rx_calls = c2 \<rparr>\<rparr>))" (is "_ = Some (Done _ ?k2)")
    using getStatus_whole [OF W(2) in1 n] by blast
  obtain j1 j2 where cs: "container t = concat (map snd cur) @ j1" "shareSizes t = map (int \<circ> length \<circ> snd) cur @ j2" using hold(2) by (auto simp: holdsData_def)
  have "\<exists>rest'. compact lim (flagBytes flags) (length cur) 0 0 0 (t\<lparr>csock := ?k2\<rparr>) =
      Done (0 + length (wantedData flags cur), 0 + sharesLen cur) (t\<lparr>csock := ?k2\<rparr>\<lparr>container := [] @ wantedData flags cur @ rest'\<rparr>)"
    by (rule compact_run [OF good len(1), where junk = j2 and mid = "[]" and rest = j1]) (use cs in simp_all)
  then obtain j3 where comp: "compact lim (flagBytes flags) (length cur) 0 0 0 (t\<lparr>csock := ?k2\<rparr>) =
      Done (length (wantedData flags cur), sharesLen cur) (t\<lparr>csock := ?k2\<rparr>\<lparr>container := wantedData flags cur @ j3\<rparr>)" by auto
  obtain c3 where send2: "sendPackage W DATA (wantedData flags cur) ?k2 = (0, ?k2\<lparr>so_out := so_out ?k2 @ packageMsg DATA (wantedData flags cur), so_sends := c3\<rparr>)"
    using sendPackage_whole [OF W(1)] by blast
  have "performUpload W lim t = Some (Done () (t\<lparr>container := wantedData flags cur @ j3,
      accuData := accuData t + int (sharesLen cur), accuUnique := accuUnique t + int (length (wantedData flags cur)),
      csock := ?k2\<lparr>so_out := so_out ?k2 @ packageMsg DATA (wantedData flags cur), so_sends := c3\<rparr>\<rparr>))"
    unfolding performUpload_def Let_def sendMeta_def sendData_def pkg same_indicators send1 snd_conv stat
    by (simp add: len(1) comp del: of_nat_Suc) (simp add: send2)
  moreover have "?k2\<lparr>so_out := so_out ?k2 @ packageMsg DATA (wantedData flags cur), so_sends := c3\<rparr> = \<lparr> so_rx = \<lparr> rx_in = rest, rx_calls = c2 \<rparr>,
      so_out = so_out (csock t) @ packageMsg META ?pkg @ packageMsg DATA (wantedData flags cur), so_sends = c3 \<rparr>" by (cases "csock t") simp
  ultimately show ?thesis by metis
qed

lemma secretsSize_nonneg: "\<forall>x\<in>set xs. goodShare lim x \<Longrightarrow> 0 \<le> secretsSize xs"
  by (induction xs) (auto simp: goodShare_def)

text \<open>The counters of the header stay in range.\<close>

definition inRange :: "int \<Rightarrow> fileShareMDHead \<Rightarrow> bytes \<Rightarrow> share list \<Rightarrow> bool" where
  "inRange lim h name xs \<longleftrightarrow> okMDHead h \<and> mdh_fullNameSize h = int (length name) \<and> (\<forall>x\<in>set xs. goodShare lim x) \<and>
     int (length xs) < 2147483646 \<and> int64 (secretsSize xs)"

lemma inRange_prefix: "inRange lim h name (xs @ ys) \<Longrightarrow> inRange lim h name xs"
  using secretsSize_nonneg [of xs lim] secretsSize_nonneg [of ys lim] by (auto simp: inRange_def int64_def)

lemma inRange_head:
  assumes "inRange lim h name (past @ cur)"
  shows "okMDHead (batchHead h past cur)" "okFile (batchFile h name past cur)"
proof -
  have "0 \<le> secretsSize past" "0 \<le> secretsSize cur" using assms secretsSize_nonneg [of _ lim] by (auto simp: inRange_def)
  then show "okMDHead (batchHead h past cur)" using assms by (auto simp: inRange_def okMDHead_def batchHead_def int32_def int64_def)
  then show "okFile (batchFile h name past cur)" using assms by (auto simp: inRange_def batchFile_def batchHead_def goodShare_def)
qed

lemma batchFile_length:
  assumes "inRange lim h name (past @ cur)"
  shows "length (packFile (batchFile h name past cur)) = 48 + length name + 44 * length cur"
proof -
  have "\<forall>e\<in>set (map fst cur). okMDEntry e" using assms by (auto simp: inRange_def goodShare_def)
  from mdEntry.length_table [OF this] show ?thesis
    using mdHead.length_put [OF inRange_head(1) [OF assms]] by (simp add: batchFile_def)
qed

lemma readHeader_run:
  assumes "inRange lim h name (past @ cur)" "holdsMeta h name past cur t"
  shows "readHeader t = Done (batchHead h past cur) t"
proof -
  obtain junk where "metaBuf t = putMDHead (batchHead h past cur) @ (name @ concat (map putMDEntry (map fst cur)) @ junk)" "header t = Some 0"
    using assms(2) by (auto simp: holdsMeta_def batchFile_def)
  then show ?thesis using mdHead.at_start [OF inRange_head(1) [OF assms(1)]] by (simp add: readHeader_def)
qed

text \<open>Changing the counters of a header that is in place.\<close>

lemma updHeader_run:
  assumes "structAt 48 getMDHead (metaBuf t) 0 = Some hd0" "header t = Some 0" "metaBuf t = putMDHead hd0 @ post" "okMDHead hd0" "okMDHead (f hd0)"
  shows "updHeader f t = Done () (t\<lparr>metaBuf := putMDHead (f hd0) @ post\<rparr>)"
  using assms mdHead.length_put [OF assms(4)] mdHead.length_put [OF assms(5)]
  by (simp add: updHeader_def readHeader_def writeAt_def)

lemma overlay_end: "overlay (length a) b (a @ c) = a @ b @ drop (length b) c"
  by (simp add: overlay_def)

lemma addShare_run:
  assumes rng: "inRange lim h name (past @ cur @ [x])" and hold: "holdsMeta h name past cur t" "holdsData cur t"
    and fits: "int (sharesLen (cur @ [x])) \<le> UPLOAD_BUFFER_SIZE" "int (48 + length name + 44 * Suc (length cur)) \<le> UPLOAD_BUFFER_SIZE"
  obtains t' where "addShare (fst x) (snd x) t = Done () t'" "holdsMeta h name past (cur @ [x]) t'" "holdsData (cur @ [x]) t'"
    "csock t' = csock t" "accuData t' = accuData t" "accuUnique t' = accuUnique t"
proof -
  have x: "goodShare lim x" "inRange lim h name (past @ cur)" "inRange lim h name (past @ (cur @ [x]))"
    using rng inRange_prefix [of lim h name "past @ cur" "[x]"] by (auto simp: inRange_def)
  have e: "length (putMDEntry (fst x)) = 44" "mde_shareSize (fst x) = int (length (snd x))"
    using mdEntry.length_put x(1) by (auto simp: goodShare_def)
  let ?pk = "packFile (batchFile h name past cur)"
  obtain j1 j2 j3 where t: "metaBuf t = ?pk @ j1" "metaWP t = length ?pk" "header t = Some 0"
    "container t = concat (map snd cur) @ j2" "containerWP t = length (concat (map snd cur))" "shareSizes t = map (int \<circ> length \<circ> snd) cur @ j3" "numShares t = length cur"
    using hold by (auto simp: holdsMeta_def holdsData_def sharesLen_def)
  define t4 where "t4 = t\<lparr>metaBuf := ?pk @ putMDEntry (fst x) @ drop 44 j1, metaWP := length ?pk + 44,
      container := concat (map snd (cur @ [x])) @ drop (length (snd x)) j2, containerWP := sharesLen (cur @ [x]),
      shareSizes := map (int \<circ> length \<circ> snd) (cur @ [x]) @ drop 1 j3, numShares := length (cur @ [x])\<rparr>"
  have fill: "bindO (putMeta (putMDEntry (fst x)) t) (\<lambda>_ t1. bindO (dataOf (mde_shareSize (fst x)) (snd x) t1) (\<lambda>share t2.
      bindO (putContainer share t2) (\<lambda>_ t3. bindO (recordSize (mde_shareSize (fst x)) t3) (\<lambda>_ t4. k t4)))) = k t4" for k :: "cloud \<Rightarrow> (unit, cloud) outcome"
  proof -
    have a: "overlay (length ?pk) (putMDEntry (fst x)) (?pk @ j1) = ?pk @ putMDEntry (fst x) @ drop 44 j1"
      "overlay (length (concat (map snd cur))) (snd x) (concat (map snd cur) @ j2) = concat (map snd (cur @ [x])) @ drop (length (snd x)) j2"
      using overlay_end [of ?pk] overlay_end [of "concat (map snd cur)"] e(1) by simp_all
    have b: "\<not> UPLOAD_BUFFER_SIZE < int (length ?pk + 44)" "\<not> UPLOAD_BUFFER_SIZE < int (length (concat (map snd cur)) + length (snd x))"
      "\<not> UPLOAD_BUFFER_SIZE \<le> int (length cur)"
      using fits batchFile_length [OF x(2)] by (simp_all add: sharesLen_def)
    show ?thesis
      using b unfolding putMeta_def dataOf_def putContainer_def recordSize_def t t4_def e
      by (simp add: a t sharesLen_def)
  qed
  let ?f = "\<lambda>h. h\<lparr>mdh_numOfComingSecrets := mdh_numOfComingSecrets h + 1, mdh_sizeOfComingSecrets := mdh_sizeOfComingSecrets h + mde_secretSize (fst x)\<rparr>"
  let ?post = "name @ concat (map putMDEntry (map fst cur)) @ putMDEntry (fst x) @ drop 44 j1"
  have f: "?f (batchHead h past cur) = batchHead h past (cur @ [x])" by (simp add: batchHead_def)
  have m4: "metaBuf t4 = putMDHead (batchHead h past cur) @ ?post" "header t4 = Some 0" by (simp_all add: t4_def batchFile_def t(3))
  have "updHeader ?f t4 = Done () (t4\<lparr>metaBuf := putMDHead (?f (batchHead h past cur)) @ ?post\<rparr>)"
    by (rule updHeader_run) (use m4 inRange_head(1) [OF x(2)] inRange_head(1) [OF x(3)] f in \<open>simp_all add: mdHead.at_start\<close>)
  then have "addShare (fst x) (snd x) t = Done () (t4\<lparr>metaBuf := putMDHead (batchHead h past (cur @ [x])) @ ?post\<rparr>)"
    unfolding addShare_def fill f .
  then show ?thesis
    by (rule that)
       (use batchFile_length [OF x(2)] batchFile_length [OF x(3)] t(3) in \<open>auto simp: holdsMeta_def holdsData_def t4_def batchFile_def\<close>)
qed

lemma updateHeader_run:
  assumes rng: "inRange lim h name (past @ cur)" and hold: "holdsMeta h name past cur t" and fits: "int (48 + length name) \<le> UPLOAD_BUFFER_SIZE"
  obtains t' where "updateHeader t = Done () t'" "holdsMeta h name (past @ cur) [] t'" "holdsData [] t'"
    "csock t' = csock t" "accuData t' = accuData t" "accuUnique t' = accuUnique t"
proof -
  let ?f = "\<lambda>h. h\<lparr>mdh_numOfPastSecrets := mdh_numOfPastSecrets h + mdh_numOfComingSecrets h,
      mdh_sizeOfPastSecrets := mdh_sizeOfPastSecrets h + mdh_sizeOfComingSecrets h, mdh_numOfComingSecrets := 0, mdh_sizeOfComingSecrets := 0\<rparr>"
  have f: "?f (batchHead h past cur) = batchHead h (past @ cur) []" by (simp add: batchHead_def)
  have ok: "okMDHead (batchHead h past cur)" "okMDHead (batchHead h (past @ cur) [])"
    using inRange_head(1) [OF rng] inRange_head(1) [of lim h name "past @ cur" "[]"] rng by simp_all
  obtain junk where m: "metaBuf t = putMDHead (batchHead h past cur) @ (name @ junk)" "header t = Some 0"
    using hold by (auto simp: holdsMeta_def batchFile_def)
  have "updHeader ?f t = Done () (t\<lparr>metaBuf := putMDHead (?f (batchHead h past cur)) @ (name @ junk)\<rparr>)"
    by (rule updHeader_run) (use m ok f in \<open>simp_all add: mdHead.at_start\<close>)
  moreover have n: "mdh_fullNameSize (batchHead h past cur) = int (length name)" using rng by (simp add: batchHead_def inRange_def)
  moreover have "slice 0 (nat (48 + int (length name))) (putMDHead (batchHead h (past @ cur) []) @ name @ junk) = putMDHead (batchHead h (past @ cur) []) @ name"
    using mdHead.length_put [OF ok(2)] by (simp add: slice_def nat_add_distrib)
  ultimately have "updateHeader t = Done () (t\<lparr>metaBuf := (putMDHead (batchHead h (past @ cur) []) @ name) @ junk,
      containerWP := 0, metaWP := 48 + length name, numShares := 0\<rparr>)"
    using readHeader_run [OF rng hold] m(2) f fits mdHead.length_put [OF ok(2)]
    by (simp add: updateHeader_def putMeta_def Let_def)
  then show ?thesis
    by (rule that) (use mdHead.length_put [OF ok(2)] m(2) in \<open>simp_all add: holdsMeta_def holdsData_def batchFile_def\<close>)
qed

lemma header_run:
  assumes "inRange lim h name []" "h = batchHead h [] []" "int (48 + length name) \<le> UPLOAD_BUFFER_SIZE"
  obtains t' where "uploadItem W lim (FileHeader h (name @ junk)) (mkCloud k) = Some (Done False t')" "holdsMeta h name [] [] t'" "holdsData [] t'"
    "csock t' = k" "accuData t' = 0" "accuUnique t' = 0"
proof -
  have l: "length (putMDHead h) = 48" "mdh_fullNameSize h = int (length name)" using assms(1) mdHead.length_put by (auto simp: inRange_def)
  have "uploadItem W lim (FileHeader h (name @ junk)) (mkCloud k) = Some (Done False ((mkCloud k)\<lparr>header := Some 0, metaBuf := putMDHead h @ name, metaWP := 48 + length name\<rparr>))"
    using l assms(3) by (simp add: uploadItem_def putMeta_def dataOf_def mkCloud_def overlay_def)
  then show ?thesis
    by (rule that) (use l assms(2) in \<open>simp_all add: holdsMeta_def holdsData_def batchFile_def mkCloud_def\<close>)
qed

section \<open>The loop uploads the batches\<close>

lemma batches_nonempty [simp]: "batches cap cur xs \<noteq> []"
  by (induction xs arbitrary: cur) simp_all

lemma batches_concat: "concat (batches cap cur xs) = cur @ xs"
  by (induction xs arbitrary: cur) simp_all

lemma batches_first: "\<exists>ys bs. batches cap cur xs = (cur @ ys) # bs"
proof (induction xs arbitrary: cur)
  case (Cons x xs)
  show ?case
  proof (cases "cap < sharesLen cur + length (snd x)")
    case False
    then show ?thesis using Cons [of "cur @ [x]"] by auto
  qed simp
qed simp

abbreviation cap :: nat where
  "cap \<equiv> nat UPLOAD_BUFFER_SIZE"

definition totalWanted :: "bool list list \<Rightarrow> share list list \<Rightarrow> int" where
  "totalWanted flagss bs = int (length (concat (map2 wantedData flagss bs)))"

lemma shareItems_Cons: "shareItems (x # xs) = ShareObject (xs = []) (fst x) (snd x) # shareItems xs"
  by (cases x; cases xs) simp_all

text \<open>The server's replies that a thread still waits for, one for each batch.\<close>

definition repliesTo :: "share list list \<Rightarrow> bool list list \<Rightarrow> bytes \<Rightarrow> cloud \<Rightarrow> bool" where
  "repliesTo bs flagss rest t \<longleftrightarrow> map length flagss = map length bs \<and> rx_in (so_rx (csock t)) = concat (concat (map statReply flagss)) @ rest"

lemma repliesTo_Cons:
  assumes "repliesTo (b # bs) flagss rest t"
  obtains f fs where "flagss = f # fs" "length f = length b" "map length fs = map length bs"
    "rx_in (so_rx (csock t)) = concat (statReply f) @ (concat (concat (map statReply fs)) @ rest)"
  using assms by (cases flagss) (auto simp: repliesTo_def)

lemma share_run:
  assumes W: "sendsWhole W" "whole (net_recv W)" and rng: "inRange lim h name (past @ cur @ x # xs)" and lim: "lim \<le> UPLOAD_BUFFER_SIZE"
    and hold: "holdsMeta h name past cur t" "holdsData cur t" and cur: "int (sharesLen cur) \<le> UPLOAD_BUFFER_SIZE"
    and fits: "\<forall>b\<in>set (batches cap cur (x # xs)). int (48 + length name + 44 * length b) \<le> UPLOAD_BUFFER_SIZE"
    and replies: "repliesTo (batches cap cur (x # xs)) flagss rest t"
  obtains past' cur' flagss' t' where
    "bindP (if UPLOAD_BUFFER_SIZE < mde_shareSize (fst x) + int (containerWP t)
         then bindP (performUpload W lim t) (\<lambda>_ t1. Some (updateHeader t1)) id else Some (Done () t))
       (\<lambda>_ t1. Some (addShare (fst x) (snd x) t1)) id = Some (Done () t')"
    "past' @ cur' = past @ cur @ [x]" "holdsMeta h name past' cur' t'" "holdsData cur' t'" "int (sharesLen cur') \<le> UPLOAD_BUFFER_SIZE"
    "set (batches cap cur' xs) \<subseteq> set (batches cap cur (x # xs))" "repliesTo (batches cap cur' xs) flagss' rest t'"
    "so_out (csock t') @ uploadsOf h name past' (batches cap cur' xs) flagss' = so_out (csock t) @ uploadsOf h name past (batches cap cur (x # xs)) flagss"
    "accuData t' + int (sharesLen (cur' @ xs)) = accuData t + int (sharesLen (cur @ x # xs))"
    "accuUnique t' + totalWanted flagss' (batches cap cur' xs) = accuUnique t + totalWanted flagss (batches cap cur (x # xs))"
proof -
  have x: "goodShare lim x" "mde_shareSize (fst x) = int (length (snd x))" using rng by (auto simp: inRange_def goodShare_def)
  have rng1: "inRange lim h name (past @ cur @ [x])" using inRange_prefix [of lim h name "past @ cur @ [x]" xs] rng by simp
  have rng2: "inRange lim h name (past @ cur)" using inRange_prefix [of lim h name "past @ cur" "[x]"] rng1 by simp
  have wp: "containerWP t = sharesLen cur" using hold(2) by (simp add: holdsData_def)
  have upl: "(UPLOAD_BUFFER_SIZE < mde_shareSize (fst x) + int (containerWP t)) = (cap < sharesLen cur + length (snd x))"
    using x(2) wp by (simp add: UPLOAD_BUFFER_SIZE_def) linarith
  show ?thesis
  proof (cases "cap < sharesLen cur + length (snd x)")
    case True
    have bs: "batches cap cur (x # xs) = cur # batches cap [x] xs" using True by simp
    obtain f fs where f: "flagss = f # fs" "length f = length cur" "map length fs = map length (batches cap [x] xs)"
      "rx_in (so_rx (csock t)) = concat (statReply f) @ (concat (concat (map statReply fs)) @ rest)"
      using replies unfolding bs by (rule repliesTo_Cons)
    have good: "\<forall>x\<in>set cur. goodShare lim x" "int (length cur) < 2147483646" using rng2 by (auto simp: inRange_def)
    obtain c d e where up: "performUpload W lim t = Some (Done () (t\<lparr>container := c,
      accuData := accuData t + int (sharesLen cur), accuUnique := accuUnique t + int (length (wantedData f cur)),
      csock := \<lparr> so_rx = \<lparr> rx_in = concat (concat (map statReply fs)) @ rest, rx_calls = d \<rparr>,
        so_out = so_out (csock t) @ packageMsg META (packFile (batchFile h name past cur)) @ packageMsg DATA (wantedData f cur), so_sends = e \<rparr>\<rparr>))" (is "_ = Some (Done () ?t1)")
      using performUpload_run [OF W good(1) hold f(2) good(2) f(4)] by blast
    have hold1: "holdsMeta h name past cur ?t1" using hold(1) by (simp add: holdsMeta_def)
    have fit1: "int (48 + length name) \<le> UPLOAD_BUFFER_SIZE" using fits bs by simp
    obtain t2 where t2: "updateHeader ?t1 = Done () t2" "holdsMeta h name (past @ cur) [] t2" "holdsData [] t2" "csock t2 = csock ?t1" "accuData t2 = accuData ?t1" "accuUnique t2 = accuUnique ?t1"
      by (rule updateHeader_run [OF rng2 hold1 fit1])
    have rng3: "inRange lim h name ((past @ cur) @ [] @ [x])" using rng1 by simp
    have fit2: "int (sharesLen ([] @ [x])) \<le> UPLOAD_BUFFER_SIZE" using x(1) lim by (simp add: goodShare_def)
    have fit3: "int (48 + length name + 44 * Suc (length ([] :: share list))) \<le> UPLOAD_BUFFER_SIZE"
      using fits bs batches_first [of cap "[x]" xs] by force
    obtain t3 where t3: "addShare (fst x) (snd x) t2 = Done () t3" "holdsMeta h name (past @ cur) ([] @ [x]) t3" "holdsData ([] @ [x]) t3"
      "csock t3 = csock t2" "accuData t3 = accuData t2" "accuUnique t3 = accuUnique t2"
      by (rule addShare_run [OF rng3 t2(2,3) fit2 fit3])
    show ?thesis
      by (rule that [of t3 "past @ cur" "[x]" fs])
         (use True upl up t2 t3 bs f(1,3) fit2 in \<open>auto simp: repliesTo_def totalWanted_def\<close>)
  next
    case False
    have bs: "batches cap cur (x # xs) = batches cap (cur @ [x]) xs" using False by simp
    have fit2: "int (sharesLen (cur @ [x])) \<le> UPLOAD_BUFFER_SIZE" using False by (simp add: UPLOAD_BUFFER_SIZE_def)
    have fit3: "int (48 + length name + 44 * Suc (length cur)) \<le> UPLOAD_BUFFER_SIZE"
      using fits bs batches_first [of cap "cur @ [x]" xs] by force
    obtain t3 where t3: "addShare (fst x) (snd x) t = Done () t3" "holdsMeta h name past (cur @ [x]) t3" "holdsData (cur @ [x]) t3"
      "csock t3 = csock t" "accuData t3 = accuData t" "accuUnique t3 = accuUnique t"
      by (rule addShare_run [OF rng1 hold fit2 fit3])
    show ?thesis
      by (rule that [of t3 past "cur @ [x]" flagss]) (use False upl t3 bs replies fit2 in \<open>auto simp: repliesTo_def\<close>)
  qed
qed

lemma bindP_then:
  assumes "bindP r (\<lambda>_ s. Some (f s)) id = Some (Done () s2)"
  shows "bindP r (\<lambda>_ s. bindP (Some (f s)) (\<lambda>_ s. g s) id) id = g s2"
proof (cases r)
  case (Some o1)
  then show ?thesis using assms by (cases o1) simp_all
qed (use assms in simp)

lemma uploadLoop_run:
  assumes W: "sendsWhole W" "whole (net_recv W)" and lim: "lim \<le> UPLOAD_BUFFER_SIZE"
  shows "\<lbrakk>xs \<noteq> []; inRange lim h name (past @ cur @ xs); holdsMeta h name past cur t; holdsData cur t; int (sharesLen cur) \<le> UPLOAD_BUFFER_SIZE;
      \<forall>b\<in>set (batches cap cur xs). int (48 + length name + 44 * length b) \<le> UPLOAD_BUFFER_SIZE;
      repliesTo (batches cap cur xs) flagss rest t\<rbrakk> \<Longrightarrow>
    \<exists>t'. uploadLoop W lim (shareItems xs) t = Some (Done () t') \<and>
      so_out (csock t') = so_out (csock t) @ uploadsOf h name past (batches cap cur xs) flagss \<and>
      rx_in (so_rx (csock t')) = rest \<and> accuData t' = accuData t + int (sharesLen (cur @ xs)) \<and>
      accuUnique t' = accuUnique t + totalWanted flagss (batches cap cur xs)"
proof (induction xs arbitrary: past cur t flagss)
  case (Cons x xs)
  obtain past' cur' flagss' t2 where step:
    "bindP (if UPLOAD_BUFFER_SIZE < mde_shareSize (fst x) + int (containerWP t)
         then bindP (performUpload W lim t) (\<lambda>_ t1. Some (updateHeader t1)) id else Some (Done () t))
       (\<lambda>_ t1. Some (addShare (fst x) (snd x) t1)) id = Some (Done () t2)"
    "past' @ cur' = past @ cur @ [x]" "holdsMeta h name past' cur' t2" "holdsData cur' t2" "int (sharesLen cur') \<le> UPLOAD_BUFFER_SIZE"
    "set (batches cap cur' xs) \<subseteq> set (batches cap cur (x # xs))" "repliesTo (batches cap cur' xs) flagss' rest t2"
    "so_out (csock t2) @ uploadsOf h name past' (batches cap cur' xs) flagss' = so_out (csock t) @ uploadsOf h name past (batches cap cur (x # xs)) flagss"
    "accuData t2 + int (sharesLen (cur' @ xs)) = accuData t + int (sharesLen (cur @ x # xs))"
    "accuUnique t2 + totalWanted flagss' (batches cap cur' xs) = accuUnique t + totalWanted flagss (batches cap cur (x # xs))"
    by (rule share_run [OF W Cons.prems(2) lim Cons.prems(3-7)])
  have item: "uploadItem W lim (ShareObject fin (fst x) (snd x)) t =
      (if fin then bindP (performUpload W lim t2) (\<lambda>_ t3. Some (Done True t3)) id else Some (Done False t2))" for fin
    unfolding uploadItem_def up_item.case using step(1) by (rule bindP_then)
  show ?case
  proof (cases "xs = []")
    case True
    then have one: "batches cap cur' xs = [cur']" by simp
    obtain f fs where f: "flagss' = f # fs" "length f = length cur'" "map length fs = map length ([] :: share list list)"
      "rx_in (so_rx (csock t2)) = concat (statReply f) @ (concat (concat (map statReply fs)) @ rest)"
      using step(7) unfolding one by (rule repliesTo_Cons)
    have "inRange lim h name (past' @ cur')" using Cons.prems(2) step(2) True by simp
    then have good: "\<forall>x\<in>set cur'. goodShare lim x" "int (length cur') < 2147483646" by (auto simp: inRange_def)
    show ?thesis
      using performUpload_run [OF W good(1) step(3,4) f(2) good(2) f(4)] item [of True] step(8-10) f(1,3) one True
      by (auto simp: shareItems_Cons totalWanted_def)
  next
    case False
    have rng: "inRange lim h name (past' @ cur' @ xs)" using Cons.prems(2) step(2) by (metis append.assoc append_Cons append_Nil)
    have fits: "\<forall>b\<in>set (batches cap cur' xs). int (48 + length name + 44 * length b) \<le> UPLOAD_BUFFER_SIZE" using Cons.prems(6) step(6) by blast
    obtain t' where t': "uploadLoop W lim (shareItems xs) t2 = Some (Done () t')"
      "so_out (csock t') = so_out (csock t2) @ uploadsOf h name past' (batches cap cur' xs) flagss'" "rx_in (so_rx (csock t')) = rest"
      "accuData t' = accuData t2 + int (sharesLen (cur' @ xs))" "accuUnique t' = accuUnique t2 + totalWanted flagss' (batches cap cur' xs)"
      using Cons.IH [OF False rng step(3,4,5) fits step(7)] by blast
    have "uploadLoop W lim (shareItems (x # xs)) t = Some (Done () t')" using item [of False] False t'(1) by (simp add: shareItems_Cons)
    then show ?thesis using t'(2-5) step(8-10) by simp
  qed
qed simp

text \<open>Batches are not empty and fit the container.\<close>

lemma batches_fit:
  assumes "sharesLen cur \<le> n" "\<forall>x\<in>set xs. length (snd x) \<le> n" "cur \<noteq> [] \<or> xs \<noteq> []" "b \<in> set (batches n cur xs)"
  shows "b \<noteq> [] \<and> sharesLen b \<le> n"
  using assms
proof (induction xs arbitrary: cur)
  case (Cons x xs)
  show ?case
  proof (cases "n < sharesLen cur + length (snd x)")
    case True
    then have "cur \<noteq> []" using Cons.prems(2) by auto
    then show ?thesis using True Cons.prems Cons.IH [of "[x]"] by auto
  next
    case False
    then show ?thesis using Cons.prems Cons.IH [of "cur @ [x]"] by simp
  qed
qed simp

lemma thread_run:
  assumes W: "sendsWhole W" "whole (net_recv W)" and rng: "inRange RING_BUFFER_DATA_SIZE h name xs" "h = batchHead h [] []" "xs \<noteq> []"
    and fits: "\<forall>b\<in>set (batches cap [] xs). int (48 + length name + 44 * length b) \<le> UPLOAD_BUFFER_SIZE"
    and flags: "map length flagss = map length (batches cap [] xs)"
  obtains t' where "thread_handler W (FileHeader h (name @ junk) # shareItems xs) (mkCloud (mkSocket W u (concat (concat (map statReply flagss)) @ rest))) = Some (Done () t')"
    "so_out (csock t') = userMsg u @ uploadsOf h name [] (batches cap [] xs) flagss" "rx_in (so_rx (csock t')) = rest"
    "accuData t' = int (sharesLen xs)" "accuUnique t' = totalWanted flagss (batches cap [] xs)"
proof -
  let ?k = "mkSocket W u (concat (concat (map statReply flagss)) @ rest)"
  have h0: "inRange RING_BUFFER_DATA_SIZE h name []" using inRange_prefix [of _ h name "[]" xs] rng(1) by simp
  have fit0: "int (48 + length name) \<le> UPLOAD_BUFFER_SIZE" using fits batches_first [of cap "[]" xs] by force
  obtain t1 where t1: "uploadItem W RING_BUFFER_DATA_SIZE (FileHeader h (name @ junk)) (mkCloud ?k) = Some (Done False t1)" "holdsMeta h name [] [] t1" "holdsData [] t1"
    "csock t1 = ?k" "accuData t1 = 0" "accuUnique t1 = 0"
    by (rule header_run [OF h0 rng(2) fit0, where W = W and k = ?k and junk = junk])
  have lim: "RING_BUFFER_DATA_SIZE \<le> UPLOAD_BUFFER_SIZE" "int (sharesLen []) \<le> UPLOAD_BUFFER_SIZE" by (simp_all add: RING_BUFFER_DATA_SIZE_def UPLOAD_BUFFER_SIZE_def)
  have rng': "inRange RING_BUFFER_DATA_SIZE h name ([] @ [] @ xs)" using rng(1) by simp
  have "repliesTo (batches cap [] xs) flagss rest t1" using flags t1(4) by (simp add: repliesTo_def mkSocket_whole [OF W(1)])
  then obtain t' where "uploadLoop W RING_BUFFER_DATA_SIZE (shareItems xs) t1 = Some (Done () t')"
    "so_out (csock t') = so_out (csock t1) @ uploadsOf h name [] (batches cap [] xs) flagss" "rx_in (so_rx (csock t')) = rest"
    "accuData t' = accuData t1 + int (sharesLen ([] @ xs))" "accuUnique t' = accuUnique t1 + totalWanted flagss (batches cap [] xs)"
    using uploadLoop_run [OF W lim(1) rng(3) rng' t1(2,3) lim(2) fits] by blast
  then show ?thesis using that t1 by (simp add: thread_handler_def mkSocket_whole [OF W(1)])
qed

section \<open>Properties\<close>

text \<open>
  C36. What the uploader sends to a data server is well formed. For a file header and any number of shares that fit a ring
  buffer object, with the server's replies, whatever they ask for, and a connection that takes small fields
  whole, the thread ends and has sent, for each batch of shares, a metadata package and the data of exactly the shares the server
  does not have. The batches are the shares in order, none is empty and each fits the container; each package is a well-formed
  file for the server's parser, with a header that counts the shares sent before and now; and the accumulated sizes are
  those of all and of the sent shares.
\<close>

theorem uploader_packages_well_formed:
  assumes "sendsWhole W" "whole (net_recv W)" and "inRange RING_BUFFER_DATA_SIZE h name xs" "h = batchHead h [] []" "xs \<noteq> []"
    and "bs = batches cap [] xs" "\<forall>b\<in>set bs. int (48 + length name + 44 * length b) \<le> UPLOAD_BUFFER_SIZE"
    and "map length flagss = map length bs"
  shows "(\<exists>t'. thread_handler W (FileHeader h (name @ junk) # shareItems xs) (mkCloud (mkSocket W u (concat (concat (map statReply flagss))))) = Some (Done () t') \<and>
      so_out (csock t') = userMsg u @ uploadsOf h name [] bs flagss \<and>
      accuData t' = int (sharesLen xs) \<and> accuUnique t' = totalWanted flagss bs) \<and>
    concat bs = xs \<and>
    (\<forall>ps b qs. bs = ps @ b # qs \<longrightarrow> b \<noteq> [] \<and> int (sharesLen b) \<le> UPLOAD_BUFFER_SIZE \<and> okFile (batchFile h name (concat ps) b) \<and>
      mdh_numOfPastSecrets (fst (batchFile h name (concat ps) b)) = int (length (concat ps)) \<and>
      int (length (packFile (batchFile h name (concat ps) b))) \<le> UPLOAD_BUFFER_SIZE)"
proof (intro conjI allI impI)
  obtain t' where "thread_handler W (FileHeader h (name @ junk) # shareItems xs) (mkCloud (mkSocket W u (concat (concat (map statReply flagss)) @ []))) = Some (Done () t')"
    "so_out (csock t') = userMsg u @ uploadsOf h name [] (batches cap [] xs) flagss"
    "accuData t' = int (sharesLen xs)" "accuUnique t' = totalWanted flagss (batches cap [] xs)"
    by (rule thread_run [OF assms(1-5), of flagss junk u "[]"]) (use assms(6-8) in simp_all)
  then show "\<exists>t'. thread_handler W (FileHeader h (name @ junk) # shareItems xs) (mkCloud (mkSocket W u (concat (concat (map statReply flagss))))) = Some (Done () t') \<and>
      so_out (csock t') = userMsg u @ uploadsOf h name [] bs flagss \<and> accuData t' = int (sharesLen xs) \<and> accuUnique t' = totalWanted flagss bs"
    using assms(6) by auto
  show all: "concat bs = xs" using assms(6) batches_concat by simp
  fix ps b qs
  assume bs: "bs = ps @ b # qs"
  then have "b \<in> set (batches cap [] xs)" using assms(6) by (metis in_set_conv_decomp)
  then have b: "b \<noteq> [] \<and> sharesLen b \<le> cap"
    by (intro batches_fit [of "[]" cap xs])
       (use assms(3,5) in \<open>auto simp: inRange_def goodShare_def RING_BUFFER_DATA_SIZE_def UPLOAD_BUFFER_SIZE_def\<close>)
  then show "b \<noteq> []" "int (sharesLen b) \<le> UPLOAD_BUFFER_SIZE" by (auto simp: UPLOAD_BUFFER_SIZE_def)
  have "xs = (concat ps @ b) @ concat qs" using all bs by simp
  then have rng: "inRange RING_BUFFER_DATA_SIZE h name (concat ps @ b)" using inRange_prefix [of _ h name "concat ps @ b" "concat qs"] assms(3) by simp
  show "okFile (batchFile h name (concat ps) b)" by (rule inRange_head(2) [OF rng])
  show "mdh_numOfPastSecrets (fst (batchFile h name (concat ps) b)) = int (length (concat ps))" by (simp add: batchFile_def batchHead_def)
  show "int (length (packFile (batchFile h name (concat ps) b))) \<le> UPLOAD_BUFFER_SIZE" using batchFile_length [OF rng] assms(7) bs by simp
qed

section \<open>The uploader and the data server\<close>

lemma wantedData_fits:
  assumes "length flags = length b" "\<forall>x\<in>set b. goodShare lim x \<and> generateHash ssl c (snd x) = Inr (mde_shareFP (fst x))"
  shows "wanted (zip flags (map fst b)) = int (length (wantedData flags b)) \<and> sharesIn ssl c (zip flags (map fst b)) (wantedData flags b)"
  using assms by (induction flags b rule: list_induct2) (auto simp: goodShare_def)

lemma wantedData_length: "length (wantedData fs xs) \<le> sharesLen xs"
  by (induction fs xs rule: list_induct2') auto

text \<open>The data server serves one batch, and then all of them.\<close>

lemma batch_served:
  assumes inv: "storeInv ssl c s" "tailOk s" and fixed: "int32 u" "0 < u" "faultless E" "whole N" "crypto_valid ssl c" "hashSize c = 32"
    and named: "formatFullFileName name \<noteq> None" "lim \<le> CONTAINER_BUFFER_SIZE" and rng: "inRange lim h name (past @ b)"
    and room: "nameVal (globalShareContainerName s) + Suc (length b) < 26 ^ 12"
    and len: "int (sharesLen b) \<le> BUFFER_LEN" "int (48 + length name + 44 * length b) \<le> META_LEN"
    and hash: "\<forall>x\<in>set b. generateHash ssl c (snd x) = Inr (mde_shareFP (fst x))"
  obtains flags s' where "length flags = length b" "storeInv ssl c s'" "tailOk s'" "sent s' = sent s @ statReply flags" "grows s s'" "keepsPlaces s s'"
    "\<forall>x\<in>set b. db s' (shareFP2IndexKey (mde_shareFP (fst x))) \<noteq> None"
    "nameVal (globalShareContainerName s') \<le> nameVal (globalShareContainerName s) + Suc (length b)"
    "\<forall>hd rest. inboxOf hd = uploadsOf h name past [b] [flags] @ rest \<longrightarrow>
       (\<exists>hd'. dataLoop N E sh ssl c u (hd, s) = dataLoop N E sh ssl c u (hd', s') \<and> inboxOf hd' = rest)"
proof -
  let ?f = "batchFile h name past b"
  define flags where "flags = map (\<lambda>e. owns (absIndex s) (mde_shareFP e) u) (entriesOf [?f])"
  have good: "\<forall>x\<in>set b. goodShare lim x \<and> generateHash ssl c (snd x) = Inr (mde_shareFP (fst x))" using hash rng by (auto simp: inRange_def)
  have ent: "entriesOf [?f] = map fst b" "length flags = length b" by (simp_all add: batchFile_def flags_def)
  have fit: "\<forall>f\<in>set [?f]. fitFile f \<and> formatFullFileName (fst (snd f)) \<noteq> None"
    using inRange_head(2) [OF rng] good named by (auto simp: fitFile_def fitEntry_def goodShare_def batchFile_def)
  have small: "int (length (packageOf [?f])) \<le> META_LEN" "int (length (wantedData flags b)) \<le> BUFFER_LEN"
    using batchFile_length [OF rng] len wantedData_length [of flags b] by (simp_all add: packageOf_def)
  have dat: "wanted (zip flags (entriesOf [?f])) \<le> int (length (wantedData flags b))" "sharesIn ssl c (zip flags (entriesOf [?f])) (wantedData flags b)"
    using wantedData_fits [OF ent(2) good] ent(1) by simp_all
  have room': "nameVal (globalShareContainerName s) + Suc (length (entriesOf [?f])) < 26 ^ 12" using room ent(1) by simp
  obtain s' where s': "\<forall>hd rest. inboxOf hd = packageMsg META (packageOf [?f]) @ packageMsg DATA (wantedData flags b) @ rest \<longrightarrow>
       (\<exists>hd'. dataLoop N E sh ssl c u (hd, s) = dataLoop N E sh ssl c u (hd', s') \<and> inboxOf hd' = rest)"
    "storeInv ssl c s'" "tailOk s'" "sent s' = sent s @ statReply flags" "grows s s'" "keepsPlaces s s'"
    "\<forall>e\<in>set (entriesOf [?f]). db s' (shareFP2IndexKey (mde_shareFP e)) \<noteq> None"
    "nameVal (globalShareContainerName s') \<le> nameVal (globalShareContainerName s) + Suc (length (entriesOf [?f]))"
    by (rule data_round [OF inv fixed fit room' flags_def dat small, of sh])
  show thesis
    by (rule that [OF ent(2) s'(2-6)]) (use s'(1,7,8) ent(1) in \<open>simp_all add: packageOf_def\<close>)
qed

lemma uploads_served:
  assumes fixed: "int32 u" "0 < u" "faultless E" "whole N" "crypto_valid ssl c" "hashSize c = 32" "formatFullFileName name \<noteq> None" "lim \<le> CONTAINER_BUFFER_SIZE"
  shows "\<lbrakk>storeInv ssl c s; tailOk s; nameVal (globalShareContainerName s) + length bs + length (concat bs) < 26 ^ 12; inRange lim h name (past @ concat bs);
     \<forall>b\<in>set bs. int (sharesLen b) \<le> BUFFER_LEN \<and> int (48 + length name + 44 * length b) \<le> META_LEN;
     \<forall>x\<in>set (concat bs). generateHash ssl c (snd x) = Inr (mde_shareFP (fst x))\<rbrakk> \<Longrightarrow>
   \<exists>flagss s'. map length flagss = map length bs \<and> storeInv ssl c s' \<and> tailOk s' \<and> sent s' = sent s @ concat (map statReply flagss) \<and>
     grows s s' \<and> keepsPlaces s s' \<and> (\<forall>x\<in>set (concat bs). db s' (shareFP2IndexKey (mde_shareFP (fst x))) \<noteq> None) \<and>
     (\<forall>hd rest. inboxOf hd = uploadsOf h name past bs flagss @ rest \<longrightarrow>
       (\<exists>hd'. dataLoop N E sh ssl c u (hd, s) = dataLoop N E sh ssl c u (hd', s') \<and> inboxOf hd' = rest))"
proof (induction bs arbitrary: past s)
  case Nil
  show ?case by (rule exI [of _ "[]"], rule exI [of _ s]) (use Nil in auto)
next
  case (Cons b bs)
  have rng: "inRange lim h name (past @ b)" "inRange lim h name ((past @ b) @ concat bs)"
    using inRange_prefix [of lim h name "past @ b" "concat bs"] Cons.prems(4) by simp_all
  obtain flags s1 where s1: "length flags = length b" "storeInv ssl c s1" "tailOk s1" "sent s1 = sent s @ statReply flags" "grows s s1" "keepsPlaces s s1"
    "\<forall>x\<in>set b. db s1 (shareFP2IndexKey (mde_shareFP (fst x))) \<noteq> None"
    "nameVal (globalShareContainerName s1) \<le> nameVal (globalShareContainerName s) + Suc (length b)"
    "\<forall>hd rest. inboxOf hd = uploadsOf h name past [b] [flags] @ rest \<longrightarrow>
       (\<exists>hd'. dataLoop N E sh ssl c u (hd, s) = dataLoop N E sh ssl c u (hd', s1) \<and> inboxOf hd' = rest)"
    by (rule batch_served [OF Cons.prems(1,2) fixed rng(1), of sh]) (use Cons.prems(3,5,6) in auto)
  have nm: "nameVal (globalShareContainerName s1) + length bs + length (concat bs) < 26 ^ 12" using s1(8) Cons.prems(3) by simp
  obtain fs s2 where s2: "map length fs = map length bs" "storeInv ssl c s2" "tailOk s2" "sent s2 = sent s1 @ concat (map statReply fs)"
    "grows s1 s2" "keepsPlaces s1 s2" "\<forall>x\<in>set (concat bs). db s2 (shareFP2IndexKey (mde_shareFP (fst x))) \<noteq> None"
    "\<forall>hd rest. inboxOf hd = uploadsOf h name (past @ b) bs fs @ rest \<longrightarrow>
       (\<exists>hd'. dataLoop N E sh ssl c u (hd, s1) = dataLoop N E sh ssl c u (hd', s2) \<and> inboxOf hd' = rest)"
    using Cons.IH [OF s1(2,3) nm rng(2)] Cons.prems(5,6) by auto
  have loop: "\<exists>hd'. dataLoop N E sh ssl c u (hd, s) = dataLoop N E sh ssl c u (hd', s2) \<and> inboxOf hd' = rest"
    if "inboxOf hd = uploadsOf h name past (b # bs) (flags # fs) @ rest" for hd rest
  proof -
    have "inboxOf hd = uploadsOf h name past [b] [flags] @ (uploadsOf h name (past @ b) bs fs @ rest)" using that by simp
    then show ?thesis using s1(9) s2(8) by metis
  qed
  have stored: "db s2 (shareFP2IndexKey (mde_shareFP (fst x))) \<noteq> None" if "x \<in> set (concat (b # bs))" for x
    using that s1(7) s2(7) keepsPlaces_db [OF s2(6)] by fastforce
  show ?case
    by (rule exI [of _ "flags # fs"], rule exI [of _ s2], intro conjI)
       (use s1(1) s2(1-4) s1(4) grows_trans [OF s1(5) s2(5)] keepsPlaces_trans [OF s1(6) s2(6)] loop stored in simp_all)
qed

text \<open>
  C33. The client's uploader and the data server together. For every file header and non-empty list of shares with the
  fingerprints of their data there are a stream of replies and a stream of requests such that the uploader thread,
  reading those replies, ends having sent those requests, and the handler of the data server, reading those requests,
  ends having sent those replies: neither waits for the other for ever. Then the server has, for every share of the
  client, bytes with the share's fingerprint, and what it had before is unchanged. The requests are the announcements of the batches and the
  data of those shares that the flags in the replies ask for; the client has counted the bytes of all shares as data and exactly
  the bytes it sent as unique data. The connections deliver small fields whole and the server has no faults.
\<close>

theorem upload_reaches_server:
  assumes "sendsWhole W" "whole (net_recv W)" "whole N" "faultless E" "int32 u" "0 < u" "hashOfServer = Inr c" "evp_ok ssl"
    and "storeInv ssl c s" "tailOk s" "inRange RING_BUFFER_DATA_SIZE h name xs" "h = batchHead h [] []" "xs \<noteq> []" "formatFullFileName name \<noteq> None"
    and "bs = batches cap [] xs" "\<forall>b\<in>set bs. int (48 + length name + 44 * length b) \<le> META_LEN"
    and "nameVal (globalShareContainerName s) + length bs + length xs < 26 ^ 12"
    and "\<forall>x\<in>set xs. generateHash ssl c (snd x) = Inr (mde_shareFP (fst x))"
  shows "\<exists>flagss replies requests t' h' s'.
    thread_handler W (FileHeader h (name @ junk) # shareItems xs) (mkCloud (mkSocket W u replies)) = Some (Done () t') \<and>
    so_out (csock t') = requests \<and> replies = concat (concat (map statReply flagss)) \<and> requests = userMsg u @ uploadsOf h name [] bs flagss \<and>
    accuData t' = int (sharesLen xs) \<and> accuUnique t' = totalWanted flagss bs \<and>
    SocketHandlerData N E sh ssl requests s = Some (Done () (h', s')) \<and> concat (sent s') = concat (sent s) @ replies \<and> storeInv ssl c s' \<and>
    (\<forall>x\<in>set xs. \<exists>d. fetchShare s' (mde_shareFP (fst x)) = Some d \<and> generateHash ssl c d = Inr (mde_shareFP (fst x))) \<and>
    (\<forall>fp. db s (shareFP2IndexKey fp) \<noteq> None \<longrightarrow> fetchShare s' fp = fetchShare s fp)"
proof -
  have c: "crypto_valid ssl c" "hashSize c = 32"
    using assms(7,8) unfolding hashOfServer_def crypto_valid_def by (blast, auto simp: mkCrypto_def crypto_types)
  have lim: "RING_BUFFER_DATA_SIZE \<le> CONTAINER_BUFFER_SIZE" by (simp add: RING_BUFFER_DATA_SIZE_def CONTAINER_BUFFER_SIZE_def)
  have bs: "concat bs = xs" "\<forall>b\<in>set bs. int (sharesLen b) \<le> BUFFER_LEN \<and> int (48 + length name + 44 * length b) \<le> META_LEN"
    "\<forall>b\<in>set (batches cap [] xs). int (48 + length name + 44 * length b) \<le> UPLOAD_BUFFER_SIZE"
  proof -
    show "concat bs = xs" using assms(15) batches_concat by simp
    have "b \<in> set (batches cap [] xs) \<Longrightarrow> sharesLen b \<le> cap" for b
      by (rule conjunct2, rule batches_fit [of "[]" cap xs])
         (use assms(11,13) in \<open>auto simp: inRange_def goodShare_def RING_BUFFER_DATA_SIZE_def UPLOAD_BUFFER_SIZE_def\<close>)
    then show "\<forall>b\<in>set bs. int (sharesLen b) \<le> BUFFER_LEN \<and> int (48 + length name + 44 * length b) \<le> META_LEN"
      using assms(15,16) by (fastforce simp: BUFFER_LEN_def UPLOAD_BUFFER_SIZE_def)
    show "\<forall>b\<in>set (batches cap [] xs). int (48 + length name + 44 * length b) \<le> UPLOAD_BUFFER_SIZE"
      using assms(15,16) by (fastforce simp: META_LEN_def UPLOAD_BUFFER_SIZE_def)
  qed
  obtain flagss s' where s': "map length flagss = map length bs" "storeInv ssl c s'" "tailOk s'" "sent s' = sent s @ concat (map statReply flagss)"
    "grows s s'" "keepsPlaces s s'" "\<forall>x\<in>set xs. db s' (shareFP2IndexKey (mde_shareFP (fst x))) \<noteq> None"
    "\<forall>hd rest. inboxOf hd = uploadsOf h name [] bs flagss @ rest \<longrightarrow>
       (\<exists>hd'. dataLoop N E sh ssl c u (hd, s) = dataLoop N E sh ssl c u (hd', s') \<and> inboxOf hd' = rest)"
    using uploads_served [OF assms(5,6,4,3) c assms(14) lim assms(9,10), of bs h "[]" sh] assms(11,17,18) bs(1,2) by auto
  obtain t' where t': "thread_handler W (FileHeader h (name @ junk) # shareItems xs) (mkCloud (mkSocket W u (concat (concat (map statReply flagss)) @ []))) = Some (Done () t')"
    "so_out (csock t') = userMsg u @ uploadsOf h name [] (batches cap [] xs) flagss" "accuData t' = int (sharesLen xs)"
    "accuUnique t' = totalWanted flagss (batches cap [] xs)"
    by (rule thread_run [OF assms(1,2,11-13) bs(3), of flagss junk u "[]"]) (use assms(15) s'(1) in simp_all)
  obtain h0 where op: "openSession N (userMsg u @ uploadsOf h name [] bs flagss) = Done u h0" "inboxOf h0 = uploadsOf h name [] bs flagss @ []"
    using openSession_whole [OF assms(3,5), of "uploadsOf h name [] bs flagss"] by auto
  obtain h1 where h1: "dataLoop N E sh ssl c u (h0, s) = dataLoop N E sh ssl c u (h1, s')" "inboxOf h1 = []" using s'(8) op(2) by blast
  obtain h2 where "SocketHandlerData N E sh ssl (userMsg u @ uploadsOf h name [] bs flagss) s = Some (Done () (h2, s'))"
    using dataServer.ends [OF whole_steady [OF assms(3)] h1(2), where E = E and sh = sh and ssl = ssl and c = c and u = u and s = s'] op(1) h1(1)
    by (auto simp: SocketHandlerData_def assms(7))
  moreover have "concat (sent s') = concat (sent s) @ concat (concat (map statReply flagss))" using s'(4) by simp
  moreover have "\<forall>x\<in>set xs. \<exists>d. fetchShare s' (mde_shareFP (fst x)) = Some d \<and> generateHash ssl c d = Inr (mde_shareFP (fst x))"
    "\<forall>fp. db s (shareFP2IndexKey fp) \<noteq> None \<longrightarrow> fetchShare s' fp = fetchShare s fp"
    using s'(7) stored_shares [OF assms(9) s'(2,5,6)] by simp_all
  ultimately show ?thesis using t' [folded assms(15), unfolded append_Nil2] s'(2) by blast
qed

subsection \<open>Witnesses\<close>

definition goodWire :: net where "goodWire = \<lparr> net_recv = goodNet, net_send = (\<lambda>_. SendSome 300) \<rparr>"

lemma goodWire_whole: "sendsWhole goodWire" "whole (net_recv goodWire)"
  using goodNet_whole(1) by (simp_all add: sendsWhole_def goodWire_def)

definition freshHead :: fileShareMDHead where
  "freshHead = demoHead\<lparr>mdh_numOfComingSecrets := 0, mdh_sizeOfComingSecrets := 0\<rparr>"

definition twoShares :: "share list" where
  "twoShares = [(demoEntry, demoShare), (demoEntry, demoShare)]"

lemma twoShares_good: "inRange RING_BUFFER_DATA_SIZE freshHead [47, 102] twoShares" "freshHead = batchHead freshHead [] []" "twoShares \<noteq> []"
proof -
  show "inRange RING_BUFFER_DATA_SIZE freshHead [47, 102] twoShares" by code_simp
  show "freshHead = batchHead freshHead [] []" "twoShares \<noteq> []" by (simp_all add: freshHead_def demoHead_def batchHead_def twoShares_def)
qed

lemma twoShares_one_batch: "[twoShares] = batches cap [] twoShares"
  by (simp add: twoShares_def demoShare_def sharesLen_def UPLOAD_BUFFER_SIZE_def)

theorem uploader_packages_well_formed_witness:
  "\<exists>t'. thread_handler goodWire (FileHeader freshHead ([47, 102] @ [9]) # shareItems twoShares) (mkCloud (mkSocket goodWire 8 (concat (statReply [True, False])))) =
      Some (Done () t') \<and>
    so_out (csock t') = userMsg 8 @ uploadsOf freshHead [47, 102] [] [twoShares] [[True, False]] \<and> accuData t' = 6 \<and> accuUnique t' = 3"
proof -
  have sizes: "int (sharesLen twoShares) = 6" "totalWanted [[True, False]] [twoShares] = 3" by code_simp+
  have "\<forall>b\<in>set [twoShares]. int (48 + length [47 :: byte, 102] + 44 * length b) \<le> UPLOAD_BUFFER_SIZE" by code_simp
  from uploader_packages_well_formed [OF goodWire_whole twoShares_good twoShares_one_batch this, of "[[True, False]]" "[9]" 8]
  show ?thesis unfolding sizes by (simp add: twoShares_def)
qed

theorem upload_reaches_server_witness:
  "\<exists>replies requests t' h' s'.
    thread_handler goodWire (FileHeader freshHead ([47, 102] @ []) # shareItems twoShares) (mkCloud (mkSocket goodWire 8 replies)) = Some (Done () t') \<and>
    so_out (csock t') = requests \<and> SocketHandlerData goodNet fineEnv demoShell toySSL requests keptCore = Some (Done () (h', s')) \<and>
    concat (sent s') = replies \<and> storeInv toySSL shaCrypto s'"
proof -
  have sizes: "\<forall>b\<in>set [twoShares]. int (48 + length [47 :: byte, 102] + 44 * length b) \<le> META_LEN"
    "\<forall>x\<in>set twoShares. generateHash toySSL shaCrypto (snd x) = Inr (mde_shareFP (fst x))" by code_simp+
  have "nameVal (globalShareContainerName keptCore) + length [twoShares] + length twoShares < 26 ^ 12"
    using keptCore_upload(4) by (simp add: twoShares_def demoFiles_def)
  moreover have "formatFullFileName [47, 102] \<noteq> None" "sent keptCore = []" using keptFP_name(1) by (simp_all add: keptCore_def demoCore_def)
  ultimately show ?thesis
    using upload_reaches_server [OF goodWire_whole goodNet_whole(1) fineEnv_faultless _ _ goodNet_whole(2) toySSL_ok keptCore_inv keptCore_upload(3) twoShares_good _
        twoShares_one_batch sizes(1) _ sizes(2), of 8 "[]" demoShell]
    by (auto simp: int32_def)
qed

end
