(* ===== verification/Pipeline.thy ===== *)
theory Pipeline
  imports RingQueue
begin

text \<open>
  The worker threads of the client's encoder and decoder (client/coding/encoder.cc and decoder.cc). Items are dealt
  in turn to the input queues of the threads; each thread takes an item from its queue, works on it and puts the
  result into its output queue; the collecting thread takes the results in turn. All queues are bounded, and the
  threads run in any order: a step relation has one rule per operation on a queue, which is not enabled while the
  queue is full or empty. The queues are those of RingQueue.
\<close>

section \<open>State and operations\<close>

record ('a, 'b) pipe =
  todo :: "'a list"              \<comment> \<open>what the feeding thread will add\<close>
  nextAddIndex :: nat
  inputbuffer :: "'a list list"
  hands :: "'a option list"      \<comment> \<open>the item a thread is working on\<close>
  outputbuffer :: "'b list list"
  nextBufferIndex :: nat
  collected :: "'b list"

definition mkPipe :: "nat \<Rightarrow> 'a list \<Rightarrow> ('a, 'b) pipe" where
  "mkPipe n items = \<lparr> todo = items, nextAddIndex = 0, inputbuffer = replicate n [], hands = replicate n None,
     outputbuffer = replicate n [], nextBufferIndex = 0, collected = [] \<rparr>"

definition pipeAdd :: "nat \<Rightarrow> nat \<Rightarrow> ('a, 'b) pipe \<Rightarrow> ('a, 'b) pipe option" where
  "pipeAdd n cap p =
     (case todo p of
        [] \<Rightarrow> None
      | x # xs \<Rightarrow>
          (let i = nextAddIndex p in
           if length (inputbuffer p ! i) < cap
           then Some (p\<lparr>todo := xs, inputbuffer := (inputbuffer p)[i := inputbuffer p ! i @ [x]], nextAddIndex := (i + 1) mod n\<rparr>)
           else None))"

definition pipeExtract :: "nat \<Rightarrow> ('a, 'b) pipe \<Rightarrow> ('a, 'b) pipe option" where
  "pipeExtract i p =
     (case (hands p ! i, inputbuffer p ! i) of
        (None, x # xs) \<Rightarrow> Some (p\<lparr>inputbuffer := (inputbuffer p)[i := xs], hands := (hands p)[i := Some x]\<rparr>)
      | _ \<Rightarrow> None)"

definition pipeInsert :: "nat \<Rightarrow> ('a \<Rightarrow> 'b) \<Rightarrow> nat \<Rightarrow> ('a, 'b) pipe \<Rightarrow> ('a, 'b) pipe option" where
  "pipeInsert cap f i p =
     (case hands p ! i of
        None \<Rightarrow> None
      | Some x \<Rightarrow>
          if length (outputbuffer p ! i) < cap
          then Some (p\<lparr>hands := (hands p)[i := None], outputbuffer := (outputbuffer p)[i := outputbuffer p ! i @ [f x]]\<rparr>)
          else None)"

definition pipeCollect :: "nat \<Rightarrow> ('a, 'b) pipe \<Rightarrow> ('a, 'b) pipe option" where
  "pipeCollect n p =
     (let i = nextBufferIndex p in
      case outputbuffer p ! i of
        [] \<Rightarrow> None
      | y # ys \<Rightarrow> Some (p\<lparr>outputbuffer := (outputbuffer p)[i := ys], nextBufferIndex := (i + 1) mod n, collected := collected p @ [y]\<rparr>))"

inductive pipeStep :: "nat \<Rightarrow> nat \<Rightarrow> ('a \<Rightarrow> 'b) \<Rightarrow> ('a, 'b) pipe \<Rightarrow> ('a, 'b) pipe \<Rightarrow> bool" for n cap f where
  added: "pipeAdd n cap p = Some q \<Longrightarrow> pipeStep n cap f p q"
| taken: "i < n \<Longrightarrow> pipeExtract i p = Some q \<Longrightarrow> pipeStep n cap f p q"
| given: "i < n \<Longrightarrow> pipeInsert cap f i p = Some q \<Longrightarrow> pipeStep n cap f p q"
| gathered: "pipeCollect n p = Some q \<Longrightarrow> pipeStep n cap f p q"

text \<open>When the operations do not wait, and what they do.\<close>

lemma pipeAdd_Some: "pipeAdd n cap p = Some q \<longleftrightarrow>
    (\<exists>x xs. todo p = x # xs \<and> length (inputbuffer p ! nextAddIndex p) < cap \<and>
      q = p\<lparr>todo := xs, inputbuffer := (inputbuffer p)[nextAddIndex p := inputbuffer p ! nextAddIndex p @ [x]], nextAddIndex := (nextAddIndex p + 1) mod n\<rparr>)"
  by (auto simp: pipeAdd_def Let_def split: list.splits)

lemma pipeExtract_Some: "pipeExtract i p = Some q \<longleftrightarrow>
    (\<exists>x xs. hands p ! i = None \<and> inputbuffer p ! i = x # xs \<and> q = p\<lparr>inputbuffer := (inputbuffer p)[i := xs], hands := (hands p)[i := Some x]\<rparr>)"
  by (auto simp: pipeExtract_def split: list.splits option.splits)

lemma pipeInsert_Some: "pipeInsert cap f i p = Some q \<longleftrightarrow>
    (\<exists>x. hands p ! i = Some x \<and> length (outputbuffer p ! i) < cap \<and>
      q = p\<lparr>hands := (hands p)[i := None], outputbuffer := (outputbuffer p)[i := outputbuffer p ! i @ [f x]]\<rparr>)"
  by (auto simp: pipeInsert_def split: option.splits)

lemma pipeCollect_Some: "pipeCollect n p = Some q \<longleftrightarrow>
    (\<exists>y ys. outputbuffer p ! nextBufferIndex p = y # ys \<and>
      q = p\<lparr>outputbuffer := (outputbuffer p)[nextBufferIndex p := ys], nextBufferIndex := (nextBufferIndex p + 1) mod n, collected := collected p @ [y]\<rparr>)"
  by (auto simp: pipeCollect_def Let_def split: list.splits)

lemmas pipe_ops = pipeAdd_Some pipeExtract_Some pipeInsert_Some pipeCollect_Some

section \<open>Lanes\<close>

text \<open>What is on its way in lane i, in the form of results; it is what was added to the lane and not yet collected.\<close>

definition lane :: "('a \<Rightarrow> 'b) \<Rightarrow> ('a, 'b) pipe \<Rightarrow> nat \<Rightarrow> 'b list" where
  "lane f p i = outputbuffer p ! i @ (case hands p ! i of None \<Rightarrow> [] | Some x \<Rightarrow> [f x]) @ map f (inputbuffer p ! i)"

definition dealt :: "('a \<Rightarrow> 'b) \<Rightarrow> 'a list \<Rightarrow> nat \<Rightarrow> nat \<Rightarrow> nat \<Rightarrow> nat \<Rightarrow> 'b list" where
  "dealt f items n c a i = map (\<lambda>j. f (items ! j)) (filter (\<lambda>j. j mod n = i) [c..<a])"

definition pipeInv :: "nat \<Rightarrow> ('a \<Rightarrow> 'b) \<Rightarrow> 'a list \<Rightarrow> ('a, 'b) pipe \<Rightarrow> bool" where
  "pipeInv n f items p \<longleftrightarrow>
     (\<exists>a c. c \<le> a \<and> a \<le> length items \<and> todo p = drop a items \<and> collected p = map f (take c items) \<and>
        nextAddIndex p = a mod n \<and> nextBufferIndex p = c mod n \<and>
        length (inputbuffer p) = n \<and> length (hands p) = n \<and> length (outputbuffer p) = n \<and>
        (\<forall>i<n. lane f p i = dealt f items n c a i))"

lemma dealt_add: "c \<le> a \<Longrightarrow> dealt f items n c (Suc a) i = dealt f items n c a i @ (if a mod n = i then [f (items ! a)] else [])"
  by (simp add: dealt_def)

lemma dealt_collect: "c < a \<Longrightarrow> dealt f items n c a i = (if c mod n = i then [f (items ! c)] else []) @ dealt f items n (Suc c) a i"
  by (simp add: dealt_def upt_conv_Cons)

lemma pipeInv_mk: "0 < n \<Longrightarrow> pipeInv n f items (mkPipe n items)"
  unfolding pipeInv_def by (intro exI [of _ 0]) (simp add: mkPipe_def lane_def dealt_def)

lemma pipeInv_step:
  assumes "pipeStep n cap f p q" "0 < n" "pipeInv n f items p"
  shows "pipeInv n f items q"
proof -
  obtain a c where inv: "c \<le> a" "a \<le> length items" "todo p = drop a items" "collected p = map f (take c items)"
    "nextAddIndex p = a mod n" "nextBufferIndex p = c mod n" "length (inputbuffer p) = n" "length (hands p) = n" "length (outputbuffer p) = n"
    and lanes: "\<forall>i<n. lane f p i = dealt f items n c a i"
    using assms(3) unfolding pipeInv_def by blast
  from assms(1) show ?thesis
  proof cases
    case added
    then obtain x xs where x: "todo p = x # xs"
      and q: "q = p\<lparr>todo := xs, inputbuffer := (inputbuffer p)[a mod n := inputbuffer p ! (a mod n) @ [x]], nextAddIndex := (a mod n + 1) mod n\<rparr>"
      using inv(5) by (auto simp: pipe_ops)
    have "a < length items" by (rule ccontr) (use x inv(3) in simp)
    then have a: "a < length items" "items ! a = x" "xs = drop (Suc a) items" using x inv(3) by (simp_all add: Cons_nth_drop_Suc [symmetric])
    have "lane f q i = dealt f items n c (Suc a) i" if "i < n" for i
      using that lanes inv(1,7) a(2) assms(2) by (auto simp: q lane_def dealt_add nth_list_update simp flip: append_assoc)
    then show ?thesis unfolding pipeInv_def
      by (intro exI [of _ "Suc a"] exI [of _ c]) (use inv a q in \<open>simp add: mod_Suc_eq\<close>)
  next
    case (taken i)
    then have "lane f q j = lane f p j" if "j < n" for j
      using that inv(7-9) by (auto simp: lane_def pipe_ops nth_list_update)
    moreover have "todo q = todo p" "collected q = collected p" "nextAddIndex q = nextAddIndex p" "nextBufferIndex q = nextBufferIndex p"
      "length (inputbuffer q) = n" "length (hands q) = n" "length (outputbuffer q) = n"
      using taken(2) inv(7-9) by (auto simp: pipe_ops)
    ultimately show ?thesis using inv lanes unfolding pipeInv_def by (intro exI [of _ a] exI [of _ c]) simp
  next
    case (given i)
    then have "lane f q j = lane f p j" if "j < n" for j
      using that inv(7-9) by (auto simp: lane_def pipe_ops nth_list_update)
    moreover have "todo q = todo p" "collected q = collected p" "nextAddIndex q = nextAddIndex p" "nextBufferIndex q = nextBufferIndex p"
      "length (inputbuffer q) = n" "length (hands q) = n" "length (outputbuffer q) = n"
      using given(2) inv(7-9) by (auto simp: pipe_ops)
    ultimately show ?thesis using inv lanes unfolding pipeInv_def by (intro exI [of _ a] exI [of _ c]) simp
  next
    case gathered
    then obtain y ys where y: "outputbuffer p ! (c mod n) = y # ys"
      and q: "q = p\<lparr>outputbuffer := (outputbuffer p)[c mod n := ys], nextBufferIndex := (c mod n + 1) mod n, collected := collected p @ [y]\<rparr>"
      using inv(6) by (auto simp: pipe_ops)
    have cn: "c mod n < n" using assms(2) by simp
    have head: "dealt f items n c a (c mod n) = y # ys @ drop (length (y # ys)) (lane f p (c mod n))"
      using lanes cn y by (auto simp: lane_def)
    then have ca: "c < a" using inv(1) by (cases "c = a") (auto simp: dealt_def)
    then have yc: "y = f (items ! c)" using head dealt_collect [OF ca, of f items n "c mod n"] by simp
    have "lane f q i = dealt f items n (Suc c) a i" if "i < n" for i
    proof -
      have "lane f p i = (if c mod n = i then [y] else []) @ lane f q i" using y cn inv(9) by (auto simp: q lane_def nth_list_update)
      then show ?thesis using lanes that dealt_collect [OF ca, of f items n i] yc by (simp split: if_splits)
    qed
    then show ?thesis unfolding pipeInv_def
      by (intro exI [of _ a] exI [of _ "Suc c"]) (use inv ca q yc in \<open>simp add: mod_Suc_eq take_Suc_conv_app_nth\<close>)
  qed
qed

lemma pipeInv_steps: "(pipeStep n cap f)\<^sup>*\<^sup>* p q \<Longrightarrow> 0 < n \<Longrightarrow> pipeInv n f items p \<Longrightarrow> pipeInv n f items q"
  by (induction rule: rtranclp_induct) (auto intro: pipeInv_step)

section \<open>Progress\<close>

lemma pipe_progress:
  assumes "0 < n" "0 < cap" "pipeInv n f items p" "collected p \<noteq> map f items"
  shows "\<exists>q. pipeStep n cap f p q"
proof -
  obtain a c where inv: "c \<le> a" "a \<le> length items" "todo p = drop a items" "collected p = map f (take c items)"
    "nextAddIndex p = a mod n" "nextBufferIndex p = c mod n" and lanes: "\<forall>i<n. lane f p i = dealt f items n c a i"
    using assms(3) unfolding pipeInv_def by blast
  let ?i = "c mod n"
  have i: "?i < n" using assms(1) by simp
  consider (out) "outputbuffer p ! ?i \<noteq> []" | (hand) x where "outputbuffer p ! ?i = []" "hands p ! ?i = Some x"
    | (inp) x xs where "hands p ! ?i = None" "inputbuffer p ! ?i = x # xs"
    | (none) "outputbuffer p ! ?i = []" "hands p ! ?i = None" "inputbuffer p ! ?i = []"
    by (cases "hands p ! ?i"; cases "inputbuffer p ! ?i") auto
  then show ?thesis
  proof cases
    case out
    then have "\<exists>q. pipeCollect n p = Some q" using inv(6) by (auto simp: neq_Nil_conv pipe_ops)
    then show ?thesis by (auto intro: pipeStep.gathered)
  next
    case hand
    then have "\<exists>q. pipeInsert cap f ?i p = Some q" using assms(2) by (auto simp: pipe_ops)
    then show ?thesis by (auto intro: pipeStep.given [OF i])
  next
    case inp
    then have "\<exists>q. pipeExtract ?i p = Some q" by (auto simp: pipe_ops)
    then show ?thesis by (auto intro: pipeStep.taken [OF i])
  next
    case none
    then have "dealt f items n c a ?i = []" using lanes i by (auto simp: lane_def)
    then have "c = a" using inv(1) dealt_collect [of c a f items n ?i] by (cases "c = a") auto
    moreover have "c \<noteq> length items" using inv(4) assms(4) by auto
    ultimately have "todo p \<noteq> []" using inv(2,3) by simp
    then obtain x xs where "todo p = x # xs" by (cases "todo p") auto
    then have "\<exists>q. pipeAdd n cap p = Some q" using none \<open>c = a\<close> inv(5) assms(2) by (auto simp: pipe_ops)
    then show ?thesis by (auto intro: pipeStep.added)
  qed
qed

text \<open>Every item has at most four steps in front of it.\<close>

definition pipeWork :: "('a, 'b) pipe \<Rightarrow> nat" where
  "pipeWork p = 4 * length (todo p) + 3 * length (concat (inputbuffer p)) + 2 * length (filter (\<lambda>h. h \<noteq> None) (hands p)) + length (concat (outputbuffer p))"

lemma length_concat_update: "i < length xss \<Longrightarrow> length (concat (xss[i := ys])) + length (xss ! i) = length (concat xss) + length ys"
proof (induction xss arbitrary: i)
  case (Cons xs xss)
  then show ?case by (cases i) auto
qed simp

lemma count_update: "i < length hs \<Longrightarrow> length (filter P (hs[i := h])) + (if P (hs ! i) then 1 else 0) = length (filter P hs) + (if P h then 1 else 0)"
proof (induction hs arbitrary: i)
  case (Cons h hs)
  then show ?case by (cases i) auto
qed simp

lemma pipe_decreases:
  assumes "pipeStep n cap f p q" "0 < n" "pipeInv n f items p"
  shows "pipeWork q < pipeWork p"
proof -
  have len: "length (inputbuffer p) = n" "length (hands p) = n" "length (outputbuffer p) = n" "nextAddIndex p < n" "nextBufferIndex p < n"
    using assms(2,3) by (auto simp: pipeInv_def)
  from assms(1) show ?thesis
  proof cases
    case added
    then obtain x xs where "todo p = x # xs"
      "q = p\<lparr>todo := xs, inputbuffer := (inputbuffer p)[nextAddIndex p := inputbuffer p ! nextAddIndex p @ [x]], nextAddIndex := (nextAddIndex p + 1) mod n\<rparr>"
      by (auto simp: pipe_ops)
    then show ?thesis using len length_concat_update [of "nextAddIndex p" "inputbuffer p" "inputbuffer p ! nextAddIndex p @ [x]"]
      by (simp add: pipeWork_def)
  next
    case (taken i)
    then obtain x xs where "hands p ! i = None" "inputbuffer p ! i = x # xs" "q = p\<lparr>inputbuffer := (inputbuffer p)[i := xs], hands := (hands p)[i := Some x]\<rparr>"
      by (auto simp: pipe_ops)
    then show ?thesis
      using len taken(1) length_concat_update [of i "inputbuffer p" xs] count_update [of i "hands p" "\<lambda>h. h \<noteq> None" "Some x"]
      by (simp add: pipeWork_def)
  next
    case (given i)
    then obtain x where "hands p ! i = Some x" "q = p\<lparr>hands := (hands p)[i := None], outputbuffer := (outputbuffer p)[i := outputbuffer p ! i @ [f x]]\<rparr>"
      by (auto simp: pipe_ops)
    then show ?thesis
      using len given(1) length_concat_update [of i "outputbuffer p" "outputbuffer p ! i @ [f x]"] count_update [of i "hands p" "\<lambda>h. h \<noteq> None" None]
      by (simp add: pipeWork_def)
  next
    case gathered
    then obtain y ys where "outputbuffer p ! nextBufferIndex p = y # ys"
      "q = p\<lparr>outputbuffer := (outputbuffer p)[nextBufferIndex p := ys], nextBufferIndex := (nextBufferIndex p + 1) mod n, collected := collected p @ [y]\<rparr>"
      by (auto simp: pipe_ops)
    then show ?thesis using len length_concat_update [of "nextBufferIndex p" "outputbuffer p" ys] by (simp add: pipeWork_def)
  qed
qed

lemma pipe_stops:
  assumes "0 < n" "0 < cap" "pipeInv n f items p"
  shows "\<exists>q. (pipeStep n cap f)\<^sup>*\<^sup>* p q \<and> collected q = map f items"
  using assms(3)
proof (induction p rule: measure_induct_rule [of pipeWork])
  case (less p)
  show ?case
  proof (cases "collected p = map f items")
    case False
    then obtain q where q: "pipeStep n cap f p q" using pipe_progress [OF assms(1,2) less.prems] by blast
    then have "\<exists>r. (pipeStep n cap f)\<^sup>*\<^sup>* q r \<and> collected r = map f items"
      using less.IH pipe_decreases [OF q assms(1) less.prems] pipeInv_step [OF q assms(1) less.prems] by blast
    then show ?thesis using q by (meson converse_rtranclp_into_rtranclp)
  qed blast
qed

section \<open>Properties\<close>

text \<open>
  C35. The worker threads keep the order of the items and never block each other. However the threads interleave, what
  has been collected is at any moment a prefix of the results of the items in the order in which they are added; while a
  result is missing some thread can do a step; every step brings the end nearer, so that every run that goes on long enough
  has collected the result of every item, exactly once and in order. This holds for any number of threads and any positive
  capacity of the queues.
\<close>

theorem pipeline_in_order:
  assumes "0 < n" "0 < cap" "(pipeStep n cap f)\<^sup>*\<^sup>* (mkPipe n items) p"
  shows "(\<exists>c. collected p = map f (take c items)) \<and>
    (collected p \<noteq> map f items \<longrightarrow> (\<exists>q. pipeStep n cap f p q)) \<and>
    (\<forall>q. pipeStep n cap f p q \<longrightarrow> pipeWork q < pipeWork p) \<and>
    (\<exists>q. (pipeStep n cap f)\<^sup>*\<^sup>* p q \<and> collected q = map f items)"
proof -
  have inv: "pipeInv n f items p" by (rule pipeInv_steps [OF assms(3,1) pipeInv_mk [OF assms(1)]])
  then have "\<exists>c. collected p = map f (take c items)" by (auto simp: pipeInv_def)
  then show ?thesis using pipe_progress [OF assms(1,2) inv] pipe_decreases [OF _ assms(1) inv] pipe_stops [OF assms(1,2) inv] by blast
qed

subsection \<open>Witnesses\<close>

definition twoLanes :: "(nat, nat) pipe" where
  "twoLanes = \<lparr> todo = [7], nextAddIndex = 0, inputbuffer = [[], []], hands = [Some 5, None], outputbuffer = [[], [12]], nextBufferIndex = 0, collected = [] \<rparr>"

lemma twoLanes_reached: "(pipeStep 2 2 (\<lambda>x. 2 * x))\<^sup>*\<^sup>* (mkPipe 2 [5, 6, 7]) twoLanes"
proof -
  let ?s = "pipeStep 2 2 (\<lambda>x. 2 * x :: nat)"
  define p1 where "p1 = \<lparr> todo = [6, 7 :: nat], nextAddIndex = 1, inputbuffer = [[5], []], hands = [None, None], outputbuffer = [[], []], nextBufferIndex = 0, collected = [] :: nat list \<rparr>"
  define p2 where "p2 = p1\<lparr>todo := [7], nextAddIndex := 0, inputbuffer := [[5], [6]]\<rparr>"
  define p3 where "p3 = p2\<lparr>inputbuffer := [[5], []], hands := [None, Some 6]\<rparr>"
  define p4 where "p4 = p3\<lparr>hands := [None, None], outputbuffer := [[], [12]]\<rparr>"
  have "?s (mkPipe 2 [5, 6, 7]) p1" by (rule pipeStep.added) (simp add: pipe_ops mkPipe_def p1_def numeral_2_eq_2)
  moreover have "?s p1 p2" by (rule pipeStep.added) (simp add: pipe_ops p1_def p2_def)
  moreover have "?s p2 p3" by (rule pipeStep.taken [of 1]) (simp_all add: pipe_ops p1_def p2_def p3_def)
  moreover have "?s p3 p4" by (rule pipeStep.given [of 1]) (simp_all add: pipe_ops p1_def p2_def p3_def p4_def)
  moreover have "?s p4 twoLanes" by (rule pipeStep.taken [of 0]) (simp_all add: pipe_ops p1_def p2_def p3_def p4_def twoLanes_def)
  ultimately show ?thesis by (meson converse_rtranclp_into_rtranclp rtranclp.rtrancl_refl)
qed

theorem pipeline_in_order_witness:
  "(\<exists>q. pipeStep 2 2 (\<lambda>x. 2 * x) twoLanes q) \<and> (\<exists>q. (pipeStep 2 2 (\<lambda>x. 2 * x))\<^sup>*\<^sup>* twoLanes q \<and> collected q = [10, 12, 14])"
  using pipeline_in_order [OF _ _ twoLanes_reached] by (simp add: twoLanes_def)

end
