(* ===== verification/Encoder.thy ===== *)
theory Encoder
  imports Uploader CDCodecCorrect Pipeline
begin

text \<open>
  The encoder, client/coding/encoder.cc: worker threads turn the secrets of a file into shares (Pipeline has
  their queues), and the collecting thread hands the shares of each cloud to the uploader, groups the metadata of
  the shares of a cloud into segments, encrypts each segment under the hash of its contents, hands it to the uploader
  as a share of the metadata server, and appends the key to the key file of the cloud.
\<close>

section \<open>Data\<close>

definition NUM_THREADS :: nat where "NUM_THREADS = 2"
definition RB_SIZE :: nat where "RB_SIZE = 1024"
definition SECRET_SIZE :: nat where "SECRET_SIZE = 16384"
definition SECRET_SIZE_META :: nat where "SECRET_SIZE_META = 32768"
definition SHARE_BUFFER_SIZE :: nat where "SHARE_BUFFER_SIZE = 65536"
definition MAX_SEGMENT_SIZE :: nat where "MAX_SEGMENT_SIZE = 2097152"
definition AVG_SEGMENT_SIZE :: int where "AVG_SEGMENT_SIZE = 1048576"
definition MIN_SEGMENT_SIZE :: int where "MIN_SEGMENT_SIZE = 524288"
definition DIVISOR :: int where "DIVISOR = (AVG_SEGMENT_SIZE - MIN_SEGMENT_SIZE) div (8 * 2048)"
definition PATTERN :: int where "PATTERN = (AVG_SEGMENT_SIZE - MIN_SEGMENT_SIZE) div (8 * 2048) - 1"

text \<open>The objects in the rings: a file with its name, or a secret; then the file again, or the shares of the secret.\<close>

datatype secret_item =
    FileObject bytes int                     \<comment> \<open>name with terminator, size of the file\<close>
  | SecretObject bytes int bool              \<comment> \<open>data, secretID, end\<close>

datatype share_item =
    FileShares bytes int
  | ShareChunk "(bytes \<times> nat) option" int nat bool  \<comment> \<open>data and shareSize when set, secretID, secretSize, end\<close>

text \<open>An entry of a metadata chunk; \<open>mn_other\<close> stands for the array \<open>other\<close> and the padding, which are never written.\<close>

record metaNode =
  mn_shareFP :: bytes
  mn_other :: bytes
  mn_secretID :: int
  mn_secretSize :: int
  mn_shareSize :: int

definition putMetaNode :: "metaNode \<Rightarrow> bytes" where
  "putMetaNode e = mn_shareFP e @ mn_other e @ le 4 (mn_secretID e) @ le 4 (mn_secretSize e) @ le 4 (mn_shareSize e)"

definition getMetaNode :: "bytes \<Rightarrow> metaNode" where
  "getMetaNode bs = \<lparr> mn_shareFP = slice 0 32 bs, mn_other = slice 32 20 bs, mn_secretID = sle (slice 52 4 bs),
     mn_secretSize = sle (slice 56 4 bs), mn_shareSize = sle (slice 60 4 bs) \<rparr>"

definition okMetaNode :: "metaNode \<Rightarrow> bool" where
  "okMetaNode e \<longleftrightarrow> length (mn_shareFP e) = 32 \<and> length (mn_other e) = 20 \<and> int32 (mn_secretID e) \<and> int32 (mn_secretSize e) \<and> int32 (mn_shareSize e)"

interpretation metaNode: struct_layout 64 putMetaNode getMetaNode okMetaNode
  by unfold_locales (simp_all add: struct_defs putMetaNode_def getMetaNode_def okMetaNode_def)

text \<open>What the collecting thread and the uploader's rings hold for one cloud.\<close>

record segmenter =
  segSizeTemp :: nat
  metaChunkCounter :: nat
  metaChunkID :: int
  metaChunkBuffer :: bytes
  dataItems :: "up_item list"
  metaItems :: "up_item list"
  marks :: nat

text \<open>
  Bytes of memory that was not written: a parameter gives them for each cloud and each use, which \<open>marks\<close> counts.
\<close>

type_synonym memory = "nat \<Rightarrow> nat \<Rightarrow> nat \<Rightarrow> byte"

definition fresh :: "memory \<Rightarrow> nat \<Rightarrow> nat \<Rightarrow> nat \<Rightarrow> bytes" where
  "fresh M i k len = map (M i k) [0..<len]"

definition mkSegmenter :: "memory \<Rightarrow> nat \<Rightarrow> segmenter" where
  "mkSegmenter M i = \<lparr> segSizeTemp = 0, metaChunkCounter = 0, metaChunkID = -1, metaChunkBuffer = fresh M i 0 SECRET_SIZE_META,
     dataItems = [], metaItems = [], marks = 1 \<rparr>"

text \<open>A hash is written into an array; the caller does not look at the result.\<close>

definition hashInto :: "openssl \<Rightarrow> cryptoPrimitive \<Rightarrow> bytes \<Rightarrow> bytes \<Rightarrow> bytes" where
  "hashInto ssl c d mem = (case generateHash ssl c d of Inl _ \<Rightarrow> mem | Inr h \<Rightarrow> overlay 0 h mem)"

section \<open>The worker threads\<close>

definition encodeItem :: "openssl \<Rightarrow> (nat \<Rightarrow> byte) \<Rightarrow> cdcodec \<Rightarrow> bytes \<Rightarrow> secret_item \<Rightarrow> crash + share_item" where
  "encodeItem ssl rnd codec buffer item =
     (case item of
        FileObject name fileSize \<Rightarrow> Inr (FileShares name fileSize)
      | SecretObject d secretID fin \<Rightarrow>
          (case encoding ssl rnd codec d buffer of
             Inr (shares, shareSize) \<Rightarrow> Inr (ShareChunk (Some (shares, shareSize)) secretID (length d) fin)
           | Inl CDCodec.OutOfBounds \<Rightarrow> Inl BufferOverflow
           | Inl _ \<Rightarrow> Inr (ShareChunk None secretID (length d) fin)))"

section \<open>The collecting thread\<close>

definition add :: "up_item \<Rightarrow> segmenter \<Rightarrow> segmenter" where
  "add x g = g\<lparr>dataItems := dataItems g @ [x]\<rparr>"

definition addMeta :: "up_item \<Rightarrow> segmenter \<Rightarrow> segmenter" where
  "addMeta x g = g\<lparr>metaItems := metaItems g @ [x]\<rparr>"

text \<open>The name of the file is encoded like a secret, and each cloud gets its share as the name.\<close>

definition collectHeader :: "openssl \<Rightarrow> (nat \<Rightarrow> byte) \<Rightarrow> memory \<Rightarrow> cdcodec \<Rightarrow> bytes \<Rightarrow> int \<Rightarrow> segmenter list \<Rightarrow> (unit, segmenter list) outcome" where
  "collectHeader ssl rnd M codec name fileSize gs =
     (case encoding ssl rnd codec name (fresh M (length gs) 0 (length name * 32)) of
        Inl CDCodec.OutOfBounds \<Rightarrow> Crash BufferOverflow
      | Inl _ \<Rightarrow> Crash UninitRead
      | Inr (tmp, tmp_s) \<Rightarrow>
          if RING_BUFFER_DATA_SIZE < int tmp_s then Crash BufferOverflow
          else
            (let h = \<lparr> mdh_fullNameSize = int tmp_s, mdh_fileSize = fileSize, mdh_numOfPastSecrets = 0, mdh_sizeOfPastSecrets = 0,
                       mdh_numOfComingSecrets = 0, mdh_sizeOfComingSecrets = 0 \<rparr> in
             Done () (map (\<lambda>i. let x = FileHeader h (blockAt tmp_s tmp i) in addMeta x (add x (gs ! i))) [0..<length gs])))"

text \<open>The end of a segment is decided by the fingerprint of the last share and by the size.\<close>

definition endsSegment :: "bytes \<Rightarrow> nat \<Rightarrow> bool" where
  "endsSegment fp segSize \<longleftrightarrow> (sle (slice 0 4 fp) AND (DIVISOR - 1)) = PATTERN \<or> MAX_SEGMENT_SIZE < segSize"

text \<open>The nodes so far become a metadata chunk, and its key a record of the key file.\<close>

definition metaChunk ::
  "openssl \<Rightarrow> cryptoPrimitive \<Rightarrow> memory \<Rightarrow> (bytes \<Rightarrow> bool) \<Rightarrow> bool \<Rightarrow> nat \<Rightarrow> segmenter \<times> files \<Rightarrow> (unit, segmenter \<times> files) outcome" where
  "metaChunk ssl c M opens fin i st =
     (case st of (g, f) \<Rightarrow>
      let size = metaChunkCounter g * 64;
          plain = take size (metaChunkBuffer g);
          key = hashInto ssl c plain (fresh M i (marks g) 32);
          enc = (case encryptWithKey ssl c plain key of Inl _ \<Rightarrow> fresh M i (marks g + 1) size | Inr ct \<Rightarrow> ct);
          fp = hashInto ssl c enc (fresh M i (marks g + 2) 32);
          item = ShareObject fin \<lparr> mde_shareFP = fp, mde_secretID = metaChunkID g, mde_secretSize = int size, mde_shareSize = int size \<rparr> enc;
          g1 = (addMeta item g)\<lparr>metaChunkID := metaChunkID g - 1, metaChunkBuffer := overlay 0 (replicate SECRET_SIZE 0) (metaChunkBuffer g),
                 segSizeTemp := 0, metaChunkCounter := 0, marks := marks g + 3\<rparr>;
          old = (case f (shareKeyName i) of None \<Rightarrow> [] | Some bs \<Rightarrow> bs) in
      if RING_BUFFER_META_SIZE < int size then Crash BufferOverflow
      else if \<not> opens (shareKeyName i) then Crash NullDeref
      else Done () (g1, f(shareKeyName i \<mapsto> old @ le 4 (metaChunkID g) @ fp @ key)))"

text \<open>The share of a secret for one cloud.\<close>

definition collectShare ::
  "openssl \<Rightarrow> cryptoPrimitive \<Rightarrow> memory \<Rightarrow> (bytes \<Rightarrow> bool) \<Rightarrow> bytes \<Rightarrow> nat \<Rightarrow> int \<Rightarrow> nat \<Rightarrow> bool \<Rightarrow> nat \<Rightarrow> segmenter \<times> files \<Rightarrow>
   (unit, segmenter \<times> files) outcome" where
  "collectShare ssl c M opens shares shareSize secretID secretSize fin i st =
     (case st of (g, f) \<Rightarrow>
      if RING_BUFFER_DATA_SIZE < int shareSize then Crash BufferOverflow
      else
        (let share = blockAt shareSize shares i;
             fp = hashInto ssl c share (fresh M i (marks g) 32);
             node = putMetaNode \<lparr> mn_shareFP = fp, mn_other = fresh M i (marks g + 1) 20, mn_secretID = secretID,
                      mn_secretSize = int secretSize, mn_shareSize = int shareSize \<rparr>;
             e = \<lparr> mde_shareFP = fp, mde_secretID = secretID, mde_secretSize = int secretSize, mde_shareSize = int shareSize \<rparr>;
             pos = metaChunkCounter g * 64 in
         if SECRET_SIZE_META < pos + 64 then Crash BufferOverflow
         else
           (let g1 = add (ShareObject fin e share) (g\<lparr>segSizeTemp := segSizeTemp g + shareSize,
                       metaChunkBuffer := overlay pos node (metaChunkBuffer g), metaChunkCounter := metaChunkCounter g + 1, marks := marks g + 2\<rparr>) in
            if endsSegment fp (segSizeTemp g1) \<or> fin then metaChunk ssl c M opens fin i (g1, f) else Done () (g1, f))))"

text \<open>The loops over the clouds and over the objects.\<close>

fun forClouds :: "(nat \<Rightarrow> 'g \<times> 'f \<Rightarrow> (unit, 'g \<times> 'f) outcome) \<Rightarrow> nat \<Rightarrow> 'g list \<Rightarrow> 'f \<Rightarrow> (unit, 'g list \<times> 'f) outcome" where
  "forClouds step i [] f = Done () ([], f)"
| "forClouds step i (g # gs) f =
     (case step i (g, f) of
        Done _ (g1, f1) \<Rightarrow>
          (case forClouds step (Suc i) gs f1 of
             Done _ (gs1, f2) \<Rightarrow> Done () (g1 # gs1, f2)
           | Fails (gs1, f2) \<Rightarrow> Fails (g1 # gs1, f2)
           | Crash e \<Rightarrow> Crash e)
      | Fails (g1, f1) \<Rightarrow> Fails (g1 # gs, f1)
      | Crash e \<Rightarrow> Crash e)"

definition collectItem ::
  "openssl \<Rightarrow> (nat \<Rightarrow> byte) \<Rightarrow> cdcodec \<Rightarrow> cryptoPrimitive \<Rightarrow> memory \<Rightarrow> (bytes \<Rightarrow> bool) \<Rightarrow> crash + share_item \<Rightarrow> segmenter list \<times> files \<Rightarrow>
   (unit, segmenter list \<times> files) outcome" where
  "collectItem ssl rnd codec c M opens item st =
     (case st of (gs, f) \<Rightarrow>
      case item of
        Inl e \<Rightarrow> Crash e
      | Inr (FileShares name fileSize) \<Rightarrow>
          (case collectHeader ssl rnd M codec name fileSize gs of
             Done _ gs1 \<Rightarrow> Done () (gs1, f)
           | Fails gs1 \<Rightarrow> Fails (gs1, f)
           | Crash e \<Rightarrow> Crash e)
      | Inr (ShareChunk None secretID secretSize fin) \<Rightarrow> Crash UninitRead
      | Inr (ShareChunk (Some (shares, shareSize)) secretID secretSize fin) \<Rightarrow>
          forClouds (collectShare ssl c M opens shares shareSize secretID secretSize fin) 0 gs f)"

fun collect ::
  "openssl \<Rightarrow> (nat \<Rightarrow> byte) \<Rightarrow> cdcodec \<Rightarrow> cryptoPrimitive \<Rightarrow> memory \<Rightarrow> (bytes \<Rightarrow> bool) \<Rightarrow> (crash + share_item) list \<Rightarrow> segmenter list \<times> files \<Rightarrow>
   (unit, segmenter list \<times> files) outcome" where
  "collect ssl rnd codec c M opens [] st = Done () st"
| "collect ssl rnd codec c M opens (x # xs) st =
     bindO (collectItem ssl rnd codec c M opens x st) (\<lambda>_ st1. collect ssl rnd codec c M opens xs st1)"

text \<open>
  The constructor makes one codec per thread, all alike, and an object for hashing; the whole encoder
  works on the objects in the order in which they are added.
\<close>

definition mkEncoder :: "gf \<Rightarrow> int \<Rightarrow> int \<Rightarrow> int \<Rightarrow> int \<Rightarrow> int \<Rightarrow> (cdcodec \<times> cryptoPrimitive) option" where
  "mkEncoder gf type n m r securetype =
     (case mkCrypto True securetype of
        Inl _ \<Rightarrow> None
      | Inr c \<Rightarrow> (case mkCDCodec gf type n m r (Some c) of Inl _ \<Rightarrow> None | Inr codec \<Rightarrow> Some (codec, c)))"

definition encodeFile ::
  "openssl \<Rightarrow> (nat \<Rightarrow> byte) \<Rightarrow> cdcodec \<Rightarrow> cryptoPrimitive \<Rightarrow> memory \<Rightarrow> (bytes \<Rightarrow> bool) \<Rightarrow> bytes \<Rightarrow> secret_item list \<Rightarrow> files \<Rightarrow>
   (unit, segmenter list \<times> files) outcome" where
  "encodeFile ssl rnd codec c M opens buffer items f =
     collect ssl rnd codec c M opens (map (encodeItem ssl rnd codec buffer) items) (map (mkSegmenter M) [0..<codecN codec], f)"

section \<open>What the clouds get\<close>

text \<open>The shares of a secret, which do not depend on the buffer they are written to.\<close>

definition sharesOf :: "openssl \<Rightarrow> cdcodec \<Rightarrow> bytes \<Rightarrow> bytes" where
  "sharesOf ssl codec d =
     (case encoding ssl (\<lambda>_. 0) codec d (replicate (shareSizeOf codec (length d) * codecN codec) 0) of Inr (shares, _) \<Rightarrow> shares | Inl _ \<Rightarrow> [])"

definition shareAt :: "openssl \<Rightarrow> cdcodec \<Rightarrow> nat \<Rightarrow> bytes \<Rightarrow> bytes" where
  "shareAt ssl codec i d = blockAt (shareSizeOf codec (length d)) (sharesOf ssl codec d) i"

definition hashOf :: "openssl \<Rightarrow> cryptoPrimitive \<Rightarrow> bytes \<Rightarrow> bytes" where
  "hashOf ssl c d = (case generateHash ssl c d of Inr h \<Rightarrow> h | Inl _ \<Rightarrow> [])"

definition cloudShare :: "openssl \<Rightarrow> cdcodec \<Rightarrow> nat \<Rightarrow> nat \<Rightarrow> bytes \<Rightarrow> share" where
  "cloudShare ssl codec i j d =
     (\<lparr> mde_shareFP = hashOf ssl (cryptoObj codec) (shareAt ssl codec i d), mde_secretID = int j, mde_secretSize = int (length d),
        mde_shareSize = int (shareSizeOf codec (length d)) \<rparr>, shareAt ssl codec i d)"

fun cloudShares :: "openssl \<Rightarrow> cdcodec \<Rightarrow> nat \<Rightarrow> nat \<Rightarrow> bytes list \<Rightarrow> share list" where
  "cloudShares ssl codec i j [] = []"
| "cloudShares ssl codec i j (d # ds) = cloudShare ssl codec i j d # cloudShares ssl codec i (Suc j) ds"

fun secretItems :: "nat \<Rightarrow> bytes list \<Rightarrow> secret_item list" where
  "secretItems j [] = []"
| "secretItems j (d # ds) = SecretObject d (int j) (ds = []) # secretItems (Suc j) ds"

text \<open>The segments of a list of shares.\<close>

fun segmentsOf :: "share list \<Rightarrow> share list \<Rightarrow> share list list" where
  "segmentsOf cur [] = (if cur = [] then [] else [cur])"
| "segmentsOf cur (x # xs) =
     (if endsSegment (mde_shareFP (fst x)) (sharesLen (cur @ [x])) then (cur @ [x]) # segmentsOf [] xs else segmentsOf (cur @ [x]) xs)"

text \<open>
  A metadata chunk: the nodes of the shares of a segment, encrypted under their hash; and all chunks, with the
  contents of the key file.
\<close>

definition nodeFor :: "metaNode \<Rightarrow> share \<Rightarrow> bool" where
  "nodeFor n x \<longleftrightarrow> okMetaNode n \<and> mn_shareFP n = mde_shareFP (fst x) \<and> mn_secretID n = mde_secretID (fst x) \<and>
     mn_secretSize n = mde_secretSize (fst x) \<and> mn_shareSize n = mde_shareSize (fst x)"

definition nodesFor :: "share list \<Rightarrow> bytes \<Rightarrow> bool" where
  "nodesFor xs bs \<longleftrightarrow> (\<exists>ns. bs = concat (map putMetaNode ns) \<and> list_all2 nodeFor ns xs)"

definition chunkFor :: "openssl \<Rightarrow> cryptoPrimitive \<Rightarrow> share list \<Rightarrow> nat \<Rightarrow> share \<Rightarrow> bytes \<Rightarrow> bool" where
  "chunkFor ssl c seg j x rcd \<longleftrightarrow>
     (\<exists>plain. nodesFor seg plain \<and> encryptWithKey ssl c plain (hashOf ssl c plain) = Inr (snd x) \<and>
        fst x = \<lparr> mde_shareFP = hashOf ssl c (snd x), mde_secretID = - 1 - int j, mde_secretSize = 64 * int (length seg), mde_shareSize = 64 * int (length seg) \<rparr> \<and>
        rcd = le 4 (- 1 - int j) @ hashOf ssl c (snd x) @ hashOf ssl c plain)"

definition chunksFor :: "openssl \<Rightarrow> cryptoPrimitive \<Rightarrow> share list list \<Rightarrow> share list \<Rightarrow> bytes \<Rightarrow> bool" where
  "chunksFor ssl c segs ms keys \<longleftrightarrow> length ms = length segs \<and>
     (\<exists>records. length records = length segs \<and> keys = concat records \<and> (\<forall>j<length segs. chunkFor ssl c (segs ! j) j (ms ! j) (records ! j)))"

lemma nodesFor_snoc:
  assumes "nodesFor xs bs" "nodeFor n x"
  shows "nodesFor (xs @ [x]) (bs @ putMetaNode n)"
proof -
  obtain ns where "bs = concat (map putMetaNode ns)" "list_all2 nodeFor ns xs" using assms(1) by (auto simp: nodesFor_def)
  then show ?thesis using assms(2) unfolding nodesFor_def by (intro exI [of _ "ns @ [n]"]) (simp add: list_all2_appendI)
qed

lemma nodesFor_length: "nodesFor xs bs \<Longrightarrow> length bs = 64 * length xs"
proof -
  assume "nodesFor xs bs"
  then obtain ns where ns: "bs = concat (map putMetaNode ns)" "list_all2 nodeFor ns xs" by (auto simp: nodesFor_def)
  then have "\<forall>n\<in>set ns. okMetaNode n" by (auto simp: list_all2_conv_all_nth nodeFor_def in_set_conv_nth)
  then show ?thesis using metaNode.length_table ns list_all2_lengthD by fastforce
qed

lemma chunksFor_snoc:
  assumes "chunksFor ssl c segs ms keys" "chunkFor ssl c seg (length segs) x rcd"
  shows "chunksFor ssl c (segs @ [seg]) (ms @ [x]) (keys @ rcd)"
proof -
  obtain rs where rs: "length ms = length segs" "length rs = length segs" "keys = concat rs"
    "\<forall>j<length segs. chunkFor ssl c (segs ! j) j (ms ! j) (rs ! j)" using assms(1) by (auto simp: chunksFor_def)
  then have "\<forall>j<length (segs @ [seg]). chunkFor ssl c ((segs @ [seg]) ! j) j ((ms @ [x]) ! j) ((rs @ [rcd]) ! j)"
    using assms(2) by (auto simp: nth_append less_Suc_eq)
  then show ?thesis using rs(1-3) unfolding chunksFor_def by (intro conjI exI [of _ "rs @ [rcd]"]) simp_all
qed

lemma segmentsOf_grows: "cur \<noteq> [] \<Longrightarrow> \<exists>seg\<in>set (segmentsOf cur xs). length cur \<le> length seg"
proof (induction cur xs rule: segmentsOf.induct)
  case (2 cur x xs)
  show ?case
  proof (cases "endsSegment (mde_shareFP (fst x)) (sharesLen (cur @ [x]))")
    case False
    then show ?thesis using 2(2) [OF False] by (auto intro: Suc_leD)
  qed simp
qed simp

section \<open>Encoding\<close>

definition goodCodec :: "openssl \<Rightarrow> cdcodec \<Rightarrow> bool" where
  "goodCodec ssl codec \<longleftrightarrow> rs_codec ssl codec \<and> CDType codec = CAONT_RS_TYPE \<and> hashSize (cryptoObj codec) = 32 \<and> keySize (cryptoObj codec) = 32"

lemma mkEncoder_good:
  assumes "gf_laws gf" "evp_ok ssl" "mkEncoder gf CAONT_RS_TYPE n m r HIGH_SEC_PAIR_TYPE = Some (codec, c)"
  shows "goodCodec ssl codec" "cryptoObj codec = c" "codecN codec = nat n" "codecK codec = nat (n - m)"
proof -
  have mk: "mkCrypto True HIGH_SEC_PAIR_TYPE = Inr c" "mkCDCodec gf CAONT_RS_TYPE n m r (Some c) = Inr codec"
    using assms(3) by (auto simp: mkEncoder_def split: sum.splits)
  then have v: "crypto_valid ssl c" using assms(2) by (auto simp: crypto_valid_def)
  show "cryptoObj codec = c" "codecN codec = nat n" "codecK codec = nat (n - m)"
    using mk(2) by (auto simp: mkCDCodec_def codec_types Let_def split: if_splits)
  moreover have "hashSize c = 32" "keySize c = 32" using mk(1) by (auto simp: mkCrypto_def)
  ultimately show "goodCodec ssl codec" using mkCDCodec_rs [OF mk(2) assms(1) v] by (simp add: goodCodec_def codec_types)
qed

lemma encoding_run:
  assumes "goodCodec ssl codec" "length d \<le> MAX_SECRET_SIZE" "shareSizeOf codec (length d) * codecN codec \<le> length buffer"
  shows "encoding ssl rnd codec d buffer = Inr (sharesOf ssl codec d, shareSizeOf codec (length d))"
    and "length (sharesOf ssl codec d) = shareSizeOf codec (length d) * codecN codec" "0 < shareSizeOf codec (length d)"
    and "good_ids codec ids \<Longrightarrow>
      decoding ssl codec (concat (map (\<lambda>i. shareAt ssl codec i d) ids)) ids (shareSizeOf codec (length d)) (length d) = Inr d"
proof -
  have c: "rs_codec ssl codec" "CDType codec = CAONT_RS_TYPE" using assms(1) by (simp_all add: goodCodec_def)
  have sz: "shareSizeOf codec (length d) = rsShareSize codec (length d)" using c(2) by (simp add: shareSizeOf_def codec_types)
  let ?zero = "replicate (shareSizeOf codec (length d) * codecN codec) (0 :: byte)"
  obtain shares where sh: "caontRSEncoding ssl codec d ?zero = Inr (shares, rsShareSize codec (length d))"
    "\<forall>ids. good_ids codec ids \<longrightarrow> caontRSDecoding ssl codec (selectShares (rsShareSize codec (length d)) shares ids) ids
       (rsShareSize codec (length d)) (length d) = Inr d"
    "length shares = rsShareSize codec (length d) * codecN codec" "0 < rsShareSize codec (length d)"
    by (rule caont_roundtrip [OF c assms(2), of ?zero]) (simp_all add: sz)
  have enc: "encoding ssl rnd codec d b = caontRSEncoding ssl codec d b" for rnd b using c(2) by (simp add: encoding_def codec_types)
  have so: "sharesOf ssl codec d = shares" using sh(1) by (simp add: sharesOf_def enc)
  have "caontRSEncoding ssl codec d buffer = caontRSEncoding ssl codec d ?zero"
    by (rule caont_buffer [OF c assms(2)]) (use assms(3) sz in simp_all)
  then show "encoding ssl rnd codec d buffer = Inr (sharesOf ssl codec d, shareSizeOf codec (length d))" using sh(1) by (simp add: enc so sz)
  show "length (sharesOf ssl codec d) = shareSizeOf codec (length d) * codecN codec" "0 < shareSizeOf codec (length d)"
    using sh(3,4) so sz by simp_all
  show "decoding ssl codec (concat (map (\<lambda>i. shareAt ssl codec i d) ids)) ids (shareSizeOf codec (length d)) (length d) = Inr d" if "good_ids codec ids"
    using sh(2) that c(2) by (simp add: decoding_def codec_types shareAt_def [abs_def] selectShares_def so sz)
qed

lemma shareAt_length:
  assumes "goodCodec ssl codec" "length d \<le> MAX_SECRET_SIZE" "i < codecN codec"
  shows "length (shareAt ssl codec i d) = shareSizeOf codec (length d)"
proof -
  have "length (sharesOf ssl codec d) = shareSizeOf codec (length d) * codecN codec"
    using encoding_run(2) [OF assms(1,2), of "replicate (shareSizeOf codec (length d) * codecN codec) 0"] by simp
  then show ?thesis unfolding shareAt_def by (intro length_blockAt) (use assms(3) in \<open>simp add: block_fits\<close>)
qed

text \<open>The hashes.\<close>

lemma hashOf_run:
  assumes "crypto_valid ssl c" "hashSize c = 32"
  shows "generateHash ssl c d = Inr (hashOf ssl c d)" "length (hashOf ssl c d) = 32"
    "length mem = 32 \<Longrightarrow> hashInto ssl c d mem = hashOf ssl c d"
proof -
  obtain h where "generateHash ssl c d = Inr h" "length h = 32" using crypto.hashE [OF assms(1), of d] assms(2) by auto
  then show "generateHash ssl c d = Inr (hashOf ssl c d)" "length (hashOf ssl c d) = 32" "length mem = 32 \<Longrightarrow> hashInto ssl c d mem = hashOf ssl c d"
    by (simp_all add: hashOf_def hashInto_def)
qed

lemma length_fresh [simp]: "length (fresh M i k n) = n"
  by (simp add: fresh_def)

section \<open>The collecting thread, one cloud\<close>

abbreviation pass :: "bool \<Rightarrow> share \<Rightarrow> up_item" where
  "pass fin x \<equiv> ShareObject fin (fst x) (snd x)"

definition contentsOf :: "bytes option \<Rightarrow> bytes" where
  "contentsOf v = (case v of None \<Rightarrow> [] | Some bs \<Rightarrow> bs)"

text \<open>
  Before the last share: complete segments have become chunks, and the buffer has the nodes of the open segment.
\<close>

definition segInv :: "openssl \<Rightarrow> cryptoPrimitive \<Rightarrow> up_item \<Rightarrow> bytes \<Rightarrow> share list \<Rightarrow> share list list \<Rightarrow> share list \<Rightarrow> segmenter \<Rightarrow> bytes option \<Rightarrow> bool" where
  "segInv ssl c hdr K0 xs segs cur g v \<longleftrightarrow>
     (\<exists>ms keys. dataItems g = hdr # map (pass False) xs \<and> metaItems g = hdr # map (pass False) ms \<and> chunksFor ssl c segs ms keys \<and> contentsOf v = K0 @ keys) \<and>
     (\<forall>rest. segmentsOf [] (xs @ rest) = segs @ segmentsOf cur rest) \<and>
     nodesFor cur (take (64 * length cur) (metaChunkBuffer g)) \<and> length (metaChunkBuffer g) = SECRET_SIZE_META \<and>
     metaChunkCounter g = length cur \<and> segSizeTemp g = sharesLen cur \<and> metaChunkID g = - 1 - int (length segs)"

text \<open>After the last share.\<close>

definition segDone :: "openssl \<Rightarrow> cryptoPrimitive \<Rightarrow> up_item \<Rightarrow> bytes \<Rightarrow> share list \<Rightarrow> segmenter \<Rightarrow> bytes option \<Rightarrow> bool" where
  "segDone ssl c hdr K0 xs g v \<longleftrightarrow>
     (\<exists>ms keys. dataItems g = hdr # shareItems xs \<and> metaItems g = hdr # shareItems ms \<and> chunksFor ssl c (segmentsOf [] xs) ms keys \<and> contentsOf v = K0 @ keys)"

lemma shareItems_snoc: "shareItems (xs @ [x]) = map (pass False) xs @ [pass True x]"
  by (induction xs) (simp_all add: shareItems_Cons)

lemma add_simps [simp]:
  "segSizeTemp (add x g) = segSizeTemp g" "metaChunkCounter (add x g) = metaChunkCounter g" "metaChunkID (add x g) = metaChunkID g"
  "metaChunkBuffer (add x g) = metaChunkBuffer g" "dataItems (add x g) = dataItems g @ [x]" "metaItems (add x g) = metaItems g"
  by (simp_all add: add_def)

lemma addMeta_simps [simp]:
  "metaChunkBuffer (addMeta x g) = metaChunkBuffer g" "dataItems (addMeta x g) = dataItems g" "metaItems (addMeta x g) = metaItems g @ [x]"
  "segSizeTemp (addMeta x g) = segSizeTemp g" "metaChunkCounter (addMeta x g) = metaChunkCounter g" "metaChunkID (addMeta x g) = metaChunkID g"
  by (simp_all add: addMeta_def)

lemma overlay_front: "pos \<le> length buf \<Longrightarrow> overlay pos bs buf = take pos buf @ bs @ drop (pos + length bs) buf"
  by (simp add: overlay_def)

lemma metaChunk_run:
  assumes c: "crypto_valid ssl c" "crypto_paired c" "hashSize c = 32" "keySize c = 32" and op: "opens (shareKeyName i)"
    and g: "nodesFor cur (take (64 * length cur) (metaChunkBuffer g))" "length (metaChunkBuffer g) = SECRET_SIZE_META"
      "metaChunkCounter g = length cur" "metaChunkID g = - 1 - int j" "length cur \<le> 512"
  obtains g' x rcd where "metaChunk ssl c M opens fin i (g, f) = Done () (g', f(shareKeyName i \<mapsto> contentsOf (f (shareKeyName i)) @ rcd))"
    "chunkFor ssl c cur j x rcd" "dataItems g' = dataItems g" "metaItems g' = metaItems g @ [pass fin x]"
    "length (metaChunkBuffer g') = SECRET_SIZE_META" "metaChunkCounter g' = 0" "segSizeTemp g' = 0" "metaChunkID g' = - 2 - int j"
proof -
  define plain where "plain = take (64 * length cur) (metaChunkBuffer g)"
  note hash = hashOf_run [OF c(1,3)]
  have pl: "take (length cur * 64) (metaChunkBuffer g) = plain" by (simp add: plain_def mult.commute)
  have len: "length plain = 64 * length cur" using nodesFor_length [OF g(1)] by (simp add: plain_def)
  obtain ct where ct: "encryptWithKey ssl c plain (hashOf ssl c plain) = Inr ct"
    using crypto.encE [OF c(1,2), of "hashOf ssl c plain" plain] hash(2) c(4) len by auto
  define x :: share where "x = (\<lparr> mde_shareFP = hashOf ssl c ct, mde_secretID = - 1 - int j, mde_secretSize = 64 * int (length cur), mde_shareSize = 64 * int (length cur) \<rparr>, ct)"
  define rcd where "rcd = le 4 (- 1 - int j) @ hashOf ssl c ct @ hashOf ssl c plain"
  have "chunkFor ssl c cur j x rcd" unfolding chunkFor_def using g(1) ct by (auto simp: x_def rcd_def plain_def)
  moreover define g' where "g' = (addMeta (pass fin x) g)\<lparr>metaChunkID := metaChunkID g - 1, metaChunkBuffer := overlay 0 (replicate SECRET_SIZE 0) (metaChunkBuffer g),
                 segSizeTemp := 0, metaChunkCounter := 0, marks := marks g + 3\<rparr>"
  moreover have "metaChunk ssl c M opens fin i (g, f) = Done () (g', f(shareKeyName i \<mapsto> contentsOf (f (shareKeyName i)) @ rcd))"
    using op g(3-5) ct pl
    by (simp add: metaChunk_def Let_def hash(3) g'_def x_def rcd_def contentsOf_def RING_BUFFER_META_SIZE_def)
  moreover have "length (metaChunkBuffer g') = SECRET_SIZE_META" using g(2) by (simp add: g'_def addMeta_def SECRET_SIZE_def SECRET_SIZE_META_def)
  ultimately show thesis using that g(4) by (simp add: addMeta_def)
qed

lemma collectShare_run:
  assumes c: "crypto_valid ssl c" "crypto_paired c" "hashSize c = 32" "keySize c = 32" and op: "opens (shareKeyName i)"
    and x: "snd x = blockAt shareSize shares i" "length (snd x) = shareSize" "int shareSize \<le> RING_BUFFER_DATA_SIZE"
      "fst x = \<lparr> mde_shareFP = hashOf ssl c (snd x), mde_secretID = secretID, mde_secretSize = int secretSize, mde_shareSize = int shareSize \<rparr>" "okMDEntry (fst x)"
    and inv: "segInv ssl c hdr K0 xs segs cur g (f (shareKeyName i))" and short: "length cur < 512"
  obtains g' v where "collectShare ssl c M opens shares shareSize secretID secretSize fin i (g, f) = Done () (g', f(shareKeyName i := v))"
    "if fin then segDone ssl c hdr K0 (xs @ [x]) g' v
     else if endsSegment (mde_shareFP (fst x)) (sharesLen (cur @ [x])) then segInv ssl c hdr K0 (xs @ [x]) (segs @ [cur @ [x]]) [] g' v
     else segInv ssl c hdr K0 (xs @ [x]) segs (cur @ [x]) g' v"
proof -
  note hash = hashOf_run [OF c(1,3)]
  obtain ms keys where ms: "dataItems g = hdr # map (pass False) xs" "metaItems g = hdr # map (pass False) ms"
    "chunksFor ssl c segs ms keys" "contentsOf (f (shareKeyName i)) = K0 @ keys"
    and g: "\<forall>rest. segmentsOf [] (xs @ rest) = segs @ segmentsOf cur rest" "nodesFor cur (take (64 * length cur) (metaChunkBuffer g))"
      "length (metaChunkBuffer g) = SECRET_SIZE_META" "metaChunkCounter g = length cur" "segSizeTemp g = sharesLen cur" "metaChunkID g = - 1 - int (length segs)"
    using inv unfolding segInv_def by blast
  define node where "node = \<lparr> mn_shareFP = hashOf ssl c (snd x), mn_other = fresh M i (marks g + 1) 20, mn_secretID = secretID,
                      mn_secretSize = int secretSize, mn_shareSize = int shareSize \<rparr>"
  have nd: "nodeFor node x" using x(4,5) by (simp add: nodeFor_def node_def okMetaNode_def okMDEntry_def)
  then have nlen: "length (putMetaNode node) = 64" using metaNode.length_put by (simp add: nodeFor_def)
  define g1 where "g1 = add (pass fin x) (g\<lparr>segSizeTemp := segSizeTemp g + shareSize,
                       metaChunkBuffer := overlay (length cur * 64) (putMetaNode node) (metaChunkBuffer g), metaChunkCounter := metaChunkCounter g + 1, marks := marks g + 2\<rparr>)"
  have room: "64 * length cur + 64 \<le> SECRET_SIZE_META" using short by (simp add: SECRET_SIZE_META_def)
  have buf: "metaChunkBuffer g1 = (take (64 * length cur) (metaChunkBuffer g) @ putMetaNode node) @ drop (64 * length cur + 64) (metaChunkBuffer g)"
    using room g(3) nlen by (simp add: g1_def add_def overlay_front mult.commute)
  have n1: "nodesFor (cur @ [x]) (take (64 * length (cur @ [x])) (metaChunkBuffer g1))"
    using nodesFor_snoc [OF g(2) nd] nodesFor_length [OF g(2)] nlen by (simp add: buf)
  have g1: "length (metaChunkBuffer g1) = SECRET_SIZE_META" "metaChunkCounter g1 = length (cur @ [x])" "segSizeTemp g1 = sharesLen (cur @ [x])"
    "metaChunkID g1 = - 1 - int (length segs)" "dataItems g1 = dataItems g @ [pass fin x]" "metaItems g1 = metaItems g" "length (cur @ [x]) \<le> 512"
    using g(3-6) room nlen x(2) short by (simp_all add: buf) (simp_all add: g1_def add_def)
  have seg: "\<forall>rest. segmentsOf [] ((xs @ [x]) @ rest) = segs @ segmentsOf cur (x # rest)" using g(1) by simp
  have run: "collectShare ssl c M opens shares shareSize secretID secretSize fin i (g, f) =
     (if endsSegment (mde_shareFP (fst x)) (sharesLen (cur @ [x])) \<or> fin then metaChunk ssl c M opens fin i (g1, f) else Done () (g1, f))"
    using x g(4,5) room by (simp add: collectShare_def Let_def hash(3) g1_def node_def mult.commute flip: x(1))
  show thesis
  proof (cases "endsSegment (mde_shareFP (fst x)) (sharesLen (cur @ [x])) \<or> fin")
    case False
    then have "segInv ssl c hdr K0 (xs @ [x]) segs (cur @ [x]) g1 (f (shareKeyName i))"
      using ms g1 n1 seg unfolding segInv_def by auto
    then show thesis using that [of g1 "f (shareKeyName i)"] run False by simp
  next
    case True
    obtain g' y rcd where y: "metaChunk ssl c M opens fin i (g1, f) = Done () (g', f(shareKeyName i \<mapsto> contentsOf (f (shareKeyName i)) @ rcd))"
      "chunkFor ssl c (cur @ [x]) (length segs) y rcd" "dataItems g' = dataItems g1" "metaItems g' = metaItems g1 @ [pass fin y]"
      "length (metaChunkBuffer g') = SECRET_SIZE_META" "metaChunkCounter g' = 0" "segSizeTemp g' = 0" "metaChunkID g' = - 2 - int (length segs)"
      by (rule metaChunk_run [where opens = opens and i = i and fin = fin and f = f and M = M, OF c op n1 g1(1,2,4,7)])
    have ch: "chunksFor ssl c (segs @ [cur @ [x]]) (ms @ [y]) (keys @ rcd)" by (rule chunksFor_snoc [OF ms(3) y(2)])
    let ?v = "Some (contentsOf (f (shareKeyName i)) @ rcd)"
    have v: "contentsOf ?v = K0 @ keys @ rcd" using ms(4) by (simp add: contentsOf_def)
    have "if fin then segDone ssl c hdr K0 (xs @ [x]) g' ?v else segInv ssl c hdr K0 (xs @ [x]) (segs @ [cur @ [x]]) [] g' ?v"
    proof (cases fin)
      case True
      have "segmentsOf [] (xs @ [x]) = segs @ [cur @ [x]]" using spec [OF seg, of "[]"] by simp
      then show ?thesis using True ms(1,2) y(3,4) g1(5,6) ch v unfolding segDone_def
        by (auto simp: shareItems_snoc intro!: exI [of _ "ms @ [y]"] exI [of _ "keys @ rcd"])
    next
      case False
      then have "\<forall>rest. segmentsOf [] ((xs @ [x]) @ rest) = (segs @ [cur @ [x]]) @ segmentsOf [] rest" using seg \<open>endsSegment _ _ \<or> fin\<close> by simp
      moreover have "nodesFor [] []" by (simp add: nodesFor_def)
      ultimately show ?thesis using False ms(1,2) y(3-8) g1(5,6) ch v unfolding segInv_def
        by (auto intro!: exI [of _ "ms @ [y]"] exI [of _ "keys @ rcd"])
    qed
    then show thesis using that [of g' ?v] run True y(1) by (auto split: if_splits)
  qed
qed

section \<open>All clouds\<close>

lemma forClouds_run:
  assumes step: "\<And>i g f. P i g (f (key i)) \<Longrightarrow> \<exists>g' v. step i (g, f) = Done () (g', f(key i := v)) \<and> Q i g' v" and inj: "inj key"
  shows "\<forall>l<length gs. P (i + l) (gs ! l) (f (key (i + l))) \<Longrightarrow>
    \<exists>gs' f'. forClouds step i gs f = Done () (gs', f') \<and> length gs' = length gs \<and>
      (\<forall>l<length gs. Q (i + l) (gs' ! l) (f' (key (i + l)))) \<and> (\<forall>p. p \<notin> key ` {i..<i + length gs} \<longrightarrow> f' p = f p)"
proof (induction gs arbitrary: i f)
  case (Cons g gs)
  obtain g1 v where g1: "step i (g, f) = Done () (g1, f(key i := v))" "Q i g1 v" using step [of i g f] spec [OF Cons.prems, of 0] by auto
  have other: "(f(key i := v)) (key (Suc i + l)) = f (key (Suc i + l))" for l by (simp add: inj_eq [OF inj])
  have "\<forall>l<length gs. P (Suc i + l) (gs ! l) ((f(key i := v)) (key (Suc i + l)))"
    using Cons.prems unfolding other by fastforce
  from Cons.IH [OF this] obtain gs' f' where rest: "forClouds step (Suc i) gs (f(key i := v)) = Done () (gs', f')" "length gs' = length gs"
    "\<forall>l<length gs. Q (Suc i + l) (gs' ! l) (f' (key (Suc i + l)))" "\<forall>p. p \<notin> key ` {Suc i..<Suc i + length gs} \<longrightarrow> f' p = (f(key i := v)) p"
    by blast
  have "key i \<notin> key ` {Suc i..<Suc i + length gs}" by (auto simp: inj_eq [OF inj])
  then have fi: "f' (key i) = v" using rest(4) by simp
  have "Q (i + l) ((g1 # gs') ! l) (f' (key (i + l)))" if "l < length (g # gs)" for l
    using that g1(2) fi rest(3) by (cases l) auto
  moreover have "f' p = f p" if "p \<notin> key ` {i..<i + length (g # gs)}" for p
  proof -
    have "p \<noteq> key i" "p \<notin> key ` {Suc i..<Suc i + length gs}" using that by auto
    then show ?thesis using rest(4) by simp
  qed
  ultimately show ?case using g1(1) rest(1,2) by auto
qed simp

text \<open>A secret whose shares fit the buffers.\<close>

definition goodSecret :: "cdcodec \<Rightarrow> bytes \<Rightarrow> bool" where
  "goodSecret codec d \<longleftrightarrow> length d \<le> SECRET_SIZE \<and> shareSizeOf codec (length d) * codecN codec \<le> SHARE_BUFFER_SIZE \<and>
     int (shareSizeOf codec (length d)) \<le> RING_BUFFER_DATA_SIZE"

lemma goodCodec_crypto:
  assumes "goodCodec ssl codec"
  shows "crypto_valid ssl (cryptoObj codec)" "crypto_paired (cryptoObj codec)" "hashSize (cryptoObj codec) = 32" "keySize (cryptoObj codec) = 32"
  using assms by (auto simp: goodCodec_def rs_codec_def)

lemma cloudShare_good:
  assumes "goodCodec ssl codec" "goodSecret codec d" "i < codecN codec" "int j < 2147483648"
  shows "length (snd (cloudShare ssl codec i j d)) = shareSizeOf codec (length d)" "okMDEntry (fst (cloudShare ssl codec i j d))"
    "goodShare RING_BUFFER_DATA_SIZE (cloudShare ssl codec i j d)"
    "generateHash ssl (cryptoObj codec) (snd (cloudShare ssl codec i j d)) = Inr (mde_shareFP (fst (cloudShare ssl codec i j d)))"
proof -
  have d: "length d \<le> MAX_SECRET_SIZE" "int (length d) \<le> 16384" using assms(2) by (auto simp: goodSecret_def SECRET_SIZE_def MAX_SECRET_SIZE_def)
  note hash = hashOf_run [OF goodCodec_crypto(1,3) [OF assms(1)]]
  have sz: "int (shareSizeOf codec (length d)) \<le> 16384" "0 < shareSizeOf codec (length d)"
    using assms(2) encoding_run(3) [OF assms(1) d(1), of "replicate (shareSizeOf codec (length d) * codecN codec) 0"]
    by (simp_all add: goodSecret_def RING_BUFFER_DATA_SIZE_def)
  show len: "length (snd (cloudShare ssl codec i j d)) = shareSizeOf codec (length d)"
    using shareAt_length [OF assms(1) d(1) assms(3)] by (simp add: cloudShare_def)
  show ok: "okMDEntry (fst (cloudShare ssl codec i j d))" using hash(2) d(2) sz assms(4) by (simp add: cloudShare_def okMDEntry_def int32_def)
  show "goodShare RING_BUFFER_DATA_SIZE (cloudShare ssl codec i j d)"
    using len ok sz assms(2) by (simp add: goodShare_def goodSecret_def) (simp add: cloudShare_def)
  show "generateHash ssl (cryptoObj codec) (snd (cloudShare ssl codec i j d)) = Inr (mde_shareFP (fst (cloudShare ssl codec i j d)))"
    using hash(1) by (simp add: cloudShare_def)
qed

lemma encodeItem_run:
  assumes "goodCodec ssl codec" "goodSecret codec d" "length buffer = SHARE_BUFFER_SIZE"
  shows "encodeItem ssl rnd codec buffer (SecretObject d k fin) =
    Inr (ShareChunk (Some (sharesOf ssl codec d, shareSizeOf codec (length d))) k (length d) fin)"
proof -
  have "length d \<le> MAX_SECRET_SIZE" using assms(2) by (simp add: goodSecret_def SECRET_SIZE_def MAX_SECRET_SIZE_def)
  then show ?thesis using encoding_run(1) [OF assms(1), of d buffer rnd] assms(2,3) by (simp add: encodeItem_def goodSecret_def)
qed

lemma cloud_step:
  assumes codec: "goodCodec ssl codec" and d: "goodSecret codec d" "int j < 2147483648" and i: "i < codecN codec"
    and inv: "segInv ssl (cryptoObj codec) hdr K0 xs segs cur g (f (shareKeyName i))" and op: "opens (shareKeyName i)" and short: "length cur < 512"
  obtains g' v where "collectShare ssl (cryptoObj codec) M opens (sharesOf ssl codec d) (shareSizeOf codec (length d)) (int j) (length d) fin i (g, f) =
      Done () (g', f(shareKeyName i := v))"
    "if fin then segDone ssl (cryptoObj codec) hdr K0 (xs @ [cloudShare ssl codec i j d]) g' v
      else \<exists>segs. segInv ssl (cryptoObj codec) hdr K0 (xs @ [cloudShare ssl codec i j d]) segs
        (if endsSegment (mde_shareFP (fst (cloudShare ssl codec i j d))) (sharesLen (cur @ [cloudShare ssl codec i j d])) then [] else cur @ [cloudShare ssl codec i j d]) g' v"
proof -
  let ?x = "cloudShare ssl codec i j d" and ?sz = "shareSizeOf codec (length d)"
  note sh = cloudShare_good(1,2) [OF codec d(1) i d(2)]
  have parts: "snd ?x = blockAt ?sz (sharesOf ssl codec d) i" "fst ?x = \<lparr> mde_shareFP = hashOf ssl (cryptoObj codec) (snd ?x), mde_secretID = int j,
      mde_secretSize = int (length d), mde_shareSize = int ?sz \<rparr>" by (simp_all add: cloudShare_def shareAt_def)
  have small: "int ?sz \<le> RING_BUFFER_DATA_SIZE" using d(1) by (simp add: goodSecret_def)
  show thesis
    by (rule collectShare_run [where f = f and i = i and fin = fin and M = M and opens = opens, OF goodCodec_crypto [OF codec] op parts(1) sh(1) small parts(2) sh(2) inv short])
       (rule that, auto split: if_splits)
qed

text \<open>One secret for all clouds, and then all secrets.\<close>

definition allInv :: "openssl \<Rightarrow> cdcodec \<Rightarrow> (nat \<Rightarrow> up_item) \<Rightarrow> (nat \<Rightarrow> bytes) \<Rightarrow> (nat \<Rightarrow> share list) \<Rightarrow> (nat \<Rightarrow> share list) \<Rightarrow> segmenter list \<times> files \<Rightarrow> bool" where
  "allInv ssl codec hdr K0 xs cur st \<longleftrightarrow> length (fst st) = codecN codec \<and>
     (\<forall>i<codecN codec. \<exists>segs. segInv ssl (cryptoObj codec) (hdr i) (K0 i) (xs i) segs (cur i) (fst st ! i) (snd st (shareKeyName i)))"

lemma secret_run:
  assumes codec: "goodCodec ssl codec" and d: "goodSecret codec d" "int j < 2147483648" "length buffer = SHARE_BUFFER_SIZE"
    and op: "\<forall>i<codecN codec. opens (shareKeyName i)" and short: "\<forall>i<codecN codec. length (cur i) < 512"
    and inv: "allInv ssl codec hdr K0 xs cur (gs, f)"
  obtains gs' f' where
    "collectItem ssl rnd codec (cryptoObj codec) M opens (encodeItem ssl rnd codec buffer (SecretObject d (int j) fin)) (gs, f) = Done () (gs', f')"
    "if fin then \<forall>i<codecN codec. segDone ssl (cryptoObj codec) (hdr i) (K0 i) (xs i @ [cloudShare ssl codec i j d]) (gs' ! i) (f' (shareKeyName i))
     else allInv ssl codec hdr K0 (\<lambda>i. xs i @ [cloudShare ssl codec i j d])
       (\<lambda>i. let x = cloudShare ssl codec i j d in if endsSegment (mde_shareFP (fst x)) (sharesLen (cur i @ [x])) then [] else cur i @ [x]) (gs', f')"
    "length gs' = codecN codec" "\<forall>p. p \<notin> shareKeyName ` {..<codecN codec} \<longrightarrow> f' p = f p"
proof -
  let ?c = "cryptoObj codec" and ?x = "\<lambda>i. cloudShare ssl codec i j d"
  let ?sz = "shareSizeOf codec (length d)" and ?shares = "sharesOf ssl codec d"
  note enc = encodeItem_run [OF codec d(1,3), of rnd "int j" fin]
  let ?step = "collectShare ssl ?c M opens ?shares ?sz (int j) (length d) fin"
  let ?P = "\<lambda>i g v. i < codecN codec \<and> (\<exists>segs. segInv ssl ?c (hdr i) (K0 i) (xs i) segs (cur i) g v)"
  let ?Q = "\<lambda>i g v. if fin then segDone ssl ?c (hdr i) (K0 i) (xs i @ [?x i]) g v
      else \<exists>segs. segInv ssl ?c (hdr i) (K0 i) (xs i @ [?x i]) segs (if endsSegment (mde_shareFP (fst (?x i))) (sharesLen (cur i @ [?x i])) then [] else cur i @ [?x i]) g v"
  have "\<exists>g' v. ?step i (g, f) = Done () (g', f(shareKeyName i := v)) \<and> ?Q i g' v" if P: "?P i g (f (shareKeyName i))" for i g f
  proof -
    obtain segs where "i < codecN codec" "segInv ssl ?c (hdr i) (K0 i) (xs i) segs (cur i) g (f (shareKeyName i))" using P by blast
    then obtain g' v where "?step i (g, f) = Done () (g', f(shareKeyName i := v))" "?Q i g' v"
      by (rule cloud_step [OF codec d(1,2), where fin = fin and M = M and opens = opens and f = f]) (use op short P in auto)
    then show ?thesis by blast
  qed
  moreover have "inj shareKeyName" by (simp add: inj_def shareKeyName_inj)
  moreover have "\<forall>l<length gs. ?P (0 + l) (gs ! l) (f (shareKeyName (0 + l)))" using inv by (auto simp: allInv_def)
  ultimately obtain gs' f' where run: "forClouds ?step 0 gs f = Done () (gs', f')" "length gs' = length gs"
    "\<forall>l<length gs. ?Q (0 + l) (gs' ! l) (f' (shareKeyName (0 + l)))" "\<forall>p. p \<notin> shareKeyName ` {0..<0 + length gs} \<longrightarrow> f' p = f p"
    using forClouds_run [where P = ?P and Q = ?Q and key = shareKeyName and step = ?step and gs = gs and i = 0 and f = f] by blast
  show thesis
    by (rule that [of gs' f']) (use run enc inv in \<open>auto simp: collectItem_def allInv_def Let_def atLeast0LessThan split: if_splits\<close>)
qed

lemma segmentsOf_next:
  shows "\<exists>seg\<in>set (segmentsOf cur (x # xs)). length cur < length seg"
    and "set (segmentsOf (if endsSegment (mde_shareFP (fst x)) (sharesLen (cur @ [x])) then [] else cur @ [x]) xs) \<subseteq> set (segmentsOf cur (x # xs))"
proof -
  show "\<exists>seg\<in>set (segmentsOf cur (x # xs)). length cur < length seg"
  proof (cases "endsSegment (mde_shareFP (fst x)) (sharesLen (cur @ [x]))")
    case False
    then show ?thesis using segmentsOf_grows [of "cur @ [x]" xs] by (auto simp: Suc_le_eq)
  qed simp
qed auto

lemma secrets_run:
  assumes codec: "goodCodec ssl codec" and buffer: "length buffer = SHARE_BUFFER_SIZE" and op: "\<forall>i<codecN codec. opens (shareKeyName i)"
  shows "ds \<noteq> [] \<Longrightarrow> \<forall>d\<in>set ds. goodSecret codec d \<Longrightarrow> int (j + length ds) \<le> 2147483648 \<Longrightarrow> allInv ssl codec hdr K0 xs cur (gs, f) \<Longrightarrow>
    \<forall>i<codecN codec. \<forall>seg\<in>set (segmentsOf (cur i) (cloudShares ssl codec i j ds)). length seg \<le> 512 \<Longrightarrow>
    \<exists>gs' f'. collect ssl rnd codec (cryptoObj codec) M opens (map (encodeItem ssl rnd codec buffer) (secretItems j ds)) (gs, f) = Done () (gs', f') \<and>
      (\<forall>i<codecN codec. segDone ssl (cryptoObj codec) (hdr i) (K0 i) (xs i @ cloudShares ssl codec i j ds) (gs' ! i) (f' (shareKeyName i))) \<and>
      length gs' = codecN codec \<and> (\<forall>p. p \<notin> shareKeyName ` {..<codecN codec} \<longrightarrow> f' p = f p)"
proof (induction ds arbitrary: j xs cur gs f)
  case (Cons d ds)
  let ?cur = "\<lambda>i. let x = cloudShare ssl codec i j d in if endsSegment (mde_shareFP (fst x)) (sharesLen (cur i @ [x])) then [] else cur i @ [x]"
  have short: "\<forall>i<codecN codec. length (cur i) < 512"
  proof (intro allI impI)
    fix i assume i: "i < codecN codec"
    then obtain seg where "seg \<in> set (segmentsOf (cur i) (cloudShares ssl codec i j (d # ds)))" "length (cur i) < length seg"
      using segmentsOf_next(1) [of "cur i" "cloudShare ssl codec i j d" "cloudShares ssl codec i (Suc j) ds"] by auto
    then show "length (cur i) < 512" using Cons.prems(5) i by fastforce
  qed
  have d: "goodSecret codec d" "int j < 2147483648" using Cons.prems(2,3) by simp_all
  obtain gs1 f1 where 1:
    "collectItem ssl rnd codec (cryptoObj codec) M opens (encodeItem ssl rnd codec buffer (SecretObject d (int j) (ds = []))) (gs, f) = Done () (gs1, f1)"
    "if ds = [] then \<forall>i<codecN codec. segDone ssl (cryptoObj codec) (hdr i) (K0 i) (xs i @ [cloudShare ssl codec i j d]) (gs1 ! i) (f1 (shareKeyName i))
     else allInv ssl codec hdr K0 (\<lambda>i. xs i @ [cloudShare ssl codec i j d]) ?cur (gs1, f1)"
    "length gs1 = codecN codec" "\<forall>p. p \<notin> shareKeyName ` {..<codecN codec} \<longrightarrow> f1 p = f p"
    by (rule secret_run [OF codec d buffer op short Cons.prems(4), where fin = "ds = []"])
  show ?case
  proof (cases "ds = []")
    case True
    then show ?thesis using 1 by auto
  next
    case False
    have segs: "\<forall>i<codecN codec. \<forall>seg\<in>set (segmentsOf (?cur i) (cloudShares ssl codec i (Suc j) ds)). length seg \<le> 512"
      using Cons.prems(5) segmentsOf_next(2) unfolding Let_def cloudShares.simps(2) by blast
    have "\<exists>gs' f'. collect ssl rnd codec (cryptoObj codec) M opens (map (encodeItem ssl rnd codec buffer) (secretItems (Suc j) ds)) (gs1, f1) = Done () (gs', f') \<and>
      (\<forall>i<codecN codec. segDone ssl (cryptoObj codec) (hdr i) (K0 i) ((xs i @ [cloudShare ssl codec i j d]) @ cloudShares ssl codec i (Suc j) ds) (gs' ! i) (f' (shareKeyName i))) \<and>
      length gs' = codecN codec \<and> (\<forall>p. p \<notin> shareKeyName ` {..<codecN codec} \<longrightarrow> f' p = f1 p)"
      by (rule Cons.IH [OF False _ _ _ segs]) (use Cons.prems(2,3) 1(2) False in simp_all)
    then show ?thesis using 1(1,4) by auto
  qed
qed simp

section \<open>The header\<close>

definition fileHead :: "cdcodec \<Rightarrow> bytes \<Rightarrow> int \<Rightarrow> fileShareMDHead" where
  "fileHead codec name fileSize = \<lparr> mdh_fullNameSize = int (shareSizeOf codec (length name)), mdh_fileSize = fileSize, mdh_numOfPastSecrets = 0,
     mdh_sizeOfPastSecrets = 0, mdh_numOfComingSecrets = 0, mdh_sizeOfComingSecrets = 0 \<rparr>"

abbreviation cloudHeader :: "openssl \<Rightarrow> cdcodec \<Rightarrow> bytes \<Rightarrow> int \<Rightarrow> nat \<Rightarrow> up_item" where
  "cloudHeader ssl codec name fileSize i \<equiv> FileHeader (fileHead codec name fileSize) (shareAt ssl codec i name)"

text \<open>A name whose shares fit the array of 32 bytes per character that is made for them.\<close>

definition goodName :: "cdcodec \<Rightarrow> bytes \<Rightarrow> bool" where
  "goodName codec name \<longleftrightarrow> length name \<le> SECRET_SIZE \<and> shareSizeOf codec (length name) * codecN codec \<le> length name * 32 \<and>
     int (shareSizeOf codec (length name)) \<le> RING_BUFFER_DATA_SIZE"

lemma header_done:
  assumes "goodCodec ssl codec" "goodName codec name"
  shows "\<exists>gs. collectItem ssl rnd codec (cryptoObj codec) M opens (encodeItem ssl rnd codec buffer (FileObject name fileSize))
      (map (mkSegmenter M) [0..<codecN codec], f) = Done () (gs, f) \<and>
    allInv ssl codec (cloudHeader ssl codec name fileSize) (\<lambda>i. contentsOf (f (shareKeyName i))) (\<lambda>_. []) (\<lambda>_. []) (gs, f)"
proof -
  let ?n = "codecN codec"
  define gs where "gs = map (\<lambda>i. let x = cloudHeader ssl codec name fileSize i in addMeta x (add x (mkSegmenter M i))) [0..<?n]"
  have max: "length name \<le> MAX_SECRET_SIZE" using assms(2) by (simp add: goodName_def SECRET_SIZE_def MAX_SECRET_SIZE_def)
  have "encoding ssl rnd codec name (fresh M ?n 0 (length name * 32)) = Inr (sharesOf ssl codec name, shareSizeOf codec (length name))"
    by (rule encoding_run(1) [OF assms(1) max]) (use assms(2) in \<open>simp add: goodName_def\<close>)
  then have "collectHeader ssl rnd M codec name fileSize (map (mkSegmenter M) [0..<?n]) = Done () gs"
    using assms(2) by (simp add: collectHeader_def goodName_def Let_def fileHead_def gs_def shareAt_def)
  moreover have "allInv ssl codec (cloudHeader ssl codec name fileSize) (\<lambda>i. contentsOf (f (shareKeyName i))) (\<lambda>_. []) (\<lambda>_. []) (gs, f)"
    by (auto simp: allInv_def gs_def segInv_def Let_def mkSegmenter_def chunksFor_def nodesFor_def)
  ultimately show ?thesis by (auto simp: collectItem_def encodeItem_def)
qed

lemma encodeFile_run:
  assumes codec: "goodCodec ssl codec" and name: "goodName codec name"
    and ds: "ds \<noteq> []" "\<forall>d\<in>set ds. goodSecret codec d" "int (length ds) \<le> 2147483648"
    and buffer: "length buffer = SHARE_BUFFER_SIZE" and op: "\<forall>i<codecN codec. opens (shareKeyName i)"
    and segs: "\<forall>i<codecN codec. \<forall>seg\<in>set (segmentsOf [] (cloudShares ssl codec i 0 ds)). length seg \<le> 512"
  obtains gs f' where "encodeFile ssl rnd codec (cryptoObj codec) M opens buffer (FileObject name fileSize # secretItems 0 ds) f = Done () (gs, f')"
    "length gs = codecN codec" "\<forall>p. p \<notin> shareKeyName ` {..<codecN codec} \<longrightarrow> f' p = f p"
    "\<forall>i<codecN codec. segDone ssl (cryptoObj codec) (cloudHeader ssl codec name fileSize i) (contentsOf (f (shareKeyName i)))
       (cloudShares ssl codec i 0 ds) (gs ! i) (f' (shareKeyName i))"
proof -
  obtain gs where hdr: "collectItem ssl rnd codec (cryptoObj codec) M opens (encodeItem ssl rnd codec buffer (FileObject name fileSize))
      (map (mkSegmenter M) [0..<codecN codec], f) = Done () (gs, f)"
    "allInv ssl codec (cloudHeader ssl codec name fileSize) (\<lambda>i. contentsOf (f (shareKeyName i))) (\<lambda>_. []) (\<lambda>_. []) (gs, f)"
    using header_done [OF codec name] by blast
  have lim: "int (0 + length ds) \<le> 2147483648" using ds(3) by simp
  obtain gs' f' where "collect ssl rnd codec (cryptoObj codec) M opens (map (encodeItem ssl rnd codec buffer) (secretItems 0 ds)) (gs, f) = Done () (gs', f')"
    "\<forall>i<codecN codec. segDone ssl (cryptoObj codec) (cloudHeader ssl codec name fileSize i) (contentsOf (f (shareKeyName i)))
       ([] @ cloudShares ssl codec i 0 ds) (gs' ! i) (f' (shareKeyName i))"
    "length gs' = codecN codec" "\<forall>p. p \<notin> shareKeyName ` {..<codecN codec} \<longrightarrow> f' p = f p"
    using secrets_run [OF codec buffer op ds(1,2) lim hdr(2) segs, where rnd = rnd and M = M] by auto
  then show thesis using that hdr(1) by (simp add: encodeFile_def)
qed

section \<open>Segments that are too long\<close>

lemma forClouds_crash:
  assumes step: "\<And>i g f. P i g (f (key i)) \<Longrightarrow> step i (g, f) = Crash e \<or> (\<exists>g' v. step i (g, f) = Done () (g', f(key i := v)))" and inj: "inj key"
    and bad: "\<And>f. step (i + b) (gs ! b, f) = Crash e" "b < length gs"
  shows "\<forall>l<length gs. P (i + l) (gs ! l) (f (key (i + l))) \<Longrightarrow> forClouds step i gs f = Crash e"
  using bad
proof (induction gs arbitrary: i f b)
  case (Cons g gs)
  have first: "P i g (f (key i))" using spec [OF Cons.prems(1), of 0] by simp
  show ?case
  proof (cases "step i (g, f) = Crash e")
    case False
    then obtain g1 v where g1: "step i (g, f) = Done () (g1, f(key i := v))" using step [of i g f] first by blast
    then obtain b' where b: "b = Suc b'" using Cons.prems(2) [of f] False by (cases b) auto
    have other: "(f(key i := v)) (key (Suc i + l)) = f (key (Suc i + l))" for l by (simp add: inj_eq [OF inj])
    have "forClouds step (Suc i) gs (f(key i := v)) = Crash e"
    proof (rule Cons.IH [where b = b'])
      show "\<forall>l<length gs. P (Suc i + l) (gs ! l) ((f(key i := v)) (key (Suc i + l)))" using Cons.prems(1) unfolding other by fastforce
    qed (use Cons.prems(2,3) b in auto)
    then show ?thesis using g1 by simp
  qed simp
qed simp

text \<open>A node that does not fit any more.\<close>

lemma collectShare_full:
  assumes "512 \<le> metaChunkCounter g"
  shows "collectShare ssl c M opens shares shareSize secretID secretSize fin i (g, f) = Crash BufferOverflow"
  using assms by (simp add: collectShare_def Let_def SECRET_SIZE_META_def)

lemma secret_overflows:
  assumes codec: "goodCodec ssl codec" and d: "goodSecret codec d" "int j < 2147483648" "length buffer = SHARE_BUFFER_SIZE"
    and op: "\<forall>i<codecN codec. opens (shareKeyName i)" and inv: "allInv ssl codec hdr K0 xs cur (gs, f)"
    and full: "b < codecN codec" "512 \<le> length (cur b)"
  shows "collectItem ssl rnd codec (cryptoObj codec) M opens (encodeItem ssl rnd codec buffer (SecretObject d (int j) fin)) (gs, f) = Crash BufferOverflow"
proof -
  let ?c = "cryptoObj codec" and ?x = "\<lambda>i. cloudShare ssl codec i j d"
  let ?sz = "shareSizeOf codec (length d)" and ?shares = "sharesOf ssl codec d"
  note enc = encodeItem_run [OF codec d(1,3), of rnd "int j" fin]
  let ?step = "collectShare ssl ?c M opens ?shares ?sz (int j) (length d) fin"
  let ?P = "\<lambda>i g v. i < codecN codec \<and> (\<exists>segs. segInv ssl ?c (hdr i) (K0 i) (xs i) segs (cur i) g v)"
  have "?step i (g, f) = Crash BufferOverflow \<or> (\<exists>g' v. ?step i (g, f) = Done () (g', f(shareKeyName i := v)))"
    if P: "?P i g (f (shareKeyName i))" for i g f
  proof (cases "length (cur i) < 512")
    case True
    obtain segs where "i < codecN codec" "segInv ssl ?c (hdr i) (K0 i) (xs i) segs (cur i) g (f (shareKeyName i))" using P by blast
    then obtain g' v where "?step i (g, f) = Done () (g', f(shareKeyName i := v))"
      by (rule cloud_step [OF codec d(1,2), where fin = fin and M = M and opens = opens and f = f]) (use op True P in auto)
    then show ?thesis by blast
  next
    case False
    then show ?thesis using P collectShare_full [of g] by (auto simp: segInv_def)
  qed
  moreover have "\<forall>l<length gs. ?P (0 + l) (gs ! l) (f (shareKeyName (0 + l)))" using inv by (auto simp: allInv_def)
  moreover have "?step (0 + b) (gs ! b, f') = Crash BufferOverflow" for f'
    using inv full by (intro collectShare_full) (auto simp: allInv_def segInv_def)
  moreover have "inj shareKeyName" "b < length gs" using inv full(1) by (simp_all add: inj_def shareKeyName_inj allInv_def)
  ultimately have "forClouds ?step 0 gs f = Crash BufferOverflow"
    using forClouds_crash [where P = ?P and key = shareKeyName and step = ?step and gs = gs and i = 0 and f = f and b = b and e = BufferOverflow] by blast
  then show ?thesis by (simp add: enc collectItem_def)
qed

lemma secrets_overflow:
  assumes codec: "goodCodec ssl codec" and buffer: "length buffer = SHARE_BUFFER_SIZE" and op: "\<forall>i<codecN codec. opens (shareKeyName i)"
  shows "\<forall>d\<in>set ds. goodSecret codec d \<Longrightarrow> int (j + length ds) \<le> 2147483648 \<Longrightarrow> allInv ssl codec hdr K0 xs cur (gs, f) \<Longrightarrow>
    \<forall>i<codecN codec. length (cur i) \<le> 512 \<Longrightarrow>
    b < codecN codec \<Longrightarrow> \<exists>seg\<in>set (segmentsOf (cur b) (cloudShares ssl codec b j ds)). 512 < length seg \<Longrightarrow>
    collect ssl rnd codec (cryptoObj codec) M opens (map (encodeItem ssl rnd codec buffer) (secretItems j ds)) (gs, f) = Crash BufferOverflow"
proof (induction ds arbitrary: j xs cur gs f)
  case (Cons d ds)
  have d: "goodSecret codec d" "int j < 2147483648" using Cons.prems(1,2) by simp_all
  show ?case
  proof (cases "\<exists>i<codecN codec. 512 \<le> length (cur i)")
    case True
    then show ?thesis using secret_overflows [OF codec d buffer op Cons.prems(3), where fin = "ds = []"] by auto
  next
    case False
    let ?cur = "\<lambda>i. let x = cloudShare ssl codec i j d in if endsSegment (mde_shareFP (fst x)) (sharesLen (cur i @ [x])) then [] else cur i @ [x]"
    have short: "\<forall>i<codecN codec. length (cur i) < 512" using False by auto
    have rest: "\<exists>seg\<in>set (segmentsOf (?cur b) (cloudShares ssl codec b (Suc j) ds)). 512 < length seg"
      using Cons.prems(5,6) short by (fastforce simp: Let_def split: if_splits)
    have ne: "ds \<noteq> []" using rest short Cons.prems(5) by (fastforce simp: Let_def split: if_splits)
    obtain gs1 f1 where 1:
      "collectItem ssl rnd codec (cryptoObj codec) M opens (encodeItem ssl rnd codec buffer (SecretObject d (int j) (ds = []))) (gs, f) = Done () (gs1, f1)"
      "if ds = [] then \<forall>i<codecN codec. segDone ssl (cryptoObj codec) (hdr i) (K0 i) (xs i @ [cloudShare ssl codec i j d]) (gs1 ! i) (f1 (shareKeyName i))
       else allInv ssl codec hdr K0 (\<lambda>i. xs i @ [cloudShare ssl codec i j d]) ?cur (gs1, f1)"
      by (rule secret_run [OF codec d buffer op short Cons.prems(3), where fin = "ds = []"])
    have "collect ssl rnd codec (cryptoObj codec) M opens (map (encodeItem ssl rnd codec buffer) (secretItems (Suc j) ds)) (gs1, f1) = Crash BufferOverflow"
      by (rule Cons.IH [where cur = ?cur, OF _ _ _ _ Cons.prems(5) rest]) (use Cons.prems(1,2) 1(2) ne short in \<open>auto simp: Let_def Suc_le_eq\<close>)
    then show ?thesis using 1(1) by simp
  qed
qed (auto split: if_splits)

lemma segmentsOf_none: "\<forall>x\<in>set xs. (sle (slice 0 4 (mde_shareFP (fst x))) AND (DIVISOR - 1)) \<noteq> PATTERN \<Longrightarrow> sharesLen (cur @ xs) \<le> MAX_SEGMENT_SIZE \<Longrightarrow> cur @ xs \<noteq> [] \<Longrightarrow>
    segmentsOf cur xs = [cur @ xs]"
  by (induction cur xs rule: segmentsOf.induct) (auto simp: endsSegment_def)

lemma cloudShares_nth: "l < length ds \<Longrightarrow> cloudShares ssl codec i j ds ! l = cloudShare ssl codec i (j + l) (ds ! l)"
proof (induction ds arbitrary: j l)
  case (Cons d ds)
  then show ?case by (cases l) simp_all
qed simp

lemma length_cloudShares [simp]: "length (cloudShares ssl codec i j ds) = length ds"
  by (induction ds arbitrary: j) simp_all

section \<open>Properties\<close>

text \<open>The shares fit the objects and have their fingerprints, and any k of a secret's shares give it back.\<close>

lemma cloudShares_good:
  assumes "goodCodec ssl codec" "\<forall>d\<in>set ds. goodSecret codec d" "int (length ds) \<le> 2147483648"
    and "i < codecN codec" "x \<in> set (cloudShares ssl codec i 0 ds)"
  shows "goodShare RING_BUFFER_DATA_SIZE x \<and> generateHash ssl (cryptoObj codec) (snd x) = Inr (mde_shareFP (fst x))"
proof -
  obtain l where l: "l < length ds" "x = cloudShare ssl codec i l (ds ! l)"
    using assms(5) cloudShares_nth [of _ ds ssl codec i 0] by (auto simp: in_set_conv_nth)
  then show ?thesis using cloudShare_good(3,4) [OF assms(1), of "ds ! l" i l] assms(2-4) by auto
qed

lemma cloudShares_decode:
  assumes "goodCodec ssl codec" "\<forall>d\<in>set ds. goodSecret codec d" "l < length ds"
    and "length ids = codecK codec \<and> distinct ids \<and> (\<forall>i\<in>set ids. i < codecN codec)"
  shows "decoding ssl codec (concat (map (\<lambda>i. snd (cloudShares ssl codec i 0 ds ! l)) ids)) ids (shareSizeOf codec (length (ds ! l))) (length (ds ! l)) = Inr (ds ! l)"
proof -
  have "goodSecret codec (ds ! l)" using assms(2,3) by simp
  then have "length (ds ! l) \<le> MAX_SECRET_SIZE" by (simp add: goodSecret_def SECRET_SIZE_def MAX_SECRET_SIZE_def)
  then show ?thesis
    using encoding_run(4) [OF assms(1), of "ds ! l" "replicate (shareSizeOf codec (length (ds ! l)) * codecN codec) 0" ids] assms(3,4)
    by (simp add: good_ids_def cloudShares_nth cloudShare_def)
qed

text \<open>The key in the record of a chunk decrypts the chunk to the list of the shares of its segment.\<close>

lemma chunk_decrypts:
  assumes "goodCodec ssl codec" "chunksFor ssl (cryptoObj codec) segs ms keys" "j < length segs"
  shows "\<exists>plain. nodesFor (segs ! j) plain \<and> decryptWithKey ssl (cryptoObj codec) (snd (ms ! j)) (slice (68 * j + 36) 32 keys) = Inr plain"
proof -
  let ?c = "cryptoObj codec"
  note crypt = goodCodec_crypto [OF assms(1)]
  note hash = hashOf_run(2) [OF crypt(1,3)]
  obtain rs where rs: "length rs = length segs" "keys = concat rs" "\<forall>j<length segs. chunkFor ssl ?c (segs ! j) j (ms ! j) (rs ! j)"
    using assms(2) by (auto simp: chunksFor_def)
  have "length (rs ! i) = 68" if "i < length rs" for i using that rs(1,3) hash by (auto simp: chunkFor_def)
  then have "blockAt 68 keys j = rs ! j"
    using blockAt_concat [of "length rs" "(!) rs" 68 j] assms(3) rs(1,2) unfolding map_nth by simp
  then have slice: "slice 36 32 (rs ! j) = slice (68 * j + 36) 32 keys" by (simp add: blockAt_def slice_def drop_take add.commute flip: \<open>_ = rs ! j\<close>)
  obtain plain where plain: "nodesFor (segs ! j) plain" "encryptWithKey ssl ?c plain (hashOf ssl ?c plain) = Inr (snd (ms ! j))"
    "rs ! j = le 4 (- 1 - int j) @ hashOf ssl ?c (snd (ms ! j)) @ hashOf ssl ?c plain"
    using rs(3) assms(3) by (auto simp: chunkFor_def)
  have "length plain = 64 * length (segs ! j)" by (rule nodesFor_length [OF plain(1)])
  then have len: "16 dvd length plain" "length (hashOf ssl ?c plain) = nat (keySize ?c)" using hash crypt(4) by (simp_all add: dvd_mult2)
  have "decryptWithKey ssl ?c (snd (ms ! j)) (hashOf ssl ?c plain) = Inr plain"
    using crypto.enc_total [OF crypt(1,2) len(2,1)] plain(2) by auto
  moreover have "slice 36 32 (rs ! j) = hashOf ssl ?c plain" using hash unfolding plain(3) by (simp add: slice_def)
  ultimately show ?thesis using plain(1) slice by auto
qed

text \<open>
  C34. What the encoder hands to the uploader. For a file with at least one secret, whose secrets and name fit the buffers and
  whose segments have at most 512 shares, the encoder comes to the end without a crash. Every cloud gets, for its data server,
  the header with its share of the name and, in order, its share of every secret with size and fingerprint, the last one marked; and, for its
  metadata server, the same header and one chunk per segment of these shares, which is the list of their fingerprints and sizes
  encrypted under its own hash and marked in the same way. The key file of the cloud gets a record with number, fingerprint and key
  of every chunk, and decrypting the chunk with the key of its record gives this list. Any k of the clouds have shares from which each
  secret is decoded. The encoder is one for CAONT-RS with the HIGH pair of hash and cipher.
\<close>

theorem encoder_serves_clouds:
  assumes "gf_laws gf" "evp_ok ssl" "mkEncoder gf CAONT_RS_TYPE n m r HIGH_SEC_PAIR_TYPE = Some (codec, c)"
    and "goodName codec name" "ds \<noteq> []" "\<forall>d\<in>set ds. goodSecret codec d" "int (length ds) \<le> 2147483648"
    and "length buffer = SHARE_BUFFER_SIZE" "\<forall>i<nat n. opens (shareKeyName i)"
    and "\<forall>i<nat n. \<forall>seg\<in>set (segmentsOf [] (cloudShares ssl codec i 0 ds)). length seg \<le> 512"
  shows "\<exists>gs f'. encodeFile ssl rnd codec c M opens buffer (FileObject name fileSize # secretItems 0 ds) f = Done () (gs, f') \<and> length gs = nat n \<and>
    (\<forall>i<nat n. let xs = cloudShares ssl codec i 0 ds; hdr = FileHeader (fileHead codec name fileSize) (shareAt ssl codec i name) in
       \<exists>ms keys. dataItems (gs ! i) = hdr # shareItems xs \<and> metaItems (gs ! i) = hdr # shareItems ms \<and>
         chunksFor ssl c (segmentsOf [] xs) ms keys \<and> contentsOf (f' (shareKeyName i)) = contentsOf (f (shareKeyName i)) @ keys \<and>
         (\<forall>j<length (segmentsOf [] xs). \<exists>plain. nodesFor (segmentsOf [] xs ! j) plain \<and> decryptWithKey ssl c (snd (ms ! j)) (slice (68 * j + 36) 32 keys) = Inr plain) \<and>
         (\<forall>x\<in>set xs. goodShare RING_BUFFER_DATA_SIZE x \<and> generateHash ssl c (snd x) = Inr (mde_shareFP (fst x)))) \<and>
    (\<forall>p. p \<notin> shareKeyName ` {..<nat n} \<longrightarrow> f' p = f p) \<and>
    (\<forall>l<length ds. \<forall>ids. length ids = nat (n - m) \<and> distinct ids \<and> (\<forall>i\<in>set ids. i < nat n) \<longrightarrow>
       decoding ssl codec (concat (map (\<lambda>i. snd (cloudShares ssl codec i 0 ds ! l)) ids)) ids (shareSizeOf codec (length (ds ! l))) (length (ds ! l)) = Inr (ds ! l))"
proof -
  note codec = mkEncoder_good [OF assms(1-3)]
  obtain gs f' where run: "encodeFile ssl rnd codec (cryptoObj codec) M opens buffer (FileObject name fileSize # secretItems 0 ds) f = Done () (gs, f')"
    "length gs = codecN codec" "\<forall>p. p \<notin> shareKeyName ` {..<codecN codec} \<longrightarrow> f' p = f p"
    "\<forall>i<codecN codec. segDone ssl (cryptoObj codec) (cloudHeader ssl codec name fileSize i) (contentsOf (f (shareKeyName i)))
       (cloudShares ssl codec i 0 ds) (gs ! i) (f' (shareKeyName i))"
    by (rule encodeFile_run [OF codec(1) assms(4-8)]) (use assms(9,10) codec(3) in simp_all)
  note good = cloudShares_good [OF codec(1) assms(6,7)] and decode = cloudShares_decode [OF codec(1) assms(6)]
  have cloud: "\<exists>ms keys. dataItems (gs ! i) = cloudHeader ssl codec name fileSize i # shareItems (cloudShares ssl codec i 0 ds) \<and>
      metaItems (gs ! i) = cloudHeader ssl codec name fileSize i # shareItems ms \<and> chunksFor ssl c (segmentsOf [] (cloudShares ssl codec i 0 ds)) ms keys \<and>
      contentsOf (f' (shareKeyName i)) = contentsOf (f (shareKeyName i)) @ keys \<and>
      (\<forall>j<length (segmentsOf [] (cloudShares ssl codec i 0 ds)). \<exists>plain. nodesFor (segmentsOf [] (cloudShares ssl codec i 0 ds) ! j) plain \<and>
        decryptWithKey ssl c (snd (ms ! j)) (slice (68 * j + 36) 32 keys) = Inr plain)" if i: "i < codecN codec" for i
  proof -
    obtain ms keys where m: "dataItems (gs ! i) = cloudHeader ssl codec name fileSize i # shareItems (cloudShares ssl codec i 0 ds)"
      "metaItems (gs ! i) = cloudHeader ssl codec name fileSize i # shareItems ms" "chunksFor ssl (cryptoObj codec) (segmentsOf [] (cloudShares ssl codec i 0 ds)) ms keys"
      "contentsOf (f' (shareKeyName i)) = contentsOf (f (shareKeyName i)) @ keys"
      using run(4) i unfolding segDone_def by blast
    then show ?thesis using chunk_decrypts [OF codec(1) m(3)] codec(2) by blast
  qed
  have shares: "\<forall>x\<in>set (cloudShares ssl codec i 0 ds). goodShare RING_BUFFER_DATA_SIZE x \<and> generateHash ssl c (snd x) = Inr (mde_shareFP (fst x))"
    if "i < codecN codec" for i using good [OF that] codec(2) by simp
  have "\<forall>i<nat n. let xs = cloudShares ssl codec i 0 ds; hdr = cloudHeader ssl codec name fileSize i in
       \<exists>ms keys. dataItems (gs ! i) = hdr # shareItems xs \<and> metaItems (gs ! i) = hdr # shareItems ms \<and>
         chunksFor ssl c (segmentsOf [] xs) ms keys \<and> contentsOf (f' (shareKeyName i)) = contentsOf (f (shareKeyName i)) @ keys \<and>
         (\<forall>j<length (segmentsOf [] xs). \<exists>plain. nodesFor (segmentsOf [] xs ! j) plain \<and> decryptWithKey ssl c (snd (ms ! j)) (slice (68 * j + 36) 32 keys) = Inr plain) \<and>
         (\<forall>x\<in>set xs. goodShare RING_BUFFER_DATA_SIZE x \<and> generateHash ssl c (snd x) = Inr (mde_shareFP (fst x)))"
    unfolding Let_def codec(3) [symmetric] using cloud shares by blast
  moreover have "\<forall>l<length ds. \<forall>ids. length ids = nat (n - m) \<and> distinct ids \<and> (\<forall>i\<in>set ids. i < nat n) \<longrightarrow>
       decoding ssl codec (concat (map (\<lambda>i. snd (cloudShares ssl codec i 0 ds ! l)) ids)) ids (shareSizeOf codec (length (ds ! l))) (length (ds ! l)) = Inr (ds ! l)"
    using decode codec(3,4) by simp
  ultimately show ?thesis using run(1-3) codec(2,3) by (intro exI [of _ gs] exI [of _ f']) simp
qed

text \<open>
  C37. A segment of more than 512 shares overflows. The array for a metadata chunk has room for 512 shares, but a segment ends only at a
  fingerprint with the pattern, after more than 2 MB or with the file: as soon as a segment of some cloud has more than 512 shares,
  the encoder writes behind the end of that array.
\<close>

theorem long_segment_overflows:
  assumes "gf_laws gf" "evp_ok ssl" "mkEncoder gf CAONT_RS_TYPE n m r HIGH_SEC_PAIR_TYPE = Some (codec, c)"
    and "goodName codec name" "\<forall>d\<in>set ds. goodSecret codec d" "int (length ds) \<le> 2147483648"
    and "length buffer = SHARE_BUFFER_SIZE" "\<forall>i<nat n. opens (shareKeyName i)"
    and "b < nat n" "\<exists>seg\<in>set (segmentsOf [] (cloudShares ssl codec b 0 ds)). 512 < length seg"
  shows "encodeFile ssl rnd codec c M opens buffer (FileObject name fileSize # secretItems 0 ds) f = Crash BufferOverflow"
proof -
  note codec = mkEncoder_good [OF assms(1-3)]
  obtain gs where hdr: "collectItem ssl rnd codec (cryptoObj codec) M opens (encodeItem ssl rnd codec buffer (FileObject name fileSize))
      (map (mkSegmenter M) [0..<codecN codec], f) = Done () (gs, f)"
    "allInv ssl codec (cloudHeader ssl codec name fileSize) (\<lambda>i. contentsOf (f (shareKeyName i))) (\<lambda>_. []) (\<lambda>_. []) (gs, f)"
    using header_done [OF codec(1) assms(4)] by blast
  have "collect ssl rnd codec (cryptoObj codec) M opens (map (encodeItem ssl rnd codec buffer) (secretItems 0 ds)) (gs, f) = Crash BufferOverflow"
    by (rule secrets_overflow [OF codec(1) assms(7) _ assms(5) _ hdr(2), where b = b]) (use assms(6,8-10) codec(3) in simp_all)
  then show ?thesis using hdr(1) codec(2) by (simp add: encodeFile_def)
qed

subsection \<open>Witnesses\<close>

text \<open>The client's codec, a hash that is always zero, a short name and equal secrets.\<close>

definition flatSSL :: openssl where
  "flatSSL = toySSL\<lparr>evp_digest := (\<lambda>alg _. replicate (digest_len alg) 0)\<rparr>"

lemma flatSSL_ok: "evp_ok flatSSL"
  using toySSL_ok by (simp add: evp_ok_def flatSSL_def)

lemma conf_encoder: "mkEncoder gf256 CAONT_RS_TYPE 4 1 2 HIGH_SEC_PAIR_TYPE = Some (confCodec, highCrypto)"
  using highCrypto_made confCodec_made by (simp add: mkEncoder_def)

lemma conf_sizes: "shareSizeOf confCodec 4 = 32" "goodName confCodec [97, 98, 99, 0]" "goodSecret confCodec (replicate 64 7)"
proof -
  show four: "shareSizeOf confCodec 4 = 32" by (simp add: shareSizeOf_def rsShareSize_def rsAlignedSize_def confCodec_sel codec_types)
  have "length [97 :: byte, 98, 99, 0] = 4" by simp
  then show "goodName confCodec [97, 98, 99, 0]"
    using four unfolding goodName_def by (simp only:) (simp add: SECRET_SIZE_def RING_BUFFER_DATA_SIZE_def confCodec_sel)
  show "goodSecret confCodec (replicate 64 7)"
    by (simp add: goodSecret_def SECRET_SIZE_def SHARE_BUFFER_SIZE_def RING_BUFFER_DATA_SIZE_def confCodec_sel confCodec_share)
qed

theorem encoder_serves_clouds_witness:
  "\<exists>gs f'. encodeFile toySSL (\<lambda>_. 0) confCodec highCrypto (\<lambda>_ _ _. 5) (\<lambda>_. True) (replicate SHARE_BUFFER_SIZE 0)
      (FileObject [97, 98, 99, 0] 64 # secretItems 0 [replicate 64 7]) Map.empty = Done () (gs, f') \<and> length gs = 4 \<and>
    decoding toySSL confCodec (concat (map (\<lambda>i. snd (cloudShares toySSL confCodec i 0 [replicate 64 7] ! 0)) [3, 0, 2])) [3, 0, 2] 32 64 = Inr (replicate 64 7)"
proof -
  have "\<forall>i<nat 4. \<forall>seg\<in>set (segmentsOf [] (cloudShares toySSL confCodec i 0 [replicate 64 7])). length seg \<le> 512" by simp
  moreover have "\<forall>d\<in>set [replicate 64 (7 :: byte)]. goodSecret confCodec d" using conf_sizes(3) by simp
  ultimately obtain gs f' where run: "encodeFile toySSL (\<lambda>_. 0) confCodec highCrypto (\<lambda>_ _ _. 5) (\<lambda>_. True) (replicate SHARE_BUFFER_SIZE 0)
      (FileObject [97, 98, 99, 0] 64 # secretItems 0 [replicate 64 7]) Map.empty = Done () (gs, f')" "length gs = nat 4"
    and dec: "\<forall>l<length [replicate 64 (7 :: byte)]. \<forall>ids. length ids = nat (4 - 1) \<and> distinct ids \<and> (\<forall>i\<in>set ids. i < nat 4) \<longrightarrow>
       decoding toySSL confCodec (concat (map (\<lambda>i. snd (cloudShares toySSL confCodec i 0 [replicate 64 7] ! l)) ids)) ids
         (shareSizeOf confCodec (length ([replicate 64 7] ! l))) (length ([replicate 64 7] ! l)) = Inr ([replicate 64 7] ! l)"
    using encoder_serves_clouds [OF gf256_laws toySSL_ok conf_encoder conf_sizes(2), of "[replicate 64 7]" "replicate SHARE_BUFFER_SIZE 0" "\<lambda>_. True"
        "\<lambda>_. 0" "\<lambda>_ _ _. 5" 64 Map.empty] by auto
  show ?thesis using run spec [OF spec [OF dec, of 0, simplified], of "[3, 0, 2]"] confCodec_share by simp
qed

theorem long_segment_overflows_witness:
  "encodeFile flatSSL (\<lambda>_. 0) confCodec highCrypto (\<lambda>_ _ _. 5) (\<lambda>_. True) (replicate SHARE_BUFFER_SIZE 0)
      (FileObject [97, 98, 99, 0] 32832 # secretItems 0 (replicate 513 (replicate 64 7))) Map.empty = Crash BufferOverflow"
proof -
  let ?ds = "replicate 513 (replicate 64 (7 :: byte))" and ?xs = "cloudShares flatSSL confCodec 0 0 (replicate 513 (replicate 64 7))"
  note codec = mkEncoder_good [OF gf256_laws flatSSL_ok conf_encoder]
  have x: "mde_shareFP (fst x) = replicate 32 0 \<and> length (snd x) = 32" if "x \<in> set ?xs" for x
  proof -
    obtain l where l: "l < length ?ds" "x = cloudShare flatSSL confCodec 0 (0 + l) (?ds ! l)"
      by (metis (no_types) cloudShares_nth in_set_conv_nth length_cloudShares \<open>x \<in> set ?xs\<close>)
    have "?ds ! l = replicate 64 7" by (rule nth_replicate) (use l(1) in simp)
    then have "x = cloudShare flatSSL confCodec 0 l (replicate 64 7)" using l(2) by simp
    moreover have "length (shareAt flatSSL confCodec 0 (replicate 64 7)) = 32"
      using shareAt_length [OF codec(1), of "replicate 64 7" 0] by (simp add: MAX_SECRET_SIZE_def confCodec_sel confCodec_share)
    ultimately show ?thesis using codec(2)
      by (simp add: cloudShare_def hashOf_def generateHash_def flatSSL_def highCrypto_def)
  qed
  have "sharesLen xs = 32 * length xs" if "\<forall>x\<in>set xs. length (snd x) = 32" for xs :: "share list" using that by (induction xs) auto
  then have "sharesLen ?xs = 32 * 513" using x by (metis length_cloudShares length_replicate)
  moreover have "(sle (slice 0 4 (replicate 32 (0 :: byte))) AND (DIVISOR - 1)) \<noteq> PATTERN" by code_simp
  ultimately have "segmentsOf [] ?xs = [[] @ ?xs]"
    by (intro segmentsOf_none) (use x in \<open>auto simp: MAX_SEGMENT_SIZE_def\<close>)
  then have "\<exists>seg\<in>set (segmentsOf [] ?xs). 512 < length seg" by (simp only:) simp
  then show ?thesis
    by (intro long_segment_overflows [OF gf256_laws flatSSL_ok conf_encoder conf_sizes(2), of ?ds _ _ 0]) (use conf_sizes(3) in simp_all)
qed

end
