(* ===== verification/Downloader.thy ===== *)
theory Downloader
  imports Encoder
begin

text \<open>
  The downloader, client/comm/downloader.cc: a thread per server asks for a file and takes the messages of the
  restore apart; the key files are fetched and decrypted; the metadata chunks are decrypted with their keys
  and become the recipe files, which are sent to the metadata servers for the data servers to use; the shares of a
  secret from all clouds are put together for the decoder.
\<close>

section \<open>The threads\<close>

definition DOWNLOAD_BUFFER_SIZE :: int where "DOWNLOAD_BUFFER_SIZE = 4194304"
definition MAX_NUMBER_OF_CLOUDS :: nat where "MAX_NUMBER_OF_CLOUDS = 16"

text \<open>The objects in the rings, with the part of the data that was written.\<close>

datatype down_item =
    DownHead shareFileHead
  | DownShare shareEntry bytes

record downThread =
  dt_sock :: sock
  dt_container :: bytes          \<comment> \<open>downloadContainer_, the cells that were written\<close>
  dt_ret :: "int option"         \<comment> \<open>retSize\<close>
  dt_index :: int
  dt_items :: "down_item list"   \<comment> \<open>what went into the ring\<close>

text \<open>A call of \<open>downloadChunk\<close>, whose result is not used; on an error it leaves the container and the size alone.\<close>

definition fetchChunk :: "net \<Rightarrow> downThread \<Rightarrow> (unit, downThread) outcome option" where
  "fetchChunk W t =
     bindP (downloadChunk W DOWNLOAD_BUFFER_SIZE (dt_sock t))
       (\<lambda>r k. Some (Done () (case r of
           None \<Rightarrow> t\<lparr>dt_sock := k\<rparr>
         | Some (n, raw) \<Rightarrow> t\<lparr>dt_sock := k, dt_container := overlay 0 raw (dt_container t), dt_ret := Some n\<rparr>)))
       (\<lambda>k. t\<lparr>dt_sock := k\<rparr>)"

text \<open>One share; \<open>lim\<close> is the size of the data array of the object.\<close>

definition takeShare :: "int \<Rightarrow> downThread \<Rightarrow> (unit, downThread) outcome" where
  "takeShare lim t =
     (case structAt 12 getShareEntry (dt_container t) (dt_index t) of
        None \<Rightarrow> Crash UninitRead
      | Some e \<Rightarrow>
          (let index = dt_index t + 12; shareSize = she_shareSize e in
           if shareSize < 0 then Crash DedupState.OutOfBounds
           else if lim < shareSize then Crash BufferOverflow
           else if int (length (dt_container t)) < index + shareSize then Crash UninitRead
           else Done () (t\<lparr>dt_items := dt_items t @ [DownShare e (slice (nat index) (nat shareSize) (dt_container t))], dt_index := index + shareSize\<rparr>)))"

text \<open>The loop ends when the count meets the number in the header, which is not tested before the first share.\<close>

definition shareRound :: "net \<Rightarrow> int \<Rightarrow> downThread \<Rightarrow> (unit, downThread) outcome option" where
  "shareRound W lim t =
     bindP
       (case dt_ret t of
          None \<Rightarrow> Some (Crash UninitRead)
        | Some n \<Rightarrow>
            if dt_index t = n then bindP (fetchChunk W t) (\<lambda>_ t1. Some (Done () (t1\<lparr>dt_index := 0\<rparr>))) id
            else Some (Done () t))
       (\<lambda>_ t1. Some (takeShare lim t1)) id"

partial_function (option) shareLoop :: "net \<Rightarrow> int \<Rightarrow> int \<Rightarrow> int \<Rightarrow> downThread \<Rightarrow> (unit, downThread) outcome option" where
  "shareLoop W lim numOfChunk cnt t =
     (case shareRound W lim t of
        None \<Rightarrow> None
      | Some (Done _ t1) \<Rightarrow> if cnt + 1 = numOfChunk then Some (Done () t1) else shareLoop W lim numOfChunk (cnt + 1) t1
      | Some (Fails t1) \<Rightarrow> Some (Fails t1)
      | Some (Crash e) \<Rightarrow> Some (Crash e))"

declare shareLoop.simps [code]

definition downloadThread :: "net \<Rightarrow> int \<Rightarrow> bytes \<Rightarrow> sock \<Rightarrow> (unit, downThread) outcome option" where
  "downloadThread W lim filename k =
     (let t0 = \<lparr> dt_sock = snd (initDownload W filename k), dt_container = [], dt_ret = None, dt_index = 0, dt_items = [] \<rparr> in
      bindP (fetchChunk W t0)
        (\<lambda>_ t1. case structAt 16 getShareFileHead (dt_container t1) 0 of
            None \<Rightarrow> Some (Crash UninitRead)
          | Some h \<Rightarrow> shareLoop W lim (sfh_numOfShares h) 0 (t1\<lparr>dt_index := 16, dt_items := [DownHead h]\<rparr>))
        id)"

definition thread_handler_data :: "net \<Rightarrow> bytes \<Rightarrow> sock \<Rightarrow> (unit, downThread) outcome option" where
  "thread_handler_data W filename k = downloadThread W RING_BUFFER_DATA_SIZE filename k"

definition download_thread_meta :: "net \<Rightarrow> bytes \<Rightarrow> sock \<Rightarrow> (unit, downThread) outcome option" where
  "download_thread_meta W filename k = downloadThread W RING_BUFFER_META_SIZE filename k"

section \<open>Key files\<close>

text \<open>A command whose failure is only reported.\<close>

definition sysDo :: "system \<Rightarrow> bytes \<Rightarrow> files \<Rightarrow> files" where
  "sysDo sys cmd f = (case sys cmd f of None \<Rightarrow> f | Some f1 \<Rightarrow> f1)"

text \<open>What belongs to one cloud: its socket and its entry of \<open>fileSizeCounter\<close>.\<close>

record downCloud =
  dc_sock :: sock
  dc_counter :: int

definition setSock :: "downCloud \<Rightarrow> sock \<Rightarrow> downCloud" where
  "setSock g k = g\<lparr>dc_sock := k\<rparr>"

text \<open>The key file of one cloud; the result is False where the code returns 0.\<close>

definition storeKeyFile :: "system \<Rightarrow> (bytes \<Rightarrow> bool) \<Rightarrow> bytes \<Rightarrow> nat \<Rightarrow> bytes \<Rightarrow> files \<Rightarrow> (bool, files) outcome" where
  "storeKeyFile sys opens name i keys f =
     (let downName = downKeyName name i; decName = decKeyName name i in
      if \<not> fits256 downName then Crash BufferOverflow
      else if \<not> opens downName then Done False f
      else if \<not> fits256 decName then Crash BufferOverflow
      else Done True (sysDo sys (cmdRm downName) (sysDo sys (cmdRm (encKeyName name i)) (sysDo sys (cmdDecrypt decName downName) (f(downName \<mapsto> keys))))))"

definition downloadKeyFile ::
  "net \<Rightarrow> system \<Rightarrow> (bytes \<Rightarrow> bool) \<Rightarrow> bytes \<Rightarrow> nat \<Rightarrow> downCloud \<times> files \<Rightarrow> (bool, downCloud \<times> files) outcome option" where
  "downloadKeyFile W sys opens name i st =
     (case st of (g, f) \<Rightarrow>
      let encName = encKeyName name i in
      if \<not> fits256 encName then Some (Crash BufferOverflow)
      else
        (let k1 = snd (genericSend W encName 0 (snd (genericSend W (le 4 (int (length encName))) 0 (snd (genericSend W (le 4 GET_KEY_RECIPE) 0 (dc_sock g)))))) in
         bindP (genericDownload W 4 4 k1)
           (\<lambda>(_, len) k2.
              if length len < 4 then Some (Crash UninitRead)
              else if sle len < 0 then Some (Crash DedupState.OutOfBounds)
              else
                bindP (genericDownload W (sle len) (sle len) k2)
                  (\<lambda>(_, keys) k3.
                     if int (length keys) < sle len then Some (Crash UninitRead)
                     else Some (case storeKeyFile sys opens name i keys f of
                         Done r f1 \<Rightarrow> Done r (setSock g k3, f1)
                       | Fails f1 \<Rightarrow> Fails (setSock g k3, f1)
                       | Crash e \<Rightarrow> Crash e))
                  (\<lambda>k. (setSock g k, f)))
           (\<lambda>k. (setSock g k, f))))"

text \<open>The clouds one after the other; the first that fails ends the loop.\<close>

fun downloadKeyFiles ::
  "net \<Rightarrow> system \<Rightarrow> (bytes \<Rightarrow> bool) \<Rightarrow> bytes \<Rightarrow> nat \<Rightarrow> downCloud list \<Rightarrow> files \<Rightarrow> (bool, downCloud list \<times> files) outcome option" where
  "downloadKeyFiles W sys opens name i [] f = Some (Done True ([], f))"
| "downloadKeyFiles W sys opens name i (g # gs) f =
     (case downloadKeyFile W sys opens name i (g, f) of
        None \<Rightarrow> None
      | Some (Done r (g1, f1)) \<Rightarrow>
          if r then
            (case downloadKeyFiles W sys opens name (Suc i) gs f1 of
               None \<Rightarrow> None
             | Some (Done r2 (gs1, f2)) \<Rightarrow> Some (Done r2 (g1 # gs1, f2))
             | Some (Fails (gs1, f2)) \<Rightarrow> Some (Fails (g1 # gs1, f2))
             | Some (Crash e) \<Rightarrow> Some (Crash e))
          else Some (Done False (g1 # gs, f1))
      | Some (Fails (g1, f1)) \<Rightarrow> Some (Fails (g1 # gs, f1))
      | Some (Crash e) \<Rightarrow> Some (Crash e))"

section \<open>Recipe files\<close>

text \<open>
  \<open>fread(keyBuffer, 68, 1, kfp)\<close> again and again: a record that is not complete leaves unspecified bytes in the buffer,
  the end of the file leaves the buffer alone.
\<close>

fun readKeys :: "nat \<Rightarrow> bytes \<Rightarrow> bytes option \<Rightarrow> bytes option" where
  "readKeys 0 rest buf = buf"
| "readKeys (Suc n) rest buf =
     (if 68 \<le> length rest then readKeys n (drop 68 rest) (Some (take 68 rest))
      else if rest = [] then readKeys n [] buf
      else readKeys n [] None)"

text \<open>
  The decrypted chunk: the data itself when there is no key file, and None where the code returns 0 because the record
  has another number or the decryption fails. \<open>~x + 1\<close> is the negation in 32 bits.
\<close>

definition decryptChunk :: "openssl \<Rightarrow> cryptoPrimitive \<Rightarrow> bytes option \<Rightarrow> int \<Rightarrow> bytes \<Rightarrow> crash + bytes option" where
  "decryptChunk ssl c keyFile secretID dat =
     (case keyFile of
        None \<Rightarrow> Inr (Some dat)
      | Some keys \<Rightarrow>
          (let metaChunkID = wrap32 (- secretID) in
           case readKeys (nat metaChunkID) keys None of
             None \<Rightarrow> Inl UninitRead
           | Some buf \<Rightarrow>
               if wrap32 (- sle (slice 0 4 buf)) \<noteq> metaChunkID then Inr None
               else (case decryptWithKey ssl c dat (slice 36 32 buf) of Inl _ \<Rightarrow> Inr None | Inr plain \<Rightarrow> Inr (Some plain))))"

definition entryOfNode :: "metaNode \<Rightarrow> fileRecipeEntry" where
  "entryOfNode n = \<lparr> fre_shareFP = mn_shareFP n, fre_secretID = mn_secretID n, fre_secretSize = mn_secretSize n \<rparr>"

definition writeRetrivedFileRecipe ::
  "openssl \<Rightarrow> cryptoPrimitive \<Rightarrow> (bytes \<Rightarrow> bool) \<Rightarrow> bytes \<Rightarrow> nat \<Rightarrow> shareEntry \<Rightarrow> bytes \<Rightarrow> downCloud \<times> files \<Rightarrow> (bool, downCloud \<times> files) outcome" where
  "writeRetrivedFileRecipe ssl c opens name i e dat st =
     (case st of (g, f) \<Rightarrow>
      if \<not> fits256 (decKeyName name i) then Crash BufferOverflow
      else
        (case decryptChunk ssl c (f (decKeyName name i)) (she_secretID e) dat of
           Inl x \<Rightarrow> Crash x
         | Inr None \<Rightarrow> Done False (g, f)
         | Inr (Some plain) \<Rightarrow>
             if \<not> opens (shareRecipeName i) then Done False (g, f)
             else
               (let ns = map (\<lambda>j. getMetaNode (slice (64 * j) 64 plain)) [0..<length plain div 64] in
                Done True (g\<lparr>dc_counter := fold (\<lambda>n a. wrap32 (a + mn_secretSize n)) ns (dc_counter g)\<rparr>,
                  f(shareRecipeName i \<mapsto> contentsOf (f (shareRecipeName i)) @ concat (map (putRecipeEntry \<circ> entryOfNode) ns))))))"

text \<open>The recipe is sent in pieces of a thousand entries.\<close>

function sendPieces :: "net \<Rightarrow> int \<Rightarrow> int \<Rightarrow> bytes \<Rightarrow> sock \<Rightarrow> sock" where
  "sendPieces W fsize totalRead rest k =
     (if totalRead < fsize \<and> rest \<noteq> [] then
        (let piece = take 40000 rest in
         sendPieces W fsize (totalRead + int (length piece)) (drop 40000 rest) (snd (genericSend W piece 0 k)))
      else k)"
  by pat_completeness auto
termination by (relation "measure (\<lambda>(_, _, _, rest, _). length rest)") auto

declare sendPieces.simps [simp del]

text \<open>The size is converted to \<open>size_t\<close> for the division by the size of an entry.\<close>

definition sendRecipe :: "net \<Rightarrow> int \<Rightarrow> bytes \<Rightarrow> int \<Rightarrow> bytes \<Rightarrow> sock \<Rightarrow> sock" where
  "sendRecipe W userID uploadName counter contents k =
     (let fsize = wrap32 (int (length contents));
          h = \<lparr> frh_userID = userID, frh_fileSize = counter, frh_numOfShares = wrap32 (fsize mod 18446744073709551616 div 40) \<rparr>;
          k1 = snd (genericSend W uploadName 0 (snd (genericSend W (le 4 (int (length uploadName))) 0
                 (snd (genericSend W (le 4 (fsize + 24)) 0 (snd (genericSend W (le 4 FILE_RECIPE) 0 k)))))));
          k2 = snd (genericSend W (putRecipeHead h) 0 k1) in
      sendPieces W fsize 0 contents k2)"

definition uploadRetrivedRecipeFile ::
  "net \<Rightarrow> system \<Rightarrow> int \<Rightarrow> bytes \<Rightarrow> nat \<Rightarrow> downCloud \<times> files \<Rightarrow> (unit, downCloud \<times> files) outcome" where
  "uploadRetrivedRecipeFile W sys userID name i st =
     (case st of (g, f) \<Rightarrow>
      let recipeName = shareRecipeName i; uploadName = serverRecipeName name i; keyName = decKeyName name i in
      if \<not> fits256 uploadName \<or> \<not> fits256 keyName then Crash BufferOverflow
      else
        (let g1 = (case f recipeName of None \<Rightarrow> g | Some contents \<Rightarrow> setSock g (sendRecipe W userID uploadName (dc_counter g) contents (dc_sock g))) in
         Done () (g1, sysDo sys (cmdRm keyName) (sysDo sys (cmdRm uploadName) (sysDo sys (cmdRm recipeName) f)))))"

section \<open>Getting the recipes\<close>

text \<open>The names under which the file is known to the metadata servers.\<close>

definition shareNames :: "openssl \<Rightarrow> (nat \<Rightarrow> byte) \<Rightarrow> cdcodec \<Rightarrow> bytes \<Rightarrow> bytes \<Rightarrow> nat \<Rightarrow> crash + bytes list" where
  "shareNames ssl rnd codec tmp filename numOfCloud =
     (case encoding ssl rnd codec filename tmp of
        Inl CDCodec.OutOfBounds \<Rightarrow> Inl BufferOverflow
      | Inl _ \<Rightarrow> Inl UninitRead
      | Inr (shares, tmp_s) \<Rightarrow> if 256 < tmp_s then Inl BufferOverflow else Inr (map (blockAt tmp_s shares) [0..<numOfCloud]))"

text \<open>The chunks of one cloud, after its header has told their number.\<close>

fun writeRecipes ::
  "openssl \<Rightarrow> cryptoPrimitive \<Rightarrow> (bytes \<Rightarrow> bool) \<Rightarrow> bytes \<Rightarrow> nat \<Rightarrow> nat \<Rightarrow> down_item list \<Rightarrow> downCloud \<times> files \<Rightarrow> (unit, downCloud \<times> files) outcome option" where
  "writeRecipes ssl c opens name i 0 items st = Some (Done () st)"
| "writeRecipes ssl c opens name i (Suc n) [] st = None"
| "writeRecipes ssl c opens name i (Suc n) (item # items) st =
     (case item of
        DownHead h \<Rightarrow> Some (Crash UninitRead)
      | DownShare e dat \<Rightarrow>
          bindP (Some (writeRetrivedFileRecipe ssl c opens name i e dat st)) (\<lambda>_ st1. writeRecipes ssl c opens name i n items st1) id)"

definition cloudRecipe ::
  "openssl \<Rightarrow> cryptoPrimitive \<Rightarrow> (bytes \<Rightarrow> bool) \<Rightarrow> bytes \<Rightarrow> nat \<Rightarrow> down_item list \<Rightarrow> downCloud \<times> files \<Rightarrow> (unit, downCloud \<times> files) outcome option" where
  "cloudRecipe ssl c opens name i items st =
     (case items of
        DownHead h # rest \<Rightarrow> writeRecipes ssl c opens name i (nat (sfh_numOfShares h)) rest st
      | _ \<Rightarrow> None)"

text \<open>
  The whole procedure for one cloud, with its thread; different clouds use different sockets and files, and the loops of the code
  over the clouds are \<open>perCloud\<close>.
\<close>

fun perCloud :: "(nat \<Rightarrow> 'g \<times> 'f \<Rightarrow> (unit, 'g \<times> 'f) outcome option) \<Rightarrow> nat \<Rightarrow> 'g list \<Rightarrow> 'f \<Rightarrow> (unit, 'g list \<times> 'f) outcome option" where
  "perCloud step i [] f = Some (Done () ([], f))"
| "perCloud step i (g # gs) f =
     (case step i (g, f) of
        None \<Rightarrow> None
      | Some (Done _ (g1, f1)) \<Rightarrow>
          (case perCloud step (Suc i) gs f1 of
             None \<Rightarrow> None
           | Some (Done _ (gs1, f2)) \<Rightarrow> Some (Done () (g1 # gs1, f2))
           | Some (Fails (gs1, f2)) \<Rightarrow> Some (Fails (g1 # gs1, f2))
           | Some (Crash e) \<Rightarrow> Some (Crash e))
      | Some (Fails (g1, f1)) \<Rightarrow> Some (Fails (g1 # gs, f1))
      | Some (Crash e) \<Rightarrow> Some (Crash e))"

definition preDownloadFile ::
  "openssl \<Rightarrow> (nat \<Rightarrow> byte) \<Rightarrow> cdcodec \<Rightarrow> net \<Rightarrow> system \<Rightarrow> (bytes \<Rightarrow> bool) \<Rightarrow> int \<Rightarrow> bytes \<Rightarrow> bytes \<Rightarrow> downCloud list \<times> files \<Rightarrow> (unit, downCloud list \<times> files) outcome option" where
  "preDownloadFile ssl rnd codec W sys opens userID tmp filename st =
     (case st of (gs, f) \<Rightarrow>
      case shareNames ssl rnd codec tmp filename (length gs) of
        Inl e \<Rightarrow> Some (Crash e)
      | Inr names \<Rightarrow>
          bindP
            (perCloud (\<lambda>i (g, items). bindP (download_thread_meta W (names ! i) (dc_sock g))
                 (\<lambda>_ t. Some (Done () (setSock g (dt_sock t), items @ [dt_items t]))) (\<lambda>t. (setSock g (dt_sock t), items))) 0 gs [])
            (\<lambda>_ (gs1, items).
               bindP (perCloud (\<lambda>i. cloudRecipe ssl (cryptoObj codec) opens filename i (items ! i)) 0 gs1 f)
                 (\<lambda>_ (gs2, f1). perCloud (\<lambda>i st. Some (uploadRetrivedRecipeFile W sys userID filename i st)) 0 gs2 f1) id)
            (\<lambda>(gs1, items). (gs1, f)))"

section \<open>Getting the shares\<close>

record decodeItem =
  di_data :: bytes
  di_secretSize :: int
  di_shareSize :: int
  di_secretID :: int

text \<open>
  One share of every cloud; the state has the rings, the array \<open>shareBuffer\<close>, whose first contents are those that
  \<open>malloc\<close> finds, and (secretSize, shareSize, id).
\<close>

fun assemble :: "nat \<Rightarrow> down_item list list \<Rightarrow> bytes \<Rightarrow> int \<times> int \<times> int \<Rightarrow>
    (down_item list list \<times> bytes \<times> int \<times> int \<times> int, unit) outcome option" where
  "assemble i [] buf e = Some (Done ([], buf, e) ())"
| "assemble i (ring # rings) buf e =
     (case ring of
        [] \<Rightarrow> None
      | DownHead h # rest \<Rightarrow> Some (Crash UninitRead)
      | DownShare s dat # rest \<Rightarrow>
          if she_shareSize s < 0 then Some (Crash DedupState.OutOfBounds)
          else if int (length dat) < she_shareSize s then Some (Crash UninitRead)
          else if RING_BUFFER_DATA_SIZE * int MAX_NUMBER_OF_CLOUDS < (int i + 1) * she_shareSize s then Some (Crash BufferOverflow)
          else
            (case assemble (Suc i) rings (overlay (i * nat (she_shareSize s)) (take (nat (she_shareSize s)) dat) buf) (she_secretSize s, she_shareSize s, she_secretID s) of
               None \<Rightarrow> None
             | Some (Done (rs, buf1, e1) u) \<Rightarrow> Some (Done (rest # rs, buf1, e1) u)
             | Some (Fails u) \<Rightarrow> Some (Fails u)
             | Some (Crash x) \<Rightarrow> Some (Crash x)))"

fun secretLoop :: "nat \<Rightarrow> nat \<Rightarrow> down_item list list \<Rightarrow> bytes \<Rightarrow> decodeItem list \<Rightarrow> (decodeItem list, unit) outcome option" where
  "secretLoop numOfCloud 0 rings buf out = Some (Done out ())"
| "secretLoop numOfCloud (Suc n) rings buf out =
     (case assemble 0 rings buf (0, 0, 0) of
        None \<Rightarrow> None
      | Some (Done (rings1, buf1, secretSize, shareSize, k) _) \<Rightarrow>
          if int SHARE_BUFFER_SIZE < int numOfCloud * shareSize then Some (Crash BufferOverflow)
          else secretLoop numOfCloud n rings1 buf1
                 (out @ [\<lparr> di_data = take (numOfCloud * nat shareSize) buf1, di_secretSize = secretSize, di_shareSize = shareSize, di_secretID = k \<rparr>])
      | Some (Fails u) \<Rightarrow> Some (Fails u)
      | Some (Crash x) \<Rightarrow> Some (Crash x))"

text \<open>
  The headers come first, and that of the last cloud gives the number of secrets, which the decoder is told. The rings are
  what the threads of the data servers put into them. The result is the number and what goes to the decoder.
\<close>

definition downloadFile :: "nat \<Rightarrow> bytes \<Rightarrow> down_item list list \<Rightarrow> (int \<times> decodeItem list, unit) outcome option" where
  "downloadFile numOfCloud shareBuffer rings =
     (if rings = [] then Some (Crash UninitRead)
      else if \<not> list_all (\<lambda>r. r \<noteq> []) rings then None
      else
        (case hd (last rings) of
           DownShare e d \<Rightarrow> Some (Crash UninitRead)
         | DownHead h \<Rightarrow>
             (case secretLoop numOfCloud (nat (sfh_numOfShares h)) (map tl rings) shareBuffer [] of
                None \<Rightarrow> None
              | Some (Done out u) \<Rightarrow> Some (Done (sfh_numOfShares h, out) u)
              | Some (Fails u) \<Rightarrow> Some (Fails u)
              | Some (Crash x) \<Rightarrow> Some (Crash x))))"

section \<open>The threads take a restore apart\<close>

text \<open>A share in a message, and the object it becomes.\<close>

definition itemBytes :: "shareEntry \<times> bytes \<Rightarrow> bytes" where
  "itemBytes y = putShareEntry (fst y) @ snd y"

abbreviation itemOf :: "shareEntry \<times> bytes \<Rightarrow> down_item" where
  "itemOf y \<equiv> DownShare (fst y) (snd y)"

definition goodItem :: "int \<Rightarrow> shareEntry \<times> bytes \<Rightarrow> bool" where
  "goodItem lim y \<longleftrightarrow> okShareEntry (fst y) \<and> she_shareSize (fst y) = int (length (snd y)) \<and> int (length (snd y)) \<le> lim"

text \<open>The messages of a restore as groups of shares.\<close>

lemma packMsgs_groups:
  assumes "\<forall>y\<in>set ys. itemBytes y \<noteq> []"
  shows "out \<noteq> [] \<Longrightarrow> \<exists>g gs. packMsgs out (map itemBytes ys) = (out @ concat (map itemBytes g)) # map (concat \<circ> map itemBytes) gs \<and>
    ys = g @ concat gs \<and> (\<forall>g\<in>set gs. g \<noteq> [])"
  using assms
proof (induction ys arbitrary: out)
  case Nil
  then show ?case by (intro exI [of _ "[]"]) simp
next
  case (Cons y ys)
  show ?case
  proof (cases "SHARE_FILE_BUFFER_SIZE < int (length out + length (itemBytes y))")
    case True
    obtain g gs where "packMsgs (itemBytes y) (map itemBytes ys) = (itemBytes y @ concat (map itemBytes g)) # map (concat \<circ> map itemBytes) gs"
      "ys = g @ concat gs" "\<forall>g\<in>set gs. g \<noteq> []"
      using Cons.IH [of "itemBytes y"] Cons.prems unfolding list.set by blast
    then show ?thesis using True by (intro exI [of _ "[]"] exI [of _ "(y # g) # gs"]) simp
  next
    case False
    obtain g gs where "packMsgs (out @ itemBytes y) (map itemBytes ys) = ((out @ itemBytes y) @ concat (map itemBytes g)) # map (concat \<circ> map itemBytes) gs"
      "ys = g @ concat gs" "\<forall>g\<in>set gs. g \<noteq> []"
      using Cons.IH [of "out @ itemBytes y"] Cons.prems unfolding list.set append_is_Nil_conv by blast
    then show ?thesis using False by (intro exI [of _ "y # g"] exI [of _ gs]) simp
  qed
qed

text \<open>The thread stands in a message, with the shares \<open>ys\<close> of this message and the groups of the next messages to come.\<close>

definition reading :: "(shareEntry \<times> bytes) list \<Rightarrow> (shareEntry \<times> bytes) list list \<Rightarrow> downThread \<Rightarrow> bool" where
  "reading ys gs t \<longleftrightarrow> (\<exists>p old. dt_container t = p @ concat (map itemBytes ys) @ old \<and> dt_index t = int (length p) \<and>
     dt_ret t = Some (int (length (p @ concat (map itemBytes ys))))) \<and>
     rx_in (so_rx (dt_sock t)) = concat (map (restoreMsg \<circ> concat \<circ> map itemBytes) gs) \<and>
     (\<forall>g\<in>set gs. g \<noteq> [] \<and> int (length (concat (map itemBytes g))) \<le> DOWNLOAD_BUFFER_SIZE)"

lemma takeShare_run:
  assumes "reading (y # ys) gs t" "goodItem lim y"
  shows "\<exists>t1. takeShare lim t = Done () t1 \<and> reading ys gs t1 \<and> dt_items t1 = dt_items t @ [itemOf y] \<and> dt_sock t1 = dt_sock t"
proof -
  obtain p old where t: "dt_container t = p @ concat (map itemBytes (y # ys)) @ old" "dt_index t = int (length p)"
    "dt_ret t = Some (int (length (p @ concat (map itemBytes (y # ys)))))" using assms(1) unfolding reading_def by blast
  let ?e = "fst y" and ?d = "snd y"
  have c: "dt_container t = p @ putShareEntry ?e @ ?d @ concat (map itemBytes ys) @ old" using t(1) by (simp add: itemBytes_def)
  have e: "structAt 12 getShareEntry (dt_container t) (dt_index t) = Some ?e"
    using assms(2) unfolding c t(2) by (intro shareFileEntry.at_middle) (simp_all add: goodItem_def)
  have d: "slice (length p + 12) (length ?d) (dt_container t) = ?d"
    unfolding c by (simp add: slice_def)
  let ?t1 = "t\<lparr>dt_items := dt_items t @ [itemOf y], dt_index := int (length (p @ itemBytes y))\<rparr>"
  have "takeShare lim t = Done () ?t1"
    using assms(2) e d t(2) c by (simp add: takeShare_def goodItem_def itemBytes_def nat_add_distrib)
  moreover have "reading ys gs ?t1"
    using assms(1) t unfolding reading_def by (intro conjI exI [of _ "p @ itemBytes y"] exI [of _ old]) simp_all
  ultimately show ?thesis by auto
qed

text \<open>One round takes one share, with a new message when the last one is used up.\<close>

lemma shareRound_run:
  assumes "whole (net_recv W)" "reading ys gs t" "ys @ concat gs = z # zs" "goodItem lim z"
  shows "\<exists>t1 ys1 gs1. shareRound W lim t = Some (Done () t1) \<and> reading ys1 gs1 t1 \<and> ys1 @ concat gs1 = zs \<and>
    dt_items t1 = dt_items t @ [itemOf z] \<and> so_out (dt_sock t1) = so_out (dt_sock t)"
proof (cases ys)
  case (Cons y ys')
  then have y: "y = z" "ys' @ concat gs = zs" using assms(3) by simp_all
  obtain n where "dt_ret t = Some n" "dt_index t \<noteq> n"
  proof -
    have "length (itemBytes y) \<noteq> 0" by (simp add: itemBytes_def)
    then have "length p \<noteq> length (p @ concat (map itemBytes ys))" for p :: bytes using Cons by simp
    then show ?thesis using that assms(2) unfolding reading_def by (metis of_nat_eq_iff)
  qed
  moreover obtain t1 where "takeShare lim t = Done () t1" "reading ys' gs t1" "dt_items t1 = dt_items t @ [itemOf z]" "dt_sock t1 = dt_sock t"
    using takeShare_run [of z ys' gs t lim] assms(2,4) Cons y(1) by blast
  ultimately show ?thesis using y(2) by (intro exI [of _ t1] exI [of _ ys'] exI [of _ gs]) (simp add: shareRound_def)
next
  case Nil
  have "\<forall>g\<in>set gs. g \<noteq> []" using assms(2) by (simp add: reading_def)
  then obtain g gs' where gs: "gs = (z # g) # gs'" "g @ concat gs' = zs"
    using assms(3) Nil by (cases gs; cases "hd gs") auto
  let ?p = "concat (map itemBytes (z # g))"
  have rx: "rx_in (so_rx (dt_sock t)) = restoreMsg ?p @ concat (map (restoreMsg \<circ> concat \<circ> map itemBytes) gs')"
    "int (length ?p) \<le> DOWNLOAD_BUFFER_SIZE" using assms(2) gs(1) by (simp_all add: reading_def)
  obtain c where get: "downloadChunk W DOWNLOAD_BUFFER_SIZE (dt_sock t) =
      Some (Done (Some (int (length ?p), ?p)) ((dt_sock t)\<lparr>so_rx := \<lparr> rx_in = concat (map (restoreMsg \<circ> concat \<circ> map itemBytes) gs'), rx_calls = c \<rparr>\<rparr>))" (is "_ = Some (Done _ ?k)")
    using downloadChunk_whole [OF assms(1) rx] by (auto simp: DOWNLOAD_BUFFER_SIZE_def)
  let ?t1 = "t\<lparr>dt_sock := ?k, dt_container := overlay 0 ?p (dt_container t), dt_ret := Some (int (length ?p)), dt_index := 0\<rparr>"
  have read: "reading (z # g) gs' ?t1"
    using assms(2) gs(1) unfolding reading_def by (intro conjI exI [of _ "[]"] exI [of _ "drop (length ?p) (dt_container t)"]) simp_all
  obtain t2 where t2: "takeShare lim ?t1 = Done () t2" "reading g gs' t2" "dt_items t2 = dt_items ?t1 @ [itemOf z]" "dt_sock t2 = dt_sock ?t1"
    using takeShare_run [OF read assms(4)] by blast
  have "dt_ret t = Some (dt_index t)" using assms(2) Nil by (auto simp: reading_def)
  then have "shareRound W lim t = Some (Done () t2)" using get t2(1) by (simp add: shareRound_def fetchChunk_def)
  then show ?thesis using t2(2-4) gs(2) by (intro exI [of _ t2] exI [of _ g] exI [of _ gs']) simp
qed

lemma shareLoop_run:
  assumes "whole (net_recv W)" "zs \<noteq> []" "\<forall>z\<in>set zs. goodItem lim z"
  shows "reading ys gs t \<Longrightarrow> ys @ concat gs = zs \<Longrightarrow> cnt + int (length zs) = numOfChunk \<Longrightarrow>
    \<exists>t1. shareLoop W lim numOfChunk cnt t = Some (Done () t1) \<and> dt_items t1 = dt_items t @ map itemOf zs \<and> so_out (dt_sock t1) = so_out (dt_sock t)"
  using assms(2,3)
proof (induction zs arbitrary: ys gs t cnt)
  case (Cons z zs)
  obtain t1 ys1 gs1 where r: "shareRound W lim t = Some (Done () t1)" "reading ys1 gs1 t1" "ys1 @ concat gs1 = zs"
    "dt_items t1 = dt_items t @ [itemOf z]" "so_out (dt_sock t1) = so_out (dt_sock t)"
    using shareRound_run [OF assms(1) Cons.prems(1,2), of lim] Cons.prems(5) by force
  show ?case
  proof (cases "zs = []")
    case True
    then show ?thesis using r Cons.prems(3) by (subst shareLoop.simps) simp
  next
    case False
    obtain t2 where "shareLoop W lim numOfChunk (cnt + 1) t1 = Some (Done () t2)" "dt_items t2 = dt_items t1 @ map itemOf zs"
      "so_out (dt_sock t2) = so_out (dt_sock t1)"
      using Cons.IH [OF r(2,3), of "cnt + 1"] Cons.prems(3,5) False by auto
    moreover have "cnt + 1 \<noteq> numOfChunk" using Cons.prems(3) False by (cases zs) simp_all
    ultimately show ?thesis using r(1,4,5) by (subst shareLoop.simps) simp
  qed
qed simp

text \<open>
  A thread whose server sends the messages of a restore puts the head and then every share into its ring, and has sent nothing but
  the request.
\<close>

lemma downloadThread_run:
  assumes "whole (net_recv W)" "sendsWhole W" "length name \<le> 256" "ys \<noteq> []" "\<forall>y\<in>set ys. goodItem lim y"
    and "okShareFileHead h" "sfh_numOfShares h = int (length ys)"
    and "rx_in (so_rx k) = concat (map restoreMsg (packMsgs (putShareFileHead h) (map itemBytes ys)))"
    and "\<forall>p\<in>set (packMsgs (putShareFileHead h) (map itemBytes ys)). int (length p) \<le> DOWNLOAD_BUFFER_SIZE"
  obtains t where "downloadThread W lim name k = Some (Done () t)" "dt_items t = DownHead h # map itemOf ys"
    "so_out (dt_sock t) = so_out k @ packageMsg DOWNLOAD name"
proof -
  have "\<forall>y\<in>set ys. itemBytes y \<noteq> []" "putShareFileHead h \<noteq> []" by (simp_all add: itemBytes_def flip: length_greater_0_conv)
  then obtain g gs where gs: "packMsgs (putShareFileHead h) (map itemBytes ys) = (putShareFileHead h @ concat (map itemBytes g)) # map (concat \<circ> map itemBytes) gs"
    "ys = g @ concat gs" "\<forall>g\<in>set gs. g \<noteq> []" using packMsgs_groups by blast
  let ?p = "putShareFileHead h @ concat (map itemBytes g)" and ?rest = "concat (map (restoreMsg \<circ> concat \<circ> map itemBytes) gs)"
  obtain c where req: "snd (initDownload W name k) = k\<lparr>so_out := so_out k @ packageMsg DOWNLOAD name, so_sends := c\<rparr>" (is "_ = ?k0")
    using initDownload_whole [OF assms(2,3), of k] by auto
  have rx: "rx_in (so_rx ?k0) = restoreMsg ?p @ ?rest" "int (length ?p) \<le> DOWNLOAD_BUFFER_SIZE"
    using assms(8,9) gs(1) by (simp_all add: comp_assoc)
  obtain c1 where get: "downloadChunk W DOWNLOAD_BUFFER_SIZE ?k0 = Some (Done (Some (int (length ?p), ?p)) (?k0\<lparr>so_rx := \<lparr> rx_in = ?rest, rx_calls = c1 \<rparr>\<rparr>))" (is "_ = Some (Done _ ?k1)")
    using downloadChunk_whole [OF assms(1) rx] by (auto simp: DOWNLOAD_BUFFER_SIZE_def)
  let ?t1 = "\<lparr> dt_sock = ?k1, dt_container = ?p, dt_ret = Some (int (length ?p)), dt_index = 16, dt_items = [DownHead h] \<rparr>"
  have "reading g gs ?t1"
    using gs assms(9) unfolding reading_def by (intro conjI exI [of _ "putShareFileHead h"] exI [of _ "[]"]) simp_all
  then obtain t where "shareLoop W lim (sfh_numOfShares h) 0 ?t1 = Some (Done () t)" "dt_items t = DownHead h # map itemOf ys"
      "so_out (dt_sock t) = so_out k @ packageMsg DOWNLOAD name"
    using shareLoop_run [OF assms(1,4,5), of g gs ?t1 0] gs(2) assms(7) by auto
  moreover have "structAt 16 getShareFileHead ?p 0 = Some h" by (rule shareFileHead.at_start [OF assms(6)])
  ultimately show ?thesis
    using that get req by (simp add: downloadThread_def fetchChunk_def)
qed

section \<open>The shares of a secret are put together\<close>

text \<open>One share of every cloud, all of the same secret.\<close>

definition goodRow :: "nat \<Rightarrow> (shareEntry \<times> bytes) list \<Rightarrow> bool" where
  "goodRow k row \<longleftrightarrow> length row = k \<and> k * length (snd (hd row)) \<le> SHARE_BUFFER_SIZE \<and>
     (\<forall>y\<in>set row. fst y = fst (hd row) \<and> length (snd y) = length (snd (hd row)) \<and> she_shareSize (fst y) = int (length (snd y)))"

definition rowItem :: "(shareEntry \<times> bytes) list \<Rightarrow> decodeItem" where
  "rowItem row = (let e = fst (hd row) in
     \<lparr> di_data = concat (map snd row), di_secretSize = she_secretSize e, di_shareSize = she_shareSize e, di_secretID = she_secretID e \<rparr>)"

lemma assemble_run:
  assumes "\<forall>y\<in>set row. fst y = en \<and> length (snd y) = n \<and> she_shareSize en = int n" "length rests = length row"
  shows "length pre = i * n \<Longrightarrow> (i + length row) * n \<le> SHARE_BUFFER_SIZE \<Longrightarrow>
    assemble i (map2 (\<lambda>y r. itemOf y # r) row rests) (pre @ old) e =
      Some (Done (rests, pre @ concat (map snd row) @ drop (length row * n) old,
        if row = [] then e else (she_secretSize en, she_shareSize en, she_secretID en)) ())"
  using assms
proof (induction row arbitrary: i rests pre old e)
  case (Cons y row)
  obtain r rests' where rests: "rests = r # rests'" "length rests' = length row" using Cons.prems(4) by (cases rests) auto
  have y: "fst y = en" "length (snd y) = n" "she_shareSize en = int n" using Cons.prems(3) by simp_all
  have "Suc i * n \<le> SHARE_BUFFER_SIZE" using Cons.prems(2) by (simp add: algebra_simps)
  then have "(int i + 1) * int n \<le> 65536" by (simp add: SHARE_BUFFER_SIZE_def algebra_simps flip: of_nat_mult)
  then have fits: "\<not> RING_BUFFER_DATA_SIZE * int MAX_NUMBER_OF_CLOUDS < (int i + 1) * she_shareSize en"
    by (simp add: y(3) RING_BUFFER_DATA_SIZE_def MAX_NUMBER_OF_CLOUDS_def)
  have ov: "overlay (i * n) (snd y) (pre @ old) = (pre @ snd y) @ drop n old"
    using overlay_end [of pre "snd y" old] Cons.prems(1) y(2) by simp
  have "assemble (Suc i) (map2 (\<lambda>y r. itemOf y # r) row rests') ((pre @ snd y) @ drop n old) (she_secretSize en, she_shareSize en, she_secretID en) =
      Some (Done (rests', (pre @ snd y) @ concat (map snd row) @ drop (length row * n) (drop n old),
        if row = [] then (she_secretSize en, she_shareSize en, she_secretID en) else (she_secretSize en, she_shareSize en, she_secretID en)) ())"
    by (rule Cons.IH) (use Cons.prems y rests(2) in \<open>auto simp: algebra_simps\<close>)
  then show ?case using y fits ov rests(1) by (simp add: algebra_simps)
qed simp

text \<open>The rings column by column, and the secrets row by row.\<close>

abbreviation ringOf :: "(shareEntry \<times> bytes) list list \<Rightarrow> nat \<Rightarrow> down_item list" where
  "ringOf rows i \<equiv> map (\<lambda>row. itemOf (row ! i)) rows"

lemma secretLoop_run:
  assumes "0 < k"
  shows "\<forall>row\<in>set rows. goodRow k row \<Longrightarrow>
    secretLoop k (length rows) (map (ringOf rows) [0..<k]) buf out = Some (Done (out @ map rowItem rows) ())"
proof (induction rows arbitrary: buf out)
  case (Cons row rows)
  let ?e = "fst (hd row)" and ?n = "length (snd (hd row))"
  have row: "length row = k" "k * ?n \<le> SHARE_BUFFER_SIZE" "row \<noteq> []"
    "\<forall>y\<in>set row. fst y = ?e \<and> length (snd y) = ?n \<and> she_shareSize ?e = int ?n"
    using Cons.prems assms by (auto simp: goodRow_def)
  have cols: "map (ringOf (row # rows)) [0..<k] = map2 (\<lambda>y r. itemOf y # r) row (map (ringOf rows) [0..<k])"
    using row(1) by (intro nth_equalityI) simp_all
  have "assemble 0 (map (ringOf (row # rows)) [0..<k]) ([] @ buf) (0, 0, 0) =
      Some (Done (map (ringOf rows) [0..<k], [] @ concat (map snd row) @ drop (length row * ?n) buf,
        if row = [] then (0, 0, 0) else (she_secretSize ?e, she_shareSize ?e, she_secretID ?e)) ())"
    unfolding cols by (rule assemble_run [OF row(4)]) (use row(1,2) in simp_all)
  moreover have len: "length (concat (map snd row)) = k * ?n"
  proof -
    have "map length (map snd row) = replicate (length row) ?n" by (rule nth_equalityI) (use row(4) in simp_all)
    then show ?thesis using row(1) by (simp only: length_concat sum_list_replicate of_nat_id)
  qed
  moreover have "hd row \<in> set row" using row(3) by simp
  then have "she_shareSize ?e = int ?n" using row(4) by blast
  moreover have "\<not> int SHARE_BUFFER_SIZE < int k * int ?n" using row(2) by (simp flip: of_nat_mult)
  ultimately have "secretLoop k (length (row # rows)) (map (ringOf (row # rows)) [0..<k]) buf out =
      secretLoop k (length rows) (map (ringOf rows) [0..<k]) (concat (map snd row) @ drop (length row * ?n) buf) (out @ [rowItem row])"
    using row(3) by (simp add: rowItem_def Let_def del: map_map)
  then show ?case using Cons by simp
qed simp

lemma downloadFile_run:
  assumes "0 < k" "\<forall>row\<in>set rows. goodRow k row" "\<forall>i<k. sfh_numOfShares (h i) = int (length rows)"
  shows "downloadFile k buf (map (\<lambda>i. DownHead (h i) # ringOf rows i) [0..<k]) = Some (Done (int (length rows), map rowItem rows) ())"
proof -
  have "last (map (\<lambda>i. DownHead (h i) # ringOf rows i) [0..<k]) = DownHead (h (k - 1)) # ringOf rows (k - 1)"
    using assms(1) by (simp add: last_map last_upt)
  moreover have "map tl (map (\<lambda>i. DownHead (h i) # ringOf rows i) [0..<k]) = map (ringOf rows) [0..<k]" by simp
  moreover have "list_all (\<lambda>r. r \<noteq> []) (map (\<lambda>i. DownHead (h i) # ringOf rows i) [0..<k])" by (simp add: list_all_iff)
  ultimately show ?thesis using secretLoop_run [OF assms(1,2), of buf "[]"] assms(1,3) unfolding downloadFile_def by (simp add: comp_def)
qed

end
