(* ===== verification/Decoder.thy ===== *)
theory Decoder
  imports Downloader
begin

text \<open>
  The decoder, client/coding/decoder.cc: coding threads that decode the shares of a secret, with the rings and the order
  of Pipeline, and the collect thread, which writes the secrets to the file through a buffer of 4 MB. The result of
  \<open>decoding\<close> is not used: a secret that cannot be decoded leaves in the object what was there before.
\<close>

section \<open>The coding threads\<close>

definition DECODE_NUM_THREADS :: nat where "DECODE_NUM_THREADS = 2"
definition DECODE_RB_SIZE :: nat where "DECODE_RB_SIZE = 2"
definition FWRITE_BUFFER_SIZE :: int where "FWRITE_BUFFER_SIZE = 4194304"

text \<open>The object for a secret: its array of \<open>SECRET_SIZE\<close> bytes and its size.\<close>

record secret_obj =
  so_data :: bytes
  so_secretSize :: int

text \<open>One object; \<open>stale\<close> is what the local object has in its array before.\<close>

definition decodeShares :: "openssl \<Rightarrow> cdcodec \<Rightarrow> nat list \<Rightarrow> bytes \<Rightarrow> decodeItem \<Rightarrow> crash + secret_obj" where
  "decodeShares ssl codec ids stale item =
     (if di_shareSize item < 0 \<or> di_secretSize item < 0 then Inl DedupState.OutOfBounds
      else
        (case decoding ssl codec (di_data item) ids (nat (di_shareSize item)) (nat (di_secretSize item)) of
           Inl CDCodec.OutOfBounds \<Rightarrow> Inl DedupState.OutOfBounds
         | Inl _ \<Rightarrow> Inr \<lparr> so_data = stale, so_secretSize = di_secretSize item \<rparr>
         | Inr secret \<Rightarrow>
             if SECRET_SIZE < length secret then Inl BufferOverflow
             else Inr \<lparr> so_data = overlay 0 secret stale, so_secretSize = di_secretSize item \<rparr>))"

section \<open>The collect thread\<close>

text \<open>The write buffer (its first \<open>out_index\<close> bytes), the count and the file.\<close>

record writer =
  wr_buf :: bytes
  wr_count :: int
  wr_file :: bytes

definition collectSecret :: "secret_obj \<Rightarrow> writer \<Rightarrow> (unit, writer) outcome" where
  "collectSecret x w =
     (let w1 = (if FWRITE_BUFFER_SIZE < int (length (wr_buf w)) + so_secretSize x then w\<lparr>wr_file := wr_file w @ wr_buf w, wr_buf := []\<rparr> else w) in
      if so_secretSize x < 0 \<or> int (length (so_data x)) < so_secretSize x then Crash DedupState.OutOfBounds
      else if FWRITE_BUFFER_SIZE < int (length (wr_buf w1)) + so_secretSize x then Crash BufferOverflow
      else Done () (w1\<lparr>wr_buf := wr_buf w1 @ take (nat (so_secretSize x)) (so_data x), wr_count := wr_count w1 + 1\<rparr>))"

text \<open>The thread ends when the count meets the total, which is not tested before the first secret; otherwise it waits for the next one.\<close>

fun collectSecrets :: "int \<Rightarrow> (crash + secret_obj) list \<Rightarrow> writer \<Rightarrow> (unit, writer) outcome option" where
  "collectSecrets totalSecrets [] w = None"
| "collectSecrets totalSecrets (x # xs) w =
     (case x of
        Inl e \<Rightarrow> Some (Crash e)
      | Inr y \<Rightarrow>
          (case collectSecret y w of
             Done _ w1 \<Rightarrow>
               if wr_count w1 = totalSecrets then Some (Done () (w1\<lparr>wr_file := wr_file w1 @ wr_buf w1, wr_buf := []\<rparr>))
               else collectSecrets totalSecrets xs w1
           | Fails w1 \<Rightarrow> Some (Fails w1)
           | Crash e \<Rightarrow> Some (Crash e)))"

definition mkDecoder :: "gf \<Rightarrow> int \<Rightarrow> int \<Rightarrow> int \<Rightarrow> int \<Rightarrow> int \<Rightarrow> cdcodec option" where
  "mkDecoder gf type n m r securetype =
     (case mkCrypto True securetype of
        Inl _ \<Rightarrow> None
      | Inr c \<Rightarrow> (case mkCDCodec gf type n m r (Some c) of Inl _ \<Rightarrow> None | Inr codec \<Rightarrow> Some codec))"

text \<open>All threads on the objects that are added; the file is empty before. \<open>stales i\<close> is the array before object i.\<close>

definition decodeFile :: "openssl \<Rightarrow> cdcodec \<Rightarrow> nat list \<Rightarrow> (nat \<Rightarrow> bytes) \<Rightarrow> int \<Rightarrow> decodeItem list \<Rightarrow> (unit, writer) outcome option" where
  "decodeFile ssl codec ids stales totalSecrets items =
     collectSecrets totalSecrets (map (\<lambda>i. decodeShares ssl codec ids (stales i) (items ! i)) [0..<length items]) \<lparr> wr_buf = [], wr_count = 0, wr_file = [] \<rparr>"

section \<open>What is written\<close>

text \<open>A secret, or what the array had before when the shares do not decode.\<close>

definition writtenFor :: "openssl \<Rightarrow> cdcodec \<Rightarrow> nat list \<Rightarrow> bytes \<Rightarrow> decodeItem \<Rightarrow> bytes" where
  "writtenFor ssl codec ids stale item =
     (case decoding ssl codec (di_data item) ids (nat (di_shareSize item)) (nat (di_secretSize item)) of
        Inr secret \<Rightarrow> secret
      | Inl _ \<Rightarrow> take (nat (di_secretSize item)) stale)"

definition goodItemD :: "openssl \<Rightarrow> cdcodec \<Rightarrow> nat list \<Rightarrow> decodeItem \<Rightarrow> bool" where
  "goodItemD ssl codec ids item \<longleftrightarrow> 0 \<le> di_shareSize item \<and> 0 \<le> di_secretSize item \<and> di_secretSize item \<le> int SECRET_SIZE \<and>
     (case decoding ssl codec (di_data item) ids (nat (di_shareSize item)) (nat (di_secretSize item)) of
        Inr secret \<Rightarrow> int (length secret) = di_secretSize item
      | Inl e \<Rightarrow> e \<noteq> CDCodec.OutOfBounds)"

lemma decodeShares_run:
  assumes "goodItemD ssl codec ids item" "length stale = SECRET_SIZE"
  obtains x where "decodeShares ssl codec ids stale item = Inr x" "0 \<le> so_secretSize x" "so_secretSize x \<le> int SECRET_SIZE"
    "length (so_data x) = SECRET_SIZE" "take (nat (so_secretSize x)) (so_data x) = writtenFor ssl codec ids stale item"
proof (cases "decoding ssl codec (di_data item) ids (nat (di_shareSize item)) (nat (di_secretSize item))")
  case (Inl e)
  then show ?thesis using assms that by (cases e) (auto simp: goodItemD_def decodeShares_def writtenFor_def)
next
  case (Inr secret)
  then have len: "int (length secret) = di_secretSize item" "length secret \<le> SECRET_SIZE" using assms(1) by (auto simp: goodItemD_def)
  have "decodeShares ssl codec ids stale item = Inr \<lparr> so_data = overlay 0 secret stale, so_secretSize = di_secretSize item \<rparr>"
    using Inr len assms(1) by (simp add: decodeShares_def goodItemD_def)
  then show ?thesis by (rule that) (use len assms Inr in \<open>auto simp: writtenFor_def goodItemD_def simp flip: len(1)\<close>)
qed

lemma collectSecret_run:
  assumes "0 \<le> so_secretSize x" "so_secretSize x \<le> int SECRET_SIZE" "length (so_data x) = SECRET_SIZE" "int (length (wr_buf w)) \<le> FWRITE_BUFFER_SIZE"
  obtains w1 where "collectSecret x w = Done () w1" "wr_count w1 = wr_count w + 1" "int (length (wr_buf w1)) \<le> FWRITE_BUFFER_SIZE"
    "wr_file w1 @ wr_buf w1 = wr_file w @ wr_buf w @ take (nat (so_secretSize x)) (so_data x)"
proof (cases "FWRITE_BUFFER_SIZE < int (length (wr_buf w)) + so_secretSize x")
  case True
  then have "collectSecret x w = Done () (w\<lparr>wr_file := wr_file w @ wr_buf w, wr_buf := take (nat (so_secretSize x)) (so_data x), wr_count := wr_count w + 1\<rparr>)"
    using assms by (simp add: collectSecret_def SECRET_SIZE_def FWRITE_BUFFER_SIZE_def)
  then show ?thesis by (rule that) (use assms in \<open>auto simp: SECRET_SIZE_def FWRITE_BUFFER_SIZE_def\<close>)
next
  case False
  then have "collectSecret x w = Done () (w\<lparr>wr_buf := wr_buf w @ take (nat (so_secretSize x)) (so_data x), wr_count := wr_count w + 1\<rparr>)"
    using assms by (simp add: collectSecret_def)
  then show ?thesis by (rule that) (use assms False in auto)
qed

lemma collectSecrets_run:
  assumes "\<forall>x\<in>set xs. 0 \<le> so_secretSize x \<and> so_secretSize x \<le> int SECRET_SIZE \<and> length (so_data x) = SECRET_SIZE" "xs \<noteq> []"
  shows "wr_count w + int (length xs) = totalSecrets \<Longrightarrow> int (length (wr_buf w)) \<le> FWRITE_BUFFER_SIZE \<Longrightarrow>
    \<exists>w1. collectSecrets totalSecrets (map Inr xs) w = Some (Done () w1) \<and>
      wr_file w1 = wr_file w @ wr_buf w @ concat (map (\<lambda>x. take (nat (so_secretSize x)) (so_data x)) xs)"
  using assms
proof (induction xs arbitrary: w)
  case (Cons x xs)
  obtain w1 where w1: "collectSecret x w = Done () w1" "wr_count w1 = wr_count w + 1" "int (length (wr_buf w1)) \<le> FWRITE_BUFFER_SIZE"
    "wr_file w1 @ wr_buf w1 = wr_file w @ wr_buf w @ take (nat (so_secretSize x)) (so_data x)"
    using collectSecret_run [of x w] Cons.prems by auto
  show ?case
  proof (cases "xs = []")
    case True
    then show ?thesis using w1 Cons.prems(1) by simp
  next
    case False
    obtain w2 where w2: "collectSecrets totalSecrets (map Inr xs) w1 = Some (Done () w2)"
      "wr_file w2 = wr_file w1 @ wr_buf w1 @ concat (map (\<lambda>x. take (nat (so_secretSize x)) (so_data x)) xs)"
      using Cons.IH [of w1] Cons.prems(1,3) w1(2,3) False by auto
    moreover have "wr_count w1 \<noteq> totalSecrets" using Cons.prems(1) w1(2) False by (cases xs) simp_all
    moreover have "wr_file w2 = wr_file w @ wr_buf w @ concat (map (\<lambda>x. take (nat (so_secretSize x)) (so_data x)) (x # xs))"
      unfolding w2(2) append_assoc [symmetric] w1(4) by simp
    ultimately show ?thesis using w1(1) by simp
  qed
qed simp

lemma decodeFile_run:
  assumes "items \<noteq> []" "\<forall>item\<in>set items. goodItemD ssl codec ids item" "\<forall>i<length items. length (stales i) = SECRET_SIZE"
  obtains w where "decodeFile ssl codec ids stales (int (length items)) items = Some (Done () w)"
    "wr_file w = concat (map (\<lambda>i. writtenFor ssl codec ids (stales i) (items ! i)) [0..<length items])"
proof -
  define good where "good x \<longleftrightarrow> 0 \<le> so_secretSize x \<and> so_secretSize x \<le> int SECRET_SIZE \<and> length (so_data x) = SECRET_SIZE" for x :: secret_obj
  have "\<exists>x. decodeShares ssl codec ids (stales i) (items ! i) = Inr x \<and> good x \<and>
      take (nat (so_secretSize x)) (so_data x) = writtenFor ssl codec ids (stales i) (items ! i)" if "i < length items" for i
    by (rule decodeShares_run [of ssl codec ids "items ! i" "stales i"]) (use assms(2,3) that good_def in auto)
  then obtain f where f: "\<forall>i<length items. decodeShares ssl codec ids (stales i) (items ! i) = Inr (f i) \<and> good (f i) \<and>
      take (nat (so_secretSize (f i))) (so_data (f i)) = writtenFor ssl codec ids (stales i) (items ! i)" by metis
  let ?xs = "map f [0..<length items]" and ?w = "\<lparr> wr_buf = [], wr_count = 0, wr_file = [] \<rparr>"
  have "\<exists>w. collectSecrets (int (length items)) (map Inr ?xs) ?w = Some (Done () w) \<and>
      wr_file w = wr_file ?w @ wr_buf ?w @ concat (map (\<lambda>x. take (nat (so_secretSize x)) (so_data x)) ?xs)"
    by (rule collectSecrets_run) (use f assms(1) in \<open>auto simp: good_def FWRITE_BUFFER_SIZE_def\<close>)
  moreover have "map (\<lambda>i. decodeShares ssl codec ids (stales i) (items ! i)) [0..<length items] = map Inr ?xs" using f by simp
  moreover have "map (\<lambda>x. take (nat (so_secretSize x)) (so_data x)) ?xs = map (\<lambda>i. writtenFor ssl codec ids (stales i) (items ! i)) [0..<length items]"
    using f by simp
  ultimately show ?thesis using that unfolding decodeFile_def by (metis append_Nil writer.select_convs(1,3))
qed

text \<open>
  C39. The decoder writes its objects in order, and does not notice a secret it cannot decode. For any objects whose
  sizes are in range, as many as the total it was told, it ends, and the file is the concatenation of one piece per object, of the
  size that the object claims: the secret, if its shares decode, and otherwise whatever the array of the object had before.
\<close>

theorem decoder_writes_in_order:
  assumes "items \<noteq> []" "\<forall>item\<in>set items. goodItemD ssl codec ids item" "\<forall>i<length items. length (stales i) = SECRET_SIZE"
  shows "\<exists>w. decodeFile ssl codec ids stales (int (length items)) items = Some (Done () w) \<and>
    wr_file w = concat (map (\<lambda>i. writtenFor ssl codec ids (stales i) (items ! i)) [0..<length items]) \<and>
    int (length (wr_file w)) = (\<Sum>item\<leftarrow>items. di_secretSize item)"
proof -
  obtain w where w: "decodeFile ssl codec ids stales (int (length items)) items = Some (Done () w)"
    "wr_file w = concat (map (\<lambda>i. writtenFor ssl codec ids (stales i) (items ! i)) [0..<length items])"
    by (rule decodeFile_run [OF assms])
  have "int (length (writtenFor ssl codec ids (stales i) (items ! i))) = di_secretSize (items ! i)" if "i < length items" for i
  proof -
    have "goodItemD ssl codec ids (items ! i)" "length (stales i) = SECRET_SIZE" using assms(2,3) that by simp_all
    then show ?thesis by (auto simp: writtenFor_def goodItemD_def split: sum.splits)
  qed
  then have "map (\<lambda>i. int (length (writtenFor ssl codec ids (stales i) (items ! i)))) [0..<length items] = map di_secretSize items"
    by (intro nth_equalityI) simp_all
  moreover have "int (\<Sum>x\<leftarrow>xs. g x) = (\<Sum>x\<leftarrow>xs. int (g x))" for xs :: "nat list" and g by (induction xs) simp_all
  ultimately have "int (length (wr_file w)) = (\<Sum>item\<leftarrow>items. di_secretSize item)"
    by (simp add: w(2) length_concat comp_def)
  then show ?thesis using w by blast
qed

section \<open>A file comes back\<close>

text \<open>What a recipe and a restore have of a share.\<close>

definition entryOfShare :: "share \<Rightarrow> fileRecipeEntry" where
  "entryOfShare x = \<lparr> fre_shareFP = mde_shareFP (fst x), fre_secretID = mde_secretID (fst x), fre_secretSize = mde_secretSize (fst x) \<rparr>"

definition infoOfShare :: "share \<Rightarrow> shareEntry \<times> bytes" where
  "infoOfShare x = (\<lparr> she_secretID = mde_secretID (fst x), she_secretSize = mde_secretSize (fst x), she_shareSize = mde_shareSize (fst x) \<rparr>, snd x)"

text \<open>A server has a share when it finds its bytes under its fingerprint.\<close>

definition hasShares :: "dedupCore \<Rightarrow> share list \<Rightarrow> bool" where
  "hasShares s xs \<longleftrightarrow> (\<forall>x\<in>set xs. fetchShare s (mde_shareFP (fst x)) = Some (snd x))"

lemma hasShares_restored:
  assumes "storeInv ssl c s" "hasShares s xs" "\<forall>x\<in>set xs. goodShare lim x" "lim \<le> 4194292"
  shows "\<forall>e\<in>set (map entryOfShare xs). restorable s e"
    and "restoredMsgs s fileSize (map entryOfShare xs) =
      packMsgs (putShareFileHead \<lparr> sfh_fileSize = fileSize, sfh_numOfShares = int (length xs) \<rparr>) (map itemBytes (map infoOfShare xs))"
proof -
  have snd: "sharesSound ssl c s" using assms(1) by (simp add: storeInv_def)
  have "restorable s (entryOfShare x)" if "x \<in> set xs" for x
  proof -
    have x: "fetchShare s (mde_shareFP (fst x)) = Some (snd x)" "goodShare lim x" using assms(2,3) that by (simp_all add: hasShares_def)
    then obtain v where v: "db s (shareFP2IndexKey (mde_shareFP (fst x))) = Some v" by (auto simp: fetchShare_def split: option.splits)
    then have "int (length (snd x)) = sih_shareSize (headOf v)" using fetchShare_sound [OF snd v] x(1) by auto
    then show ?thesis using v x(2) assms(4)
      by (auto simp: restorable_def entryOfShare_def okRecipeEntry_def goodShare_def okMDEntry_def SHARE_FILE_BUFFER_SIZE_def)
  qed
  then show "\<forall>e\<in>set (map entryOfShare xs). restorable s e" by simp
  have "entryBytes s (entryOfShare x) = itemBytes (infoOfShare x)" if "x \<in> set xs" for x
    using assms(2,3) that by (simp add: Let_def hasShares_def goodShare_def entryBytes_def entryOfShare_def infoOfShare_def itemBytes_def)
  then show "restoredMsgs s fileSize (map entryOfShare xs) =
      packMsgs (putShareFileHead \<lparr> sfh_fileSize = fileSize, sfh_numOfShares = int (length xs) \<rparr>) (map itemBytes (map infoOfShare xs))"
    by (simp add: restoredMsgs_def cong: map_cong)
qed

text \<open>The data thread of a cloud and the data server: the shares that the recipe on the server lists come into the ring.\<close>

lemma cloud_restored:
  assumes "whole (net_recv W)" "sendsWhole W" "whole N" "faultless E" "hashOfServer = Inr cs" "shell_rm sh" "int32 u" "storeInv ssl cs s"
    and "xs \<noteq> []" "\<forall>x\<in>set xs. goodShare RING_BUFFER_DATA_SIZE x" "int32 (int (length xs))" "hasShares s xs"
    and "path = recipesDir @ underscores name" "plainName path" "length path \<le> 248"
    and "disk s path = Some (recipeFileOf v fileSize (map entryOfShare xs))" "int32 v" "int64 fileSize"
  shows "\<exists>replies t h s'. thread_handler_data W name (mkSocket W u replies) = Some (Done () t) \<and>
      SocketHandlerData N E sh ssl (so_out (dt_sock t)) s = Some (Done () (h, s')) \<and> concat (dedupCore.sent s') = concat (dedupCore.sent s) @ replies \<and>
      dt_items t = DownHead \<lparr> sfh_fileSize = fileSize, sfh_numOfShares = int (length xs) \<rparr> # map itemOf (map infoOfShare xs)"
proof -
  let ?h = "\<lparr> sfh_fileSize = fileSize, sfh_numOfShares = int (length xs) \<rparr>" and ?es = "map entryOfShare xs" and ?ys = "map infoOfShare xs"
  have lim: "RING_BUFFER_DATA_SIZE \<le> 4194292" by (simp add: RING_BUFFER_DATA_SIZE_def)
  note res = hasShares_restored [OF assms(8,12,10) lim]
  have es: "disk s path = Some (recipeFileOf v fileSize ?es @ [])" "int32 (int (length ?es))" using assms(11,16) by simp_all
  obtain h t where srv: "SocketHandlerData N E sh ssl (userMsg u @ packageMsg DOWNLOAD name) s =
      Some (Done () (h, (later t (dedupCore.sent s @ map restoreMsg (restoredMsgs s fileSize ?es)) s)\<lparr>disk := (disk s)(path := None)\<rparr>))" (is "_ = Some (Done () (_, ?s1))")
    "\<forall>p\<in>set (restoredMsgs s fileSize ?es). int (length p) \<le> SHARE_FILE_BUFFER_SIZE"
    by (rule restore_session [OF assms(3-8) res(1) assms(13-15) es(1) assms(17,18) es(2)])
  let ?replies = "concat (map restoreMsg (restoredMsgs s fileSize ?es))"
  have good: "\<forall>y\<in>set ?ys. goodItem RING_BUFFER_DATA_SIZE y"
    using assms(10) by (auto simp: goodItem_def goodShare_def infoOfShare_def okShareEntry_def okMDEntry_def)
  have name: "length name \<le> 256" by (rule plain_recipe(3) [OF assms(13-15)])
  have pre: "?ys \<noteq> []" "okShareFileHead ?h" "sfh_numOfShares ?h = int (length ?ys)"
    "rx_in (so_rx (mkSocket W u ?replies)) = concat (map restoreMsg (packMsgs (putShareFileHead ?h) (map itemBytes ?ys)))"
    "\<forall>p\<in>set (packMsgs (putShareFileHead ?h) (map itemBytes ?ys)). int (length p) \<le> DOWNLOAD_BUFFER_SIZE"
    using assms(9,11,18) srv(2) mkSocket_whole [OF assms(2)]
    by (simp_all add: okShareFileHead_def SHARE_FILE_BUFFER_SIZE_def DOWNLOAD_BUFFER_SIZE_def res(2))
  obtain t' where "downloadThread W RING_BUFFER_DATA_SIZE name (mkSocket W u ?replies) = Some (Done () t')" "dt_items t' = DownHead ?h # map itemOf ?ys"
    "so_out (dt_sock t') = so_out (mkSocket W u ?replies) @ packageMsg DOWNLOAD name"
    by (rule downloadThread_run [OF assms(1,2) name pre(1) good pre(2-5)])
  then show ?thesis
    using srv(1) by (intro exI [of _ ?replies] exI [of _ t'] exI [of _ h] exI [of _ ?s1] conjI) (simp_all add: thread_handler_data_def mkSocket_whole [OF assms(2)])
qed

text \<open>The shares of secret l from the first k clouds.\<close>

definition rowsOf :: "openssl \<Rightarrow> cdcodec \<Rightarrow> nat \<Rightarrow> bytes list \<Rightarrow> (shareEntry \<times> bytes) list list" where
  "rowsOf ssl codec k ds = map (\<lambda>l. map (\<lambda>i. infoOfShare (cloudShares ssl codec i 0 ds ! l)) [0..<k]) [0..<length ds]"

lemma rowsOf_column: "i < k \<Longrightarrow> ringOf (rowsOf ssl codec k ds) i = map itemOf (map infoOfShare (cloudShares ssl codec i 0 ds))"
  by (intro nth_equalityI) (simp_all add: rowsOf_def length_cloudShares)

lemma rowsOf_good:
  assumes "goodCodec ssl codec" "\<forall>d\<in>set ds. goodSecret codec d" "int (length ds) \<le> 2147483648" "0 < codecK codec" "codecK codec \<le> codecN codec" "l < length ds"
  shows "goodRow (codecK codec) (rowsOf ssl codec (codecK codec) ds ! l)"
    and "rowItem (rowsOf ssl codec (codecK codec) ds ! l) =
      \<lparr> di_data = concat (map (\<lambda>i. snd (cloudShares ssl codec i 0 ds ! l)) [0..<codecK codec]), di_secretSize = int (length (ds ! l)),
         di_shareSize = int (shareSizeOf codec (length (ds ! l))), di_secretID = int l \<rparr>"
proof -
  let ?k = "codecK codec" and ?d = "ds ! l"
  have d: "goodSecret codec ?d" using assms(2,6) by simp
  have row: "rowsOf ssl codec ?k ds ! l = map (\<lambda>i. infoOfShare (cloudShare ssl codec i l ?d)) [0..<?k]"
    using assms(6) by (simp add: rowsOf_def cloudShares_nth)
  have len: "length (snd (cloudShare ssl codec i l ?d)) = shareSizeOf codec (length ?d)" if "i < ?k" for i
    using cloudShare_good(1) [OF assms(1) d, of i l] that assms(3,5,6) by simp
  have first: "hd (map g [0..<?k]) = g 0" for g :: "nat \<Rightarrow> shareEntry \<times> bytes" using assms(4) by (simp add: hd_map)
  have "?k * shareSizeOf codec (length ?d) \<le> codecN codec * shareSizeOf codec (length ?d)" by (rule mult_le_mono1 [OF assms(5)])
  also have "... \<le> SHARE_BUFFER_SIZE" using d by (simp add: goodSecret_def mult.commute)
  finally show "goodRow ?k (rowsOf ssl codec ?k ds ! l)"
    using len [of 0] len assms(4) by (auto simp: row goodRow_def first infoOfShare_def cloudShare_def)
  show "rowItem (rowsOf ssl codec ?k ds ! l) =
      \<lparr> di_data = concat (map (\<lambda>i. snd (cloudShares ssl codec i 0 ds ! l)) [0..<?k]), di_secretSize = int (length ?d),
         di_shareSize = int (shareSizeOf codec (length ?d)), di_secretID = int l \<rparr>"
    using assms(6) by (simp add: row rowItem_def first infoOfShare_def cloudShare_def cloudShares_nth comp_def)
qed

text \<open>What the downloader hands over is decoded to the secrets.\<close>

lemma secrets_decoded:
  assumes "goodCodec ssl codec" "\<forall>d\<in>set ds. goodSecret codec d" "int (length ds) \<le> 2147483648" "0 < codecK codec" "codecK codec \<le> codecN codec"
    and "ds \<noteq> []" "\<forall>i<length ds. length (stales i) = SECRET_SIZE"
  obtains w where "decodeFile ssl codec [0..<codecK codec] stales (int (length ds)) (map rowItem (rowsOf ssl codec (codecK codec) ds)) = Some (Done () w)"
    "wr_file w = concat ds"
proof -
  let ?ids = "[0..<codecK codec]" and ?items = "map rowItem (rowsOf ssl codec (codecK codec) ds)"
  have len: "length ?items = length ds" by (simp add: rowsOf_def)
  have dec: "decoding ssl codec (di_data (?items ! l)) ?ids (nat (di_shareSize (?items ! l))) (nat (di_secretSize (?items ! l))) = Inr (ds ! l)"
    "goodItemD ssl codec ?ids (?items ! l)" if l: "l < length ds" for l
  proof -
    have it: "?items ! l = rowItem (rowsOf ssl codec (codecK codec) ds ! l)" using l len by (simp only: length_map nth_map)
    show dec: "decoding ssl codec (di_data (?items ! l)) ?ids (nat (di_shareSize (?items ! l))) (nat (di_secretSize (?items ! l))) = Inr (ds ! l)"
      using cloudShares_decode [OF assms(1,2) l, of ?ids] assms(5) unfolding it rowsOf_good(2) [OF assms(1-5) l] by simp
    have "length (ds ! l) \<le> SECRET_SIZE" using assms(2) l by (simp add: goodSecret_def)
    then show "goodItemD ssl codec ?ids (?items ! l)"
      using dec unfolding it rowsOf_good(2) [OF assms(1-5) l] by (simp add: goodItemD_def)
  qed
  have "?items \<noteq> []" "\<forall>item\<in>set ?items. goodItemD ssl codec ?ids item" "\<forall>i<length ?items. length (stales i) = SECRET_SIZE"
    using assms(6,7) dec(2) len by (metis length_0_conv, metis in_set_conv_nth, metis)
  then obtain w where "decodeFile ssl codec ?ids stales (int (length ?items)) ?items = Some (Done () w)"
    "wr_file w = concat (map (\<lambda>i. writtenFor ssl codec ?ids (stales i) (?items ! i)) [0..<length ?items])" by (rule decodeFile_run)
  moreover have "map (\<lambda>i. writtenFor ssl codec ?ids (stales i) (?items ! i)) [0..<length ?items] = map ((!) ds) [0..<length ds]"
    using dec(1) len by (intro map_cong) (simp_all add: writtenFor_def)
  ultimately show ?thesis using that len by (simp add: map_nth)
qed

lemma choose_two:
  assumes "\<And>i. i < (k :: nat) \<Longrightarrow> \<exists>a b. P i a b"
  obtains f g where "\<forall>i<k. P i (f i) (g i)"
  using assms by metis

text \<open>
  The shares come back. Let the data servers of the first k clouds hold the shares of the secrets of a file and a recipe that lists them. Then there
  are answers of the servers for which every thread of the downloader ends; each server, asked what its thread asked, gives these
  answers; and what the downloader then puts together and the decoder writes is the concatenation of the secrets.
\<close>

lemma download_rebuilds_file:
  assumes "gf_laws gf" "evp_ok ssl" "mkEncoder gf CAONT_RS_TYPE n m r HIGH_SEC_PAIR_TYPE = Some (codec, c)" "k = nat (n - m)"
    and "ds \<noteq> []" "\<forall>d\<in>set ds. goodSecret codec d" "int (length ds) < 2147483648" "\<forall>i<length ds. length (stales i) = SECRET_SIZE"
    and "whole (net_recv W)" "sendsWhole W" "whole N" "faultless E" "hashOfServer = Inr cs" "shell_rm sh" "int32 u" "\<forall>i<k. int64 (fs i)"
    and "\<forall>i<k. storeInv ssl cs (srv i) \<and> hasShares (srv i) (cloudShares ssl codec i 0 ds) \<and>
      (let path = recipesDir @ underscores (serverRecipeName name i) in plainName path \<and> length path \<le> 248 \<and>
        disk (srv i) path = Some (recipeFileOf u (fs i) (map entryOfShare (cloudShares ssl codec i 0 ds))))"
  shows "\<exists>replies ts items w.
    (\<forall>i<k. thread_handler_data W (serverRecipeName name i) (mkSocket W u (replies i)) = Some (Done () (ts i)) \<and>
      (\<exists>h s'. SocketHandlerData N E sh ssl (so_out (dt_sock (ts i))) (srv i) = Some (Done () (h, s')) \<and>
        concat (dedupCore.sent s') = concat (dedupCore.sent (srv i)) @ replies i)) \<and>
    downloadFile k buf (map (dt_items \<circ> ts) [0..<k]) = Some (Done (int (length ds), items) ()) \<and>
    decodeFile ssl codec [0..<k] stales (int (length ds)) items = Some (Done () w) \<and> wr_file w = concat ds"
proof -
  note codec = mkEncoder_good [OF assms(1-3)]
  have k: "k = codecK codec" "0 < codecK codec" "codecK codec \<le> codecN codec"
    using assms(3,4) codec(3,4) by (auto simp: mkEncoder_def mkCDCodec_def Let_def split: sum.splits if_splits)
  have len: "int (length ds) \<le> 2147483648" using assms(7) by simp
  let ?h = "\<lambda>i. \<lparr> sfh_fileSize = fs i, sfh_numOfShares = int (length ds) \<rparr>" and ?xs = "\<lambda>i. cloudShares ssl codec i 0 ds"
  define served where "served i replies t \<longleftrightarrow> thread_handler_data W (serverRecipeName name i) (mkSocket W u replies) = Some (Done () t) \<and>
      (\<exists>h s'. SocketHandlerData N E sh ssl (so_out (dt_sock t)) (srv i) = Some (Done () (h, s')) \<and>
        concat (dedupCore.sent s') = concat (dedupCore.sent (srv i)) @ replies)" for i replies t
  have "\<exists>replies t. served i replies t \<and> dt_items t = DownHead (?h i) # map itemOf (map infoOfShare (?xs i))" if i: "i < k" for i
  proof -
    have "\<forall>x\<in>set (?xs i). goodShare RING_BUFFER_DATA_SIZE x" using cloudShares_good [OF codec(1) assms(6) len, of i] i k by auto
    moreover have "?xs i \<noteq> []" using assms(5) by (cases ds) simp_all
    moreover have "int32 (int (length (?xs i)))" using assms(7) by (simp add: length_cloudShares int32_def)
    moreover note srv = spec [OF assms(17), of i, unfolded Let_def, THEN mp, OF i]
    ultimately show ?thesis
      using cloud_restored [where ssl = ssl and s = "srv i" and xs = "?xs i" and name = "serverRecipeName name i" and v = u and fileSize = "fs i",
          OF assms(9-15) _ _ _ _ _ refl] assms(15,16) i
      unfolding served_def length_cloudShares by blast
  qed
  then obtain replies ts where "\<forall>i<k. served i (replies i) (ts i) \<and> dt_items (ts i) = DownHead (?h i) # map itemOf (map infoOfShare (?xs i))"
    by (rule choose_two [of k "\<lambda>i replies t. served i replies t \<and> dt_items t = DownHead (?h i) # map itemOf (map infoOfShare (?xs i))"])
  then have th: "\<forall>i<k. served i (replies i) (ts i)" and items: "\<forall>i<k. dt_items (ts i) = DownHead (?h i) # map itemOf (map infoOfShare (?xs i))"
    by simp_all
  have "map (dt_items \<circ> ts) [0..<k] = map (\<lambda>i. DownHead (?h i) # ringOf (rowsOf ssl codec k ds) i) [0..<k]"
    using items by (simp add: rowsOf_column)
  moreover have "downloadFile k buf (map (\<lambda>i. DownHead (?h i) # ringOf (rowsOf ssl codec k ds) i) [0..<k]) =
      Some (Done (int (length (rowsOf ssl codec k ds)), map rowItem (rowsOf ssl codec k ds)) ())"
    by (rule downloadFile_run)
       (use k rowsOf_good(1) [OF codec(1) assms(6) len k(2,3)] in \<open>auto simp: in_set_conv_nth, simp_all add: rowsOf_def\<close>)
  moreover have "length (rowsOf ssl codec k ds) = length ds" by (simp add: rowsOf_def)
  ultimately have "downloadFile k buf (map (dt_items \<circ> ts) [0..<k]) = Some (Done (int (length ds), map rowItem (rowsOf ssl codec k ds)) ())" by (simp only:)
  moreover obtain w where "decodeFile ssl codec [0..<k] stales (int (length ds)) (map rowItem (rowsOf ssl codec k ds)) = Some (Done () w)" "wr_file w = concat ds"
    using secrets_decoded [OF codec(1) assms(6) len k(2,3) assms(5,8)] k(1) by metis
  ultimately show ?thesis using th unfolding served_def by blast
qed

subsection \<open>Witnesses\<close>

text \<open>A server with one share, given inodes and a given disk.\<close>

definition holdCore :: "(bytes \<Rightarrow> bytes option) \<Rightarrow> files \<Rightarrow> bytes \<Rightarrow> bytes \<Rightarrow> dedupCore" where
  "holdCore inodes dsk fp d = demoCore\<lparr>
     db := inodes(shareFP2IndexKey fp \<mapsto> newShareValue (replicate 12 97 @ scSuffix) 0 (int (length d)) 7),
     disk := dsk, bufferLink := [demoNode\<lparr>shareContainerBuffer := d\<rparr>]\<rparr>"

lemma holdCore_ok:
  assumes "generateHash toySSL shaCrypto d = Inr fp" "d \<noteq> []" "int (length d) \<le> RING_BUFFER_DATA_SIZE" "\<forall>key. inodes (shareFP2IndexKey key) = None"
  shows "storeInv toySSL shaCrypto (holdCore inodes dsk fp d)" "fetchShare (holdCore inodes dsk fp d) fp = Some d"
proof -
  let ?s = "holdCore inodes dsk fp d" and ?v = "newShareValue (replicate 12 97 @ scSuffix) 0 (int (length d)) 7"
  let ?h = "\<lparr> sih_shareContainerName = replicate 12 97 @ scSuffix, sih_shareContainerOffset = 0, sih_shareSize = int (length d), sih_numOfUsers = 1 \<rparr>"
  have v: "shareValue ?v ?h [\<lparr> ure_userID = 7, ure_refCnt = 1 \<rparr>]"
    by (rule newShareValue_valid) (use assms(3) in \<open>simp_all add: demoName_simps int32_def RING_BUFFER_DATA_SIZE_def\<close>)
  have c: "containerOf ?s (replicate 12 97 @ scSuffix) = Some d" by (simp add: containerOf_def holdCore_def demoNode_def)
  have "located toySSL shaCrypto ?s fp ?h"
    using assms(1-3) c by (simp add: located_def demoName_simps holdCore_def demoCore_def CONTAINER_BUFFER_SIZE_def RING_BUFFER_DATA_SIZE_def)
  moreover have db: "db ?s = inodes(shareFP2IndexKey fp \<mapsto> ?v)" by (simp add: holdCore_def)
  ultimately have "sharesSound toySSL shaCrypto ?s"
    unfolding sharesSound_def db using assms(4) by (auto simp: shareFP2IndexKey_def intro!: exI [of _ ?h] exI [of _ "[\<lparr> ure_userID = 7, ure_refCnt = 1 \<rparr>]"] v split: if_splits)
  moreover have "linkSound ?s"
    using assms(3) by (simp add: linkSound_def nodeSound_def holdCore_def demoCore_def demoNode_def demoName_simps CONTAINER_BUFFER_SIZE_def RING_BUFFER_DATA_SIZE_def)
  ultimately show "storeInv toySSL shaCrypto ?s" by (simp add: storeInv_def)
  show "fetchShare ?s fp = Some d" using c db by (simp add: fetchShare_def shareValue_head [OF v])
qed

text \<open>Shares of a wrong size do not decode; the file gets what the arrays had.\<close>

theorem decoder_writes_in_order_witness:
  "\<exists>w. decodeFile toySSL confCodec [0, 1, 2] (\<lambda>i. replicate SECRET_SIZE (of_nat i)) 2
      (replicate 2 \<lparr> di_data = replicate 93 1, di_secretSize = 3, di_shareSize = 31, di_secretID = 0 \<rparr>) = Some (Done () w) \<and>
    wr_file w = [0, 0, 0, 1, 1, 1]"
proof -
  let ?item = "\<lparr> di_data = replicate 93 (1 :: byte), di_secretSize = 3, di_shareSize = 31, di_secretID = 0 \<rparr>"
  have dec: "decoding toySSL confCodec dat [0, 1, 2] 31 3 = Inl BadShareSize" for dat
    by (simp add: decoding_def caontRSDecoding_def rsDecodeChecks_def failIf_def confCodec_sel codec_types Let_def)
  then have "\<forall>item\<in>set (replicate 2 ?item). goodItemD toySSL confCodec [0, 1, 2] item" by (simp add: goodItemD_def SECRET_SIZE_def)
  moreover have "replicate 3 b = [b, b, b]" for b :: byte by (simp add: numeral_3_eq_3)
  then have "writtenFor toySSL confCodec [0, 1, 2] (replicate SECRET_SIZE b) ?item = [b, b, b]" for b
    using dec by (simp add: writtenFor_def SECRET_SIZE_def)
  ultimately show ?thesis
    using decoder_writes_in_order [of "replicate 2 ?item" toySSL confCodec "[0, 1, 2]" "\<lambda>i. replicate SECRET_SIZE (of_nat i)"]
    by (auto simp: numeral_2_eq_2)
qed

end
