(* ===== verification/Recipes.thy ===== *)
theory Recipes
  imports Decoder
begin

text \<open>
  Getting the recipes back, client/comm/downloader.cc: the key files are fetched and decrypted, the metadata chunks become recipe
  files, and these are sent to the metadata servers. The theory shows what the functions of Downloader do when the
  metadata servers have what the encoder and the uploader gave them, for all clouds and together with the handler of the
  metadata server. The client's temporary files belong to a cloud each, and all are gone at the end.
\<close>

section \<open>Names of temporary files\<close>

lemma decimal_digits: "b \<in> set (decimal n) \<Longrightarrow> 48 \<le> b \<and> b \<le> 57"
proof (induction n rule: decimal.induct)
  case (1 n)
  have digit: "48 \<le> (48 + of_nat k :: byte) \<and> (48 + of_nat k :: byte) \<le> 57" if "k < 10" for k :: nat
    using that by (simp add: word_le_nat_alt unat_word_ariths unat_of_nat)
  show ?case
    using "1.prems" "1.IH" digit [of n] digit [of "n mod 10"] by (auto simp: decimal.simps [of n] split: if_splits)
qed

lemma decimal_inj: "decimal i = decimal j \<longleftrightarrow> i = j"
  by (metis decimalValue_decimal)

text \<open>The names of the client's files are told apart by their last bytes and by the number of the cloud.\<close>

lemma ends_differ: "length x = length y \<Longrightarrow> x \<noteq> y \<Longrightarrow> a @ x \<noteq> b @ y"
  by (simp add: append_eq_append_conv)

lemma tempNames_inj:
  "decKeyName name i = decKeyName name j \<longleftrightarrow> i = j" "shareRecipeName i = shareRecipeName j \<longleftrightarrow> i = j"
  by (simp_all add: decKeyName_def shareRecipeName_def decimal_inj)

lemma tempNames_differ:
  "decKeyName name i \<noteq> encKeyName name j" "decKeyName name i \<noteq> downKeyName name j" "decKeyName name i \<noteq> shareRecipeName j"
  "decKeyName name i \<noteq> serverRecipeName name j" "shareRecipeName i \<noteq> encKeyName name j" "shareRecipeName i \<noteq> downKeyName name j"
proof -
  have dec: "decKeyName name i = (cstring name @ ascii ''-share-'' @ decimal i @ ascii ''-d'') @ ascii ''ec.key''"
    and enc: "encKeyName name j = (cstring name @ ascii ''-share-'' @ decimal j @ ascii ''-e'') @ ascii ''nc.key''"
    and down: "downKeyName name j = (cstring name @ ascii ''-share-'' @ decimal j @ ascii ''-enc'') @ ascii ''.key.d''"
    and rec: "shareRecipeName j = (ascii ''share-'' @ decimal j @ ascii ''.'') @ ascii ''recipe''" for i j
    by (simp_all add: decKeyName_def encKeyName_def downKeyName_def shareRecipeName_def ascii_def)
  have srv: "serverRecipeName name j = (cstring name @ ascii ''-'' @ decimal j @ ascii ''.'') @ ascii ''recipe''"
    by (simp add: serverRecipeName_def ascii_def)
  show "decKeyName name i \<noteq> encKeyName name j" unfolding dec enc by (rule ends_differ) (simp_all add: ascii_def)
  show "decKeyName name i \<noteq> downKeyName name j" unfolding dec down by (rule ends_differ) (simp_all add: ascii_def)
  show "decKeyName name i \<noteq> shareRecipeName j" unfolding dec rec by (rule ends_differ) (simp_all add: ascii_def)
  show "decKeyName name i \<noteq> serverRecipeName name j" unfolding dec srv by (rule ends_differ) (simp_all add: ascii_def)
  show "shareRecipeName i \<noteq> encKeyName name j" unfolding enc rec by (rule ends_differ) (simp_all add: ascii_def)
  show "shareRecipeName i \<noteq> downKeyName name j" unfolding down rec by (rule ends_differ) (simp_all add: ascii_def)
qed

text \<open>The file is given by its full path, of plain characters, and its name leaves room for the commands.\<close>

definition fullPath :: "bytes \<Rightarrow> bool" where
  "fullPath name \<longleftrightarrow> cstring name \<noteq> [] \<and> hd (cstring name) = 47 \<and> (\<forall>b\<in>set (cstring name). plainByte b) \<and> length (cstring name) \<le> 60"

definition tempNames :: "bytes \<Rightarrow> nat \<Rightarrow> bytes set" where
  "tempNames name i = {encKeyName name i, downKeyName name i, decKeyName name i, shareRecipeName i, serverRecipeName name i}"

lemma tempNames_not_below:
  assumes "fullPath name" "s \<in> tempNames name i" "t \<in> tempNames name j"
  shows "t \<noteq> s @ 47 # p"
proof -
  have d: "47 \<notin> set (decimal n)" for n using decimal_digits [of 47 n] by auto
  have shape: "(\<exists>a. x = cstring name @ a \<and> 47 \<notin> set a) \<or> (\<exists>a. x = ascii ''share-'' @ a \<and> 47 \<notin> set a)" if "x \<in> tempNames name n" for x n
    using that d [of n]
    by (auto simp: tempNames_def encKeyName_def downKeyName_def decKeyName_def shareRecipeName_def serverRecipeName_def ascii_def)
  obtain base where base: "cstring name = 47 # base" using assms(1) by (cases "cstring name") (auto simp: fullPath_def)
  show ?thesis using shape [OF assms(2)] shape [OF assms(3)] base by (auto simp: ascii_def append_eq_append_conv2 Cons_eq_append_conv)
qed

lemma length_decimal:
  assumes "n < 100"
  shows "length (decimal n) \<le> 2"
proof -
  have "n div 10 < 10" using assms by simp
  then show ?thesis by (simp add: decimal.simps [of n] decimal.simps [of "n div 10"])
qed

lemma length_tempNames:
  assumes "fullPath name" "i < 100"
  shows "length (encKeyName name i) \<le> 77" "length (downKeyName name i) \<le> 79" "length (decKeyName name i) \<le> 77"
    "length (shareRecipeName i) \<le> 15" "length (serverRecipeName name i) \<le> 70"
  using assms length_decimal [OF assms(2)]
  by (simp_all add: fullPath_def encKeyName_def downKeyName_def decKeyName_def shareRecipeName_def serverRecipeName_def ascii_def)

lemma tempNames_plain:
  assumes "fullPath name" "t \<in> tempNames name i"
  shows "plainName t"
proof -
  have d: "plainByte b" if "b \<in> set (decimal n)" for b n
  proof -
    have "45 \<le> b" by (rule order_trans [of 45 48]) (use decimal_digits [OF that] in simp_all)
    then show ?thesis using decimal_digits [OF that] by (simp add: plainByte_def)
  qed
  have words: "\<forall>b\<in>set (ascii ''-share-''). plainByte b" "\<forall>b\<in>set (ascii ''-enc.key''). plainByte b" "\<forall>b\<in>set (ascii ''-enc.key.d''). plainByte b"
    "\<forall>b\<in>set (ascii ''-dec.key''). plainByte b" "\<forall>b\<in>set (ascii ''.recipe''). plainByte b" "\<forall>b\<in>set (ascii ''-''). plainByte b"
    "\<forall>b\<in>set (ascii ''share-''). plainByte b" by code_simp+
  have pre: "plainName (cstring name @ a)" if "\<forall>b\<in>set a. plainByte b" for a
    using assms(1) that by (auto simp: plainName_def fullPath_def)
  have "shareRecipeName i \<noteq> []" "hd (shareRecipeName i) \<noteq> 45" by (simp_all add: shareRecipeName_def ascii_def)
  moreover have "\<forall>b\<in>set (shareRecipeName i). plainByte b" using d words unfolding shareRecipeName_def by auto
  ultimately have "plainName (shareRecipeName i)" by (simp add: plainName_def)
  then show ?thesis
    using assms(2) d words unfolding tempNames_def encKeyName_def downKeyName_def decKeyName_def serverRecipeName_def by (auto intro!: pre)
qed

section \<open>Key files\<close>

lemma genericSend_out: "sendsWhole W \<Longrightarrow> \<exists>c. snd (genericSend W raw 0 k) = k\<lparr>so_out := so_out k @ raw, so_sends := c\<rparr>"
  using genericSend_whole [of W 0 raw k] by fastforce

lemma sysDo_ok:
  assumes "system_ok enc dec sys"
  shows "plainName t \<Longrightarrow> length t \<le> 240 \<Longrightarrow> \<forall>p. f (t @ 47 # p) = None \<Longrightarrow> sysDo sys (cmdRm t) f = f(t := None)"
    and "plainName a \<Longrightarrow> plainName b \<Longrightarrow> length a + length b \<le> 180 \<Longrightarrow> f a = Some d \<Longrightarrow> sysDo sys (cmdDecrypt b a) f = f(b \<mapsto> dec d)"
proof -
  have "length t \<le> 240 \<Longrightarrow> length (cmdRm t) < 255" "length a + length b \<le> 180 \<Longrightarrow> length (cmdDecrypt b a) < 255"
    by (simp_all add: cmdRm_def cmdDecrypt_def ascii_def)
  then show "plainName t \<Longrightarrow> length t \<le> 240 \<Longrightarrow> \<forall>p. f (t @ 47 # p) = None \<Longrightarrow> sysDo sys (cmdRm t) f = f(t := None)"
    and "plainName a \<Longrightarrow> plainName b \<Longrightarrow> length a + length b \<le> 180 \<Longrightarrow> f a = Some d \<Longrightarrow> sysDo sys (cmdDecrypt b a) f = f(b \<mapsto> dec d)"
    using assms by (simp_all add: system_ok_def sysDo_def)
qed

lemma storeKeyFile_run:
  assumes "system_ok enc dec sys" "fullPath name" "i < 100" "\<forall>p. opens p" "\<forall>t\<in>tempNames name i. f t = None \<and> (\<forall>p. f (t @ 47 # p) = None)"
  shows "storeKeyFile sys opens name i (enc keys) f = Done True (f(decKeyName name i \<mapsto> keys))"
proof -
  let ?down = "downKeyName name i" and ?dec = "decKeyName name i" and ?enc = "encKeyName name i"
  have mem: "?down \<in> tempNames name i" "?dec \<in> tempNames name i" "?enc \<in> tempNames name i" by (simp_all add: tempNames_def)
  have ne: "?down \<noteq> ?enc" by (simp add: downKeyName_def encKeyName_def ascii_def)
  note len = length_tempNames [OF assms(2,3)] and plain = tempNames_plain [OF assms(2)] and below = tempNames_not_below [OF assms(2)]
  have keys: "dec (enc keys) = keys" using assms(1) by (simp add: system_ok_def)
  have "sysDo sys (cmdDecrypt ?dec ?down) (f(?down \<mapsto> enc keys)) = f(?down \<mapsto> enc keys, ?dec \<mapsto> keys)" (is "_ = ?f1")
    using sysDo_ok(2) [OF assms(1) plain [OF mem(1)] plain [OF mem(2)], of "f(?down \<mapsto> enc keys)" "enc keys"] len keys by simp
  moreover have none: "\<forall>p. ?f1 (?enc @ 47 # p) = None" "\<forall>p. ?f1 (?down @ 47 # p) = None"
    using assms(5) mem below [OF mem(3,1)] below [OF mem(3,2)] below [OF mem(1,1)] below [OF mem(1,2)] by (simp_all add: fun_upd_def) metis+
  have "sysDo sys (cmdRm ?enc) ?f1 = ?f1"
    using sysDo_ok(1) [where t = ?enc and f = ?f1, OF assms(1) plain [OF mem(3)] _ none(1)] len(1) assms(5) mem(3) ne tempNames_differ(1) [of name i i]
    by (simp add: fun_upd_idem)
  moreover have "sysDo sys (cmdRm ?down) ?f1 = f(?dec \<mapsto> keys)"
  proof -
    have "?f1(?down := None) = f(?dec \<mapsto> keys)" using assms(5) mem(1) tempNames_differ(2) [of name i i] by (auto simp: fun_eq_iff)
    then show ?thesis using sysDo_ok(1) [where t = ?down and f = ?f1, OF assms(1) plain [OF mem(1)] _ none(2)] len(2) by simp
  qed
  ultimately show ?thesis using len(1-3) assms(4) by (simp add: storeKeyFile_def fits256_def)
qed

lemma downloadKeyFile_run:
  assumes "whole (net_recv W)" "sendsWhole W" "system_ok enc dec sys" "fullPath name" "i < 100" "\<forall>p. opens p"
    and "int32 (int (length (enc keys)))" "rx_in (so_rx (dc_sock g)) = le 4 (int (length (enc keys))) @ enc keys @ rest"
    and "\<forall>t\<in>tempNames name i. f t = None \<and> (\<forall>p. f (t @ 47 # p) = None)"
  obtains g1 where "downloadKeyFile W sys opens name i (g, f) = Some (Done True (g1, f(decKeyName name i \<mapsto> keys)))"
    "rx_in (so_rx (dc_sock g1)) = rest" "so_out (dc_sock g1) = so_out (dc_sock g) @ getKeyMsg (encKeyName name i)" "dc_counter g1 = dc_counter g"
proof -
  let ?enc = "encKeyName name i" and ?ek = "enc keys"
  define k1 where "k1 = snd (genericSend W ?enc 0 (snd (genericSend W (le 4 (int (length ?enc))) 0 (snd (genericSend W (le 4 GET_KEY_RECIPE) 0 (dc_sock g))))))"
  have k1: "so_out k1 = so_out (dc_sock g) @ getKeyMsg ?enc" "so_rx k1 = so_rx (dc_sock g)"
  proof -
    obtain a where a: "snd (genericSend W (le 4 GET_KEY_RECIPE) 0 (dc_sock g)) = (dc_sock g)\<lparr>so_out := so_out (dc_sock g) @ le 4 GET_KEY_RECIPE, so_sends := a\<rparr>" (is "_ = ?a")
      using genericSend_out [OF assms(2)] by blast
    obtain b where b: "snd (genericSend W (le 4 (int (length ?enc))) 0 ?a) = ?a\<lparr>so_out := so_out ?a @ le 4 (int (length ?enc)), so_sends := b\<rparr>" (is "_ = ?b")
      using genericSend_out [OF assms(2)] by blast
    obtain c where "snd (genericSend W ?enc 0 ?b) = ?b\<lparr>so_out := so_out ?b @ ?enc, so_sends := c\<rparr>"
      using genericSend_out [OF assms(2)] by blast
    then show "so_out k1 = so_out (dc_sock g) @ getKeyMsg ?enc" "so_rx k1 = so_rx (dc_sock g)"
      unfolding k1_def a b by (simp_all add: getKeyMsg_def)
  qed
  have st: "steady (net_recv W)" by (rule whole_steady [OF assms(1)])
  have in1: "rx_in (so_rx k1) = le 4 (int (length ?ek)) @ (?ek @ rest)" using assms(8) k1(2) by simp
  obtain c1 where d1: "downloadLoop W 4 4 [] k1 = Some (Done (True, [] @ le 4 (int (length ?ek))) (k1\<lparr>so_rx := \<lparr> rx_in = ?ek @ rest, rx_calls = c1 \<rparr>\<rparr>))" (is "_ = Some (Done _ ?k2)")
    using downloadLoop_gets [OF st in1, of 4 "[]" 4] by auto
  have in2: "rx_in (so_rx ?k2) = ?ek @ rest" by simp
  obtain c2 where d2: "downloadLoop W (int (length ?ek)) (int (length ?ek)) [] ?k2 = Some (Done (True, [] @ ?ek) (?k2\<lparr>so_rx := \<lparr> rx_in = rest, rx_calls = c2 \<rparr>\<rparr>))" (is "_ = Some (Done _ ?k3)")
    using downloadLoop_gets [OF st in2, of "int (length ?ek)" "[]" "int (length ?ek)"] by auto
  have "downloadKeyFile W sys opens name i (g, f) = Some (Done True (setSock g ?k3, f(decKeyName name i \<mapsto> keys)))"
    using d1 d2 assms(7) length_tempNames(1) [OF assms(4,5)] storeKeyFile_run [OF assms(3-6,9)]
    by (simp add: downloadKeyFile_def genericDownload_def fits256_def Let_def flip: k1_def)
  then show ?thesis by (rule that) (simp_all add: setSock_def k1)
qed

section \<open>Metadata chunks\<close>

lemma fold_wrap32: "int32 a \<Longrightarrow> fold (\<lambda>n a. wrap32 (a + g n)) ns a = wrap32 (a + (\<Sum>n\<leftarrow>ns. g n))"
proof (induction ns arbitrary: a)
  case (Cons n ns)
  then show ?case using wrap32_int32 wrap32_add [of "a + g n"] by (simp add: add.assoc)
qed simp

lemma readKeys_run: "\<forall>r\<in>set rs. length r = 68 \<Longrightarrow> j < length rs \<Longrightarrow> readKeys (Suc j) (concat rs) buf = Some (rs ! j)"
proof (induction rs arbitrary: j buf)
  case (Cons r rs)
  then show ?case by (cases j) simp_all
qed simp

text \<open>The key record with the number of the chunk decrypts it to the nodes of its shares.\<close>

lemma decryptChunk_run:
  assumes "goodCodec ssl codec" "chunksFor ssl (cryptoObj codec) segs ms keys" "j < length segs" "int (length segs) < 2147483648"
  obtains plain where "nodesFor (segs ! j) plain"
    "decryptChunk ssl (cryptoObj codec) (Some keys) (mde_secretID (fst (ms ! j))) (snd (ms ! j)) = Inr (Some plain)"
proof -
  let ?c = "cryptoObj codec"
  note crypt = goodCodec_crypto [OF assms(1)]
  note hash = hashOf_run(2) [OF crypt(1,3)]
  obtain rs where rs: "length rs = length segs" "keys = concat rs" "\<forall>j<length segs. chunkFor ssl ?c (segs ! j) j (ms ! j) (rs ! j)"
    using assms(2) by (auto simp: chunksFor_def)
  have "length r = 68" if "r \<in> set rs" for r
    using that rs(1,3) hash by (auto simp: in_set_conv_nth chunkFor_def)
  then have read: "readKeys (Suc j) keys None = Some (rs ! j)" unfolding rs(2) by (intro readKeys_run) (use assms(3) rs(1) in simp_all)
  obtain plain where plain: "nodesFor (segs ! j) plain" "encryptWithKey ssl ?c plain (hashOf ssl ?c plain) = Inr (snd (ms ! j))"
    "mde_secretID (fst (ms ! j)) = - 1 - int j" "rs ! j = le 4 (- 1 - int j) @ hashOf ssl ?c (snd (ms ! j)) @ hashOf ssl ?c plain"
    using rs(3) assms(3) by (auto simp: chunkFor_def)
  have "length plain = 64 * length (segs ! j)" by (rule nodesFor_length [OF plain(1)])
  then have len: "16 dvd length plain" "length (hashOf ssl ?c plain) = nat (keySize ?c)" using hash crypt(4) by (simp_all add: dvd_mult2)
  have "decryptWithKey ssl ?c (snd (ms ! j)) (hashOf ssl ?c plain) = Inr plain"
    using crypto.enc_total [OF crypt(1,2) len(2,1)] plain(2) by auto
  moreover have i32: "int32 (int j + 1)" "int32 (- 1 - int j)" using assms(3,4) by (simp_all add: int32_def)
  moreover have "slice 36 32 (rs ! j) = hashOf ssl ?c plain" "slice 0 4 (rs ! j) = le 4 (- 1 - int j)"
    using hash unfolding plain(4) by (simp_all add: slice_def)
  moreover have "nat (int j + 1) = Suc j" by simp
  ultimately have "decryptChunk ssl ?c (Some keys) (mde_secretID (fst (ms ! j))) (snd (ms ! j)) = Inr (Some plain)"
    using read by (simp add: decryptChunk_def plain(3) Let_def del: readKeys.simps)
  then show ?thesis using plain(1) that by blast
qed

text \<open>The entries that are written for a segment.\<close>

definition recipeBytes :: "share list \<Rightarrow> bytes" where
  "recipeBytes xs = concat (map (putRecipeEntry \<circ> entryOfShare) xs)"

lemma recipeBytes_append [simp]: "recipeBytes (xs @ ys) = recipeBytes xs @ recipeBytes ys" "recipeBytes [] = []"
  by (simp_all add: recipeBytes_def)

lemma nodes_entries:
  assumes "nodesFor xs plain"
  shows "concat (map (putRecipeEntry \<circ> entryOfNode) (map (\<lambda>j. getMetaNode (slice (64 * j) 64 plain)) [0..<length plain div 64])) = recipeBytes xs"
    and "(\<Sum>n\<leftarrow>map (\<lambda>j. getMetaNode (slice (64 * j) 64 plain)) [0..<length plain div 64]. mn_secretSize n) = secretsSize xs"
proof -
  obtain ns where ns: "plain = concat (map putMetaNode ns)" "list_all2 nodeFor ns xs" using assms by (auto simp: nodesFor_def)
  have ok: "\<forall>n\<in>set ns. okMetaNode n" using ns(2) by (auto simp: list_all2_conv_all_nth nodeFor_def in_set_conv_nth)
  have len: "length plain = 64 * length ns" using metaNode.length_table [OF ok] ns(1) by simp
  have "getMetaNode (slice (64 * j) 64 plain) = ns ! j" if "j < length ns" for j
    using metaNode.entry_at [OF ok that, of "[]" "[]"] that len unfolding ns(1) [symmetric] by (simp add: structAt_def nat_mult_distrib split: if_splits)
  then have nodes: "map (\<lambda>j. getMetaNode (slice (64 * j) 64 plain)) [0..<length plain div 64] = ns"
    using len by (intro nth_equalityI) simp_all
  have "map (putRecipeEntry \<circ> entryOfNode) ns = map (putRecipeEntry \<circ> entryOfShare) xs" "map mn_secretSize ns = map (\<lambda>x. mde_secretSize (fst x)) xs"
    using ns(2) by (auto simp: list_all2_conv_all_nth nodeFor_def entryOfNode_def entryOfShare_def intro!: nth_equalityI)
  then show "concat (map (putRecipeEntry \<circ> entryOfNode) (map (\<lambda>j. getMetaNode (slice (64 * j) 64 plain)) [0..<length plain div 64])) = recipeBytes xs"
    "(\<Sum>n\<leftarrow>map (\<lambda>j. getMetaNode (slice (64 * j) 64 plain)) [0..<length plain div 64]. mn_secretSize n) = secretsSize xs"
    unfolding nodes by (simp_all add: recipeBytes_def secretsSize_def comp_def)
qed

lemma writeRetrivedFileRecipe_run:
  assumes "goodCodec ssl codec" "chunksFor ssl (cryptoObj codec) segs ms keys" "j < length segs" "int (length segs) < 2147483648"
    and "fullPath name" "i < 100" "\<forall>p. opens p" "f (decKeyName name i) = Some keys" "int32 (dc_counter g)"
  shows "writeRetrivedFileRecipe ssl (cryptoObj codec) opens name i (fst (infoOfShare (ms ! j))) (snd (infoOfShare (ms ! j))) (g, f) =
    Done True (g\<lparr>dc_counter := wrap32 (dc_counter g + secretsSize (segs ! j))\<rparr>,
      f(shareRecipeName i \<mapsto> contentsOf (f (shareRecipeName i)) @ recipeBytes (segs ! j)))"
proof -
  obtain plain where plain: "nodesFor (segs ! j) plain"
    "decryptChunk ssl (cryptoObj codec) (Some keys) (mde_secretID (fst (ms ! j))) (snd (ms ! j)) = Inr (Some plain)"
    by (rule decryptChunk_run [OF assms(1-4)])
  show ?thesis
    using plain(2) assms(7-9) length_tempNames(3) [OF assms(5,6)] nodes_entries [OF plain(1)]
    by (simp add: writeRetrivedFileRecipe_def infoOfShare_def fits256_def Let_def fold_wrap32)
qed

lemma writeRecipes_run:
  assumes "goodCodec ssl codec" "chunksFor ssl (cryptoObj codec) segs ms keys" "int (length segs) < 2147483648"
    and "fullPath name" "i < 100" "\<forall>p. opens p" 
  shows "j + n = length segs \<Longrightarrow> f (decKeyName name i) = Some keys \<Longrightarrow> int32 (dc_counter g) \<Longrightarrow>
    writeRecipes ssl (cryptoObj codec) opens name i n (map itemOf (map infoOfShare (drop j ms))) (g, f) =
    Some (Done () (g\<lparr>dc_counter := wrap32 (dc_counter g + secretsSize (concat (drop j segs)))\<rparr>,
      if n = 0 then f else f(shareRecipeName i \<mapsto> contentsOf (f (shareRecipeName i)) @ recipeBytes (concat (drop j segs)))))"
proof (induction n arbitrary: j g f)
  case 0
  then show ?case by (simp add: secretsSize_def)
next
  case (Suc n)
  have len: "length ms = length segs" using assms(2) by (simp add: chunksFor_def)
  have d: "drop j ms = ms ! j # drop (Suc j) ms" "drop j segs = segs ! j # drop (Suc j) segs" "j < length segs"
    using Suc.prems(1) len by (simp_all add: Cons_nth_drop_Suc)
  let ?g1 = "g\<lparr>dc_counter := wrap32 (dc_counter g + secretsSize (segs ! j))\<rparr>"
  let ?f1 = "f(shareRecipeName i \<mapsto> contentsOf (f (shareRecipeName i)) @ recipeBytes (segs ! j))"
  have "writeRetrivedFileRecipe ssl (cryptoObj codec) opens name i (fst (infoOfShare (ms ! j))) (snd (infoOfShare (ms ! j))) (g, f) = Done True (?g1, ?f1)"
    by (rule writeRetrivedFileRecipe_run [where opens = opens and f = f, OF assms(1,2) d(3) assms(3-6) Suc.prems(2,3)])
  moreover have "writeRecipes ssl (cryptoObj codec) opens name i n (map itemOf (map infoOfShare (drop (Suc j) ms))) (?g1, ?f1) =
    Some (Done () (?g1\<lparr>dc_counter := wrap32 (dc_counter ?g1 + secretsSize (concat (drop (Suc j) segs)))\<rparr>,
      if n = 0 then ?f1 else ?f1(shareRecipeName i \<mapsto> contentsOf (?f1 (shareRecipeName i)) @ recipeBytes (concat (drop (Suc j) segs)))))"
    by (rule Suc.IH) (use Suc.prems tempNames_differ(3) [of name i i] wrap32_int32 in simp_all)
  moreover have "n = 0 \<Longrightarrow> drop (Suc j) segs = []" using Suc.prems(1) by simp
  ultimately show ?case unfolding d(1,2) by (auto simp: wrap32_add secretsSize_def contentsOf_def add.assoc)
qed

section \<open>Recipe files\<close>

lemma sendPieces_out:
  "sendsWhole W \<Longrightarrow> fsize = totalRead + int (length rest) \<Longrightarrow> \<exists>c. sendPieces W fsize totalRead rest k = k\<lparr>so_out := so_out k @ rest, so_sends := c\<rparr>"
proof (induction W fsize totalRead rest k rule: sendPieces.induct)
  case (1 W fsize totalRead rest k)
  show ?case
  proof (cases "rest = []")
    case True
    then show ?thesis by (subst sendPieces.simps) (cases k; simp)
  next
    case False
    let ?piece = "take 40000 rest"
    obtain c where c: "snd (genericSend W ?piece 0 k) = k\<lparr>so_out := so_out k @ ?piece, so_sends := c\<rparr>" (is "_ = ?k1")
      using genericSend_out [OF "1.prems"(1)] by blast
    have go: "totalRead < fsize \<and> rest \<noteq> []" using "1.prems"(2) False by auto
    have "fsize = totalRead + int (length ?piece) + int (length (drop 40000 rest))" using "1.prems"(2) by simp
    then obtain d where "sendPieces W fsize (totalRead + int (length ?piece)) (drop 40000 rest) ?k1 =
        ?k1\<lparr>so_out := so_out ?k1 @ drop 40000 rest, so_sends := d\<rparr>" using "1.IH" [OF go refl "1.prems"(1)] c by auto
    then show ?thesis using go c by (subst sendPieces.simps) (auto simp: Let_def)
  qed
qed

lemma recipe_lengths:
  assumes "\<forall>x\<in>set xs. goodShare lim x"
  shows "length (recipeBytes xs) = 40 * length xs"
    "recipeFileOf u fileSize (map entryOfShare xs) = putRecipeHead \<lparr> frh_userID = u, frh_fileSize = fileSize, frh_numOfShares = int (length xs) \<rparr> @ recipeBytes xs"
    "int32 u \<Longrightarrow> int64 fileSize \<Longrightarrow> int32 (int (length xs)) \<Longrightarrow> length (recipeFileOf u fileSize (map entryOfShare xs)) = 24 + 40 * length xs"
proof -
  have ok: "\<forall>e\<in>set (map entryOfShare xs). okRecipeEntry e" using assms by (auto simp: goodShare_def entryOfShare_def okRecipeEntry_def okMDEntry_def)
  show len: "length (recipeBytes xs) = 40 * length xs" using recipeEntry.length_table [OF ok] by (simp add: recipeBytes_def)
  show eq: "recipeFileOf u fileSize (map entryOfShare xs) = putRecipeHead \<lparr> frh_userID = u, frh_fileSize = fileSize, frh_numOfShares = int (length xs) \<rparr> @ recipeBytes xs"
    by (simp add: recipeFileOf_def recipeBytes_def)
  show "int32 u \<Longrightarrow> int64 fileSize \<Longrightarrow> int32 (int (length xs)) \<Longrightarrow> length (recipeFileOf u fileSize (map entryOfShare xs)) = 24 + 40 * length xs"
    unfolding eq using len by (simp add: recipeHead.length_put okRecipeHead_def)
qed

lemma sendRecipe_out:
  assumes "sendsWhole W" "\<forall>x\<in>set xs. goodShare lim x" "int32 u" "int64 counter" "int (24 + 40 * length xs) < 2147483648"
  shows "so_out (sendRecipe W u name counter (recipeBytes xs) k) = so_out k @ recipeFileMsg name (recipeFileOf u counter (map entryOfShare xs))"
    and "so_rx (sendRecipe W u name counter (recipeBytes xs) k) = so_rx k"
proof -
  note len = recipe_lengths [OF assms(2)]
  let ?h = "\<lparr> frh_userID = u, frh_fileSize = counter, frh_numOfShares = int (length xs) \<rparr>"
  have n: "wrap32 (int (length (recipeBytes xs))) = int (40 * length xs)" "int32 (int (length xs))"
    using assms(5) len(1) by (simp_all add: int32_def)
  have rf: "length (recipeFileOf u counter (map entryOfShare xs)) = 24 + 40 * length xs" by (rule len(3) [OF assms(3,4) n(2)])
  have out: "\<exists>c. snd (genericSend W raw 0 k) = k\<lparr>so_out := so_out k @ raw, so_sends := c\<rparr>" for raw k by (rule genericSend_out [OF assms(1)])
  have keep: "so_out (snd (genericSend W raw 0 k)) = so_out k @ raw" "so_rx (snd (genericSend W raw 0 k)) = so_rx k" for raw k
    using out [of raw k] by auto
  have pieces: "so_out (sendPieces W (int (40 * length xs)) 0 (recipeBytes xs) k) = so_out k @ recipeBytes xs"
    "so_rx (sendPieces W (int (40 * length xs)) 0 (recipeBytes xs) k) = so_rx k" for k
    using sendPieces_out [OF assms(1), of "int (40 * length xs)" 0 "recipeBytes xs" k] len(1) by auto
  have "int (40 * length xs) mod 18446744073709551616 = int (40 * length xs)" using assms(5) by (intro mod_pos_pos_trivial) simp_all
  then have "wrap32 (int (40 * length xs) mod 18446744073709551616 div 40) = int (length xs)" "int (40 * length xs) + 24 = int (24 + 40 * length xs)" using n(2) by simp_all
  then show "so_out (sendRecipe W u name counter (recipeBytes xs) k) = so_out k @ recipeFileMsg name (recipeFileOf u counter (map entryOfShare xs))"
    "so_rx (sendRecipe W u name counter (recipeBytes xs) k) = so_rx k"
    unfolding sendRecipe_def n(1) Let_def recipeFileMsg_def rf by (simp_all only: pieces keep len(2) append_assoc)
qed

lemma uploadRetrivedRecipeFile_run:
  assumes "sendsWhole W" "system_ok enc dec sys" "fullPath name" "i < 100" "\<forall>x\<in>set xs. goodShare lim x" "int32 u" "int32 (dc_counter g)"
    and "int (24 + 40 * length xs) < 2147483648" "f (shareRecipeName i) = Some (recipeBytes xs)" "f (serverRecipeName name i) = None"
    and "\<forall>t\<in>tempNames name i. \<forall>p. f (t @ 47 # p) = None"
  obtains g1 where "uploadRetrivedRecipeFile W sys u name i (g, f) = Done () (g1, f(shareRecipeName i := None, decKeyName name i := None))"
    "so_out (dc_sock g1) = so_out (dc_sock g) @ recipeFileMsg (serverRecipeName name i) (recipeFileOf u (dc_counter g) (map entryOfShare xs))"
proof -
  let ?rec = "shareRecipeName i" and ?srv = "serverRecipeName name i" and ?dec = "decKeyName name i"
  have mem: "?rec \<in> tempNames name i" "?srv \<in> tempNames name i" "?dec \<in> tempNames name i" by (simp_all add: tempNames_def)
  note len = length_tempNames [OF assms(3,4)] and plain = tempNames_plain [OF assms(3)]
  have none: "\<forall>p. (f(a := None, b := None)) (t @ 47 # p) = None" "\<forall>p. (f(a := None)) (t @ 47 # p) = None" "\<forall>p. f (t @ 47 # p) = None"
    if "t \<in> tempNames name i" for t a b using assms(11) that by simp_all
  have "sysDo sys (cmdRm ?rec) f = f(?rec := None)"
    by (rule sysDo_ok(1) [OF assms(2) plain [OF mem(1)] _ none(3) [OF mem(1)]]) (use len in simp)
  moreover have "sysDo sys (cmdRm ?srv) (f(?rec := None)) = f(?rec := None, ?srv := None)"
    by (rule sysDo_ok(1) [OF assms(2) plain [OF mem(2)] _ none(2) [OF mem(2)]]) (use len in simp)
  moreover have "sysDo sys (cmdRm ?dec) (f(?rec := None, ?srv := None)) = f(?rec := None, ?srv := None, ?dec := None)"
    by (rule sysDo_ok(1) [OF assms(2) plain [OF mem(3)] _ none(1) [OF mem(3)]]) (use len in simp)
  moreover have "f(?rec := None, ?srv := None) = f(?rec := None)" using assms(10) by (auto simp: fun_eq_iff)
  ultimately have "uploadRetrivedRecipeFile W sys u name i (g, f) =
      Done () (setSock g (sendRecipe W u ?srv (dc_counter g) (recipeBytes xs) (dc_sock g)), f(?rec := None, ?dec := None))"
    using len assms(9) by (simp add: uploadRetrivedRecipeFile_def fits256_def)
  moreover have "int64 (dc_counter g)" using assms(7) by (simp add: int32_def int64_def)
  ultimately show ?thesis
    using that sendRecipe_out(1) [OF assms(1,5,6) _ assms(8)] by (simp add: setSock_def)
qed

section \<open>The session with the metadata server\<close>

text \<open>The server has the file: its key file, its recipe with the metadata chunks, and no recipe of data shares under the name to come.\<close>

definition metaHolds :: "openssl \<Rightarrow> cryptoPrimitive \<Rightarrow> int \<Rightarrow> (bytes \<Rightarrow> bytes) \<Rightarrow> bytes \<Rightarrow> nat \<Rightarrow> bytes \<Rightarrow> int \<Rightarrow> share list \<Rightarrow> bytes \<Rightarrow> dedupCore \<Rightarrow> bool" where
  "metaHolds ssl cs u enc name i sname fileSize ms keys s \<longleftrightarrow> storeInv ssl cs s \<and> hasShares s ms \<and>
     disk s (keystoreDir @ underscores (encKeyName name i)) = Some (enc keys) \<and> int32 (int (length (enc keys))) \<and>
     disk s (recipesDir @ underscores (serverRecipeName name i)) = None \<and>
     (\<exists>full fp. formatFullFileName sname = Some full \<and> fileName2InodeFP ssl cs full u = Some fp \<and> recipeStored s u fp 0 fileSize (map entryOfShare ms))"

lemma tempNames_paths:
  assumes "fullPath name" "i < 100"
  shows "0 \<notin> set (encKeyName name i)" "pathIn keystoreDir (underscores (encKeyName name i)) = Some (keystoreDir @ underscores (encKeyName name i))"
    and "plainName (recipesDir @ underscores (serverRecipeName name i))" "length (recipesDir @ underscores (serverRecipeName name i)) \<le> 248"
proof -
  note len = length_tempNames [OF assms]
  have und: "length (underscores bs) = length bs" "set (underscores bs) \<subseteq> insert 95 (set bs)" for bs by (cases bs; auto simp: underscores_def)+
  have "plainName (encKeyName name i)" "plainName (serverRecipeName name i)" by (rule tempNames_plain [OF assms(1), of _ i]; simp add: tempNames_def)+
  then have plain: "\<forall>b\<in>set (encKeyName name i). plainByte b" "\<forall>b\<in>set (serverRecipeName name i). plainByte b" by (simp_all add: plainName_def)
  have "\<not> plainByte 0" "plainByte 95" "\<forall>b\<in>set recipesDir. plainByte b" "hd recipesDir \<noteq> 45" "recipesDir \<noteq> []" by code_simp+
  then show "0 \<notin> set (encKeyName name i)" "plainName (recipesDir @ underscores (serverRecipeName name i))"
    using plain und(2) [of "serverRecipeName name i"] by (auto simp: plainName_def)
  show "pathIn keystoreDir (underscores (encKeyName name i)) = Some (keystoreDir @ underscores (encKeyName name i))"
    "length (recipesDir @ underscores (serverRecipeName name i)) \<le> 248"
    using len by (simp_all add: pathIn_def und(1) keystoreDir_def recipesDir_def)
qed

lemma restoredMsgs_later [simp]: "restoredMsgs (later t ms s) fileSize es = restoredMsgs s fileSize es"
proof -
  have "fetchShare (later t ms s) = fetchShare s" by (simp add: fun_eq_iff fetchShare_def Let_def split: option.split)
  then show ?thesis by (simp add: restoredMsgs_def entryBytes_def [abs_def])
qed

lemma recipeStored_later: "recipeStored s u fp k fileSize es \<Longrightarrow> recipeStored (later t ms s) u fp k fileSize es"
  by (simp add: recipeStored_def recipeAt_def readRecipeFileFromBuffer_def)

lemma retrieval_session:
  assumes "whole N" "faultless E" "hashOfServer = Inr cs" "int32 u" "fullPath name" "i < 100" "int (length sname) \<le> BUFFER_LEN"
    and "metaHolds ssl cs u enc name i sname fileSize ms keys s" "\<forall>x\<in>set ms. goodShare lim x" "lim \<le> 4194292"
    and "24 \<le> length contents" "int32 (int (length contents))"
  obtains h t sents where "SocketHandlerMeta N E ssl (userMsg u @ getKeyMsg (encKeyName name i) @ packageMsg DOWNLOAD sname @
      recipeFileMsg (serverRecipeName name i) contents) s =
      Some (Done () (h, (later t sents s)\<lparr>disk := (disk s)(recipesDir @ underscores (serverRecipeName name i) \<mapsto> contents)\<rparr>))"
    "concat sents = concat (dedupCore.sent s) @ (le 4 (int (length (enc keys))) @ enc keys) @ concat (map restoreMsg (restoredMsgs s fileSize (map entryOfShare ms)))"
    "\<forall>p\<in>set (restoredMsgs s fileSize (map entryOfShare ms)). int (length p) \<le> SHARE_FILE_BUFFER_SIZE"
proof -
  let ?path = "recipesDir @ underscores (serverRecipeName name i)" and ?es = "map entryOfShare ms"
  note names = tempNames_paths [OF assms(5,6)] and rname = plain_recipe [OF refl tempNames_paths(3,4) [OF assms(5,6)]]
  have s: "storeInv ssl cs s" "hasShares s ms" "disk s (keystoreDir @ underscores (encKeyName name i)) = Some (enc keys)"
    "int32 (int (length (enc keys)))" "disk s ?path = None" using assms(8) by (simp_all add: metaHolds_def)
  obtain full fp where fp: "formatFullFileName sname = Some full" "fileName2InodeFP ssl cs full u = Some fp" "recipeStored s u fp 0 fileSize ?es"
    using assms(8) by (auto simp: metaHolds_def)
  let ?E3 = "recipeFileMsg (serverRecipeName name i) contents"
  let ?E2 = "packageMsg DOWNLOAD sname @ ?E3" and ?E1 = "getKeyMsg (encKeyName name i)"
  obtain h0 where op: "openSession N (userMsg u @ ?E1 @ ?E2) = Done u h0" "inboxOf h0 = ?E1 @ ?E2"
    by (rule openSession_whole [OF assms(1,4)])
  have in0: "inboxOf h0 = le 4 GET_KEY_RECIPE @ (le 4 (int (length (encKeyName name i))) @ encKeyName name i @ ?E2)" using op(2) by (simp add: getKeyMsg_def)
  obtain h1 where h1: "recvHead N h0 = (4, h1)" "readInt (h_buffer h1) = GET_KEY_RECIPE" "inboxOf h1 = le 4 (int (length (encKeyName name i))) @ encKeyName name i @ ?E2"
    by (rule indicator_whole [OF assms(1) in0]) auto
  obtain h2 k where h2: "serveGetKeyRecipe N E (h1, s) = Some (Done Continue (h2, later k
      (dedupCore.sent s @ le 4 (int (length (enc keys))) # (if enc keys = [] then [] else [enc keys])) s))" (is "_ = Some (Done Continue (_, ?s1))") "inboxOf h2 = ?E2"
    by (rule serveGetKeyRecipe_run [OF assms(1,2) h1(3) names(1,2) s(4,3)])
  have in2: "inboxOf h2 = le 4 DOWNLOAD @ (le 4 (int (length sname)) @ sname @ ?E3)" using h2(2) by (simp add: packageMsg_def)
  obtain h3 where h3: "recvHead N h2 = (4, h3)" "readInt (h_buffer h3) = DOWNLOAD" "inboxOf h3 = le 4 (int (length sname)) @ sname @ ?E3"
    by (rule indicator_whole [OF assms(1) in2]) auto
  have snd: "sharesSound ssl cs ?s1" using storeInv_frame [OF s(1), of ?s1] by (simp add: storeInv_def)
  have res: "\<forall>e\<in>set ?es. restorable ?s1 e" using hasShares_restored(1) [OF s(1,2) assms(9,10)] by (simp add: restorable_def)
  obtain t1 where r: "restoreShareFile E ssl (Some cs) u sname 0 ?s1 = Done () (later t1 (dedupCore.sent ?s1 @ map restoreMsg (restoredMsgs s fileSize ?es)) ?s1)" (is "_ = Done () ?s2")
    "\<forall>p\<in>set (restoredMsgs s fileSize ?es). int (length p) \<le> SHARE_FILE_BUFFER_SIZE"
    using restore_run [OF assms(2) snd res fp(1,2) recipeStored_later [OF fp(3)]] by auto
  obtain h4 where h4: "serveMetaDownload N E ssl cs u (h3, ?s1) = Some (Done Continue (h4, ?s2))" "inboxOf h4 = ?E3"
    by (rule serveMetaDownload_run [OF assms(1) h3(3) assms(7) r(1)]) auto
  have in4: "inboxOf h4 = le 4 FILE_RECIPE @ (le 4 (int (length contents)) @ le 4 (int (length (serverRecipeName name i))) @ serverRecipeName name i @ contents @ [])"
    using h4(2) by (simp add: recipeFileMsg_def)
  obtain h5 where h5: "recvHead N h4 = (4, h5)" "readInt (h_buffer h5) = FILE_RECIPE"
    "inboxOf h5 = le 4 (int (length contents)) @ le 4 (int (length (serverRecipeName name i))) @ serverRecipeName name i @ contents @ []"
    by (rule indicator_whole [OF assms(1) in4]) auto
  have new: "disk ?s2 ?path = None" using s(5) by simp
  obtain h6 k2 where h6: "serveFileRecipe N E (h5, ?s2) = Some (Done Break (h6, ?s2\<lparr>disk := (disk ?s2)(?path \<mapsto> contents), tick := k2\<rparr>))"
    by (rule serveFileRecipe_run [OF assms(1,2) h5(3) rname(1,2) assms(11,12) new])
  have "metaLoop N E ssl cs u (h0, s) = Some (Done () (h6, ?s2\<lparr>disk := (disk ?s2)(?path \<mapsto> contents), tick := k2\<rparr>))"
    using h1(1,2) h2(1) h3(1,2) h4(1) h5(1,2) h6 by (simp add: metaLoop_step metaRound_def indicators)
  then have "SocketHandlerMeta N E ssl (userMsg u @ ?E1 @ ?E2) s = Some (Done () (h6, ?s2\<lparr>disk := (disk ?s2)(?path \<mapsto> contents), tick := k2\<rparr>))"
    using op(1) by (simp add: SocketHandlerMeta_def assms(3))
  then show ?thesis using r(2) that [of h6 "dedupCore.sent ?s2" k2] by simp
qed

section \<open>All clouds\<close>

text \<open>The loops over the clouds, when the shared state after each cloud is known.\<close>

lemma perCloud_loop:
  "\<forall>j<length gs. \<exists>g1. step (i + j) (gs ! j, F (i + j)) = Some (Done () (g1, F (Suc (i + j)))) \<and> R (i + j) g1 \<Longrightarrow>
   \<exists>gs1. perCloud step i gs (F i) = Some (Done () (gs1, F (i + length gs))) \<and> length gs1 = length gs \<and> (\<forall>j<length gs. R (i + j) (gs1 ! j))"
proof (induction gs arbitrary: i)
  case (Cons g gs)
  obtain g1 where g1: "step i (g, F i) = Some (Done () (g1, F (Suc i)))" "R i g1" using spec [OF Cons.prems, of 0] by auto
  have "\<forall>j<length gs. \<exists>g1. step (Suc i + j) (gs ! j, F (Suc i + j)) = Some (Done () (g1, F (Suc (Suc i + j)))) \<and> R (Suc i + j) g1"
  proof (intro allI impI)
    fix j assume "j < length gs"
    then show "\<exists>g1. step (Suc i + j) (gs ! j, F (Suc i + j)) = Some (Done () (g1, F (Suc (Suc i + j)))) \<and> R (Suc i + j) g1"
      using spec [OF Cons.prems, of "Suc j"] by simp
  qed
  then obtain gs1 where "perCloud step (Suc i) gs (F (Suc i)) = Some (Done () (gs1, F (Suc i + length gs)))" "length gs1 = length gs"
    "\<forall>j<length gs. R (Suc i + j) (gs1 ! j)" using Cons.IH by blast
  then show ?case using g1 by (intro exI [of _ "g1 # gs1"]) (auto simp: nth_Cons split: nat.split)
qed simp

lemma downloadKeyFiles_loop:
  "\<forall>j<length gs. \<exists>g1. downloadKeyFile W sys opens name (i + j) (gs ! j, F (i + j)) = Some (Done True (g1, F (Suc (i + j)))) \<and> R (i + j) g1 \<Longrightarrow>
   \<exists>gs1. downloadKeyFiles W sys opens name i gs (F i) = Some (Done True (gs1, F (i + length gs))) \<and> length gs1 = length gs \<and> (\<forall>j<length gs. R (i + j) (gs1 ! j))"
proof (induction gs arbitrary: i)
  case (Cons g gs)
  obtain g1 where g1: "downloadKeyFile W sys opens name i (g, F i) = Some (Done True (g1, F (Suc i)))" "R i g1" using spec [OF Cons.prems, of 0] by auto
  have "\<forall>j<length gs. \<exists>g1. downloadKeyFile W sys opens name (Suc i + j) (gs ! j, F (Suc i + j)) = Some (Done True (g1, F (Suc (Suc i + j)))) \<and> R (Suc i + j) g1"
  proof (intro allI impI)
    fix j assume "j < length gs"
    then show "\<exists>g1. downloadKeyFile W sys opens name (Suc i + j) (gs ! j, F (Suc i + j)) = Some (Done True (g1, F (Suc (Suc i + j)))) \<and> R (Suc i + j) g1"
      using spec [OF Cons.prems, of "Suc j"] by simp
  qed
  then obtain gs1 where "downloadKeyFiles W sys opens name (Suc i) gs (F (Suc i)) = Some (Done True (gs1, F (Suc i + length gs)))" "length gs1 = length gs"
    "\<forall>j<length gs. R (Suc i + j) (gs1 ! j)" using Cons.IH by blast
  then show ?case using g1 by (intro exI [of _ "g1 # gs1"]) (auto simp: nth_Cons split: nat.split)
qed simp

text \<open>Files named by the number of a cloud.\<close>

definition named :: "(nat \<Rightarrow> bytes) \<Rightarrow> (nat \<Rightarrow> bytes) \<Rightarrow> nat set \<Rightarrow> files" where
  "named nm v A p = (if \<exists>i\<in>A. p = nm i then Some (v (inv nm p)) else None)"

lemma named_simps:
  assumes "inj nm"
  shows "named nm v A (nm i) = (if i \<in> A then Some (v i) else None)" "(named nm v A)(nm i \<mapsto> v i) = named nm v (insert i A)"
    "(named nm v A)(nm i := None) = named nm v (A - {i})"
  using assms by (auto simp: named_def fun_eq_iff inj_eq)

lemma named_other: "\<forall>i. p \<noteq> nm i \<Longrightarrow> named nm v A p = None" "named nm v {} = Map.empty"
  by (auto simp: named_def fun_eq_iff)

lemma temp_inj: "inj (decKeyName name)" "inj shareRecipeName"
  by (auto intro!: injI simp: tempNames_inj)

text \<open>The client's files when the keys of the clouds in A and the recipes of the clouds in B are there.\<close>

definition tempFiles :: "bytes \<Rightarrow> (nat \<Rightarrow> bytes) \<Rightarrow> (nat \<Rightarrow> share list) \<Rightarrow> files \<Rightarrow> nat set \<Rightarrow> nat set \<Rightarrow> files" where
  "tempFiles name keys xs f A B = f ++ named (decKeyName name) keys A ++ named shareRecipeName (\<lambda>i. recipeBytes (xs i)) B"

definition clean :: "bytes \<Rightarrow> nat \<Rightarrow> files \<Rightarrow> bool" where
  "clean name n f \<longleftrightarrow> (\<forall>i<n. \<forall>t\<in>tempNames name i. f t = None \<and> (\<forall>p. f (t @ 47 # p) = None))"

lemma tempFiles_simps:
  "tempFiles name keys xs f A B (decKeyName name i) = (if i \<in> A then Some (keys i) else f (decKeyName name i))"
  "tempFiles name keys xs f A B (shareRecipeName i) = (if i \<in> B then Some (recipeBytes (xs i)) else f (shareRecipeName i))"
  "(tempFiles name keys xs f A B)(decKeyName name i \<mapsto> keys i) = tempFiles name keys xs f (insert i A) B"
  "(tempFiles name keys xs f A B)(shareRecipeName i \<mapsto> recipeBytes (xs i)) = tempFiles name keys xs f A (insert i B)"
  "\<forall>j. p \<noteq> decKeyName name j \<and> p \<noteq> shareRecipeName j \<Longrightarrow> tempFiles name keys xs f A B p = f p"
  "tempFiles name keys xs f {} {} = f"
proof -
  note d = named_simps [OF temp_inj(1)] and r = named_simps [OF temp_inj(2)]
  have dr: "named shareRecipeName v A (decKeyName name i) = None" "named (decKeyName name) v A (shareRecipeName i) = None" for v A i
    by (rule named_other(1); use tempNames_differ(3) in metis)+
  show "tempFiles name keys xs f A B (decKeyName name i) = (if i \<in> A then Some (keys i) else f (decKeyName name i))"
    "tempFiles name keys xs f A B (shareRecipeName i) = (if i \<in> B then Some (recipeBytes (xs i)) else f (shareRecipeName i))"
    using dr d(1) r(1) by (auto simp: tempFiles_def map_add_def split: option.split)
  show "(tempFiles name keys xs f A B)(shareRecipeName i \<mapsto> recipeBytes (xs i)) = tempFiles name keys xs f A (insert i B)"
    unfolding tempFiles_def by (simp flip: r(2))
  show "(tempFiles name keys xs f A B)(decKeyName name i \<mapsto> keys i) = tempFiles name keys xs f (insert i A) B"
    unfolding tempFiles_def using dr by (auto simp: fun_eq_iff map_add_def simp flip: d(2) split: option.split)
  show "\<forall>j. p \<noteq> decKeyName name j \<and> p \<noteq> shareRecipeName j \<Longrightarrow> tempFiles name keys xs f A B p = f p"
    "tempFiles name keys xs f {} {} = f" by (simp_all add: tempFiles_def named_other map_add_def)
qed

lemma tempFiles_clean:
  assumes "fullPath name" "clean name n f" "i < n"
  shows "t \<in> tempNames name i \<Longrightarrow> tempFiles name keys xs f A B (t @ 47 # p) = None"
    and "tempFiles name keys xs f A B (encKeyName name i) = None" "tempFiles name keys xs f A B (downKeyName name i) = None"
    and "tempFiles name keys xs f A B (serverRecipeName name i) = None"
    and "(tempFiles name keys xs f A B)(shareRecipeName i := None, decKeyName name i := None) = tempFiles name keys xs f (A - {i}) (B - {i})"
proof -
  have mem: "decKeyName name j \<in> tempNames name j" "shareRecipeName j \<in> tempNames name j" for j by (simp_all add: tempNames_def)
  have none: "f t = None" "f (t @ 47 # p) = None" if "t \<in> tempNames name i" for t p using assms(2,3) that by (simp_all add: clean_def)
  show "tempFiles name keys xs f A B (t @ 47 # p) = None" if "t \<in> tempNames name i"
    using none(2) [OF that] tempNames_not_below [OF assms(1) that mem(1)] tempNames_not_below [OF assms(1) that mem(2)]
    by (subst tempFiles_simps(5)) metis+
  have srv: "serverRecipeName name i \<noteq> shareRecipeName j" for j
    using assms(1) by (cases "cstring name") (auto simp: fullPath_def serverRecipeName_def shareRecipeName_def ascii_def)
  show "tempFiles name keys xs f A B (encKeyName name i) = None" "tempFiles name keys xs f A B (downKeyName name i) = None"
    "tempFiles name keys xs f A B (serverRecipeName name i) = None"
    using none(1) tempNames_differ srv by (subst tempFiles_simps(5), metis, simp add: tempNames_def)+
  show "(tempFiles name keys xs f A B)(shareRecipeName i := None, decKeyName name i := None) = tempFiles name keys xs f (A - {i}) (B - {i})"
  proof (rule ext)
    fix p
    consider j where "p = decKeyName name j" | j where "p = shareRecipeName j" | "\<forall>j. p \<noteq> decKeyName name j \<and> p \<noteq> shareRecipeName j" by blast
    then show "((tempFiles name keys xs f A B)(shareRecipeName i := None, decKeyName name i := None)) p = tempFiles name keys xs f (A - {i}) (B - {i}) p"
      using none(1) [of "decKeyName name i"] none(1) [of "shareRecipeName i"] mem tempNames_differ(3) [of name] tempNames_differ(3) [of name, THEN not_sym]
      by cases (auto simp: tempFiles_simps tempNames_inj)
  qed
qed

lemma keys_phase:
  assumes "whole (net_recv W)" "sendsWhole W" "system_ok enc dec sys" "fullPath name" "\<forall>p. opens p" "length gs \<le> 100" "clean name (length gs) f"
    and "\<forall>i<length gs. int32 (int (length (enc (keys i)))) \<and> rx_in (so_rx (dc_sock (gs ! i))) = le 4 (int (length (enc (keys i)))) @ enc (keys i) @ rest i"
  obtains gs1 where "downloadKeyFiles W sys opens name 0 gs f = Some (Done True (gs1, tempFiles name keys xs f {..<length gs} {}))" "length gs1 = length gs"
    "\<forall>i<length gs. rx_in (so_rx (dc_sock (gs1 ! i))) = rest i \<and> so_out (dc_sock (gs1 ! i)) = so_out (dc_sock (gs ! i)) @ getKeyMsg (encKeyName name i) \<and>
      dc_counter (gs1 ! i) = dc_counter (gs ! i)"
proof -
  let ?F = "\<lambda>j. tempFiles name keys xs f {..<j} {}"
  define R where "R i g1 \<longleftrightarrow> rx_in (so_rx (dc_sock g1)) = rest i \<and> so_out (dc_sock g1) = so_out (dc_sock (gs ! i)) @ getKeyMsg (encKeyName name i) \<and>
      dc_counter g1 = dc_counter (gs ! i)" for i and g1 :: downCloud
  have step: "\<exists>g1. downloadKeyFile W sys opens name (0 + j) (gs ! j, ?F (0 + j)) = Some (Done True (g1, ?F (Suc (0 + j)))) \<and> R (0 + j) g1" if j: "j < length gs" for j
  proof -
    have none: "\<forall>t\<in>tempNames name j. ?F j t = None \<and> (\<forall>p. ?F j (t @ 47 # p) = None)"
      using tempFiles_clean(1-4) [OF assms(4,7) j, where keys = keys and xs = xs and A = "{..<j}" and B = "{}"] assms(7) j by (auto simp: tempNames_def tempFiles_simps clean_def)
    obtain g1 where "downloadKeyFile W sys opens name j (gs ! j, ?F j) = Some (Done True (g1, (?F j)(decKeyName name j \<mapsto> keys j)))" "R j g1"
      unfolding R_def
      by (rule downloadKeyFile_run [where g = "gs ! j" and f = "?F j" and i = j and keys = "keys j" and rest = "rest j" and opens = opens, OF assms(1-4)])
         (use j assms(5,6,8) none in auto)
    then show ?thesis by (auto simp: tempFiles_simps lessThan_Suc)
  qed
  obtain gs1 where "downloadKeyFiles W sys opens name 0 gs (?F 0) = Some (Done True (gs1, ?F (0 + length gs)))" "length gs1 = length gs"
    "\<forall>j<length gs. R (0 + j) (gs1 ! j)" using downloadKeyFiles_loop [of gs W sys opens name 0 ?F R] step by blast
  then show ?thesis using that by (simp add: R_def tempFiles_simps)
qed

lemma items_phase:
  assumes "whole (net_recv W)" "sendsWhole W" "length names = length gs"
    and "\<forall>i<length gs. length (names ! i) \<le> 256 \<and> ms i \<noteq> [] \<and> (\<forall>x\<in>set (ms i). goodShare RING_BUFFER_META_SIZE x) \<and> int32 (int (length (ms i))) \<and> int64 (fs i) \<and>
      (let ps = packMsgs (putShareFileHead \<lparr> sfh_fileSize = fs i, sfh_numOfShares = int (length (ms i)) \<rparr>) (map itemBytes (map infoOfShare (ms i))) in
        rx_in (so_rx (dc_sock (gs ! i))) = concat (map restoreMsg ps) \<and> (\<forall>p\<in>set ps. int (length p) \<le> DOWNLOAD_BUFFER_SIZE))"
  obtains gs1 where "perCloud (\<lambda>i (g, items). bindP (download_thread_meta W (names ! i) (dc_sock g))
       (\<lambda>_ t. Some (Done () (setSock g (dt_sock t), items @ [dt_items t]))) (\<lambda>t. (setSock g (dt_sock t), items))) 0 gs [] =
     Some (Done () (gs1, map (\<lambda>i. DownHead \<lparr> sfh_fileSize = fs i, sfh_numOfShares = int (length (ms i)) \<rparr> # map itemOf (map infoOfShare (ms i))) [0..<length gs]))"
    "length gs1 = length gs"
    "\<forall>i<length gs. so_out (dc_sock (gs1 ! i)) = so_out (dc_sock (gs ! i)) @ packageMsg DOWNLOAD (names ! i) \<and> dc_counter (gs1 ! i) = dc_counter (gs ! i)"
proof -
  let ?h = "\<lambda>i. \<lparr> sfh_fileSize = fs i, sfh_numOfShares = int (length (ms i)) \<rparr>" and ?ys = "\<lambda>i. map infoOfShare (ms i)"
  let ?F = "\<lambda>j. map (\<lambda>i. DownHead (?h i) # map itemOf (?ys i)) [0..<j]"
  let ?step = "\<lambda>i (g, items). bindP (download_thread_meta W (names ! i) (dc_sock g))
       (\<lambda>_ t. Some (Done () (setSock g (dt_sock t), items @ [dt_items t]))) (\<lambda>t. (setSock g (dt_sock t), items))"
  define R where "R i g1 \<longleftrightarrow> so_out (dc_sock g1) = so_out (dc_sock (gs ! i)) @ packageMsg DOWNLOAD (names ! i) \<and> dc_counter g1 = dc_counter (gs ! i)" for i and g1 :: downCloud
  have step: "\<exists>g1. ?step (0 + j) (gs ! j, ?F (0 + j)) = Some (Done () (g1, ?F (Suc (0 + j)))) \<and> R (0 + j) g1" if j: "j < length gs" for j
  proof -
    note pre = spec [OF assms(4), of j, THEN mp, OF j, unfolded Let_def]
    have good: "\<forall>y\<in>set (?ys j). goodItem RING_BUFFER_META_SIZE y" "?ys j \<noteq> []" "okShareFileHead (?h j)" "sfh_numOfShares (?h j) = int (length (?ys j))"
      using pre by (auto simp: goodItem_def goodShare_def infoOfShare_def okShareEntry_def okMDEntry_def okShareFileHead_def)
    obtain t where "downloadThread W RING_BUFFER_META_SIZE (names ! j) (dc_sock (gs ! j)) = Some (Done () t)" "dt_items t = DownHead (?h j) # map itemOf (?ys j)"
      "so_out (dt_sock t) = so_out (dc_sock (gs ! j)) @ packageMsg DOWNLOAD (names ! j)"
      by (rule downloadThread_run [OF assms(1,2) _ good(2,1,3,4)]) (use pre in auto)
    then show ?thesis by (auto simp: download_thread_meta_def R_def setSock_def)
  qed
  obtain gs1 where "perCloud ?step 0 gs (?F 0) = Some (Done () (gs1, ?F (0 + length gs)))" "length gs1 = length gs" "\<forall>j<length gs. R (0 + j) (gs1 ! j)"
    using perCloud_loop [of gs ?step 0 ?F R] step by blast
  then show ?thesis using that by (simp add: R_def)
qed

lemma recipes_phase:
  assumes "goodCodec ssl codec" "fullPath name" "\<forall>p. opens p" "length gs \<le> 100" "clean name (length gs) f"
    and "\<forall>i<length gs. chunksFor ssl (cryptoObj codec) (segs i) (ms i) (keys i) \<and> segs i \<noteq> [] \<and> int (length (segs i)) < 2147483648 \<and>
      concat (segs i) = xs i \<and> int32 (dc_counter (gs ! i)) \<and> items ! i = DownHead \<lparr> sfh_fileSize = fs i, sfh_numOfShares = int (length (ms i)) \<rparr> # map itemOf (map infoOfShare (ms i))"
  obtains gs1 where "perCloud (\<lambda>i. cloudRecipe ssl (cryptoObj codec) opens name i (items ! i)) 0 gs (tempFiles name keys xs f {..<length gs} {}) =
      Some (Done () (gs1, tempFiles name keys xs f {..<length gs} {..<length gs}))" "length gs1 = length gs"
    "\<forall>i<length gs. dc_sock (gs1 ! i) = dc_sock (gs ! i) \<and> dc_counter (gs1 ! i) = wrap32 (dc_counter (gs ! i) + secretsSize (xs i))"
proof -
  let ?F = "\<lambda>j. tempFiles name keys xs f {..<length gs} {..<j}"
  let ?step = "\<lambda>i. cloudRecipe ssl (cryptoObj codec) opens name i (items ! i)"
  define R where "R i g1 \<longleftrightarrow> dc_sock g1 = dc_sock (gs ! i) \<and> dc_counter g1 = wrap32 (dc_counter (gs ! i) + secretsSize (xs i))" for i and g1 :: downCloud
  have step: "\<exists>g1. ?step (0 + j) (gs ! j, ?F (0 + j)) = Some (Done () (g1, ?F (Suc (0 + j)))) \<and> R (0 + j) g1" if j: "j < length gs" for j
  proof -
    note pre = spec [OF assms(6), of j, THEN mp, OF j]
    have len: "length (ms j) = length (segs j)" "0 < length (segs j)" using pre by (auto simp: chunksFor_def)
    have f: "?F j (decKeyName name j) = Some (keys j)" "?F j (shareRecipeName j) = None"
      using j assms(5) by (auto simp: tempFiles_simps clean_def tempNames_def)
    have "writeRecipes ssl (cryptoObj codec) opens name j (length (segs j)) (map itemOf (map infoOfShare (drop 0 (ms j)))) (gs ! j, ?F j) =
      Some (Done () ((gs ! j)\<lparr>dc_counter := wrap32 (dc_counter (gs ! j) + secretsSize (concat (drop 0 (segs j))))\<rparr>,
        if length (segs j) = 0 then ?F j else (?F j)(shareRecipeName j \<mapsto> contentsOf (?F j (shareRecipeName j)) @ recipeBytes (concat (drop 0 (segs j))))))"
      by (rule writeRecipes_run [where segs = "segs j" and keys = "keys j" and opens = opens]) (use assms(1-4) pre j f in auto)
    then have "?step j (gs ! j, ?F j) = Some (Done () ((gs ! j)\<lparr>dc_counter := wrap32 (dc_counter (gs ! j) + secretsSize (xs j))\<rparr>,
        (?F j)(shareRecipeName j \<mapsto> recipeBytes (xs j))))"
      using pre len f(2) by (simp add: cloudRecipe_def contentsOf_def)
    then show ?thesis by (auto simp: R_def tempFiles_simps lessThan_Suc)
  qed
  obtain gs1 where "perCloud ?step 0 gs (?F 0) = Some (Done () (gs1, ?F (0 + length gs)))" "length gs1 = length gs" "\<forall>j<length gs. R (0 + j) (gs1 ! j)"
    using perCloud_loop [of gs ?step 0 ?F R] step by blast
  then show ?thesis using that by (simp add: R_def)
qed

lemma handover_phase:
  assumes "sendsWhole W" "system_ok enc dec sys" "fullPath name" "length gs \<le> 100" "clean name (length gs) f" "int32 u"
    and "\<forall>i<length gs. (\<forall>x\<in>set (xs i). goodShare lim x) \<and> int32 (dc_counter (gs ! i)) \<and> int (24 + 40 * length (xs i)) < 2147483648"
  obtains gs1 where "perCloud (\<lambda>i st. Some (uploadRetrivedRecipeFile W sys u name i st)) 0 gs (tempFiles name keys xs f {..<length gs} {..<length gs}) =
      Some (Done () (gs1, f))" "length gs1 = length gs"
    "\<forall>i<length gs. so_out (dc_sock (gs1 ! i)) = so_out (dc_sock (gs ! i)) @
      recipeFileMsg (serverRecipeName name i) (recipeFileOf u (dc_counter (gs ! i)) (map entryOfShare (xs i)))"
proof -
  let ?n = "length gs"
  let ?F = "\<lambda>j. tempFiles name keys xs f {j..<?n} {j..<?n}" and ?step = "\<lambda>i st. Some (uploadRetrivedRecipeFile W sys u name i st)"
  define R where "R i g1 \<longleftrightarrow> so_out (dc_sock g1) = so_out (dc_sock (gs ! i)) @
      recipeFileMsg (serverRecipeName name i) (recipeFileOf u (dc_counter (gs ! i)) (map entryOfShare (xs i)))" for i and g1 :: downCloud
  have step: "\<exists>g1. ?step (0 + j) (gs ! j, ?F (0 + j)) = Some (Done () (g1, ?F (Suc (0 + j)))) \<and> R (0 + j) g1" if j: "j < ?n" for j
  proof -
    note clean = tempFiles_clean [OF assms(3,5) j, where keys = keys and xs = xs]
    have "{j..<?n} - {j} = {Suc j..<?n}" by auto
    then have next_f: "(?F j)(shareRecipeName j := None, decKeyName name j := None) = ?F (Suc j)" using clean(5) by simp
    obtain g1 where "uploadRetrivedRecipeFile W sys u name j (gs ! j, ?F j) = Done () (g1, (?F j)(shareRecipeName j := None, decKeyName name j := None))" "R j g1"
      unfolding R_def
      by (rule uploadRetrivedRecipeFile_run [where g = "gs ! j" and f = "?F j" and i = j and xs = "xs j", OF assms(1-3)])
         (use assms(4,6,7) j clean in \<open>auto simp: tempFiles_simps\<close>)
    then show ?thesis using next_f by simp
  qed
  have "{0..<?n} = {..<?n}" by auto
  then have start: "tempFiles name keys xs f {..<?n} {..<?n} = ?F 0" by simp
  obtain gs1 where "perCloud ?step 0 gs (?F 0) = Some (Done () (gs1, ?F (0 + ?n)))" "length gs1 = ?n" "\<forall>j<?n. R (0 + j) (gs1 ! j)"
    using perCloud_loop [of gs ?step 0 ?F R] step by blast
  then show ?thesis using that unfolding start by (simp add: R_def tempFiles_simps)
qed

section \<open>The recipes come back\<close>

lemma segmentsOf_cut: "concat (segmentsOf cur xs) = cur @ xs" "\<forall>seg\<in>set (segmentsOf cur xs). seg \<noteq> []"
  by (induction cur xs rule: segmentsOf.induct) auto

lemma length_concat_ge: "\<forall>seg\<in>set segs. seg \<noteq> [] \<Longrightarrow> length segs \<le> length (concat segs)"
proof (induction segs)
  case (Cons seg segs)
  then show ?case by (cases seg) simp_all
qed simp

lemma chunksFor_good:
  assumes "goodCodec ssl codec" "chunksFor ssl (cryptoObj codec) segs ms keys" "\<forall>seg\<in>set segs. seg \<noteq> [] \<and> length seg \<le> 512" "int (length segs) < 2147483648"
  shows "\<forall>x\<in>set ms. goodShare RING_BUFFER_META_SIZE x"
proof
  fix x assume "x \<in> set ms"
  then obtain j where j: "j < length segs" "x = ms ! j" using assms(2) by (auto simp: in_set_conv_nth chunksFor_def)
  let ?c = "cryptoObj codec" and ?seg = "segs ! j"
  note crypt = goodCodec_crypto [OF assms(1)]
  note hash = hashOf_run(2) [OF crypt(1,3)]
  obtain plain where plain: "nodesFor ?seg plain" "encryptWithKey ssl ?c plain (hashOf ssl ?c plain) = Inr (snd x)"
    "fst x = \<lparr> mde_shareFP = hashOf ssl ?c (snd x), mde_secretID = - 1 - int j, mde_secretSize = 64 * int (length ?seg), mde_shareSize = 64 * int (length ?seg) \<rparr>"
    using assms(2) j by (auto simp: chunksFor_def chunkFor_def)
  have seg: "0 < length ?seg" "length ?seg \<le> 512" using assms(3) nth_mem [OF j(1)] by auto
  have pl: "length plain = 64 * length ?seg" by (rule nodesFor_length [OF plain(1)])
  then have "16 dvd length plain" "length (hashOf ssl ?c plain) = nat (keySize ?c)" using hash crypt(4) by (simp_all add: dvd_mult2)
  then have "length (snd x) = 64 * length ?seg" using crypto.enc_total [OF crypt(1,2)] plain(2) pl by fastforce
  then show "goodShare RING_BUFFER_META_SIZE x"
    using seg j(1) assms(4) hash by (auto simp: goodShare_def plain(3) okMDEntry_def int32_def RING_BUFFER_META_SIZE_def)
qed

lemma shareNames_run:
  assumes "goodCodec ssl codec" "goodName codec name" "shareSizeOf codec (length name) \<le> 256" "length tmp = length name * 32"
  shows "shareNames ssl rnd codec tmp name k = Inr (map (\<lambda>i. shareAt ssl codec i name) [0..<k])"
proof -
  have "length name \<le> MAX_SECRET_SIZE" "shareSizeOf codec (length name) * codecN codec \<le> length tmp"
    using assms(2,4) by (simp_all add: goodName_def SECRET_SIZE_def MAX_SECRET_SIZE_def)
  then show ?thesis using encoding_run(1) [OF assms(1), of name tmp rnd] assms(3) by (simp add: shareNames_def shareAt_def [abs_def])
qed

text \<open>What holds of the shares and chunks of one cloud, and its server's side of the exchange.\<close>

lemma cloud_chunks:
  assumes "goodCodec ssl codec" "i < codecN codec" "ds \<noteq> []" "\<forall>d\<in>set ds. goodSecret codec d" "int (24 + 40 * length ds) < 2147483648"
    and "\<forall>seg\<in>set (segmentsOf [] (cloudShares ssl codec i 0 ds)). length seg \<le> 512"
    and "chunksFor ssl (cryptoObj codec) (segmentsOf [] (cloudShares ssl codec i 0 ds)) ms keys"
  shows "\<forall>x\<in>set (cloudShares ssl codec i 0 ds). goodShare RING_BUFFER_DATA_SIZE x" "\<forall>x\<in>set ms. goodShare RING_BUFFER_META_SIZE x"
    "segmentsOf [] (cloudShares ssl codec i 0 ds) \<noteq> []" "ms \<noteq> []" "int (length (segmentsOf [] (cloudShares ssl codec i 0 ds))) < 2147483648"
    "concat (segmentsOf [] (cloudShares ssl codec i 0 ds)) = cloudShares ssl codec i 0 ds" "int32 (int (length ms))"
proof -
  let ?xs = "cloudShares ssl codec i 0 ds"
  let ?segs = "segmentsOf [] ?xs"
  have len: "int (length ds) \<le> 2147483648" "length ms = length ?segs" using assms(5,7) by (simp_all add: chunksFor_def)
  show "\<forall>x\<in>set ?xs. goodShare RING_BUFFER_DATA_SIZE x" using cloudShares_good [OF assms(1,4) len(1) assms(2)] by blast
  show cat: "concat ?segs = ?xs" by (simp add: segmentsOf_cut)
  have "?xs \<noteq> []" using assms(3) by (cases ds) simp_all
  then show ne: "?segs \<noteq> []" using cat by fastforce
  then show "ms \<noteq> []" using len(2) by auto
  have "length ?segs \<le> length ds" using length_concat_ge [OF segmentsOf_cut(2), of "[]" ?xs] cat by (simp add: length_cloudShares)
  then show small: "int (length ?segs) < 2147483648" using assms(5) by simp
  then show "int32 (int (length ms))" using len(2) by (simp add: int32_def)
  show "\<forall>x\<in>set ms. goodShare RING_BUFFER_META_SIZE x"
    by (rule chunksFor_good [OF assms(1,7) _ small]) (use assms(6) segmentsOf_cut(2) in blast)
qed

text \<open>What a metadata server answers.\<close>

definition keyReply :: "bytes \<Rightarrow> bytes" where
  "keyReply ek = le 4 (int (length ek)) @ ek"

abbreviation chunkReply :: "dedupCore \<Rightarrow> int \<Rightarrow> share list \<Rightarrow> bytes" where
  "chunkReply s fileSize ms \<equiv> concat (map restoreMsg (restoredMsgs s fileSize (map entryOfShare ms)))"

lemma meta_server_side:
  assumes "whole N" "faultless E" "hashOfServer = Inr cs" "int32 u" "fullPath name" "i < 100" "length sname \<le> 256"
    and "metaHolds ssl cs u enc name i sname fileSize ms keys s" "\<forall>x\<in>set ms. goodShare RING_BUFFER_META_SIZE x"
    and "\<forall>x\<in>set xs. goodShare RING_BUFFER_DATA_SIZE x" "int (24 + 40 * length xs) < 2147483648"
    and "out = userMsg u @ getKeyMsg (encKeyName name i) @ packageMsg DOWNLOAD sname @ recipeFileMsg (serverRecipeName name i) (recipeFileOf u (wrap32 v) (map entryOfShare xs))"
  shows "\<exists>h s'. SocketHandlerMeta N E ssl out s = Some (Done () (h, s')) \<and>
      concat (dedupCore.sent s') = concat (dedupCore.sent s) @ keyReply (enc keys) @ chunkReply s fileSize ms \<and>
      disk s' = (disk s)(recipesDir @ underscores (serverRecipeName name i) \<mapsto> recipeFileOf u (wrap32 v) (map entryOfShare xs))"
    and "\<forall>p\<in>set (restoredMsgs s fileSize (map entryOfShare ms)). int (length p) \<le> DOWNLOAD_BUFFER_SIZE"
proof -
  let ?rf = "recipeFileOf u (wrap32 v) (map entryOfShare xs)"
  have "int64 (wrap32 v)" "int32 (int (length xs))" using wrap32_int32 [of v] assms(11) by (auto simp: int32_def int64_def)
  then have "length ?rf = 24 + 40 * length xs" by (rule recipe_lengths(3) [OF assms(10,4)])
  then have rf: "24 \<le> length ?rf" "int32 (int (length ?rf))" using assms(11) by (simp_all add: int32_def)
  have sizes: "RING_BUFFER_META_SIZE \<le> 4194292" "int (length sname) \<le> BUFFER_LEN" using assms(7) by (simp_all add: RING_BUFFER_META_SIZE_def BUFFER_LEN_def)
  obtain h t sents where "SocketHandlerMeta N E ssl out s = Some (Done () (h, (later t sents s)\<lparr>disk := (disk s)(recipesDir @ underscores (serverRecipeName name i) \<mapsto> ?rf)\<rparr>))"
    "concat sents = concat (dedupCore.sent s) @ (le 4 (int (length (enc keys))) @ enc keys) @ chunkReply s fileSize ms"
    "\<forall>p\<in>set (restoredMsgs s fileSize (map entryOfShare ms)). int (length p) \<le> SHARE_FILE_BUFFER_SIZE"
    unfolding assms(12) by (rule retrieval_session [OF assms(1-6) sizes(2) assms(8,9) sizes(1) rf])
  then show "\<exists>h s'. SocketHandlerMeta N E ssl out s = Some (Done () (h, s')) \<and>
      concat (dedupCore.sent s') = concat (dedupCore.sent s) @ keyReply (enc keys) @ chunkReply s fileSize ms \<and>
      disk s' = (disk s)(recipesDir @ underscores (serverRecipeName name i) \<mapsto> ?rf)"
    "\<forall>p\<in>set (restoredMsgs s fileSize (map entryOfShare ms)). int (length p) \<le> DOWNLOAD_BUFFER_SIZE"
    by (auto simp: keyReply_def SHARE_FILE_BUFFER_SIZE_def DOWNLOAD_BUFFER_SIZE_def)
qed

text \<open>The client's side of the exchange, from the answers of all the clouds.\<close>

lemma recipes_client:
  assumes "goodCodec ssl codec" "goodName codec name" "shareSizeOf codec (length name) \<le> 256" "length tmp = length name * 32" "fullPath name"
    and "whole (net_recv W)" "sendsWhole W" "system_ok enc dec sys" "\<forall>p. opens p" "k \<le> 100" "clean name k f" "int32 u"
    and "k \<le> codecN codec"
    and chunks: "\<forall>i<k. chunksFor ssl (cryptoObj codec) (segs i) (ms i) (keys i) \<and> segs i \<noteq> [] \<and> int (length (segs i)) < 2147483648 \<and> concat (segs i) = xs i \<and>
      int32 (junk i) \<and> ms i \<noteq> [] \<and> (\<forall>x\<in>set (ms i). goodShare RING_BUFFER_META_SIZE x) \<and> int32 (int (length (ms i))) \<and> int64 (fs i)"
    and shares: "\<forall>i<k. (\<forall>x\<in>set (xs i). goodShare RING_BUFFER_DATA_SIZE x) \<and> int (24 + 40 * length (xs i)) < 2147483648 \<and> int32 (int (length (enc (keys i))))"
    and msgs: "\<forall>i<k. ps i = packMsgs (putShareFileHead \<lparr> sfh_fileSize = fs i, sfh_numOfShares = int (length (ms i)) \<rparr>) (map itemBytes (map infoOfShare (ms i))) \<and>
      (\<forall>p\<in>set (ps i). int (length p) \<le> DOWNLOAD_BUFFER_SIZE)"
  obtains gs1 where
    "downloadKeyFiles W sys opens name 0
      (map (\<lambda>i. \<lparr> dc_sock = mkSocket W u (keyReply (enc (keys i)) @ concat (map restoreMsg (ps i))), dc_counter = junk i \<rparr>) [0..<k]) f =
      Some (Done True (gs1, tempFiles name keys xs f {..<k} {}))"
    "\<And>f'. clean name k f' \<Longrightarrow> \<exists>gs2. preDownloadFile ssl rnd codec W sys opens u tmp name (gs1, tempFiles name keys xs f' {..<k} {}) = Some (Done () (gs2, f')) \<and> length gs2 = k \<and>
      (\<forall>i<k. so_out (dc_sock (gs2 ! i)) = userMsg u @ getKeyMsg (encKeyName name i) @ packageMsg DOWNLOAD (shareAt ssl codec i name) @
        recipeFileMsg (serverRecipeName name i) (recipeFileOf u (wrap32 (junk i + secretsSize (xs i))) (map entryOfShare (xs i))))"
proof -
  let ?gs = "map (\<lambda>i. \<lparr> dc_sock = mkSocket W u (keyReply (enc (keys i)) @ concat (map restoreMsg (ps i))), dc_counter = junk i \<rparr>) [0..<k]"
  let ?names = "map (\<lambda>i. shareAt ssl codec i name) [0..<k]" and ?F = "\<lambda>f. tempFiles name keys xs f {..<k}"
  let ?items = "map (\<lambda>i. DownHead \<lparr> sfh_fileSize = fs i, sfh_numOfShares = int (length (ms i)) \<rparr> # map itemOf (map infoOfShare (ms i))) [0..<k]"
  obtain gs1 where p1: "downloadKeyFiles W sys opens name 0 ?gs f = Some (Done True (gs1, ?F f {}))" and l1: "length gs1 = k"
    and q1: "\<forall>i<k. rx_in (so_rx (dc_sock (gs1 ! i))) = concat (map restoreMsg (ps i)) \<and> so_out (dc_sock (gs1 ! i)) = userMsg u @ getKeyMsg (encKeyName name i) \<and> dc_counter (gs1 ! i) = junk i"
    by (rule keys_phase [where gs = ?gs and rest = "\<lambda>i. concat (map restoreMsg (ps i))" and keys = keys and opens = opens and f = f and xs = xs, OF assms(6-8,5,9)])
       (use assms(10,11) shares mkSocket_whole [OF assms(7)] in \<open>simp_all add: keyReply_def\<close>)
  have short: "length (shareAt ssl codec i name) \<le> 256" if "i < k" for i
    using that assms(2,3,13) shareAt_length [OF assms(1), of name i] by (simp add: goodName_def SECRET_SIZE_def MAX_SECRET_SIZE_def)
  obtain gs2 where p2: "perCloud (\<lambda>i (g, items). bindP (download_thread_meta W (?names ! i) (dc_sock g))
       (\<lambda>_ t. Some (Done () (setSock g (dt_sock t), items @ [dt_items t]))) (\<lambda>t. (setSock g (dt_sock t), items))) 0 gs1 [] = Some (Done () (gs2, ?items))"
    and l2: "length gs2 = k" and q2: "\<forall>i<k. so_out (dc_sock (gs2 ! i)) = so_out (dc_sock (gs1 ! i)) @ packageMsg DOWNLOAD (?names ! i) \<and> dc_counter (gs2 ! i) = dc_counter (gs1 ! i)"
    using items_phase [where names = ?names and gs = gs1 and ms = ms and fs = fs, OF assms(6,7)] short chunks msgs q1 by (auto simp: l1 Let_def)
  have "\<exists>gs4. preDownloadFile ssl rnd codec W sys opens u tmp name (gs1, ?F f' {}) = Some (Done () (gs4, f')) \<and> length gs4 = k \<and>
      (\<forall>i<k. so_out (dc_sock (gs4 ! i)) = userMsg u @ getKeyMsg (encKeyName name i) @ packageMsg DOWNLOAD (shareAt ssl codec i name) @
        recipeFileMsg (serverRecipeName name i) (recipeFileOf u (wrap32 (junk i + secretsSize (xs i))) (map entryOfShare (xs i))))" if f': "clean name k f'" for f'
  proof -
    obtain gs3 where p3: "perCloud (\<lambda>i. cloudRecipe ssl (cryptoObj codec) opens name i (?items ! i)) 0 gs2 (?F f' {}) = Some (Done () (gs3, ?F f' {..<k}))" and l3: "length gs3 = k"
      and q3: "\<forall>i<k. dc_sock (gs3 ! i) = dc_sock (gs2 ! i) \<and> dc_counter (gs3 ! i) = wrap32 (dc_counter (gs2 ! i) + secretsSize (xs i))"
      using recipes_phase [where gs = gs2 and f = f' and segs = segs and ms = ms and keys = keys and xs = xs and fs = fs and items = ?items, OF assms(1,5,9)]
        f' assms(10) chunks q1 q2 by (auto simp: l2)
    obtain gs4 where p4: "perCloud (\<lambda>i st. Some (uploadRetrivedRecipeFile W sys u name i st)) 0 gs3 (?F f' {..<k}) = Some (Done () (gs4, f'))" and l4: "length gs4 = k"
      and q4: "\<forall>i<k. so_out (dc_sock (gs4 ! i)) = so_out (dc_sock (gs3 ! i)) @
        recipeFileMsg (serverRecipeName name i) (recipeFileOf u (dc_counter (gs3 ! i)) (map entryOfShare (xs i)))"
      using handover_phase [where gs = gs3 and xs = xs and keys = keys and f = f' and lim = RING_BUFFER_DATA_SIZE, OF assms(7,8,5)] f' assms(10,12) shares q3 wrap32_int32
      by (auto simp: l3)
    have "preDownloadFile ssl rnd codec W sys opens u tmp name (gs1, ?F f' {}) = Some (Done () (gs4, f'))"
      using shareNames_run [OF assms(1-4)] p2 p3 p4 by (simp add: preDownloadFile_def l1)
    then show ?thesis using l4 q1 q2 q3 q4 by auto
  qed
  with p1 show ?thesis by (rule that)
qed

text \<open>
  The recipes come back. Let the metadata servers of the first k clouds hold, as the encoder and the uploader gave them, the encrypted key
  file of a file, the encrypted metadata chunks of its shares, and the file under the cloud's share of its name. Then, for some
  answers of the servers, the client fetches and decrypts all key files, downloads and decrypts the metadata chunks, writes the recipe files, sends them
  and removes every temporary file. Each server, asked what the client sent, gives these answers, and afterwards has
  the recipe that lists the cloud's shares of the secrets in order. The file size in it is the sum of the secrets' sizes added to
  what the counter had at the start, which the code does not set.
\<close>

lemma recipes_come_back:
  assumes "gf_laws gf" "evp_ok ssl" "mkEncoder gf CAONT_RS_TYPE n m r HIGH_SEC_PAIR_TYPE = Some (codec, c)" "k = nat (n - m)" "k \<le> 100"
    and "ds \<noteq> []" "\<forall>d\<in>set ds. goodSecret codec d" "int (24 + 40 * length ds) < 2147483648"
    and "\<forall>i<k. (\<forall>seg\<in>set (segmentsOf [] (cloudShares ssl codec i 0 ds)). length seg \<le> 512) \<and>
      chunksFor ssl c (segmentsOf [] (cloudShares ssl codec i 0 ds)) (ms i) (keys i) \<and>
      metaHolds ssl cs u enc name i (shareAt ssl codec i name) (fs i) (ms i) (keys i) (srv i) \<and> int32 (junk i)"
    and "goodName codec name" "shareSizeOf codec (length name) \<le> 256" "length tmp = length name * 32" "fullPath name"
    and "whole (net_recv W)" "sendsWhole W" "system_ok enc dec sys" "\<forall>p. opens p" "clean name k f"
    and "whole N" "faultless E" "hashOfServer = Inr cs" "int32 u"
  shows "\<exists>replies gs1.
    downloadKeyFiles W sys opens name 0 (map (\<lambda>i. \<lparr> dc_sock = mkSocket W u (replies i), dc_counter = junk i \<rparr>) [0..<k]) f =
      Some (Done True (gs1, tempFiles name keys (\<lambda>i. cloudShares ssl codec i 0 ds) f {..<k} {})) \<and>
    (\<forall>f'. clean name k f' \<longrightarrow> (\<exists>gs2.
      preDownloadFile ssl rnd codec W sys opens u tmp name (gs1, tempFiles name keys (\<lambda>i. cloudShares ssl codec i 0 ds) f' {..<k} {}) = Some (Done () (gs2, f')) \<and> length gs2 = k \<and>
      (\<forall>i<k. \<exists>h s'. SocketHandlerMeta N E ssl (so_out (dc_sock (gs2 ! i))) (srv i) = Some (Done () (h, s')) \<and>
        concat (dedupCore.sent s') = concat (dedupCore.sent (srv i)) @ replies i \<and>
        disk s' = (disk (srv i))(recipesDir @ underscores (serverRecipeName name i) \<mapsto>
          recipeFileOf u (wrap32 (junk i + secretsSize (cloudShares ssl codec i 0 ds))) (map entryOfShare (cloudShares ssl codec i 0 ds))))))"
proof -
  note codec = mkEncoder_good [OF assms(1-3)]
  let ?xs = "\<lambda>i. cloudShares ssl codec i 0 ds" and ?segs = "\<lambda>i. segmentsOf [] (cloudShares ssl codec i 0 ds)" and ?sname = "\<lambda>i. shareAt ssl codec i name"
  have kn: "k \<le> codecN codec" using assms(3,4) codec(3,4) by (auto simp: mkEncoder_def mkCDCodec_def Let_def split: sum.splits if_splits)
  have i: "i < codecN codec" "i < 100" "chunksFor ssl (cryptoObj codec) (?segs i) (ms i) (keys i)" "length (?sname i) \<le> 256"
    "metaHolds ssl cs u enc name i (?sname i) (fs i) (ms i) (keys i) (srv i)" "int32 (junk i)" "\<forall>seg\<in>set (?segs i). length seg \<le> 512" if "i < k" for i
    using that kn assms(5,9,10,11) codec(2) shareAt_length [OF codec(1), of name i] by (auto simp: goodName_def SECRET_SIZE_def MAX_SECRET_SIZE_def)
  note cl = cloud_chunks [OF codec(1) i(1) assms(6-8) i(7,3)]
  have holds: "storeInv ssl cs (srv i)" "hasShares (srv i) (ms i)" "int32 (int (length (enc (keys i))))" "int64 (fs i)" if "i < k" for i
    using i(5) [OF that] by (auto simp: metaHolds_def recipeStored_def)
  have msgs: "restoredMsgs (srv i) (fs i) (map entryOfShare (ms i)) =
      packMsgs (putShareFileHead \<lparr> sfh_fileSize = fs i, sfh_numOfShares = int (length (ms i)) \<rparr>) (map itemBytes (map infoOfShare (ms i)))" if "i < k" for i
    by (rule hasShares_restored(2) [OF holds(1,2) [OF that] cl(2) [OF that that that]]) (simp add: RING_BUFFER_META_SIZE_def)
  note side = meta_server_side [where u = u and name = name and enc = enc, OF assms(19-22,13) i(2,4,5) cl(2,1)]
  have len: "int (24 + 40 * length (?xs i)) < 2147483648" for i using assms(8) by (simp add: length_cloudShares)
  have msgs_fit: "\<forall>p\<in>set (restoredMsgs (srv i) (fs i) (map entryOfShare (ms i))). int (length p) \<le> DOWNLOAD_BUFFER_SIZE" if "i < k" for i
    by (rule side(2) [OF that that that that that that that that that len refl])
  obtain gs1 where c: "downloadKeyFiles W sys opens name 0
      (map (\<lambda>i. \<lparr> dc_sock = mkSocket W u (keyReply (enc (keys i)) @ chunkReply (srv i) (fs i) (ms i)), dc_counter = junk i \<rparr>) [0..<k]) f = Some (Done True (gs1, tempFiles name keys ?xs f {..<k} {}))"
    "\<And>f'. clean name k f' \<Longrightarrow> \<exists>gs2. preDownloadFile ssl rnd codec W sys opens u tmp name (gs1, tempFiles name keys ?xs f' {..<k} {}) = Some (Done () (gs2, f')) \<and> length gs2 = k \<and>
      (\<forall>i<k. so_out (dc_sock (gs2 ! i)) = userMsg u @ getKeyMsg (encKeyName name i) @ packageMsg DOWNLOAD (?sname i) @
        recipeFileMsg (serverRecipeName name i) (recipeFileOf u (wrap32 (junk i + secretsSize (?xs i))) (map entryOfShare (?xs i))))"
    by (rule recipes_client [where segs = ?segs and xs = ?xs and ps = "\<lambda>i. restoredMsgs (srv i) (fs i) (map entryOfShare (ms i))" and junk = junk and fs = fs and ms = ms and keys = keys and rnd = rnd and f = f and opens = opens,
          OF codec(1) assms(10-17,5,18,22) kn])
       (use msgs msgs_fit cl i(3,6) holds(3,4) len in simp_all)
  have "\<exists>gs2. preDownloadFile ssl rnd codec W sys opens u tmp name (gs1, tempFiles name keys ?xs f' {..<k} {}) = Some (Done () (gs2, f')) \<and> length gs2 = k \<and>
      (\<forall>i<k. \<exists>h s'. SocketHandlerMeta N E ssl (so_out (dc_sock (gs2 ! i))) (srv i) = Some (Done () (h, s')) \<and>
        concat (dedupCore.sent s') = concat (dedupCore.sent (srv i)) @ keyReply (enc (keys i)) @ chunkReply (srv i) (fs i) (ms i) \<and>
        disk s' = (disk (srv i))(recipesDir @ underscores (serverRecipeName name i) \<mapsto>
          recipeFileOf u (wrap32 (junk i + secretsSize (?xs i))) (map entryOfShare (?xs i))))" if f': "clean name k f'" for f'
  proof -
    obtain gs2 where gs2: "preDownloadFile ssl rnd codec W sys opens u tmp name (gs1, tempFiles name keys ?xs f' {..<k} {}) = Some (Done () (gs2, f'))" "length gs2 = k"
      "\<forall>i<k. so_out (dc_sock (gs2 ! i)) = userMsg u @ getKeyMsg (encKeyName name i) @ packageMsg DOWNLOAD (?sname i) @
        recipeFileMsg (serverRecipeName name i) (recipeFileOf u (wrap32 (junk i + secretsSize (?xs i))) (map entryOfShare (?xs i)))"
      using c(2) [OF f'] by blast
    show ?thesis
      by (intro exI [of _ gs2] conjI gs2(1,2) allI impI) (rule side(1) [OF _ _ _ _ _ _ _ _ _ len], use gs2(3) in simp_all)
  qed
  with c(1) show ?thesis by (intro exI [of _ "\<lambda>i. keyReply (enc (keys i)) @ chunkReply (srv i) (fs i) (ms i)"] exI [of _ gs1]) simp
qed

section \<open>Witness\<close>

text \<open>The shares of a short full name; their first bytes are those of the package.\<close>

abbreviation pathName :: bytes where "pathName \<equiv> [47, 97, 98, 0]"

lemma path_package:
  obtains pkg where "caontPackage toySSL confCodec (padSecret pathName 64) = Inr pkg" "length pkg = 96" "pkg ! 0 = 0" "pkg ! 32 = 15" "pkg ! 64 = 47"
proof -
  let ?al = "padSecret pathName 64" and ?ct = "toyCipher EVP_aes_256_cbc (take 32 (padSecret pathName 64)) (replicate 16 0) (map of_nat [0..<64])"
  let ?body = "xorBytes ?ct ?al"
  let ?pkg = "?body @ xorBytes (take 32 ?body) (take 32 ?al)"
  have codec: "rs_codec toySSL confCodec" using mkEncoder_good(1) [OF gf256_laws toySSL_ok conf_encoder] by (simp add: goodCodec_def)
  have sel: "cryptoObj confCodec = highCrypto" "take 64 (alignedSizeConstant confCodec) = map of_nat [0..<64]"
    by (simp_all add: confCodec_def mkCDCodec_def codec_types highCrypto_def getHashSize_def getKeySize_def Let_def gfOverflows_conf take_map take_upt MAX_SECRET_SIZE_def)
  have len: "length ?al = 64" "length ?ct = 64" by code_simp+
  have "hashOr toySSL confCodec ?al = Inr (take 32 ?al)" "hashOr toySSL confCodec ?body = Inr (take 32 ?body)"
    "encryptOr toySSL confCodec (map of_nat [0..<64]) (take 32 ?al) = Inr ?ct"
    unfolding hashOr_def encryptOr_def sel by code_simp+
  then have "caontPackage toySSL confCodec ?al = Inr ?pkg" using sel len by (simp add: caontPackage_def Let_def rs_region_xor [OF codec])
  moreover have "length ?pkg = 96 \<and> ?pkg ! 0 = 0 \<and> ?pkg ! 32 = 15 \<and> ?pkg ! 64 = 47" by code_simp
  ultimately show ?thesis using that by blast
qed

lemma path_shares:
  assumes "i < 3"
  shows "shareAt toySSL confCodec i pathName \<noteq> []" "hd (shareAt toySSL confCodec i pathName) \<in> {0, 15, 47}"
proof -
  obtain pkg where pkg: "caontPackage toySSL confCodec (padSecret pathName 64) = Inr pkg" "length pkg = 96" "pkg ! 0 = 0" "pkg ! 32 = 15" "pkg ! 64 = 47"
    by (rule path_package)
  have four: "length pathName = 4" by simp
  have al: "rsAlignedSize confCodec 4 = 64" by (simp add: rsAlignedSize_def confCodec_sel)
  have "encoding toySSL (\<lambda>_. 0) confCodec pathName (replicate 128 0) = Inr (sharesOf toySSL confCodec pathName, 32)"
    using encoding_run(1) [OF mkEncoder_good(1) [OF gf256_laws toySSL_ok conf_encoder], of pathName "replicate 128 0" "\<lambda>_. 0"] conf_sizes(1)
    unfolding four by (simp add: MAX_SECRET_SIZE_def confCodec_sel)
  moreover have "encoding toySSL (\<lambda>_. 0) confCodec pathName (replicate 128 0) = bindR (failIf (alignedSecretBufferSize confCodec < 64) AlignedBufferTooSmall) (\<lambda>_.
      rsShares confCodec pkg 32 (replicate 128 0))"
    unfolding encoding_def caontRSEncoding_def four al Let_def pkg(1) by (simp add: codec_types confCodec_sel pkg(1))
  ultimately obtain rest where "sharesOf toySSL confCodec pathName = pkg @ rest"
    by (auto simp: failIf_def rsShares_def Let_def split: if_splits dest!: sym [where t = "sharesOf toySSL confCodec pathName"])
  then have at: "shareAt toySSL confCodec i pathName = take 32 (drop (32 * i) (pkg @ rest))"
    unfolding shareAt_def four conf_sizes(1) by (simp add: blockAt_def slice_def)
  have "32 * i < length pkg" using assms pkg(2) by simp
  then have "shareAt toySSL confCodec i pathName \<noteq> [] \<and> hd (shareAt toySSL confCodec i pathName) = pkg ! (32 * i)"
    unfolding at by (simp add: hd_drop_conv_nth)
  moreover have "i = 0 \<or> i = 1 \<or> i = 2" using assms by auto
  ultimately show "shareAt toySSL confCodec i pathName \<noteq> []" "hd (shareAt toySSL confCodec i pathName) \<in> {0, 15, 47}" using pkg(3-5) by auto
qed

text \<open>A shell for the three commands, with an encryption that prepends a byte.\<close>

fun words :: "bytes \<Rightarrow> bytes list" where
  "words [] = [[]]"
| "words (b # bs) = (if b = 32 then [] # words bs else (b # hd (words bs)) # tl (words bs))"

lemma words_append: "32 \<notin> set a \<Longrightarrow> words (a @ 32 # bs) = a # words bs" "32 \<notin> set a \<Longrightarrow> words a = [a]"
  by (induction a) auto

definition demoSystem :: system where
  "demoSystem cmd f = (case words cmd of
       [_, _, name] \<Rightarrow> Some (f(name := None))
     | [_, _, _, _, src, _, dst, _, _] \<Rightarrow> map_option (\<lambda>d. f(dst \<mapsto> 83 # d)) (f src)
     | [_, _, _, _, _, dst, _, src, _, _] \<Rightarrow> map_option (\<lambda>d. f(dst \<mapsto> tl d)) (f src)
     | _ \<Rightarrow> None)"

lemma demoSystem_ok: "system_ok ((#) 83) tl demoSystem"
proof -
  have cmds: "ascii ''rm -rf '' = ascii ''rm'' @ 32 # ascii ''-rf'' @ 32 # []"
    "ascii ''openssl enc -aes-128-cbc -in '' = ascii ''openssl'' @ 32 # ascii ''enc'' @ 32 # ascii ''-aes-128-cbc'' @ 32 # ascii ''-in'' @ 32 # []"
    "ascii ''openssl enc -d -aes-128-cbc -out '' = ascii ''openssl'' @ 32 # ascii ''enc'' @ 32 # ascii ''-d'' @ 32 # ascii ''-aes-128-cbc'' @ 32 # ascii ''-out'' @ 32 # []"
    "ascii '' -pass pass:test'' = 32 # ascii ''-pass'' @ 32 # ascii ''pass:test''" "ascii '' -out '' = 32 # ascii ''-out'' @ 32 # []" "ascii '' -in '' = 32 # ascii ''-in'' @ 32 # []"
    by code_simp+
  have w: "32 \<notin> set (ascii ''rm'')" "32 \<notin> set (ascii ''-rf'')" "32 \<notin> set (ascii ''openssl'')" "32 \<notin> set (ascii ''enc'')" "32 \<notin> set (ascii ''-d'')" "32 \<notin> set (ascii ''-aes-128-cbc'')" "32 \<notin> set (ascii ''-in'')" "32 \<notin> set (ascii ''-out'')" "32 \<notin> set (ascii ''-pass'')" "32 \<notin> set (ascii ''pass:test'')"
    by code_simp+
  have plain: "32 \<notin> set name" if "plainName name" for name using that by (auto simp: plainName_def plainByte_def)
  have whole: "take 255 c = c" if "length (take 255 c) < 255" for c :: bytes using that by simp
  show ?thesis
    unfolding system_ok_def
  proof (intro conjI allI impI)
    fix name and f :: files assume "plainName name \<and> length (cmdRm name) < 255 \<and> (\<forall>p. f (name @ 47 # p) = None)"
    then have "plainName name" "cmdRm name = ascii ''rm -rf '' @ name" using whole [of "ascii ''rm -rf '' @ name"] unfolding cmdRm_def by blast+
    then have "words (cmdRm name) = [ascii ''rm'', ascii ''-rf'', name]"
      using plain unfolding cmds by (simp add: words_append w)
    then show "demoSystem (cmdRm name) f = Some (f(name := None))" by (simp add: demoSystem_def)
  next
    fix src dst d and f :: files assume a: "plainName src \<and> plainName dst \<and> length (cmdEncrypt src dst) < 255 \<and> f src = Some d"
    then have "cmdEncrypt src dst = ascii ''openssl enc -aes-128-cbc -in '' @ src @ ascii '' -out '' @ dst @ ascii '' -pass pass:test''"
      using whole unfolding cmdEncrypt_def by blast
    then have "words (cmdEncrypt src dst) = [ascii ''openssl'', ascii ''enc'', ascii ''-aes-128-cbc'', ascii ''-in'', src, ascii ''-out'', dst, ascii ''-pass'', ascii ''pass:test'']"
      using a plain unfolding cmds by (simp add: words_append w)
    then show "demoSystem (cmdEncrypt src dst) f = Some (f(dst \<mapsto> 83 # d))" using a by (simp add: demoSystem_def)
  next
    fix src dst d and f :: files assume a: "plainName src \<and> plainName dst \<and> length (cmdDecrypt dst src) < 255 \<and> f src = Some d"
    then have "cmdDecrypt dst src = ascii ''openssl enc -d -aes-128-cbc -out '' @ dst @ ascii '' -in '' @ src @ ascii '' -pass pass:test''"
      using whole unfolding cmdDecrypt_def by blast
    then have "words (cmdDecrypt dst src) = [ascii ''openssl'', ascii ''enc'', ascii ''-d'', ascii ''-aes-128-cbc'', ascii ''-out'', dst, ascii ''-in'', src, ascii ''-pass'', ascii ''pass:test'']"
      using a plain unfolding cmds by (simp add: words_append w)
    then show "demoSystem (cmdDecrypt dst src) f = Some (f(dst \<mapsto> tl d))" using a by (simp add: demoSystem_def)
  qed simp
qed

text \<open>The one metadata chunk of a cloud, its key record, and a server that has them.\<close>

definition demoPlain :: "nat \<Rightarrow> bytes" where
  "demoPlain i = (let e = fst (cloudShare toySSL confCodec i 0 (replicate 64 7)) in
     putMetaNode \<lparr> mn_shareFP = mde_shareFP e, mn_other = replicate 20 0, mn_secretID = 0, mn_secretSize = 64, mn_shareSize = mde_shareSize e \<rparr>)"

definition demoChunk :: "nat \<Rightarrow> share" where
  "demoChunk i = (case encryptWithKey toySSL highCrypto (demoPlain i) (hashOf toySSL highCrypto (demoPlain i)) of
       Inr ct \<Rightarrow> (\<lparr> mde_shareFP = hashOf toySSL highCrypto ct, mde_secretID = - 1, mde_secretSize = 64, mde_shareSize = 64 \<rparr>, ct)
     | Inl _ \<Rightarrow> (\<lparr> mde_shareFP = [], mde_secretID = - 1, mde_secretSize = 64, mde_shareSize = 64 \<rparr>, []))"

definition demoKeys :: "nat \<Rightarrow> bytes" where
  "demoKeys i = le 4 (- 1) @ mde_shareFP (fst (demoChunk i)) @ hashOf toySSL highCrypto (demoPlain i)"

definition demoFull :: "nat \<Rightarrow> bytes" where
  "demoFull i = (let sname = shareAt toySSL confCodec i pathName in if hd sname = 47 then sname else 47 # sname)"

definition metaSrv :: "nat \<Rightarrow> dedupCore" where
  "metaSrv i = holdCore [inodeFP2IndexKey (hashOf toySSL shaCrypto (demoFull i @ le 4 8)) \<mapsto> newFileInode 8 [102] (replicate 12 97 @ rfSuffix) 0]
     [keystoreDir @ underscores (encKeyName pathName i) \<mapsto> 83 # demoKeys i,
      [114, 47] @ replicate 12 97 @ rfSuffix \<mapsto> recipeFileOf 8 64 [entryOfShare (demoChunk i)]]
     (mde_shareFP (fst (demoChunk i))) (snd (demoChunk i))"

lemma demoChunk_for:
  assumes "i < 3"
  shows "segmentsOf [] (cloudShares toySSL confCodec i 0 [replicate 64 7]) = [[cloudShare toySSL confCodec i 0 (replicate 64 7)]]"
    and "chunksFor toySSL highCrypto [[cloudShare toySSL confCodec i 0 (replicate 64 7)]] [demoChunk i] (demoKeys i)"
    and "generateHash toySSL shaCrypto (snd (demoChunk i)) = Inr (mde_shareFP (fst (demoChunk i)))" "length (snd (demoChunk i)) = 64" "length (demoKeys i) = 68" "length (mde_shareFP (fst (demoChunk i))) = 32"
proof -
  let ?x = "cloudShare toySSL confCodec i 0 (replicate 64 7)"
  note codec = mkEncoder_good [OF gf256_laws toySSL_ok conf_encoder]
  show "segmentsOf [] (cloudShares toySSL confCodec i 0 [replicate 64 7]) = [[?x]]" by simp
  have crypt: "crypto_valid toySSL highCrypto" "crypto_paired highCrypto" "hashSize highCrypto = 32" "keySize highCrypto = 32"
    using goodCodec_crypto [OF codec(1)] codec(2) by simp_all
  have x: "goodShare RING_BUFFER_DATA_SIZE ?x" using cloudShare_good(3) [OF codec(1) conf_sizes(3), of i 0] assms codec(3) by simp
  have node: "nodesFor [?x] (demoPlain i)"
    unfolding nodesFor_def demoPlain_def Let_def
    by (rule exI [of _ "[\<lparr> mn_shareFP = mde_shareFP (fst ?x), mn_other = replicate 20 0, mn_secretID = 0, mn_secretSize = 64, mn_shareSize = mde_shareSize (fst ?x) \<rparr>]"])
       (use x in \<open>simp add: nodeFor_def okMetaNode_def goodShare_def okMDEntry_def int32_def cloudShare_def\<close>)
  have plain: "length (demoPlain i) = 64" using nodesFor_length [OF node] by simp
  have hash: "length (hashOf toySSL highCrypto d) = 32" "generateHash toySSL highCrypto d = Inr (hashOf toySSL highCrypto d)" for d
    using hashOf_run [OF crypt(1,3)] by simp_all
  have dvd: "16 dvd length (demoPlain i)" "length (hashOf toySSL highCrypto (demoPlain i)) = nat (keySize highCrypto)" using plain hash(1) crypt(4) by simp_all
  obtain ct where ct: "encryptWithKey toySSL highCrypto (demoPlain i) (hashOf toySSL highCrypto (demoPlain i)) = Inr ct" "length ct = 64"
    using crypto.enc_total [OF crypt(1,2)] dvd plain by fastforce
  then have c: "demoChunk i = (\<lparr> mde_shareFP = hashOf toySSL highCrypto ct, mde_secretID = - 1, mde_secretSize = 64, mde_shareSize = 64 \<rparr>, ct)" by (simp add: demoChunk_def)
  show "chunksFor toySSL highCrypto [[?x]] [demoChunk i] (demoKeys i)"
    unfolding chunksFor_def using node ct(1) by (auto simp: chunkFor_def c demoKeys_def intro!: exI [of _ "[demoKeys i]"])
  have "generateHash toySSL shaCrypto d = generateHash toySSL highCrypto d" for d by (simp add: generateHash_def shaCrypto_def highCrypto_def)
  then show "generateHash toySSL shaCrypto (snd (demoChunk i)) = Inr (mde_shareFP (fst (demoChunk i)))" using hash(2) by (simp add: c)
  show "length (snd (demoChunk i)) = 64" "length (demoKeys i) = 68" "length (mde_shareFP (fst (demoChunk i))) = 32" using ct(2) hash(1) by (simp_all add: c demoKeys_def)
qed

lemma metaSrv_ok:
  assumes "i < 3"
  shows "metaHolds toySSL shaCrypto 8 ((#) 83) pathName i (shareAt toySSL confCodec i pathName) 64 [demoChunk i] (demoKeys i) (metaSrv i)"
proof -
  let ?m = "demoChunk i" and ?sname = "shareAt toySSL confCodec i pathName" and ?rn = "replicate 12 97 @ rfSuffix"
  let ?ifp = "hashOf toySSL shaCrypto (demoFull i @ le 4 8)"
  note chunk = demoChunk_for [OF assms] and path = path_shares [OF assms]
  have "snd ?m \<noteq> []" "int (length (snd ?m)) \<le> RING_BUFFER_DATA_SIZE" using chunk(4) by (auto simp: RING_BUFFER_DATA_SIZE_def)
  note hold = holdCore_ok [OF chunk(3) this]
  have "\<forall>i\<in>{0, 1, 2}. recipesDir @ underscores (serverRecipeName pathName i) \<noteq> [114, 47] @ ?rn \<and>
      keystoreDir @ underscores (encKeyName pathName i) \<noteq> [114, 47] @ ?rn \<and> recipesDir @ underscores (serverRecipeName pathName i) \<noteq> keystoreDir @ underscores (encKeyName pathName i)"
    by code_simp
  moreover have "i \<in> {0, 1, 2}" using assms by auto
  ultimately have differ: "recipesDir @ underscores (serverRecipeName pathName i) \<noteq> [114, 47] @ ?rn" "keystoreDir @ underscores (encKeyName pathName i) \<noteq> [114, 47] @ ?rn"
    "recipesDir @ underscores (serverRecipeName pathName i) \<noteq> keystoreDir @ underscores (encKeyName pathName i)" by blast+
  have "storeInv toySSL shaCrypto (metaSrv i)" "hasShares (metaSrv i) [?m]"
    unfolding metaSrv_def hasShares_def using hold by (simp_all add: inodeFP2IndexKey_def shareFP2IndexKey_def)
  moreover have "formatFullFileName ?sname = Some (demoFull i)" using path by (cases ?sname) (auto simp: formatFullFileName_def demoFull_def)
  moreover have "fileName2InodeFP toySSL shaCrypto (demoFull i) 8 = Some ?ifp"
    by (simp add: fileName2InodeFP_def hashOf_def generateHash_def shaCrypto_def toySSL_def toyDigest_def)
  moreover have "disk (metaSrv i) (keystoreDir @ underscores (encKeyName pathName i)) = Some (83 # demoKeys i)"
    "disk (metaSrv i) (recipesDir @ underscores (serverRecipeName pathName i)) = None"
    using differ by (simp_all add: metaSrv_def holdCore_def)
  moreover have "recipeStored (metaSrv i) 8 ?ifp 0 64 [entryOfShare ?m]"
    unfolding recipeStored_def
  proof (intro conjI exI)
    show "db (metaSrv i) (inodeFP2IndexKey ?ifp) = Some (newFileInode 8 [102] ?rn 0)"
      by (simp add: metaSrv_def holdCore_def inodeFP2IndexKey_def shareFP2IndexKey_def)
    show "versionAt (newFileInode 8 [102] ?rn 0) 0 \<lparr> ife_recipeFileName = ?rn, ife_recipeFileOffset = int (length ([] :: bytes)) \<rparr>"
      using newestVersion_new [of ?rn 0 "[102]" 8] recipeName_ok [OF demoName_simps(4)] by (auto simp: newestVersion_def versionAt_def int32_def)
    show "recipeAt (metaSrv i) 8 ?rn ([] @ putRecipeHead \<lparr> frh_userID = 8, frh_fileSize = 64, frh_numOfShares = int (length [entryOfShare ?m]) \<rparr> @
        concat (map putRecipeEntry [entryOfShare ?m]) @ [])"
      using chunk(6) by (simp add: recipeAt_def readRecipeFileFromBuffer_def metaSrv_def holdCore_def demoCore_def demoNode_def demoName_simps RECIPE_BUFFER_SIZE_def
          recipeFileOf_def putRecipeHead_def putRecipeEntry_def layout_simps entryOfShare_def)
  qed (simp_all add: int32_def int64_def)
  ultimately show ?thesis using chunk(5) by (simp add: metaHolds_def int32_def)
qed

end
