(* ===== verification/ClientMain.thy ===== *)
theory ClientMain
  imports Recipes Chunker
begin

text \<open>
  The client program, client/main.cc, with the configuration of client/utils/conf.hh: the arguments, the loop that reads
  a file, has it chunked and hands the secrets to the encoder, and the composition of the encoder, the uploader, the
  downloader and the decoder for an upload and a download. The network, the file system, OpenSSL, the Galois field and what uninitialised memory has
  are arguments.
\<close>

section \<open>Configuration and arguments\<close>

record configuration =
  conf_n :: int
  conf_m :: int
  conf_k :: int
  conf_r :: int
  secretBufferSize :: int
  shareBufferSize :: int
  bufferSize :: int
  chunkEndIndexListSize :: int

definition mkConfiguration :: configuration where
  "mkConfiguration =
     (let n = 4; m = 1; k = n - m in
      \<lparr> conf_n = n, conf_m = m, conf_k = k, conf_r = k - 1, secretBufferSize = 16 * 1024, shareBufferSize = 16 * 1024 * n,
         bufferSize = 128 * 1024 * 1024, chunkEndIndexListSize = 1024 * 1024 \<rparr>)"

text \<open>Arguments are the characters before the terminator; the size of the name counts the terminator.\<close>

fun nameLoop :: "bytes \<Rightarrow> nat \<Rightarrow> nat" where
  "nameLoop [] namesize = namesize"
| "nameLoop (b # bs) namesize = (if b \<noteq> 0 then nameLoop bs (namesize + 1) else namesize)"

definition namesizeOf :: "bytes \<Rightarrow> nat" where
  "namesizeOf arg = nameLoop (arg @ [0]) 0 + 1"

definition strncmpEq :: "bytes \<Rightarrow> bytes \<Rightarrow> nat \<Rightarrow> bool" where
  "strncmpEq s t n \<longleftrightarrow> take n (cstring s @ [0]) = take n (cstring t @ [0])"

definition securetypeOf :: "bytes \<Rightarrow> int" where
  "securetypeOf arg = (if strncmpEq arg (ascii ''HIGH'') 4 then HIGH_SEC_PAIR_TYPE else LOW_SEC_PAIR_TYPE)"

definition wantsUpload :: "bytes \<Rightarrow> bool" where
  "wantsUpload opt \<longleftrightarrow> strncmpEq opt (ascii ''-u'') 2 \<or> strncmpEq opt (ascii ''-a'') 2"

definition wantsDownload :: "bytes \<Rightarrow> bool" where
  "wantsDownload opt \<longleftrightarrow> strncmpEq opt (ascii ''-d'') 2 \<or> strncmpEq opt (ascii ''-a'') 2"

section \<open>The upload loop\<close>

text \<open>
  The secrets of one buffer: the ends of the chunks become sizes and copies. The data array of a secret has \<open>SECRET_SIZE\<close> cells;
  \<open>lastRead\<close> says that the buffer ends where the file ends.
\<close>

fun addChunks :: "bytes \<Rightarrow> bool \<Rightarrow> int \<Rightarrow> int \<Rightarrow> int list \<Rightarrow> crash + secret_item list" where
  "addChunks buffer lastRead totalChunks preEnd [] = Inr []"
| "addChunks buffer lastRead totalChunks preEnd (e # es) =
     (let secretSize = e - preEnd in
      if secretSize < 0 \<or> preEnd + 1 < 0 then Inl DedupState.OutOfBounds
      else if int SECRET_SIZE < secretSize then Inl BufferOverflow
      else if int (length buffer) < preEnd + 1 + secretSize then Inl UninitRead
      else
        (case addChunks buffer lastRead (totalChunks + 1) e es of
           Inl x \<Rightarrow> Inl x
         | Inr items \<Rightarrow>
             Inr (SecretObject (slice (nat (preEnd + 1)) (nat secretSize) buffer) totalChunks (lastRead \<and> es = []) # items)))"

text \<open>
  The loop over the file, whose unread part is \<open>rest\<close>. When \<open>fread\<close> finds nothing although the size is not reached the
  loop goes on for ever; None also stands for a chunker that does not return.
\<close>

function readLoop :: "configuration \<Rightarrow> chunker \<Rightarrow> int \<Rightarrow> int \<Rightarrow> int \<Rightarrow> bytes \<Rightarrow> (crash + secret_item list) option" where
  "readLoop conf c fsize totalRead totalChunks rest =
     (if \<not> totalRead < fsize then Some (Inr [])
      else
        (let buffer = take (nat (bufferSize conf)) rest; ret = int (length buffer) in
         if buffer = [] then None
         else
           (case chunking c buffer ret of
              None \<Rightarrow> None
            | Some ends \<Rightarrow>
                if chunkEndIndexListSize conf < int (length ends) then Some (Inl BufferOverflow)
                else
                  (case addChunks buffer (totalRead + ret = fsize) totalChunks (- 1) ends of
                     Inl e \<Rightarrow> Some (Inl e)
                   | Inr items \<Rightarrow>
                       map_option (map_sum id ((@) items))
                         (readLoop conf c fsize (totalRead + ret) (totalChunks + int (length ends)) (drop (nat (bufferSize conf)) rest))))))"
  by pat_completeness auto
termination by (relation "measure (\<lambda>(_, _, _, _, _, rest). length rest)") auto

declare readLoop.simps [simp del]

text \<open>What goes to the encoder: the name and the size, which the header keeps in 32 bits, and the secrets.\<close>

definition uploadItems :: "configuration \<Rightarrow> chunker \<Rightarrow> bytes \<Rightarrow> bytes \<Rightarrow> (crash + secret_item list) option" where
  "uploadItems conf c arg contents =
     (let namesize = namesizeOf arg; fsize = int (length contents) in
      if SECRET_SIZE < namesize then Some (Inl BufferOverflow)
      else map_option (map_sum id ((#) (FileObject (take namesize (arg @ [0])) (wrap32 fsize)))) (readLoop conf c fsize 0 0 contents))"

section \<open>Upload\<close>

record clientEnv =
  ce_ssl :: openssl
  ce_gf :: gf
  ce_rnd :: "nat \<Rightarrow> byte"
  ce_net :: net
  ce_sys :: system
  ce_opens :: "bytes \<Rightarrow> bool"
  ce_mem :: memory                \<comment> \<open>memory that the encoder did not write\<close>
  ce_buffer :: bytes              \<comment> \<open>share buffer of a coding thread\<close>
  ce_counter :: "nat \<Rightarrow> int"      \<comment> \<open>fileSizeCounter before it is added to\<close>
  ce_tmp :: "nat \<Rightarrow> bytes"        \<comment> \<open>array of the given size in preDownloadFile\<close>
  ce_stale :: "nat \<Rightarrow> bytes"      \<comment> \<open>data array of a decoded secret before the decoding\<close>

record uploadEnd =
  ue_meta :: "cloud list"
  ue_data :: "cloud list"
  ue_files :: files

text \<open>Joining the threads adds up what they counted.\<close>

definition indicateEnd :: "uploadEnd \<Rightarrow> int \<times> int" where
  "indicateEnd e = (sum_list (map accuData (ue_meta e @ ue_data e)), sum_list (map accuUnique (ue_meta e @ ue_data e)))"

text \<open>
  The threads of the uploader. Each has its own socket and takes its objects from its own ring in the order in which the encoder put them there;
  the metadata threads also use the files of their cloud.
\<close>

definition uploadThreads ::
  "clientEnv \<Rightarrow> int \<Rightarrow> bytes \<Rightarrow> (nat \<Rightarrow> bytes) \<Rightarrow> (nat \<Rightarrow> bytes) \<Rightarrow> segmenter list \<Rightarrow> files \<Rightarrow> (unit, uploadEnd) outcome option" where
  "uploadThreads E userID name metaIn dataIn gs f =
     (let W = ce_net E; clouds = (\<lambda>inp. map (\<lambda>i. mkCloud (mkSocket W userID (inp i))) [0..<length gs]) in
      bindP (perCloud (\<lambda>i. thread_handler_meta W (ce_sys E) name i (metaItems (gs ! i))) 0 (clouds metaIn) f)
        (\<lambda>_ (ms, f1).
           bindP (perCloud (\<lambda>i (t, u). bindP (thread_handler W (dataItems (gs ! i)) t) (\<lambda>_ t1. Some (Done () (t1, u))) (\<lambda>t1. (t1, u))) 0 (clouds dataIn) ())
             (\<lambda>_ (ds, _). Some (Done () \<lparr> ue_meta = ms, ue_data = ds, ue_files = f1 \<rparr>))
             (\<lambda>(ds, _). \<lparr> ue_meta = ms, ue_data = ds, ue_files = f1 \<rparr>))
        (\<lambda>(ms, f1). \<lparr> ue_meta = ms, ue_data = [], ue_files = f1 \<rparr>))"

text \<open>The branch for \<open>-u\<close>. A failing constructor ends the program.\<close>

definition clientUpload ::
  "clientEnv \<Rightarrow> configuration \<Rightarrow> int \<Rightarrow> int \<Rightarrow> bytes \<Rightarrow> (nat \<Rightarrow> bytes) \<Rightarrow> (nat \<Rightarrow> bytes) \<Rightarrow> files \<Rightarrow> (unit, uploadEnd) outcome option" where
  "clientUpload E conf securetype userID arg metaIn dataIn f =
     (case f arg of
        None \<Rightarrow> Some (Crash NullDeref)
      | Some contents \<Rightarrow>
          if 256 < namesizeOf arg then Some (Crash BufferOverflow)
          else
            (case (mkEncoder (ce_gf E) CAONT_RS_TYPE (conf_n conf) (conf_m conf) (conf_r conf) securetype, defaultChunker) of
               (Some (codec, c), Inr chunkerObj) \<Rightarrow>
                 (case uploadItems conf chunkerObj arg contents of
                    None \<Rightarrow> None
                  | Some (Inl e) \<Rightarrow> Some (Crash e)
                  | Some (Inr items) \<Rightarrow>
                      (case encodeFile (ce_ssl E) (ce_rnd E) codec c (ce_mem E) (ce_opens E) (ce_buffer E) items f of
                         Crash e \<Rightarrow> Some (Crash e)
                       | Fails (gs, f1) \<Rightarrow> Some (Fails \<lparr> ue_meta = [], ue_data = [], ue_files = f1 \<rparr>)
                       | Done _ (gs, f1) \<Rightarrow> uploadThreads E userID (arg @ [0]) metaIn dataIn gs f1))
             | _ \<Rightarrow> Some (Fails \<lparr> ue_meta = [], ue_data = [], ue_files = f \<rparr>)))"

section \<open>Download\<close>

record downloadEnd =
  de_meta :: "downCloud list"
  de_data :: "downThread list"
  de_files :: files

definition outName :: "bytes \<Rightarrow> bytes" where
  "outName arg = cstring arg @ ascii ''.d''"

text \<open>The data threads, which wait until \<open>downloadFile\<close> gives them the name of the recipe.\<close>

definition dataThreads :: "net \<Rightarrow> bytes \<Rightarrow> sock list \<Rightarrow> (unit, sock list \<times> downThread list) outcome option" where
  "dataThreads W name socks =
     perCloud (\<lambda>i (k, ts).
         if \<not> fits256 (serverRecipeName name i) then Some (Crash BufferOverflow)
         else bindP (thread_handler_data W (serverRecipeName name i) k) (\<lambda>_ t. Some (Done () (dt_sock t, ts @ [t]))) (\<lambda>t. (dt_sock t, ts @ [t])))
       0 socks []"

text \<open>
  What follows the recipes: the threads fetch the shares, which are put together, decoded and written. The output file was opened
  before; without it the first \<open>fwrite\<close> uses a null pointer.
\<close>

definition fetchFile ::
  "clientEnv \<Rightarrow> cdcodec \<Rightarrow> nat \<Rightarrow> bytes \<Rightarrow> int \<Rightarrow> (nat \<Rightarrow> bytes) \<Rightarrow> downCloud list \<times> files \<Rightarrow> (unit, downloadEnd) outcome option" where
  "fetchFile E codec k name userID dataIn st =
     (case st of (gs, f) \<Rightarrow>
      bindP (dataThreads (ce_net E) name (map (\<lambda>i. mkSocket (ce_net E) userID (dataIn i)) [0..<k]))
        (\<lambda>_ (_, ts).
           let end0 = \<lparr> de_meta = gs, de_data = ts, de_files = f \<rparr> in
           bindP (downloadFile k [] (map dt_items ts))
             (\<lambda>(totalSecrets, items) _.
                bindP (decodeFile (ce_ssl E) codec [0..<k] (ce_stale E) totalSecrets items)
                  (\<lambda>_ w. if ce_opens E (outName name) then Some (Done () (end0\<lparr>de_files := f(outName name \<mapsto> wr_file w)\<rparr>)) else Some (Crash NullDeref))
                  (\<lambda>w. end0))
             (\<lambda>_. end0))
        (\<lambda>(_, ts). \<lparr> de_meta = gs, de_data = ts, de_files = f \<rparr>))"

text \<open>
  The branch for \<open>-d\<close>. The result of \<open>downloadKeyFile\<close> is not used, and \<open>preDownloadFile\<close> always returns -1, so that
  \<open>downloadFile\<close> is always called.
\<close>

definition clientDownload ::
  "clientEnv \<Rightarrow> configuration \<Rightarrow> int \<Rightarrow> int \<Rightarrow> bytes \<Rightarrow> (nat \<Rightarrow> bytes) \<Rightarrow> (nat \<Rightarrow> bytes) \<Rightarrow> files \<Rightarrow> (unit, downloadEnd) outcome option" where
  "clientDownload E conf securetype userID arg metaIn dataIn f =
     (case mkDecoder (ce_gf E) CAONT_RS_TYPE (conf_n conf) (conf_m conf) (conf_r conf) securetype of
        None \<Rightarrow> Some (Fails \<lparr> de_meta = [], de_data = [], de_files = f \<rparr>)
      | Some codec \<Rightarrow>
          (let k = nat (conf_k conf); name = arg @ [0]; out = outName name; W = ce_net E;
               gs = map (\<lambda>i. \<lparr> dc_sock = mkSocket W userID (metaIn i), dc_counter = ce_counter E i \<rparr>) [0..<k];
               mk = (\<lambda>(gs, f). \<lparr> de_meta = gs, de_data = [], de_files = f \<rparr>) in
           if 256 < namesizeOf arg \<or> \<not> fits256 out then Some (Crash BufferOverflow)
           else
             bindP (downloadKeyFiles W (ce_sys E) (ce_opens E) name 0 gs f)
               (\<lambda>_ (gs1, f1).
                  bindP (preDownloadFile (ce_ssl E) (ce_rnd E) codec W (ce_sys E) (ce_opens E) userID (ce_tmp E (namesizeOf arg * 32)) name
                      (gs1, if ce_opens E out then f1(out \<mapsto> []) else f1))
                    (\<lambda>_ st. fetchFile E codec k name userID dataIn st) mk) mk))"

section \<open>The program\<close>

text \<open>\<open>atoi\<close> of the C library: white space, a sign, digits; the value saturates as a long and is cut to an int.\<close>

fun digitsValue :: "int \<Rightarrow> bytes \<Rightarrow> int" where
  "digitsValue a [] = a"
| "digitsValue a (b # bs) = (if 48 \<le> b \<and> b \<le> 57 then digitsValue (10 * a + uint b - 48) bs else a)"

definition atoi :: "bytes \<Rightarrow> int" where
  "atoi s =
     (let t = dropWhile (\<lambda>b. b = 32 \<or> 9 \<le> b \<and> b \<le> 13) s;
          v = (if t \<noteq> [] \<and> hd t = 45 then - digitsValue 0 (tl t) else if t \<noteq> [] \<and> hd t = 43 then digitsValue 0 (tl t) else digitsValue 0 t) in
      wrap32 (max (- 9223372036854775808) (min 9223372036854775807 v)))"

text \<open>
  \<open>argv\<close> has the name of the program first; \<open>locks\<close> is the result of \<open>opensslLockSetup\<close>. Without five arguments the program prints its usage and
  exits with an error. \<open>up\<close> and \<open>down\<close> are what the metadata servers and the data servers send during the upload and the download.
\<close>

definition clientMain ::
  "clientEnv \<Rightarrow> bool \<Rightarrow> bytes list \<Rightarrow> (nat \<Rightarrow> bytes) \<times> (nat \<Rightarrow> bytes) \<Rightarrow> (nat \<Rightarrow> bytes) \<times> (nat \<Rightarrow> bytes) \<Rightarrow> files \<Rightarrow> (unit, files) outcome option" where
  "clientMain E locks argv up down f =
     (if length argv \<noteq> 5 then Some (Fails f)
      else if \<not> locks then Some (Done () f)
      else
        (let arg = argv ! 1; userID = atoi (argv ! 2); opt = argv ! 3; securetype = securetypeOf (argv ! 4); conf = mkConfiguration in
         bindP
           (if wantsUpload opt then
              bindP (clientUpload E conf securetype userID arg (fst up) (snd up) f) (\<lambda>_ e. Some (Done () (ue_files e))) ue_files
            else Some (Done () f))
           (\<lambda>_ f1.
              if wantsDownload opt then
                bindP (clientDownload E conf securetype userID arg (fst down) (snd down) f1) (\<lambda>_ e. Some (Done () (de_files e))) de_files
              else Some (Done () f1))
           id))"

section \<open>The file is cut into secrets\<close>







section \<open>Sizes in the configuration of the client\<close>

lemma conf_shares:
  assumes "mkEncoder gf CAONT_RS_TYPE 4 1 2 HIGH_SEC_PAIR_TYPE = Some (codec, c)"
  shows "codecN codec = 4" "codecK codec = 3" "shareSizeOf codec L = 32 * ((L + 127) div 96)"
proof -
  have codec: "CDType codec = CAONT_RS_TYPE" "codecN codec = 4" "codecK codec = 3" "bytesPerSecretWord codec = 32"
    using assms by (auto simp: mkEncoder_def mkCrypto_def mkCDCodec_def codec_types crypto_types getHashSize_def getKeySize_def Let_def split: sum.splits if_splits)
  show "codecN codec = 4" "codecK codec = 3" by (fact codec)+
  define t where "t = (L + 32) div 96"
  have L: "L + 32 = 96 * t + (L + 32) mod 96" "(L + 32) mod 96 < 96" by (simp_all add: t_def)
  have "rsAlignedSize codec L + 32 = 96 * (if (L + 32) mod 96 = 0 then t else t + 1)"
    using L(1) by (simp add: rsAlignedSize_def codec Let_def t_def [symmetric])
  then have "(rsAlignedSize codec L div 32 + 1) div 3 = (if (L + 32) mod 96 = 0 then t else t + 1)"
    using div_add_self2 [of 32 "rsAlignedSize codec L"] by simp
  also have "... = (L + 127) div 96"
  proof (cases "(L + 32) mod 96 = 0")
    case True
    then have "L + 127 = 95 + 96 * t" using L(1) by simp
    then show ?thesis using True by (simp only: div_mult_self2) simp
  next
    case False
    then obtain q where "(L + 32) mod 96 = Suc q" "q < 95" using L(2) by (cases "(L + 32) mod 96") auto
    then have "L + 127 = q + 96 * (t + 1)" "q < 96" using L(1) by simp_all
    then show ?thesis using False by (simp only: div_mult_self2) simp
  qed
  finally have "(rsAlignedSize codec L div 32 + 1) div 3 = (L + 127) div 96" .
  then show "shareSizeOf codec L = 32 * ((L + 127) div 96)" by (simp add: shareSizeOf_def rsShareSize_def codec codec_types Let_def)
qed

lemma conf_good:
  assumes "mkEncoder gf CAONT_RS_TYPE 4 1 2 HIGH_SEC_PAIR_TYPE = Some (codec, c)"
  shows "length d \<le> 16384 \<Longrightarrow> goodSecret codec d" "length name \<le> 16384 \<Longrightarrow> goodName codec name \<longleftrightarrow> 4 \<le> length name"
    and "length name \<le> 736 \<Longrightarrow> shareSizeOf codec (length name) \<le> 256"
proof -
  note sh = conf_shares [OF assms]
  have big: "shareSizeOf codec L \<le> 5472" if "L \<le> 16384" for L
    using div_le_mono [of "L + 127" 16511 96] that by (simp add: sh)
  then show "length d \<le> 16384 \<Longrightarrow> goodSecret codec d"
    by (fastforce simp: goodSecret_def SECRET_SIZE_def SHARE_BUFFER_SIZE_def RING_BUFFER_DATA_SIZE_def sh(1))
  have "32 * ((L + 127) div 96) * 4 \<le> L * 32 \<longleftrightarrow> 4 \<le> L" for L :: nat
  proof (cases "L < 6")
    case True
    then have "(L + 127) div 96 = 1" by (intro div_nat_eqI) simp_all
    then show ?thesis by simp
  next
    case False
    moreover have "96 * ((L + 127) div 96) \<le> L + 127" by simp
    ultimately show ?thesis by linarith
  qed
  then show "length name \<le> 16384 \<Longrightarrow> goodName codec name \<longleftrightarrow> 4 \<le> length name"
    using big [of "length name"] by (simp add: goodName_def SECRET_SIZE_def RING_BUFFER_DATA_SIZE_def sh)
  show "length name \<le> 736 \<Longrightarrow> shareSizeOf codec (length name) \<le> 256"
    using div_le_mono [of "length name + 127" 863 96] by (simp add: sh)
qed

lemma namesizeOf_plain: "0 \<notin> set arg \<Longrightarrow> namesizeOf arg = length arg + 1"
proof -
  have "0 \<notin> set arg \<Longrightarrow> nameLoop (arg @ [0]) j = j + length arg" for j by (induction arg arbitrary: j) auto
  then show "0 \<notin> set arg \<Longrightarrow> namesizeOf arg = length arg + 1" by (simp add: namesizeOf_def)
qed

section \<open>Properties\<close>




section \<open>A download gives the file back\<close>

lemma dataThreads_run:
  assumes "\<forall>i<k. thread_handler_data W (serverRecipeName name i) (socks i) = Some (Done () (ts i)) \<and> fits256 (serverRecipeName name i)"
  obtains socks1 where "dataThreads W name (map socks [0..<k]) = Some (Done () (socks1, map ts [0..<k]))"
proof -
  define step where "step = (\<lambda>i (s :: sock, ts). if \<not> fits256 (serverRecipeName name i) then Some (Crash BufferOverflow)
      else bindP (thread_handler_data W (serverRecipeName name i) s) (\<lambda>_ t. Some (Done () (dt_sock t, ts @ [t]))) (\<lambda>t. (dt_sock t, ts @ [t])))"
  have "\<exists>g1. step (0 + j) (map socks [0..<k] ! j, map ts [0..<0 + j]) = Some (Done () (g1, map ts [0..<Suc (0 + j)])) \<and> True" if "j < length (map socks [0..<k])" for j
    using that assms by (simp add: step_def)
  then obtain socks1 where "perCloud step 0 (map socks [0..<k]) (map ts [0..<0]) = Some (Done () (socks1, map ts [0..<0 + length (map socks [0..<k])]))"
    using perCloud_loop [of "map socks [0..<k]" step 0 "\<lambda>i. map ts [0..<i]" "\<lambda>_ _. True"] by blast
  then show ?thesis using that by (simp add: dataThreads_def step_def)
qed

text \<open>The output file is none of the client's temporary files.\<close>

lemma outName_apart:
  assumes "fullPath name" "t \<in> tempNames name i"
  shows "t \<noteq> outName name" "t @ 47 # p \<noteq> outName name"
proof -
  obtain base where base: "cstring name = 47 # base" using assms(1) by (cases "cstring name") (auto simp: fullPath_def)
  show "t \<noteq> outName name" "t @ 47 # p \<noteq> outName name"
    using assms(2) base
    by (auto simp: tempNames_def encKeyName_def downKeyName_def decKeyName_def shareRecipeName_def serverRecipeName_def outName_def ascii_def)
qed

lemma clean_out: "fullPath name \<Longrightarrow> clean name k f \<Longrightarrow> clean name k (f(outName name \<mapsto> d))"
  using outName_apart by (auto simp: clean_def)

lemma tempFiles_out:
  assumes "fullPath name"
  shows "(tempFiles name keys xs f A B)(outName name \<mapsto> d) = tempFiles name keys xs (f(outName name \<mapsto> d)) A B"
proof
  fix p
  have "\<forall>j. outName name \<noteq> decKeyName name j \<and> outName name \<noteq> shareRecipeName j"
    using outName_apart(1) [OF assms, of _] by (metis insertI1 insertI2 tempNames_def)
  then have "tempFiles name keys xs (f(outName name \<mapsto> d)) A B (outName name) = Some d" by (subst tempFiles_simps(5)) simp_all
  moreover have "p \<noteq> outName name \<Longrightarrow> tempFiles name keys xs (f(outName name \<mapsto> d)) A B p = tempFiles name keys xs f A B p"
    by (auto simp: tempFiles_def map_add_def split: option.split)
  ultimately show "((tempFiles name keys xs f A B)(outName name \<mapsto> d)) p = tempFiles name keys xs (f(outName name \<mapsto> d)) A B p" by simp
qed

text \<open>What follows the recipes, given the answers of the data servers.\<close>

lemma fetchFile_run:
  assumes "\<forall>i<k. thread_handler_data (ce_net E) (serverRecipeName name i) (mkSocket (ce_net E) u (replies i)) = Some (Done () (ts i)) \<and> fits256 (serverRecipeName name i)"
    and "downloadFile k [] (map (dt_items \<circ> ts) [0..<k]) = Some (Done (total', items) ())"
    and "decodeFile (ce_ssl E) codec [0..<k] (ce_stale E) total' items = Some (Done () w)" "ce_opens E (outName name)"
  shows "fetchFile E codec k name u replies (gs, f) = Some (Done () \<lparr> de_meta = gs, de_data = map ts [0..<k], de_files = f(outName name \<mapsto> wr_file w) \<rparr>)"
proof -
  obtain socks1 where "dataThreads (ce_net E) name (map (\<lambda>i. mkSocket (ce_net E) u (replies i)) [0..<k]) = Some (Done () (socks1, map ts [0..<k]))"
    using dataThreads_run [OF assms(1)] by blast
  then show ?thesis using assms(2-4) by (simp add: fetchFile_def Let_def)
qed

text \<open>A data server after the metadata server has put the recipe on their disk.\<close>

lemma recipe_placed:
  assumes "fullPath name" "i < 100" "storeInv ssl cs d" "hasShares d xs" "\<nexists>x. recipesDir @ underscores (serverRecipeName name i) = shareContainerDirName d @ x"
  shows "let path = recipesDir @ underscores (serverRecipeName name i); d1 = d\<lparr>disk := (disk d)(path \<mapsto> r)\<rparr> in
    storeInv ssl cs d1 \<and> hasShares d1 xs \<and> plainName path \<and> length path \<le> 248 \<and> disk d1 path = Some r"
  using assms(3,4) tempNames_paths(3,4) [OF assms(1,2)] unfolding hasShares_def Let_def disk_elsewhere(2,3) [OF assms(5)] by simp

text \<open>
  C5. A download gives the file back. Let the servers of the three clouds that a download uses hold what an upload leaves there. A metadata server has
  the encrypted key file, the encrypted metadata chunks of its cloud's shares in segments of at most 512, and the file under its share of the name; a data
  server has the shares of the secrets, and the disk is common to both. The file is named by its full path of three to sixty plain characters, no
  temporary file of the client exists, the commands of the shell and the connections work. Then there are answers of the servers for which the download
  branch of the program, in its high security setting, ends; afterwards the output file is the concatenation of the secrets, and no other file
  has changed. Every metadata server, asked what the client sent it, gives these answers, and every data server too, on the disk that the
  metadata server leaves.
\<close>

theorem client_download_restores:
  assumes "gf_laws (ce_gf E)" "evp_ok (ce_ssl E)" "mkEncoder (ce_gf E) CAONT_RS_TYPE 4 1 2 HIGH_SEC_PAIR_TYPE = Some (codec, c)"
    and "whole (net_recv (ce_net E))" "sendsWhole (ce_net E)" "system_ok enc dec (ce_sys E)" "\<forall>p. ce_opens E p"
    and "\<forall>n. length (ce_tmp E n) = n" "\<forall>i. length (ce_stale E i) = SECRET_SIZE" "\<forall>i<3. int32 (ce_counter E i)"
    and "whole N" "faultless F" "hashOfServer = Inr cs" "shell_rm sh" "int32 u"
    and "0 \<notin> set arg" "3 \<le> length arg" "fullPath (arg @ [0])" "clean (arg @ [0]) 3 f"
    and "ds \<noteq> []" "\<forall>d\<in>set ds. length d \<le> SECRET_SIZE" "int (24 + 40 * length ds) < 2147483648"
    and meta: "\<forall>i<3. (\<forall>seg\<in>set (segmentsOf [] (cloudShares (ce_ssl E) codec i 0 ds)). length seg \<le> 512) \<and>
      chunksFor (ce_ssl E) c (segmentsOf [] (cloudShares (ce_ssl E) codec i 0 ds)) (ms i) (keys i) \<and>
      metaHolds (ce_ssl E) cs u enc (arg @ [0]) i (shareAt (ce_ssl E) codec i (arg @ [0])) (fs i) (ms i) (keys i) (srv i)"
    and data: "\<forall>i<3. storeInv (ce_ssl E) cs (dsrv i) \<and> hasShares (dsrv i) (cloudShares (ce_ssl E) codec i 0 ds) \<and> disk (dsrv i) = disk (srv i) \<and>
      (\<nexists>x. recipesDir @ underscores (serverRecipeName (arg @ [0]) i) = shareContainerDirName (dsrv i) @ x)"
  shows "\<exists>metaIn dataIn e.
    clientDownload E mkConfiguration HIGH_SEC_PAIR_TYPE u arg metaIn dataIn f = Some (Done () e) \<and> de_files e = f(outName arg \<mapsto> concat ds) \<and>
    (\<forall>i<3. \<exists>h s. SocketHandlerMeta N F (ce_ssl E) (so_out (dc_sock (de_meta e ! i))) (srv i) = Some (Done () (h, s)) \<and>
      concat (dedupCore.sent s) = concat (dedupCore.sent (srv i)) @ metaIn i \<and>
      (\<exists>h' s'. SocketHandlerData N F sh (ce_ssl E) (so_out (dt_sock (de_data e ! i))) ((dsrv i)\<lparr>disk := disk s\<rparr>) = Some (Done () (h', s')) \<and>
        concat (dedupCore.sent s') = concat (dedupCore.sent (dsrv i)) @ dataIn i))"
proof -
  let ?name = "arg @ [0]" and ?ssl = "ce_ssl E" and ?k = "3 :: nat" and ?W = "ce_net E"
  let ?xs = "\<lambda>i. cloudShares ?ssl codec i 0 ds" and ?path = "\<lambda>i. recipesDir @ underscores (serverRecipeName (arg @ [0]) i)"
  let ?fs = "\<lambda>i. wrap32 (ce_counter E i + secretsSize (?xs i))" and ?out = "outName ?name"
  have k: "?k = nat (4 - 1)" "?k \<le> 100" "100 > ?k" by simp_all
  have arg: "cstring ?name = arg" using assms(16) by (simp add: cstring_def takeWhile_append)
  have len: "length arg \<le> 60" "length ?name \<le> 61" using assms(18) arg by (simp_all add: fullPath_def)
  have good: "\<forall>d\<in>set ds. goodSecret codec d" "goodName codec ?name" "shareSizeOf codec (length ?name) \<le> 256"
    using conf_good(1) [OF assms(3)] conf_good(2,3) [OF assms(3), of ?name] assms(17,21) len by (simp_all add: SECRET_SIZE_def)
  have tmp: "length (ce_tmp E (namesizeOf arg * 32)) = length ?name * 32" using assms(8) by (simp add: namesizeOf_plain [OF assms(16)])
  have meta': "\<forall>i<?k. (\<forall>seg\<in>set (segmentsOf [] (?xs i)). length seg \<le> 512) \<and> chunksFor ?ssl c (segmentsOf [] (?xs i)) (ms i) (keys i) \<and>
      metaHolds ?ssl cs u enc ?name i (shareAt ?ssl codec i ?name) (fs i) (ms i) (keys i) (srv i) \<and> int32 (ce_counter E i)"
    using meta assms(10) by blast
  obtain metaIn gs1 where m1: "downloadKeyFiles ?W (ce_sys E) (ce_opens E) ?name 0 (map (\<lambda>i. \<lparr> dc_sock = mkSocket ?W u (metaIn i), dc_counter = ce_counter E i \<rparr>) [0..<?k]) f =
      Some (Done True (gs1, tempFiles ?name keys ?xs f {..<?k} {}))"
    and m2: "\<forall>f'. clean ?name ?k f' \<longrightarrow> (\<exists>gs2.
      preDownloadFile ?ssl (ce_rnd E) codec ?W (ce_sys E) (ce_opens E) u (ce_tmp E (namesizeOf arg * 32)) ?name (gs1, tempFiles ?name keys ?xs f' {..<?k} {}) = Some (Done () (gs2, f')) \<and> length gs2 = ?k \<and>
      (\<forall>i<?k. \<exists>h s'. SocketHandlerMeta N F ?ssl (so_out (dc_sock (gs2 ! i))) (srv i) = Some (Done () (h, s')) \<and>
        concat (dedupCore.sent s') = concat (dedupCore.sent (srv i)) @ metaIn i \<and>
        disk s' = (disk (srv i))(?path i \<mapsto> recipeFileOf u (?fs i) (map entryOfShare (?xs i)))))"
    using recipes_come_back [where rnd = "ce_rnd E" and opens = "ce_opens E", OF assms(1-3) k(1,2) assms(20) good(1) assms(22) meta' good(2,3) tmp assms(18,4-7,19,11-13,15)] by blast
  obtain gs2 where gs2: "preDownloadFile ?ssl (ce_rnd E) codec ?W (ce_sys E) (ce_opens E) u (ce_tmp E (namesizeOf arg * 32)) ?name
      (gs1, tempFiles ?name keys ?xs (f(?out \<mapsto> [])) {..<?k} {}) = Some (Done () (gs2, f(?out \<mapsto> [])))"
    and metaSide: "\<forall>i<?k. \<exists>h s'. SocketHandlerMeta N F ?ssl (so_out (dc_sock (gs2 ! i))) (srv i) = Some (Done () (h, s')) \<and>
        concat (dedupCore.sent s') = concat (dedupCore.sent (srv i)) @ metaIn i \<and> disk s' = (disk (srv i))(?path i \<mapsto> recipeFileOf u (?fs i) (map entryOfShare (?xs i)))"
    using m2 clean_out [OF assms(18,19)] by blast
  let ?dsrv = "\<lambda>i. (dsrv i)\<lparr>disk := (disk (dsrv i))(?path i \<mapsto> recipeFileOf u (?fs i) (map entryOfShare (?xs i)))\<rparr>"
  have dsrv: "\<forall>i<?k. storeInv ?ssl cs (?dsrv i) \<and> hasShares (?dsrv i) (?xs i) \<and>
      (let path = ?path i in plainName path \<and> length path \<le> 248 \<and> disk (?dsrv i) path = Some (recipeFileOf u (?fs i) (map entryOfShare (?xs i))))"
    unfolding Let_def by (intro allI impI, rule recipe_placed [unfolded Let_def, OF assms(18)]) (use data in auto)
  have small: "int64 (wrap32 v)" for v using wrap32_int32 [of v] by (simp add: int32_def int64_def)
  have sizes: "int (length ds) < 2147483648" "\<forall>i<length ds. length (ce_stale E i) = SECRET_SIZE" "\<forall>i<?k. int64 (?fs i)"
    using assms(9,22) small by simp_all
  obtain dataIn ts items w where dataSide: "\<forall>i<?k. thread_handler_data ?W (serverRecipeName ?name i) (mkSocket ?W u (dataIn i)) = Some (Done () (ts i)) \<and>
      (\<exists>h s'. SocketHandlerData N F sh ?ssl (so_out (dt_sock (ts i))) (?dsrv i) = Some (Done () (h, s')) \<and> concat (dedupCore.sent s') = concat (dedupCore.sent (?dsrv i)) @ dataIn i)"
    and fin: "downloadFile ?k [] (map (dt_items \<circ> ts) [0..<?k]) = Some (Done (int (length ds), items) ())"
      "decodeFile ?ssl codec [0..<?k] (ce_stale E) (int (length ds)) items = Some (Done () w)" "wr_file w = concat ds"
    using download_rebuilds_file [where buf = "[]" and srv = ?dsrv, OF assms(1-3) k(1) assms(20) good(1) sizes(1,2) assms(4,5,11-15) sizes(3) dsrv] by blast
  have out: "fits256 ?out" using arg len by (simp add: outName_def fits256_def ascii_def)
  have fit: "fits256 (serverRecipeName ?name i)" if "i < ?k" for i using length_tempNames(5) [OF assms(18), of i] that by (simp add: fits256_def)
  have "fetchFile E codec ?k ?name u dataIn (gs2, f(?out \<mapsto> [])) = Some (Done () \<lparr> de_meta = gs2, de_data = map ts [0..<?k], de_files = f(?out \<mapsto> [], ?out \<mapsto> concat ds) \<rparr>)"
    (is "_ = Some (Done () ?e)")
    unfolding fin(3) [symmetric] by (rule fetchFile_run) (use dataSide fit fin(1,2) assms(7) in simp_all)
  moreover have "mkDecoder (ce_gf E) CAONT_RS_TYPE 4 1 2 HIGH_SEC_PAIR_TYPE = Some codec"
    using assms(3) by (auto simp: mkEncoder_def mkDecoder_def split: sum.splits)
  ultimately have "clientDownload E mkConfiguration HIGH_SEC_PAIR_TYPE u arg metaIn dataIn f = Some (Done () ?e)"
    using m1 gs2 assms(7) len out by (simp add: clientDownload_def mkConfiguration_def Let_def namesizeOf_plain [OF assms(16)] tempFiles_out [OF assms(18)])
  moreover have "\<exists>h s. SocketHandlerMeta N F ?ssl (so_out (dc_sock (gs2 ! i))) (srv i) = Some (Done () (h, s)) \<and>
      concat (dedupCore.sent s) = concat (dedupCore.sent (srv i)) @ metaIn i \<and>
      (\<exists>h' s'. SocketHandlerData N F sh ?ssl (so_out (dt_sock (map ts [0..<?k] ! i))) ((dsrv i)\<lparr>disk := disk s\<rparr>) = Some (Done () (h', s')) \<and>
        concat (dedupCore.sent s') = concat (dedupCore.sent (dsrv i)) @ dataIn i)" if i: "i < ?k" for i
  proof -
    obtain h s where m: "SocketHandlerMeta N F ?ssl (so_out (dc_sock (gs2 ! i))) (srv i) = Some (Done () (h, s))"
      "concat (dedupCore.sent s) = concat (dedupCore.sent (srv i)) @ metaIn i" "disk s = (disk (srv i))(?path i \<mapsto> recipeFileOf u (?fs i) (map entryOfShare (?xs i)))"
      using metaSide i by blast
    have "(dsrv i)\<lparr>disk := disk s\<rparr> = ?dsrv i" using m(3) data i by simp
    moreover have "dedupCore.sent (?dsrv i) = dedupCore.sent (dsrv i)" "map ts [0..<?k] ! i = ts i" using i by (simp, simp only: nth_map_upt diff_zero add_0)
    ultimately show ?thesis using m(1,2) dataSide i by metis
  qed
  moreover have "cstring arg = arg" using assms(16) unfolding cstring_def takeWhile_eq_all_conv by auto
  then have "outName ?name = outName arg" using arg by (simp add: outName_def)
  ultimately show ?thesis by (intro exI [of _ metaIn] exI [of _ dataIn] exI [of _ ?e]) simp
qed

text \<open>Three clouds with the file \<open>/ab\<close> of one secret.\<close>

definition dataSrv :: "nat \<Rightarrow> dedupCore" where
  "dataSrv i = (let x = cloudShare toySSL confCodec i 0 (replicate 64 7) in holdCore Map.empty (disk (metaSrv i)) (mde_shareFP (fst x)) (snd x))"

definition demoClient :: clientEnv where
  "demoClient = \<lparr> ce_ssl = toySSL, ce_gf = gf256, ce_rnd = (\<lambda>_. 0), ce_net = goodWire, ce_sys = demoSystem, ce_opens = (\<lambda>_. True), ce_mem = (\<lambda>_ _ _. 0),
     ce_buffer = [], ce_counter = (\<lambda>_. 0), ce_tmp = (\<lambda>n. replicate n 0), ce_stale = (\<lambda>_. replicate SECRET_SIZE 0) \<rparr>"

lemma dataSrv_ok:
  assumes "i < 3"
  shows "storeInv toySSL shaCrypto (dataSrv i)" "hasShares (dataSrv i) (cloudShares toySSL confCodec i 0 [replicate 64 7])"
    "disk (dataSrv i) = disk (metaSrv i)" "\<nexists>x. recipesDir @ y = shareContainerDirName (dataSrv i) @ x"
proof -
  let ?x = "cloudShare toySSL confCodec i 0 (replicate 64 7)"
  note codec = mkEncoder_good [OF gf256_laws toySSL_ok conf_encoder]
  have good: "goodShare RING_BUFFER_DATA_SIZE ?x" "generateHash toySSL highCrypto (snd ?x) = Inr (mde_shareFP (fst ?x))"
    using cloudShare_good(3,4) [OF codec(1) conf_sizes(3), of i 0] assms codec(2,3) by simp_all
  have "generateHash toySSL shaCrypto (snd ?x) = Inr (mde_shareFP (fst ?x))"
    using good(2) by (simp add: generateHash_def shaCrypto_def highCrypto_def)
  moreover have "snd ?x \<noteq> []" "int (length (snd ?x)) \<le> RING_BUFFER_DATA_SIZE" using good(1) by (auto simp: goodShare_def)
  ultimately show "storeInv toySSL shaCrypto (dataSrv i)" "hasShares (dataSrv i) (cloudShares toySSL confCodec i 0 [replicate 64 7])"
    using holdCore_ok [of "snd ?x" "mde_shareFP (fst ?x)" Map.empty "disk (metaSrv i)"] by (simp_all add: dataSrv_def Let_def hasShares_def)
  show "disk (dataSrv i) = disk (metaSrv i)" "\<nexists>x. recipesDir @ y = shareContainerDirName (dataSrv i) @ x"
    by (simp_all add: dataSrv_def Let_def holdCore_def demoCore_def recipesDir_def)
qed

theorem client_download_restores_witness:
  "\<exists>metaIn dataIn e. clientDownload demoClient mkConfiguration HIGH_SEC_PAIR_TYPE 8 (ascii ''/ab'') metaIn dataIn Map.empty = Some (Done () e) \<and>
    de_files e = [ascii ''/ab.d'' \<mapsto> replicate 64 7] \<and>
    (\<forall>i<3. \<exists>h s. SocketHandlerMeta goodNet fineEnv toySSL (so_out (dc_sock (de_meta e ! i))) (metaSrv i) = Some (Done () (h, s)) \<and>
      concat (dedupCore.sent s) = concat (dedupCore.sent (metaSrv i)) @ metaIn i \<and>
      (\<exists>h' s'. SocketHandlerData goodNet fineEnv demoShell toySSL (so_out (dt_sock (de_data e ! i))) ((dataSrv i)\<lparr>disk := disk s\<rparr>) = Some (Done () (h', s')) \<and>
        concat (dedupCore.sent s') = concat (dedupCore.sent (dataSrv i)) @ dataIn i))"
proof -
  let ?ds = "[replicate 64 (7 :: byte)]"
  have arg: "ascii ''/ab'' = [47, 97, 98]" "[47, 97, 98] @ [0] = pathName" "outName [47, 97, 98] = ascii ''/ab.d''" "fullPath pathName" by code_simp+
  have sel: "ce_ssl demoClient = toySSL" "ce_gf demoClient = gf256" "ce_net demoClient = goodWire" "ce_sys demoClient = demoSystem" "\<forall>p. ce_opens demoClient p"
    "\<forall>n. length (ce_tmp demoClient n) = n" "\<forall>i. length (ce_stale demoClient i) = SECRET_SIZE" "\<forall>i<3. int32 (ce_counter demoClient i)"
    by (simp_all add: demoClient_def int32_def)
  have metaS: "\<forall>i<3. (\<forall>seg\<in>set (segmentsOf [] (cloudShares toySSL confCodec i 0 ?ds)). length seg \<le> 512) \<and>
      chunksFor toySSL highCrypto (segmentsOf [] (cloudShares toySSL confCodec i 0 ?ds)) [demoChunk i] (demoKeys i) \<and>
      metaHolds toySSL shaCrypto 8 ((#) 83) pathName i (shareAt toySSL confCodec i pathName) 64 [demoChunk i] (demoKeys i) (metaSrv i)"
    using demoChunk_for(1,2) metaSrv_ok by (simp del: segmentsOf.simps cloudShares.simps)
  have dataS: "\<forall>i<3. storeInv toySSL shaCrypto (dataSrv i) \<and> hasShares (dataSrv i) (cloudShares toySSL confCodec i 0 ?ds) \<and> disk (dataSrv i) = disk (metaSrv i) \<and>
      (\<nexists>x. recipesDir @ underscores (serverRecipeName pathName i) = shareContainerDirName (dataSrv i) @ x)"
    using dataSrv_ok by blast
  note main = client_download_restores [where E = demoClient and arg = "[47, 97, 98]" and f = Map.empty and ms = "\<lambda>i. [demoChunk i]" and keys = demoKeys and fs = "\<lambda>_. 64"
      and enc = "(#) 83" and dec = tl, unfolded arg sel(1-4), OF gf256_laws toySSL_ok conf_encoder goodWire_whole(2,1) demoSystem_ok sel(5-8)
      goodNet_whole(1) fineEnv_faultless goodNet_whole(2) demoShell_rm _ _ _ arg(4) _ _ _ _ metaS dataS]
  have "concat ?ds = replicate 64 7" by simp
  with main show ?thesis unfolding arg(1) by (simp add: int32_def clean_def SECRET_SIZE_def)
qed

end
