(* ===== verification/Spec2Isabelle.thy ===== *)
theory Spec2Isabelle
  imports Chunker CDCodecCorrect RingQueue ServerComm Encoder Recipes ClientMain
begin

text \<open>
  A verification development for MetaDedup, a backup system with encrypted deduplication over several clouds.

  \<^bold>\<open>The program.\<close> The client (src/client) cuts a file into secrets (chunking/chunker.cc), turns each secret into n shares
  of which any k suffice (coding/CDCodec.cc with utils/CryptoPrimitive.cc; threads and rings in coding/encoder.cc and
  utils/BasicRingBuffer.hh), and sends share i to the data server of cloud i (comm/uploader.cc, utils/socket.cc). The
  metadata of the shares of a cloud (fingerprints and sizes) is grouped into segments; a segment is encrypted under the hash of
  its contents, goes to the metadata server of the cloud as if it were a share, and its key goes into a key file that is
  encrypted by a command and stored there too. A server (src/server) has one handler per kind of connection (comm/server.cc).
  Uploads run in two stages: the client announces fingerprints, the server says which shares the user already has, and the client
  sends the others. The core of the metadata server (dedup/DedupCore.cc) keeps shares in containers, a share index with
  reference counts and an inode index in LevelDB, and recipes of files; that of the data server (dedup/minDedupCore.cc) keeps shares only.
  For a download (comm/downloader.cc, coding/decoder.cc, main.cc) the client gets the key files and the metadata chunks, writes the recipe of each
  cloud, sends it to the metadata server, whose disk the data server shares, and gets the listed shares from k data servers.

  \<^bold>\<open>Theories.\<close> Each names the functions of the source, and every operation keeps its name where Isabelle allows it.

  \<^item> Prelude: machine types, checked reads, slices, little-endian numbers. Structs: the structs of dedup/dataStruct.hh as records with their
    image in memory; the locale \<open>struct_layout\<close> is interpreted for every struct. \<open>wrap32\<close> is the value of an int after overflow.
  \<^item> Crypto: CryptoPrimitive over a record of the OpenSSL calls; \<open>evp_ok\<close> is what OpenSSL documents, and the locale \<open>crypto_contract\<close> what the callers use.
  \<^item> GF256, GFLinear, MatrixInv, CDCodec, CDCodecCorrect: the field of gf_complete as a parameter with the laws \<open>gf_laws\<close>, which
    GF256 proves of an own implementation; matrix inversion; the constructor, the four encoders and decoders and the dispatch; their correctness.
  \<^item> Chunker: the rolling-hash chunker and a reference that recomputes every window; the locale \<open>chunking_contract\<close> has
    what both kinds of chunking promise.
  \<^item> RingQueue: the ring buffer; its critical sections with condition variables are the step relation \<open>ring_step\<close>, and its operations refine the
    locale \<open>bounded_fifo\<close>. Pipeline: the coding threads between such rings, as a step relation.
  \<^item> DedupState, ShareIndex, RecipeStore, BufferLink, FirstStage, SecondStage, Restore, Upload: DedupCore in the order of the source, and
    what its operations do together. MinDedup: minDedupCore.
  \<^item> Network, ServerComm: sockets and both connection handlers; the locale \<open>share_server\<close> has what the handlers promise a client that uploads.
  \<^item> Socket, ClientFiles, Uploader, Encoder: the client's end of a connection, its files and shell commands, the uploader threads, the encoder.
  \<^item> Downloader, Decoder, Recipes, ClientMain: the downloader, the decoder, the exchange that brings the recipes back, and main.cc with conf.hh.

  \<^bold>\<open>State and effects.\<close> An object is a record with its members. A member function takes the record and returns an \<open>outcome\<close>: \<open>Done\<close> with
  the result and the new state, \<open>Fails\<close> with the state at an error return or exit, or \<open>Crash\<close> where C++ is undefined (an access outside an array, a
  read of memory that was never written, a NULL pointer). LevelDB is a map, the file system a map from paths to contents, and
  the record \<open>env\<close> decides for each call whether it fails, possibly after a part of the work. The network is a pair of oracles that decide how many bytes
  each call moves; what the peer sends is a list of bytes. Memory that is never written comes in as an argument, so that
  theorems hold for whatever it has. Locks are not modelled: every operation of a core is one critical section. Threads
  that share only rings are composed through the contents of the rings, which RingQueue and Pipeline justify; threads of different clouds have their own
  sockets and files and are run one after the other.

  \<^bold>\<open>Loops.\<close> A loop that may run for ever is a \<open>partial_function (option)\<close>, or returns None where it waits for input that never
  comes; the theorems then state that it returns. There is no fuel. Bounded loops are structural or have a measure.

  \<^bold>\<open>What is shown.\<close>

  \<^item> Client data path: any k shares decode to the secret for all four schemes (C1), what the CAONT-RS decoder accepts is an encoding (C4), shares
    depend on the secret alone (C18), inversion is correct (C15); the chunker equals its reference, partitions the buffer and resynchronises
    (C6, C16, C17).
  \<^item> Server store: an invariant ties every index value to bytes with that hash, under all faults (C7); both index updates
    implement a reference-count specification (C9, C10); the first stage is exact (C11); an upload that is acknowledged can be restored (C2), older files
    survive later uploads and their failures (C3), a restore sends the recipe's shares (C8); cleaning up keeps shares (C14); the second stage of the data server
    stores what it asked for (C26).
  \<^item> Communication: sessions with both handlers (C27, C28), the recipe handed from one server to the other (C29), key files (C30); the
    uploader sends well-formed packages (C36) and, together with the handler, gets every share stored (C33).
  \<^item> Concurrency: the ring is a queue without deadlock when no wake-up is spurious (C12, C13), and the pipeline keeps the order and ends (C35).
  \<^item> Client program: the file reaches the encoder cut into secrets (C38), the encoder serves all clouds (C34), the decoder writes in order (C39), and a
    download against servers that hold what an upload leaves gives the file back (C5).
  \<^item> Limits and defects of the code, as theorems: names of files run out (C19), directories are not created (C20), an eviction can lose shares (C21), a
    restart hides containers (C22), cleaning up breaks the link of nodes (C23), packages that hang or overflow the server (C24, C31, C32), spurious
    wake-ups (C25), segments that are too long (C37).

  \<^bold>\<open>Hypotheses.\<close> Parameters are constrained by documented behaviour only: \<open>evp_ok\<close>, \<open>gf_laws\<close>, \<open>shell_rm\<close> and \<open>system_ok\<close> (rm and openssl enc on
  plain names), \<open>whole\<close> (a recv delivers at least 256 bytes or all that is asked for, because the code reads its small fields with one recv),
  \<open>faultless\<close> where a property is about success. Witness theorems give concrete instances of all of them.

  \<^bold>\<open>Not modelled.\<close> BackendStorer.cc (server/main.cc passes NULL for both storers), the vendored LevelDB, gf_complete and OpenSSL (parameters), the OpenSSL
  lock callbacks, the reading of config-u and config-d, socket set-up, accept and thread creation, destructors that only free memory, timing and
  printed text, and server/main.cc, which only constructs the objects. User ids in the share index are positive. Recipes that do not fit the
  recipe buffer of 4 MB and files that come in several packages are in the model, but the theorems on restores are about files that come in one
  package. There is no acknowledgement of a recipe file: that the metadata server has stored it before the data server is
  asked is part of the composition in C5 and C29.
\<close>

end
